(* ===== verification/Kernel_Prelude.thy ===== *)
theory Kernel_Prelude
  imports Main "HOL-Library.Word" "HOL-Library.Monad_Syntax"
begin

text \<open>
  Shared vocabulary of the development: the machine types of \<^verbatim>\<open>rtdef.h\<close>, the error codes,
  the two alignment macros, the block copy that stands for \<^verbatim>\<open>memcpy\<close>, and the generic list and
  arithmetic lemmas that several components use.
\<close>

unbundle bit_operations_syntax

named_theorems rt_simps \<open>evaluation rules for the accessors and helpers of the model\<close>
named_theorems rt_inv \<open>preservation rules for the component invariants\<close>

section \<open>Machine types and error codes\<close>

type_synonym u8 = "8 word"
type_synonym u16 = "16 word"
type_synonym u32 = "32 word"
type_synonym rt_tick_t = u32

definition RT_EOK :: int where "RT_EOK = 0"
definition RT_ERROR :: int where "RT_ERROR = 1"
definition RT_ETIMEOUT :: int where "RT_ETIMEOUT = 2"
definition RT_EFULL :: int where "RT_EFULL = 3"
definition RT_EEMPTY :: int where "RT_EEMPTY = 4"
definition RT_ENOMEM :: int where "RT_ENOMEM = 5"
definition RT_ENOSYS :: int where "RT_ENOSYS = 6"
definition RT_EBUSY :: int where "RT_EBUSY = 7"
definition RT_EIO :: int where "RT_EIO = 8"
definition RT_EINTR :: int where "RT_EINTR = 9"
definition RT_EINVAL :: int where "RT_EINVAL = 10"

lemmas rt_err_defs [rt_simps] =
  RT_EOK_def RT_ERROR_def RT_ETIMEOUT_def RT_EFULL_def RT_EEMPTY_def RT_ENOMEM_def
  RT_ENOSYS_def RT_EBUSY_def RT_EIO_def RT_EINTR_def RT_EINVAL_def

definition RT_TICK_MAX :: rt_tick_t where "RT_TICK_MAX = 0xffffffff"
definition RT_TICK_HALF :: rt_tick_t where "RT_TICK_HALF = 0x7fffffff"

lemma RT_TICK_HALF_div: "RT_TICK_HALF = RT_TICK_MAX div 2"
  by (simp add: RT_TICK_HALF_def RT_TICK_MAX_def)

section \<open>Alignment\<close>

text \<open>
  \<^verbatim>\<open>RT_ALIGN(size, align)\<close> and \<^verbatim>\<open>RT_ALIGN_DOWN(size, align)\<close> clear the low bits with a mask;
  on sizes that do not overflow and a power of two this is division. The model uses the bit
  operations on \<^typ>\<open>nat\<close>, where clearing the low bits is shifting them out and back.
\<close>

definition RT_ALIGN_SIZE :: nat where "RT_ALIGN_SIZE = 4"

definition RT_ALIGN_DOWN :: "nat \<Rightarrow> nat \<Rightarrow> nat" where
  "RT_ALIGN_DOWN sz align = sz div align * align"

definition RT_ALIGN :: "nat \<Rightarrow> nat \<Rightarrow> nat" where
  "RT_ALIGN sz align = (sz + align - 1) div align * align"

lemma RT_ALIGN_DOWN_le: "RT_ALIGN_DOWN n a \<le> n"
  by (simp add: RT_ALIGN_DOWN_def)

lemma RT_ALIGN_DOWN_dvd: "a dvd RT_ALIGN_DOWN n a"
  by (simp add: RT_ALIGN_DOWN_def)

lemma RT_ALIGN_dvd: "a dvd RT_ALIGN n a"
  by (simp add: RT_ALIGN_def)

lemma RT_ALIGN_ge:
  assumes "0 < a" shows "n \<le> RT_ALIGN n a"
proof -
  have "(n + a - 1) div a * a + (n + a - 1) mod a = n + a - 1" by simp
  moreover have "(n + a - 1) mod a \<le> a - 1" using assms mod_less_divisor[of a "n + a - 1"] by linarith
  ultimately show ?thesis unfolding RT_ALIGN_def using assms by linarith
qed

lemma RT_ALIGN_less:
  assumes "0 < a" shows "RT_ALIGN n a < n + a"
proof -
  have "(n + a - 1) div a * a \<le> n + a - 1" by simp
  then show ?thesis unfolding RT_ALIGN_def using assms by linarith
qed

section \<open>Block copies\<close>

text \<open>
  \<open>mem_put dst off src n\<close> is \<^verbatim>\<open>memcpy(&dst[off], src, n)\<close> on byte arrays. It is used where
  \<open>off + n \<le> length dst\<close> and \<open>n \<le> length src\<close>; each client's invariant gives that bound.
\<close>

definition mem_put :: "'a list \<Rightarrow> nat \<Rightarrow> 'a list \<Rightarrow> nat \<Rightarrow> 'a list" where
  "mem_put dst off src n = take off dst @ take n src @ drop (off + n) dst"

lemma length_mem_put [simp]:
  "off + n \<le> length dst \<Longrightarrow> n \<le> length src \<Longrightarrow> length (mem_put dst off src n) = length dst"
  by (simp add: mem_put_def)

lemma nth_mem_put:
  assumes "off + n \<le> length dst" "n \<le> length src" "i < length dst"
  shows "mem_put dst off src n ! i = (if off \<le> i \<and> i < off + n then src ! (i - off) else dst ! i)"
  using assms by (auto simp: mem_put_def nth_append min_def)

lemma mem_put_zero [simp]: "mem_put dst off src 0 = dst"
  by (simp add: mem_put_def)

section \<open>Circular indices\<close>

lemma circ_index:
  assumes "r < (n::nat)" "k \<le> n"
  shows "(r + k) mod n = (if r + k < n then r + k else r + k - n)"
proof (cases "r + k < n")
  case True then show ?thesis by simp
next
  case False
  then have "(r + k) mod n = (r + k - n) mod n" by (simp add: mod_if)
  then show ?thesis using False assms by (cases "r + k - n < n") auto
qed

text \<open>
  Writing \<open>n\<close> cells of \<open>src\<close> from index \<open>w\<close> on, wrapping at \<open>b\<close>, as the two block copies of a
  circular buffer do.
\<close>

definition circ_put :: "'a list \<Rightarrow> nat \<Rightarrow> nat \<Rightarrow> 'a list \<Rightarrow> nat \<Rightarrow> 'a list" where
  "circ_put pool b w src n =
     (if b - w > n then mem_put pool w src n
      else mem_put (mem_put pool w src (b - w)) 0 (drop (b - w) src) (n - (b - w)))"

lemma length_circ_put:
  assumes "w < b" "b \<le> length pool" "n \<le> b" "n \<le> length src"
  shows "length (circ_put pool b w src n) = length pool"
  using assms by (auto simp: circ_put_def)

lemma nth_circ_put:
  assumes "w < b" "b \<le> length pool" "n \<le> b" "n \<le> length src" "k < b"
  shows "circ_put pool b w src n ! ((w + k) mod b) =
           (if k < n then src ! k else pool ! ((w + k) mod b))"
proof -
  have kk: "(w + k) mod b = (if w + k < b then w + k else w + k - b)"
    using assms circ_index[of w b k] by simp
  show ?thesis
    using assms by (auto simp: kk circ_put_def nth_mem_put)
qed

lemma circ_cover:
  assumes "r < (b::nat)" "p < b" shows "\<exists>k < b. p = (r + k) mod b"
proof (cases "r \<le> p")
  case True
  then show ?thesis using assms by (intro exI[of _ "p - r"]) auto
next
  case False
  then show ?thesis using assms by (intro exI[of _ "p + b - r"]) auto
qed

section \<open>Lists\<close>

lemma upt_map_shift: "map f [a ..< a + n] = map (\<lambda>i. f (a + i)) [0 ..< n]"
  by (rule nth_equalityI) auto

lemma remove1_append_notin: "x \<notin> set xs \<Longrightarrow> remove1 x (xs @ ys) = xs @ remove1 x ys"
  by (simp add: remove1_append)

lemma distinct_remove1_not_in: "distinct xs \<Longrightarrow> x \<notin> set (remove1 x xs)"
  by simp

lemma remove1_id: "x \<notin> set xs \<Longrightarrow> remove1 x xs = xs"
  by (rule remove1_idem)

end
