(* ===== verification/Bounded_Fifo.thy ===== *)
theory Bounded_Fifo
  imports Kernel_Prelude
begin

text \<open>
  The contract of a bounded first-in first-out queue, which the byte ring buffer
  (\<^verbatim>\<open>ringbuffer.c\<close>) and the mailbox ring (\<^verbatim>\<open>ipc.c\<close>) promise to their clients:
  \<open>push\<close> appends unless the queue is full, \<open>pop\<close> takes the oldest element unless it is empty,
  and a refused operation leaves the queue alone. The locale's lemmas lift the two laws to any
  interleaving of operations.
\<close>

section \<open>Runs of queue operations\<close>

datatype 'a fifo_op = Push 'a | Pop

text \<open>
  A run returns the final queue, the elements that were accepted and the elements that were
  handed out, both in the order in which it happened.
\<close>

fun fifo_run :: "('q \<Rightarrow> 'a \<Rightarrow> 'q \<times> bool) \<Rightarrow> ('q \<Rightarrow> 'q \<times> 'a option) \<Rightarrow> 'q \<Rightarrow> 'a fifo_op list
    \<Rightarrow> 'q \<times> 'a list \<times> 'a list" where
  "fifo_run push pop q [] = (q, [], [])"
| "fifo_run push pop q (Push x # ops) =
     (let (q1, ok) = push q x; (q2, acc, out) = fifo_run push pop q1 ops
      in (q2, (if ok then x # acc else acc), out))"
| "fifo_run push pop q (Pop # ops) =
     (let (q1, r) = pop q; (q2, acc, out) = fifo_run push pop q1 ops
      in (q2, acc, (case r of None \<Rightarrow> out | Some x \<Rightarrow> x # out)))"

section \<open>The contract\<close>

locale bounded_fifo =
  fixes inv :: "'q \<Rightarrow> bool"
    and contents :: "'q \<Rightarrow> 'a list"
    and cap :: "'q \<Rightarrow> nat"
    and push :: "'q \<Rightarrow> 'a \<Rightarrow> 'q \<times> bool"
    and pop :: "'q \<Rightarrow> 'q \<times> 'a option"
  assumes bounded: "inv q \<Longrightarrow> length (contents q) \<le> cap q"
    and push_ok: "inv q \<Longrightarrow> length (contents q) < cap q \<Longrightarrow>
      \<exists>q'. push q x = (q', True) \<and> inv q' \<and> contents q' = contents q @ [x] \<and> cap q' = cap q"
    and push_full: "inv q \<Longrightarrow> length (contents q) = cap q \<Longrightarrow> push q x = (q, False)"
    and pop_ok: "inv q \<Longrightarrow> contents q = x # xs \<Longrightarrow>
      \<exists>q'. pop q = (q', Some x) \<and> inv q' \<and> contents q' = xs \<and> cap q' = cap q"
    and pop_empty: "inv q \<Longrightarrow> contents q = [] \<Longrightarrow> pop q = (q, None)"
begin

lemma push_cases:
  assumes "inv q"
  obtains (full) "push q x = (q, False)" "length (contents q) = cap q"
  | (ok) q' where "push q x = (q', True)" "inv q'" "contents q' = contents q @ [x]" "cap q' = cap q"
  using assms bounded push_full push_ok by (meson nat_less_le)

lemma pop_cases:
  assumes "inv q"
  obtains (empty) "pop q = (q, None)" "contents q = []"
  | (ok) q' x where "pop q = (q', Some x)" "inv q'" "contents q = x # contents q'" "cap q' = cap q"
  using assms pop_empty pop_ok by (metis neq_Nil_conv)

text \<open>Conservation and order: what was in plus what was accepted is what came out plus what is in.\<close>

lemma run_fifo:
  assumes "inv q" "fifo_run push pop q ops = (q', acc, out)"
  shows "inv q' \<and> cap q' = cap q \<and> contents q @ acc = out @ contents q'"
  using assms
proof (induction ops arbitrary: q q' acc out)
  case Nil
  then show ?case by simp
next
  case (Cons op ops)
  show ?case
  proof (cases op)
    case (Push x)
    from Cons.prems(1) show ?thesis
    proof (cases rule: push_cases[where x = x])
      case full
      obtain q2 acc1 out1 where r: "fifo_run push pop q ops = (q2, acc1, out1)"
        by (metis prod_cases3)
      from Cons.IH[OF Cons.prems(1) r] Cons.prems(2) full Push r show ?thesis by auto
    next
      case (ok q1)
      obtain q2 acc1 out1 where r: "fifo_run push pop q1 ops = (q2, acc1, out1)"
        by (metis prod_cases3)
      from Cons.IH[OF ok(2) r] Cons.prems(2) ok Push r show ?thesis by simp
    qed
  next
    case Pop
    from Cons.prems(1) show ?thesis
    proof (cases rule: pop_cases)
      case empty
      obtain q2 acc1 out1 where r: "fifo_run push pop q ops = (q2, acc1, out1)"
        by (metis prod_cases3)
      from Cons.IH[OF Cons.prems(1) r] Cons.prems(2) empty Pop r show ?thesis by auto
    next
      case (ok q1 x)
      obtain q2 acc1 out1 where r: "fifo_run push pop q1 ops = (q2, acc1, out1)"
        by (metis prod_cases3)
      from Cons.IH[OF ok(2) r] Cons.prems(2) ok Pop r show ?thesis by auto
    qed
  qed
qed

lemma run_bounded:
  "inv q \<Longrightarrow> fifo_run push pop q ops = (q', acc, out) \<Longrightarrow> length (contents q') \<le> cap q"
  using run_fifo bounded by metis

text \<open>Filling an empty queue and draining it returns the data unchanged.\<close>

lemma push_all:
  "inv q \<Longrightarrow> length (contents q) + length xs \<le> cap q \<Longrightarrow>
   fifo_run push pop q (map Push xs) = (q', acc, out) \<Longrightarrow>
   acc = xs \<and> out = [] \<and> inv q' \<and> contents q' = contents q @ xs"
proof (induction xs arbitrary: q q' acc out)
  case Nil
  then show ?case by simp
next
  case (Cons x xs)
  from Cons.prems have "length (contents q) < cap q" by simp
  with Cons.prems(1) obtain q1 where
    q1: "push q x = (q1, True)" "inv q1" "contents q1 = contents q @ [x]" "cap q1 = cap q"
    using push_ok by blast
  obtain q2 acc1 out1 where r: "fifo_run push pop q1 (map Push xs) = (q2, acc1, out1)"
    by (metis prod_cases3)
  from Cons.IH[OF q1(2) _ r] Cons.prems q1 r show ?case by simp
qed

end

end
