(* ===== verification/RingBuffer.thy ===== *)
theory RingBuffer
  imports Bounded_Fifo
begin

text \<open>
  \<^verbatim>\<open>components/drivers/src/ringbuffer.c\<close> and \<^verbatim>\<open>components/drivers/include/ipc/ringbuffer.h\<close>.
  The 1-bit mirrors are booleans (\<open>~\<close> is negation), the 15-bit indices are naturals with the
  truncation of the bit field written out at each store of a sum, and \<open>rb_pool\<close> is the memory
  that \<^verbatim>\<open>buffer_ptr\<close> points to. Every operation returns the new structure and its return value.
\<close>

record ringbuffer =
  rb_pool :: "u8 list"
  read_mirror :: bool
  read_index :: nat
  write_mirror :: bool
  write_index :: nat
  buffer_size :: nat

datatype rt_ringbuffer_state =
  RT_RINGBUFFER_EMPTY | RT_RINGBUFFER_FULL | RT_RINGBUFFER_HALFFULL

section \<open>Operations\<close>

definition rt_ringbuffer_status :: "ringbuffer \<Rightarrow> rt_ringbuffer_state" where
  "rt_ringbuffer_status rb =
     (if read_index rb = write_index rb then
        (if read_mirror rb = write_mirror rb then RT_RINGBUFFER_EMPTY else RT_RINGBUFFER_FULL)
      else RT_RINGBUFFER_HALFFULL)"

definition rt_ringbuffer_data_len :: "ringbuffer \<Rightarrow> nat" where
  "rt_ringbuffer_data_len rb =
     (case rt_ringbuffer_status rb of
        RT_RINGBUFFER_EMPTY \<Rightarrow> 0
      | RT_RINGBUFFER_FULL \<Rightarrow> buffer_size rb
      | RT_RINGBUFFER_HALFFULL \<Rightarrow>
          (if write_index rb > read_index rb then write_index rb - read_index rb
           else buffer_size rb - (read_index rb - write_index rb)))"

definition rt_ringbuffer_space_len :: "ringbuffer \<Rightarrow> nat" where
  "rt_ringbuffer_space_len rb = buffer_size rb - rt_ringbuffer_data_len rb"

definition rt_ringbuffer_get_size :: "ringbuffer \<Rightarrow> nat" where
  "rt_ringbuffer_get_size rb = buffer_size rb"

definition idx15 :: "nat \<Rightarrow> nat" where
  "idx15 n = n mod 2 ^ 15"

text \<open>\<^verbatim>\<open>RT_ASSERT(size > 0)\<close> fails as \<open>None\<close>; \<open>size\<close> is a signed 16-bit value.\<close>

definition rt_ringbuffer_init :: "u8 list \<Rightarrow> int \<Rightarrow> ringbuffer option" where
  "rt_ringbuffer_init pool sz =
     (if sz > 0 then
        Some \<lparr>rb_pool = pool, read_mirror = False, read_index = 0,
              write_mirror = False, write_index = 0,
              buffer_size = RT_ALIGN_DOWN (nat sz) RT_ALIGN_SIZE\<rparr>
      else None)"

definition rt_ringbuffer_reset :: "ringbuffer \<Rightarrow> ringbuffer" where
  "rt_ringbuffer_reset rb =
     rb\<lparr>read_mirror := False, read_index := 0, write_mirror := False, write_index := 0\<rparr>"

definition rt_ringbuffer_put :: "ringbuffer \<Rightarrow> u8 list \<Rightarrow> nat \<Rightarrow> ringbuffer \<times> nat" where
  "rt_ringbuffer_put rb ptr len =
     (let sz = rt_ringbuffer_space_len rb in
      if sz = 0 then (rb, 0)
      else
        let len = (if sz < len then sz else len) in
        if buffer_size rb - write_index rb > len then
          (rb\<lparr>rb_pool := mem_put (rb_pool rb) (write_index rb) ptr len,
              write_index := idx15 (write_index rb + len)\<rparr>, len)
        else
          let first = buffer_size rb - write_index rb in
          (rb\<lparr>rb_pool := mem_put (mem_put (rb_pool rb) (write_index rb) ptr first)
                           0 (drop first ptr) (len - first),
              write_mirror := \<not> write_mirror rb,
              write_index := idx15 (len - first)\<rparr>, len))"

definition rt_ringbuffer_put_force :: "ringbuffer \<Rightarrow> u8 list \<Rightarrow> nat \<Rightarrow> ringbuffer \<times> nat" where
  "rt_ringbuffer_put_force rb ptr len =
     (let space = rt_ringbuffer_space_len rb;
          (ptr, len) = (if len > buffer_size rb
                        then (drop (len - buffer_size rb) ptr, buffer_size rb) else (ptr, len)) in
      if buffer_size rb - write_index rb > len then
        let rb1 = rb\<lparr>rb_pool := mem_put (rb_pool rb) (write_index rb) ptr len,
                     write_index := idx15 (write_index rb + len)\<rparr> in
        ((if len > space then rb1\<lparr>read_index := write_index rb1\<rparr> else rb1), len)
      else
        let first = buffer_size rb - write_index rb;
            rb1 = rb\<lparr>rb_pool := mem_put (mem_put (rb_pool rb) (write_index rb) ptr first)
                                  0 (drop first ptr) (len - first),
                     write_mirror := \<not> write_mirror rb,
                     write_index := idx15 (len - first)\<rparr> in
        ((if len > space
          then rb1\<lparr>read_mirror := \<not> read_mirror rb1, read_index := write_index rb1\<rparr>
          else rb1), len))"

text \<open>\<open>ptr\<close> is the destination; the data read is returned as a list in place of the write.\<close>

definition rt_ringbuffer_get :: "ringbuffer \<Rightarrow> u8 list \<Rightarrow> nat \<Rightarrow> ringbuffer \<times> u8 list \<times> nat" where
  "rt_ringbuffer_get rb ptr len =
     (let sz = rt_ringbuffer_data_len rb in
      if sz = 0 then (rb, ptr, 0)
      else
        let len = (if sz < len then sz else len) in
        if buffer_size rb - read_index rb > len then
          (rb\<lparr>read_index := idx15 (read_index rb + len)\<rparr>,
           mem_put ptr 0 (drop (read_index rb) (rb_pool rb)) len, len)
        else
          let first = buffer_size rb - read_index rb in
          (rb\<lparr>read_mirror := \<not> read_mirror rb, read_index := idx15 (len - first)\<rparr>,
           mem_put (mem_put ptr 0 (drop (read_index rb) (rb_pool rb)) first)
             first (rb_pool rb) (len - first), len))"

definition rt_ringbuffer_putchar :: "ringbuffer \<Rightarrow> u8 \<Rightarrow> ringbuffer \<times> nat" where
  "rt_ringbuffer_putchar rb ch =
     (if rt_ringbuffer_space_len rb = 0 then (rb, 0)
      else
        let rb = rb\<lparr>rb_pool := (rb_pool rb)[write_index rb := ch]\<rparr> in
        if write_index rb = buffer_size rb - 1 then
          (rb\<lparr>write_mirror := \<not> write_mirror rb, write_index := 0\<rparr>, 1)
        else (rb\<lparr>write_index := idx15 (write_index rb + 1)\<rparr>, 1))"

definition rt_ringbuffer_putchar_force :: "ringbuffer \<Rightarrow> u8 \<Rightarrow> ringbuffer \<times> nat" where
  "rt_ringbuffer_putchar_force rb ch =
     (let old_state = rt_ringbuffer_status rb;
          rb = rb\<lparr>rb_pool := (rb_pool rb)[write_index rb := ch]\<rparr> in
      if write_index rb = buffer_size rb - 1 then
        let rb = rb\<lparr>write_mirror := \<not> write_mirror rb, write_index := 0\<rparr> in
        ((if old_state = RT_RINGBUFFER_FULL
          then rb\<lparr>read_mirror := \<not> read_mirror rb, read_index := write_index rb\<rparr> else rb), 1)
      else
        let rb = rb\<lparr>write_index := idx15 (write_index rb + 1)\<rparr> in
        ((if old_state = RT_RINGBUFFER_FULL then rb\<lparr>read_index := write_index rb\<rparr> else rb), 1))"

text \<open>\<open>None\<close> stands for the return value 0, where \<^verbatim>\<open>*ch\<close> is not written.\<close>

definition rt_ringbuffer_getchar :: "ringbuffer \<Rightarrow> ringbuffer \<times> u8 option" where
  "rt_ringbuffer_getchar rb =
     (if rt_ringbuffer_data_len rb = 0 then (rb, None)
      else
        let ch = rb_pool rb ! read_index rb in
        if read_index rb = buffer_size rb - 1 then
          (rb\<lparr>read_mirror := \<not> read_mirror rb, read_index := 0\<rparr>, Some ch)
        else (rb\<lparr>read_index := idx15 (read_index rb + 1)\<rparr>, Some ch))"

section \<open>Creation on a heap\<close>

text \<open>
  \<^verbatim>\<open>rt_malloc\<close> and \<^verbatim>\<open>rt_free\<close> are parameters over a heap type; \<open>fresh\<close> gives the bytes found in a
  newly allocated block. The outer \<open>None\<close> is a failed assertion, the inner one the null result.
  The 16-bit size is read back as a signed value by \<^verbatim>\<open>rt_ringbuffer_init\<close>.
\<close>

definition s16 :: "nat \<Rightarrow> int" where
  "s16 n = (if n < 2 ^ 15 then int n else int n - 2 ^ 16)"

definition rt_ringbuffer_create ::
  "('h \<Rightarrow> nat \<Rightarrow> 'h \<times> nat option) \<Rightarrow> ('h \<Rightarrow> nat \<Rightarrow> 'h) \<Rightarrow> (nat \<Rightarrow> u8 list) \<Rightarrow> nat \<Rightarrow> 'h \<Rightarrow> nat
    \<Rightarrow> ('h \<times> (nat \<times> nat \<times> ringbuffer) option) option" where
  "rt_ringbuffer_create malloc free fresh rb_bytes h sz =
     (if sz > 0 then
        let sz = RT_ALIGN_DOWN sz RT_ALIGN_SIZE in
        (case malloc h rb_bytes of
           (h1, None) \<Rightarrow> Some (h1, None)
         | (h1, Some rb) \<Rightarrow>
             (case malloc h1 sz of
                (h2, None) \<Rightarrow> Some (free h2 rb, None)
              | (h2, Some pool) \<Rightarrow>
                  (case rt_ringbuffer_init (fresh pool) (s16 sz) of
                     None \<Rightarrow> None
                   | Some r \<Rightarrow> Some (h2, Some (rb, pool, r)))))
      else None)"

definition rt_ringbuffer_destroy ::
  "('h \<Rightarrow> nat \<Rightarrow> 'h) \<Rightarrow> 'h \<Rightarrow> nat \<Rightarrow> nat \<Rightarrow> 'h" where
  "rt_ringbuffer_destroy free h rb pool = free (free h pool) rb"

section \<open>Invariant and abstraction\<close>

definition rb_inv :: "ringbuffer \<Rightarrow> bool" where
  "rb_inv rb \<longleftrightarrow> 0 < buffer_size rb \<and> buffer_size rb < 2 ^ 15 \<and>
     buffer_size rb \<le> length (rb_pool rb) \<and>
     read_index rb < buffer_size rb \<and> write_index rb < buffer_size rb \<and>
     (if read_mirror rb = write_mirror rb then read_index rb \<le> write_index rb
      else write_index rb \<le> read_index rb)"

definition rb_contents :: "ringbuffer \<Rightarrow> u8 list" where
  "rb_contents rb = map (\<lambda>i. rb_pool rb ! ((read_index rb + i) mod buffer_size rb))
                      [0 ..< rt_ringbuffer_data_len rb]"

lemma rb_invD:
  assumes "rb_inv rb"
  shows "0 < buffer_size rb" "buffer_size rb < 32768" "buffer_size rb \<le> length (rb_pool rb)"
    "read_index rb < buffer_size rb" "write_index rb < buffer_size rb"
    "read_mirror rb = write_mirror rb \<Longrightarrow> read_index rb \<le> write_index rb"
    "read_mirror rb \<noteq> write_mirror rb \<Longrightarrow> write_index rb \<le> read_index rb"
  using assms by (auto simp: rb_inv_def split: if_splits)

lemma data_len_eq:
  "rb_inv rb \<Longrightarrow> rt_ringbuffer_data_len rb =
     (if read_mirror rb = write_mirror rb then write_index rb - read_index rb
      else buffer_size rb - (read_index rb - write_index rb))"
  by (auto simp: rt_ringbuffer_data_len_def rt_ringbuffer_status_def rb_inv_def split: if_splits)

lemma data_len_le: "rb_inv rb \<Longrightarrow> rt_ringbuffer_data_len rb \<le> buffer_size rb"
  by (auto simp: data_len_eq rb_inv_def split: if_splits)

lemma space_len_eq:
  "rb_inv rb \<Longrightarrow> rt_ringbuffer_space_len rb + rt_ringbuffer_data_len rb = buffer_size rb"
  by (simp add: rt_ringbuffer_space_len_def data_len_le)

lemma length_rb_contents [simp]: "length (rb_contents rb) = rt_ringbuffer_data_len rb"
  by (simp add: rb_contents_def)

lemma write_index_eq:
  "rb_inv rb \<Longrightarrow>
   (read_index rb + rt_ringbuffer_data_len rb) mod buffer_size rb = write_index rb"
  by (auto simp: data_len_eq rb_inv_def circ_index split: if_splits)

lemma status_full_iff:
  "rb_inv rb \<Longrightarrow> rt_ringbuffer_status rb = RT_RINGBUFFER_FULL \<longleftrightarrow>
     rt_ringbuffer_data_len rb = buffer_size rb"
  by (auto simp: rt_ringbuffer_status_def data_len_eq rb_inv_def split: if_splits)

text \<open>
  The two ways an operation moves an index: \<open>adv_write\<close> stores and advances the write position,
  \<open>adv_read\<close> advances the read position. Every operation is one of them, or one after the other.
\<close>

definition adv_write :: "ringbuffer \<Rightarrow> u8 list \<Rightarrow> nat \<Rightarrow> ringbuffer" where
  "adv_write rb ptr n =
     rb\<lparr>rb_pool := circ_put (rb_pool rb) (buffer_size rb) (write_index rb) ptr n,
        write_mirror := (if write_index rb + n < buffer_size rb then write_mirror rb
                         else \<not> write_mirror rb),
        write_index := (write_index rb + n) mod buffer_size rb\<rparr>"

definition adv_read :: "ringbuffer \<Rightarrow> nat \<Rightarrow> ringbuffer" where
  "adv_read rb n =
     rb\<lparr>read_mirror := (if read_index rb + n < buffer_size rb then read_mirror rb
                        else \<not> read_mirror rb),
        read_index := (read_index rb + n) mod buffer_size rb\<rparr>"

lemma adv_write_inv:
  assumes "rb_inv rb" "n \<le> rt_ringbuffer_space_len rb" "n \<le> length ptr"
  shows "rb_inv (adv_write rb ptr n)"
    and "rt_ringbuffer_data_len (adv_write rb ptr n) = rt_ringbuffer_data_len rb + n"
proof -
  note D = rb_invD[OF assms(1)]
  have n: "n + rt_ringbuffer_data_len rb \<le> buffer_size rb"
    using assms space_len_eq[OF assms(1)] by linarith
  have len: "length (rb_pool (adv_write rb ptr n)) = length (rb_pool rb)"
    using D n assms by (simp add: adv_write_def length_circ_put)
  have w: "(write_index rb + n) mod buffer_size rb =
      (if write_index rb + n < buffer_size rb then write_index rb + n
       else write_index rb + n - buffer_size rb)"
    using D n by (intro circ_index) auto
  show i: "rb_inv (adv_write rb ptr n)"
    using D n len data_len_eq[OF assms(1)] w
    by (auto simp: rb_inv_def adv_write_def)
  show "rt_ringbuffer_data_len (adv_write rb ptr n) = rt_ringbuffer_data_len rb + n"
    unfolding data_len_eq[OF i] using D n data_len_eq[OF assms(1)] w
    by (auto simp: adv_write_def)
qed

lemma adv_write_contents:
  assumes "rb_inv rb" "n \<le> rt_ringbuffer_space_len rb" "n \<le> length ptr"
  shows "rb_contents (adv_write rb ptr n) = rb_contents rb @ take n ptr"
proof (rule nth_equalityI)
  note D = rb_invD[OF assms(1)]
  let ?b = "buffer_size rb" and ?d = "rt_ringbuffer_data_len rb" and ?r = "read_index rb"
  have n: "n + ?d \<le> ?b" using assms space_len_eq[OF assms(1)] by linarith
  show "length (rb_contents (adv_write rb ptr n)) = length (rb_contents rb @ take n ptr)"
    using assms by (simp add: adv_write_inv)
  fix i assume "i < length (rb_contents (adv_write rb ptr n))"
  then have i: "i < ?d + n" using assms by (simp add: adv_write_inv)
  let ?k = "if i < ?d then i + ?b - ?d else i - ?d"
  have k: "?k < ?b" using i n by auto
  have "(write_index rb + ?k) mod ?b = (?r + ?d + ?k) mod ?b"
    using write_index_eq[OF assms(1)] by (metis mod_add_left_eq)
  also have "\<dots> = (?r + i) mod ?b" using i n data_len_le[OF assms(1)] by (auto simp flip: add.assoc)
  finally have wk: "(?r + i) mod ?b = (write_index rb + ?k) mod ?b" ..
  have "circ_put (rb_pool rb) ?b (write_index rb) ptr n ! ((write_index rb + ?k) mod ?b) =
      (if ?k < n then ptr ! ?k else rb_pool rb ! ((write_index rb + ?k) mod ?b))"
    using D n k assms by (intro nth_circ_put) auto
  moreover have "?k < n \<longleftrightarrow> \<not> i < ?d" using i n by auto
  ultimately have "circ_put (rb_pool rb) ?b (write_index rb) ptr n ! ((?r + i) mod ?b) =
      (if i < ?d then rb_pool rb ! ((?r + i) mod ?b) else ptr ! (i - ?d))"
    unfolding wk by auto
  then show "rb_contents (adv_write rb ptr n) ! i = (rb_contents rb @ take n ptr) ! i"
    using i assms by (auto simp: rb_contents_def adv_write_inv nth_append)
      (auto simp: adv_write_def)
qed

lemma adv_read_inv:
  assumes "rb_inv rb" "n \<le> rt_ringbuffer_data_len rb"
  shows "rb_inv (adv_read rb n)"
    and "rt_ringbuffer_data_len (adv_read rb n) = rt_ringbuffer_data_len rb - n"
proof -
  note D = rb_invD[OF assms(1)]
  have r: "(read_index rb + n) mod buffer_size rb =
      (if read_index rb + n < buffer_size rb then read_index rb + n
       else read_index rb + n - buffer_size rb)"
    using D assms data_len_le[OF assms(1)] by (intro circ_index) auto
  show i: "rb_inv (adv_read rb n)"
    using D assms(2) data_len_eq[OF assms(1)] r by (auto simp: rb_inv_def adv_read_def split: if_splits)
  show "rt_ringbuffer_data_len (adv_read rb n) = rt_ringbuffer_data_len rb - n"
    unfolding data_len_eq[OF i] using D assms(2) data_len_eq[OF assms(1)] r
    by (auto simp: adv_read_def split: if_splits)
qed

lemma adv_read_contents:
  assumes "rb_inv rb" "n \<le> rt_ringbuffer_data_len rb"
  shows "rb_contents (adv_read rb n) = drop n (rb_contents rb)"
proof (rule nth_equalityI)
  show "length (rb_contents (adv_read rb n)) = length (drop n (rb_contents rb))"
    using assms by (simp add: adv_read_inv)
  fix i assume "i < length (rb_contents (adv_read rb n))"
  then have i: "i < rt_ringbuffer_data_len rb - n" using assms by (simp add: adv_read_inv)
  then have "rb_contents (adv_read rb n) ! i =
      rb_pool rb ! (((read_index rb + n) mod buffer_size rb + i) mod buffer_size rb)"
    using assms by (simp add: rb_contents_def adv_read_inv) (simp add: adv_read_def)
  also have "\<dots> = rb_pool rb ! ((read_index rb + (n + i)) mod buffer_size rb)"
    by (simp add: mod_add_left_eq add.assoc)
  also have "\<dots> = drop n (rb_contents rb) ! i"
    using i nth_upt[of 0 "n + i" "rt_ringbuffer_data_len rb"] by (simp add: rb_contents_def)
  finally show "rb_contents (adv_read rb n) ! i = drop n (rb_contents rb) ! i" .
qed

section \<open>The operations as index movements\<close>

lemma idx15_id [simp]: "n < 32768 \<Longrightarrow> idx15 n = n"
  by (simp add: idx15_def)

lemma adv_write_0 [simp]: "rb_inv rb \<Longrightarrow> adv_write rb ptr 0 = rb"
  using rb_invD[of rb] by (simp add: adv_write_def circ_put_def)

lemma adv_write_unfold:
  assumes "rb_inv rb" "n \<le> buffer_size rb"
  shows "adv_write rb ptr n =
    (if buffer_size rb - write_index rb > n then
       rb\<lparr>rb_pool := mem_put (rb_pool rb) (write_index rb) ptr n,
          write_index := idx15 (write_index rb + n)\<rparr>
     else let first = buffer_size rb - write_index rb in
       rb\<lparr>rb_pool := mem_put (mem_put (rb_pool rb) (write_index rb) ptr first)
                        0 (drop first ptr) (n - first),
          write_mirror := \<not> write_mirror rb, write_index := idx15 (n - first)\<rparr>)"
proof -
  note D = rb_invD[OF assms(1)]
  have w: "(write_index rb + n) mod buffer_size rb =
      (if write_index rb + n < buffer_size rb then write_index rb + n
       else write_index rb + n - buffer_size rb)"
    using D assms by (intro circ_index) auto
  show ?thesis
    using D assms w by (auto simp: adv_write_def circ_put_def Let_def less_diff_conv add.commute)
qed

lemma adv_read_unfold:
  assumes "rb_inv rb" "n \<le> buffer_size rb"
  shows "adv_read rb n =
    (if buffer_size rb - read_index rb > n then rb\<lparr>read_index := idx15 (read_index rb + n)\<rparr>
     else rb\<lparr>read_mirror := \<not> read_mirror rb,
             read_index := idx15 (n - (buffer_size rb - read_index rb))\<rparr>)"
proof -
  note D = rb_invD[OF assms(1)]
  have "(read_index rb + n) mod buffer_size rb =
      (if read_index rb + n < buffer_size rb then read_index rb + n
       else read_index rb + n - buffer_size rb)"
    using D assms by (intro circ_index) auto
  then show ?thesis
    using D assms by (auto simp: adv_read_def less_diff_conv add.commute)
qed

lemma put_eq:
  assumes "rb_inv rb"
  shows "rt_ringbuffer_put rb ptr len =
    (adv_write rb ptr (min len (rt_ringbuffer_space_len rb)), min len (rt_ringbuffer_space_len rb))"
proof (cases "rt_ringbuffer_space_len rb = 0")
  case True
  with assms show ?thesis by (simp add: rt_ringbuffer_put_def)
next
  case False
  let ?n = "min len (rt_ringbuffer_space_len rb)"
  have n: "(if rt_ringbuffer_space_len rb < len then rt_ringbuffer_space_len rb else len) = ?n"
    by auto
  have "?n \<le> buffer_size rb" using space_len_eq[OF assms] by linarith
  from adv_write_unfold[OF assms this, of ptr] False show ?thesis
    unfolding rt_ringbuffer_put_def n Let_def by (simp split: if_splits)
qed

lemma putchar_eq:
  assumes "rb_inv rb"
  shows "rt_ringbuffer_putchar rb ch =
    (if rt_ringbuffer_space_len rb = 0 then (rb, 0) else (adv_write rb [ch] 1, 1))"
  using rb_invD[OF assms] adv_write_unfold[OF assms, of 1 "[ch]"]
  by (auto simp: rt_ringbuffer_putchar_def Let_def mem_put_def upd_conv_take_nth_drop)

lemma getchar_eq:
  assumes "rb_inv rb"
  shows "rt_ringbuffer_getchar rb =
    (if rt_ringbuffer_data_len rb = 0 then (rb, None)
     else (adv_read rb 1, Some (rb_contents rb ! 0)))"
  using rb_invD[OF assms] adv_read_unfold[OF assms, of 1]
  by (auto simp: rt_ringbuffer_getchar_def rb_contents_def Let_def)

lemma get_data_eq:
  assumes "rb_inv rb" "0 < n" "n \<le> rt_ringbuffer_data_len rb" "n \<le> length ptr"
  shows "(if buffer_size rb - read_index rb > n then mem_put ptr 0 (drop (read_index rb) (rb_pool rb)) n
          else mem_put (mem_put ptr 0 (drop (read_index rb) (rb_pool rb)) (buffer_size rb - read_index rb))
                 (buffer_size rb - read_index rb) (rb_pool rb) (n - (buffer_size rb - read_index rb)))
         = take n (rb_contents rb) @ drop n ptr" (is "?l = ?r")
proof (rule nth_equalityI)
  note D = rb_invD[OF assms(1)] and d = data_len_le[OF assms(1)]
  show "length ?l = length ?r" using D assms d by auto
  fix i assume "i < length ?l"
  then have i: "i < length ptr" using D assms d by (auto split: if_splits)
  have ci: "i < n \<Longrightarrow> (read_index rb + i) mod buffer_size rb =
     (if read_index rb + i < buffer_size rb then read_index rb + i else read_index rb + i - buffer_size rb)"
    using D assms d by (intro circ_index) auto
  show "?l ! i = ?r ! i"
    using D assms d i ci by (auto simp: nth_mem_put nth_append rb_contents_def add.commute)
qed

lemma get_eq:
  assumes "rb_inv rb" "len \<le> length ptr"
  shows "rt_ringbuffer_get rb ptr len =
    (let n = min len (rt_ringbuffer_data_len rb) in
     (adv_read rb n, take n (rb_contents rb) @ drop n ptr, n))"
proof (cases "rt_ringbuffer_data_len rb = 0 \<or> len = 0")
  case True
  with rb_invD[OF assms(1)] adv_read_unfold[OF assms(1), of 0] show ?thesis
    by (auto simp: rt_ringbuffer_get_def rb_contents_def Let_def)
next
  case False
  let ?n = "min len (rt_ringbuffer_data_len rb)"
  have n: "(if rt_ringbuffer_data_len rb < len then rt_ringbuffer_data_len rb else len) = ?n" by auto
  have "?n \<le> buffer_size rb" using data_len_le[OF assms(1)] by linarith
  from adv_read_unfold[OF assms(1) this] get_data_eq[OF assms(1), of ?n ptr] False assms show ?thesis
    unfolding rt_ringbuffer_get_def n Let_def by (simp split: if_splits)
qed

lemma put_force_small:
  assumes "rb_inv rb" "len \<le> rt_ringbuffer_space_len rb"
  shows "rt_ringbuffer_put_force rb ptr len = (adv_write rb ptr len, len)"
proof -
  have "len \<le> buffer_size rb" using assms space_len_eq[OF assms(1)] by linarith
  with adv_write_unfold[OF assms(1) this, of ptr] assms show ?thesis
    by (auto simp: rt_ringbuffer_put_force_def Let_def)
qed

text \<open>\<open>pf_src\<close> is what \<^verbatim>\<open>ptr\<close> points to after the clipping of an oversized request.\<close>

definition pf_src :: "ringbuffer \<Rightarrow> u8 list \<Rightarrow> nat \<Rightarrow> u8 list" where
  "pf_src rb ptr len = (if len > buffer_size rb then drop (len - buffer_size rb) ptr else ptr)"

lemma put_force_overwrite:
  assumes "rb_inv rb" "read_mirror rb \<noteq> write_mirror rb"
    and n: "n = min len (buffer_size rb)" "rt_ringbuffer_space_len rb < n"
    and k: "k = rt_ringbuffer_data_len rb + n - buffer_size rb"
  shows "rt_ringbuffer_put_force rb ptr len =
    (adv_write (adv_read rb k) (pf_src rb ptr len) n, n)"
proof -
  note D = rb_invD[OF assms(1)] and d = data_len_eq[OF assms(1)]
  have sp: "rt_ringbuffer_space_len rb = read_index rb - write_index rb"
    using D d assms(2) by (simp add: rt_ringbuffer_space_len_def)
  have nb: "n \<le> buffer_size rb" using n by simp
  have k': "k = n - (read_index rb - write_index rb)"
    using D d assms(2) nb sp k by simp
  have kd: "k \<le> rt_ringbuffer_data_len rb" using k nb by linarith
  have rk: "read_index rb + k = write_index rb + n"
    using k' sp n(2) D(7)[OF assms(2)] by linarith
  have i1: "rb_inv (adv_read rb k)" using adv_read_inv[OF assms(1) kd] by simp
  have nb1: "n \<le> buffer_size (adv_read rb k)" using nb by (simp add: adv_read_def)
  have wr: "(write_index rb + n) mod buffer_size rb =
      (if write_index rb + n < buffer_size rb then write_index rb + n
       else write_index rb + n - buffer_size rb)"
    using D nb by (intro circ_index) auto
  have m': "read_mirror rb = (\<not> write_mirror rb)" using assms(2) by simp
  have cl: "(if len > buffer_size rb then (drop (len - buffer_size rb) ptr, buffer_size rb) else (ptr, len))
      = (pf_src rb ptr len, n)"
    using n by (auto simp: pf_src_def)
  have rd: "adv_read rb k = rb\<lparr>read_mirror := (if write_index rb + n < buffer_size rb then read_mirror rb
       else \<not> read_mirror rb), read_index := (write_index rb + n) mod buffer_size rb\<rparr>"
    by (simp add: adv_read_def rk)
  show ?thesis
    unfolding adv_write_unfold[OF i1 nb1] rt_ringbuffer_put_force_def cl
    unfolding rd wr using D nb n(2) by (cases "write_index rb + n < buffer_size rb") (simp_all add: Let_def add.commute)
qed

lemma put_force_wrap_bug:
  assumes "rb_inv rb" "read_mirror rb = write_mirror rb"
    and n: "n = min len (buffer_size rb)" "rt_ringbuffer_space_len rb < n"
  shows "snd (rt_ringbuffer_put_force rb ptr len) = n"
    and "rt_ringbuffer_status (fst (rt_ringbuffer_put_force rb ptr len)) = RT_RINGBUFFER_EMPTY"
proof -
  note D = rb_invD[OF assms(1)] and d = data_len_eq[OF assms(1)]
  have "\<not> buffer_size rb - write_index rb > n"
    using D d assms(2) n by (auto simp: rt_ringbuffer_space_len_def)
  moreover have cl: "(if len > buffer_size rb then (drop (len - buffer_size rb) ptr, buffer_size rb) else (ptr, len))
      = (pf_src rb ptr len, n)"
    using n by (auto simp: pf_src_def)
  ultimately show "snd (rt_ringbuffer_put_force rb ptr len) = n"
    "rt_ringbuffer_status (fst (rt_ringbuffer_put_force rb ptr len)) = RT_RINGBUFFER_EMPTY"
    using n assms(2) unfolding rt_ringbuffer_put_force_def cl
    by (simp_all add: Let_def rt_ringbuffer_status_def)
qed

lemma putchar_force_eq:
  assumes "rb_inv rb"
  shows "rt_ringbuffer_putchar_force rb ch =
    (if rt_ringbuffer_status rb = RT_RINGBUFFER_FULL then (adv_write (adv_read rb 1) [ch] 1, 1)
     else (adv_write rb [ch] 1, 1))"
proof (cases "rt_ringbuffer_status rb = RT_RINGBUFFER_FULL")
  case True
  note D = rb_invD[OF assms]
  have full: "rt_ringbuffer_data_len rb = buffer_size rb" using True status_full_iff[OF assms] by simp
  have rw: "read_index rb = write_index rb"
    using True by (auto simp: rt_ringbuffer_status_def split: if_splits)
  have i1: "rb_inv (adv_read rb 1)" using adv_read_inv[OF assms, of 1] full D by simp
  have nb: "1 \<le> buffer_size (adv_read rb 1)" using D by (simp add: adv_read_def)
  show ?thesis
    unfolding adv_write_unfold[OF i1 nb] using True D rw circ_index[of "write_index rb" "buffer_size rb" 1]
    by (auto simp: rt_ringbuffer_putchar_force_def adv_read_def Let_def mem_put_def
        upd_conv_take_nth_drop)
next
  case False
  then show ?thesis
    using rb_invD[OF assms] adv_write_unfold[OF assms, of 1 "[ch]"]
    by (auto simp: rt_ringbuffer_putchar_force_def Let_def mem_put_def upd_conv_take_nth_drop)
qed

section \<open>The byte queue contract\<close>

definition rb_push :: "ringbuffer \<Rightarrow> u8 \<Rightarrow> ringbuffer \<times> bool" where
  "rb_push rb ch = (let (rb', n) = rt_ringbuffer_putchar rb ch in (rb', n \<noteq> 0))"

lemma buffer_size_adv [simp]:
  "buffer_size (adv_write rb ptr n) = buffer_size rb" "buffer_size (adv_read rb n) = buffer_size rb"
  by (simp_all add: adv_write_def adv_read_def)

interpretation rbq: bounded_fifo rb_inv rb_contents buffer_size rb_push rt_ringbuffer_getchar
proof unfold_locales
  fix q :: ringbuffer and x :: u8 and xs :: "u8 list"
  assume i: "rb_inv q"
  show "length (rb_contents q) \<le> buffer_size q" using data_len_le[OF i] by simp
  show "\<exists>q'. rb_push q x = (q', True) \<and> rb_inv q' \<and> rb_contents q' = rb_contents q @ [x] \<and>
      buffer_size q' = buffer_size q" if "length (rb_contents q) < buffer_size q"
  proof -
    from that have s: "1 \<le> rt_ringbuffer_space_len q" using space_len_eq[OF i] by simp
    then show ?thesis
      using adv_write_inv[OF i s, of "[x]"] adv_write_contents[OF i s, of "[x]"]
      by (simp add: rb_push_def putchar_eq[OF i])
  qed
  show "rb_push q x = (q, False)" if "length (rb_contents q) = buffer_size q"
    using that space_len_eq[OF i] by (simp add: rb_push_def putchar_eq[OF i])
  show "\<exists>q'. rt_ringbuffer_getchar q = (q', Some x) \<and> rb_inv q' \<and> rb_contents q' = xs \<and>
      buffer_size q' = buffer_size q" if c: "rb_contents q = x # xs"
  proof -
    have s: "1 \<le> rt_ringbuffer_data_len q" using arg_cong[OF c, of length] by simp
    then show ?thesis
      using adv_read_inv[OF i s] adv_read_contents[OF i s] c by (simp add: getchar_eq[OF i])
  qed
  show "rt_ringbuffer_getchar q = (q, None)" if "rb_contents q = []"
    using that i length_rb_contents[of q] by (simp add: getchar_eq)
qed

section \<open>Properties\<close>

text \<open>\<^verbatim>\<open>rt_ringbuffer_put\<close> appends the longest prefix of the data that fits, returns its
  length, and keeps the invariant.\<close>

theorem ringbuffer_put_spec:
  assumes "rb_inv rb" "len \<le> length ptr" "rt_ringbuffer_put rb ptr len = (rb', n)"
  shows "n = min len (rt_ringbuffer_space_len rb) \<and> rb_inv rb' \<and>
    rb_contents rb' = rb_contents rb @ take n ptr"
  using assms put_eq[OF assms(1)] adv_write_inv[OF assms(1)] adv_write_contents[OF assms(1)]
  by auto

definition rb_example :: ringbuffer where
  "rb_example = \<lparr>rb_pool = [10, 11, 12, 13], read_mirror = False, read_index = 2,
     write_mirror = True, write_index = 1, buffer_size = 4\<rparr>"

lemma rb_example_inv: "rb_inv rb_example"
  by (simp add: rb_inv_def rb_example_def)

theorem ringbuffer_put_spec_witness:
  "rb_contents (fst (rt_ringbuffer_put rb_example [7, 8] 2)) = [12, 13, 10, 7]"
proof -
  have r: "rt_ringbuffer_put rb_example [7, 8] 2 = (fst (rt_ringbuffer_put rb_example [7, 8] 2), 1)"
    by (simp add: rt_ringbuffer_put_def rt_ringbuffer_space_len_def rt_ringbuffer_data_len_def
        rt_ringbuffer_status_def rb_example_def Let_def)
  have "rb_contents rb_example = [12, 13, 10]"
    by (simp add: rb_contents_def rb_example_def rt_ringbuffer_data_len_def rt_ringbuffer_status_def
        upt_rec)
  then show ?thesis using ringbuffer_put_spec[OF rb_example_inv _ r] by simp
qed

text \<open>\<^verbatim>\<open>rt_ringbuffer_get\<close> copies out and removes the oldest bytes, as many as there are up to
  the request, leaves the rest of the destination alone, and keeps the invariant.\<close>

theorem ringbuffer_get_spec:
  assumes "rb_inv rb" "len \<le> length ptr" "rt_ringbuffer_get rb ptr len = (rb', out, n)"
  shows "n = min len (length (rb_contents rb)) \<and> rb_inv rb' \<and>
    out = take n (rb_contents rb) @ drop n ptr \<and> rb_contents rb' = drop n (rb_contents rb)"
  using assms get_eq[OF assms(1,2)] adv_read_inv[OF assms(1)] adv_read_contents[OF assms(1)]
  by (auto simp: Let_def)

theorem ringbuffer_get_spec_witness:
  "fst (snd (rt_ringbuffer_get rb_example [0, 0, 0, 0] 2)) = [12, 13, 0, 0]"
proof -
  obtain rb' out n where r: "rt_ringbuffer_get rb_example [0, 0, 0, 0] 2 = (rb', out, n)"
    by (metis prod_cases3)
  have "rb_contents rb_example = [12, 13, 10]"
    by (simp add: rb_contents_def rb_example_def rt_ringbuffer_data_len_def rt_ringbuffer_status_def
        upt_rec)
  then show ?thesis using ringbuffer_get_spec[OF rb_example_inv _ r] r by simp
qed

text \<open>Overwriting writes keep the newest bytes: \<^verbatim>\<open>rt_ringbuffer_put_force\<close> leaves the last
  \<^verbatim>\<open>buffer_size\<close> bytes of the old contents followed by the data, provided the data fits or the
  write position is already in the mirror opposite to the read position.\<close>

theorem ringbuffer_put_force_spec:
  assumes "rb_inv rb" "len \<le> length ptr" "rt_ringbuffer_put_force rb ptr len = (rb', n)"
    and "read_mirror rb \<noteq> write_mirror rb \<or> min len (buffer_size rb) \<le> rt_ringbuffer_space_len rb"
  shows "n = min len (buffer_size rb) \<and> rb_inv rb' \<and>
    (let all = rb_contents rb @ take len ptr
     in rb_contents rb' = drop (length all - buffer_size rb) all)"
proof (cases "min len (buffer_size rb) \<le> rt_ringbuffer_space_len rb")
  case True
  note sp = space_len_eq[OF assms(1)]
  show ?thesis
  proof (cases "len \<le> buffer_size rb")
    case True': True
    then have l: "len \<le> rt_ringbuffer_space_len rb" using True by simp
    from put_force_small[OF assms(1) l] assms(3) have "rb' = adv_write rb ptr len" "n = len" by auto
    then show ?thesis
      using adv_write_inv[OF assms(1) l assms(2)] adv_write_contents[OF assms(1) l assms(2)] True' l sp
        assms(2) by (auto simp: Let_def)
  next
    case False
    then have full: "buffer_size rb \<le> rt_ringbuffer_space_len rb" using True by simp
    then have d0: "rt_ringbuffer_data_len rb = 0" using sp by simp
    have src: "buffer_size rb \<le> length (pf_src rb ptr len)" using False assms(2) by (simp add: pf_src_def)
    have "rt_ringbuffer_put_force rb ptr len = rt_ringbuffer_put_force rb (pf_src rb ptr len) (buffer_size rb)"
      using False by (auto simp: rt_ringbuffer_put_force_def pf_src_def Let_def)
    also have "\<dots> = (adv_write rb (pf_src rb ptr len) (buffer_size rb), buffer_size rb)"
      by (rule put_force_small[OF assms(1) full])
    finally have "rb' = adv_write rb (pf_src rb ptr len) (buffer_size rb)" "n = buffer_size rb"
      using assms(3) by auto
    then show ?thesis
      using adv_write_inv[OF assms(1) full src] adv_write_contents[OF assms(1) full src] False d0
        assms(2) length_rb_contents[of rb]
      by (auto simp: Let_def pf_src_def take_drop simp del: length_rb_contents)
  qed
next
  case False
  then have m: "read_mirror rb \<noteq> write_mirror rb" using assms(4) by simp
  let ?n = "min len (buffer_size rb)" and ?k = "rt_ringbuffer_data_len rb + min len (buffer_size rb) - buffer_size rb"
  have sp: "rt_ringbuffer_space_len rb < ?n" using False by linarith
  from put_force_overwrite[OF assms(1) m refl sp refl, of ptr] assms(3)
  have r: "rb' = adv_write (adv_read rb ?k) (pf_src rb ptr len) ?n" "n = ?n" by auto
  note s = space_len_eq[OF assms(1)]
  have k: "?k \<le> rt_ringbuffer_data_len rb" using data_len_le[OF assms(1)] by simp
  have i1: "rb_inv (adv_read rb ?k)" and dl: "rt_ringbuffer_data_len (adv_read rb ?k) = rt_ringbuffer_data_len rb - ?k"
    using adv_read_inv[OF assms(1) k] by auto
  have sp1: "?n \<le> rt_ringbuffer_space_len (adv_read rb ?k)"
    using space_len_eq[OF i1, unfolded buffer_size_adv dl] sp s by linarith
  have src: "?n \<le> length (pf_src rb ptr len)" using assms(2) by (auto simp: pf_src_def)
  have tk: "take ?n (pf_src rb ptr len) = drop (len - buffer_size rb) (take len ptr)"
    using assms(2) by (auto simp: pf_src_def take_drop)
  have "rb_contents rb' = drop ?k (rb_contents rb) @ drop (len - buffer_size rb) (take len ptr)"
    unfolding r tk[symmetric] using adv_write_contents[OF i1 sp1 src] adv_read_contents[OF assms(1) k] by simp
  moreover have "?k = rt_ringbuffer_data_len rb + len - buffer_size rb \<or>
      len > buffer_size rb \<and> ?k = rt_ringbuffer_data_len rb" by (auto simp: min_def)
  moreover have "?n + rt_ringbuffer_data_len rb > buffer_size rb" using sp s by linarith
  ultimately have "rb_contents rb' = drop (length (rb_contents rb @ take len ptr) - buffer_size rb)
      (rb_contents rb @ take len ptr)"
    using assms(2) by (auto simp: min_def split: if_splits)
  then show ?thesis using adv_write_inv[OF i1 sp1 src] r by (simp add: Let_def)
qed

theorem ringbuffer_put_force_spec_witness:
  "rb_contents (fst (rt_ringbuffer_put_force rb_example [7, 8, 9] 3)) = [10, 7, 8, 9]"
proof -
  obtain rb' n where r: "rt_ringbuffer_put_force rb_example [7, 8, 9] 3 = (rb', n)" by fastforce
  have "rb_contents rb_example = [12, 13, 10]"
    by (simp add: rb_contents_def rb_example_def rt_ringbuffer_data_len_def rt_ringbuffer_status_def
        upt_rec)
  moreover have "read_mirror rb_example \<noteq> write_mirror rb_example" "buffer_size rb_example = 4"
    by (simp_all add: rb_example_def)
  ultimately show ?thesis using ringbuffer_put_force_spec[OF rb_example_inv _ r] r by (simp add: Let_def)
qed

text \<open>In the remaining case (both positions in the same mirror, not enough space)
  \<^verbatim>\<open>rt_ringbuffer_put_force\<close> reports that it stored the data, but flips both mirrors, so the
  buffer reads as empty: the old bytes and all the new ones are lost.\<close>

theorem ringbuffer_put_force_loses_all:
  assumes "rb_inv rb" "read_mirror rb = write_mirror rb"
    and "rt_ringbuffer_space_len rb < min len (buffer_size rb)"
    and "rt_ringbuffer_put_force rb ptr len = (rb', n)"
  shows "n = min len (buffer_size rb) \<and> 0 < n \<and> rb_contents rb' = []"
  using put_force_wrap_bug[OF assms(1,2) refl assms(3), of ptr] assms(3,4)
  by (auto simp: rb_contents_def rt_ringbuffer_data_len_def)

theorem ringbuffer_put_force_loses_all_witness:
  "rb_contents (fst (rt_ringbuffer_put_force
     (rb_example\<lparr>read_mirror := True, read_index := 0, write_index := 2\<rparr>) [7, 8, 9] 3)) = []"
proof -
  let ?rb = "rb_example\<lparr>read_mirror := True, read_index := 0, write_index := 2\<rparr>"
  obtain rb' n where r: "rt_ringbuffer_put_force ?rb [7, 8, 9] 3 = (rb', n)" by fastforce
  have "rb_inv ?rb" "read_mirror ?rb = write_mirror ?rb"
    "rt_ringbuffer_space_len ?rb < min 3 (buffer_size ?rb)"
    by (simp_all add: rb_inv_def rb_example_def rt_ringbuffer_space_len_def
        rt_ringbuffer_data_len_def rt_ringbuffer_status_def)
  from ringbuffer_put_force_loses_all[OF this r] r show ?thesis by simp
qed

text \<open>\<^verbatim>\<open>rt_ringbuffer_putchar_force\<close> appends the byte and drops exactly the oldest one of a
  full buffer; \<^verbatim>\<open>rt_ringbuffer_putchar\<close> refuses the byte there instead.\<close>

theorem ringbuffer_putchar_spec:
  assumes "rb_inv rb"
  shows "(let (rb', n) = rt_ringbuffer_putchar_force rb ch in
            n = 1 \<and> rb_inv rb' \<and>
            rb_contents rb' = (if length (rb_contents rb) = buffer_size rb then tl (rb_contents rb)
                               else rb_contents rb) @ [ch]) \<and>
         (let (rb', n) = rt_ringbuffer_putchar rb ch in
            rb_inv rb' \<and>
            (if length (rb_contents rb) = buffer_size rb then n = 0 \<and> rb' = rb
             else n = 1 \<and> rb_contents rb' = rb_contents rb @ [ch]))"
proof (cases "rt_ringbuffer_data_len rb = buffer_size rb")
  case True
  have s1: "1 \<le> rt_ringbuffer_data_len rb" using True rb_invD(1)[OF assms] by simp
  note i1 = adv_read_inv[OF assms s1]
  have s2: "1 \<le> rt_ringbuffer_space_len (adv_read rb 1)"
    using space_len_eq[OF i1(1)] i1(2) True s1 by simp
  from adv_write_inv[OF i1(1) s2, of "[ch]"] adv_write_contents[OF i1(1) s2, of "[ch]"]
    adv_read_contents[OF assms s1] True assms space_len_eq[OF assms]
  show ?thesis by (simp add: putchar_force_eq status_full_iff putchar_eq drop_Suc)
next
  case False
  have s2: "1 \<le> rt_ringbuffer_space_len rb"
    using space_len_eq[OF assms] data_len_le[OF assms] False by linarith
  from adv_write_inv[OF assms s2, of "[ch]"] adv_write_contents[OF assms s2, of "[ch]"] False assms s2
  show ?thesis by (simp add: putchar_force_eq status_full_iff putchar_eq)
qed

theorem ringbuffer_putchar_spec_witness:
  "rb_contents (fst (rt_ringbuffer_putchar rb_example 99)) = [12, 13, 10, 99]"
proof -
  have "rb_contents rb_example = [12, 13, 10]"
    by (simp add: rb_contents_def rb_example_def rt_ringbuffer_data_len_def rt_ringbuffer_status_def
        upt_rec)
  moreover have "buffer_size rb_example = 4" by (simp add: rb_example_def)
  ultimately show ?thesis using ringbuffer_putchar_spec[OF rb_example_inv, of 99]
    by (auto simp: Let_def split: prod.splits)
qed

text \<open>C39. Whatever the interleaving of single-byte writes and reads, nothing is lost, invented or
  reordered: the bytes read so far followed by the bytes still buffered are the initial bytes
  followed by the accepted ones, and the buffer never holds more than \<^verbatim>\<open>buffer_size\<close> bytes.\<close>

theorem ringbuffer_byte_fifo:
  assumes "rb_inv rb" "fifo_run rb_push rt_ringbuffer_getchar rb ops = (rb', acc, out)"
  shows "rb_inv rb' \<and> rb_contents rb @ acc = out @ rb_contents rb' \<and>
    length (rb_contents rb') \<le> buffer_size rb"
  using rbq.run_fifo[OF assms] rbq.bounded by metis

theorem ringbuffer_byte_fifo_witness:
  "case fifo_run rb_push rt_ringbuffer_getchar rb_example [Push 1, Push 2, Pop, Pop] of
     (rb', acc, out) \<Rightarrow> rb_contents rb_example @ acc = out @ rb_contents rb'"
proof -
  obtain rb' acc out where
    "fifo_run rb_push rt_ringbuffer_getchar rb_example [Push 1, Push 2, Pop, Pop] = (rb', acc, out)"
    by (metis prod_cases3)
  with ringbuffer_byte_fifo[OF rb_example_inv this] show ?thesis by simp
qed

text \<open>Initialising with at least one aligned word of pool gives an empty buffer that satisfies
  the invariant, with the size rounded down to a multiple of four; resetting any valid buffer
  empties it. A size of 1 to 3 passes the assertion but gives a buffer of size 0.\<close>

theorem ringbuffer_init_spec:
  assumes "sz < 2 ^ 15" "nat sz \<le> length pool" "rt_ringbuffer_init pool sz = Some rb"
  shows "(4 \<le> sz \<longrightarrow> rb_inv rb \<and> rb_contents rb = [] \<and> buffer_size rb = nat sz div 4 * 4) \<and>
    (sz < 4 \<longrightarrow> buffer_size rb = 0) \<and>
    (\<forall>rb0. rb_inv rb0 \<longrightarrow> rb_inv (rt_ringbuffer_reset rb0) \<and>
       rb_contents (rt_ringbuffer_reset rb0) = [])"
proof -
  have "nat sz div 4 * 4 \<le> nat sz" by simp
  moreover have "4 \<le> sz \<Longrightarrow> 0 < nat sz div 4" by linarith
  moreover have "nat sz < 2 ^ 15 \<or> sz < 0" using assms(1) by auto
  ultimately show ?thesis
    using assms
    by (auto simp: rt_ringbuffer_init_def rb_inv_def RT_ALIGN_DOWN_def RT_ALIGN_SIZE_def
        rb_contents_def rt_ringbuffer_data_len_def rt_ringbuffer_status_def
        rt_ringbuffer_reset_def split: if_splits)
qed

theorem ringbuffer_init_spec_witness:
  "\<exists>rb. rt_ringbuffer_init (replicate 10 0) 10 = Some rb \<and> rb_inv rb \<and> buffer_size rb = 8"
proof -
  obtain rb where r: "rt_ringbuffer_init (replicate 10 0) 10 = Some rb"
    by (simp add: rt_ringbuffer_init_def)
  from ringbuffer_init_spec[OF _ _ r] r show ?thesis by simp
qed

end
