(* ===== verification/Kernel_State.thy ===== *)
theory Kernel_State
  imports Kernel_Prelude
begin

text \<open>
  The state of the uniprocessor kernel in the configuration of \<^verbatim>\<open>projects/stm32l475_*\<close>
  (\<^verbatim>\<open>rtconfig.h\<close>: 32 priorities, no SMP, no signals, no soft timers, skip-list level 1, assertions
  on), after the structures of \<^verbatim>\<open>include/rtdef.h\<close> and the globals of \<^verbatim>\<open>scheduler.c\<close>,
  \<^verbatim>\<open>timer.c\<close>, \<^verbatim>\<open>clock.c\<close>, \<^verbatim>\<open>irq.c\<close> and \<^verbatim>\<open>object.c\<close>.

  Structures live in total tables indexed by identifiers, since their memory exists before and
  after they are registered; \<open>o_type\<close> says whether an object is registered. The intrusive node
  \<^verbatim>\<open>tlist\<close> of a thread can be linked into one list at a time; \<open>k_lists\<close> gives for each list
  head the threads linked from it (theory \<^verbatim>\<open>Rt_List\<close> relates this view to the pointers).
\<close>

section \<open>Data\<close>

datatype rt_object_class_type =
    RT_Object_Class_Null | RT_Object_Class_Thread | RT_Object_Class_Semaphore
  | RT_Object_Class_Mutex | RT_Object_Class_Event | RT_Object_Class_MailBox
  | RT_Object_Class_MessageQueue | RT_Object_Class_MemHeap | RT_Object_Class_MemPool
  | RT_Object_Class_Device | RT_Object_Class_Timer | RT_Object_Class_Module
  | RT_Object_Class_Unknown

datatype timer_id = ThreadTimer nat | UserTimer nat

datatype object_id =
    OThread nat | OSem nat | OMutex nat | OEvent nat | OMailBox nat | OMq nat | OMemPool nat | OMemHeap nat
  | ODevice nat | OTimer timer_id

record rt_object =
  o_name :: string
  o_type :: rt_object_class_type
  o_static :: bool

datatype rt_thread_stat =
  RT_THREAD_INIT | RT_THREAD_READY | RT_THREAD_SUSPEND | RT_THREAD_RUNNING | RT_THREAD_CLOSE

record rt_thread =
  t_stack_addr :: nat
  t_stack_size :: nat
  t_sp :: nat
  t_magic :: u8
  t_error :: int
  t_stat :: rt_thread_stat
  t_current_priority :: nat
  t_init_priority :: nat
  t_number_mask :: u32
  t_event_set :: u32
  t_event_info :: u8
  t_init_tick :: u32
  t_remaining_tick :: u32
  t_cleanup :: "nat option"

datatype timeout_func = Rt_Thread_Timeout nat | User_Timeout nat

record rt_timer =
  tm_activated :: bool
  tm_periodic :: bool
  tm_soft :: bool
  tm_func :: timeout_func
  tm_init_tick :: rt_tick_t
  tm_timeout_tick :: rt_tick_t

record rt_semaphore =
  sem_flag :: nat
  sem_value :: u16

record rt_mutex =
  mtx_flag :: nat
  mtx_value :: u16
  mtx_original_priority :: nat
  mtx_hold :: u8
  mtx_owner :: "nat option"

record rt_event =
  ev_flag :: nat
  ev_set :: u32

record rt_mailbox =
  mb_flag :: nat
  mb_msg_pool :: "u32 list"
  mb_size :: nat
  mb_entry :: nat
  mb_in_offset :: nat
  mb_out_offset :: nat

text \<open>A message queue's slots are numbered in the pool; \<open>mq_next\<close> and \<open>mq_data\<close> are the link and
  the payload of each slot.\<close>

record rt_messagequeue =
  mq_flag :: nat
  mq_msg_size :: nat
  mq_max_msgs :: nat
  mq_entry :: nat
  mq_head :: "nat option"
  mq_tail :: "nat option"
  mq_free :: "nat option"
  mq_next :: "nat \<Rightarrow> nat option"
  mq_data :: "nat \<Rightarrow> u8 list"

datatype list_head =
    Ready nat | Defunct | SemWait nat | MutexWait nat | EventWait nat
  | MbRecvWait nat | MbSendWait nat | MqWait nat
  | MpWait nat | CompletionWait nat | DqPutWait nat | DqGetWait nat

record kernel =
  k_tick :: rt_tick_t
  k_interrupt_nest :: u8
  k_lock_nest :: u16
  k_current :: "nat option"
  k_current_priority :: nat
  k_ready_group :: u32
  k_lists :: "list_head \<Rightarrow> nat list"
  k_threads :: "nat \<Rightarrow> rt_thread"
  k_timers :: "timer_id \<Rightarrow> rt_timer"
  k_timer_list :: "timer_id list"
  k_objects :: "object_id \<Rightarrow> rt_object"
  k_containers :: "rt_object_class_type \<Rightarrow> object_id list"
  k_sems :: "nat \<Rightarrow> rt_semaphore"
  k_mutexes :: "nat \<Rightarrow> rt_mutex"
  k_events :: "nat \<Rightarrow> rt_event"
  k_mbs :: "nat \<Rightarrow> rt_mailbox"
  k_mqs :: "nat \<Rightarrow> rt_messagequeue"

definition RT_THREAD_PRIORITY_MAX :: nat where "RT_THREAD_PRIORITY_MAX = 32"
definition RT_NAME_MAX :: nat where "RT_NAME_MAX = 8"
definition RT_IPC_FLAG_FIFO :: nat where "RT_IPC_FLAG_FIFO = 0"
definition RT_IPC_FLAG_PRIO :: nat where "RT_IPC_FLAG_PRIO = 1"
definition RT_IPC_CMD_RESET :: int where "RT_IPC_CMD_RESET = 1"
definition RT_EVENT_FLAG_AND :: u8 where "RT_EVENT_FLAG_AND = 1"
definition RT_EVENT_FLAG_OR :: u8 where "RT_EVENT_FLAG_OR = 2"
definition RT_EVENT_FLAG_CLEAR :: u8 where "RT_EVENT_FLAG_CLEAR = 4"

lemmas const_defs [rt_simps] =
  RT_THREAD_PRIORITY_MAX_def RT_NAME_MAX_def RT_IPC_FLAG_FIFO_def RT_IPC_FLAG_PRIO_def
  RT_IPC_CMD_RESET_def RT_EVENT_FLAG_AND_def RT_EVENT_FLAG_OR_def RT_EVENT_FLAG_CLEAR_def

section \<open>Assertions and access\<close>

text \<open>
  \<^verbatim>\<open>RT_ASSERT\<close> calls \<^verbatim>\<open>rt_assert_handler\<close>, which never returns; an operation whose assertion fails
  has no result. Such an operation returns an \<^typ>\<open>'a option\<close>, and \<open>None\<close> is the failed assertion
  (or the null dereference next to it).
\<close>

definition rt_assert :: "bool \<Rightarrow> unit option" where
  "rt_assert b = (if b then Some () else None)"

lemma rt_assert_simps [simp]: "rt_assert True = Some ()" "rt_assert False = None"
  by (simp_all add: rt_assert_def)

lemma rt_assert_eq_Some [simp]: "rt_assert b = Some u \<longleftrightarrow> b"
  by (simp add: rt_assert_def)

lemma rt_assert_bind: "(rt_assert b \<bind> f) = (if b then f () else None)"
  by (simp add: rt_assert_def)

abbreviation thr :: "kernel \<Rightarrow> nat \<Rightarrow> rt_thread" where
  "thr k t \<equiv> k_threads k t"

abbreviation ready_list :: "kernel \<Rightarrow> nat \<Rightarrow> nat list" where
  "ready_list k p \<equiv> k_lists k (Ready p)"

definition upd_thr :: "nat \<Rightarrow> (rt_thread \<Rightarrow> rt_thread) \<Rightarrow> kernel \<Rightarrow> kernel" where
  "upd_thr t f k = k\<lparr>k_threads := (k_threads k)(t := f (k_threads k t))\<rparr>"

definition upd_timer :: "timer_id \<Rightarrow> (rt_timer \<Rightarrow> rt_timer) \<Rightarrow> kernel \<Rightarrow> kernel" where
  "upd_timer tm f k = k\<lparr>k_timers := (k_timers k)(tm := f (k_timers k tm))\<rparr>"

text \<open>\<^verbatim>\<open>rt_thread_self\<close>, \<^verbatim>\<open>rt_tick_get\<close>, \<^verbatim>\<open>rt_interrupt_get_nest\<close>, \<^verbatim>\<open>rt_critical_level\<close>.\<close>

definition rt_thread_self :: "kernel \<Rightarrow> nat option" where
  "rt_thread_self k = k_current k"

definition rt_tick_get :: "kernel \<Rightarrow> rt_tick_t" where
  "rt_tick_get k = k_tick k"

definition rt_tick_set :: "kernel \<Rightarrow> rt_tick_t \<Rightarrow> kernel" where
  "rt_tick_set k tick = k\<lparr>k_tick := tick\<rparr>"

definition rt_interrupt_get_nest :: "kernel \<Rightarrow> u8" where
  "rt_interrupt_get_nest k = k_interrupt_nest k"

definition rt_interrupt_enter :: "kernel \<Rightarrow> kernel" where
  "rt_interrupt_enter k = k\<lparr>k_interrupt_nest := k_interrupt_nest k + 1\<rparr>"

definition rt_interrupt_leave :: "kernel \<Rightarrow> kernel" where
  "rt_interrupt_leave k = k\<lparr>k_interrupt_nest := k_interrupt_nest k - 1\<rparr>"

definition rt_critical_level :: "kernel \<Rightarrow> u16" where
  "rt_critical_level k = k_lock_nest k"

definition rt_debug_not_in_interrupt :: "kernel \<Rightarrow> unit option" where
  "rt_debug_not_in_interrupt k = rt_assert (rt_interrupt_get_nest k = 0)"

definition rt_debug_in_thread_context :: "kernel \<Rightarrow> unit option" where
  "rt_debug_in_thread_context k = do {
     rt_assert (rt_thread_self k \<noteq> None);
     rt_debug_not_in_interrupt k }"

section \<open>The intrusive thread lists\<close>

definition tlist_remove :: "nat \<Rightarrow> kernel \<Rightarrow> kernel" where
  "tlist_remove t k = k\<lparr>k_lists := (\<lambda>h. remove1 t (k_lists k h))\<rparr>"

definition tlist_append :: "list_head \<Rightarrow> nat \<Rightarrow> kernel \<Rightarrow> kernel" where
  "tlist_append h t k = k\<lparr>k_lists := (k_lists k)(h := k_lists k h @ [t])\<rparr>"

definition tlist_push :: "list_head \<Rightarrow> nat \<Rightarrow> kernel \<Rightarrow> kernel" where
  "tlist_push h t k = k\<lparr>k_lists := (k_lists k)(h := t # k_lists k h)\<rparr>"

definition tlist_init :: "list_head \<Rightarrow> kernel \<Rightarrow> kernel" where
  "tlist_init h k = k\<lparr>k_lists := (k_lists k)(h := [])\<rparr>"

end
