(* ===== verification/Small_Mem.thy ===== *)
theory Small_Mem
  imports Kernel_State
begin

text \<open>
  The small memory allocator of \<^verbatim>\<open>src/mem.c\<close>: the sections that run with the heap semaphore held.
  Theory \<^verbatim>\<open>Heap_Calls\<close> composes them with the semaphore. The heap is a sequence of blocks, each a
  header followed by user bytes, chained by offsets from \<^verbatim>\<open>heap_ptr\<close>; the invariant says that the
  blocks tile the heap, that no two neighbours are free, and that the accounts are right.

  A header is found by its offset; \<open>h_byte\<close> holds the user bytes by address. Sizes are natural
  numbers below \<open>2 ^ 32\<close>; where 32-bit arithmetic can wrap, \<open>align32\<close> and \<open>sub32\<close> wrap.
\<close>

section \<open>Operations\<close>

record heap_mem =
  hm_magic :: u16
  hm_used :: u16
  hm_next :: nat
  hm_prev :: nat

record heap =
  h_ptr :: nat
  h_end :: nat
  h_lfree :: nat
  h_size :: nat
  h_used :: nat
  h_max :: nat
  h_mem :: "nat \<Rightarrow> heap_mem"
  h_byte :: "nat \<Rightarrow> u8"
  h_sem :: nat

definition HEAP_MAGIC :: u16 where "HEAP_MAGIC = 0x1ea0"
definition MIN_SIZE :: nat where "MIN_SIZE = 12"
definition MIN_SIZE_ALIGNED :: nat where "MIN_SIZE_ALIGNED = 12"
definition SIZEOF_STRUCT_MEM :: nat where "SIZEOF_STRUCT_MEM = 12"

lemmas mem_consts = MIN_SIZE_def MIN_SIZE_ALIGNED_def SIZEOF_STRUCT_MEM_def

definition align32 :: "nat \<Rightarrow> nat" where
  "align32 sz = RT_ALIGN sz RT_ALIGN_SIZE mod 2 ^ 32"

definition sub32 :: "nat \<Rightarrow> nat \<Rightarrow> nat" where
  "sub32 x y = (if y \<le> x then x - y else x + 2 ^ 32 - y)"

definition upd_hm :: "nat \<Rightarrow> (heap_mem \<Rightarrow> heap_mem) \<Rightarrow> heap \<Rightarrow> heap" where
  "upd_hm p f h = h\<lparr>h_mem := (h_mem h)(p := f (h_mem h p))\<rparr>"

text \<open>Absorbing the free block \<open>q\<close> into its predecessor \<open>p\<close>, the body of both halves of \<open>plug_holes\<close>.\<close>

definition absorb :: "nat \<Rightarrow> nat \<Rightarrow> heap \<Rightarrow> heap" where
  "absorb p q h =
     (let h = (if h_lfree h = q then h\<lparr>h_lfree := p\<rparr> else h);
          h = upd_hm p (hm_next_update (\<lambda>_. hm_next (h_mem h q))) h in
      upd_hm (hm_next (h_mem h q)) (hm_prev_update (\<lambda>_. p)) h)"

definition plug_holes :: "nat \<Rightarrow> heap \<Rightarrow> heap option" where
  "plug_holes mem h = do {
     rt_assert (mem < h_end h);
     rt_assert (hm_used (h_mem h mem) = 0);
     let nmem = hm_next (h_mem h mem);
     let h = (if mem \<noteq> nmem \<and> hm_used (h_mem h nmem) = 0 \<and> nmem \<noteq> h_end h then absorb mem nmem h else h);
     let pmem = hm_prev (h_mem h mem);
     let h = (if pmem \<noteq> mem \<and> hm_used (h_mem h pmem) = 0 then absorb pmem mem h else h);
     Some h }"

text \<open>The heap part of \<^verbatim>\<open>rt_system_heap_init\<close>; \<open>s\<close> is the identifier of \<^verbatim>\<open>heap_sem\<close>. A region that is
  too small leaves the heap as it is.\<close>

definition heap_init :: "nat \<Rightarrow> nat \<Rightarrow> nat \<Rightarrow> heap \<Rightarrow> heap \<times> bool" where
  "heap_init s begin_addr end_addr h =
     (let begin_align = align32 begin_addr;
          end_align = RT_ALIGN_DOWN end_addr RT_ALIGN_SIZE in
      if end_align > 2 * SIZEOF_STRUCT_MEM \<and> end_align - 2 * SIZEOF_STRUCT_MEM \<ge> begin_align then
        let sz = end_align - begin_align - 2 * SIZEOF_STRUCT_MEM;
            fin = sz + SIZEOF_STRUCT_MEM in
        (h\<lparr>h_size := sz, h_ptr := begin_align, h_end := fin, h_lfree := 0, h_sem := s,
          h_mem := (h_mem h)
            (0 := \<lparr>hm_magic = HEAP_MAGIC, hm_used = 0, hm_next = fin, hm_prev = 0\<rparr>,
             fin := \<lparr>hm_magic = HEAP_MAGIC, hm_used = 1, hm_next = fin, hm_prev = fin\<rparr>)\<rparr>, True)
      else (h, False))"

text \<open>The first-fit search from the lowest free block. With a size above that of the heap the bound
  \<^verbatim>\<open>mem_size_aligned - size\<close> wraps.\<close>

partial_function (option) malloc_find :: "heap \<Rightarrow> nat \<Rightarrow> nat \<Rightarrow> nat option option" where
  "malloc_find h sz ptr =
     (if ptr < sub32 (h_size h) sz then
        if hm_used (h_mem h ptr) = 0 \<and> sub32 (hm_next (h_mem h ptr)) (ptr + SIZEOF_STRUCT_MEM) \<ge> sz
        then Some (Some ptr)
        else malloc_find h sz (hm_next (h_mem h ptr))
      else Some None)"

definition account :: "nat \<Rightarrow> heap \<Rightarrow> heap" where
  "account n h = (let u = h_used h + n in h\<lparr>h_used := u, h_max := (if h_max h < u then u else h_max h)\<rparr>)"

definition split_block :: "nat \<Rightarrow> nat \<Rightarrow> heap \<Rightarrow> heap" where
  "split_block ptr ptr2 h =
     (let nxt = hm_next (h_mem h ptr);
          h = upd_hm ptr2 (\<lambda>_. \<lparr>hm_magic = HEAP_MAGIC, hm_used = 0, hm_next = nxt, hm_prev = ptr\<rparr>) h;
          h = upd_hm ptr (hm_next_update (\<lambda>_. ptr2)) h in
      if nxt \<noteq> h_size h + SIZEOF_STRUCT_MEM then upd_hm nxt (hm_prev_update (\<lambda>_. ptr2)) h else h)"

definition malloc_take :: "nat \<Rightarrow> nat \<Rightarrow> heap \<Rightarrow> heap" where
  "malloc_take sz ptr h =
     (let room = sub32 (hm_next (h_mem h ptr)) (ptr + SIZEOF_STRUCT_MEM);
          h = (if room \<ge> sz + SIZEOF_STRUCT_MEM + MIN_SIZE_ALIGNED
               then account (sz + SIZEOF_STRUCT_MEM)
                      (upd_hm ptr (hm_used_update (\<lambda>_. 1)) (split_block ptr (ptr + SIZEOF_STRUCT_MEM + sz) h))
               else account (sub32 (hm_next (h_mem h ptr)) ptr) (upd_hm ptr (hm_used_update (\<lambda>_. 1)) h)) in
      upd_hm ptr (hm_magic_update (\<lambda>_. HEAP_MAGIC)) h)"

text \<open>The walk of \<open>lfree\<close> to the next free block.\<close>

partial_function (option) next_free :: "heap \<Rightarrow> nat \<Rightarrow> nat option" where
  "next_free h p =
     (if hm_used (h_mem h p) \<noteq> 0 \<and> p \<noteq> h_end h then next_free h (hm_next (h_mem h p)) else Some p)"

definition malloc_locked :: "nat \<Rightarrow> heap \<Rightarrow> (heap \<times> nat) option" where
  "malloc_locked sz h = do {
     r \<leftarrow> malloc_find h sz (h_lfree h);
     case r of
       None \<Rightarrow> Some (h, 0)
     | Some ptr \<Rightarrow> do {
         let h' = malloc_take sz ptr h;
         h' \<leftarrow> (if ptr = h_lfree h then do {
                  l \<leftarrow> next_free h' ptr;
                  rt_assert (l = h_end h' \<or> hm_used (h_mem h' l) = 0);
                  Some (h'\<lparr>h_lfree := l\<rparr>) }
                else Some h');
         Some (h', h_ptr h + ptr + SIZEOF_STRUCT_MEM) } }"

text \<open>\<^verbatim>\<open>rt_free\<close> after the semaphore is taken; \<open>mem\<close> is the header's offset.\<close>

definition free_locked :: "nat \<Rightarrow> heap \<Rightarrow> heap option" where
  "free_locked mem h = do {
     rt_assert (hm_used (h_mem h mem) \<noteq> 0);
     rt_assert (hm_magic (h_mem h mem) = HEAP_MAGIC);
     let h = upd_hm mem (\<lambda>m. m\<lparr>hm_used := 0, hm_magic := HEAP_MAGIC\<rparr>) h;
     let h = (if mem < h_lfree h then h\<lparr>h_lfree := mem\<rparr> else h);
     let h = h\<lparr>h_used := sub32 (h_used h) (sub32 (hm_next (h_mem h mem)) mem)\<rparr>;
     plug_holes mem h }"

text \<open>\<^verbatim>\<open>rt_realloc\<close> between its first take and release: whether the block was kept, and the heap.\<close>

definition realloc_locked :: "nat \<Rightarrow> nat \<Rightarrow> heap \<Rightarrow> (heap \<times> bool) option" where
  "realloc_locked mem newsize h =
     (let sz = sub32 (hm_next (h_mem h mem)) (mem + SIZEOF_STRUCT_MEM) in
      if sz = newsize then Some (h, True)
      else if newsize + SIZEOF_STRUCT_MEM + MIN_SIZE < sz then do {
        let h = h\<lparr>h_used := sub32 (h_used h) (sz - newsize)\<rparr>;
        let mem2 = mem + SIZEOF_STRUCT_MEM + newsize;
        h \<leftarrow> plug_holes mem2 (split_block mem mem2 h);
        Some (h, True) }
      else Some (h, False))"

definition rt_memory_info :: "heap \<Rightarrow> nat \<times> nat \<times> nat" where
  "rt_memory_info h = (h_size h, h_used h, h_max h)"

section \<open>The chain of blocks\<close>

lemma upd_hm_sel [simp]:
  "h_ptr (upd_hm p f h) = h_ptr h" "h_end (upd_hm p f h) = h_end h" "h_lfree (upd_hm p f h) = h_lfree h"
  "h_size (upd_hm p f h) = h_size h" "h_used (upd_hm p f h) = h_used h" "h_max (upd_hm p f h) = h_max h"
  "h_byte (upd_hm p f h) = h_byte h" "h_sem (upd_hm p f h) = h_sem h"
  "h_mem (upd_hm p f h) = (h_mem h)(p := f (h_mem h p))"
  by (simp_all add: upd_hm_def)

lemma sub32_le [simp]: "y \<le> x \<Longrightarrow> sub32 x y = x - y"
  by (simp add: sub32_def)

text \<open>One block: from its header at \<open>a\<close> to the next header at \<open>c\<close>; \<open>e\<close> is the end of the heap, whose
  back link is not maintained.\<close>

definition block_ok :: "(nat \<Rightarrow> heap_mem) \<Rightarrow> nat \<Rightarrow> nat \<Rightarrow> nat \<Rightarrow> bool" where
  "block_ok m e a c \<longleftrightarrow> hm_next (m a) = c \<and> a + SIZEOF_STRUCT_MEM \<le> c \<and> RT_ALIGN_SIZE dvd a \<and>
     hm_magic (m a) = HEAP_MAGIC \<and> (c \<noteq> e \<longrightarrow> hm_prev (m c) = a)"

primrec blocks :: "(nat \<Rightarrow> heap_mem) \<Rightarrow> nat \<Rightarrow> nat \<Rightarrow> nat list \<Rightarrow> nat \<Rightarrow> bool" where
  "blocks m e a [] c \<longleftrightarrow> block_ok m e a c"
| "blocks m e a (x # xs) c \<longleftrightarrow> block_ok m e a x \<and> blocks m e x xs c"

abbreviation is_free :: "heap \<Rightarrow> nat \<Rightarrow> bool" where
  "is_free h b \<equiv> hm_used (h_mem h b) = 0"

text \<open>The bytes the blocks in use take up, headers included.\<close>

definition used_bytes :: "(nat \<Rightarrow> heap_mem) \<Rightarrow> nat list \<Rightarrow> nat" where
  "used_bytes m bs = (\<Sum>b \<leftarrow> bs. if hm_used (m b) = 0 then 0 else hm_next (m b) - b)"

text \<open>The blocks \<open>bs\<close> tile the heap.\<close>

definition heap_chain :: "heap \<Rightarrow> nat list \<Rightarrow> bool" where
  "heap_chain h bs \<longleftrightarrow> bs \<noteq> [] \<and> hd bs = 0 \<and> blocks (h_mem h) (h_end h) 0 (tl bs) (h_end h) \<and>
     hm_prev (h_mem h 0) = 0 \<and> hm_used (h_mem h (h_end h)) = 1 \<and> hm_next (h_mem h (h_end h)) = h_end h \<and>
     h_size h + SIZEOF_STRUCT_MEM = h_end h \<and> RT_ALIGN_SIZE dvd h_end h \<and> RT_ALIGN_SIZE dvd h_ptr h \<and>
     0 < h_ptr h \<and> h_ptr h + h_end h + SIZEOF_STRUCT_MEM \<le> 2 ^ 32"

definition lfree_ok :: "heap \<Rightarrow> nat list \<Rightarrow> bool" where
  "lfree_ok h bs \<longleftrightarrow> h_lfree h = h_end h \<or> h_lfree h \<in> set bs \<and> is_free h (h_lfree h)"

definition coalesced :: "heap \<Rightarrow> nat list \<Rightarrow> bool" where
  "coalesced h bs \<longleftrightarrow> successively (\<lambda>a b. \<not> (is_free h a \<and> is_free h b)) bs"

definition heap_inv :: "heap \<Rightarrow> nat list \<Rightarrow> bool" where
  "heap_inv h bs \<longleftrightarrow> heap_chain h bs \<and> lfree_ok h bs \<and> coalesced h bs \<and>
     h_used h = used_bytes (h_mem h) bs \<and> h_used h \<le> h_max h"

text \<open>The search of \<^verbatim>\<open>rt_malloc\<close> sees every free block only when none is below \<open>lfree\<close>.\<close>

definition lfree_low :: "heap \<Rightarrow> nat list \<Rightarrow> bool" where
  "lfree_low h bs \<longleftrightarrow> (\<forall>b \<in> set bs. is_free h b \<longrightarrow> h_lfree h \<le> b)"

text \<open>The user areas in use, as address and length.\<close>

definition regions :: "heap \<Rightarrow> nat list \<Rightarrow> (nat \<times> nat) set" where
  "regions h bs = {(h_ptr h + b + SIZEOF_STRUCT_MEM, hm_next (h_mem h b) - b - SIZEOF_STRUCT_MEM) | b.
     b \<in> set bs \<and> \<not> is_free h b}"

lemma block_ok_cong:
  assumes "block_ok m e a c" "hm_next (m' a) = hm_next (m a)" "hm_magic (m' a) = hm_magic (m a)"
    "c \<noteq> e \<Longrightarrow> hm_prev (m' c) = hm_prev (m c)"
  shows "block_ok m' e a c"
  using assms by (auto simp: block_ok_def)

lemma blocks_append:
  "blocks m e a (xs @ x # ys) c \<longleftrightarrow> blocks m e a xs x \<and> blocks m e x ys c"
  by (induction xs arbitrary: a) auto

lemma blocks_cong:
  assumes "blocks m e a xs c" "\<And>p. p \<in> set (a # xs) \<Longrightarrow> hm_next (m' p) = hm_next (m p) \<and> hm_magic (m' p) = hm_magic (m p)"
    "\<And>p. p \<in> set (xs @ [c]) \<Longrightarrow> p \<noteq> e \<Longrightarrow> hm_prev (m' p) = hm_prev (m p)"
  shows "blocks m' e a xs c"
  using assms by (induction xs arbitrary: a) (auto intro: block_ok_cong)

lemma blocks_less:
  "blocks m e a xs c \<Longrightarrow> a + SIZEOF_STRUCT_MEM \<le> c \<and> (\<forall>x \<in> set xs. a + SIZEOF_STRUCT_MEM \<le> x \<and> x + SIZEOF_STRUCT_MEM \<le> c) \<and>
   sorted_wrt (\<lambda>x y. x + SIZEOF_STRUCT_MEM \<le> y) (a # xs)"
proof (induction xs arbitrary: a)
  case (Cons x xs)
  then have "a + SIZEOF_STRUCT_MEM \<le> x" by (simp add: block_ok_def)
  then show ?case using Cons by fastforce
qed (simp add: block_ok_def)

lemma blocks_dvd: "blocks m e a xs c \<Longrightarrow> b \<in> set (a # xs) \<Longrightarrow> RT_ALIGN_SIZE dvd b \<and> hm_magic (m b) = HEAP_MAGIC"
  by (induction xs arbitrary: a) (auto simp: block_ok_def)

lemma blocks_next:
  "blocks m e a xs c \<Longrightarrow> b \<in> set (a # xs) \<Longrightarrow>
   b + SIZEOF_STRUCT_MEM \<le> hm_next (m b) \<and> hm_next (m b) \<in> set (xs @ [c])"
  by (induction xs arbitrary: a) (auto simp: block_ok_def)

lemma blocks_prev: "blocks m e a xs c \<Longrightarrow> c \<noteq> e \<Longrightarrow> hm_prev (m c) = last (a # xs)"
  by (induction xs arbitrary: a) (auto simp: block_ok_def)

lemma blocks_hd: "blocks m e a xs c \<Longrightarrow> hm_next (m a) = hd (xs @ [c])"
  by (cases xs) (auto simp: block_ok_def)

text \<open>The heap around one of its blocks.\<close>

lemma heap_chain_split:
  assumes "heap_chain h (us @ b # vs)"
  shows "blocks (h_mem h) (h_end h) b vs (h_end h)"
    "us = [] \<and> b = 0 \<or> us \<noteq> [] \<and> hd us = 0 \<and> blocks (h_mem h) (h_end h) 0 (tl us) b"
    "hm_prev (h_mem h b) = last (b # us)"
proof -
  have t: "hd (us @ b # vs) = 0" "blocks (h_mem h) (h_end h) 0 (tl (us @ b # vs)) (h_end h)" "hm_prev (h_mem h 0) = 0"
    using assms unfolding heap_chain_def by blast+
  have "blocks (h_mem h) (h_end h) b vs (h_end h) \<and>
    (us = [] \<and> b = 0 \<or> us \<noteq> [] \<and> hd us = 0 \<and> blocks (h_mem h) (h_end h) 0 (tl us) b)"
    using t by (cases us) (auto simp: blocks_append)
  moreover from this have "b < h_end h" using blocks_less[of "h_mem h" "h_end h" b vs "h_end h"] by (simp add: mem_consts)
  ultimately show "blocks (h_mem h) (h_end h) b vs (h_end h)"
    "us = [] \<and> b = 0 \<or> us \<noteq> [] \<and> hd us = 0 \<and> blocks (h_mem h) (h_end h) 0 (tl us) b"
    "hm_prev (h_mem h b) = last (b # us)"
    using blocks_prev[of "h_mem h" "h_end h" 0 "tl us" b] t(3) by (cases us; auto)+
qed

lemma heap_chain_bounds:
  assumes "heap_chain h (us @ b # vs)"
  shows "hm_next (h_mem h b) = hd (vs @ [h_end h])" "b + SIZEOF_STRUCT_MEM \<le> hm_next (h_mem h b)"
    "hm_magic (h_mem h b) = HEAP_MAGIC" "RT_ALIGN_SIZE dvd b" "b + SIZEOF_STRUCT_MEM \<le> h_end h"
    "\<And>u. u \<in> set us \<Longrightarrow> u + SIZEOF_STRUCT_MEM \<le> b"
    "\<And>v. v \<in> set vs \<Longrightarrow> b + SIZEOF_STRUCT_MEM \<le> v \<and> v + SIZEOF_STRUCT_MEM \<le> h_end h"
proof -
  note s = heap_chain_split[OF assms]
  show "hm_next (h_mem h b) = hd (vs @ [h_end h])" by (rule blocks_hd[OF s(1)])
  show "b + SIZEOF_STRUCT_MEM \<le> hm_next (h_mem h b)" using blocks_next[OF s(1), of b] by simp
  show "hm_magic (h_mem h b) = HEAP_MAGIC" "RT_ALIGN_SIZE dvd b" using blocks_dvd[OF s(1), of b] by auto
  show "b + SIZEOF_STRUCT_MEM \<le> h_end h"
    "\<And>v. v \<in> set vs \<Longrightarrow> b + SIZEOF_STRUCT_MEM \<le> v \<and> v + SIZEOF_STRUCT_MEM \<le> h_end h"
    using blocks_less[OF s(1)] by auto
  fix u assume u: "u \<in> set us"
  then have b: "blocks (h_mem h) (h_end h) 0 (tl us) b" and us: "us = 0 # tl us" using s(2) by (auto, cases us, auto)
  have "u \<in> set (0 # tl us)" using u us by metis
  then show "u + SIZEOF_STRUCT_MEM \<le> b" using blocks_less[OF b] by auto
qed

lemma heap_chain_distinct:
  assumes "heap_chain h bs" shows "distinct bs" "h_end h \<notin> set bs" "sorted_wrt (\<lambda>x y. x + SIZEOF_STRUCT_MEM \<le> y) bs"
proof -
  have "\<exists>xs. bs = 0 # xs \<and> blocks (h_mem h) (h_end h) 0 xs (h_end h)" using assms by (cases bs) (auto simp: heap_chain_def)
  then obtain xs where x: "bs = 0 # xs" "blocks (h_mem h) (h_end h) 0 xs (h_end h)" by blast
  show s: "sorted_wrt (\<lambda>x y. x + SIZEOF_STRUCT_MEM \<le> y) bs" using blocks_less[OF x(2)] x(1) by blast
  show "h_end h \<notin> set bs" using blocks_less[OF x(2)] x(1) by (auto simp: mem_consts)
  have "sorted_wrt (<) bs" by (rule sorted_wrt_mono_rel[OF _ s]) (auto simp: mem_consts)
  then show "distinct bs" by (simp add: strict_sorted_iff)
qed

lemma heap_chain_cong:
  assumes "heap_chain h bs" "h_ptr h' = h_ptr h" "h_end h' = h_end h" "h_size h' = h_size h"
    "\<And>p. p \<in> set bs \<Longrightarrow> hm_next (h_mem h' p) = hm_next (h_mem h p) \<and> hm_magic (h_mem h' p) = hm_magic (h_mem h p) \<and>
       hm_prev (h_mem h' p) = hm_prev (h_mem h p)"
    "h_mem h' (h_end h) = h_mem h (h_end h)"
  shows "heap_chain h' bs"
proof -
  have s: "set (0 # tl bs) = set bs" "0 \<in> set bs" using assms(1) by (cases bs; auto simp: heap_chain_def)+
  have "blocks (h_mem h) (h_end h) 0 (tl bs) (h_end h)" using assms(1) by (simp add: heap_chain_def)
  then have "blocks (h_mem h') (h_end h) 0 (tl bs) (h_end h)"
    by (rule blocks_cong) (use assms(5) s in auto)
  then show ?thesis using assms s(2) by (simp add: heap_chain_def)
qed

section \<open>Splitting and merging blocks\<close>

lemma heap_chain_cut:
  assumes c: "heap_chain h (us @ b # vs)"
    and sel: "h_ptr h' = h_ptr h" "h_end h' = h_end h" "h_size h' = h_size h"
      "hm_used (h_mem h' (h_end h)) = 1" "hm_next (h_mem h' (h_end h)) = h_end h"
    and left: "\<And>u. u \<in> set us \<Longrightarrow> h_mem h' u = h_mem h u" "hm_prev (h_mem h' b) = hm_prev (h_mem h b)"
    and right: "blocks (h_mem h') (h_end h) b ws (h_end h)"
  shows "heap_chain h' (us @ b # ws)"
proof -
  note s = heap_chain_split[OF c]
  have b: "b \<noteq> h_end h" using heap_chain_bounds(5)[OF c] by (simp add: mem_consts)
  show ?thesis
  proof (cases us)
    case Nil
    then show ?thesis using c sel left(2) right s(2,3) by (simp add: heap_chain_def)
  next
    case (Cons u us')
    have "blocks (h_mem h') (h_end h) 0 us' b"
      by (rule blocks_cong[where m = "h_mem h"]) (use s(2) Cons left in auto)
    then show ?thesis using c sel left right Cons by (simp add: heap_chain_def blocks_append)
  qed
qed

lemma split_block_sel [simp]:
  "h_ptr (split_block p q h) = h_ptr h" "h_end (split_block p q h) = h_end h" "h_size (split_block p q h) = h_size h"
  "h_lfree (split_block p q h) = h_lfree h" "h_used (split_block p q h) = h_used h" "h_max (split_block p q h) = h_max h"
  "h_byte (split_block p q h) = h_byte h" "h_sem (split_block p q h) = h_sem h"
  by (simp_all add: split_block_def Let_def)

lemma split_block_mem:
  assumes "heap_chain h (us @ b # vs)" "q = b + SIZEOF_STRUCT_MEM + n" "q + SIZEOF_STRUCT_MEM \<le> hm_next (h_mem h b)"
  shows "hm_used (h_mem (split_block b q h) x) = (if x = q then 0 else hm_used (h_mem h x))"
    "hm_next (h_mem (split_block b q h) x) = (if x = b then q else if x = q then hm_next (h_mem h b) else hm_next (h_mem h x))"
    "hm_magic (h_mem (split_block b q h) x) = (if x = q then HEAP_MAGIC else hm_magic (h_mem h x))"
    "x < hm_next (h_mem h b) \<Longrightarrow> hm_prev (h_mem (split_block b q h) x) = (if x = q then b else hm_prev (h_mem h x))"
    "hm_next (h_mem h b) \<noteq> h_end h \<Longrightarrow> hm_prev (h_mem (split_block b q h) (hm_next (h_mem h b))) = q"
    "hm_next (h_mem h b) < x \<Longrightarrow> hm_prev (h_mem (split_block b q h) x) = hm_prev (h_mem h x)"
  using assms by (auto simp: split_block_def Let_def heap_chain_def mem_consts)

lemma split_block_chain:
  assumes c: "heap_chain h (us @ b # vs)" and q: "q = b + SIZEOF_STRUCT_MEM + n" "RT_ALIGN_SIZE dvd n"
    "q + SIZEOF_STRUCT_MEM \<le> hm_next (h_mem h b)"
  shows "heap_chain (split_block b q h) (us @ b # q # vs)"
proof (rule heap_chain_cut[OF c])
  note s = heap_chain_split[OF c] and bd = heap_chain_bounds[OF c] and m = split_block_mem[OF c q(1,3)]
  have dq: "RT_ALIGN_SIZE dvd q" using bd(4) q(1,2) by (simp add: mem_consts RT_ALIGN_SIZE_def)
  have e: "hm_next (h_mem h b) \<le> h_end h" using s(1) blocks_less[OF s(1)] bd(1) by (cases vs) (auto simp: mem_consts)
  have qb: "b \<noteq> q" "b + SIZEOF_STRUCT_MEM \<le> q" "q < hm_next (h_mem h b)" using q(1,3) by (simp_all add: mem_consts)
  have ne: "h_end h \<noteq> q" "h_end h \<noteq> b" using q(1,3) bd(5) e by (simp_all add: mem_consts)
  show "h_mem (split_block b q h) u = h_mem h u" if "u \<in> set us" for u
    using bd(6)[OF that] q(1,3) bd(2) by (auto simp: split_block_def Let_def mem_consts)
  show "hm_prev (h_mem (split_block b q h) b) = hm_prev (h_mem h b)" using m(4)[of b] q(1,3) by (simp add: mem_consts)
  show "hm_used (h_mem (split_block b q h) (h_end h)) = 1" "hm_next (h_mem (split_block b q h) (h_end h)) = h_end h"
    using c ne by (simp_all add: m heap_chain_def)
  have b1: "block_ok (h_mem (split_block b q h)) (h_end h) b q"
    using m(4)[of q] qb bd(3,4) by (simp add: block_ok_def m(2,3))
  have "block_ok (h_mem (split_block b q h)) (h_end h) q (hm_next (h_mem h b))"
    using m(5) q(3) qb dq by (simp add: block_ok_def m(2,3))
  moreover have "blocks (h_mem (split_block b q h)) (h_end h) v ws (h_end h)" if v: "vs = v # ws" for v ws
  proof -
    have c: "blocks (h_mem h) (h_end h) v ws (h_end h)" "hm_next (h_mem h b) = v" using s(1) bd(1) v by auto
    have g: "v < x" if "x \<in> set (ws @ [h_end h])" for x
      using blocks_less[OF c(1)] that by (fastforce simp: mem_consts)
    show ?thesis
    proof (rule blocks_cong[OF c(1)])
      fix p assume "p \<in> set (v # ws)"
      then have "v \<le> p" using g by fastforce
      then show "hm_next (h_mem (split_block b q h) p) = hm_next (h_mem h p) \<and>
          hm_magic (h_mem (split_block b q h) p) = hm_magic (h_mem h p)"
        using qb c(2) by (simp add: m(2,3))
    qed (use g m(6) c(2) in auto)
  qed
  ultimately show "blocks (h_mem (split_block b q h)) (h_end h) b (q # vs) (h_end h)"
    using b1 bd(1) by (cases vs) auto
qed simp_all

lemma absorb_sel [simp]:
  "h_ptr (absorb p q h) = h_ptr h" "h_end (absorb p q h) = h_end h" "h_size (absorb p q h) = h_size h"
  "h_used (absorb p q h) = h_used h" "h_max (absorb p q h) = h_max h" "h_byte (absorb p q h) = h_byte h"
  "h_sem (absorb p q h) = h_sem h" "h_lfree (absorb p q h) = (if h_lfree h = q then p else h_lfree h)"
  "hm_used (h_mem (absorb p q h) x) = hm_used (h_mem h x)"
  "hm_magic (h_mem (absorb p q h) x) = hm_magic (h_mem h x)"
  "hm_next (h_mem (absorb p q h) x) = (if x = p then hm_next (h_mem h q) else hm_next (h_mem h x))"
  by (simp_all add: absorb_def Let_def)

lemma absorb_prev:
  "p \<noteq> q \<Longrightarrow> hm_prev (h_mem (absorb p q h) x) = (if x = hm_next (h_mem h q) then p else hm_prev (h_mem h x))"
  by (simp add: absorb_def Let_def)

lemma absorb_chain:
  assumes c: "heap_chain h (us @ p # q # vs)"
  shows "heap_chain (absorb p q h) (us @ p # vs)"
proof (rule heap_chain_cut[OF c])
  have c': "heap_chain h ((us @ [p]) @ q # vs)" using c by simp
  note s = heap_chain_split[OF c'] and bd = heap_chain_bounds[OF c'] and bp = heap_chain_bounds[OF c]
  have pq: "p < q" using bp(7)[of q] by (simp add: mem_consts)
  have np: "hm_next (h_mem h p) = q" using bp(1) by simp
  note ap = absorb_prev[OF less_imp_neq[OF pq], of h]
  have gt: "q < hm_next (h_mem h q)" using bd(2) by (simp add: mem_consts)
  show "h_mem (absorb p q h) u = h_mem h u" if "u \<in> set us" for u
    using bp(6)[OF that] gt pq by (auto simp: absorb_def Let_def mem_consts)
  show "hm_prev (h_mem (absorb p q h) p) = hm_prev (h_mem h p)" using gt pq by (simp add: ap)
  show "hm_used (h_mem (absorb p q h) (h_end h)) = 1" "hm_next (h_mem (absorb p q h) (h_end h)) = h_end h"
    using c bp(5) by (auto simp: heap_chain_def mem_consts)
  have b1: "block_ok (h_mem (absorb p q h)) (h_end h) p (hm_next (h_mem h q))"
    using bp(2-4) np gt by (simp add: block_ok_def ap)
  show "blocks (h_mem (absorb p q h)) (h_end h) p vs (h_end h)"
  proof (cases vs)
    case Nil
    then show ?thesis using b1 bd(1) by simp
  next
    case (Cons v ws)
    have c: "blocks (h_mem h) (h_end h) v ws (h_end h)" "hm_next (h_mem h q) = v" using s(1) bd(1) Cons by auto
    have "v < x" if "x \<in> set (ws @ [h_end h])" for x
      using blocks_less[OF c(1)] that by (fastforce simp: mem_consts)
    then have "blocks (h_mem (absorb p q h)) (h_end h) v ws (h_end h)"
      by (intro blocks_cong[OF c(1)]) (use c(2) gt pq in \<open>fastforce simp: ap\<close>)+
    then show ?thesis using Cons b1 c(2) by simp
  qed
qed simp_all

text \<open>Merging free blocks moves nothing that is in use.\<close>

lemma used_bytes_append [simp]: "used_bytes m (xs @ ys) = used_bytes m xs + used_bytes m ys"
  by (simp add: used_bytes_def)

lemma used_bytes_Cons [simp]:
  "used_bytes m (x # xs) = (if hm_used (m x) = 0 then 0 else hm_next (m x) - x) + used_bytes m xs"
  by (simp add: used_bytes_def)

lemma used_bytes_cong:
  "(\<And>x. x \<in> set xs \<Longrightarrow> hm_used (m' x) = hm_used (m x) \<and> (hm_used (m x) \<noteq> 0 \<longrightarrow> hm_next (m' x) = hm_next (m x))) \<Longrightarrow>
   used_bytes m' xs = used_bytes m xs"
  unfolding used_bytes_def by (intro arg_cong[where f = sum_list] map_cong) auto

definition same_areas :: "heap \<Rightarrow> nat list \<Rightarrow> heap \<Rightarrow> nat list \<Rightarrow> bool" where
  "same_areas h bs h' bs' \<longleftrightarrow> regions h' bs' = regions h bs \<and> used_bytes (h_mem h') bs' = used_bytes (h_mem h) bs \<and>
     h_ptr h' = h_ptr h \<and> h_end h' = h_end h \<and> h_size h' = h_size h \<and> h_used h' = h_used h \<and>
     h_max h' = h_max h \<and> h_byte h' = h_byte h \<and> h_sem h' = h_sem h"

lemma same_areas_trans: "same_areas h bs h1 b1 \<Longrightarrow> same_areas h1 b1 h2 b2 \<Longrightarrow> same_areas h bs h2 b2"
  by (simp add: same_areas_def)

lemma same_areas_refl: "same_areas h bs h bs"
  by (simp add: same_areas_def)

lemma absorb_spec:
  assumes c: "heap_chain h (us @ p # q # vs)" and f: "is_free h p" "is_free h q" and l: "lfree_ok h (us @ p # q # vs)"
  shows "heap_chain (absorb p q h) (us @ p # vs)" "lfree_ok (absorb p q h) (us @ p # vs)"
    "same_areas h (us @ p # q # vs) (absorb p q h) (us @ p # vs)"
    "lfree_low h (us @ p # q # vs) \<Longrightarrow> lfree_low (absorb p q h) (us @ p # vs)"
proof -
  show "heap_chain (absorb p q h) (us @ p # vs)" by (rule absorb_chain[OF c])
  have d: "distinct (us @ p # q # vs)" by (rule heap_chain_distinct(1)[OF c])
  have pq: "p < q" using heap_chain_bounds(7)[OF c, of q] by (simp add: mem_consts)
  show "lfree_ok (absorb p q h) (us @ p # vs)" using l f by (auto simp: lfree_ok_def)
  show "lfree_low h (us @ p # q # vs) \<Longrightarrow> lfree_low (absorb p q h) (us @ p # vs)"
    using f pq by (auto simp: lfree_low_def)
  have "used_bytes (h_mem (absorb p q h)) (us @ p # vs) = used_bytes (h_mem h) (us @ p # vs)"
    by (rule used_bytes_cong) (use f in auto)
  moreover have "regions (absorb p q h) (us @ p # vs) = regions h (us @ p # q # vs)"
    using f unfolding regions_def by (intro Collect_cong) (auto; metis)
  ultimately show "same_areas h (us @ p # q # vs) (absorb p q h) (us @ p # vs)"
    using f by (simp add: same_areas_def)
qed

lemma coalesced_append:
  "coalesced h (xs @ ys) \<longleftrightarrow> coalesced h xs \<and> coalesced h ys \<and>
     (xs = [] \<or> ys = [] \<or> \<not> (is_free h (last xs) \<and> is_free h (hd ys)))"
  by (simp add: coalesced_def successively_append_iff)

lemma coalesced_Nil [simp]: "coalesced h []"
  by (simp add: coalesced_def)

lemma coalesced_Cons: "coalesced h (x # xs) \<longleftrightarrow> xs = [] \<or> \<not> (is_free h x \<and> is_free h (hd xs)) \<and> coalesced h xs"
  by (simp add: coalesced_def successively_Cons)

lemma coalesced_cong: "(\<And>x. x \<in> set xs \<Longrightarrow> is_free h' x = is_free h x) \<Longrightarrow> coalesced h' xs = coalesced h xs"
  unfolding coalesced_def by (rule successively_cong) auto

text \<open>\<open>plug_holes\<close> on a block that has just become free restores the separation of the free blocks.\<close>

lemma plug_forward:
  assumes c: "heap_chain h (us @ b # vs)" and f: "is_free h b" and l: "lfree_ok h (us @ b # vs)"
    and co: "coalesced h vs"
  obtains h1 ws where "h1 = (let n = hm_next (h_mem h b) in if b \<noteq> n \<and> is_free h n \<and> n \<noteq> h_end h then absorb b n h else h)"
    "heap_chain h1 (us @ b # ws)" "lfree_ok h1 (us @ b # ws)" "same_areas h (us @ b # vs) h1 (us @ b # ws)"
    "lfree_low h (us @ b # vs) \<Longrightarrow> lfree_low h1 (us @ b # ws)" "coalesced h1 (b # ws)"
    "\<And>x. is_free h1 x = is_free h x"
proof (cases "vs \<noteq> [] \<and> is_free h (hd vs)")
  case True
  then obtain ws where v: "vs = hd vs # ws" "is_free h (hd vs)" by (metis list.collapse)
  note bd = heap_chain_bounds[OF c]
  have e: "hd vs \<noteq> h_end h" "b \<noteq> hd vs" using bd(7)[of "hd vs"] v(1) True by (auto simp: mem_consts)
  have n: "hm_next (h_mem h b) = hd vs" using bd(1) True by simp
  have c': "heap_chain h (us @ b # hd vs # ws)" "lfree_ok h (us @ b # hd vs # ws)" using c l v(1) by simp_all
  note ab = absorb_spec[OF c'(1) f v(2) c'(2)]
  have co': "coalesced (absorb b (hd vs) h) (b # ws)"
    using co v by (metis absorb_sel(9) coalesced_Cons coalesced_cong)
  show thesis
    by (rule that[of "absorb b (hd vs) h" ws]) (use ab co' n e True v in \<open>auto simp: Let_def\<close>)
next
  case False
  have "(let n = hm_next (h_mem h b) in if b \<noteq> n \<and> is_free h n \<and> n \<noteq> h_end h then absorb b n h else h) = h"
    using False heap_chain_bounds(1)[OF c] by (cases vs) (auto simp: Let_def)
  then show thesis
    by (intro that[of h vs]) (use c l co False same_areas_refl in \<open>auto simp: coalesced_Cons\<close>)
qed

lemma plug_backward:
  assumes c: "heap_chain h (us @ b # vs)" and f: "is_free h b" and l: "lfree_ok h (us @ b # vs)"
    and co: "coalesced h us" "coalesced h (b # vs)"
  obtains h1 ws where "h1 = (let p = hm_prev (h_mem h b) in if p \<noteq> b \<and> is_free h p then absorb p b h else h)"
    "heap_chain h1 ws" "lfree_ok h1 ws" "same_areas h (us @ b # vs) h1 ws"
    "lfree_low h (us @ b # vs) \<Longrightarrow> lfree_low h1 ws" "coalesced h1 ws"
proof (cases "us \<noteq> [] \<and> is_free h (last us)")
  case True
  then obtain xs where u: "us = xs @ [last us]" "is_free h (last us)" by (metis append_butlast_last_id)
  have d: "last us \<noteq> b" using heap_chain_bounds(6)[OF c, of "last us"] True by (auto simp: mem_consts)
  have p: "hm_prev (h_mem h b) = last us" using heap_chain_split(3)[OF c] True by simp
  have c': "heap_chain h (xs @ last us # b # vs)" "lfree_ok h (xs @ last us # b # vs)" using c l u(1)
    by (metis append.assoc append_Cons append_Nil)+
  note ab = absorb_spec[OF c'(1) u(2) f c'(2)]
  have "coalesced h (xs @ [last us])" using co(1) u(1) by simp
  then have "coalesced h (xs @ last us # vs)"
    using co(2) u(2) f by (auto simp: coalesced_append coalesced_Cons)
  then have co': "coalesced (absorb (last us) b h) (xs @ last us # vs)" by (subst coalesced_cong[where h = h]) auto
  have e: "us @ b # vs = xs @ last us # b # vs" using u(1) by (metis append.assoc append_Cons append_Nil)
  show thesis
    by (rule that[of "absorb (last us) b h" "xs @ last us # vs"])
      (use ab[folded e] co' p d u(2) in \<open>auto simp: Let_def\<close>)
next
  case False
  have "(let p = hm_prev (h_mem h b) in if p \<noteq> b \<and> is_free h p then absorb p b h else h) = h"
    using False heap_chain_split(3)[OF c] by (auto simp: Let_def)
  then show thesis
    by (intro that[of h "us @ b # vs"]) (use c l co False same_areas_refl in \<open>auto simp: coalesced_append\<close>)
qed

lemma plug_holes_spec:
  assumes c: "heap_chain h (us @ b # vs)" and f: "is_free h b" and l: "lfree_ok h (us @ b # vs)"
    and co: "coalesced h us" "coalesced h vs"
  obtains h1 ws where "plug_holes b h = Some h1" "heap_chain h1 ws" "lfree_ok h1 ws" "coalesced h1 ws"
    "same_areas h (us @ b # vs) h1 ws" "lfree_low h (us @ b # vs) \<Longrightarrow> lfree_low h1 ws"
proof -
  obtain h1 ws where 1: "h1 = (let n = hm_next (h_mem h b) in if b \<noteq> n \<and> is_free h n \<and> n \<noteq> h_end h then absorb b n h else h)"
    "heap_chain h1 (us @ b # ws)" "lfree_ok h1 (us @ b # ws)" "same_areas h (us @ b # vs) h1 (us @ b # ws)"
    "lfree_low h (us @ b # vs) \<Longrightarrow> lfree_low h1 (us @ b # ws)" "coalesced h1 (b # ws)"
    "\<And>x. is_free h1 x = is_free h x"
    by (rule plug_forward[OF c f l co(2)]) blast
  have "is_free h1 b" "coalesced h1 us" using f co(1) 1(7) coalesced_cong[of us h1 h] by auto
  then obtain h2 w2 where 2: "h2 = (let p = hm_prev (h_mem h1 b) in if p \<noteq> b \<and> is_free h1 p then absorb p b h1 else h1)"
    "heap_chain h2 w2" "lfree_ok h2 w2" "same_areas h1 (us @ b # ws) h2 w2"
    "lfree_low h1 (us @ b # ws) \<Longrightarrow> lfree_low h2 w2" "coalesced h2 w2"
    by (rule plug_backward[OF 1(2) _ 1(3) _ 1(6)]) blast
  have "b < h_end h" using heap_chain_bounds(5)[OF c] by (simp add: mem_consts)
  then have "plug_holes b h = Some h2" using f by (simp add: plug_holes_def 2(1) 1(1) Let_def)
  then show thesis using 1 2 same_areas_trans[OF 1(4) 2(4)] by (intro that[of h2 w2]) auto
qed

section \<open>Searching\<close>

lemma heap_chain_next:
  assumes c: "heap_chain h bs" and p: "p \<in> set bs"
  shows "p + SIZEOF_STRUCT_MEM \<le> hm_next (h_mem h p)" "hm_next (h_mem h p) \<in> set bs \<union> {h_end h}"
    "\<And>b. b \<in> set bs \<Longrightarrow> p < b \<Longrightarrow> hm_next (h_mem h p) \<le> b" "hm_next (h_mem h p) \<le> h_end h"
proof -
  from p obtain us vs where b: "bs = us @ p # vs" by (auto simp: in_set_conv_decomp)
  note bd = heap_chain_bounds[OF c[unfolded b]]
  show "p + SIZEOF_STRUCT_MEM \<le> hm_next (h_mem h p)" by (rule bd(2))
  show "hm_next (h_mem h p) \<in> set bs \<union> {h_end h}" using bd(1) b by (cases vs) auto
  show "hm_next (h_mem h p) \<le> h_end h" using bd(1,5) bd(7)[of "hd vs"] by (cases vs) (auto simp: mem_consts)
  fix x assume x: "x \<in> set bs" "p < x"
  then have "x \<in> set vs" using bd(6) b by (fastforce simp: mem_consts)
  then obtain v ws where v: "vs = v # ws" by (cases vs) auto
  have "v \<le> x" using heap_chain_distinct(3)[OF c] \<open>x \<in> set vs\<close> v b by (fastforce simp: sorted_wrt_append mem_consts)
  then show "hm_next (h_mem h p) \<le> x" using bd(1) v by simp
qed

definition fits :: "heap \<Rightarrow> nat \<Rightarrow> nat \<Rightarrow> bool" where
  "fits h sz b \<longleftrightarrow> is_free h b \<and> b + SIZEOF_STRUCT_MEM + sz \<le> hm_next (h_mem h b)"

lemma malloc_find_spec:
  assumes c: "heap_chain h bs" and sz: "sz \<le> h_size h" and p: "p \<in> set bs \<union> {h_end h}"
  shows "\<exists>r. malloc_find h sz p = Some r \<and>
    (case r of None \<Rightarrow> \<forall>b \<in> set bs. p \<le> b \<longrightarrow> b < h_size h - sz \<longrightarrow> \<not> fits h sz b
     | Some b \<Rightarrow> b \<in> set bs \<and> p \<le> b \<and> b < h_size h - sz \<and> fits h sz b)"
  using p
proof (induction "h_end h - p" arbitrary: p rule: less_induct)
  case less
  show ?case
  proof (cases "p < h_size h - sz")
    case False
    then show ?thesis using sz by (subst malloc_find.simps) (auto intro!: exI[of _ None])
  next
    case lt: True
    have ends: "h_size h + SIZEOF_STRUCT_MEM = h_end h" using c by (simp add: heap_chain_def)
    then have pb: "p \<in> set bs" using less.prems lt by auto
    note n = heap_chain_next[OF c pb]
    show ?thesis
    proof (cases "fits h sz p")
      case True
      then have "malloc_find h sz p = Some (Some p)"
        using lt sz n(1) by (subst malloc_find.simps) (auto simp: fits_def)
      then show ?thesis using lt pb True by auto
    next
      case False
      have nx: "hm_next (h_mem h p) > p" "p < h_end h" using n(1,4) by (simp_all add: mem_consts)
      then have "h_end h - hm_next (h_mem h p) < h_end h - p" by simp
      then obtain r where r: "malloc_find h sz (hm_next (h_mem h p)) = Some r"
        "case r of None \<Rightarrow> \<forall>b \<in> set bs. hm_next (h_mem h p) \<le> b \<longrightarrow> b < h_size h - sz \<longrightarrow> \<not> fits h sz b
         | Some b \<Rightarrow> b \<in> set bs \<and> hm_next (h_mem h p) \<le> b \<and> b < h_size h - sz \<and> fits h sz b"
        using less.hyps[OF _ n(2)] by blast
      have "malloc_find h sz p = Some r"
        using False lt sz n(1) r(1) by (subst malloc_find.simps) (auto simp: fits_def)
      moreover have "b = p \<or> hm_next (h_mem h p) \<le> b" if "b \<in> set bs" "p \<le> b" for b
        using n(3)[OF that(1)] that(2) by (cases "b = p") auto
      ultimately show ?thesis using r(2) False nx(1) by (intro exI[of _ r]) (fastforce split: option.splits)
    qed
  qed
qed

lemma next_free_spec:
  assumes c: "heap_chain h bs" and p: "p \<in> set bs \<union> {h_end h}"
  shows "\<exists>l. next_free h p = Some l \<and> (l = h_end h \<or> l \<in> set bs \<and> is_free h l) \<and>
    (\<forall>b \<in> set bs. p \<le> b \<longrightarrow> is_free h b \<longrightarrow> l \<le> b)"
  using p
proof (induction "h_end h - p" arbitrary: p rule: less_induct)
  case less
  show ?case
  proof (cases "is_free h p \<or> p = h_end h")
    case True
    then show ?thesis using less.prems by (subst next_free.simps) auto
  next
    case False
    then have pb: "p \<in> set bs" using less.prems by auto
    note n = heap_chain_next[OF c pb]
    have "hm_next (h_mem h p) > p" "p < h_end h" using n(1,4) by (simp_all add: mem_consts)
    then have "h_end h - hm_next (h_mem h p) < h_end h - p" by simp
    then obtain l where l: "next_free h (hm_next (h_mem h p)) = Some l" "l = h_end h \<or> l \<in> set bs \<and> is_free h l"
      "\<forall>b \<in> set bs. hm_next (h_mem h p) \<le> b \<longrightarrow> is_free h b \<longrightarrow> l \<le> b"
      using less.hyps[OF _ n(2)] by blast
    moreover have "next_free h p = next_free h (hm_next (h_mem h p))" using False by (subst next_free.simps) auto
    moreover have "hm_next (h_mem h p) \<le> b" if "b \<in> set bs" "p \<le> b" "is_free h b" for b
      using n(3)[OF that(1)] that False by (cases "b = p") auto
    ultimately show ?thesis by auto
  qed
qed

section \<open>Allocation\<close>

text \<open>Marking a free block as used.\<close>

definition mark_used :: "nat \<Rightarrow> nat \<Rightarrow> heap \<Rightarrow> heap" where
  "mark_used m b h = upd_hm b (hm_magic_update (\<lambda>_. HEAP_MAGIC)) (account m (upd_hm b (hm_used_update (\<lambda>_. 1)) h))"

lemma mark_used_sel [simp]:
  "h_ptr (mark_used m b h) = h_ptr h" "h_end (mark_used m b h) = h_end h" "h_size (mark_used m b h) = h_size h"
  "h_lfree (mark_used m b h) = h_lfree h" "h_used (mark_used m b h) = h_used h + m"
  "h_max (mark_used m b h) = max (h_max h) (h_used h + m)" "h_byte (mark_used m b h) = h_byte h"
  "h_sem (mark_used m b h) = h_sem h"
  "hm_used (h_mem (mark_used m b h) x) = (if x = b then 1 else hm_used (h_mem h x))"
  "hm_next (h_mem (mark_used m b h) x) = hm_next (h_mem h x)"
  "hm_prev (h_mem (mark_used m b h) x) = hm_prev (h_mem h x)"
  "hm_magic (h_mem (mark_used m b h) x) = (if x = b then HEAP_MAGIC else hm_magic (h_mem h x))"
  by (auto simp: mark_used_def account_def Let_def)

lemma mark_used_mem: "x \<noteq> b \<Longrightarrow> h_mem (mark_used m b h) x = h_mem h x"
  by (simp add: mark_used_def account_def Let_def)

lemma mark_used_spec:
  assumes c: "heap_chain h (us @ b # vs)" and co: "coalesced h us" "coalesced h vs" and f: "is_free h b"
  shows "heap_chain (mark_used m b h) (us @ b # vs)" "coalesced (mark_used m b h) (us @ b # vs)"
    "used_bytes (h_mem (mark_used m b h)) (us @ b # vs) = used_bytes (h_mem h) (us @ b # vs) + (hm_next (h_mem h b) - b)"
    "regions (mark_used m b h) (us @ b # vs) =
       insert (h_ptr h + b + SIZEOF_STRUCT_MEM, hm_next (h_mem h b) - b - SIZEOF_STRUCT_MEM) (regions h (us @ b # vs))"
proof -
  have d: "b \<notin> set us" "b \<notin> set vs" "b \<noteq> h_end h"
    using heap_chain_distinct(1,2)[OF c] by auto
  show "heap_chain (mark_used m b h) (us @ b # vs)"
    by (rule heap_chain_cong[OF c]) (use d(3) heap_chain_bounds(3)[OF c] in \<open>auto simp: mark_used_mem\<close>)
  have "coalesced (mark_used m b h) us" "coalesced (mark_used m b h) vs"
    using co d by (subst coalesced_cong[where h = h]; auto)+
  then show "coalesced (mark_used m b h) (us @ b # vs)" by (simp add: coalesced_append coalesced_Cons)
  have "used_bytes (h_mem (mark_used m b h)) us = used_bytes (h_mem h) us"
    "used_bytes (h_mem (mark_used m b h)) vs = used_bytes (h_mem h) vs"
    using d by (auto intro!: used_bytes_cong)
  then show "used_bytes (h_mem (mark_used m b h)) (us @ b # vs) =
      used_bytes (h_mem h) (us @ b # vs) + (hm_next (h_mem h b) - b)" using f by simp
  show "regions (mark_used m b h) (us @ b # vs) =
      insert (h_ptr h + b + SIZEOF_STRUCT_MEM, hm_next (h_mem h b) - b - SIZEOF_STRUCT_MEM) (regions h (us @ b # vs))"
    unfolding regions_def by auto
qed

lemma regions_cong:
  assumes "h_ptr h' = h_ptr h" "\<And>b. b \<in> set bs' \<and> \<not> is_free h' b \<longleftrightarrow> b \<in> set bs \<and> \<not> is_free h b"
    "\<And>b. b \<in> set bs \<Longrightarrow> \<not> is_free h b \<Longrightarrow> hm_next (h_mem h' b) = hm_next (h_mem h b)"
  shows "regions h' bs' = regions h bs"
  unfolding regions_def using assms by (intro Collect_cong) metis

text \<open>Splitting a free block changes no area.\<close>

lemma split_free_spec:
  assumes c: "heap_chain h (us @ b # vs)" and co: "coalesced h (us @ b # vs)" and f: "is_free h b"
    and q: "q = b + SIZEOF_STRUCT_MEM + n" "RT_ALIGN_SIZE dvd n" "q + SIZEOF_STRUCT_MEM \<le> hm_next (h_mem h b)"
  shows "coalesced (split_block b q h) us" "coalesced (split_block b q h) (q # vs)"
    "used_bytes (h_mem (split_block b q h)) (us @ b # q # vs) = used_bytes (h_mem h) (us @ b # vs)"
    "regions (split_block b q h) (us @ b # q # vs) = regions h (us @ b # vs)"
    "\<And>x. x \<in> set (us @ b # vs @ [h_end h]) \<Longrightarrow> is_free (split_block b q h) x = is_free h x"
proof -
  note m = split_block_mem[OF c q(1,3)] and bd = heap_chain_bounds[OF c]
  have e: "q < h_end h" "b < q" using q(1,3) heap_chain_next(4)[OF c, of b] by (auto simp: mem_consts)
  have nq: "x \<noteq> q" if "x \<in> set (us @ b # vs @ [h_end h])" for x
  proof (cases "x \<in> set vs")
    case True
    then have "hm_next (h_mem h b) \<le> x" using heap_chain_next(3)[OF c, of b x] bd(7)[OF True] by (auto simp: mem_consts)
    then show ?thesis using q(3) by (simp add: mem_consts)
  next
    case False
    then show ?thesis using that e bd(6)[of x] by (auto simp: mem_consts)
  qed
  show fr: "\<And>x. x \<in> set (us @ b # vs @ [h_end h]) \<Longrightarrow> is_free (split_block b q h) x = is_free h x"
    using nq by (simp add: m(1))
  have "coalesced h us" "coalesced h vs" and v: "vs = [] \<or> \<not> is_free h (hd vs)"
    using co f by (auto simp: coalesced_append coalesced_Cons)
  then show "coalesced (split_block b q h) us" "coalesced (split_block b q h) (q # vs)"
    using coalesced_cong[of us "split_block b q h" h] coalesced_cong[of vs "split_block b q h" h] fr
    by (auto simp: coalesced_Cons)
  have dst: "b \<notin> set us" "b \<notin> set vs" using heap_chain_distinct(1)[OF c] by auto
  have "used_bytes (h_mem (split_block b q h)) us = used_bytes (h_mem h) us"
    "used_bytes (h_mem (split_block b q h)) vs = used_bytes (h_mem h) vs"
    using nq dst by (auto intro!: used_bytes_cong simp: m(1,2))
  then show "used_bytes (h_mem (split_block b q h)) (us @ b # q # vs) = used_bytes (h_mem h) (us @ b # vs)"
    using f e by (simp add: m(1))
  show "regions (split_block b q h) (us @ b # q # vs) = regions h (us @ b # vs)"
  proof (rule regions_cong)
    show "x \<in> set (us @ b # q # vs) \<and> \<not> is_free (split_block b q h) x \<longleftrightarrow> x \<in> set (us @ b # vs) \<and> \<not> is_free h x" for x
      using f by (cases "x = q") (use nq[of q] in \<open>auto simp: m(1)\<close>)
    show "hm_next (h_mem (split_block b q h) x) = hm_next (h_mem h x)" if "x \<in> set (us @ b # vs)" "\<not> is_free h x" for x
      using nq[of x] that f by (auto simp: m(2))
  qed simp
qed

text \<open>A block is taken from the heap, split when enough remains.\<close>

lemma malloc_take_spec:
  assumes c: "heap_chain h (us @ b # vs)" and co: "coalesced h (us @ b # vs)" and f: "fits h sz b"
    and sz: "RT_ALIGN_SIZE dvd sz"
  obtains ws n h1 where "malloc_take sz b h = mark_used (n + SIZEOF_STRUCT_MEM) b h1"
    "heap_chain h1 (us @ b # ws)" "coalesced h1 us" "coalesced h1 ws" "is_free h1 b"
    "used_bytes (h_mem h1) (us @ b # ws) = used_bytes (h_mem h) (us @ b # vs)"
    "regions h1 (us @ b # ws) = regions h (us @ b # vs)"
    "\<And>x. x \<in> set (us @ b # vs @ [h_end h]) \<Longrightarrow> is_free h1 x = is_free h x"
    "sz \<le> n" "n < sz + SIZEOF_STRUCT_MEM + MIN_SIZE_ALIGNED" "hm_next (h_mem h1 b) = b + SIZEOF_STRUCT_MEM + n"
    "set vs \<subseteq> set ws"
    "h_ptr h1 = h_ptr h" "h_end h1 = h_end h" "h_size h1 = h_size h" "h_lfree h1 = h_lfree h" "h_used h1 = h_used h"
    "h_max h1 = h_max h" "h_byte h1 = h_byte h" "h_sem h1 = h_sem h"
proof -
  let ?room = "hm_next (h_mem h b) - (b + SIZEOF_STRUCT_MEM)"
  have room: "sub32 (hm_next (h_mem h b)) (b + SIZEOF_STRUCT_MEM) = ?room" "sz \<le> ?room" "is_free h b"
    "sub32 (hm_next (h_mem h b)) b = ?room + SIZEOF_STRUCT_MEM"
    "hm_next (h_mem h b) = b + SIZEOF_STRUCT_MEM + ?room"
    using f by (auto simp: fits_def mem_consts)
  show thesis
  proof (cases "?room \<ge> sz + SIZEOF_STRUCT_MEM + MIN_SIZE_ALIGNED")
    case True
    let ?q = "b + SIZEOF_STRUCT_MEM + sz"
    have q: "?q + SIZEOF_STRUCT_MEM \<le> hm_next (h_mem h b)" using True room(5) by (simp add: mem_consts)
    note m = split_block_mem[OF c refl q]
    note s = split_free_spec[OF c co room(3) refl sz q] and sc = split_block_chain[OF c refl sz q]
    have "malloc_take sz b h = mark_used (sz + SIZEOF_STRUCT_MEM) b (split_block b ?q h)"
      using True by (simp add: malloc_take_def mark_used_def Let_def room(1))
    then show thesis
      by (rule that[OF _ sc s(1,2)]) (use room(3) m(2) s(3-5) in \<open>auto simp: mem_consts\<close>)
  next
    case False
    have "malloc_take sz b h = mark_used (?room + SIZEOF_STRUCT_MEM) b h"
      using False by (simp add: malloc_take_def mark_used_def Let_def room(1,4))
    then show thesis
      by (rule that[OF _ c]) (use co room False in \<open>auto simp: coalesced_append coalesced_Cons\<close>)
  qed
qed

lemma heap_invD:
  assumes "heap_inv h bs"
  shows "heap_chain h bs" "lfree_ok h bs" "coalesced h bs" "h_used h = used_bytes (h_mem h) bs" "h_used h \<le> h_max h"
  using assms by (simp_all add: heap_inv_def)

text \<open>The answer of an allocation: nothing, or a new area of at least the size asked for.\<close>

definition alloc_result :: "nat \<Rightarrow> heap \<Rightarrow> nat list \<Rightarrow> heap \<Rightarrow> nat list \<Rightarrow> nat \<Rightarrow> bool" where
  "alloc_result sz h bs h' bs' p \<longleftrightarrow>
     (if p = 0 then h' = h \<and> bs' = bs \<and> (\<forall>b \<in> set bs. h_lfree h \<le> b \<longrightarrow> b < h_size h - sz \<longrightarrow> \<not> fits h sz b)
      else \<exists>n. sz \<le> n \<and> n < sz + 24 \<and> RT_ALIGN_SIZE dvd p \<and> h_ptr h + h_lfree h < p \<and> p + n \<le> h_ptr h + h_end h \<and> p \<notin> fst ` regions h bs \<and>
        regions h' bs' = insert (p, n) (regions h bs) \<and> h_used h' = h_used h + n + 12 \<and>
        h_byte h' = h_byte h \<and> h_ptr h' = h_ptr h \<and> h_end h' = h_end h \<and> h_size h' = h_size h \<and> h_sem h' = h_sem h)"

lemma malloc_take_effect:
  assumes inv: "heap_inv h (us @ b # vs)" and f: "fits h sz b" and sz: "RT_ALIGN_SIZE dvd sz"
  obtains ws n where "heap_chain (malloc_take sz b h) (us @ b # ws)" "coalesced (malloc_take sz b h) (us @ b # ws)"
    "h_used (malloc_take sz b h) = used_bytes (h_mem (malloc_take sz b h)) (us @ b # ws)"
    "h_used (malloc_take sz b h) = h_used h + n + 12" "h_max (malloc_take sz b h) = max (h_max h) (h_used h + n + 12)"
    "regions (malloc_take sz b h) (us @ b # ws) =
       insert (h_ptr h + b + SIZEOF_STRUCT_MEM, n) (regions h (us @ b # vs))"
    "\<And>x. x \<noteq> b \<Longrightarrow> x \<in> set (us @ vs @ [h_end h]) \<Longrightarrow> is_free (malloc_take sz b h) x = is_free h x"
    "sz \<le> n" "n < sz + 24" "b + SIZEOF_STRUCT_MEM + n \<le> h_end h" "set vs \<subseteq> set ws" "\<not> is_free (malloc_take sz b h) b"
    "h_lfree (malloc_take sz b h) = h_lfree h" "h_end (malloc_take sz b h) = h_end h" "h_ptr (malloc_take sz b h) = h_ptr h"
    "h_size (malloc_take sz b h) = h_size h" "h_byte (malloc_take sz b h) = h_byte h" "h_sem (malloc_take sz b h) = h_sem h"
proof -
  note i = heap_invD[OF inv]
  obtain ws n h1 where t: "malloc_take sz b h = mark_used (n + SIZEOF_STRUCT_MEM) b h1"
    "heap_chain h1 (us @ b # ws)" "coalesced h1 us" "coalesced h1 ws" "is_free h1 b"
    "used_bytes (h_mem h1) (us @ b # ws) = used_bytes (h_mem h) (us @ b # vs)"
    "regions h1 (us @ b # ws) = regions h (us @ b # vs)"
    "\<And>x. x \<in> set (us @ b # vs @ [h_end h]) \<Longrightarrow> is_free h1 x = is_free h x"
    "sz \<le> n" "n < sz + SIZEOF_STRUCT_MEM + MIN_SIZE_ALIGNED" "hm_next (h_mem h1 b) = b + SIZEOF_STRUCT_MEM + n"
    "set vs \<subseteq> set ws"
    "h_ptr h1 = h_ptr h" "h_end h1 = h_end h" "h_size h1 = h_size h" "h_lfree h1 = h_lfree h" "h_used h1 = h_used h"
    "h_max h1 = h_max h" "h_byte h1 = h_byte h" "h_sem h1 = h_sem h"
    by (rule malloc_take_spec[OF i(1,3) f sz]) blast
  note m = mark_used_spec[OF t(2-5), of "n + SIZEOF_STRUCT_MEM"]
  have n: "hm_next (h_mem h1 b) - b = n + SIZEOF_STRUCT_MEM" "hm_next (h_mem h1 b) - b - SIZEOF_STRUCT_MEM = n"
    using t(11) by (simp_all add: mem_consts)
  have e: "b + SIZEOF_STRUCT_MEM + n \<le> h_end h" using heap_chain_next(4)[OF t(2), of b] t(11,14) by simp
  have u: "used_bytes (h_mem (mark_used (n + SIZEOF_STRUCT_MEM) b h1)) (us @ b # ws) = h_used h + (n + SIZEOF_STRUCT_MEM)"
    using m(3) t(6) i(4) n(1) by metis
  show thesis
    by (rule that[of ws n, unfolded t(1)])
      (use m(1,2) m(4)[unfolded n t(7,13)] u t(8-20) e in \<open>simp_all add: mem_consts\<close>)
qed

text \<open>Moving \<open>lfree\<close> past the blocks in use.\<close>

lemma advance_lfree:
  assumes c: "heap_chain h bs" and lf: "h_lfree h \<in> set bs" and lo: "low \<longrightarrow> lfree_low h bs"
  obtains l where "next_free h (h_lfree h) = Some l" "l = h_end h \<or> is_free h l"
    "lfree_ok (h\<lparr>h_lfree := l\<rparr>) bs" "low \<longrightarrow> lfree_low (h\<lparr>h_lfree := l\<rparr>) bs"
proof -
  obtain l where l: "next_free h (h_lfree h) = Some l" "l = h_end h \<or> l \<in> set bs \<and> is_free h l"
    "\<forall>b \<in> set bs. h_lfree h \<le> b \<longrightarrow> is_free h b \<longrightarrow> l \<le> b"
    using next_free_spec[OF c, of "h_lfree h"] lf by auto
  then show thesis using lo by (intro that[of l]) (auto simp: lfree_ok_def lfree_low_def)
qed

lemma heap_chain_lfree [simp]: "heap_chain (h\<lparr>h_lfree := l\<rparr>) bs = heap_chain h bs"
  by (simp add: heap_chain_def)

lemma coalesced_lfree [simp]: "coalesced (h\<lparr>h_lfree := l\<rparr>) bs = coalesced h bs"
  by (simp add: coalesced_def)

lemma regions_lfree [simp]: "regions (h\<lparr>h_lfree := l\<rparr>) bs = regions h bs"
  by (simp add: regions_def)

lemma heap_inv_lfree:
  assumes "heap_chain h bs" "coalesced h bs" "h_used h = used_bytes (h_mem h) bs" "h_used h \<le> h_max h"
    "lfree_ok (h\<lparr>h_lfree := l\<rparr>) bs"
  shows "heap_inv (h\<lparr>h_lfree := l\<rparr>) bs"
  using assms by (simp add: heap_inv_def)

lemma malloc_locked_effect:
  assumes inv: "heap_inv h bs" and sz: "sz \<le> h_size h" "RT_ALIGN_SIZE dvd sz"
  obtains h' bs' p where "malloc_locked sz h = Some (h', p)" "heap_inv h' bs'" "alloc_result sz h bs h' bs' p"
    "lfree_low h bs \<Longrightarrow> lfree_low h' bs'"
proof -
  note i = heap_invD[OF inv]
  have lf: "h_lfree h \<in> set bs \<union> {h_end h}" using i(2) by (auto simp: lfree_ok_def)
  obtain r where r: "malloc_find h sz (h_lfree h) = Some r"
    "case r of None \<Rightarrow> \<forall>b \<in> set bs. h_lfree h \<le> b \<longrightarrow> b < h_size h - sz \<longrightarrow> \<not> fits h sz b
     | Some b \<Rightarrow> b \<in> set bs \<and> h_lfree h \<le> b \<and> b < h_size h - sz \<and> fits h sz b"
    using malloc_find_spec[OF i(1) sz(1) lf] by blast
  show thesis
  proof (cases r)
    case None
    then show thesis using r inv by (intro that[of h 0 bs]) (auto simp: malloc_locked_def alloc_result_def)
  next
    case (Some b)
    then have b: "b \<in> set bs" "h_lfree h \<le> b" "fits h sz b" using r(2) by auto
    then obtain us vs where bs: "bs = us @ b # vs" by (auto simp: in_set_conv_decomp)
    obtain h2 where h2: "h2 = malloc_take sz b h" by blast
    obtain ws n where t: "heap_chain h2 (us @ b # ws)" "coalesced h2 (us @ b # ws)"
      "h_used h2 = used_bytes (h_mem h2) (us @ b # ws)" "h_used h2 = h_used h + n + 12"
      "h_max h2 = max (h_max h) (h_used h + n + 12)"
      "regions h2 (us @ b # ws) = insert (h_ptr h + b + SIZEOF_STRUCT_MEM, n) (regions h (us @ b # vs))"
      "\<And>x. x \<noteq> b \<Longrightarrow> x \<in> set (us @ vs @ [h_end h]) \<Longrightarrow> is_free h2 x = is_free h x"
      "sz \<le> n" "n < sz + 24" "b + SIZEOF_STRUCT_MEM + n \<le> h_end h" "set vs \<subseteq> set ws" "\<not> is_free h2 b"
      "h_lfree h2 = h_lfree h" "h_end h2 = h_end h" "h_ptr h2 = h_ptr h"
      "h_size h2 = h_size h" "h_byte h2 = h_byte h" "h_sem h2 = h_sem h"
      unfolding h2 by (rule malloc_take_effect[OF inv[unfolded bs] b(3) sz(2)]) blast
    have b_low: "b < x" if "x \<in> set ws" for x using heap_chain_bounds(7)[OF t(1) that] by (simp add: mem_consts)
    have u_free: "is_free h x" if "x \<in> set us" "is_free h2 x" for x
      using t(7)[of x] t(12) that by (cases "x = b") auto
    have low: "lfree_low h2 (us @ b # ws)" if "lfree_low h bs"
      unfolding lfree_low_def
    proof (intro ballI impI)
      fix x assume x: "x \<in> set (us @ b # ws)" "is_free h2 x"
      consider "x \<in> set us" | "x = b" | "x \<in> set ws" using x(1) by auto
      then show "h_lfree h2 \<le> x"
      proof cases
        case 1
        then have "h_lfree h \<le> x" using that u_free[OF 1 x(2)] bs by (simp add: lfree_low_def)
        then show ?thesis using t(13) by simp
      next
        case 3
        then show ?thesis using b_low[OF 3] b(2) t(13) by simp
      qed (use b(2) t(13) in simp)
    qed
    obtain l where l: "if b = h_lfree h then next_free h2 b = Some l \<and> (l = h_end h2 \<or> is_free h2 l) else l = h_lfree h2"
      "lfree_ok (h2\<lparr>h_lfree := l\<rparr>) (us @ b # ws)" "lfree_low h bs \<Longrightarrow> lfree_low (h2\<lparr>h_lfree := l\<rparr>) (us @ b # ws)"
    proof (cases "b = h_lfree h")
      case True
      then have "h_lfree h2 \<in> set (us @ b # ws)" using t(13) by simp
      then obtain l where "next_free h2 (h_lfree h2) = Some l" "l = h_end h2 \<or> is_free h2 l"
        "lfree_ok (h2\<lparr>h_lfree := l\<rparr>) (us @ b # ws)" "lfree_low h bs \<longrightarrow> lfree_low (h2\<lparr>h_lfree := l\<rparr>) (us @ b # ws)"
        by (rule advance_lfree[OF t(1), of "lfree_low h bs"]) (use low in blast)+
      then show thesis using True t(13) by (intro that[of l]) auto
    next
      case False
      have "lfree_ok h2 (us @ b # ws)"
        using i(2) False bs t(7)[of "h_lfree h"] t(11,13,14) by (auto simp: lfree_ok_def)
      then show thesis using False low by (intro that[of "h_lfree h2"]) auto
    qed
    have e: "malloc_locked sz h = Some (h2\<lparr>h_lfree := l\<rparr>, h_ptr h + b + SIZEOF_STRUCT_MEM)"
      using l(1) Some r(1) by (auto simp: malloc_locked_def Let_def h2[symmetric])
    have "RT_ALIGN_SIZE dvd h_ptr h + b + SIZEOF_STRUCT_MEM"
      using i(1) heap_chain_bounds(4)[OF t(1)] by (simp add: heap_chain_def mem_consts RT_ALIGN_SIZE_def)
    moreover have "h_ptr h + b + SIZEOF_STRUCT_MEM \<notin> fst ` regions h bs"
      using b(3) by (auto simp: regions_def fits_def)
    ultimately have "alloc_result sz h bs (h2\<lparr>h_lfree := l\<rparr>) (us @ b # ws) (h_ptr h + b + SIZEOF_STRUCT_MEM)"
      using t(4,6,8-10,14-18) bs b(2) unfolding alloc_result_def by (auto simp: mem_consts intro!: exI[of _ n])
    moreover have "heap_inv (h2\<lparr>h_lfree := l\<rparr>) (us @ b # ws)"
      by (rule heap_inv_lfree[OF t(1-3) _ l(2)]) (use t(4,5) in simp)
    ultimately show thesis using e l(3) by (intro that) auto
  qed
qed

section \<open>Release\<close>

definition area :: "heap \<Rightarrow> nat \<Rightarrow> nat \<times> nat" where
  "area h b = (h_ptr h + b + SIZEOF_STRUCT_MEM, hm_next (h_mem h b) - b - SIZEOF_STRUCT_MEM)"

lemma regions_area: "regions h bs = area h ` {b \<in> set bs. \<not> is_free h b}"
  by (auto simp: regions_def area_def)

lemma inj_area: "inj (area h)"
  by (auto simp: inj_on_def area_def)

definition same_setup :: "heap \<Rightarrow> heap \<Rightarrow> bool" where
  "same_setup h h' \<longleftrightarrow> h_ptr h' = h_ptr h \<and> h_end h' = h_end h \<and> h_size h' = h_size h \<and> h_sem h' = h_sem h \<and>
     h_byte h' = h_byte h"

lemma used_bytes_member:
  assumes "b \<in> set bs" "hm_used (m b) \<noteq> 0" shows "hm_next (m b) - b \<le> used_bytes m bs"
  using assms by (auto simp: in_set_conv_decomp)

text \<open>A block in use is marked free: the state in which \<open>plug_holes\<close> is called.\<close>

lemma mark_free_spec:
  assumes inv: "heap_inv h (us @ b # vs)" and u: "\<not> is_free h b"
    and h1: "h_mem h1 = (h_mem h)(b := (h_mem h b)\<lparr>hm_used := 0, hm_magic := HEAP_MAGIC\<rparr>)"
      "h_lfree h1 = (if b < h_lfree h then b else h_lfree h)" "h_used h1 = h_used h - (hm_next (h_mem h b) - b)"
      "h_max h1 = h_max h" "same_setup h h1"
  shows "heap_chain h1 (us @ b # vs)" "is_free h1 b" "lfree_ok h1 (us @ b # vs)" "coalesced h1 us" "coalesced h1 vs"
    "used_bytes (h_mem h1) (us @ b # vs) = h_used h1" "h_used h1 \<le> h_max h1"
    "regions h1 (us @ b # vs) = regions h (us @ b # vs) - {area h b}"
    "lfree_low h (us @ b # vs) \<Longrightarrow> lfree_low h1 (us @ b # vs)"
proof -
  note i = heap_invD[OF inv] and bd = heap_chain_bounds[OF heap_invD(1)[OF inv]]
  have d: "b \<notin> set us" "b \<notin> set vs" "b \<noteq> h_end h" using heap_chain_distinct(1,2)[OF i(1)] by auto
  have s: "h_ptr h1 = h_ptr h" "h_end h1 = h_end h" "h_size h1 = h_size h" using h1(5) by (simp_all add: same_setup_def)
  have f: "is_free h1 x \<longleftrightarrow> x = b \<or> is_free h x" "hm_next (h_mem h1 x) = hm_next (h_mem h x)" for x by (auto simp: h1(1))
  show "heap_chain h1 (us @ b # vs)" by (rule heap_chain_cong[OF i(1)]) (use s d(3) bd(3) in \<open>auto simp: h1(1)\<close>)
  show "is_free h1 b" by (simp add: f)
  show "lfree_ok h1 (us @ b # vs)" using i(2) bd(5) h1(2) s f by (auto simp: lfree_ok_def mem_consts)
  show "coalesced h1 us" "coalesced h1 vs"
    using i(3) d f coalesced_cong[of us h1 h] coalesced_cong[of vs h1 h] by (auto simp: coalesced_append coalesced_Cons)
  have "used_bytes (h_mem h1) us = used_bytes (h_mem h) us" "used_bytes (h_mem h1) vs = used_bytes (h_mem h) vs"
    using d by (auto intro!: used_bytes_cong simp: h1(1))
  then show "used_bytes (h_mem h1) (us @ b # vs) = h_used h1" using u i(4) h1(3) by (simp add: h1(1))
  show "h_used h1 \<le> h_max h1" using i(5) h1(3,4) by simp
  show "lfree_low h (us @ b # vs) \<Longrightarrow> lfree_low h1 (us @ b # vs)" using f h1(2) by (auto simp: lfree_low_def)
  have "area h1 = area h" by (rule ext) (simp add: area_def s f)
  moreover have "{x \<in> set (us @ b # vs). \<not> is_free h1 x} = {x \<in> set (us @ b # vs). \<not> is_free h x} - {b}" using f by auto
  ultimately show "regions h1 (us @ b # vs) = regions h (us @ b # vs) - {area h b}"
    by (simp add: regions_area image_set_diff[OF inj_area])
qed

lemma heap_inv_plugged:
  assumes "heap_chain h1 ws" "lfree_ok h1 ws" "coalesced h1 ws" "same_areas h bs h1 ws"
    "used_bytes (h_mem h) bs = h_used h" "h_used h \<le> h_max h"
  shows "heap_inv h1 ws"
  using assms by (simp add: heap_inv_def same_areas_def)

lemma free_locked_effect:
  assumes inv: "heap_inv h bs" and b: "b \<in> set bs" "\<not> is_free h b"
  obtains h' bs' where "free_locked b h = Some h'" "heap_inv h' bs'" "regions h' bs' = regions h bs - {area h b}"
    "h_used h' = h_used h - (hm_next (h_mem h b) - b)" "same_setup h h'" "lfree_low h bs \<Longrightarrow> lfree_low h' bs'"
proof -
  from b obtain us vs where bs: "bs = us @ b # vs" by (auto simp: in_set_conv_decomp)
  note i = heap_invD[OF inv[unfolded bs]]
  let ?h1 = "upd_hm b (\<lambda>m. m\<lparr>hm_used := 0, hm_magic := HEAP_MAGIC\<rparr>) h"
  let ?h2 = "if b < h_lfree ?h1 then ?h1\<lparr>h_lfree := b\<rparr> else ?h1"
  obtain h3 where h3: "h3 = ?h2\<lparr>h_used := sub32 (h_used ?h2) (sub32 (hm_next (h_mem ?h2 b)) b)\<rparr>" by blast
  have nx: "b \<le> hm_next (h_mem h b)" using heap_chain_bounds(2)[OF i(1)] by simp
  have le: "hm_next (h_mem h b) - b \<le> h_used h" using used_bytes_member[of b bs "h_mem h"] b i(4) bs by simp
  have s: "h_mem h3 = (h_mem h)(b := (h_mem h b)\<lparr>hm_used := 0, hm_magic := HEAP_MAGIC\<rparr>)"
    "h_lfree h3 = (if b < h_lfree h then b else h_lfree h)" "h_used h3 = h_used h - (hm_next (h_mem h b) - b)"
    "h_max h3 = h_max h" "same_setup h h3"
    using nx le by (simp_all add: h3 same_setup_def)
  note m = mark_free_spec[OF inv[unfolded bs] b(2) s]
  obtain h' ws where p: "plug_holes b h3 = Some h'" "heap_chain h' ws" "lfree_ok h' ws" "coalesced h' ws"
    "same_areas h3 (us @ b # vs) h' ws" "lfree_low h3 (us @ b # vs) \<Longrightarrow> lfree_low h' ws"
    by (rule plug_holes_spec[OF m(1-5)]) blast
  have "free_locked b h = Some h'"
    using b(2) heap_chain_bounds(3)[OF i(1)] p(1) by (simp add: free_locked_def Let_def h3 del: upd_hm_sel(9))
  moreover have "heap_inv h' ws" by (rule heap_inv_plugged[OF p(2-5) m(6,7)])
  ultimately show thesis
    using p(5,6) m(8,9) s bs by (intro that[of h' ws]) (auto simp: same_areas_def same_setup_def)
qed

section \<open>Shrinking in place\<close>

lemma split_used_spec:
  assumes inv: "heap_inv h (us @ b # vs)" and u: "\<not> is_free h b"
    and q: "q = b + SIZEOF_STRUCT_MEM + n" "q + SIZEOF_STRUCT_MEM \<le> hm_next (h_mem h b)" "RT_ALIGN_SIZE dvd n"
    and h1: "h1 = split_block b q (h\<lparr>h_used := h_used h - (hm_next (h_mem h b) - q)\<rparr>)"
  shows "heap_chain h1 ((us @ [b]) @ q # vs)" "is_free h1 q" "lfree_ok h1 ((us @ [b]) @ q # vs)"
    "coalesced h1 (us @ [b])" "coalesced h1 vs"
    "used_bytes (h_mem h1) ((us @ [b]) @ q # vs) = h_used h1" "h_used h1 \<le> h_max h1"
    "regions h1 ((us @ [b]) @ q # vs) = insert (h_ptr h + b + SIZEOF_STRUCT_MEM, n) (regions h (us @ b # vs) - {area h b})"
proof -
  let ?h0 = "h\<lparr>h_used := h_used h - (hm_next (h_mem h b) - q)\<rparr>"
  note i = heap_invD[OF inv] and bd = heap_chain_bounds[OF heap_invD(1)[OF inv]]
  have c: "heap_chain ?h0 (us @ b # vs)" using i(1) by (simp add: heap_chain_def)
  have q2: "q + SIZEOF_STRUCT_MEM \<le> hm_next (h_mem ?h0 b)" using q(2) by simp
  note m = split_block_mem[OF c q(1) q2, folded h1, simplified]
  have d: "b \<notin> set us" "b \<notin> set vs" using heap_chain_distinct(1)[OF i(1)] by auto
  have e: "b < q" "q < h_end h" using q(1,2) heap_chain_next(4)[OF i(1), of b] by (auto simp: mem_consts)
  have nq: "x \<noteq> q" if "x \<in> set (us @ b # vs @ [h_end h])" for x
  proof (cases "x \<in> set vs")
    case True
    then have "hm_next (h_mem h b) \<le> x" using heap_chain_next(3)[OF i(1), of b x] bd(7)[OF True] by (auto simp: mem_consts)
    then show ?thesis using q(2) by (simp add: mem_consts)
  next
    case False
    then show ?thesis using that e bd(6)[of x] by (auto simp: mem_consts)
  qed
  have f: "is_free h1 x = is_free h x" if "x \<in> set (us @ b # vs @ [h_end h])" for x using nq[OF that] by (simp add: m(1))
  show "heap_chain h1 ((us @ [b]) @ q # vs)" using split_block_chain[OF c q(1,3) q2] h1 by simp
  show "is_free h1 q" by (simp add: m(1))
  show "lfree_ok h1 ((us @ [b]) @ q # vs)" using i(2) f[of "h_lfree h"] by (auto simp: lfree_ok_def h1)
  have "coalesced h1 us" "coalesced h1 vs" and "coalesced h us"
    using i(3) f coalesced_cong[of us h1 h] coalesced_cong[of vs h1 h] by (auto simp: coalesced_append coalesced_Cons)
  then show "coalesced h1 (us @ [b])" "coalesced h1 vs" using u f[of b] by (auto simp: coalesced_append coalesced_Cons)
  have "used_bytes (h_mem h1) us = used_bytes (h_mem h) us" "used_bytes (h_mem h1) vs = used_bytes (h_mem h) vs"
    using nq d by (auto intro!: used_bytes_cong simp: m(1,2))
  moreover have "h_used h = used_bytes (h_mem h) us + (hm_next (h_mem h b) - b) + used_bytes (h_mem h) vs"
    using i(4) u by simp
  moreover have "hm_next (h_mem h b) - b = (hm_next (h_mem h b) - q) + (q - b)" using q(1,2) by (simp add: mem_consts)
  moreover have hu: "h_used h1 = h_used h - (hm_next (h_mem h b) - q)" "h_max h1 = h_max h" by (simp_all add: h1)
  moreover have "used_bytes (h_mem h1) ((us @ [b]) @ q # vs) =
      used_bytes (h_mem h1) us + (q - b) + used_bytes (h_mem h1) vs" using u e(1) by (simp add: m(1,2))
  ultimately show "used_bytes (h_mem h1) ((us @ [b]) @ q # vs) = h_used h1" by linarith
  show "h_used h1 \<le> h_max h1" using i(5) hu by linarith
  have hp: "h_ptr h1 = h_ptr h" by (simp add: h1)
  have ar: "area h1 x = area h x" if "x \<in> set (us @ vs)" for x
    using nq[of x] that d hp by (auto simp: area_def m(2))
  have ab: "area h1 b = (h_ptr h + b + SIZEOF_STRUCT_MEM, n)" using q(1) hp by (simp add: area_def m(2))
  have st: "{x \<in> set ((us @ [b]) @ q # vs). \<not> is_free h1 x} = insert b {x \<in> set (us @ vs). \<not> is_free h x}"
    using f u nq by (auto simp: m(1))
  have "{x \<in> set (us @ b # vs). \<not> is_free h x} = insert b {x \<in> set (us @ vs). \<not> is_free h x}" using u by auto
  then have "regions h (us @ b # vs) = insert (area h b) (area h ` {x \<in> set (us @ vs). \<not> is_free h x})"
    by (simp only: regions_area image_insert)
  moreover have "area h b \<notin> area h ` {x \<in> set (us @ vs). \<not> is_free h x}" using d by (auto dest: injD[OF inj_area])
  ultimately have "regions h (us @ b # vs) - {area h b} = area h ` {x \<in> set (us @ vs). \<not> is_free h x}"
    by (simp del: image_iff)
  moreover have "area h1 ` {x \<in> set (us @ vs). \<not> is_free h x} = area h ` {x \<in> set (us @ vs). \<not> is_free h x}"
    by (rule image_cong) (use ar in auto)
  ultimately show "regions h1 ((us @ [b]) @ q # vs) =
      insert (h_ptr h + b + SIZEOF_STRUCT_MEM, n) (regions h (us @ b # vs) - {area h b})"
    unfolding regions_area st by (simp add: ab)
qed

lemma realloc_locked_effect:
  assumes inv: "heap_inv h bs" and b: "b \<in> set bs" "\<not> is_free h b" and n: "RT_ALIGN_SIZE dvd n"
  obtains h' bs' kept where "realloc_locked b n h = Some (h', kept)" "heap_inv h' bs'" "same_setup h h'"
    "kept \<longleftrightarrow> snd (area h b) = n \<or> n + 24 < snd (area h b)"
    "regions h' bs' = (if kept then insert (fst (area h b), n) (regions h bs - {area h b}) else regions h bs)"
    "kept \<and> snd (area h b) \<noteq> n \<or> h' = h \<and> bs' = bs"
proof -
  from b obtain us vs where bs: "bs = us @ b # vs" by (auto simp: in_set_conv_decomp)
  note i = heap_invD[OF inv[unfolded bs]]
  let ?sz = "hm_next (h_mem h b) - (b + SIZEOF_STRUCT_MEM)" and ?q = "b + SIZEOF_STRUCT_MEM + n"
  have nx: "b + SIZEOF_STRUCT_MEM \<le> hm_next (h_mem h b)" by (rule heap_chain_bounds(2)[OF i(1)])
  then have sz: "sub32 (hm_next (h_mem h b)) (b + SIZEOF_STRUCT_MEM) = ?sz" "snd (area h b) = ?sz"
    by (simp_all add: area_def)
  have in_reg: "area h b \<in> regions h bs" using b by (auto simp: regions_area)
  show thesis
  proof (cases "?sz = n \<or> \<not> n + SIZEOF_STRUCT_MEM + MIN_SIZE < ?sz")
    case True
    have "area h b = (fst (area h b), n)" if "?sz = n" using that sz(2) by (metis prod.collapse)
    then have "insert (fst (area h b), n) (regions h bs - {area h b}) = regions h bs" if "?sz = n"
      using that in_reg by auto
    moreover have "realloc_locked b n h = Some (h, ?sz = n)" using True sz by (auto simp: realloc_locked_def Let_def)
    ultimately show thesis
      using inv sz(2) True by (intro that[of h "?sz = n" bs]) (auto simp: same_setup_def mem_consts)
  next
    case False
    then have lt: "n + SIZEOF_STRUCT_MEM + MIN_SIZE < ?sz" "?sz \<noteq> n" by auto
    then have q: "?q + SIZEOF_STRUCT_MEM \<le> hm_next (h_mem h b)" by (simp add: mem_consts)
    have le: "hm_next (h_mem h b) - b \<le> h_used h" using used_bytes_member[of b bs "h_mem h"] b i(4) bs by simp
    obtain h1 where h1: "h1 = split_block b ?q (h\<lparr>h_used := h_used h - (hm_next (h_mem h b) - ?q)\<rparr>)" by blast
    note m = split_used_spec[OF inv[unfolded bs] b(2) refl q n h1]
    have ss: "same_setup h h1" by (simp add: same_setup_def h1)
    obtain h' ws where p: "plug_holes ?q h1 = Some h'" "heap_chain h' ws" "lfree_ok h' ws" "coalesced h' ws"
      "same_areas h1 ((us @ [b]) @ ?q # vs) h' ws"
      by (rule plug_holes_spec[OF m(1-5)]) blast
    have "?sz - n = hm_next (h_mem h b) - ?q" by (simp add: mem_consts)
    then have "realloc_locked b n h = Some (h', True)"
      using lt le p(1) by (simp add: realloc_locked_def Let_def sz h1)
    moreover have "heap_inv h' ws" by (rule heap_inv_plugged[OF p(2-5) m(6,7)])
    moreover have "regions h' ws = insert (fst (area h b), n) (regions h bs - {area h b})"
      using p(5) m(8) bs by (simp add: same_areas_def area_def)
    ultimately show thesis
      using ss p(5) lt sz(2) by (intro that[of h' True ws]) (auto simp: same_areas_def same_setup_def mem_consts)
  qed
qed

text \<open>With a block in use behind it the tail that is cut off stays as it is, wherever \<open>lfree\<close> is.\<close>

lemma shrink_before_used:
  assumes inv: "heap_inv h (us @ b # vs)" and u: "\<not> is_free h b" "\<not> is_free h (hm_next (h_mem h b))"
    and n: "RT_ALIGN_SIZE dvd n" "n + 24 < snd (area h b)" and q: "q = b + SIZEOF_STRUCT_MEM + n"
  obtains h1 where "realloc_locked b n h = Some (h1, True)" "heap_inv h1 (us @ b # q # vs)" "same_setup h h1"
    "is_free h1 q" "h_lfree h1 = h_lfree h" "hm_next (h_mem h1 q) = hm_next (h_mem h b)"
    "regions h1 (us @ b # q # vs) = insert (fst (area h b), n) (regions h (us @ b # vs) - {area h b})"
proof -
  note i = heap_invD[OF inv]
  have nx: "b + SIZEOF_STRUCT_MEM \<le> hm_next (h_mem h b)" by (rule heap_chain_bounds(2)[OF i(1)])
  let ?sz = "hm_next (h_mem h b) - (b + SIZEOF_STRUCT_MEM)"
  have lt: "n + SIZEOF_STRUCT_MEM + MIN_SIZE < ?sz" using n(2) by (simp add: area_def mem_consts)
  then have q2: "q + SIZEOF_STRUCT_MEM \<le> hm_next (h_mem h b)" using q by (simp add: mem_consts)
  have le: "hm_next (h_mem h b) - b \<le> h_used h" using used_bytes_member[of b "us @ b # vs" "h_mem h"] u i(4) by simp
  obtain h1 where h1: "h1 = split_block b q (h\<lparr>h_used := h_used h - (hm_next (h_mem h b) - q)\<rparr>)" by blast
  note m = split_used_spec[OF inv u(1) q q2 n(1) h1]
  have c: "heap_chain (h\<lparr>h_used := h_used h - (hm_next (h_mem h b) - q)\<rparr>) (us @ b # vs)"
    using i(1) by (simp add: heap_chain_def)
  note sm = split_block_mem[OF c q, folded h1, simplified, OF q2]
  have ne: "b \<noteq> q" "q < hm_next (h_mem h b)" using q q2 by (simp_all add: mem_consts)
  have q_next: "hm_next (h_mem h1 q) = hm_next (h_mem h b)" using sm(2)[of q] ne by simp
  have fr: "\<not> is_free h1 b" "\<not> is_free h1 (hm_next (h_mem h b))" using sm(1) ne u by auto
  have "hm_prev (h_mem h1 q) = b" using sm(4)[of q] ne by simp
  then have p: "plug_holes q h1 = Some h1"
    using fr q_next m(2) heap_chain_bounds(5)[OF m(1)] by (simp add: plug_holes_def Let_def mem_consts)
  have "?sz - n = hm_next (h_mem h b) - q" using q by (simp add: mem_consts)
  then have "realloc_locked b n h = Some (h1, True)"
    using lt le nx p q by (simp add: realloc_locked_def Let_def h1)
  moreover have l: "same_setup h h1" "h_lfree h1 = h_lfree h" by (simp_all add: h1 same_setup_def)
  moreover have "coalesced h1 ((us @ [b]) @ q # vs)"
    using m(4,5) fr heap_chain_bounds(1)[OF i(1)] by (cases vs) (auto simp: coalesced_append coalesced_Cons)
  ultimately show thesis using m q_next by (intro that[of h1]) (auto simp: heap_inv_def area_def)
qed

section \<open>Initialisation\<close>

lemma heap_init_effect:
  assumes b: "0 < begin_addr" "begin_addr + 3 < 2 ^ 32" "end_addr < 2 ^ 32" and z: "h_used h = 0"
  shows "RT_ALIGN begin_addr 4 + 24 \<le> RT_ALIGN_DOWN end_addr 4 \<Longrightarrow>
    heap_inv (fst (heap_init s begin_addr end_addr h)) [0] \<and> lfree_low (fst (heap_init s begin_addr end_addr h)) [0] \<and>
    regions (fst (heap_init s begin_addr end_addr h)) [0] = {} \<and> snd (heap_init s begin_addr end_addr h)"
    "\<not> RT_ALIGN begin_addr 4 + 24 \<le> RT_ALIGN_DOWN end_addr 4 \<Longrightarrow> heap_init s begin_addr end_addr h = (h, False)"
proof -
  have a: "align32 begin_addr = RT_ALIGN begin_addr 4" "0 < RT_ALIGN begin_addr 4"
    using RT_ALIGN_less[of 4 begin_addr] RT_ALIGN_ge[of 4 begin_addr] b by (simp_all add: align32_def RT_ALIGN_SIZE_def)
  have e: "RT_ALIGN_DOWN end_addr 4 \<le> end_addr" by (rule RT_ALIGN_DOWN_le)
  have d: "4 dvd RT_ALIGN begin_addr 4" "4 dvd RT_ALIGN_DOWN end_addr 4" by (rule RT_ALIGN_dvd, rule RT_ALIGN_DOWN_dvd)
  show "\<not> RT_ALIGN begin_addr 4 + 24 \<le> RT_ALIGN_DOWN end_addr 4 \<Longrightarrow> heap_init s begin_addr end_addr h = (h, False)"
    using a by (auto simp: heap_init_def Let_def mem_consts RT_ALIGN_SIZE_def)
  assume r: "RT_ALIGN begin_addr 4 + 24 \<le> RT_ALIGN_DOWN end_addr 4"
  let ?n = "RT_ALIGN_DOWN end_addr 4 - RT_ALIGN begin_addr 4 - 24"
  have dn: "4 dvd ?n" using d by (simp add: dvd_diff_nat)
  have i: "heap_init s begin_addr end_addr h =
      (h\<lparr>h_size := ?n, h_ptr := RT_ALIGN begin_addr 4, h_end := ?n + 12, h_lfree := 0, h_sem := s,
        h_mem := (h_mem h)(0 := \<lparr>hm_magic = HEAP_MAGIC, hm_used = 0, hm_next = ?n + 12, hm_prev = 0\<rparr>,
          ?n + 12 := \<lparr>hm_magic = HEAP_MAGIC, hm_used = 1, hm_next = ?n + 12, hm_prev = ?n + 12\<rparr>)\<rparr>, True)"
    using r a by (simp add: heap_init_def Let_def mem_consts RT_ALIGN_SIZE_def)
  show "heap_inv (fst (heap_init s begin_addr end_addr h)) [0] \<and> lfree_low (fst (heap_init s begin_addr end_addr h)) [0] \<and>
    regions (fst (heap_init s begin_addr end_addr h)) [0] = {} \<and> snd (heap_init s begin_addr end_addr h)"
    using r a d dn e b z unfolding i
    by (simp add: heap_inv_def heap_chain_def lfree_ok_def coalesced_def lfree_low_def regions_def block_ok_def
          used_bytes_def mem_consts RT_ALIGN_SIZE_def)
qed

end
