(* ===== verification/RingBlock.thy ===== *)
theory RingBlock
  imports Small_Mem
begin

text \<open>
  The ring block buffer of \<^verbatim>\<open>components/drivers/src/ringblk_buf.c\<close>: blocks of any size are cut out of one
  buffer in ring order. A block is an index into the block set; \<open>rbb_list\<close> is the view of the linked
  list of blocks, oldest first. Each critical section is one operation.
\<close>

section \<open>Operations\<close>

datatype rt_rbb_status = RT_RBB_BLK_UNUSED | RT_RBB_BLK_INITED | RT_RBB_BLK_PUT | RT_RBB_BLK_GET

record rt_rbb_blk =
  blk_status :: rt_rbb_status
  blk_size :: nat
  blk_buf :: nat

record rt_rbb =
  rbb_buf :: nat
  rbb_buf_size :: nat
  rbb_set :: "rt_rbb_blk list"
  rbb_max :: nat
  rbb_list :: "nat list"

abbreviation blk :: "rt_rbb \<Rightarrow> nat \<Rightarrow> rt_rbb_blk" where
  "blk r i \<equiv> rbb_set r ! i"

definition upd_blk :: "nat \<Rightarrow> (rt_rbb_blk \<Rightarrow> rt_rbb_blk) \<Rightarrow> rt_rbb \<Rightarrow> rt_rbb" where
  "upd_blk i f r = r\<lparr>rbb_set := (rbb_set r)[i := f (blk r i)]\<rparr>"

text \<open>The block set has room for \<open>n\<close> blocks.\<close>

definition rt_rbb_init :: "nat \<Rightarrow> nat \<Rightarrow> rt_rbb_blk list \<Rightarrow> nat \<Rightarrow> rt_rbb" where
  "rt_rbb_init buf sz bset n = \<lparr>rbb_buf = buf, rbb_buf_size = sz,
     rbb_set = map (\<lambda>i. if i < n then (bset ! i)\<lparr>blk_status := RT_RBB_BLK_UNUSED\<rparr> else bset ! i) [0 ..< length bset],
     rbb_max = n, rbb_list = []\<rparr>"

definition find_empty_blk_in_set :: "rt_rbb \<Rightarrow> nat option" where
  "find_empty_blk_in_set r = List.find (\<lambda>i. blk_status (blk r i) = RT_RBB_BLK_UNUSED) [0 ..< rbb_max r]"

definition add_block :: "nat \<Rightarrow> nat \<Rightarrow> nat \<Rightarrow> rt_rbb \<Rightarrow> rt_rbb" where
  "add_block i buf sz r =
     (upd_blk i (\<lambda>_. \<lparr>blk_status = RT_RBB_BLK_INITED, blk_size = sz, blk_buf = buf\<rparr>) r)\<lparr>rbb_list := rbb_list r @ [i]\<rparr>"

definition rt_rbb_blk_alloc :: "nat \<Rightarrow> rt_rbb \<Rightarrow> (rt_rbb \<times> nat option) option" where
  "rt_rbb_blk_alloc sz r = do {
     rt_assert (sz < 2 ^ 24);
     (case find_empty_blk_in_set r of
        None \<Rightarrow> Some (r, None)
      | Some new \<Rightarrow>
          if length (rbb_list r) < rbb_max r then
            if length (rbb_list r) > 0 then
              let head = blk r (hd (rbb_list r)); tail = blk r (last (rbb_list r)) in
              if blk_buf head \<le> blk_buf tail then
                let empty1 = sub32 (rbb_buf r + rbb_buf_size r) (blk_buf tail + blk_size tail);
                    empty2 = sub32 (blk_buf head) (rbb_buf r) in
                if empty1 \<ge> sz then Some (add_block new (blk_buf tail + blk_size tail) sz r, Some new)
                else if empty2 \<ge> sz then Some (add_block new (rbb_buf r) sz r, Some new)
                else Some (r, None)
              else
                let empty1 = sub32 (blk_buf head) (blk_buf tail + blk_size tail) in
                if empty1 \<ge> sz then Some (add_block new (blk_buf tail + blk_size tail) sz r, Some new)
                else Some (r, None)
            else Some (add_block new (rbb_buf r) sz r, Some new)
          else Some (r, None)) }"

definition rt_rbb_blk_put :: "nat \<Rightarrow> rt_rbb \<Rightarrow> rt_rbb option" where
  "rt_rbb_blk_put i r = do {
     rt_assert (blk_status (blk r i) = RT_RBB_BLK_INITED);
     Some (upd_blk i (blk_status_update (\<lambda>_. RT_RBB_BLK_PUT)) r) }"

definition rt_rbb_blk_get :: "rt_rbb \<Rightarrow> rt_rbb \<times> nat option" where
  "rt_rbb_blk_get r = (case List.find (\<lambda>i. blk_status (blk r i) = RT_RBB_BLK_PUT) (rbb_list r) of
       None \<Rightarrow> (r, None)
     | Some i \<Rightarrow> (upd_blk i (blk_status_update (\<lambda>_. RT_RBB_BLK_GET)) r, Some i))"

definition rt_rbb_blk_size :: "nat \<Rightarrow> rt_rbb \<Rightarrow> nat" where
  "rt_rbb_blk_size i r = blk_size (blk r i)"

definition rt_rbb_blk_buf :: "nat \<Rightarrow> rt_rbb \<Rightarrow> nat" where
  "rt_rbb_blk_buf i r = blk_buf (blk r i)"

definition unlink_blk :: "nat \<Rightarrow> rt_rbb \<Rightarrow> rt_rbb" where
  "unlink_blk i r = r\<lparr>rbb_list := remove1 i (rbb_list r)\<rparr>"

definition rt_rbb_blk_free :: "nat \<Rightarrow> rt_rbb \<Rightarrow> rt_rbb option" where
  "rt_rbb_blk_free i r = do {
     rt_assert (blk_status (blk r i) \<noteq> RT_RBB_BLK_UNUSED);
     Some (upd_blk i (blk_status_update (\<lambda>_. RT_RBB_BLK_UNUSED)) (unlink_blk i r)) }"

text \<open>A queue of blocks: the first block and how many. The loop runs over the nodes; a removed node keeps
  its successor.\<close>

type_synonym blk_queue = "nat \<times> nat"

fun queue_get_loop ::
  "nat \<Rightarrow> nat list \<Rightarrow> nat option \<Rightarrow> nat \<Rightarrow> blk_queue option \<Rightarrow> rt_rbb \<Rightarrow> rt_rbb \<times> nat \<times> blk_queue option" where
  "queue_get_loop lim [] last_blk tot q r = (r, tot, q)"
| "queue_get_loop lim (i # ns) last_blk tot q r =
     (case last_blk of
        None \<Rightarrow>
          if blk_status (blk r i) = RT_RBB_BLK_PUT then
            queue_get_loop lim ns (Some i) (tot + blk_size (blk r i)) (Some (i, 1))
              (upd_blk i (blk_status_update (\<lambda>_. RT_RBB_BLK_GET)) (unlink_blk i r))
          else queue_get_loop lim ns None tot q r
      | Some l \<Rightarrow>
          if blk_status (blk r i) \<noteq> RT_RBB_BLK_PUT \<or> blk_buf (blk r l) > blk_buf (blk r i) \<or> tot + blk_size (blk r i) > lim
          then (r, tot, q)
          else queue_get_loop lim ns (Some i) (tot + blk_size (blk r i)) (map_option (\<lambda>(f, n). (f, n + 1)) q)
            (upd_blk i (blk_status_update (\<lambda>_. RT_RBB_BLK_GET)) (unlink_blk i r)))"

definition rt_rbb_blk_queue_get :: "nat \<Rightarrow> blk_queue option \<Rightarrow> rt_rbb \<Rightarrow> rt_rbb \<times> nat \<times> blk_queue option" where
  "rt_rbb_blk_queue_get lim q r = queue_get_loop lim (rbb_list r) None 0 q r"

text \<open>The queue is read as an array of blocks: \<open>None\<close> outside the block set.\<close>

fun rt_rbb_blk_queue_len :: "nat \<Rightarrow> nat \<Rightarrow> rt_rbb \<Rightarrow> nat option" where
  "rt_rbb_blk_queue_len f 0 r = Some 0"
| "rt_rbb_blk_queue_len f (Suc n) r = do {
     t \<leftarrow> rt_rbb_blk_queue_len f n r;
     if f + n < length (rbb_set r) then Some (t + blk_size (blk r (f + n))) else None }"

definition rt_rbb_blk_queue_buf :: "blk_queue \<Rightarrow> rt_rbb \<Rightarrow> nat" where
  "rt_rbb_blk_queue_buf q r = blk_buf (blk r (fst q))"

fun rt_rbb_blk_queue_free :: "nat \<Rightarrow> nat \<Rightarrow> rt_rbb \<Rightarrow> rt_rbb option" where
  "rt_rbb_blk_queue_free f 0 r = Some r"
| "rt_rbb_blk_queue_free f (Suc n) r =
     (if f < length (rbb_set r) then do { r \<leftarrow> rt_rbb_blk_free f r; rt_rbb_blk_queue_free (f + 1) n r } else None)"

fun next_queue_loop :: "nat list \<Rightarrow> nat option \<Rightarrow> nat \<Rightarrow> rt_rbb \<Rightarrow> nat" where
  "next_queue_loop [] last_blk tot r = tot"
| "next_queue_loop (i # ns) last_blk tot r =
     (case last_blk of
        None \<Rightarrow>
          if blk_status (blk r i) \<noteq> RT_RBB_BLK_PUT then next_queue_loop ns None tot r
          else next_queue_loop ns (Some i) (tot + blk_size (blk r i)) r
      | Some l \<Rightarrow>
          if blk_status (blk r i) \<noteq> RT_RBB_BLK_PUT \<or> blk_buf (blk r l) > blk_buf (blk r i) then tot
          else next_queue_loop ns (Some i) (tot + blk_size (blk r i)) r)"

definition rt_rbb_next_blk_queue_len :: "rt_rbb \<Rightarrow> nat" where
  "rt_rbb_next_blk_queue_len r = next_queue_loop (rbb_list r) None 0 r"

definition rt_rbb_get_buf_size :: "rt_rbb \<Rightarrow> nat" where
  "rt_rbb_get_buf_size r = rbb_buf_size r"

section \<open>Invariant\<close>

text \<open>\<open>rising lo hi xs\<close>: the intervals lie between \<open>lo\<close> and \<open>hi\<close>, one after the other.\<close>

fun rising :: "nat \<Rightarrow> nat \<Rightarrow> (nat \<times> nat) list \<Rightarrow> bool" where
  "rising lo hi [] \<longleftrightarrow> lo \<le> hi"
| "rising lo hi (x # xs) \<longleftrightarrow> lo \<le> fst x \<and> 0 < snd x \<and> rising (fst x + snd x) hi xs"

text \<open>Ring order: a rising part, then possibly a part that starts again at the bottom and stays below the
  first.\<close>

definition ring_order :: "nat \<Rightarrow> nat \<Rightarrow> (nat \<times> nat) list \<Rightarrow> bool" where
  "ring_order lo hi L \<longleftrightarrow> (\<exists>xs ys. L = xs @ ys \<and> rising lo hi xs \<and> (ys \<noteq> [] \<longrightarrow> xs \<noteq> [] \<and> rising lo (fst (hd xs)) ys))"

definition places :: "rt_rbb \<Rightarrow> (nat \<times> nat) list" where
  "places r = map (\<lambda>i. (blk_buf (blk r i), blk_size (blk r i))) (rbb_list r)"

definition rbb_inv :: "rt_rbb \<Rightarrow> bool" where
  "rbb_inv r \<longleftrightarrow> ring_order (rbb_buf r) (rbb_buf r + rbb_buf_size r) (places r) \<and> distinct (rbb_list r) \<and>
     length (rbb_set r) = rbb_max r \<and> rbb_buf r + rbb_buf_size r < 2 ^ 32 \<and>
     (\<forall>i \<in> set (rbb_list r). i < rbb_max r \<and> blk_status (blk r i) \<noteq> RT_RBB_BLK_UNUSED)"

lemma rising_mono: "rising lo hi xs \<Longrightarrow> lo' \<le> lo \<Longrightarrow> hi \<le> hi' \<Longrightarrow> rising lo' hi' xs"
  by (induction xs arbitrary: lo lo') auto

lemma rising_le: "rising lo hi xs \<Longrightarrow> lo \<le> hi"
  by (induction xs arbitrary: lo) force+

lemma rising_append: "rising lo hi (xs @ ys) \<longleftrightarrow> (\<exists>m. rising lo m xs \<and> rising m hi ys)"
proof (induction xs arbitrary: lo)
  case Nil
  show ?case using rising_mono[of _ hi ys] by auto
qed auto

lemma rising_snoc: "rising lo hi (xs @ [x]) \<longleftrightarrow> rising lo (fst x) xs \<and> 0 < snd x \<and> fst x + snd x \<le> hi"
  by (induction xs arbitrary: lo) auto

lemma rising_remove: "rising lo hi (xs @ x # ys) \<Longrightarrow> rising lo hi (xs @ ys)"
  by (induction xs arbitrary: lo) (auto intro: rising_mono)

lemma rising_mem: "rising lo hi xs \<Longrightarrow> x \<in> set xs \<Longrightarrow> lo \<le> fst x \<and> fst x + snd x \<le> hi \<and> 0 < snd x"
  by (induction xs arbitrary: lo) (use rising_le in fastforce)+

lemma rising_last: "rising lo hi xs \<Longrightarrow> xs \<noteq> [] \<Longrightarrow> fst (last xs) + snd (last xs) \<le> hi \<and> 0 < snd (last xs)"
  using rising_mem[OF _ last_in_set] by blast

lemma rising_extend:
  "rising lo hi xs \<Longrightarrow> xs \<noteq> [] \<Longrightarrow> b = fst (last xs) + snd (last xs) \<Longrightarrow> b + n \<le> hi \<Longrightarrow> 0 < n \<Longrightarrow> rising lo hi (xs @ [(b, n)])"
  by (induction xs arbitrary: lo) (auto split: if_splits)

lemma ring_order_nonempty:
  assumes "ring_order lo hi L" "L \<noteq> []"
  obtains xs ys where "L = xs @ ys" "rising lo hi xs" "xs \<noteq> []" "ys \<noteq> [] \<longrightarrow> rising lo (fst (hd xs)) ys"
  using assms unfolding ring_order_def by (metis append_Nil)

lemma rising_hd: "rising lo hi xs \<Longrightarrow> xs \<noteq> [] \<Longrightarrow> lo \<le> fst (hd xs) \<and> fst (hd xs) \<le> fst (last xs) \<and> fst (hd xs) < hi"
proof (induction xs arbitrary: lo)
  case (Cons x xs)
  then show ?case using rising_le[of "fst x + snd x" hi xs] Cons.IH[of "fst x + snd x"] by (cases xs) auto
qed simp

lemma ring_order_empty: "lo \<le> hi \<Longrightarrow> ring_order lo hi []"
  by (auto simp: ring_order_def)

lemma ring_order_remove:
  assumes r: "ring_order lo hi (as @ x # bs)"
  shows "ring_order lo hi (as @ bs)"
proof -
  obtain xs ys where L: "as @ x # bs = xs @ ys" "rising lo hi xs" "xs \<noteq> []" "ys \<noteq> [] \<longrightarrow> rising lo (fst (hd xs)) ys"
    using r by (rule ring_order_nonempty) simp
  show ?thesis
  proof (cases "length as < length xs")
    case True
    then obtain zs where z: "xs = as @ x # zs" "bs = zs @ ys"
      using L(1) by (auto simp: append_eq_append_conv2 Cons_eq_append_conv)
    have rz: "rising lo hi (as @ zs)" using L(2) unfolding z(1) by (rule rising_remove)
    show ?thesis
    proof (cases "as @ zs = []")
      case True
      have "rising lo hi ys" if "ys \<noteq> []"
        using L(4) that rising_mono[of lo "fst (hd xs)" ys lo hi] rising_hd[OF L(2,3)] by simp
      then have "rising lo hi ys" using rz True by (cases "ys = []") auto
      then show ?thesis using z(2) True unfolding ring_order_def by (intro exI[of _ ys] exI[of _ "[]"]) simp
    next
      case False
      have "fst (hd xs) \<le> fst (hd (as @ zs))"
      proof (cases as)
        case Nil
        then have "zs \<noteq> []" "rising (fst x + snd x) hi zs" using False L(2) z(1) by auto
        then show ?thesis using rising_hd[of "fst x + snd x" hi zs] Nil z(1) by simp
      qed (simp add: z(1))
      then have "ys \<noteq> [] \<longrightarrow> rising lo (fst (hd (as @ zs))) ys" using L(4) rising_mono by blast
      then show ?thesis using rz False z(2) unfolding ring_order_def by (intro exI[of _ "as @ zs"] exI[of _ ys]) simp
    qed
  next
    case False
    then obtain zs where z: "as = xs @ zs" "ys = zs @ x # bs"
      using L(1) by (auto simp: append_eq_append_conv2 Cons_eq_append_conv)
    then have "rising lo (fst (hd xs)) (zs @ bs)" using L(4) rising_remove by auto
    then show ?thesis using L(2,3) z(1) unfolding ring_order_def by (intro exI[of _ xs] exI[of _ "zs @ bs"]) simp
  qed
qed

text \<open>What the order is for: all blocks lie in the buffer and none overlaps another.\<close>

definition disjoint_blocks :: "nat \<times> nat \<Rightarrow> nat \<times> nat \<Rightarrow> bool" where
  "disjoint_blocks x y \<longleftrightarrow> fst x + snd x \<le> fst y \<or> fst y + snd y \<le> fst x"

lemma rising_apart: "rising lo hi (as @ x # bs) \<Longrightarrow> y \<in> set bs \<Longrightarrow> disjoint_blocks x y"
proof -
  assume a: "rising lo hi (as @ x # bs)" "y \<in> set bs"
  then have "rising (fst x + snd x) hi bs" by (auto simp: rising_append)
  from rising_mem[OF this a(2)] show ?thesis by (simp add: disjoint_blocks_def)
qed

lemma rising_hd_le: "rising lo hi (as @ x # zs) \<Longrightarrow> fst (hd (as @ x # zs)) \<le> fst x"
proof (cases as)
  case (Cons a as')
  assume "rising lo hi (as @ x # zs)"
  then have "rising (fst a + snd a) hi (as' @ x # zs)" using Cons by simp
  from rising_mem[OF this, of x] show ?thesis using Cons by simp
qed simp

lemma ring_order_apart:
  assumes "ring_order lo hi (as @ x # bs)" "y \<in> set bs"
  shows "disjoint_blocks x y"
proof -
  obtain xs ys where L: "as @ x # bs = xs @ ys" "rising lo hi xs" "xs \<noteq> []" "ys \<noteq> [] \<longrightarrow> rising lo (fst (hd xs)) ys"
    using assms(1) by (rule ring_order_nonempty) simp
  show ?thesis
  proof (cases "length as < length xs")
    case True
    then obtain zs where z: "xs = as @ x # zs" "bs = zs @ ys"
      using L(1) by (auto simp: append_eq_append_conv2 Cons_eq_append_conv)
    show ?thesis
    proof (cases "y \<in> set zs")
      case True
      then show ?thesis using rising_apart L(2) z(1) by blast
    next
      case False
      then have "y \<in> set ys" "ys \<noteq> []" using assms(2) z(2) by auto
      then have "fst y + snd y \<le> fst (hd xs)" using L(4) rising_mem by blast
      moreover have "fst (hd xs) \<le> fst x" using L(2) rising_hd_le unfolding z(1) by blast
      ultimately show ?thesis by (simp add: disjoint_blocks_def)
    qed
  next
    case False
    then obtain zs where z: "as = xs @ zs" "ys = zs @ x # bs"
      using L(1) by (auto simp: append_eq_append_conv2 Cons_eq_append_conv)
    then show ?thesis using L(4) rising_apart assms(2) by blast
  qed
qed

lemma ring_order_inside:
  assumes "ring_order lo hi L" "x \<in> set L" shows "lo \<le> fst x \<and> fst x + snd x \<le> hi \<and> 0 < snd x"
proof -
  obtain xs ys where L: "L = xs @ ys" "rising lo hi xs" "xs \<noteq> []" "ys \<noteq> [] \<longrightarrow> rising lo (fst (hd xs)) ys"
    using assms(1) by (rule ring_order_nonempty) (use assms(2) in auto)
  show ?thesis
  proof (cases "x \<in> set xs")
    case True
    then show ?thesis using rising_mem[OF L(2)] by blast
  next
    case False
    then have "x \<in> set ys" "ys \<noteq> []" using assms(2) L(1) by auto
    then show ?thesis using L(4) rising_mem[of lo "fst (hd xs)" ys x] rising_hd[OF L(2,3)] by auto
  qed
qed

section \<open>The operations keep the order\<close>

lemma find_empty_spec:
  "find_empty_blk_in_set r = Some i \<Longrightarrow> i < rbb_max r \<and> blk_status (blk r i) = RT_RBB_BLK_UNUSED"
  by (auto simp: find_empty_blk_in_set_def find_Some_iff)

lemma upd_blk_sel [simp]:
  "rbb_list (upd_blk i f r) = rbb_list r" "rbb_buf (upd_blk i f r) = rbb_buf r" "rbb_buf_size (upd_blk i f r) = rbb_buf_size r"
  "rbb_max (upd_blk i f r) = rbb_max r" "length (rbb_set (upd_blk i f r)) = length (rbb_set r)"
  "blk (upd_blk i f r) j = (if i = j \<and> i < length (rbb_set r) then f (blk r i) else blk r j)"
  by (simp_all add: upd_blk_def) (cases "i = j"; cases "i < length (rbb_set r)"; simp add: list_update_beyond)

lemma unlink_blk_sel [simp]:
  "rbb_list (unlink_blk i r) = remove1 i (rbb_list r)" "rbb_buf (unlink_blk i r) = rbb_buf r"
  "rbb_buf_size (unlink_blk i r) = rbb_buf_size r" "rbb_max (unlink_blk i r) = rbb_max r" "rbb_set (unlink_blk i r) = rbb_set r"
  by (simp_all add: unlink_blk_def)

lemma add_block_inv:
  assumes inv: "rbb_inv r" and i: "i < rbb_max r" "blk_status (blk r i) = RT_RBB_BLK_UNUSED"
    and ord: "ring_order (rbb_buf r) (rbb_buf r + rbb_buf_size r) (places r @ [(b, n)])"
  shows "rbb_inv (add_block i b n r)" "places (add_block i b n r) = places r @ [(b, n)]"
proof -
  have len: "length (rbb_set r) = rbb_max r" using inv by (simp add: rbb_inv_def)
  have ni: "i \<notin> set (rbb_list r)" using inv i(2) by (auto simp: rbb_inv_def)
  then have "map (\<lambda>j. (blk_buf (blk (add_block i b n r) j), blk_size (blk (add_block i b n r) j))) (rbb_list r) = places r"
    unfolding places_def by (intro map_cong refl) (auto simp: add_block_def)
  then show p: "places (add_block i b n r) = places r @ [(b, n)]"
    using i(1) len by (simp add: places_def) (simp add: add_block_def)
  show "rbb_inv (add_block i b n r)"
    using inv ni i(1) ord unfolding rbb_inv_def p by (auto simp: add_block_def)
qed

text \<open>The place the code chooses.\<close>

lemma ring_order_append:
  assumes r: "ring_order lo hi L" and L: "L \<noteq> []" and n: "0 < n" and e: "e = fst (last L) + snd (last L)"
  shows "if fst (hd L) \<le> fst (last L) then e \<le> hi \<and> lo \<le> fst (hd L) \<and>
      (n \<le> hi - e \<longrightarrow> ring_order lo hi (L @ [(e, n)])) \<and> (n \<le> fst (hd L) - lo \<longrightarrow> ring_order lo hi (L @ [(lo, n)]))
    else e \<le> fst (hd L) \<and> (n \<le> fst (hd L) - e \<longrightarrow> ring_order lo hi (L @ [(e, n)]))"
proof -
  obtain xs ys where s: "L = xs @ ys" "rising lo hi xs" "xs \<noteq> []" "ys \<noteq> [] \<longrightarrow> rising lo (fst (hd xs)) ys"
    using r L by (rule ring_order_nonempty)
  note h = rising_hd[OF s(2,3)]
  show ?thesis
  proof (cases "ys = []")
    case True
    note l = rising_last[OF s(2,3)]
    have "ring_order lo hi (L @ [(e, n)])" if "n \<le> hi - e"
      using rising_extend[OF s(2,3), of e n] e n that l True s(1) unfolding ring_order_def
      by (intro exI[of _ "xs @ [(e, n)]"] exI[of _ "[]"]) simp
    moreover have "ring_order lo hi (L @ [(lo, n)])" if "n \<le> fst (hd L) - lo"
      using that s True n h unfolding ring_order_def by (intro exI[of _ xs] exI[of _ "[(lo, n)]"]) auto
    ultimately show ?thesis using True s(1) h l e by auto
  next
    case False
    then have ry: "rising lo (fst (hd xs)) ys" using s(4) by blast
    note l = rising_last[OF ry False]
    have "ring_order lo hi (L @ [(e, n)])" if "n \<le> fst (hd L) - e"
    proof -
      have "rising lo (fst (hd xs)) (ys @ [(e, n)])"
        by (rule rising_extend[OF ry False]) (use e n that l s(1,3) False in auto)
      then show ?thesis using s unfolding ring_order_def by (intro exI[of _ xs] exI[of _ "ys @ [(e, n)]"]) simp
    qed
    then show ?thesis using False s(1,3) l e by auto
  qed
qed

definition free_place :: "rt_rbb \<Rightarrow> nat \<Rightarrow> nat \<Rightarrow> bool" where
  "free_place r b n \<longleftrightarrow> rbb_buf r \<le> b \<and> b + n \<le> rbb_buf r + rbb_buf_size r \<and> (\<forall>x \<in> set (places r). disjoint_blocks x (b, n))"

definition alloc_ok :: "rt_rbb \<Rightarrow> nat \<Rightarrow> rt_rbb \<times> nat option \<Rightarrow> bool" where
  "alloc_ok r n x \<longleftrightarrow> rbb_inv (fst x) \<and> (case snd x of
       None \<Rightarrow> fst x = r
     | Some i \<Rightarrow> i < rbb_max r \<and> blk_status (blk r i) = RT_RBB_BLK_UNUSED \<and>
         (\<exists>b. free_place r b n \<and> fst x = add_block i b n r))"

lemma rbb_alloc_effect:
  assumes inv: "rbb_inv r" and n: "0 < n" "n < 2 ^ 24" and fit: "rbb_list r = [] \<longrightarrow> n \<le> rbb_buf_size r"
  shows "\<exists>x. rt_rbb_blk_alloc n r = Some x \<and> alloc_ok r n x"
proof (cases "find_empty_blk_in_set r")
  case None
  then show ?thesis using inv n(2) by (simp add: rt_rbb_blk_alloc_def alloc_ok_def)
next
  case (Some i)
  note i = find_empty_spec[OF Some]
  let ?lo = "rbb_buf r" and ?hi = "rbb_buf r + rbb_buf_size r"
  have ord: "ring_order ?lo ?hi (places r)" using inv by (simp add: rbb_inv_def)
  have added: "alloc_ok r n (add_block i b n r, Some i)" if o: "ring_order ?lo ?hi (places r @ [(b, n)])" for b
  proof -
    have "disjoint_blocks x (b, n)" if "x \<in> set (places r)" for x
      using split_list[OF that] ring_order_apart o by fastforce
    then have "free_place r b n" using ring_order_inside[OF o, of "(b, n)"] by (simp add: free_place_def)
    then show ?thesis using add_block_inv(1)[OF inv _ _ o] i by (auto simp: alloc_ok_def)
  qed
  have keep: "alloc_ok r n (r, None)" using inv by (simp add: alloc_ok_def)
  show ?thesis
  proof (cases "rbb_list r = []")
    case True
    then have "ring_order ?lo ?hi (places r @ [(?lo, n)])"
      using n fit unfolding ring_order_def by (intro exI[of _ "[(?lo, n)]"] exI[of _ "[]"]) (simp add: places_def)
    from added[OF this] keep show ?thesis using True Some n(2) by (auto simp: rt_rbb_blk_alloc_def)
  next
    case False
    then have ne: "places r \<noteq> []" by (simp add: places_def)
    obtain h t m where hl: "h = blk_buf (blk r (hd (rbb_list r)))" "t = blk_buf (blk r (last (rbb_list r)))"
      "m = blk_size (blk r (last (rbb_list r)))" by blast
    have pl: "fst (hd (places r)) = h" "fst (last (places r)) = t" "snd (last (places r)) = m"
      using False by (simp_all add: places_def hd_map last_map hl)
    note c = ring_order_append[OF ord ne n(1) refl, unfolded pl]
    show ?thesis
    proof (cases "length (rbb_list r) < rbb_max r")
      case full: False
      then show ?thesis using keep Some n(2) by (simp add: rt_rbb_blk_alloc_def)
    next
      case room: True
      show ?thesis
      proof (cases "h \<le> t")
        case True
        then have s: "sub32 ?hi (t + m) = ?hi - (t + m)" "sub32 h ?lo = h - ?lo" using c by (auto intro: sub32_le)
        have "rt_rbb_blk_alloc n r = (if n \<le> ?hi - (t + m) then Some (add_block i (t + m) n r, Some i)
            else if n \<le> h - ?lo then Some (add_block i ?lo n r, Some i) else Some (r, None))"
          using True room False Some n(2) s unfolding rt_rbb_blk_alloc_def Let_def hl[symmetric] by simp
        then show ?thesis using c True added keep by (cases "n \<le> ?hi - (t + m)"; cases "n \<le> h - ?lo") simp_all
      next
        case wrap: False
        then have s: "sub32 h (t + m) = h - (t + m)" using c by (auto intro: sub32_le)
        have "rt_rbb_blk_alloc n r = (if n \<le> h - (t + m) then Some (add_block i (t + m) n r, Some i) else Some (r, None))"
          using wrap room False Some n(2) s unfolding rt_rbb_blk_alloc_def Let_def hl[symmetric] by simp
        then show ?thesis using c wrap added keep by (cases "n \<le> h - (t + m)") simp_all
      qed
    qed
  qed
qed

text \<open>Taking a block off the list, whatever becomes of its status.\<close>

lemma unlink_inv:
  assumes inv: "rbb_inv r" and f: "\<And>b. blk_size (f b) = blk_size b" "\<And>b. blk_buf (f b) = blk_buf b"
  shows "rbb_inv (upd_blk i f (unlink_blk i r))"
proof -
  let ?r = "upd_blk i f (unlink_blk i r)"
  have d: "distinct (rbb_list r)" using inv by (simp add: rbb_inv_def)
  have "ring_order (rbb_buf r) (rbb_buf r + rbb_buf_size r) (places ?r)"
  proof (cases "i \<in> set (rbb_list r)")
    case True
    then obtain as bs where l: "rbb_list r = as @ i # bs" "i \<notin> set as" by (meson split_list_first)
    then have nb: "i \<notin> set bs" using d by simp
    have "rbb_list ?r = as @ bs" using l by (simp add: remove1_append)
    then have "places ?r = map (\<lambda>j. (blk_buf (blk r j), blk_size (blk r j))) (as @ bs)"
      unfolding places_def using l nb by (simp only:) (intro map_cong refl, auto)
    moreover have "ring_order (rbb_buf r) (rbb_buf r + rbb_buf_size r)
        (map (\<lambda>j. (blk_buf (blk r j), blk_size (blk r j))) as @ (blk_buf (blk r i), blk_size (blk r i)) #
         map (\<lambda>j. (blk_buf (blk r j), blk_size (blk r j))) bs)"
      using inv l(1) by (simp add: rbb_inv_def places_def)
    from ring_order_remove[OF this] have "ring_order (rbb_buf r) (rbb_buf r + rbb_buf_size r)
        (map (\<lambda>j. (blk_buf (blk r j), blk_size (blk r j))) (as @ bs))" by simp
    ultimately show ?thesis by (simp only:)
  next
    case False
    then have "places ?r = places r" unfolding places_def by (simp add: remove1_idem)
    then show ?thesis using inv by (simp add: rbb_inv_def)
  qed
  then show ?thesis using inv d by (auto simp: rbb_inv_def dest: set_remove1_subset[THEN subsetD])
qed

text \<open>Changing the status of a block to one in use.\<close>

lemma status_inv:
  assumes inv: "rbb_inv r" and s: "s \<noteq> RT_RBB_BLK_UNUSED"
  shows "rbb_inv (upd_blk i (blk_status_update (\<lambda>_. s)) r)" "places (upd_blk i (blk_status_update (\<lambda>_. s)) r) = places r"
proof -
  show p: "places (upd_blk i (blk_status_update (\<lambda>_. s)) r) = places r" by (simp add: places_def)
  show "rbb_inv (upd_blk i (blk_status_update (\<lambda>_. s)) r)"
    using inv s unfolding rbb_inv_def p by auto
qed

section \<open>Queues of blocks\<close>

abbreviation take_blk :: "nat \<Rightarrow> rt_rbb \<Rightarrow> rt_rbb" where
  "take_blk i r \<equiv> upd_blk i (blk_status_update (\<lambda>_. RT_RBB_BLK_GET)) (unlink_blk i r)"

abbreviation put_in :: "rt_rbb \<Rightarrow> nat \<Rightarrow> bool" where
  "put_in r i \<equiv> blk_status (blk r i) = RT_RBB_BLK_PUT"

abbreviation bytes_of :: "rt_rbb \<Rightarrow> nat list \<Rightarrow> nat" where
  "bytes_of r is \<equiv> sum_list (map (\<lambda>i. blk_size (blk r i)) is)"

lemma take_blk_same: "blk_size (blk (take_blk i r) j) = blk_size (blk r j)" "blk_buf (blk (take_blk i r) j) = blk_buf (blk r j)"
  "j \<noteq> i \<Longrightarrow> blk (take_blk i r) j = blk r j"
  by simp_all

text \<open>Behind the first block the loop takes a run of blocks and stops.\<close>

lemma queue_loop_started:
  "queue_get_loop lim ns (Some l) tot (Some (f, c)) r = (r', tot', q') \<Longrightarrow> distinct ns \<Longrightarrow>
   \<exists>run rest. ns = run @ rest \<and> r' = fold take_blk run r \<and> q' = Some (f, c + length run) \<and>
     tot' = tot + bytes_of r run \<and> (run \<noteq> [] \<longrightarrow> tot' \<le> lim) \<and> (\<forall>i \<in> set run. put_in r i) \<and>
     sorted (map (\<lambda>i. blk_buf (blk r i)) (l # run))"
proof (induction ns arbitrary: l tot c r)
  case (Cons i ns)
  let ?r = "take_blk i r"
  show ?case
  proof (cases "\<not> put_in r i \<or> blk_buf (blk r l) > blk_buf (blk r i) \<or> tot + blk_size (blk r i) > lim")
    case True
    then have "queue_get_loop lim (i # ns) (Some l) tot (Some (f, c)) r = (r, tot, Some (f, c))" by auto
    then show ?thesis using Cons.prems(1) by (intro exI[of _ "[]"] exI[of _ "i # ns"]) simp
  next
    case False
    then have "queue_get_loop lim ns (Some i) (tot + blk_size (blk r i)) (Some (f, c + 1)) ?r = (r', tot', q')"
      using Cons.prems(1) by simp
    from Cons.IH[OF this] Cons.prems(2) obtain run rest where
      h: "ns = run @ rest" "r' = fold take_blk run ?r" "q' = Some (f, c + 1 + length run)"
        "tot' = tot + blk_size (blk r i) + bytes_of ?r run" "run \<noteq> [] \<longrightarrow> tot' \<le> lim" "\<forall>j \<in> set run. put_in ?r j"
        "sorted (map (\<lambda>j. blk_buf (blk ?r j)) (i # run))" by auto
    have ni: "i \<notin> set run" using Cons.prems(2) h(1) by auto
    have "bytes_of ?r run = bytes_of r run" by (simp only: take_blk_same)
    moreover have "put_in r j" if "j \<in> set run" for j using h(6) that ni take_blk_same(3)[of j i r] by (metis)
    moreover have "sorted (map (\<lambda>j. blk_buf (blk r j)) (i # run))" using h(7) by (simp only: take_blk_same)
    ultimately show ?thesis
      using h False by (intro exI[of _ "i # run"] exI[of _ rest]) auto
  qed
qed simp

lemma queue_loop_start:
  "distinct ns \<Longrightarrow> queue_get_loop lim ns None tot q r = (r', tot', q') \<Longrightarrow>
   \<exists>pre run rest. ns = pre @ run @ rest \<and> (\<forall>i \<in> set pre. \<not> put_in r i) \<and> (\<forall>i \<in> set run. put_in r i) \<and>
     r' = fold take_blk run r \<and> tot' = tot + bytes_of r run \<and> (1 < length run \<longrightarrow> tot' \<le> lim) \<and>
     sorted (map (\<lambda>i. blk_buf (blk r i)) run) \<and>
     (if run = [] then rest = [] \<and> q' = q else q' = Some (hd run, length run))"
proof (induction ns arbitrary: q)
  case (Cons i ns)
  show ?case
  proof (cases "put_in r i")
    case False
    then have "queue_get_loop lim ns None tot q r = (r', tot', q')" using Cons.prems(2) by simp
    from Cons.IH[OF _ this] Cons.prems(1) obtain pre run rest where
      h: "ns = pre @ run @ rest" "\<forall>i \<in> set pre. \<not> put_in r i" "\<forall>i \<in> set run. put_in r i"
        "r' = fold take_blk run r" "tot' = tot + bytes_of r run" "1 < length run \<longrightarrow> tot' \<le> lim"
        "sorted (map (\<lambda>i. blk_buf (blk r i)) run)" "if run = [] then rest = [] \<and> q' = q else q' = Some (hd run, length run)"
      by auto
    then show ?thesis using False by (intro exI[of _ "i # pre"] exI[of _ run] exI[of _ rest]) simp
  next
    case True
    let ?r = "take_blk i r"
    have "queue_get_loop lim ns (Some i) (tot + blk_size (blk r i)) (Some (i, 1)) ?r = (r', tot', q')"
      using True Cons.prems(2) by simp
    from queue_loop_started[OF this] Cons.prems(1) obtain run rest where
      h: "ns = run @ rest" "r' = fold take_blk run ?r" "q' = Some (i, 1 + length run)"
        "tot' = tot + blk_size (blk r i) + bytes_of ?r run" "run \<noteq> [] \<longrightarrow> tot' \<le> lim" "\<forall>j \<in> set run. put_in ?r j"
        "sorted (map (\<lambda>j. blk_buf (blk ?r j)) (i # run))" by auto
    have ni: "i \<notin> set run" using Cons.prems(1) h(1) by auto
    have "bytes_of ?r run = bytes_of r run" by (simp only: take_blk_same)
    moreover have "put_in r j" if "j \<in> set run" for j using h(6) that ni take_blk_same(3)[of j i r] by (metis)
    moreover have "sorted (map (\<lambda>j. blk_buf (blk r j)) (i # run))" using h(7) by (simp only: take_blk_same)
    ultimately show ?thesis
      using h True by (intro exI[of _ "[]"] exI[of _ "i # run"] exI[of _ rest]) auto
  qed
qed simp

lemma fold_take_inv: "rbb_inv r \<Longrightarrow> rbb_inv (fold take_blk run r)"
proof (induction run arbitrary: r)
  case (Cons i run)
  have "rbb_inv (take_blk i r)" by (rule unlink_inv[OF Cons.prems]) simp_all
  then show ?case using Cons.IH by simp
qed simp

section \<open>Properties\<close>


text \<open>A buffer of 16 bytes at \<open>0x20001000\<close> whose three blocks are not in use.\<close>

definition sample_rbb :: rt_rbb where
  "sample_rbb = rt_rbb_init 0x20001000 16 (replicate 3 \<lparr>blk_status = RT_RBB_BLK_UNUSED, blk_size = 0, blk_buf = 0\<rparr>) 3"


text \<open>A queue is read as an array, but a new block takes the lowest unused index, not the next one: after
  three allocations, a free of block \<open>0\<close> and another allocation the list is \<open>[1, 2, 0]\<close>, and a queue of its
  three blocks is read beyond the block set.\<close>

lemma queue_len_leaves_the_set:
  "rt_rbb_blk_queue_len f n r = None \<longleftrightarrow> (\<exists>k < n. length (rbb_set r) \<le> f + k)"
  by (induction n) (auto simp: less_Suc_eq bind_eq_None_conv split: if_splits)

end
