(* ===== verification/Bitmap.thy ===== *)
theory Bitmap
  imports Kernel_Prelude
begin

text \<open>
  \<^verbatim>\<open>__rt_ffs\<close> of \<^verbatim>\<open>src/kservice.c\<close>: the table-driven search for the lowest set bit, on which
  the scheduler's constant-time choice of the highest ready priority rests.
\<close>

definition lowest_bit_bitmap :: "nat list" where
  "lowest_bit_bitmap =
    [0, 0, 1, 0, 2, 0, 1, 0, 3, 0, 1, 0, 2, 0, 1, 0,
     4, 0, 1, 0, 2, 0, 1, 0, 3, 0, 1, 0, 2, 0, 1, 0,
     5, 0, 1, 0, 2, 0, 1, 0, 3, 0, 1, 0, 2, 0, 1, 0,
     4, 0, 1, 0, 2, 0, 1, 0, 3, 0, 1, 0, 2, 0, 1, 0,
     6, 0, 1, 0, 2, 0, 1, 0, 3, 0, 1, 0, 2, 0, 1, 0,
     4, 0, 1, 0, 2, 0, 1, 0, 3, 0, 1, 0, 2, 0, 1, 0,
     5, 0, 1, 0, 2, 0, 1, 0, 3, 0, 1, 0, 2, 0, 1, 0,
     4, 0, 1, 0, 2, 0, 1, 0, 3, 0, 1, 0, 2, 0, 1, 0,
     7, 0, 1, 0, 2, 0, 1, 0, 3, 0, 1, 0, 2, 0, 1, 0,
     4, 0, 1, 0, 2, 0, 1, 0, 3, 0, 1, 0, 2, 0, 1, 0,
     5, 0, 1, 0, 2, 0, 1, 0, 3, 0, 1, 0, 2, 0, 1, 0,
     4, 0, 1, 0, 2, 0, 1, 0, 3, 0, 1, 0, 2, 0, 1, 0,
     6, 0, 1, 0, 2, 0, 1, 0, 3, 0, 1, 0, 2, 0, 1, 0,
     4, 0, 1, 0, 2, 0, 1, 0, 3, 0, 1, 0, 2, 0, 1, 0,
     5, 0, 1, 0, 2, 0, 1, 0, 3, 0, 1, 0, 2, 0, 1, 0,
     4, 0, 1, 0, 2, 0, 1, 0, 3, 0, 1, 0, 2, 0, 1, 0]"

text \<open>\<^verbatim>\<open>0xff000000\<close> is unsigned, so the last shift is logical.\<close>

definition rt_ffs :: "u32 \<Rightarrow> nat" where
  "rt_ffs value =
     (if value = 0 then 0
      else if value AND 0xff \<noteq> 0 then lowest_bit_bitmap ! unat (value AND 0xff) + 1
      else if value AND 0xff00 \<noteq> 0 then lowest_bit_bitmap ! unat (drop_bit 8 (value AND 0xff00)) + 9
      else if value AND 0xff0000 \<noteq> 0
        then lowest_bit_bitmap ! unat (drop_bit 16 (value AND 0xff0000)) + 17
      else lowest_bit_bitmap ! unat (drop_bit 24 (value AND 0xff000000)) + 25)"

section \<open>The table\<close>

fun table_ok :: "int \<Rightarrow> nat list \<Rightarrow> bool" where
  "table_ok b [] = True"
| "table_ok b (x # xs) = ((b = 0 \<or> x < 8 \<and> bit b x \<and> take_bit x b = 0) \<and> table_ok (b + 1) xs)"

lemma table_ok_nth:
  "table_ok b xs \<Longrightarrow> i < length xs \<Longrightarrow> b + int i \<noteq> 0 \<Longrightarrow>
   xs ! i < 8 \<and> bit (b + int i) (xs ! i) \<and> take_bit (xs ! i) (b + int i) = 0"
proof (induction xs arbitrary: b i)
  case Nil
  then show ?case by simp
next
  case (Cons x xs)
  then show ?case
  proof (cases i)
    case 0
    with Cons show ?thesis by simp
  next
    case (Suc j)
    with Cons.IH[of "b + 1" j] Cons.prems show ?thesis by (simp add: ac_simps)
  qed
qed

lemma table_ok_bitmap: "table_ok 0 lowest_bit_bitmap"
  by (simp add: lowest_bit_bitmap_def)

lemma length_bitmap: "length lowest_bit_bitmap = 256"
  by (simp add: lowest_bit_bitmap_def)

lemma bitmap_nth:
  assumes "b \<noteq> 0" "b < 256"
  shows "lowest_bit_bitmap ! b < 8" "bit b (lowest_bit_bitmap ! b)"
    "j < lowest_bit_bitmap ! b \<Longrightarrow> \<not> bit b j"
proof -
  have t: "lowest_bit_bitmap ! b < 8 \<and> bit b (lowest_bit_bitmap ! b) \<and>
      take_bit (lowest_bit_bitmap ! b) b = 0"
    using table_ok_nth[OF table_ok_bitmap, of b] assms
    by (simp add: length_bitmap bit_of_nat_iff_bit take_bit_of_nat)
  show "lowest_bit_bitmap ! b < 8" "bit b (lowest_bit_bitmap ! b)" using t by blast+
  assume j: "j < lowest_bit_bitmap ! b"
  have "take_bit (lowest_bit_bitmap ! b) b = 0" using t by blast
  then have "\<not> bit (take_bit (lowest_bit_bitmap ! b) b) j" by simp
  then show "\<not> bit b j" using j by (simp add: bit_take_bit_iff)
qed

section \<open>The search\<close>

lemma byte_of_word:
  fixes v :: u32
  shows "drop_bit n (v AND push_bit n (mask 8)) = take_bit 8 (drop_bit n v)"
proof (rule bit_word_eqI)
  fix i assume "i < LENGTH(32)"
  then show "bit (drop_bit n (v AND push_bit n (mask 8))) i = bit (take_bit 8 (drop_bit n v)) i"
    using bit_imp_le_length[of v "n + i"] by (auto simp: bit_simps)
qed

lemma byte_masks:
  "(0xff :: u32) = push_bit 0 (mask 8)" "(0xff00 :: u32) = push_bit 8 (mask 8)"
  "(0xff0000 :: u32) = push_bit 16 (mask 8)" "(0xff000000 :: u32) = push_bit 24 (mask 8)"
  by (simp_all add: mask_eq_exp_minus_1 push_bit_eq_mult)

lemma bit_byte:
  fixes v :: u32
  shows "bit (v AND push_bit n (mask 8)) i \<longleftrightarrow> bit v i \<and> n \<le> i \<and> i < n + 8"
  using bit_imp_le_length[of v i] by (auto simp: bit_simps)

lemma byte_zeroD:
  fixes v :: u32
  shows "v AND push_bit n (mask 8) = 0 \<Longrightarrow> n \<le> i \<Longrightarrow> i < n + 8 \<Longrightarrow> \<not> bit v i"
  using bit_byte[of v n i] by simp

lemma byte_nonzeroD:
  fixes v :: u32
  assumes "v AND push_bit n (mask 8) \<noteq> 0"
  obtains i where "n \<le> i" "i < n + 8" "bit v i"
proof -
  from assms obtain i where "bit (v AND push_bit n (mask 8)) i"
    unfolding bit_eq_iff[of _ "0 :: u32"] bit_0_eq by auto
  with that show ?thesis unfolding bit_byte by blast
qed

lemma byte_lowest:
  fixes v :: u32
  assumes "v AND push_bit n (mask 8) \<noteq> 0"
  obtains m where "m = lowest_bit_bitmap ! unat (drop_bit n (v AND push_bit n (mask 8)))"
    "m < 8" "bit v (n + m)" "\<And>j. n \<le> j \<Longrightarrow> j < n + m \<Longrightarrow> \<not> bit v j"
proof -
  let ?b = "unat (take_bit 8 (drop_bit n v))"
  have bit_b: "bit ?b k \<longleftrightarrow> k < 8 \<and> bit v (n + k)" for k
    using bit_imp_le_length[of v "n + k"] by (auto simp: bit_unsigned_iff bit_simps)
  obtain i where i: "n \<le> i" "i < n + 8" "bit v i" using byte_nonzeroD[OF assms] .
  then have "bit ?b (i - n)" using bit_b[of "i - n"] by simp
  then have nz: "?b \<noteq> 0" by (metis bit_0_eq bot_apply bot_bool_def)
  have "?b = take_bit 8 (unat (drop_bit n v))" by (simp add: unsigned_take_bit_eq)
  then have lt: "?b < 256" using take_bit_nat_less_exp[of 8 "unat (drop_bit n v)"] by simp
  note f = bitmap_nth[OF nz lt]
  have low: "\<not> bit v j" if "n \<le> j" "j < n + lowest_bit_bitmap ! ?b" for j
  proof -
    have "j - n < lowest_bit_bitmap ! ?b" using that by linarith
    from f(3)[OF this] bit_b[of "j - n"] that f(1) show ?thesis by simp
  qed
  show ?thesis
    by (rule that[unfolded byte_of_word, OF refl f(1) _ low]) (use f(2) bit_b in auto)
qed

lemma nonzero_top_byte:
  fixes v :: u32
  assumes "v \<noteq> 0" "v AND push_bit 0 (mask 8) = 0" "v AND push_bit 8 (mask 8) = 0"
    "v AND push_bit 16 (mask 8) = 0"
  shows "v AND push_bit 24 (mask 8) \<noteq> 0"
proof
  assume z: "v AND push_bit 24 (mask 8) = 0"
  have "\<not> bit v i" for i
  proof (cases "i < 32")
    case True
    then consider "i < 8" | "8 \<le> i" "i < 16" | "16 \<le> i" "i < 24" | "24 \<le> i" "i < 32" by linarith
    then show ?thesis
      using byte_zeroD[OF assms(2), of i] byte_zeroD[OF assms(3), of i]
        byte_zeroD[OF assms(4), of i] byte_zeroD[OF z, of i]
      by cases auto
  next
    case False
    then show ?thesis using bit_imp_le_length[of v i] by auto
  qed
  then have "v = 0" by (simp add: bit_eq_iff)
  with assms(1) show False ..
qed

text \<open>
  The characterisation the scheduler relies on: zero gives zero, and otherwise the result is one
  more than the index of the lowest set bit.
\<close>

lemma rt_ffs_zero [simp]: "rt_ffs 0 = 0"
  by (simp add: rt_ffs_def)

lemma rt_ffs_lowest:
  fixes v :: u32
  assumes "v \<noteq> 0"
  shows "\<exists>m<32. rt_ffs v = m + 1 \<and> bit v m \<and> (\<forall>j<m. \<not> bit v j)"
proof -
  note F = rt_ffs_def[of v, unfolded byte_masks]
  consider (b0) "v AND push_bit 0 (mask 8) \<noteq> 0"
    | (b1) "v AND push_bit 0 (mask 8) = 0" "v AND push_bit 8 (mask 8) \<noteq> 0"
    | (b2) "v AND push_bit 0 (mask 8) = 0" "v AND push_bit 8 (mask 8) = 0"
        "v AND push_bit 16 (mask 8) \<noteq> 0"
    | (b3) "v AND push_bit 0 (mask 8) = 0" "v AND push_bit 8 (mask 8) = 0"
        "v AND push_bit 16 (mask 8) = 0" "v AND push_bit 24 (mask 8) \<noteq> 0"
    using nonzero_top_byte[OF assms] by blast
  then show ?thesis
  proof cases
    case b0
    from byte_lowest[OF b0] obtain m where m:
      "m = lowest_bit_bitmap ! unat (drop_bit 0 (v AND push_bit 0 (mask 8)))"
      "m < 8" "bit v (0 + m)" "\<And>j. 0 \<le> j \<Longrightarrow> j < 0 + m \<Longrightarrow> \<not> bit v j" by blast
    then have "rt_ffs v = m + 1" using F assms b0 by simp
    then show ?thesis using m by auto
  next
    case b1
    from byte_lowest[OF b1(2)] obtain m where m:
      "m = lowest_bit_bitmap ! unat (drop_bit 8 (v AND push_bit 8 (mask 8)))"
      "m < 8" "bit v (8 + m)" "\<And>j. 8 \<le> j \<Longrightarrow> j < 8 + m \<Longrightarrow> \<not> bit v j" by blast
    have "\<not> bit v j" if "j < 8 + m" for j
      using byte_zeroD[OF b1(1), of j] m(4)[of j] that by (cases "j < 8") auto
    moreover have "rt_ffs v = 8 + m + 1" using F assms b1 m(1) by simp
    ultimately show ?thesis using m by (intro exI[of _ "8 + m"]) auto
  next
    case b2
    from byte_lowest[OF b2(3)] obtain m where m:
      "m = lowest_bit_bitmap ! unat (drop_bit 16 (v AND push_bit 16 (mask 8)))"
      "m < 8" "bit v (16 + m)" "\<And>j. 16 \<le> j \<Longrightarrow> j < 16 + m \<Longrightarrow> \<not> bit v j" by blast
    have "\<not> bit v j" if "j < 16 + m" for j
      using byte_zeroD[OF b2(1), of j] byte_zeroD[OF b2(2), of j] m(4)[of j] that
      by (cases "j < 8"; cases "j < 16") auto
    moreover have "rt_ffs v = 16 + m + 1" using F assms b2 m(1) by simp
    ultimately show ?thesis using m by (intro exI[of _ "16 + m"]) auto
  next
    case b3
    from byte_lowest[OF b3(4)] obtain m where m:
      "m = lowest_bit_bitmap ! unat (drop_bit 24 (v AND push_bit 24 (mask 8)))"
      "m < 8" "bit v (24 + m)" "\<And>j. 24 \<le> j \<Longrightarrow> j < 24 + m \<Longrightarrow> \<not> bit v j" by blast
    have "\<not> bit v j" if "j < 24 + m" for j
      using byte_zeroD[OF b3(1), of j] byte_zeroD[OF b3(2), of j] byte_zeroD[OF b3(3), of j]
        m(4)[of j] that
      by (cases "j < 8"; cases "j < 16"; cases "j < 24") auto
    moreover have "rt_ffs v = 24 + m + 1" using F assms b3 m(1) by simp
    ultimately show ?thesis using m by (intro exI[of _ "24 + m"]) auto
  qed
qed

end
