(* ===== verification/Scheduler.thy ===== *)
theory Scheduler
  imports Kernel_State Bitmap
begin

text \<open>
  \<^verbatim>\<open>src/scheduler.c\<close>, uniprocessor branches: the ready table with its priority bitmap, the choice
  of the next thread, the context switch (as the change of \<^verbatim>\<open>rt_current_thread\<close>) and the scheduler
  lock. The invariant \<open>sched_inv\<close> ties the bitmap, the lists and the thread states together.
\<close>

section \<open>Operations\<close>

text \<open>A failed check prints and then spins with interrupts off (\<^verbatim>\<open>while (level);\<close>).\<close>

definition rt_scheduler_stack_check :: "rt_thread \<Rightarrow> unit option" where
  "rt_scheduler_stack_check th =
     (if t_magic th \<noteq> 35 \<or> t_sp th \<le> t_stack_addr th \<or> t_sp th > t_stack_addr th + t_stack_size th
      then None else Some ())"

text \<open>An empty list under a set bit would make \<^verbatim>\<open>rt_list_entry\<close> produce a wild pointer: \<open>None\<close>.\<close>

definition get_highest_priority_thread :: "kernel \<Rightarrow> (nat \<times> nat) option" where
  "get_highest_priority_thread k =
     (let p = rt_ffs (k_ready_group k) - 1 in
      case ready_list k p of [] \<Rightarrow> None | t # _ \<Rightarrow> Some (t, p))"

definition rt_system_scheduler_init :: "kernel \<Rightarrow> kernel" where
  "rt_system_scheduler_init k =
     k\<lparr>k_lock_nest := 0,
       k_lists := (\<lambda>h. case h of
           Ready p \<Rightarrow> (if p < RT_THREAD_PRIORITY_MAX then [] else k_lists k h)
         | Defunct \<Rightarrow> [] | _ \<Rightarrow> k_lists k h),
       k_ready_group := 0\<rparr>"

definition rt_schedule_insert_thread :: "nat \<Rightarrow> kernel \<Rightarrow> kernel" where
  "rt_schedule_insert_thread t k =
     (if k_current k = Some t then upd_thr t (t_stat_update (\<lambda>_. RT_THREAD_RUNNING)) k
      else
        let k = upd_thr t (t_stat_update (\<lambda>_. RT_THREAD_READY)) k;
            k = tlist_append (Ready (t_current_priority (thr k t))) t k in
        k\<lparr>k_ready_group := k_ready_group k OR t_number_mask (thr k t)\<rparr>)"

definition rt_schedule_remove_thread :: "nat \<Rightarrow> kernel \<Rightarrow> kernel" where
  "rt_schedule_remove_thread t k =
     (let k = tlist_remove t k in
      if ready_list k (t_current_priority (thr k t)) = [] then
        k\<lparr>k_ready_group := k_ready_group k AND NOT (t_number_mask (thr k t))\<rparr>
      else k)"

definition rt_system_scheduler_start :: "kernel \<Rightarrow> kernel option" where
  "rt_system_scheduler_start k = do {
     (to, p) \<leftarrow> get_highest_priority_thread k;
     Some (upd_thr to (t_stat_update (\<lambda>_. RT_THREAD_RUNNING))
       (rt_schedule_remove_thread to (k\<lparr>k_current := Some to\<rparr>))) }"

text \<open>
  \<^verbatim>\<open>rt_hw_context_switch\<close> and its interrupt variant resume \<^verbatim>\<open>to_thread\<close>; what the switched-out
  thread does when it runs again is the continuation of its caller, modelled with that caller.
\<close>

definition rt_schedule :: "kernel \<Rightarrow> kernel option" where
  "rt_schedule k =
     (if k_lock_nest k = 0 then
        if k_ready_group k \<noteq> 0 then do {
          (ready, highest) \<leftarrow> get_highest_priority_thread k;
          cur \<leftarrow> k_current k;
          let running = (t_stat (thr k cur) = RT_THREAD_RUNNING);
          let stay = (running \<and> t_current_priority (thr k cur) < highest);
          let to = (if stay then cur else ready);
          let need_insert_from_thread = (running \<and> \<not> stay);
          if to \<noteq> cur then do {
            let k = k\<lparr>k_current_priority := highest, k_current := Some to\<rparr>;
            let k = (if need_insert_from_thread then rt_schedule_insert_thread cur k else k);
            let k = rt_schedule_remove_thread to k;
            let k = upd_thr to (t_stat_update (\<lambda>_. RT_THREAD_RUNNING)) k;
            rt_scheduler_stack_check (thr k to);
            Some k }
          else
            Some (upd_thr cur (t_stat_update (\<lambda>_. RT_THREAD_RUNNING))
              (rt_schedule_remove_thread cur k)) }
        else Some k
      else Some k)"

definition rt_enter_critical :: "kernel \<Rightarrow> kernel" where
  "rt_enter_critical k = k\<lparr>k_lock_nest := k_lock_nest k + 1\<rparr>"

definition rt_exit_critical :: "kernel \<Rightarrow> kernel option" where
  "rt_exit_critical k =
     (let k = k\<lparr>k_lock_nest := k_lock_nest k - 1\<rparr> in
      if sint (k_lock_nest k) \<le> 0 then
        let k = k\<lparr>k_lock_nest := 0\<rparr> in
        if k_current k \<noteq> None then rt_schedule k else Some k
      else Some k)"

section \<open>Invariant\<close>

definition unlinked :: "kernel \<Rightarrow> nat \<Rightarrow> bool" where
  "unlinked k t \<longleftrightarrow> (\<forall>h. t \<notin> set (k_lists k h))"

definition lists_ok :: "('h \<Rightarrow> 'a list) \<Rightarrow> bool" where
  "lists_ok L \<longleftrightarrow> (\<forall>h. distinct (L h)) \<and>
     (\<forall>h h' t. t \<in> set (L h) \<longrightarrow> t \<in> set (L h') \<longrightarrow> h = h')"

definition tlist_inv :: "kernel \<Rightarrow> bool" where
  "tlist_inv k \<longleftrightarrow> lists_ok (k_lists k)"

definition bitmap_inv :: "kernel \<Rightarrow> bool" where
  "bitmap_inv k \<longleftrightarrow> (\<forall>p. bit (k_ready_group k) p \<longleftrightarrow> ready_list k p \<noteq> [])"

fun stat_of_list :: "list_head \<Rightarrow> rt_thread_stat" where
  "stat_of_list (Ready p) = RT_THREAD_READY"
| "stat_of_list Defunct = RT_THREAD_CLOSE"
| "stat_of_list h = RT_THREAD_SUSPEND"

definition live_stat :: "rt_thread_stat \<Rightarrow> bool" where
  "live_stat s \<longleftrightarrow> s = RT_THREAD_READY \<or> s = RT_THREAD_SUSPEND \<or> s = RT_THREAD_RUNNING"

definition prio_ok :: "rt_thread \<Rightarrow> bool" where
  "prio_ok th \<longleftrightarrow> t_current_priority th < 32 \<and> t_number_mask th = push_bit (t_current_priority th) 1"

text \<open>What must hold of one thread: where it is linked, its mask, and the meaning of its state.\<close>

definition thread_inv :: "kernel \<Rightarrow> nat \<Rightarrow> bool" where
  "thread_inv k t \<longleftrightarrow>
     (\<forall>h. t \<in> set (k_lists k h) \<longrightarrow> t_stat (thr k t) = stat_of_list h) \<and>
     (\<forall>p. t \<in> set (ready_list k p) \<longrightarrow> p = t_current_priority (thr k t)) \<and>
     (t_stat (thr k t) = RT_THREAD_READY \<longrightarrow> t \<in> set (ready_list k (t_current_priority (thr k t)))) \<and>
     (live_stat (t_stat (thr k t)) \<longrightarrow> prio_ok (thr k t)) \<and>
     (t_stat (thr k t) = RT_THREAD_RUNNING \<longrightarrow> k_current k = Some t)"

text \<open>\<open>sched_inv_ex T k\<close>: the threads of \<open>T\<close> are in transition, linked nowhere.\<close>

definition sched_inv_ex :: "nat set \<Rightarrow> kernel \<Rightarrow> bool" where
  "sched_inv_ex T k \<longleftrightarrow> tlist_inv k \<and> bitmap_inv k \<and>
     (\<forall>t. t \<notin> T \<longrightarrow> thread_inv k t) \<and> (\<forall>t \<in> T. unlinked k t)"

definition sched_inv :: "kernel \<Rightarrow> bool" where
  "sched_inv k \<longleftrightarrow> sched_inv_ex {} k"

text \<open>The current thread is not waiting in the ready table.\<close>

definition current_inv :: "kernel \<Rightarrow> bool" where
  "current_inv k \<longleftrightarrow> (\<forall>c. k_current k = Some c \<longrightarrow> t_stat (thr k c) \<noteq> RT_THREAD_READY)"

section \<open>Access lemmas\<close>

lemmas kernel_upd_defs = upd_thr_def upd_timer_def tlist_remove_def tlist_append_def
  tlist_push_def tlist_init_def

lemma upd_thr_sel [simp]:
  "k_threads (upd_thr t f k) = (k_threads k)(t := f (k_threads k t))"
  "k_lists (upd_thr t f k) = k_lists k" "k_current (upd_thr t f k) = k_current k"
  "k_ready_group (upd_thr t f k) = k_ready_group k" "k_timers (upd_thr t f k) = k_timers k"
  "k_timer_list (upd_thr t f k) = k_timer_list k" "k_objects (upd_thr t f k) = k_objects k"
  "k_containers (upd_thr t f k) = k_containers k" "k_tick (upd_thr t f k) = k_tick k"
  "k_interrupt_nest (upd_thr t f k) = k_interrupt_nest k"
  "k_lock_nest (upd_thr t f k) = k_lock_nest k" "k_sems (upd_thr t f k) = k_sems k"
  "k_mutexes (upd_thr t f k) = k_mutexes k" "k_events (upd_thr t f k) = k_events k"
  "k_mbs (upd_thr t f k) = k_mbs k" "k_mqs (upd_thr t f k) = k_mqs k"
  by (simp_all add: upd_thr_def)

lemma upd_timer_sel [simp]:
  "k_timers (upd_timer tm g k) = (k_timers k)(tm := g (k_timers k tm))"
  "k_threads (upd_timer tm g k) = k_threads k"
  "k_lists (upd_timer tm g k) = k_lists k" "k_current (upd_timer tm g k) = k_current k"
  "k_ready_group (upd_timer tm g k) = k_ready_group k"
  "k_timer_list (upd_timer tm g k) = k_timer_list k" "k_objects (upd_timer tm g k) = k_objects k"
  "k_containers (upd_timer tm g k) = k_containers k" "k_tick (upd_timer tm g k) = k_tick k"
  "k_interrupt_nest (upd_timer tm g k) = k_interrupt_nest k"
  "k_lock_nest (upd_timer tm g k) = k_lock_nest k" "k_sems (upd_timer tm g k) = k_sems k"
  "k_mutexes (upd_timer tm g k) = k_mutexes k" "k_events (upd_timer tm g k) = k_events k"
  "k_mbs (upd_timer tm g k) = k_mbs k" "k_mqs (upd_timer tm g k) = k_mqs k"
  by (simp_all add: upd_timer_def)

lemma insert_thread_sel [simp]:
  "k_current (rt_schedule_insert_thread t k) = k_current k"
  "k_timers (rt_schedule_insert_thread t k) = k_timers k"
  "k_timer_list (rt_schedule_insert_thread t k) = k_timer_list k"
  "k_objects (rt_schedule_insert_thread t k) = k_objects k"
  "k_containers (rt_schedule_insert_thread t k) = k_containers k"
  "k_tick (rt_schedule_insert_thread t k) = k_tick k"
  "k_interrupt_nest (rt_schedule_insert_thread t k) = k_interrupt_nest k"
  "k_lock_nest (rt_schedule_insert_thread t k) = k_lock_nest k"
  "k_sems (rt_schedule_insert_thread t k) = k_sems k"
  "k_mutexes (rt_schedule_insert_thread t k) = k_mutexes k"
  "k_events (rt_schedule_insert_thread t k) = k_events k"
  "k_mbs (rt_schedule_insert_thread t k) = k_mbs k"
  "k_mqs (rt_schedule_insert_thread t k) = k_mqs k"
  "k_threads (rt_schedule_insert_thread t k) =
     (k_threads k)(t := (k_threads k t)\<lparr>t_stat :=
        (if k_current k = Some t then RT_THREAD_RUNNING else RT_THREAD_READY)\<rparr>)"
  "k_lists (rt_schedule_insert_thread t k) =
     (if k_current k = Some t then k_lists k
      else (k_lists k)(Ready (t_current_priority (k_threads k t)) :=
             ready_list k (t_current_priority (k_threads k t)) @ [t]))"
  by (simp_all add: rt_schedule_insert_thread_def tlist_append_def Let_def)

lemma remove_thread_sel [simp]:
  "k_current (rt_schedule_remove_thread t k) = k_current k"
  "k_timers (rt_schedule_remove_thread t k) = k_timers k"
  "k_timer_list (rt_schedule_remove_thread t k) = k_timer_list k"
  "k_objects (rt_schedule_remove_thread t k) = k_objects k"
  "k_containers (rt_schedule_remove_thread t k) = k_containers k"
  "k_tick (rt_schedule_remove_thread t k) = k_tick k"
  "k_interrupt_nest (rt_schedule_remove_thread t k) = k_interrupt_nest k"
  "k_lock_nest (rt_schedule_remove_thread t k) = k_lock_nest k"
  "k_sems (rt_schedule_remove_thread t k) = k_sems k"
  "k_mutexes (rt_schedule_remove_thread t k) = k_mutexes k"
  "k_events (rt_schedule_remove_thread t k) = k_events k"
  "k_mbs (rt_schedule_remove_thread t k) = k_mbs k"
  "k_mqs (rt_schedule_remove_thread t k) = k_mqs k"
  "k_threads (rt_schedule_remove_thread t k) = k_threads k"
  "k_lists (rt_schedule_remove_thread t k) = (\<lambda>h. remove1 t (k_lists k h))"
  by (simp_all add: rt_schedule_remove_thread_def tlist_remove_def Let_def)

section \<open>Steps between partial invariants\<close>

lemma lists_ok_remove: "lists_ok L \<Longrightarrow> lists_ok (\<lambda>h. remove1 t (L h))"
  unfolding lists_ok_def by (meson distinct_remove1 notin_set_remove1)

lemma lists_ok_insert:
  assumes ok: "lists_ok L" and un: "\<And>h. t \<notin> set (L h)"
    and xs: "set xs = insert t (set (L h0))" "distinct xs"
  shows "lists_ok (L(h0 := xs))"
  unfolding lists_ok_def
proof (intro conjI allI impI)
  fix h show "distinct ((L(h0 := xs)) h)" using ok xs(2) by (simp add: lists_ok_def)
next
  fix h h' u
  assume a: "u \<in> set ((L(h0 := xs)) h)" "u \<in> set ((L(h0 := xs)) h')"
  show "h = h'"
  proof (cases "u = t")
    case True
    then show ?thesis using a un by (metis fun_upd_other)
  next
    case False
    then have "u \<in> set (L h)" "u \<in> set (L h')" using a xs(1) by (auto split: if_splits)
    then show ?thesis using ok by (auto simp: lists_ok_def)
  qed
qed

lemma lists_ok_append:
  "lists_ok L \<Longrightarrow> (\<And>h. t \<notin> set (L h)) \<Longrightarrow> lists_ok (L(h0 := L h0 @ [t]))"
  by (rule lists_ok_insert) (auto simp: lists_ok_def)

lemma bit_push_one: "q < 32 \<Longrightarrow> bit ((2 :: u32) ^ q) p \<longleftrightarrow> p = q"
  by (auto simp: bit_simps)

lemma sched_inv_ex_cong:
  assumes "k_lists k' = k_lists k" "k_ready_group k' = k_ready_group k"
    "k_threads k' = k_threads k" "k_current k' = k_current k"
  shows "sched_inv_ex T k' = sched_inv_ex T k"
  using assms by (simp add: sched_inv_ex_def tlist_inv_def bitmap_inv_def thread_inv_def unlinked_def)

lemma sched_inv_exD:
  assumes "sched_inv_ex T k"
  shows "tlist_inv k" "bitmap_inv k" "t \<notin> T \<Longrightarrow> thread_inv k t" "t \<in> T \<Longrightarrow> unlinked k t"
  using assms by (auto simp: sched_inv_ex_def)

lemma thread_invD:
  assumes "thread_inv k t"
  shows "t \<in> set (k_lists k h) \<Longrightarrow> t_stat (thr k t) = stat_of_list h"
    "t \<in> set (ready_list k p) \<Longrightarrow> p = t_current_priority (thr k t)"
    "t_stat (thr k t) = RT_THREAD_READY \<Longrightarrow> t \<in> set (ready_list k (t_current_priority (thr k t)))"
    "live_stat (t_stat (thr k t)) \<Longrightarrow> prio_ok (thr k t)"
    "t_stat (thr k t) = RT_THREAD_RUNNING \<Longrightarrow> k_current k = Some t"
  using assms by (auto simp: thread_inv_def)

lemma ready_prio_ok:
  assumes "sched_inv_ex T k" "t \<in> set (ready_list k p)"
  shows "p = t_current_priority (thr k t)" "prio_ok (thr k t)" "t_stat (thr k t) = RT_THREAD_READY"
proof -
  have "t \<notin> T" using sched_inv_exD(4)[OF assms(1), of t] assms(2) by (auto simp: unlinked_def)
  then have i: "thread_inv k t" using sched_inv_exD(3)[OF assms(1)] by blast
  show "p = t_current_priority (thr k t)" using thread_invD(2)[OF i assms(2)] .
  show s: "t_stat (thr k t) = RT_THREAD_READY" using thread_invD(1)[OF i assms(2)] by simp
  then show "prio_ok (thr k t)" using thread_invD(4)[OF i] by (simp add: live_stat_def)
qed

lemma running_unlinked:
  assumes "thread_inv k t" "t_stat (thr k t) = RT_THREAD_RUNNING"
  shows "unlinked k t"
  unfolding unlinked_def
proof
  fix h show "t \<notin> set (k_lists k h)"
    using thread_invD(1)[OF assms(1), of h] assms(2) by (cases h) auto
qed

lemma sched_inv_ex_weaken:
  "sched_inv_ex T k \<Longrightarrow> unlinked k t \<Longrightarrow> sched_inv_ex (insert t T) k"
  by (auto simp: sched_inv_ex_def)

lemma sched_inv_ex_settle:
  "sched_inv_ex T k \<Longrightarrow> thread_inv k t \<Longrightarrow> sched_inv_ex (T - {t}) k"
  by (auto simp: sched_inv_ex_def)

lemma sched_inv_ex_upd:
  "sched_inv_ex T k \<Longrightarrow> t \<in> T \<Longrightarrow> sched_inv_ex T (upd_thr t f k)"
  by (auto simp: sched_inv_ex_def tlist_inv_def bitmap_inv_def thread_inv_def unlinked_def)

lemma thread_inv_unlinked:
  assumes "unlinked k t" "t_stat (thr k t) \<noteq> RT_THREAD_READY"
    "live_stat (t_stat (thr k t)) \<Longrightarrow> prio_ok (thr k t)"
    "t_stat (thr k t) = RT_THREAD_RUNNING \<Longrightarrow> k_current k = Some t"
  shows "thread_inv k t"
  using assms by (auto simp: thread_inv_def unlinked_def)

lemma sched_inv_ex_current:
  assumes "sched_inv_ex T k" "\<And>t. t \<notin> T \<Longrightarrow> t_stat (thr k t) = RT_THREAD_RUNNING \<Longrightarrow> c = Some t"
  shows "sched_inv_ex T (k\<lparr>k_current_priority := p, k_current := c\<rparr>)"
    and "sched_inv_ex T (k\<lparr>k_current := c\<rparr>)"
  using assms by (auto simp: sched_inv_ex_def tlist_inv_def bitmap_inv_def thread_inv_def unlinked_def)

lemma unlinked_remove: "tlist_inv k \<Longrightarrow> unlinked (rt_schedule_remove_thread t k) t"
  by (simp add: unlinked_def tlist_inv_def lists_ok_def)

lemma remove_thread_ready:
  "k_ready_group (rt_schedule_remove_thread t k) =
     (if remove1 t (ready_list k (t_current_priority (thr k t))) = []
      then k_ready_group k AND NOT (t_number_mask (thr k t)) else k_ready_group k)"
  by (simp add: rt_schedule_remove_thread_def tlist_remove_def Let_def)

lemma remove_thread_ex:
  assumes inv: "sched_inv_ex T k"
    and ok: "prio_ok (thr k t) \<or> t_number_mask (thr k t) = 0"
  shows "sched_inv_ex (insert t T) (rt_schedule_remove_thread t k)" (is "sched_inv_ex _ ?k")
proof -
  note I = sched_inv_exD[OF inv]
  have in_ready: "t \<in> set (ready_list k p) \<Longrightarrow> p = t_current_priority (thr k t) \<and> prio_ok (thr k t)" for p
    using ready_prio_ok[OF inv] by blast
  have tl: "tlist_inv ?k"
    using I(1) by (simp add: tlist_inv_def lists_ok_remove)
  have bm: "bitmap_inv ?k"
    unfolding bitmap_inv_def
  proof
    fix p
    have b: "bit (k_ready_group k) p \<longleftrightarrow> ready_list k p \<noteq> []" for p using I(2) by (simp add: bitmap_inv_def)
    have oth: "p \<noteq> t_current_priority (thr k t) \<Longrightarrow> remove1 t (ready_list k p) = ready_list k p" for p
      using in_ready[of p] by (metis remove1_idem)
    show "bit (k_ready_group ?k) p \<longleftrightarrow> ready_list ?k p \<noteq> []"
    proof (cases "prio_ok (thr k t)")
      case True
      then have m: "t_current_priority (thr k t) < 32"
        "t_number_mask (thr k t) = push_bit (t_current_priority (thr k t)) 1" by (auto simp: prio_ok_def)
      have len: "bit (k_ready_group k) p \<Longrightarrow> p < 32" using bit_imp_le_length[of "k_ready_group k" p] by simp
      show ?thesis
      proof (cases "p = t_current_priority (thr k t)")
        case True
        then show ?thesis
          using b[of p] m by (auto simp: remove_thread_ready bit_and_iff bit_not_iff bit_push_one)
      next
        case False
        then show ?thesis
          using b[of p] oth[of p] m(2) len
          by (auto simp: remove_thread_ready bit_and_iff bit_not_iff bit_push_one[OF m(1)])
      qed
    next
      case False
      then have "t_number_mask (thr k t) = 0" "remove1 t (ready_list k p) = ready_list k p"
        using ok in_ready[of p] by (auto intro: remove1_idem)
      then show ?thesis using b by (simp add: remove_thread_ready)
    qed
  qed
  have ti: "thread_inv ?k u" if "u \<notin> insert t T" for u
  proof -
    have "u \<noteq> t" "thread_inv k u" using that I(3) by auto
    then show ?thesis by (simp add: thread_inv_def)
  qed
  have ul: "unlinked ?k u" if "u \<in> insert t T" for u
    using that I(4)[of u] unlinked_remove[OF I(1), of t]
    by (auto simp: unlinked_def dest: notin_set_remove1)
  from tl bm ti ul show ?thesis by (simp add: sched_inv_ex_def)
qed

lemma insert_thread_ready:
  "k_ready_group (rt_schedule_insert_thread t k) =
     (if k_current k = Some t then k_ready_group k else k_ready_group k OR t_number_mask (thr k t))"
  by (simp add: rt_schedule_insert_thread_def tlist_append_def Let_def)

lemma insert_thread_ex:
  assumes inv: "sched_inv_ex T k" and t: "t \<in> T" and ok: "prio_ok (thr k t)"
  shows "sched_inv_ex (T - {t}) (rt_schedule_insert_thread t k)" (is "sched_inv_ex _ ?k")
proof (cases "k_current k = Some t")
  case True
  note I = sched_inv_exD[OF inv]
  have "?k = upd_thr t (t_stat_update (\<lambda>_. RT_THREAD_RUNNING)) k"
    using True by (simp add: rt_schedule_insert_thread_def)
  then have i: "sched_inv_ex T ?k" using sched_inv_ex_upd[OF inv t] by simp
  have "thread_inv ?k t"
    by (rule thread_inv_unlinked) (use True I(4)[OF t] ok in \<open>auto simp: unlinked_def prio_ok_def\<close>)
  with i show ?thesis by (rule sched_inv_ex_settle)
next
  case False
  note I = sched_inv_exD[OF inv]
  let ?p = "t_current_priority (thr k t)"
  have m: "?p < 32" "t_number_mask (thr k t) = push_bit ?p 1" using ok by (auto simp: prio_ok_def)
  have un: "t \<notin> set (k_lists k h)" for h using I(4)[OF t] by (simp add: unlinked_def)
  have tl: "tlist_inv ?k"
    using I(1) un False by (simp add: tlist_inv_def lists_ok_append)
  have bm: "bitmap_inv ?k"
    unfolding bitmap_inv_def
  proof
    fix p
    have "bit (k_ready_group k) p \<longleftrightarrow> ready_list k p \<noteq> []" using I(2) by (simp add: bitmap_inv_def)
    then show "bit (k_ready_group ?k) p \<longleftrightarrow> ready_list ?k p \<noteq> []"
      using False by (simp add: insert_thread_ready bit_or_iff m(2) bit_push_one[OF m(1)])
  qed
  have ti: "thread_inv ?k u" if "u \<notin> T - {t}" for u
  proof (cases "u = t")
    case True
    have h: "h = Ready ?p" if "t \<in> set (k_lists ?k h)" for h
      using that un[of h] False by (auto split: if_splits)
    have s: "t_stat (thr ?k t) = RT_THREAD_READY" "t_current_priority (thr ?k t) = ?p"
      "prio_ok (thr ?k t)" "t \<in> set (ready_list ?k ?p)"
      using False ok by (simp_all add: prio_ok_def)
    have "\<forall>h. t \<in> set (k_lists ?k h) \<longrightarrow> t_stat (thr ?k t) = stat_of_list h"
    proof (intro allI impI)
      fix h assume "t \<in> set (k_lists ?k h)"
      from h[OF this] s(1) show "t_stat (thr ?k t) = stat_of_list h" by simp
    qed
    moreover have "\<forall>p. t \<in> set (ready_list ?k p) \<longrightarrow> p = ?p"
    proof (intro allI impI)
      fix p assume "t \<in> set (ready_list ?k p)"
      from h[OF this] show "p = ?p" by simp
    qed
    ultimately show ?thesis unfolding True thread_inv_def s(2) using s(1,3,4) by simp
  next
    case u: False
    then have "thread_inv k u" using that I(3) by simp
    then show ?thesis using u False by (auto simp: thread_inv_def)
  qed
  have ul: "unlinked ?k u" if "u \<in> T - {t}" for u
    using that I(4)[of u] False by (auto simp: unlinked_def)
  from tl bm ti ul show ?thesis by (simp add: sched_inv_ex_def)
qed

section \<open>The choice of the next thread\<close>

lemma highest_ready:
  assumes inv: "sched_inv_ex T k" and g: "k_ready_group k \<noteq> 0"
  obtains t p where "get_highest_priority_thread k = Some (t, p)" "p < 32"
    "t = hd (ready_list k p)" "t \<in> set (ready_list k p)"
    "\<And>q. q < p \<Longrightarrow> ready_list k q = []"
proof -
  from rt_ffs_lowest[OF g] obtain m where m: "m < 32" "rt_ffs (k_ready_group k) = m + 1"
    "bit (k_ready_group k) m" "\<forall>j<m. \<not> bit (k_ready_group k) j" by blast
  have b: "bit (k_ready_group k) q \<longleftrightarrow> ready_list k q \<noteq> []" for q
    using sched_inv_exD(2)[OF inv] by (simp add: bitmap_inv_def)
  from m(3) b obtain t ts where ts: "ready_list k m = t # ts" by (metis neq_Nil_conv)
  show ?thesis
    by (rule that[of t m]) (use m b ts in \<open>auto simp: get_highest_priority_thread_def\<close>)
qed

lemma empty_group:
  "sched_inv_ex T k \<Longrightarrow> k_ready_group k = 0 \<Longrightarrow> ready_list k p = []"
  using sched_inv_exD(2)[of T k] by (auto simp: bitmap_inv_def)

section \<open>Scheduling keeps the invariant\<close>

lemma set_running_ex:
  assumes "sched_inv_ex T k" "t \<in> T" "k_current k = Some t" "prio_ok (thr k t)"
  shows "sched_inv_ex (T - {t}) (upd_thr t (t_stat_update (\<lambda>_. RT_THREAD_RUNNING)) k)"
proof -
  let ?k = "upd_thr t (t_stat_update (\<lambda>_. RT_THREAD_RUNNING)) k"
  have "thread_inv ?k t"
    by (rule thread_inv_unlinked)
      (use sched_inv_exD(4)[OF assms(1,2)] assms(3,4) in \<open>auto simp: unlinked_def prio_ok_def\<close>)
  then show ?thesis using sched_inv_ex_settle[OF sched_inv_ex_upd[OF assms(1,2)]] by blast
qed

text \<open>The switch itself: \<open>cur\<close> goes back to the ready table if it was running, \<open>to\<close> leaves it.\<close>

definition switch_to :: "nat \<Rightarrow> nat \<Rightarrow> nat \<Rightarrow> kernel \<Rightarrow> kernel" where
  "switch_to cur to p k =
     (let k1 = k\<lparr>k_current_priority := p, k_current := Some to\<rparr>;
          k2 = (if t_stat (thr k cur) = RT_THREAD_RUNNING then rt_schedule_insert_thread cur k1 else k1)
      in upd_thr to (t_stat_update (\<lambda>_. RT_THREAD_RUNNING)) (rt_schedule_remove_thread to k2))"

lemma switch_to_inv:
  assumes inv: "sched_inv k" and cur: "k_current k = Some cur"
    and to: "to \<in> set (ready_list k p)" "to \<noteq> cur"
  shows "sched_inv (switch_to cur to p k)"
proof -
  let ?k1 = "k\<lparr>k_current_priority := p, k_current := Some to\<rparr>"
  let ?k2 = "if t_stat (thr k cur) = RT_THREAD_RUNNING then rt_schedule_insert_thread cur ?k1 else ?k1"
  note i0 = inv[unfolded sched_inv_def]
  have ti: "thread_inv k t" for t using sched_inv_exD(3)[OF i0] by simp
  have run: "t_stat (thr k t) = RT_THREAD_RUNNING \<Longrightarrow> t = cur" for t
    using thread_invD(5)[OF ti, of t] cur by simp
  have k2: "sched_inv_ex {} ?k2"
  proof (cases "t_stat (thr k cur) = RT_THREAD_RUNNING")
    case True
    have "sched_inv_ex {cur} k"
      using sched_inv_ex_weaken[OF i0 running_unlinked[OF ti True]] by simp
    then have "sched_inv_ex {cur} ?k1"
      by (rule sched_inv_ex_current) (use run in auto)
    moreover have "prio_ok (thr ?k1 cur)"
      using thread_invD(4)[OF ti, of cur] True by (simp add: live_stat_def)
    ultimately have "sched_inv_ex ({cur} - {cur}) (rt_schedule_insert_thread cur ?k1)"
      by (intro insert_thread_ex) auto
    then show ?thesis using True by simp
  next
    case False
    have "sched_inv_ex {} ?k1"
      by (rule sched_inv_ex_current[OF i0]) (use run False in auto)
    then show ?thesis using False by simp
  qed
  have thto: "thr ?k2 to = thr k to" using to(2) by simp
  have ok: "prio_ok (thr k to)" using ready_prio_ok(2)[OF i0 to(1)] .
  have k3: "sched_inv_ex {to} (rt_schedule_remove_thread to ?k2)"
    by (rule remove_thread_ex[OF k2]) (simp only: thto ok simp_thms)
  have cur2: "k_current ?k2 = Some to" by simp
  have "sched_inv_ex ({to} - {to}) (upd_thr to (t_stat_update (\<lambda>_. RT_THREAD_RUNNING))
      (rt_schedule_remove_thread to ?k2))"
    by (rule set_running_ex[OF k3]) (simp_all only: remove_thread_sel cur2 thto ok insertI1)
  then show ?thesis by (simp add: sched_inv_def switch_to_def Let_def)
qed

text \<open>All outcomes of \<^verbatim>\<open>rt_schedule\<close> from a state that satisfies the invariant.\<close>

lemma rt_schedule_cases:
  assumes inv: "sched_inv k" and cur: "k_current k = Some cur"
  obtains (locked) "k_lock_nest k \<noteq> 0" "rt_schedule k = Some k"
  | (idle) "k_lock_nest k = 0" "k_ready_group k = 0" "rt_schedule k = Some k"
  | (stay) p where "k_lock_nest k = 0" "t_stat (thr k cur) = RT_THREAD_RUNNING"
      "t_current_priority (thr k cur) < p" "\<And>q. q < p \<Longrightarrow> ready_list k q = []"
      "rt_schedule k = Some (upd_thr cur (t_stat_update (\<lambda>_. RT_THREAD_RUNNING))
         (rt_schedule_remove_thread cur k))"
  | (self) "k_lock_nest k = 0" "t_stat (thr k cur) = RT_THREAD_READY"
  | (switch) to p where "k_lock_nest k = 0" "to = hd (ready_list k p)" "to \<in> set (ready_list k p)"
      "to \<noteq> cur" "p < 32" "\<And>q. q < p \<Longrightarrow> ready_list k q = []"
      "t_stat (thr k cur) = RT_THREAD_RUNNING \<Longrightarrow> p \<le> t_current_priority (thr k cur)"
      "rt_schedule k = (case rt_scheduler_stack_check (thr k to) of
          None \<Rightarrow> None | Some _ \<Rightarrow> Some (switch_to cur to p k))"
proof (cases "k_lock_nest k = 0 \<and> k_ready_group k \<noteq> 0")
  case False
  then show ?thesis using locked idle by (cases "k_lock_nest k = 0") (auto simp: rt_schedule_def)
next
  case True
  note i0 = inv[unfolded sched_inv_def]
  from True highest_ready[OF i0] obtain t p where h:
    "get_highest_priority_thread k = Some (t, p)" "p < 32" "t = hd (ready_list k p)"
    "t \<in> set (ready_list k p)" "\<And>q. q < p \<Longrightarrow> ready_list k q = []" by blast
  show ?thesis
  proof (cases "t_stat (thr k cur) = RT_THREAD_RUNNING \<and> t_current_priority (thr k cur) < p")
    case s: True
    then show ?thesis
      using stay[of p] True h cur by (auto simp: rt_schedule_def Let_def)
  next
    case s: False
    show ?thesis
    proof (cases "t = cur")
      case True': True
      with h ready_prio_ok(3)[OF i0 h(4)] self True show ?thesis by simp
    next
      case False
      have th: "thr (switch_to cur t p k) t = (thr k t)\<lparr>t_stat := RT_THREAD_RUNNING\<rparr>"
        using False by (simp add: switch_to_def Let_def)
      have st: "rt_scheduler_stack_check ((thr k t)\<lparr>t_stat := RT_THREAD_RUNNING\<rparr>) =
          rt_scheduler_stack_check (thr k t)" by (simp add: rt_scheduler_stack_check_def)
      have "rt_schedule k = (case rt_scheduler_stack_check (thr (switch_to cur t p k) t) of
          None \<Rightarrow> None | Some _ \<Rightarrow> Some (switch_to cur t p k))"
        using True h(1) cur s False
        by (auto simp: rt_schedule_def Let_def switch_to_def bind_eq_Some_conv split: option.splits)
      then show ?thesis using switch[of t p] True h s False th st by (auto simp: not_less)
    qed
  qed
qed

lemma rt_schedule_inv:
  assumes inv: "sched_inv k" "current_inv k" and cur: "k_current k = Some cur"
    and r: "rt_schedule k = Some k'"
  shows "sched_inv k' \<and> current_inv k'"
proof -
  note i0 = inv(1)[unfolded sched_inv_def]
  have cr: "t_stat (thr k cur) \<noteq> RT_THREAD_READY" using inv(2) cur by (simp add: current_inv_def)
  from inv(1) cur show ?thesis
  proof (cases rule: rt_schedule_cases)
    case (stay p)
    have ok: "prio_ok (thr k cur)"
      using stay(2) sched_inv_exD(3)[OF i0, of cur] by (simp add: thread_inv_def live_stat_def)
    have "sched_inv_ex {cur} (rt_schedule_remove_thread cur k)"
      using remove_thread_ex[OF i0] ok by auto
    from set_running_ex[OF this] ok cur r stay(5)
    show ?thesis by (auto simp: sched_inv_def current_inv_def)
  next
    case (switch to p)
    from switch(8) r have k': "k' = switch_to cur to p k" by (auto split: option.splits)
    have "current_inv k'" using switch(4) by (simp add: k' current_inv_def switch_to_def Let_def)
    then show ?thesis using switch_to_inv[OF inv(1) cur switch(3,4)] k' by simp
  qed (use inv r cr in auto)
qed

text \<open>Nothing but the thread table, the lists, the bitmap and the current thread changes.\<close>

lemma switch_to_frame [simp]:
  "k_timers (switch_to c t p k) = k_timers k" "k_timer_list (switch_to c t p k) = k_timer_list k"
  "k_objects (switch_to c t p k) = k_objects k" "k_containers (switch_to c t p k) = k_containers k"
  "k_tick (switch_to c t p k) = k_tick k" "k_sems (switch_to c t p k) = k_sems k"
  "k_mutexes (switch_to c t p k) = k_mutexes k" "k_events (switch_to c t p k) = k_events k"
  "k_mbs (switch_to c t p k) = k_mbs k" "k_mqs (switch_to c t p k) = k_mqs k"
  "k_lock_nest (switch_to c t p k) = k_lock_nest k"
  "k_interrupt_nest (switch_to c t p k) = k_interrupt_nest k"
  "k_current (switch_to c t p k) = Some t"
  by (simp_all add: switch_to_def Let_def)

definition same_objects :: "kernel \<Rightarrow> kernel \<Rightarrow> bool" where
  "same_objects k k' \<longleftrightarrow>
     k_timers k' = k_timers k \<and> k_timer_list k' = k_timer_list k \<and>
     k_objects k' = k_objects k \<and> k_containers k' = k_containers k \<and> k_tick k' = k_tick k \<and>
     k_sems k' = k_sems k \<and> k_mutexes k' = k_mutexes k \<and> k_events k' = k_events k \<and>
     k_mbs k' = k_mbs k \<and> k_mqs k' = k_mqs k \<and> k_lock_nest k' = k_lock_nest k \<and>
     k_interrupt_nest k' = k_interrupt_nest k"

lemma rt_schedule_frame: "rt_schedule k = Some k' \<Longrightarrow> same_objects k k'"
  by (auto simp: rt_schedule_def same_objects_def Let_def bind_eq_Some_conv split: if_splits)

end
