(* ===== verification/Kernel_Object.thy ===== *)
theory Kernel_Object
  imports Scheduler
begin

text \<open>
  \<^verbatim>\<open>src/object.c\<close>: registration of kernel objects in the per-class containers. Container lists are
  kept in list order; \<^verbatim>\<open>rt_list_insert_after\<close> on the head puts a new object first.
\<close>

section \<open>Operations\<close>

text \<open>The classes that \<^verbatim>\<open>rt_object_container\<close> has an entry for in this configuration.\<close>

definition container_classes :: "rt_object_class_type list" where
  "container_classes =
     [RT_Object_Class_Thread, RT_Object_Class_Semaphore, RT_Object_Class_Mutex,
      RT_Object_Class_Event, RT_Object_Class_MailBox, RT_Object_Class_MessageQueue,
      RT_Object_Class_MemHeap, RT_Object_Class_MemPool, RT_Object_Class_Device,
      RT_Object_Class_Timer]"

definition rt_object_get_information :: "rt_object_class_type \<Rightarrow> rt_object_class_type option" where
  "rt_object_get_information cls = List.find (\<lambda>c. c = cls) container_classes"

definition rt_object_get_type :: "kernel \<Rightarrow> object_id \<Rightarrow> rt_object_class_type" where
  "rt_object_get_type k ob = o_type (k_objects k ob)"

definition rt_object_is_systemobject :: "kernel \<Rightarrow> object_id \<Rightarrow> bool" where
  "rt_object_is_systemobject k ob = o_static (k_objects k ob)"

definition object_attach :: "object_id \<Rightarrow> rt_object \<Rightarrow> kernel \<Rightarrow> kernel" where
  "object_attach ob info k =
     k\<lparr>k_objects := (k_objects k)(ob := info),
       k_containers := (k_containers k)(o_type info := ob # k_containers k (o_type info))\<rparr>"

text \<open>
  The search under the scheduler lock only asserts that the object is not already registered;
  leaving the critical section may switch threads.
\<close>

definition rt_object_init :: "object_id \<Rightarrow> rt_object_class_type \<Rightarrow> string \<Rightarrow> kernel \<Rightarrow> kernel option" where
  "rt_object_init ob cls name k = do {
     info \<leftarrow> rt_object_get_information cls;
     let k = rt_enter_critical k;
     rt_assert (ob \<notin> set (k_containers k info));
     k \<leftarrow> rt_exit_critical k;
     Some (object_attach ob
       \<lparr>o_name = take RT_NAME_MAX name, o_type = cls, o_static = True\<rparr> k) }"

text \<open>\<^verbatim>\<open>type = 0\<close> is the null class without the static bit.\<close>

definition rt_object_detach :: "object_id \<Rightarrow> kernel \<Rightarrow> kernel" where
  "rt_object_detach ob k =
     k\<lparr>k_objects := (k_objects k)(ob := (k_objects k ob)\<lparr>o_type := RT_Object_Class_Null,
                                                         o_static := False\<rparr>),
       k_containers := (\<lambda>c. remove1 ob (k_containers k c))\<rparr>"

text \<open>\<open>mem\<close> is the allocator's answer: the identity of the new block, or nothing.\<close>

definition rt_object_allocate ::
  "object_id option \<Rightarrow> rt_object_class_type \<Rightarrow> string \<Rightarrow> kernel \<Rightarrow> (kernel \<times> object_id option) option" where
  "rt_object_allocate mem cls name k = do {
     rt_debug_not_in_interrupt k;
     info \<leftarrow> rt_object_get_information cls;
     (case mem of
        None \<Rightarrow> Some (k, None)
      | Some ob \<Rightarrow> Some (object_attach ob
          \<lparr>o_name = take RT_NAME_MAX name, o_type = cls, o_static = False\<rparr> k, Some ob)) }"

text \<open>The block goes back to the allocator, which is outside this state.\<close>

definition rt_object_delete :: "object_id \<Rightarrow> kernel \<Rightarrow> kernel option" where
  "rt_object_delete ob k = do {
     rt_assert (\<not> o_static (k_objects k ob));
     Some (rt_object_detach ob k) }"

text \<open>\<^verbatim>\<open>rt_strncmp(object->name, name, RT_NAME_MAX) == 0\<close> compares the first eight characters.\<close>

definition name_matches :: "rt_object \<Rightarrow> string \<Rightarrow> bool" where
  "name_matches info name \<longleftrightarrow> take RT_NAME_MAX (o_name info) = take RT_NAME_MAX name"

definition rt_object_find :: "string \<Rightarrow> rt_object_class_type \<Rightarrow> kernel \<Rightarrow> (kernel \<times> object_id option) option" where
  "rt_object_find name cls k = do {
     rt_debug_not_in_interrupt k;
     let k = rt_enter_critical k;
     info \<leftarrow> rt_object_get_information cls;
     (let found = List.find (\<lambda>ob. name_matches (k_objects k ob) name) (k_containers k info) in
      do { k \<leftarrow> rt_exit_critical k; Some (k, found) }) }"

section \<open>The registry invariant\<close>

text \<open>The class an identifier belongs to.\<close>

fun class_of :: "object_id \<Rightarrow> rt_object_class_type" where
  "class_of (OThread t) = RT_Object_Class_Thread"
| "class_of (OSem s) = RT_Object_Class_Semaphore"
| "class_of (OMutex m) = RT_Object_Class_Mutex"
| "class_of (OEvent e) = RT_Object_Class_Event"
| "class_of (OMailBox b) = RT_Object_Class_MailBox"
| "class_of (OMq q) = RT_Object_Class_MessageQueue"
| "class_of (OMemPool p) = RT_Object_Class_MemPool"
| "class_of (OMemHeap p) = RT_Object_Class_MemHeap"
| "class_of (ODevice d) = RT_Object_Class_Device"
| "class_of (OTimer tm) = RT_Object_Class_Timer"

lemma class_of_not_null [simp]: "class_of ob \<noteq> RT_Object_Class_Null"
  by (cases ob) simp_all

text \<open>An object is in the container of its type and in no other, at most once, and is registered
  under its own class only.\<close>

definition registry_inv :: "kernel \<Rightarrow> bool" where
  "registry_inv k \<longleftrightarrow> (\<forall>c. distinct (k_containers k c)) \<and> k_containers k RT_Object_Class_Null = [] \<and>
     (\<forall>c ob. c \<noteq> RT_Object_Class_Null \<longrightarrow>
        (ob \<in> set (k_containers k c) \<longleftrightarrow> o_type (k_objects k ob) = c)) \<and>
     (\<forall>ob. o_type (k_objects k ob) = RT_Object_Class_Null \<or> o_type (k_objects k ob) = class_of ob)"

lemma get_information_iff:
  "rt_object_get_information c = (if c \<in> set container_classes then Some c else None)"
  by (cases c) (simp_all add: rt_object_get_information_def container_classes_def)

lemma registry_inv_attach:
  assumes "registry_inv k" "ob \<notin> set (k_containers k (class_of ob))" "o_type info = class_of ob"
  shows "registry_inv (object_attach ob info k)"
proof -
  have "o_type (k_objects k ob) = RT_Object_Class_Null"
    using assms(1,2) unfolding registry_inv_def by (metis class_of_not_null)
  then show ?thesis using assms by (auto simp: registry_inv_def object_attach_def)
qed

lemma registry_inv_detach:
  assumes "registry_inv k"
  shows "registry_inv (rt_object_detach ob k)"
  using assms by (auto simp: registry_inv_def rt_object_detach_def dest: notin_set_remove1)

lemma registry_inv_cong:
  "k_objects k' = k_objects k \<Longrightarrow> k_containers k' = k_containers k \<Longrightarrow> registry_inv k' = registry_inv k"
  by (simp add: registry_inv_def)

lemma rt_exit_critical_frame:
  assumes "rt_exit_critical k = Some k'"
  shows "k_objects k' = k_objects k \<and> k_containers k' = k_containers k \<and> k_timers k' = k_timers k \<and>
    k_timer_list k' = k_timer_list k \<and> k_tick k' = k_tick k"
  using assms rt_schedule_frame
  by (fastforce simp: rt_exit_critical_def Let_def same_objects_def split: if_splits)

lemma exit_critical_result:
  assumes "rt_exit_critical k = Some k'"
  obtains n where "k' = k\<lparr>k_lock_nest := n\<rparr>"
  | n c where "k_current k = Some c" "rt_schedule (k\<lparr>k_lock_nest := n\<rparr>) = Some k'"
  using assms by (auto simp: rt_exit_critical_def Let_def split: if_splits)

lemma object_init_result:
  assumes "rt_object_init ob cls name k = Some k'"
  obtains k1 where "rt_exit_critical (rt_enter_critical k) = Some k1"
    "ob \<notin> set (k_containers k cls)" "cls \<in> set container_classes"
    "k' = object_attach ob \<lparr>o_name = take RT_NAME_MAX name, o_type = cls, o_static = True\<rparr> k1"
  using assms by (auto simp: rt_object_init_def get_information_iff bind_eq_Some_conv rt_enter_critical_def
      Let_def split: if_splits)

lemma object_attach_sel [simp]:
  "k_threads (object_attach ob i k) = k_threads k" "k_lists (object_attach ob i k) = k_lists k"
  "k_current (object_attach ob i k) = k_current k" "k_timers (object_attach ob i k) = k_timers k"
  "k_ready_group (object_attach ob i k) = k_ready_group k"
  "k_timer_list (object_attach ob i k) = k_timer_list k" "k_tick (object_attach ob i k) = k_tick k"
  "k_objects (object_attach ob i k) = (k_objects k)(ob := i)"
  "k_sems (object_attach ob i k) = k_sems k" "k_mutexes (object_attach ob i k) = k_mutexes k"
  "k_events (object_attach ob i k) = k_events k" "k_mbs (object_attach ob i k) = k_mbs k"
  "k_mqs (object_attach ob i k) = k_mqs k" "k_lock_nest (object_attach ob i k) = k_lock_nest k"
  "k_interrupt_nest (object_attach ob i k) = k_interrupt_nest k"
  by (simp_all add: object_attach_def)

end
