(* ===== verification/Timer.thy ===== *)
theory Timer
  imports Kernel_Object
begin

text \<open>
  \<^verbatim>\<open>src/timer.c\<close> without the check loop (theory \<^verbatim>\<open>Clock\<close>, which needs the thread timeout): the
  timer list of the tick interrupt, with \<^verbatim>\<open>RT_TIMER_SKIP_LIST_LEVEL\<close> 1 and no soft timers. Ticks
  are 32-bit words and every comparison of the code is on their wrapped difference.
\<close>

section \<open>Operations\<close>

datatype timer_cmd =
  RT_TIMER_CTRL_SET_TIME | RT_TIMER_CTRL_GET_TIME | RT_TIMER_CTRL_SET_ONESHOT | RT_TIMER_CTRL_SET_PERIODIC

text \<open>\<^verbatim>\<open>flag\<close> has \<^verbatim>\<open>RT_TIMER_FLAG_PERIODIC\<close> 2 and \<^verbatim>\<open>RT_TIMER_FLAG_SOFT_TIMER\<close> 4. The row node is
  initialised as a list of its own: the timer is in no list.\<close>

definition timer_init :: "timer_id \<Rightarrow> timeout_func \<Rightarrow> rt_tick_t \<Rightarrow> u8 \<Rightarrow> kernel \<Rightarrow> kernel" where
  "timer_init tm f time flag k =
     upd_timer tm (\<lambda>_. \<lparr>tm_activated = False, tm_periodic = bit flag 1, tm_soft = bit flag 2,
        tm_func = f, tm_init_tick = time, tm_timeout_tick = 0\<rparr>) k"

definition rt_timer_init ::
  "timer_id \<Rightarrow> string \<Rightarrow> timeout_func \<Rightarrow> rt_tick_t \<Rightarrow> u8 \<Rightarrow> kernel \<Rightarrow> kernel option" where
  "rt_timer_init tm name f time flag k = do {
     k \<leftarrow> rt_object_init (OTimer tm) RT_Object_Class_Timer name k;
     Some (timer_init tm f time flag k) }"

definition timer_remove :: "timer_id \<Rightarrow> kernel \<Rightarrow> kernel" where
  "timer_remove tm k = k\<lparr>k_timer_list := remove1 tm (k_timer_list k)\<rparr>"

definition rt_timer_list_next_timeout :: "kernel \<Rightarrow> rt_tick_t" where
  "rt_timer_list_next_timeout k =
     (case k_timer_list k of [] \<Rightarrow> RT_TICK_MAX | tm # _ \<Rightarrow> tm_timeout_tick (k_timers k tm))"

definition rt_timer_next_timeout_tick :: "kernel \<Rightarrow> rt_tick_t" where
  "rt_timer_next_timeout_tick k = rt_timer_list_next_timeout k"

definition rt_timer_detach :: "timer_id \<Rightarrow> kernel \<Rightarrow> kernel option" where
  "rt_timer_detach tm k = do {
     rt_assert (rt_object_get_type k (OTimer tm) = RT_Object_Class_Timer);
     rt_assert (rt_object_is_systemobject k (OTimer tm));
     Some (rt_object_detach (OTimer tm) (timer_remove tm k)) }"

definition rt_timer_create ::
  "timer_id option \<Rightarrow> string \<Rightarrow> timeout_func \<Rightarrow> rt_tick_t \<Rightarrow> u8 \<Rightarrow> kernel \<Rightarrow> (kernel \<times> timer_id option) option" where
  "rt_timer_create mem name f time flag k = do {
     (k, ob) \<leftarrow> rt_object_allocate (map_option OTimer mem) RT_Object_Class_Timer name k;
     (case mem of
        None \<Rightarrow> Some (k, None)
      | Some tm \<Rightarrow> Some (timer_init tm f time flag k, Some tm)) }"

definition rt_timer_delete :: "timer_id \<Rightarrow> kernel \<Rightarrow> kernel option" where
  "rt_timer_delete tm k = do {
     rt_assert (rt_object_get_type k (OTimer tm) = RT_Object_Class_Timer);
     rt_assert (\<not> rt_object_is_systemobject k (OTimer tm));
     rt_object_delete (OTimer tm) (timer_remove tm k) }"

text \<open>
  The scan of \<^verbatim>\<open>rt_timer_start\<close>: go past timers with the same timeout, stop before the first one
  that is later by less than half the tick range.
\<close>

fun timer_insert :: "(timer_id \<Rightarrow> rt_tick_t) \<Rightarrow> timer_id \<Rightarrow> timer_id list \<Rightarrow> timer_id list" where
  "timer_insert due tm [] = [tm]"
| "timer_insert due tm (t # ts) =
     (if due t - due tm = 0 then t # timer_insert due tm ts
      else if due t - due tm < RT_TICK_HALF then tm # t # ts
      else t # timer_insert due tm ts)"

definition rt_timer_start :: "timer_id \<Rightarrow> kernel \<Rightarrow> kernel option" where
  "rt_timer_start tm k = do {
     rt_assert (rt_object_get_type k (OTimer tm) = RT_Object_Class_Timer);
     let k = upd_timer tm (tm_activated_update (\<lambda>_. False)) (timer_remove tm k);
     rt_assert (tm_init_tick (k_timers k tm) < RT_TICK_HALF);
     let k = upd_timer tm (\<lambda>r. r\<lparr>tm_timeout_tick := rt_tick_get k + tm_init_tick r\<rparr>) k;
     let k = k\<lparr>k_timer_list := timer_insert (\<lambda>t. tm_timeout_tick (k_timers k t)) tm (k_timer_list k)\<rparr>;
     Some (upd_timer tm (tm_activated_update (\<lambda>_. True)) k) }"

definition rt_timer_stop :: "timer_id \<Rightarrow> kernel \<Rightarrow> (kernel \<times> int) option" where
  "rt_timer_stop tm k = do {
     rt_assert (rt_object_get_type k (OTimer tm) = RT_Object_Class_Timer);
     (if \<not> tm_activated (k_timers k tm) then Some (k, - RT_ERROR)
      else Some (upd_timer tm (tm_activated_update (\<lambda>_. False)) (timer_remove tm k), RT_EOK)) }"

text \<open>The argument is read by \<^verbatim>\<open>SET_TIME\<close>; \<^verbatim>\<open>GET_TIME\<close> writes it, here the returned tick.\<close>

definition rt_timer_control :: "timer_id \<Rightarrow> timer_cmd \<Rightarrow> rt_tick_t \<Rightarrow> kernel \<Rightarrow> (kernel \<times> rt_tick_t) option" where
  "rt_timer_control tm cmd arg k = do {
     rt_assert (rt_object_get_type k (OTimer tm) = RT_Object_Class_Timer);
     (case cmd of
        RT_TIMER_CTRL_GET_TIME \<Rightarrow> Some (k, tm_init_tick (k_timers k tm))
      | RT_TIMER_CTRL_SET_TIME \<Rightarrow> Some (upd_timer tm (tm_init_tick_update (\<lambda>_. arg)) k, arg)
      | RT_TIMER_CTRL_SET_ONESHOT \<Rightarrow> Some (upd_timer tm (tm_periodic_update (\<lambda>_. False)) k, arg)
      | RT_TIMER_CTRL_SET_PERIODIC \<Rightarrow> Some (upd_timer tm (tm_periodic_update (\<lambda>_. True)) k, arg)) }"

definition rt_system_timer_init :: "kernel \<Rightarrow> kernel" where
  "rt_system_timer_init k = k\<lparr>k_timer_list := []\<rparr>"

end
