(* ===== verification/Thread.thy ===== *)
theory Thread
  imports Timer
begin

text \<open>
  \<^verbatim>\<open>src/thread.c\<close> and the part of \<^verbatim>\<open>src/clock.c\<close> it uses. A call that gives up the processor is
  followed, when the thread runs again, by the rest of its body: \<open>rt_thread_sleep_resume\<close> is what
  \<^verbatim>\<open>rt_thread_sleep\<close> does after its \<^verbatim>\<open>rt_schedule()\<close>. Entry functions and hooks are not modelled; a
  clean-up function is an identifier.
\<close>

section \<open>Operations\<close>

text \<open>
  \<^verbatim>\<open>rt_hw_stack_init\<close> of \<^verbatim>\<open>libcpu/arm/cortex-m4/cpuport.c\<close>: the address of the initial frame. With
  the floating-point unit the frame has 17 words. Register values are not modelled.
\<close>

definition stack_frame_size :: nat where "stack_frame_size = 68"

definition rt_hw_stack_init :: "nat \<Rightarrow> nat" where
  "rt_hw_stack_init stack_addr = RT_ALIGN_DOWN (stack_addr + 4) 8 - stack_frame_size"

text \<open>\<^verbatim>\<open>_rt_thread_init\<close>. Filling the stack with \<^verbatim>\<open>'#'\<close> sets its first byte, which the overflow
  check reads. The thread's list node is initialised; it is in no list (a registered object is
  refused before).\<close>

definition thread_init :: "nat \<Rightarrow> nat \<Rightarrow> nat \<Rightarrow> u8 \<Rightarrow> u32 \<Rightarrow> kernel \<Rightarrow> kernel option" where
  "thread_init t stack_start stack_size priority tick k = do {
     let k = upd_thr t (\<lambda>th. th\<lparr>t_stack_addr := stack_start, t_stack_size := stack_size,
        t_magic := (if 0 < stack_size then 35 else t_magic th),
        t_sp := rt_hw_stack_init (stack_start + stack_size - 4)\<rparr>) k;
     rt_assert (unat priority < RT_THREAD_PRIORITY_MAX);
     let k = upd_thr t (\<lambda>th. th\<lparr>t_init_priority := unat priority,
        t_current_priority := unat priority, t_number_mask := 0,
        t_init_tick := tick, t_remaining_tick := tick,
        t_error := RT_EOK, t_stat := RT_THREAD_INIT, t_cleanup := None\<rparr>) k;
     rt_timer_init (ThreadTimer t) (o_name (k_objects k (OThread t))) (Rt_Thread_Timeout t) 0 0 k }"

definition rt_thread_init ::
  "nat \<Rightarrow> string \<Rightarrow> nat \<Rightarrow> nat \<Rightarrow> u8 \<Rightarrow> u32 \<Rightarrow> kernel \<Rightarrow> kernel option" where
  "rt_thread_init t name stack_start stack_size priority tick k = do {
     rt_assert (stack_start \<noteq> 0);
     k \<leftarrow> rt_object_init (OThread t) RT_Object_Class_Thread name k;
     thread_init t stack_start stack_size priority tick k }"

text \<open>\<open>mem\<close> and \<open>stack\<close> are the answers of the allocator.\<close>

definition rt_thread_create ::
  "nat option \<Rightarrow> nat option \<Rightarrow> string \<Rightarrow> nat \<Rightarrow> u8 \<Rightarrow> u32 \<Rightarrow> kernel \<Rightarrow> (kernel \<times> nat option) option" where
  "rt_thread_create mem stack name stack_size priority tick k = do {
     (k, ob) \<leftarrow> rt_object_allocate (map_option OThread mem) RT_Object_Class_Thread name k;
     (case mem of
        None \<Rightarrow> Some (k, None)
      | Some t \<Rightarrow>
         (case stack of
            None \<Rightarrow> do { k \<leftarrow> rt_object_delete (OThread t) k; Some (k, None) }
          | Some stack_start \<Rightarrow> do {
              k \<leftarrow> thread_init t stack_start stack_size priority tick k;
              Some (k, Some t) })) }"

definition rt_thread_resume :: "nat \<Rightarrow> kernel \<Rightarrow> (kernel \<times> int) option" where
  "rt_thread_resume t k = do {
     rt_assert (rt_object_get_type k (OThread t) = RT_Object_Class_Thread);
     if t_stat (thr k t) \<noteq> RT_THREAD_SUSPEND then Some (k, - RT_ERROR)
     else do {
       let k = tlist_remove t k;
       (k, _) \<leftarrow> rt_timer_stop (ThreadTimer t) k;
       Some (rt_schedule_insert_thread t k, RT_EOK) } }"

definition rt_thread_suspend :: "nat \<Rightarrow> kernel \<Rightarrow> (kernel \<times> int) option" where
  "rt_thread_suspend t k = do {
     rt_assert (rt_object_get_type k (OThread t) = RT_Object_Class_Thread);
     let stat = t_stat (thr k t);
     if stat \<noteq> RT_THREAD_READY \<and> stat \<noteq> RT_THREAD_RUNNING then Some (k, - RT_ERROR)
     else do {
       rt_assert (stat = RT_THREAD_RUNNING \<longrightarrow> rt_thread_self k = Some t);
       let k = upd_thr t (t_stat_update (\<lambda>_. RT_THREAD_SUSPEND)) (rt_schedule_remove_thread t k);
       (k, _) \<leftarrow> rt_timer_stop (ThreadTimer t) k;
       Some (k, RT_EOK) } }"

definition rt_thread_startup :: "nat \<Rightarrow> kernel \<Rightarrow> kernel option" where
  "rt_thread_startup t k = do {
     rt_assert (t_stat (thr k t) = RT_THREAD_INIT);
     rt_assert (rt_object_get_type k (OThread t) = RT_Object_Class_Thread);
     let k = upd_thr t (\<lambda>th. th\<lparr>t_current_priority := t_init_priority th,
        t_number_mask := push_bit (t_init_priority th) 1, t_stat := RT_THREAD_SUSPEND\<rparr>) k;
     (k, _) \<leftarrow> rt_thread_resume t k;
     if rt_thread_self k \<noteq> None then rt_schedule k else Some k }"

text \<open>A static thread without clean-up leaves the registry at once; any other waits for the idle
  thread in \<^verbatim>\<open>rt_thread_defunct\<close>.\<close>

definition release_thread :: "nat \<Rightarrow> kernel \<Rightarrow> kernel" where
  "release_thread t k =
     (if rt_object_is_systemobject k (OThread t) \<and> t_cleanup (thr k t) = None
      then rt_object_detach (OThread t) k
      else tlist_push Defunct t k)"

definition rt_thread_exit :: "kernel \<Rightarrow> kernel option" where
  "rt_thread_exit k = do {
     t \<leftarrow> rt_thread_self k;
     let k = upd_thr t (t_stat_update (\<lambda>_. RT_THREAD_CLOSE)) (rt_schedule_remove_thread t k);
     k \<leftarrow> rt_timer_detach (ThreadTimer t) k;
     rt_schedule (release_thread t k) }"

definition rt_thread_detach :: "nat \<Rightarrow> kernel \<Rightarrow> kernel option" where
  "rt_thread_detach t k = do {
     rt_assert (rt_object_get_type k (OThread t) = RT_Object_Class_Thread);
     rt_assert (rt_object_is_systemobject k (OThread t));
     let k = (if t_stat (thr k t) \<noteq> RT_THREAD_INIT then rt_schedule_remove_thread t k else k);
     k \<leftarrow> rt_timer_detach (ThreadTimer t) k;
     Some (release_thread t (upd_thr t (t_stat_update (\<lambda>_. RT_THREAD_CLOSE)) k)) }"

definition rt_thread_delete :: "nat \<Rightarrow> kernel \<Rightarrow> kernel option" where
  "rt_thread_delete t k = do {
     rt_assert (rt_object_get_type k (OThread t) = RT_Object_Class_Thread);
     rt_assert (\<not> rt_object_is_systemobject k (OThread t));
     let k = (if t_stat (thr k t) \<noteq> RT_THREAD_INIT then rt_schedule_remove_thread t k else k);
     k \<leftarrow> rt_timer_detach (ThreadTimer t) k;
     Some (tlist_push Defunct t (upd_thr t (t_stat_update (\<lambda>_. RT_THREAD_CLOSE)) k)) }"

definition rt_thread_yield :: "kernel \<Rightarrow> kernel option" where
  "rt_thread_yield k = rt_schedule k"

definition rt_thread_sleep :: "rt_tick_t \<Rightarrow> kernel \<Rightarrow> kernel option" where
  "rt_thread_sleep tick k = do {
     t \<leftarrow> rt_thread_self k;
     rt_assert (rt_object_get_type k (OThread t) = RT_Object_Class_Thread);
     (k, _) \<leftarrow> rt_thread_suspend t k;
     (k, _) \<leftarrow> rt_timer_control (ThreadTimer t) RT_TIMER_CTRL_SET_TIME tick k;
     k \<leftarrow> rt_timer_start (ThreadTimer t) k;
     rt_schedule k }"

definition rt_thread_sleep_resume :: "nat \<Rightarrow> kernel \<Rightarrow> kernel" where
  "rt_thread_sleep_resume t k =
     (if t_error (thr k t) = - RT_ETIMEOUT then upd_thr t (t_error_update (\<lambda>_. RT_EOK)) k else k)"

definition rt_thread_delay :: "rt_tick_t \<Rightarrow> kernel \<Rightarrow> kernel option" where
  "rt_thread_delay tick k = rt_thread_sleep tick k"

text \<open>\<^verbatim>\<open>RT_WAITING_FOREVER\<close> is -1. The divisions are on non-negative C integers.\<close>

definition rt_tick_from_millisecond :: "int \<Rightarrow> int \<Rightarrow> rt_tick_t" where
  "rt_tick_from_millisecond tick_per_second ms =
     (if ms < 0 then word_of_int (-1)
      else word_of_int (tick_per_second * (ms div 1000)) +
           word_of_int ((tick_per_second * (ms mod 1000) + 999) div 1000))"

definition RT_TICK_PER_SECOND :: int where "RT_TICK_PER_SECOND = 1000"

definition rt_thread_mdelay :: "int \<Rightarrow> kernel \<Rightarrow> kernel option" where
  "rt_thread_mdelay ms k = rt_thread_sleep (rt_tick_from_millisecond RT_TICK_PER_SECOND ms) k"

datatype thread_cmd =
  RT_THREAD_CTRL_CHANGE_PRIORITY u8 | RT_THREAD_CTRL_STARTUP | RT_THREAD_CTRL_CLOSE | Thread_Ctrl_Other

text \<open>\<^verbatim>\<open>1 << p\<close> for \<open>p\<close> of 32 or more is 0 on the target.\<close>

definition set_priority :: "nat \<Rightarrow> nat \<Rightarrow> kernel \<Rightarrow> kernel" where
  "set_priority t p k =
     upd_thr t (\<lambda>th. th\<lparr>t_current_priority := p, t_number_mask := push_bit p 1\<rparr>) k"

definition change_priority :: "nat \<Rightarrow> nat \<Rightarrow> kernel \<Rightarrow> kernel" where
  "change_priority t p k =
     (if t_stat (thr k t) = RT_THREAD_READY
      then rt_schedule_insert_thread t (set_priority t p (rt_schedule_remove_thread t k))
      else set_priority t p k)"

definition rt_thread_control :: "nat \<Rightarrow> thread_cmd \<Rightarrow> kernel \<Rightarrow> kernel option" where
  "rt_thread_control t cmd k = do {
     rt_assert (rt_object_get_type k (OThread t) = RT_Object_Class_Thread);
     (case cmd of
        RT_THREAD_CTRL_CHANGE_PRIORITY p \<Rightarrow> Some (change_priority t (unat p) k)
      | RT_THREAD_CTRL_STARTUP \<Rightarrow> rt_thread_startup t k
      | RT_THREAD_CTRL_CLOSE \<Rightarrow> rt_thread_delete t k
      | Thread_Ctrl_Other \<Rightarrow> Some k) }"

definition rt_thread_timeout :: "nat \<Rightarrow> kernel \<Rightarrow> kernel option" where
  "rt_thread_timeout t k = do {
     rt_assert (t_stat (thr k t) = RT_THREAD_SUSPEND);
     rt_assert (rt_object_get_type k (OThread t) = RT_Object_Class_Thread);
     let k = upd_thr t (t_error_update (\<lambda>_. - RT_ETIMEOUT)) k;
     let k = tlist_remove t k;
     rt_schedule (rt_schedule_insert_thread t k) }"

definition rt_thread_find :: "string \<Rightarrow> kernel \<Rightarrow> (kernel \<times> object_id option) option" where
  "rt_thread_find name k = do {
     let k = (if rt_thread_self k \<noteq> None then rt_enter_critical k else k);
     info \<leftarrow> rt_object_get_information RT_Object_Class_Thread;
     let found = List.find (\<lambda>ob. name_matches (k_objects k ob) name) (k_containers k info);
     k \<leftarrow> (if rt_thread_self k \<noteq> None then rt_exit_critical k else Some k);
     Some (k, found) }"

end
