(* ===== verification/Kernel_Inv.thy ===== *)
theory Kernel_Inv
  imports Thread
begin

text \<open>
  The invariant of the whole kernel state: the scheduler's, the object registry's and that of the
  thread timers, which says why a timeout handler never meets a thread in the wrong state. Every
  primitive of \<^verbatim>\<open>thread.c\<close> and \<^verbatim>\<open>timer.c\<close> keeps it; the IPC objects are built on these lemmas.
\<close>

section \<open>Definition\<close>

definition thread_timer_inv :: "kernel \<Rightarrow> nat \<Rightarrow> bool" where
  "thread_timer_inv k t \<longleftrightarrow>
     (o_type (k_objects k (OThread t)) = RT_Object_Class_Thread \<longrightarrow> t_stat (thr k t) \<noteq> RT_THREAD_CLOSE \<longrightarrow>
        o_type (k_objects k (OTimer (ThreadTimer t))) = RT_Object_Class_Timer \<and>
        tm_func (k_timers k (ThreadTimer t)) = Rt_Thread_Timeout t \<and>
        \<not> tm_periodic (k_timers k (ThreadTimer t)) \<and> t_init_priority (thr k t) < 32) \<and>
     (live_stat (t_stat (thr k t)) \<longrightarrow> o_type (k_objects k (OThread t)) = RT_Object_Class_Thread) \<and>
     (t_stat (thr k t) = RT_THREAD_CLOSE \<longrightarrow>
        o_type (k_objects k (OTimer (ThreadTimer t))) \<noteq> RT_Object_Class_Timer) \<and>
     (ThreadTimer t \<in> set (k_timer_list k) \<longrightarrow>
        t_stat (thr k t) = RT_THREAD_SUSPEND \<and> tm_activated (k_timers k (ThreadTimer t)))"

definition timed_inv :: "kernel \<Rightarrow> bool" where
  "timed_inv k \<longleftrightarrow> distinct (k_timer_list k) \<and> (\<forall>t. thread_timer_inv k t)"

text \<open>A closed thread that waits for the idle thread is still registered.\<close>

definition defunct_inv :: "kernel \<Rightarrow> bool" where
  "defunct_inv k \<longleftrightarrow> (\<forall>t \<in> set (k_lists k Defunct). o_type (k_objects k (OThread t)) = RT_Object_Class_Thread)"

definition kernel_inv :: "kernel \<Rightarrow> bool" where
  "kernel_inv k \<longleftrightarrow> sched_inv k \<and> current_inv k \<and> registry_inv k \<and> timed_inv k \<and> defunct_inv k"

lemma defunct_inv_mono:
  "defunct_inv k \<Longrightarrow> k_objects k' = k_objects k \<Longrightarrow> set (k_lists k' Defunct) \<subseteq> set (k_lists k Defunct) \<Longrightarrow>
   defunct_inv k'"
  by (auto simp: defunct_inv_def)

lemma kernel_invD:
  assumes "kernel_inv k"
  shows "sched_inv k" "current_inv k" "registry_inv k" "timed_inv k" "thread_timer_inv k t"
    "thread_inv k t" "sched_inv_ex {} k" "distinct (k_timer_list k)" "defunct_inv k"
  using assms by (auto simp: kernel_inv_def timed_inv_def sched_inv_def sched_inv_ex_def)

lemma kernel_inv_cong:
  assumes "k_lists k' = k_lists k" "k_ready_group k' = k_ready_group k"
    "k_threads k' = k_threads k" "k_current k' = k_current k" "k_objects k' = k_objects k"
    "k_containers k' = k_containers k" "k_timers k' = k_timers k" "k_timer_list k' = k_timer_list k"
  shows "kernel_inv k' = kernel_inv k"
  using assms sched_inv_ex_cong[OF assms(1-4), of "{}"] registry_inv_cong[OF assms(5,6)]
  by (simp add: kernel_inv_def sched_inv_def current_inv_def timed_inv_def thread_timer_inv_def defunct_inv_def)

text \<open>Fields outside the invariant may be written freely.\<close>

lemma kernel_inv_upd_simps [simp]:
  "kernel_inv (k\<lparr>k_lock_nest := a\<rparr>) = kernel_inv k"
  "kernel_inv (k\<lparr>k_tick := b\<rparr>) = kernel_inv k"
  "kernel_inv (k\<lparr>k_interrupt_nest := c\<rparr>) = kernel_inv k"
  "kernel_inv (k\<lparr>k_sems := d\<rparr>) = kernel_inv k"
  "kernel_inv (k\<lparr>k_mutexes := e\<rparr>) = kernel_inv k"
  "kernel_inv (k\<lparr>k_events := f\<rparr>) = kernel_inv k"
  "kernel_inv (k\<lparr>k_mbs := g\<rparr>) = kernel_inv k"
  "kernel_inv (k\<lparr>k_mqs := h\<rparr>) = kernel_inv k"
  by (rule kernel_inv_cong; simp)+

section \<open>Changes of one thread\<close>

text \<open>The part of a thread the invariant reads, apart from its state.\<close>

lemma thread_timer_inv_cong:
  assumes "k_objects k' = k_objects k" "k_timers k' = k_timers k" "k_timer_list k' = k_timer_list k"
    "t_init_priority (thr k' t) = t_init_priority (thr k t)"
    "t_stat (thr k' t) = t_stat (thr k t) \<or>
     {t_stat (thr k' t), t_stat (thr k t)} \<subseteq> {RT_THREAD_READY, RT_THREAD_RUNNING}"
    "thread_timer_inv k t"
  shows "thread_timer_inv k' t"
  using assms by (auto simp: thread_timer_inv_def live_stat_def)

lemma kernel_inv_upd_thr:
  assumes inv: "kernel_inv k"
    and f: "t_stat (f (thr k t)) = t_stat (thr k t)"
      "t_current_priority (f (thr k t)) = t_current_priority (thr k t)"
      "t_number_mask (f (thr k t)) = t_number_mask (thr k t)"
      "t_init_priority (f (thr k t)) = t_init_priority (thr k t)"
  shows "kernel_inv (upd_thr t f k)"
proof -
  have "sched_inv (upd_thr t f k)"
    using kernel_invD(7)[OF inv] f
    by (auto simp: sched_inv_def sched_inv_ex_def tlist_inv_def bitmap_inv_def thread_inv_def prio_ok_def)
  moreover have "thread_timer_inv (upd_thr t f k) u" for u
    using kernel_invD(5)[OF inv, of u] f by (auto simp: thread_timer_inv_def)
  ultimately show ?thesis using inv f
    by (auto simp: kernel_inv_def current_inv_def timed_inv_def registry_inv_def defunct_inv_def)
qed

text \<open>Scheduling only exchanges READY and RUNNING.\<close>

definition sched_rel :: "rt_thread \<Rightarrow> rt_thread \<Rightarrow> bool" where
  "sched_rel a b \<longleftrightarrow> (\<exists>s. b = a\<lparr>t_stat := s\<rparr> \<and>
     (s = t_stat a \<or> {t_stat a, s} \<subseteq> {RT_THREAD_READY, RT_THREAD_RUNNING}))"

lemma sched_rel_refl: "sched_rel a a"
  unfolding sched_rel_def by (rule exI[of _ "t_stat a"]) simp

lemma sched_rel_stat:
  "s = t_stat a \<or> {t_stat a, s} \<subseteq> {RT_THREAD_READY, RT_THREAD_RUNNING} \<Longrightarrow> sched_rel a (a\<lparr>t_stat := s\<rparr>)"
  by (auto simp: sched_rel_def)

lemma sched_relD:
  assumes "sched_rel a b"
  shows "t_current_priority b = t_current_priority a" "t_number_mask b = t_number_mask a"
    "t_init_priority b = t_init_priority a" "t_error b = t_error a"
    "t_event_set b = t_event_set a" "t_event_info b = t_event_info a"
    "t_stat b = t_stat a \<or> {t_stat b, t_stat a} \<subseteq> {RT_THREAD_READY, RT_THREAD_RUNNING}"
  using assms by (auto simp: sched_rel_def)

lemma rt_schedule_threads:
  assumes inv: "sched_inv k" "current_inv k" and cur: "k_current k = Some c"
    and r: "rt_schedule k = Some k'"
  shows "sched_rel (thr k t) (thr k' t)"
proof -
  from inv(1) cur show ?thesis
  proof (cases rule: rt_schedule_cases)
    case (stay p)
    then have "thr k' t = (if t = c then (thr k c)\<lparr>t_stat := RT_THREAD_RUNNING\<rparr> else thr k t)"
      using r by simp
    then show ?thesis using stay(2) by (simp add: sched_rel_refl sched_rel_stat)
  next
    case (switch to p)
    have k': "k' = switch_to c to p k" using switch(8) r by (auto split: option.splits)
    have "t_stat (thr k to) = RT_THREAD_READY"
      using ready_prio_ok(3) inv(1) switch(3) by (auto simp: sched_inv_def)
    moreover have "thr k' t =
        (if t = to then (thr k to)\<lparr>t_stat := RT_THREAD_RUNNING\<rparr>
         else if t = c \<and> t_stat (thr k c) = RT_THREAD_RUNNING then (thr k c)\<lparr>t_stat := RT_THREAD_READY\<rparr>
         else thr k t)"
      using switch(4) by (simp add: k' switch_to_def Let_def)
    ultimately show ?thesis by (simp add: sched_rel_refl sched_rel_stat)
  qed (use r inv cur sched_rel_refl in \<open>auto simp: current_inv_def\<close>)
qed

lemma rt_schedule_defunct:
  assumes "rt_schedule k = Some k'"
  shows "set (k_lists k' Defunct) \<subseteq> set (k_lists k Defunct)"
  using assms by (auto simp: rt_schedule_def Let_def bind_eq_Some_conv split: if_splits dest: set_remove1_subset[THEN subsetD])

lemma kernel_inv_schedule [rt_inv]:
  assumes inv: "kernel_inv k" and cur: "k_current k = Some c" and r: "rt_schedule k = Some k'"
  shows "kernel_inv k'"
proof -
  note d = kernel_invD[OF inv]
  have fr: "same_objects k k'" by (rule rt_schedule_frame[OF r])
  have fr': "k_objects k' = k_objects k" "k_timers k' = k_timers k" "k_timer_list k' = k_timer_list k"
    using fr by (simp_all add: same_objects_def)
  have "thread_timer_inv k' t" for t
  proof -
    have rel: "sched_rel (thr k t) (thr k' t)" by (rule rt_schedule_threads[OF d(1,2) cur r])
    show ?thesis
      by (rule thread_timer_inv_cong[OF fr' sched_relD(3)[OF rel] sched_relD(7)[OF rel] d(5)])
  qed
  moreover have "registry_inv k'"
    using d(3) fr by (simp add: registry_inv_def same_objects_def)
  moreover have "distinct (k_timer_list k')" using d(8) fr by (simp add: same_objects_def)
  ultimately show ?thesis
    using rt_schedule_inv[OF d(1,2) cur r] defunct_inv_mono[OF d(9) fr'(1) rt_schedule_defunct[OF r]]
    by (simp add: kernel_inv_def timed_inv_def)
qed

section \<open>Timer primitives\<close>

text \<open>A timer operation leaves everything but the timers alone.\<close>

definition same_but_timers :: "kernel \<Rightarrow> kernel \<Rightarrow> bool" where
  "same_but_timers k k' \<longleftrightarrow> (\<exists>ts l. k' = k\<lparr>k_timers := ts, k_timer_list := l\<rparr>)"

lemma same_but_timersD:
  assumes "same_but_timers k k'"
  shows "k_lists k' = k_lists k" "k_ready_group k' = k_ready_group k" "k_threads k' = k_threads k"
    "k_current k' = k_current k" "k_objects k' = k_objects k" "k_containers k' = k_containers k"
    "k_tick k' = k_tick k" "k_lock_nest k' = k_lock_nest k" "k_interrupt_nest k' = k_interrupt_nest k"
    "k_sems k' = k_sems k" "k_mutexes k' = k_mutexes k" "k_events k' = k_events k"
    "k_mbs k' = k_mbs k" "k_mqs k' = k_mqs k"
  using assms by (auto simp: same_but_timers_def)

lemma timer_stop_spec:
  assumes "rt_timer_stop tm k = Some (k', r)"
  shows "same_but_timers k k'"
    "k_timer_list k' = (if tm_activated (k_timers k tm) then remove1 tm (k_timer_list k) else k_timer_list k)"
    "k_timers k' = (k_timers k)(tm := (k_timers k tm)\<lparr>tm_activated := False\<rparr>)"
    "r = (if tm_activated (k_timers k tm) then RT_EOK else - RT_ERROR)"
proof -
  have "(k', r) = (if \<not> tm_activated (k_timers k tm) then (k, - RT_ERROR)
      else (upd_timer tm (tm_activated_update (\<lambda>_. False)) (timer_remove tm k), RT_EOK))"
    using assms by (auto simp: rt_timer_stop_def bind_eq_Some_conv split: if_splits)
  then have k': "k' = (if \<not> tm_activated (k_timers k tm) then k
      else upd_timer tm (tm_activated_update (\<lambda>_. False)) (timer_remove tm k))"
    and r: "r = (if tm_activated (k_timers k tm) then RT_EOK else - RT_ERROR)" by (auto split: if_splits)
  show "r = (if tm_activated (k_timers k tm) then RT_EOK else - RT_ERROR)" by (rule r)
  show "k_timer_list k' = (if tm_activated (k_timers k tm) then remove1 tm (k_timer_list k) else k_timer_list k)"
    by (simp add: k' timer_remove_def)
  show "k_timers k' = (k_timers k)(tm := (k_timers k tm)\<lparr>tm_activated := False\<rparr>)"
    by (auto simp: k' timer_remove_def fun_eq_iff)
  show "same_but_timers k k'"
    unfolding same_but_timers_def
    by (rule exI[of _ "k_timers k'"], rule exI[of _ "k_timer_list k'"])
      (simp add: k' timer_remove_def upd_timer_def)
qed

lemma timer_start_spec:
  assumes "rt_timer_start tm k = Some k'"
  shows "same_but_timers k k'"
    "k_timers k' = (k_timers k)(tm := (k_timers k tm)\<lparr>
        tm_timeout_tick := k_tick k + tm_init_tick (k_timers k tm), tm_activated := True\<rparr>)"
    "k_timer_list k' = timer_insert (\<lambda>t. tm_timeout_tick (k_timers k' t)) tm (remove1 tm (k_timer_list k))"
    "tm_init_tick (k_timers k tm) < RT_TICK_HALF"
    "o_type (k_objects k (OTimer tm)) = RT_Object_Class_Timer"
proof -
  let ?ts = "(k_timers k)(tm := (k_timers k tm)\<lparr>tm_activated := False,
      tm_timeout_tick := k_tick k + tm_init_tick (k_timers k tm)\<rparr>)"
  let ?ts' = "(k_timers k)(tm := (k_timers k tm)\<lparr>
      tm_timeout_tick := k_tick k + tm_init_tick (k_timers k tm), tm_activated := True\<rparr>)"
  let ?l = "timer_insert (\<lambda>t. tm_timeout_tick (?ts t)) tm (remove1 tm (k_timer_list k))"
  let ?k1 = "k\<lparr>k_timer_list := remove1 tm (k_timer_list k),
      k_timers := (k_timers k)(tm := (k_timers k tm)\<lparr>tm_activated := False\<rparr>)\<rparr>"
  have k1: "upd_timer tm (tm_activated_update (\<lambda>_. False)) (timer_remove tm k) = ?k1"
    by (simp add: timer_remove_def upd_timer_def)
  have k2: "upd_timer tm (\<lambda>r. r\<lparr>tm_timeout_tick := rt_tick_get ?k1 + tm_init_tick r\<rparr>) ?k1 =
      k\<lparr>k_timer_list := remove1 tm (k_timer_list k), k_timers := ?ts\<rparr>" (is "_ = ?k2")
    by (simp add: upd_timer_def rt_tick_get_def)
  have "rt_timer_start tm k =
      (if o_type (k_objects k (OTimer tm)) = RT_Object_Class_Timer \<and> tm_init_tick (k_timers k tm) < RT_TICK_HALF
       then Some (upd_timer tm (tm_activated_update (\<lambda>_. True))
         (?k2\<lparr>k_timer_list := timer_insert (\<lambda>t. tm_timeout_tick (k_timers ?k2 t)) tm (k_timer_list ?k2)\<rparr>))
       else None)"
    unfolding rt_timer_start_def Let_def k1 k2 by (simp add: rt_object_get_type_def rt_assert_bind)
  also have "upd_timer tm (tm_activated_update (\<lambda>_. True))
         (?k2\<lparr>k_timer_list := timer_insert (\<lambda>t. tm_timeout_tick (k_timers ?k2 t)) tm (k_timer_list ?k2)\<rparr>) =
       k\<lparr>k_timer_list := ?l, k_timers := ?ts'\<rparr>"
    by (simp add: upd_timer_def)
  finally have k': "k' = k\<lparr>k_timer_list := ?l, k_timers := ?ts'\<rparr>"
    and init: "tm_init_tick (k_timers k tm) < RT_TICK_HALF"
    and ty: "o_type (k_objects k (OTimer tm)) = RT_Object_Class_Timer"
    using assms by (simp_all split: if_splits)
  show "tm_init_tick (k_timers k tm) < RT_TICK_HALF" by (rule init)
  show "o_type (k_objects k (OTimer tm)) = RT_Object_Class_Timer" by (rule ty)
  show "k_timers k' = ?ts'" by (simp add: k')
  have "(\<lambda>t. tm_timeout_tick (?ts t)) = (\<lambda>t. tm_timeout_tick (?ts' t))" by (simp add: fun_eq_iff)
  then show "k_timer_list k' = timer_insert (\<lambda>t. tm_timeout_tick (k_timers k' t)) tm (remove1 tm (k_timer_list k))"
    by (simp add: k')
  show "same_but_timers k k'"
    unfolding same_but_timers_def
    by (rule exI[of _ "k_timers k'"], rule exI[of _ "k_timer_list k'"]) (simp add: k')
qed

lemma set_timer_insert [simp]: "set (timer_insert due tm ts) = insert tm (set ts)"
  by (induction ts) auto

lemma distinct_timer_insert:
  "distinct ts \<Longrightarrow> tm \<notin> set ts \<Longrightarrow> distinct (timer_insert due tm ts)"
  by (induction ts) auto

text \<open>Changing only timers: what has to be looked at again is the timer list.\<close>

lemma kernel_inv_timers:
  assumes inv: "kernel_inv k" and s: "same_but_timers k k'" and d: "distinct (k_timer_list k')"
    and f: "\<And>t. tm_func (k_timers k' (ThreadTimer t)) = tm_func (k_timers k (ThreadTimer t))"
      "\<And>t. tm_periodic (k_timers k' (ThreadTimer t)) = tm_periodic (k_timers k (ThreadTimer t))"
    and l: "\<And>t. ThreadTimer t \<in> set (k_timer_list k') \<Longrightarrow>
        t_stat (thr k t) = RT_THREAD_SUSPEND \<and> tm_activated (k_timers k' (ThreadTimer t))"
  shows "kernel_inv k'"
proof -
  note e = same_but_timersD[OF s]
  have "sched_inv k'"
    unfolding sched_inv_def sched_inv_ex_cong[OF e(1-4), of "{}"] by (rule kernel_invD(7)[OF inv])
  moreover have "registry_inv k'"
    using kernel_invD(3)[OF inv] by (simp add: registry_inv_def e)
  moreover have "current_inv k'"
    using kernel_invD(2)[OF inv] by (simp add: current_inv_def e)
  moreover have "thread_timer_inv k' t" for t
    using kernel_invD(5)[OF inv, of t] f l[of t] by (simp add: thread_timer_inv_def e)
  moreover have "defunct_inv k'" using kernel_invD(9)[OF inv] by (simp add: defunct_inv_def e)
  ultimately show ?thesis using d by (simp add: kernel_inv_def timed_inv_def)
qed

lemma in_timer_list_remove: "distinct l \<Longrightarrow> x \<in> set (remove1 tm l) \<longleftrightarrow> x \<in> set l \<and> x \<noteq> tm"
  by simp

lemma kernel_inv_timer_stop [rt_inv]:
  assumes inv: "kernel_inv k" and r: "rt_timer_stop tm k = Some (k', r)"
  shows "kernel_inv k'"
proof (rule kernel_inv_timers[OF inv timer_stop_spec(1)[OF r]])
  note s = timer_stop_spec[OF r] and d = kernel_invD(8)[OF inv]
  show "distinct (k_timer_list k')" using d by (simp add: s)
  fix t
  show "tm_func (k_timers k' (ThreadTimer t)) = tm_func (k_timers k (ThreadTimer t))"
    "tm_periodic (k_timers k' (ThreadTimer t)) = tm_periodic (k_timers k (ThreadTimer t))" by (simp_all add: s)
  assume "ThreadTimer t \<in> set (k_timer_list k')"
  then show "t_stat (thr k t) = RT_THREAD_SUSPEND \<and> tm_activated (k_timers k' (ThreadTimer t))"
    using kernel_invD(5)[OF inv, of t] d by (auto simp: s thread_timer_inv_def split: if_splits)
qed

lemma kernel_inv_timer_start [rt_inv]:
  assumes inv: "kernel_inv k" and r: "rt_timer_start tm k = Some k'"
    and susp: "\<And>t. tm = ThreadTimer t \<Longrightarrow> t_stat (thr k t) = RT_THREAD_SUSPEND"
  shows "kernel_inv k'"
proof (rule kernel_inv_timers[OF inv timer_start_spec(1)[OF r]])
  note s = timer_start_spec[OF r] and d = kernel_invD(8)[OF inv]
  show "distinct (k_timer_list k')" using d by (simp add: s(3) distinct_timer_insert)
  fix t
  show "tm_func (k_timers k' (ThreadTimer t)) = tm_func (k_timers k (ThreadTimer t))"
    "tm_periodic (k_timers k' (ThreadTimer t)) = tm_periodic (k_timers k (ThreadTimer t))"
    by (simp_all add: s(2))
  assume "ThreadTimer t \<in> set (k_timer_list k')"
  then have "ThreadTimer t = tm \<or> ThreadTimer t \<in> set (k_timer_list k)"
    using d by (auto simp: s(3))
  then show "t_stat (thr k t) = RT_THREAD_SUSPEND \<and> tm_activated (k_timers k' (ThreadTimer t))"
    using kernel_invD(5)[OF inv, of t] susp[of t] by (auto simp: s(2) thread_timer_inv_def)
qed

section \<open>Suspending and resuming\<close>

lemma kernel_inv_thread:
  assumes inv: "kernel_inv k" and s: "sched_inv k'" "current_inv k'"
    and o: "k_objects k' = k_objects k" "k_containers k' = k_containers k"
    and d: "distinct (k_timer_list k')"
    and u: "\<And>u. u \<noteq> t \<Longrightarrow> thr k' u = thr k u"
      "\<And>u. u \<noteq> t \<Longrightarrow> k_timers k' (ThreadTimer u) = k_timers k (ThreadTimer u)"
      "\<And>u. u \<noteq> t \<Longrightarrow> ThreadTimer u \<in> set (k_timer_list k') \<Longrightarrow> ThreadTimer u \<in> set (k_timer_list k)"
    and df: "set (k_lists k' Defunct) \<subseteq> set (k_lists k Defunct)"
    and t: "thread_timer_inv k' t"
  shows "kernel_inv k'"
proof -
  have "thread_timer_inv k' v" for v
  proof (cases "v = t")
    case False
    then show ?thesis using kernel_invD(5)[OF inv, of v] u[of v] by (simp add: thread_timer_inv_def o)
  qed (use t in simp)
  moreover have "registry_inv k'" using kernel_invD(3)[OF inv] by (simp add: registry_inv_def o)
  ultimately show ?thesis using s d defunct_inv_mono[OF kernel_invD(9)[OF inv] o(1) df]
    by (simp add: kernel_inv_def timed_inv_def)
qed

lemma tlist_remove_sel [simp]:
  "k_threads (tlist_remove t k) = k_threads k" "k_lists (tlist_remove t k) = (\<lambda>h. remove1 t (k_lists k h))"
  "k_current (tlist_remove t k) = k_current k" "k_ready_group (tlist_remove t k) = k_ready_group k"
  "k_timers (tlist_remove t k) = k_timers k" "k_timer_list (tlist_remove t k) = k_timer_list k"
  "k_objects (tlist_remove t k) = k_objects k" "k_containers (tlist_remove t k) = k_containers k"
  "k_tick (tlist_remove t k) = k_tick k" "k_lock_nest (tlist_remove t k) = k_lock_nest k"
  "k_interrupt_nest (tlist_remove t k) = k_interrupt_nest k" "k_sems (tlist_remove t k) = k_sems k"
  "k_mutexes (tlist_remove t k) = k_mutexes k" "k_events (tlist_remove t k) = k_events k"
  "k_mbs (tlist_remove t k) = k_mbs k" "k_mqs (tlist_remove t k) = k_mqs k"
  by (simp_all add: tlist_remove_def)

lemma tlist_remove_ex:
  assumes inv: "sched_inv_ex T k" and st: "t_stat (thr k t) \<noteq> RT_THREAD_READY"
  shows "sched_inv_ex (insert t T) (tlist_remove t k)"
proof -
  note I = sched_inv_exD[OF inv]
  have nr: "remove1 t (ready_list k p) = ready_list k p" for p
    using ready_prio_ok(3)[OF inv, of t p] st by (meson remove1_idem)
  have "tlist_inv (tlist_remove t k)" using I(1) by (simp add: tlist_inv_def lists_ok_remove)
  moreover have "bitmap_inv (tlist_remove t k)" using I(2) by (simp add: bitmap_inv_def nr)
  moreover have "thread_inv (tlist_remove t k) u" if "u \<notin> insert t T" for u
    using that I(3)[of u] by (simp add: thread_inv_def)
  moreover have "unlinked (tlist_remove t k) u" if "u \<in> insert t T" for u
    using that I(1) I(4)[of u] by (auto simp: unlinked_def tlist_inv_def lists_ok_def dest: set_remove1_subset[THEN subsetD])
  ultimately show ?thesis by (simp add: sched_inv_ex_def)
qed

lemma suspend_result:
  assumes r: "rt_thread_suspend t k = Some (k', r)"
  obtains (bad) "k' = k" "r = - RT_ERROR" "t_stat (thr k t) \<noteq> RT_THREAD_READY" "t_stat (thr k t) \<noteq> RT_THREAD_RUNNING"
  | (ok) r' where "r = RT_EOK" "t_stat (thr k t) = RT_THREAD_READY \<or> t_stat (thr k t) = RT_THREAD_RUNNING \<and> k_current k = Some t"
      "rt_timer_stop (ThreadTimer t)
         (upd_thr t (t_stat_update (\<lambda>_. RT_THREAD_SUSPEND)) (rt_schedule_remove_thread t k)) = Some (k', r')"
  using r by (auto simp: rt_thread_suspend_def bind_eq_Some_conv rt_thread_self_def Let_def split: if_splits)

lemma kernel_inv_suspend [rt_inv]:
  assumes inv: "kernel_inv k" and r: "rt_thread_suspend t k = Some (k', r)"
  shows "kernel_inv k'"
  using r
proof (cases rule: suspend_result)
  case (ok r')
  let ?k1 = "upd_thr t (t_stat_update (\<lambda>_. RT_THREAD_SUSPEND)) (rt_schedule_remove_thread t k)"
  note s = timer_stop_spec[OF ok(3)] and e = same_but_timersD[OF timer_stop_spec(1)[OF ok(3)]]
  note d = kernel_invD[OF inv]
  have live: "live_stat (t_stat (thr k t))" using ok(2) by (auto simp: live_stat_def)
  have po: "prio_ok (thr k t)" using thread_invD(4)[OF d(6) live] .
  have "sched_inv_ex {t} (rt_schedule_remove_thread t k)" using remove_thread_ex[OF d(7)] po by simp
  then have i1: "sched_inv_ex {t} ?k1" by (intro sched_inv_ex_upd) auto
  have un: "unlinked ?k1 t" using sched_inv_exD(4)[OF i1] by simp
  have "thread_inv ?k1 t"
    by (rule thread_inv_unlinked[OF un]) (use po in \<open>auto simp: prio_ok_def\<close>)
  from sched_inv_ex_settle[OF i1 this] have i2: "sched_inv ?k1" by (simp add: sched_inv_def)
  show ?thesis
  proof (rule kernel_inv_thread[OF inv])
    show "sched_inv k'"
      unfolding sched_inv_def sched_inv_ex_cong[OF e(1-4), of "{}"] using i2 by (simp add: sched_inv_def)
    show "current_inv k'" using d(2) by (simp add: current_inv_def e)
    show "thread_timer_inv k' t"
      using d(5)[of t] ok(2) d(8) by (auto simp: thread_timer_inv_def e s live_stat_def)
    show "distinct (k_timer_list k')" using d(8) by (simp add: s)
  qed (use d(8) in \<open>auto simp: e s split: if_splits dest: set_remove1_subset[THEN subsetD]\<close>)
qed (use inv in simp)

lemma suspend_effect:
  assumes inv: "kernel_inv k" and r: "rt_thread_suspend t k = Some (k', RT_EOK)"
  shows "k_threads k' = (k_threads k)(t := (thr k t)\<lparr>t_stat := RT_THREAD_SUSPEND\<rparr>) \<and>
    unlinked k' t \<and> k_lists k' = (\<lambda>h. remove1 t (k_lists k h)) \<and>
    ThreadTimer t \<notin> set (k_timer_list k') \<and>
    k_current k' = k_current k \<and> k_objects k' = k_objects k \<and> k_containers k' = k_containers k \<and>
    k_tick k' = k_tick k \<and> k_lock_nest k' = k_lock_nest k \<and> k_interrupt_nest k' = k_interrupt_nest k \<and>
    k_sems k' = k_sems k \<and> k_mutexes k' = k_mutexes k \<and> k_events k' = k_events k \<and>
    k_mbs k' = k_mbs k \<and> k_mqs k' = k_mqs k \<and>
    k_timers k' = (k_timers k)(ThreadTimer t := (k_timers k (ThreadTimer t))\<lparr>tm_activated := False\<rparr>)"
  using r
proof (cases rule: suspend_result)
  case bad then show ?thesis by (simp add: RT_EOK_def RT_ERROR_def)
next
  case (ok r')
  note s = timer_stop_spec[OF ok(3)] and e = same_but_timersD[OF timer_stop_spec(1)[OF ok(3)]]
  note d = kernel_invD[OF inv]
  have "unlinked k' t"
    using d(7) by (auto simp: unlinked_def e sched_inv_ex_def tlist_inv_def lists_ok_def)
  moreover have "ThreadTimer t \<notin> set (k_timer_list k')"
    using d(5)[of t] d(8) ok(2) by (auto simp: s thread_timer_inv_def)
  ultimately show ?thesis by (simp add: e s)
qed

lemma resume_result:
  assumes r: "rt_thread_resume t k = Some (k', r)"
  obtains (bad) "k' = k" "r = - RT_ERROR" "t_stat (thr k t) \<noteq> RT_THREAD_SUSPEND"
  | (ok) k1 r' where "r = RT_EOK" "t_stat (thr k t) = RT_THREAD_SUSPEND"
      "rt_timer_stop (ThreadTimer t) (tlist_remove t k) = Some (k1, r')"
      "k' = rt_schedule_insert_thread t k1"
  using r by (auto simp: rt_thread_resume_def bind_eq_Some_conv Let_def split: if_splits)

text \<open>Waking a thread that is linked nowhere and whose timer is not pending.\<close>

lemma kernel_inv_wake:
  assumes inv: "kernel_inv k" and i1: "sched_inv_ex {t} k1"
    and st: "t_stat (thr k t) = RT_THREAD_SUSPEND"
    and e: "thr k1 t = (thr k t)\<lparr>t_error := er\<rparr> \<or> thr k1 t = thr k t"
      "\<And>u. u \<noteq> t \<Longrightarrow> thr k1 u = thr k u"
      "k_objects k1 = k_objects k" "k_containers k1 = k_containers k" "k_current k1 = k_current k"
      "\<And>u. tm_func (k_timers k1 u) = tm_func (k_timers k u)"
      "\<And>u. tm_periodic (k_timers k1 u) = tm_periodic (k_timers k u)"
      "\<And>u. u \<noteq> ThreadTimer t \<Longrightarrow> k_timers k1 u = k_timers k u"
      "set (k_timer_list k1) \<subseteq> set (k_timer_list k)" "distinct (k_timer_list k1)"
      "ThreadTimer t \<notin> set (k_timer_list k1)" "set (k_lists k1 Defunct) \<subseteq> set (k_lists k Defunct)"
  shows "kernel_inv (rt_schedule_insert_thread t k1)"
proof -
  note d = kernel_invD[OF inv]
  have same: "t_stat (thr k1 t) = RT_THREAD_SUSPEND" "prio_ok (thr k1 t) = prio_ok (thr k t)"
    "t_init_priority (thr k1 t) = t_init_priority (thr k t)"
    using e(1) st by (auto simp: prio_ok_def)
  have po: "prio_ok (thr k t)" using thread_invD(4)[OF d(6)] st by (simp add: live_stat_def)
  show ?thesis
  proof (rule kernel_inv_thread[OF inv])
    have "sched_inv_ex ({t} - {t}) (rt_schedule_insert_thread t k1)"
      by (rule insert_thread_ex[OF i1]) (use po same in auto)
    then show "sched_inv (rt_schedule_insert_thread t k1)" by (simp add: sched_inv_def)
    show "current_inv (rt_schedule_insert_thread t k1)"
      using d(2) e(2,5) by (auto simp: current_inv_def)
    show "thread_timer_inv (rt_schedule_insert_thread t k1) t"
      using d(5)[of t] st e(3,6,7,11) same(3) by (simp add: thread_timer_inv_def live_stat_def)
  qed (use e in auto)
qed

lemma kernel_inv_resume [rt_inv]:
  assumes inv: "kernel_inv k" and r: "rt_thread_resume t k = Some (k', r)"
  shows "kernel_inv k'"
  using r
proof (cases rule: resume_result)
  case (ok k1 r')
  note s = timer_stop_spec[OF ok(3)] and e = same_but_timersD[OF timer_stop_spec(1)[OF ok(3)]]
  note d = kernel_invD[OF inv]
  have "sched_inv_ex {t} (tlist_remove t k)"
    using tlist_remove_ex[OF d(7), of t] ok(2) by simp
  then have i1: "sched_inv_ex {t} k1"
    using sched_inv_ex_cong[OF e(1-4)] by simp
  show ?thesis
    unfolding ok(4)
  proof (rule kernel_inv_wake[OF inv i1 ok(2)])
    show "ThreadTimer t \<notin> set (k_timer_list k1)"
      using d(5)[of t] d(8) by (auto simp: s thread_timer_inv_def)
  qed (use d(8) in \<open>auto simp: e s split: if_splits dest: set_remove1_subset[THEN subsetD]\<close>)
qed (use inv in simp)

lemma resume_effect:
  assumes inv: "kernel_inv k" and r: "rt_thread_resume t k = Some (k', RT_EOK)"
  shows "t_stat (thr k t) = RT_THREAD_SUSPEND \<and>
    k_threads k' = (k_threads k)(t := (thr k t)\<lparr>t_stat :=
        (if k_current k = Some t then RT_THREAD_RUNNING else RT_THREAD_READY)\<rparr>) \<and>
    k_lists k' = (if k_current k = Some t then (\<lambda>h. remove1 t (k_lists k h))
      else (\<lambda>h. remove1 t (k_lists k h))(Ready (t_current_priority (thr k t)) :=
             ready_list k (t_current_priority (thr k t)) @ [t])) \<and>
    ThreadTimer t \<notin> set (k_timer_list k') \<and>
    k_current k' = k_current k \<and> k_objects k' = k_objects k \<and> k_containers k' = k_containers k \<and>
    k_tick k' = k_tick k \<and> k_lock_nest k' = k_lock_nest k \<and> k_interrupt_nest k' = k_interrupt_nest k \<and>
    k_sems k' = k_sems k \<and> k_mutexes k' = k_mutexes k \<and> k_events k' = k_events k \<and>
    k_mbs k' = k_mbs k \<and> k_mqs k' = k_mqs k \<and>
    k_timers k' = (k_timers k)(ThreadTimer t := (k_timers k (ThreadTimer t))\<lparr>tm_activated := False\<rparr>)"
  using r
proof (cases rule: resume_result)
  case bad then show ?thesis by (simp add: RT_EOK_def RT_ERROR_def)
next
  case (ok k1 r')
  note s = timer_stop_spec[OF ok(3)] and e = same_but_timersD[OF timer_stop_spec(1)[OF ok(3)]]
  note d = kernel_invD[OF inv]
  have "t \<notin> set (ready_list k p)" for p
    using ready_prio_ok(3)[OF d(7), of t p] ok(2) by auto
  then have "remove1 t (ready_list k p) = ready_list k p" for p by (simp add: remove1_idem)
  moreover have "ThreadTimer t \<notin> set (k_timer_list k1)"
    using d(5)[of t] d(8) by (auto simp: s thread_timer_inv_def)
  ultimately show ?thesis using ok(2) by (simp add: ok(4) e s)
qed

text \<open>A suspended registered thread can always be resumed: no assertion is in the way.\<close>

lemma resume_enabled:
  assumes inv: "kernel_inv k" and st: "t_stat (thr k t) = RT_THREAD_SUSPEND"
  shows "\<exists>k'. rt_thread_resume t k = Some (k', RT_EOK)"
proof -
  have "o_type (k_objects k (OThread t)) = RT_Object_Class_Thread"
    "o_type (k_objects k (OTimer (ThreadTimer t))) = RT_Object_Class_Timer"
    using kernel_invD(5)[OF inv, of t] st by (auto simp: thread_timer_inv_def live_stat_def)
  then show ?thesis
    using st by (auto simp: rt_thread_resume_def rt_object_get_type_def rt_timer_stop_def Let_def bind_eq_Some_conv)
qed

lemma suspend_enabled:
  assumes inv: "kernel_inv k" and st: "t_stat (thr k t) = RT_THREAD_READY \<or> t_stat (thr k t) = RT_THREAD_RUNNING"
  shows "\<exists>k'. rt_thread_suspend t k = Some (k', RT_EOK)"
proof -
  have "o_type (k_objects k (OThread t)) = RT_Object_Class_Thread"
    "o_type (k_objects k (OTimer (ThreadTimer t))) = RT_Object_Class_Timer"
    "t_stat (thr k t) = RT_THREAD_RUNNING \<longrightarrow> k_current k = Some t"
    using kernel_invD(5)[OF inv, of t] kernel_invD(6)[OF inv, of t] st
    by (auto simp: thread_timer_inv_def live_stat_def thread_inv_def)
  then show ?thesis
    using st by (auto simp: rt_thread_suspend_def rt_object_get_type_def rt_timer_stop_def Let_def
        bind_eq_Some_conv rt_thread_self_def)
qed

section \<open>Waiting lists and priorities\<close>

lemma kernel_inv_wait_insert [rt_inv]:
  assumes inv: "kernel_inv k" and st: "t_stat (thr k t) = RT_THREAD_SUSPEND" and un: "unlinked k t"
    and h: "stat_of_list h = RT_THREAD_SUSPEND"
    and xs: "set xs = insert t (set (k_lists k h))" "distinct xs"
  shows "kernel_inv (k\<lparr>k_lists := (k_lists k)(h := xs)\<rparr>)" (is "kernel_inv ?k")
proof -
  note d = kernel_invD[OF inv] and I = sched_inv_exD[OF kernel_invD(7)[OF inv]]
  have nr: "Ready p \<noteq> h" for p using h by auto
  have "tlist_inv ?k"
    unfolding tlist_inv_def by simp (rule lists_ok_insert,
      use I(1) un xs in \<open>auto simp: tlist_inv_def unlinked_def\<close>)
  moreover have "bitmap_inv ?k" using I(2) nr by (simp add: bitmap_inv_def) 
  moreover have "thread_inv ?k u" for u
  proof -
    have i: "thread_inv k u" by (rule d(6))
    have mem: "u \<in> set (k_lists ?k h') \<longleftrightarrow> u \<in> set (k_lists k h') \<or> h' = h \<and> u = t" for h'
      using xs(1) by auto
    have "t_stat (thr k u) = stat_of_list h'" if "u \<in> set (k_lists ?k h')" for h'
      using that st h thread_invD(1)[OF i, of h'] unfolding mem by metis
    moreover have "p = t_current_priority (thr k u)" if "u \<in> set (k_lists ?k (Ready p))" for p
      using that nr thread_invD(2)[OF i, of p] unfolding mem by metis
    ultimately show ?thesis
      using thread_invD(3-5)[OF i] nr by (simp add: thread_inv_def)
  qed
  ultimately have "sched_inv ?k" by (simp add: sched_inv_def sched_inv_ex_def)
  then show ?thesis
    using d(2,3,4,9) h by (auto simp: kernel_inv_def current_inv_def registry_inv_def timed_inv_def
        thread_timer_inv_def defunct_inv_def)
qed

lemma set_priority_sel [simp]:
  "k_threads (set_priority t p k) = (k_threads k)(t := (thr k t)\<lparr>t_current_priority := p, t_number_mask := push_bit p 1\<rparr>)"
  "k_lists (set_priority t p k) = k_lists k" "k_current (set_priority t p k) = k_current k"
  "k_ready_group (set_priority t p k) = k_ready_group k" "k_timers (set_priority t p k) = k_timers k"
  "k_timer_list (set_priority t p k) = k_timer_list k" "k_objects (set_priority t p k) = k_objects k"
  "k_containers (set_priority t p k) = k_containers k" "k_tick (set_priority t p k) = k_tick k"
  "k_interrupt_nest (set_priority t p k) = k_interrupt_nest k"
  "k_lock_nest (set_priority t p k) = k_lock_nest k" "k_sems (set_priority t p k) = k_sems k"
  "k_mutexes (set_priority t p k) = k_mutexes k" "k_events (set_priority t p k) = k_events k"
  "k_mbs (set_priority t p k) = k_mbs k" "k_mqs (set_priority t p k) = k_mqs k"
  by (simp_all add: set_priority_def)

lemma change_priority_sel [simp]:
  "k_timers (change_priority t p k) = k_timers k" "k_current (change_priority t p k) = k_current k"
  "k_timer_list (change_priority t p k) = k_timer_list k" "k_objects (change_priority t p k) = k_objects k"
  "k_containers (change_priority t p k) = k_containers k" "k_tick (change_priority t p k) = k_tick k"
  "k_interrupt_nest (change_priority t p k) = k_interrupt_nest k"
  "k_lock_nest (change_priority t p k) = k_lock_nest k" "k_sems (change_priority t p k) = k_sems k"
  "k_mutexes (change_priority t p k) = k_mutexes k" "k_events (change_priority t p k) = k_events k"
  "k_mbs (change_priority t p k) = k_mbs k" "k_mqs (change_priority t p k) = k_mqs k"
  by (simp_all add: change_priority_def)

lemma change_priority_threads:
  assumes "kernel_inv k"
  shows "k_threads (change_priority t p k) =
      (k_threads k)(t := (thr k t)\<lparr>t_current_priority := p, t_number_mask := push_bit p 1\<rparr>)"
proof (cases "t_stat (thr k t) = RT_THREAD_READY")
  case True
  then have "k_current k \<noteq> Some t" using kernel_invD(2)[OF assms] by (auto simp: current_inv_def)
  moreover have "(thr k t)\<lparr>t_stat := RT_THREAD_READY\<rparr> = thr k t" using True by simp
  ultimately show ?thesis using True
    by (simp add: change_priority_def fun_eq_iff)
qed (simp add: change_priority_def)

lemma change_priority_waiting:
  assumes "kernel_inv k" "stat_of_list h \<noteq> RT_THREAD_READY"
  shows "k_lists (change_priority t p k) h = k_lists k h"
proof (cases "t_stat (thr k t) = RT_THREAD_READY")
  case True
  have "t \<notin> set (k_lists k h)"
    using thread_invD(1)[OF kernel_invD(6)[OF assms(1)], of t h] True assms(2) by auto
  moreover have "h \<noteq> Ready q" for q using assms(2) by auto
  ultimately show ?thesis by (simp add: change_priority_def remove1_idem)
qed (simp add: change_priority_def)

lemma kernel_inv_change_priority [rt_inv]:
  assumes inv: "kernel_inv k" and p: "p < 32"
  shows "kernel_inv (change_priority t p k)"
proof (rule kernel_inv_thread[OF inv])
  note d = kernel_invD[OF inv]
  have th: "k_threads (change_priority t p k) =
      (k_threads k)(t := (thr k t)\<lparr>t_current_priority := p, t_number_mask := push_bit p 1\<rparr>)"
    by (rule change_priority_threads[OF inv])
  show "thr (change_priority t p k) u = thr k u" if "u \<noteq> t" for u using that by (simp add: th)
  show "thread_timer_inv (change_priority t p k) t" using d(5)[of t] by (simp add: thread_timer_inv_def th)
  show "current_inv (change_priority t p k)" using d(2) by (auto simp: current_inv_def th)
  show "sched_inv (change_priority t p k)"
  proof (cases "t_stat (thr k t) = RT_THREAD_READY")
    case True
    then have "prio_ok (thr k t)" using thread_invD(4)[OF d(6), of t] by (simp add: live_stat_def)
    then have "sched_inv_ex {t} (rt_schedule_remove_thread t k)" using remove_thread_ex[OF d(7)] by simp
    then have "sched_inv_ex {t} (set_priority t p (rt_schedule_remove_thread t k))"
      unfolding set_priority_def by (rule sched_inv_ex_upd) simp
    then have "sched_inv_ex ({t} - {t}) (rt_schedule_insert_thread t (set_priority t p (rt_schedule_remove_thread t k)))"
      by (rule insert_thread_ex) (use p in \<open>auto simp: prio_ok_def\<close>)
    then show ?thesis using True by (simp add: change_priority_def sched_inv_def)
  next
    case False
    have nr: "t \<notin> set (ready_list k q)" for q
      using ready_prio_ok(3)[OF d(7), of t q] False by auto
    have "thread_inv (set_priority t p k) u" for u
      using d(6)[of u] nr False p by (auto simp: thread_inv_def prio_ok_def)
    then show ?thesis
      using d(7) False
      by (simp add: change_priority_def sched_inv_def sched_inv_ex_def tlist_inv_def bitmap_inv_def)
  qed
qed (use kernel_invD(8)[OF inv] change_priority_waiting[OF inv, of Defunct] in auto)

section \<open>The thread operations\<close>

lemma control_result:
  "rt_thread_control t (RT_THREAD_CTRL_CHANGE_PRIORITY p) k = Some k' \<Longrightarrow>
     k' = change_priority t (unat p) k \<and> o_type (k_objects k (OThread t)) = RT_Object_Class_Thread"
  by (auto simp: rt_thread_control_def rt_object_get_type_def bind_eq_Some_conv)

lemma kernel_inv_timeout_wake:
  assumes inv: "kernel_inv k" and nt: "ThreadTimer t \<notin> set (k_timer_list k)"
    and st: "t_stat (thr k t) = RT_THREAD_SUSPEND"
  shows "kernel_inv (rt_schedule_insert_thread t (tlist_remove t (upd_thr t (t_error_update (\<lambda>_. e)) k)))"
proof -
  note d = kernel_invD[OF inv]
  have "sched_inv_ex {t} (tlist_remove t k)" using tlist_remove_ex[OF d(7), of t] st by simp
  then have "sched_inv_ex {t} (upd_thr t (t_error_update (\<lambda>_. e)) (tlist_remove t k))"
    by (rule sched_inv_ex_upd) simp
  then have "sched_inv_ex {t} (tlist_remove t (upd_thr t (t_error_update (\<lambda>_. e)) k))"
    by (rule iffD1[OF sched_inv_ex_cong, rotated -1]) auto
  then show ?thesis
    by (rule kernel_inv_wake[OF inv _ st]) (use nt d(8) in \<open>auto dest: set_remove1_subset[THEN subsetD]\<close>)
qed

lemma kernel_inv_timeout [rt_inv]:
  assumes inv: "kernel_inv k" and nt: "ThreadTimer t \<notin> set (k_timer_list k)"
    and cur: "k_current k = Some c" and r: "rt_thread_timeout t k = Some k'"
  shows "kernel_inv k'"
proof -
  note d = kernel_invD[OF inv]
  let ?k1 = "tlist_remove t (upd_thr t (t_error_update (\<lambda>_. - RT_ETIMEOUT)) k)"
  have st: "t_stat (thr k t) = RT_THREAD_SUSPEND"
    and k': "rt_schedule (rt_schedule_insert_thread t ?k1) = Some k'"
    using r by (auto simp: rt_thread_timeout_def bind_eq_Some_conv Let_def)
  have "kernel_inv (rt_schedule_insert_thread t ?k1)" by (rule kernel_inv_timeout_wake[OF inv nt st])
  then show ?thesis by (rule kernel_inv_schedule[OF _ _ k']) (simp add: cur)
qed

lemma kernel_inv_startup [rt_inv]:
  assumes inv: "kernel_inv k" and r: "rt_thread_startup t k = Some k'"
  shows "kernel_inv k'"
proof -
  note d = kernel_invD[OF inv]
  let ?k1 = "upd_thr t (\<lambda>th. th\<lparr>t_current_priority := t_init_priority th,
        t_number_mask := push_bit (t_init_priority th) 1, t_stat := RT_THREAD_SUSPEND\<rparr>) k"
  obtain k2 r2 where st: "t_stat (thr k t) = RT_THREAD_INIT"
    and ty: "o_type (k_objects k (OThread t)) = RT_Object_Class_Thread"
    and k2: "rt_thread_resume t ?k1 = Some (k2, r2)"
    and k': "k_current k2 = None \<Longrightarrow> k' = k2" "k_current k2 \<noteq> None \<Longrightarrow> rt_schedule k2 = Some k'"
    using r by (auto simp: rt_thread_startup_def rt_thread_self_def rt_object_get_type_def
        bind_eq_Some_conv Let_def split: if_splits)
  have un: "unlinked k t" unfolding unlinked_def
  proof
    fix h show "t \<notin> set (k_lists k h)"
      using thread_invD(1)[OF d(6), of t h] st by (cases h) auto
  qed
  have "sched_inv_ex {t} k" using sched_inv_ex_weaken[OF d(7) un] by simp
  then have i1: "sched_inv_ex {t} ?k1" by (rule sched_inv_ex_upd) simp
  have ip: "t_init_priority (thr k t) < 32" using d(5)[of t] ty st by (simp add: thread_timer_inv_def)
  have "thread_inv ?k1 t"
    by (rule thread_inv_unlinked) (use un ip in \<open>auto simp: unlinked_def prio_ok_def\<close>)
  from sched_inv_ex_settle[OF i1 this] have "sched_inv ?k1" by (simp add: sched_inv_def)
  then have "kernel_inv ?k1"
    by (rule kernel_inv_thread[OF inv])
      (use d(2,8) d(5)[of t] ty st in \<open>auto simp: current_inv_def thread_timer_inv_def\<close>)
  then have "kernel_inv k2" by (rule kernel_inv_resume[OF _ k2])
  then show ?thesis using k' kernel_inv_schedule[of k2] by (cases "k_current k2") auto
qed

lemma kernel_inv_sleep [rt_inv]:
  assumes inv: "kernel_inv k" and run: "k_current k = Some t" "t_stat (thr k t) = RT_THREAD_RUNNING"
    and r: "rt_thread_sleep tick k = Some k'"
  shows "kernel_inv k'"
proof -
  obtain k1 where k1: "rt_thread_suspend t k = Some (k1, RT_EOK)"
    using suspend_enabled[OF inv] run(2) by blast
  let ?k2 = "upd_timer (ThreadTimer t) (tm_init_tick_update (\<lambda>_. tick)) k1"
  obtain k3 where k3: "rt_timer_start (ThreadTimer t) ?k2 = Some k3" and k': "rt_schedule k3 = Some k'"
    using r k1 run(1) by (auto simp: rt_thread_sleep_def rt_thread_self_def rt_timer_control_def bind_eq_Some_conv)
  note e = suspend_effect[OF inv k1]
  have i1: "kernel_inv k1" by (rule kernel_inv_suspend[OF inv k1])
  have i2: "kernel_inv ?k2"
    by (rule kernel_inv_timers[OF i1])
      (use kernel_invD(8)[OF i1] kernel_invD(5)[OF i1] in
        \<open>auto simp: same_but_timers_def upd_timer_def thread_timer_inv_def intro!: exI[of _ "k_timer_list k1"]\<close>)
  have "kernel_inv k3" by (rule kernel_inv_timer_start[OF i2 k3]) (use e in auto)
  moreover have "k_current k3 = Some t"
    using same_but_timersD(4)[OF timer_start_spec(1)[OF k3]] e run by simp
  ultimately show ?thesis using k' kernel_inv_schedule by blast
qed

section \<open>Ending and creating threads\<close>

lemma kernel_inv_closed:
  assumes inv: "kernel_inv k" and i1: "sched_inv_ex {t} k1" and fr: "k_threads k1 = k_threads k"
    and th: "k_threads k' = (k_threads k)(t := (thr k t)\<lparr>t_stat := RT_THREAD_CLOSE\<rparr>)"
    and ls: "k_lists k' = k_lists k1 \<or> k_lists k' = (k_lists k1)(Defunct := t # k_lists k1 Defunct)"
    and gr: "k_ready_group k' = k_ready_group k1" "k_current k' = k_current k1" "k_current k1 = k_current k"
    and tm: "k_timers k' = k_timers k" "k_timer_list k' = remove1 (ThreadTimer t) (k_timer_list k)"
    and ob: "o_type (k_objects k' (OTimer (ThreadTimer t))) = RT_Object_Class_Null"
      "\<And>u. u \<noteq> t \<Longrightarrow> k_objects k' (OThread u) = k_objects k (OThread u)"
      "\<And>u. u \<noteq> t \<Longrightarrow> k_objects k' (OTimer (ThreadTimer u)) = k_objects k (OTimer (ThreadTimer u))"
    and rg: "registry_inv k'"
    and df: "t \<in> set (k_lists k' Defunct) \<Longrightarrow> o_type (k_objects k' (OThread t)) = RT_Object_Class_Thread"
      "set (k_lists k1 Defunct) \<subseteq> set (k_lists k Defunct)"
  shows "kernel_inv k'"
proof -
  note d = kernel_invD[OF inv] and I = sched_inv_exD[OF i1]
  have un: "t \<notin> set (k_lists k1 h)" for h using I(4)[of t] by (simp add: unlinked_def)
  have "tlist_inv k'"
    using ls I(1) un unfolding tlist_inv_def
    by (elim disjE) (auto intro!: lists_ok_insert simp: lists_ok_def)
  moreover have rl: "ready_list k' p = ready_list k1 p" for p using ls by auto
  then have "bitmap_inv k'" using I(2) by (simp add: bitmap_inv_def gr)
  moreover have "thread_inv k' u" for u
  proof (cases "u = t")
    case True
    have "stat_of_list h = RT_THREAD_CLOSE" if "t \<in> set (k_lists k' h)" for h
      using that ls un[of h] by (cases "h = Defunct") auto
    then show ?thesis using True rl un by (simp add: thread_inv_def th live_stat_def)
  next
    case False
    then have "thread_inv k1 u" using I(3) by simp
    moreover have "u \<in> set (k_lists k' h) \<longleftrightarrow> u \<in> set (k_lists k1 h)" for h
      using ls False by (cases "h = Defunct") auto
    ultimately show ?thesis using False by (simp add: thread_inv_def th fr gr)
  qed
  ultimately have "sched_inv k'" by (simp add: sched_inv_def sched_inv_ex_def)
  moreover have "current_inv k'" using d(2) by (auto simp: current_inv_def th gr)
  moreover have "thread_timer_inv k' u" for u
  proof (cases "u = t")
    case True
    then show ?thesis using ob(1) d(8) by (simp add: thread_timer_inv_def th tm live_stat_def)
  next
    case False
    then show ?thesis
      using d(5)[of u] ob(2,3)[OF False] by (simp add: thread_timer_inv_def th tm)
  qed
  moreover have "defunct_inv k'"
    unfolding defunct_inv_def
  proof
    fix u assume u: "u \<in> set (k_lists k' Defunct)"
    show "o_type (k_objects k' (OThread u)) = RT_Object_Class_Thread"
    proof (cases "u = t")
      case False
      then have "u \<in> set (k_lists k Defunct)" using u ls df(2) by auto
      then show ?thesis using d(9) ob(2)[OF False] by (simp add: defunct_inv_def)
    qed (use df(1) u in simp)
  qed
  ultimately show ?thesis using rg d(8) by (simp add: kernel_inv_def timed_inv_def tm)
qed

lemma remove_for_close:
  assumes inv: "kernel_inv k" and ty: "o_type (k_objects k (OTimer (ThreadTimer t))) = RT_Object_Class_Timer"
  shows "sched_inv_ex {t} (if t_stat (thr k t) \<noteq> RT_THREAD_INIT then rt_schedule_remove_thread t k else k)"
proof -
  note d = kernel_invD[OF inv]
  have nc: "t_stat (thr k t) \<noteq> RT_THREAD_CLOSE" using d(5)[of t] ty by (auto simp: thread_timer_inv_def)
  show ?thesis
  proof (cases "t_stat (thr k t) = RT_THREAD_INIT")
    case True
    have "unlinked k t" unfolding unlinked_def
    proof
      fix h show "t \<notin> set (k_lists k h)" using thread_invD(1)[OF d(6), of t h] True by (cases h) auto
    qed
    then show ?thesis using True sched_inv_ex_weaken[OF d(7)] by simp
  next
    case False
    then have "live_stat (t_stat (thr k t))"
      using nc by (cases "t_stat (thr k t)") (auto simp: live_stat_def)
    then have "prio_ok (thr k t)" by (rule thread_invD(4)[OF d(6)])
    then show ?thesis using False remove_thread_ex[OF d(7), of t] by simp
  qed
qed

lemma timer_detach_result:
  "rt_timer_detach tm k = Some k' \<Longrightarrow>
     k' = rt_object_detach (OTimer tm) (timer_remove tm k) \<and>
     o_type (k_objects k (OTimer tm)) = RT_Object_Class_Timer"
  by (auto simp: rt_timer_detach_def rt_object_get_type_def bind_eq_Some_conv)

lemma object_detach_sel [simp]:
  "k_threads (rt_object_detach ob k) = k_threads k" "k_lists (rt_object_detach ob k) = k_lists k"
  "k_current (rt_object_detach ob k) = k_current k" "k_timers (rt_object_detach ob k) = k_timers k"
  "k_ready_group (rt_object_detach ob k) = k_ready_group k"
  "k_timer_list (rt_object_detach ob k) = k_timer_list k" "k_tick (rt_object_detach ob k) = k_tick k"
  "k_objects (rt_object_detach ob k) = (k_objects k)(ob :=
     (k_objects k ob)\<lparr>o_type := RT_Object_Class_Null, o_static := False\<rparr>)"
  "k_sems (rt_object_detach ob k) = k_sems k" "k_mutexes (rt_object_detach ob k) = k_mutexes k"
  "k_events (rt_object_detach ob k) = k_events k" "k_mbs (rt_object_detach ob k) = k_mbs k"
  "k_mqs (rt_object_detach ob k) = k_mqs k" "k_lock_nest (rt_object_detach ob k) = k_lock_nest k"
  "k_interrupt_nest (rt_object_detach ob k) = k_interrupt_nest k"
  by (simp_all add: rt_object_detach_def)

lemma timer_remove_sel [simp]:
  "k_threads (timer_remove tm k) = k_threads k" "k_lists (timer_remove tm k) = k_lists k"
  "k_current (timer_remove tm k) = k_current k" "k_timers (timer_remove tm k) = k_timers k"
  "k_ready_group (timer_remove tm k) = k_ready_group k" "k_objects (timer_remove tm k) = k_objects k"
  "k_timer_list (timer_remove tm k) = remove1 tm (k_timer_list k)"
  "k_containers (timer_remove tm k) = k_containers k" "k_tick (timer_remove tm k) = k_tick k"
  by (simp_all add: timer_remove_def)

lemma tlist_push_sel [simp]:
  "k_threads (tlist_push h t k) = k_threads k" "k_lists (tlist_push h t k) = (k_lists k)(h := t # k_lists k h)"
  "k_current (tlist_push h t k) = k_current k" "k_timers (tlist_push h t k) = k_timers k"
  "k_ready_group (tlist_push h t k) = k_ready_group k" "k_objects (tlist_push h t k) = k_objects k"
  "k_timer_list (tlist_push h t k) = k_timer_list k" "k_containers (tlist_push h t k) = k_containers k"
  "k_tick (tlist_push h t k) = k_tick k"
  by (simp_all add: tlist_push_def)

lemma registry_inv_upds [simp]:
  "registry_inv (upd_thr t f k) = registry_inv k" "registry_inv (tlist_push h t k) = registry_inv k"
  "registry_inv (timer_remove tm k) = registry_inv k"
  "registry_inv (rt_schedule_remove_thread t k) = registry_inv k"
  by (simp_all add: registry_inv_def)

lemma kernel_inv_delete [rt_inv]:
  assumes inv: "kernel_inv k" and r: "rt_thread_delete t k = Some k'"
  shows "kernel_inv k'"
proof -
  let ?k1 = "if t_stat (thr k t) \<noteq> RT_THREAD_INIT then rt_schedule_remove_thread t k else k"
  obtain k2 where k2: "rt_timer_detach (ThreadTimer t) ?k1 = Some k2"
    and k': "k' = tlist_push Defunct t (upd_thr t (t_stat_update (\<lambda>_. RT_THREAD_CLOSE)) k2)"
    and ty: "o_type (k_objects k (OThread t)) = RT_Object_Class_Thread"
    using r by (auto simp: rt_thread_delete_def rt_object_get_type_def bind_eq_Some_conv Let_def)
  note e = timer_detach_result[OF k2]
  have fr: "k_threads ?k1 = k_threads k" "k_current ?k1 = k_current k" "k_timers ?k1 = k_timers k"
    "k_timer_list ?k1 = k_timer_list k" "k_objects ?k1 = k_objects k" "registry_inv ?k1"
    "set (k_lists ?k1 Defunct) \<subseteq> set (k_lists k Defunct)"
    using kernel_invD(3)[OF inv] by (auto dest: set_remove1_subset[THEN subsetD])
  have i1: "sched_inv_ex {t} ?k1" by (rule remove_for_close[OF inv]) (use e fr in simp)
  show ?thesis
    by (rule kernel_inv_closed[OF inv i1])
      (unfold k' conjunct1[OF e], simp_all only: fr, simp_all add: fr registry_inv_detach ty)
qed

lemma release_thread_sel [simp]:
  "k_threads (release_thread t k) = k_threads k" "k_current (release_thread t k) = k_current k"
  "k_timers (release_thread t k) = k_timers k" "k_timer_list (release_thread t k) = k_timer_list k"
  "k_ready_group (release_thread t k) = k_ready_group k" "k_tick (release_thread t k) = k_tick k"
  "ob \<noteq> OThread t \<Longrightarrow> k_objects (release_thread t k) ob = k_objects k ob"
  by (simp_all add: release_thread_def)

lemma release_thread_lists:
  "k_lists (release_thread t k) = k_lists k \<or>
   k_lists (release_thread t k) = (k_lists k)(Defunct := t # k_lists k Defunct)"
  by (simp add: release_thread_def)

lemma release_thread_defunct:
  "t \<in> set (k_lists (release_thread t k) Defunct) \<Longrightarrow> t \<notin> set (k_lists k Defunct) \<Longrightarrow>
   o_type (k_objects k (OThread t)) = RT_Object_Class_Thread \<Longrightarrow>
   o_type (k_objects (release_thread t k) (OThread t)) = RT_Object_Class_Thread"
  by (auto simp: release_thread_def split: if_splits)

lemma registry_inv_release: "registry_inv k \<Longrightarrow> registry_inv (release_thread t k)"
  by (simp add: release_thread_def registry_inv_detach)

lemma kernel_inv_detach [rt_inv]:
  assumes inv: "kernel_inv k" and r: "rt_thread_detach t k = Some k'"
  shows "kernel_inv k'"
proof -
  let ?k1 = "if t_stat (thr k t) \<noteq> RT_THREAD_INIT then rt_schedule_remove_thread t k else k"
  obtain k2 where k2: "rt_timer_detach (ThreadTimer t) ?k1 = Some k2"
    and k': "k' = release_thread t (upd_thr t (t_stat_update (\<lambda>_. RT_THREAD_CLOSE)) k2)"
    and ty: "o_type (k_objects k (OThread t)) = RT_Object_Class_Thread"
    using r by (auto simp: rt_thread_detach_def rt_object_get_type_def bind_eq_Some_conv Let_def)
  note e = timer_detach_result[OF k2]
  have fr: "k_threads ?k1 = k_threads k" "k_current ?k1 = k_current k" "k_timers ?k1 = k_timers k"
    "k_timer_list ?k1 = k_timer_list k" "k_objects ?k1 = k_objects k" "registry_inv ?k1"
    "set (k_lists ?k1 Defunct) \<subseteq> set (k_lists k Defunct)"
    using kernel_invD(3)[OF inv] by (auto dest: set_remove1_subset[THEN subsetD])
  have i1: "sched_inv_ex {t} ?k1" by (rule remove_for_close[OF inv]) (use e fr in simp)
  have ls: "k_lists k' = k_lists ?k1 \<or> k_lists k' = (k_lists ?k1)(Defunct := t # k_lists ?k1 Defunct)"
    using release_thread_lists[of t "upd_thr t (t_stat_update (\<lambda>_. RT_THREAD_CLOSE)) k2"]
    unfolding k' conjunct1[OF e] by simp
  have nd: "t \<notin> set (k_lists ?k1 Defunct)" using sched_inv_exD(4)[OF i1, of t] by (simp add: unlinked_def)
  show ?thesis
  proof (rule kernel_inv_closed[OF inv i1 _ _ ls])
    show "o_type (k_objects k' (OThread t)) = RT_Object_Class_Thread" if "t \<in> set (k_lists k' Defunct)"
      using that unfolding k' by (rule release_thread_defunct) (use nd ty in \<open>simp_all add: conjunct1[OF e]\<close>)
  qed (unfold k' conjunct1[OF e], simp_all only: fr, simp_all add: fr registry_inv_detach registry_inv_release)
qed

lemma kernel_inv_exit [rt_inv]:
  assumes inv: "kernel_inv k" and cur: "k_current k = Some t" "t_stat (thr k t) \<noteq> RT_THREAD_INIT"
    and r: "rt_thread_exit k = Some k'"
  shows "kernel_inv k'"
proof -
  let ?k1 = "rt_schedule_remove_thread t k"
  let ?k1' = "upd_thr t (t_stat_update (\<lambda>_. RT_THREAD_CLOSE)) ?k1"
  obtain k2 where k2: "rt_timer_detach (ThreadTimer t) ?k1' = Some k2"
    and k': "rt_schedule (release_thread t k2) = Some k'"
    using r cur by (auto simp: rt_thread_exit_def rt_thread_self_def bind_eq_Some_conv Let_def)
  note e = timer_detach_result[OF k2]
  have i1: "sched_inv_ex {t} ?k1"
    using remove_for_close[OF inv, of t] conjunct2[OF e] cur(2) by simp
  have ls: "k_lists (release_thread t k2) = k_lists ?k1 \<or>
      k_lists (release_thread t k2) = (k_lists ?k1)(Defunct := t # k_lists ?k1 Defunct)"
    using release_thread_lists[of t k2] unfolding conjunct1[OF e] by simp
  have nd: "t \<notin> set (k_lists ?k1 Defunct)" using sched_inv_exD(4)[OF i1, of t] by (simp add: unlinked_def)
  have "t_stat (thr k t) \<noteq> RT_THREAD_CLOSE"
    using kernel_invD(5)[OF inv, of t] conjunct2[OF e] by (auto simp: thread_timer_inv_def)
  then have "live_stat (t_stat (thr k t))"
    using cur(2) by (cases "t_stat (thr k t)") (auto simp: live_stat_def)
  then have ty: "o_type (k_objects k (OThread t)) = RT_Object_Class_Thread"
    using kernel_invD(5)[OF inv, of t] by (simp add: thread_timer_inv_def)
  have "kernel_inv (release_thread t k2)"
  proof (rule kernel_inv_closed[OF inv i1 _ _ ls])
    show "o_type (k_objects (release_thread t k2) (OThread t)) = RT_Object_Class_Thread"
      if "t \<in> set (k_lists (release_thread t k2) Defunct)"
      using that by (rule release_thread_defunct) (use nd ty in \<open>simp_all add: conjunct1[OF e]\<close>)
  qed (unfold conjunct1[OF e], simp_all add: registry_inv_detach registry_inv_release kernel_invD(3)[OF inv] set_remove1_subset)
  moreover have "k_current (release_thread t k2) = Some t"
    using cur(1) by (simp add: conjunct1[OF e])
  ultimately show ?thesis using k' kernel_inv_schedule by blast
qed

text \<open>Creating: between the two registrations the thread's own timer is not yet valid.\<close>

definition kernel_inv_but :: "nat \<Rightarrow> kernel \<Rightarrow> bool" where
  "kernel_inv_but t k \<longleftrightarrow> sched_inv k \<and> current_inv k \<and> registry_inv k \<and> defunct_inv k \<and>
     distinct (k_timer_list k) \<and> (\<forall>u. u \<noteq> t \<longrightarrow> thread_timer_inv k u)"

lemma kernel_inv_but_settle:
  "kernel_inv k \<longleftrightarrow> kernel_inv_but t k \<and> thread_timer_inv k t"
  by (auto simp: kernel_inv_def kernel_inv_but_def timed_inv_def)

lemma kernel_inv_but_schedule:
  assumes inv: "kernel_inv_but t k" and cur: "k_current k = Some c" and r: "rt_schedule k = Some k'"
  shows "kernel_inv_but t k'" "sched_rel (thr k u) (thr k' u)"
proof -
  have d: "sched_inv k" "current_inv k" "registry_inv k" "defunct_inv k" "distinct (k_timer_list k)"
    using inv by (simp_all add: kernel_inv_but_def)
  have fr: "same_objects k k'" by (rule rt_schedule_frame[OF r])
  have fr': "k_objects k' = k_objects k" "k_timers k' = k_timers k" "k_timer_list k' = k_timer_list k"
    using fr by (simp_all add: same_objects_def)
  have "thread_timer_inv k' v" if "v \<noteq> t" for v
  proof -
    have rel: "sched_rel (thr k v) (thr k' v)" by (rule rt_schedule_threads[OF d(1,2) cur r])
    show ?thesis
      by (rule thread_timer_inv_cong[OF fr' sched_relD(3)[OF rel] sched_relD(7)[OF rel]])
        (use inv that in \<open>simp add: kernel_inv_but_def\<close>)
  qed
  then show "kernel_inv_but t k'"
    using rt_schedule_inv[OF d(1,2) cur r] defunct_inv_mono[OF d(4) fr'(1) rt_schedule_defunct[OF r]]
      d(3,5) fr by (simp add: kernel_inv_but_def registry_inv_def same_objects_def)
  show "sched_rel (thr k u) (thr k' u)" by (rule rt_schedule_threads[OF d(1,2) cur r])
qed

lemma kernel_inv_but_lock [simp]: "kernel_inv_but t (k\<lparr>k_lock_nest := n\<rparr>) = kernel_inv_but t k"
  by (simp add: kernel_inv_but_def sched_inv_def sched_inv_ex_def tlist_inv_def bitmap_inv_def
      thread_inv_def unlinked_def current_inv_def registry_inv_def defunct_inv_def thread_timer_inv_def)

lemma kernel_inv_but_critical:
  assumes inv: "kernel_inv_but t k" and r: "rt_exit_critical (rt_enter_critical k) = Some k'"
  shows "kernel_inv_but t k' \<and> sched_rel (thr k u) (thr k' u) \<and> k_timers k' = k_timers k \<and>
    k_timer_list k' = k_timer_list k \<and> k_objects k' = k_objects k \<and> k_containers k' = k_containers k"
  using r
proof (cases rule: exit_critical_result)
  case (1 n)
  then show ?thesis using inv by (simp add: rt_enter_critical_def sched_rel_refl)
next
  case (2 n c)
  let ?k = "k\<lparr>k_lock_nest := n\<rparr>"
  have i: "kernel_inv_but t ?k" "k_current ?k = Some c" "rt_schedule ?k = Some k'"
    using 2 inv by (simp_all add: rt_enter_critical_def)
  show ?thesis
    using kernel_inv_but_schedule(1)[OF i] kernel_inv_but_schedule(2)[OF i, of u] rt_schedule_frame[OF i(3)] by (simp add: same_objects_def)
qed

lemma kernel_inv_critical [rt_inv]:
  assumes inv: "kernel_inv k" and r: "rt_exit_critical (rt_enter_critical k) = Some k'"
  shows "kernel_inv k'"
  using r
proof (cases rule: exit_critical_result)
  case (2 n c)
  have "kernel_inv (k\<lparr>k_lock_nest := n\<rparr>)" "k_current (k\<lparr>k_lock_nest := n\<rparr>) = Some c"
    "rt_schedule (k\<lparr>k_lock_nest := n\<rparr>) = Some k'"
    using inv 2 by (simp_all add: rt_enter_critical_def)
  then show ?thesis by (rule kernel_inv_schedule)
qed (use inv in \<open>simp add: rt_enter_critical_def\<close>)

text \<open>Registering an object that is neither a thread nor a thread's timer.\<close>

definition plain_object :: "object_id \<Rightarrow> bool" where
  "plain_object ob \<longleftrightarrow> (\<forall>t. ob \<noteq> OThread t \<and> ob \<noteq> OTimer (ThreadTimer t))"

lemma thread_timer_inv_upd:
  assumes "thread_timer_inv k t"
    and "k_objects k' (OThread t) = k_objects k (OThread t)"
      "k_objects k' (OTimer (ThreadTimer t)) = k_objects k (OTimer (ThreadTimer t))"
      "k_timers k' (ThreadTimer t) = k_timers k (ThreadTimer t)" "k_timer_list k' = k_timer_list k"
      "thr k' t = thr k t"
  shows "thread_timer_inv k' t"
  using assms by (simp add: thread_timer_inv_def)

lemma kernel_inv_attach:
  assumes inv: "kernel_inv k" and ob: "plain_object ob" "ob \<notin> set (k_containers k (class_of ob))"
    and i: "o_type i = class_of ob"
  shows "kernel_inv (object_attach ob i k)"
proof -
  note d = kernel_invD[OF inv]
  have "thread_timer_inv (object_attach ob i k) t" for t
    by (rule thread_timer_inv_upd[OF d(5)]) (use ob(1) in \<open>auto simp: plain_object_def\<close>)
  moreover have "sched_inv (object_attach ob i k)"
    unfolding sched_inv_def by (rule iffD1[OF sched_inv_ex_cong d(7)]) simp_all
  ultimately show ?thesis
    using d(2,8,9) ob(1) registry_inv_attach[OF d(3) ob(2) i]
    by (auto simp: kernel_inv_def timed_inv_def current_inv_def defunct_inv_def plain_object_def)
qed

lemma kernel_inv_object_init [rt_inv]:
  assumes inv: "kernel_inv k" and ob: "plain_object ob" "cls = class_of ob"
    and r: "rt_object_init ob cls name k = Some k'"
  shows "kernel_inv k'"
  using r
proof (cases rule: object_init_result)
  case (1 k1)
  have "kernel_inv k1" by (rule kernel_inv_critical[OF inv 1(1)])
  moreover have "k_containers k1 = k_containers k"
    using rt_exit_critical_frame[OF 1(1)] by (simp add: rt_enter_critical_def)
  ultimately show ?thesis
    unfolding 1(4) using 1(2) ob by (intro kernel_inv_attach) auto
qed

lemma kernel_inv_object_detach [rt_inv]:
  assumes inv: "kernel_inv k" and ob: "plain_object ob"
  shows "kernel_inv (rt_object_detach ob k)"
proof -
  note d = kernel_invD[OF inv]
  have "thread_timer_inv (rt_object_detach ob k) t" for t
    by (rule thread_timer_inv_upd[OF d(5)]) (use ob in \<open>auto simp: plain_object_def\<close>)
  moreover have "sched_inv (rt_object_detach ob k)"
    unfolding sched_inv_def by (rule iffD1[OF sched_inv_ex_cong d(7)]) simp_all
  ultimately show ?thesis
    using d(2,8,9) ob registry_inv_detach[OF d(3)]
    by (auto simp: kernel_inv_def timed_inv_def current_inv_def defunct_inv_def plain_object_def)
qed

text \<open>What initialisation leaves in the thread's record.\<close>

definition fresh_thread :: "nat \<Rightarrow> nat \<Rightarrow> u8 \<Rightarrow> rt_thread \<Rightarrow> bool" where
  "fresh_thread ss sz prio th \<longleftrightarrow> t_stat th = RT_THREAD_INIT \<and> t_init_priority th = unat prio \<and>
     unat prio < 32 \<and> t_stack_addr th = ss \<and> t_stack_size th = sz \<and>
     t_sp th = rt_hw_stack_init (ss + sz - 4) \<and> (0 < sz \<longrightarrow> t_magic th = 35)"

text \<open>A thread that is not registered is not known to the scheduler.\<close>

lemma unregistered_unlinked:
  assumes inv: "kernel_inv k" and ty: "o_type (k_objects k (OThread t)) \<noteq> RT_Object_Class_Thread"
  shows "unlinked k t" "\<not> live_stat (t_stat (thr k t))" "ThreadTimer t \<notin> set (k_timer_list k)"
proof -
  note d = kernel_invD[OF inv]
  show nl: "\<not> live_stat (t_stat (thr k t))" using d(5)[of t] ty by (auto simp: thread_timer_inv_def)
  then show "ThreadTimer t \<notin> set (k_timer_list k)" using d(5)[of t] by (auto simp: thread_timer_inv_def live_stat_def)
  show "unlinked k t" unfolding unlinked_def
  proof
    fix h
    show "t \<notin> set (k_lists k h)"
      using thread_invD(1)[OF d(6), of t h] nl d(9) ty by (cases h) (auto simp: live_stat_def defunct_inv_def)
  qed
qed

lemma kernel_inv_thread_init_tail:
  assumes inv: "kernel_inv k" and ty: "o_type (k_objects k (OThread t)) \<noteq> RT_Object_Class_Thread"
    and nc: "OThread t \<notin> set (k_containers k RT_Object_Class_Thread)"
    and i: "o_type i = RT_Object_Class_Thread"
    and r: "thread_init t ss sz prio tick (object_attach (OThread t) i k) = Some k'"
  shows "kernel_inv k' \<and> fresh_thread ss sz prio (thr k' t)"
proof -
  note d = kernel_invD[OF inv] and un = unregistered_unlinked[OF inv ty]
  obtain f k1 where fr: "\<And>th. fresh_thread ss sz prio (f th)"
    and k1: "rt_object_init (OTimer (ThreadTimer t)) RT_Object_Class_Timer (o_name i)
        (upd_thr t f (object_attach (OThread t) i k)) = Some k1"
    and k': "k' = timer_init (ThreadTimer t) (Rt_Thread_Timeout t) 0 0 k1"
  proof -
    let ?f = "\<lambda>th. th\<lparr>t_stack_addr := ss, t_stack_size := sz,
        t_magic := (if 0 < sz then 35 else t_magic th), t_sp := rt_hw_stack_init (ss + sz - 4),
        t_init_priority := unat prio, t_current_priority := unat prio, t_number_mask := 0,
        t_init_tick := tick, t_remaining_tick := tick, t_error := RT_EOK, t_stat := RT_THREAD_INIT,
        t_cleanup := None\<rparr>"
    have "rt_timer_init (ThreadTimer t) (o_name i) (Rt_Thread_Timeout t) 0 0
        (upd_thr t ?f (object_attach (OThread t) i k)) = Some k'" "unat prio < 32"
      using r by (auto simp: thread_init_def bind_eq_Some_conv Let_def RT_THREAD_PRIORITY_MAX_def upd_thr_def)
    then show thesis
      by (auto simp: rt_timer_init_def bind_eq_Some_conv fresh_thread_def intro!: that[of ?f])
  qed
  have f: "\<And>th. t_stat (f th) = RT_THREAD_INIT" "\<And>th. t_init_priority (f th) = unat prio"
    and p: "unat prio < 32" using fr by (auto simp: fresh_thread_def)
  let ?k0 = "upd_thr t f (object_attach (OThread t) i k)"
  have "kernel_inv_but t ?k0"
  proof -
    have "thread_timer_inv ?k0 u" if "u \<noteq> t" for u
      by (rule thread_timer_inv_upd[OF d(5)]) (use that in auto)
    moreover have "sched_inv ?k0"
    proof -
      have "sched_inv_ex {t} k" using sched_inv_ex_weaken[OF d(7) un(1)] by simp
      then have "sched_inv_ex {t} (object_attach (OThread t) i k)"
        by (rule iffD2[OF sched_inv_ex_cong, rotated -1]) simp_all
      then have i0: "sched_inv_ex {t} ?k0" by (rule sched_inv_ex_upd) simp
      have "thread_inv ?k0 t"
        by (rule thread_inv_unlinked) (use un(1) f in \<open>auto simp: unlinked_def live_stat_def\<close>)
      from sched_inv_ex_settle[OF i0 this] show ?thesis by (simp add: sched_inv_def)
    qed
    moreover have "registry_inv (object_attach (OThread t) i k)"
      by (rule registry_inv_attach[OF d(3)]) (use nc i in auto)
    ultimately show ?thesis
      using d(2,8,9) i f by (auto simp: kernel_inv_but_def current_inv_def defunct_inv_def)
  qed
  note i0 = this
  from k1 show ?thesis
  proof (cases rule: object_init_result)
    case (1 k2)
    note c = kernel_inv_but_critical[OF i0 1(1), of t]
    have fr2: "fresh_thread ss sz prio (thr k2 t)"
      using c fr[of "thr k t"] by (auto simp: sched_rel_def fresh_thread_def)
    then have st: "t_stat (thr k2 t) = RT_THREAD_INIT" "t_init_priority (thr k2 t) = unat prio"
      by (auto simp: fresh_thread_def)
    let ?ti = "\<lparr>o_name = take RT_NAME_MAX (o_name i), o_type = RT_Object_Class_Timer, o_static = True\<rparr>"
    have k'': "k' = timer_init (ThreadTimer t) (Rt_Thread_Timeout t) 0 0
        (object_attach (OTimer (ThreadTimer t)) ?ti k2)" using k' 1(4) by simp
    have "kernel_inv_but t k'"
    proof -
      have "thread_timer_inv k' u" if "u \<noteq> t" for u
        by (rule thread_timer_inv_upd[of k2]) (use c that in \<open>auto simp: k'' timer_init_def kernel_inv_but_def\<close>)
      moreover have "sched_inv k'"
        using c by (simp add: kernel_inv_but_def sched_inv_def k'' timer_init_def sched_inv_ex_def
            tlist_inv_def bitmap_inv_def thread_inv_def unlinked_def)
      moreover have "registry_inv (object_attach (OTimer (ThreadTimer t)) ?ti k2)"
        by (rule registry_inv_attach) (use c 1(2) in \<open>auto simp: kernel_inv_but_def\<close>)
      ultimately show ?thesis
        using c by (auto simp: kernel_inv_but_def current_inv_def defunct_inv_def k'' timer_init_def registry_inv_def)
    qed
    moreover have "thread_timer_inv k' t"
      using st p c un(3) by (simp add: thread_timer_inv_def k'' timer_init_def live_stat_def)
    moreover have "thr k' t = thr k2 t" by (simp add: k'' timer_init_def)
    ultimately show ?thesis using fr2 by (simp add: kernel_inv_but_settle[of _ t])
  qed
qed

lemma kernel_inv_thread_init [rt_inv]:
  assumes inv: "kernel_inv k" and r: "rt_thread_init t name ss sz prio tick k = Some k'"
  shows "kernel_inv k' \<and> fresh_thread ss sz prio (thr k' t)"
proof -
  obtain k1 where k1: "rt_object_init (OThread t) RT_Object_Class_Thread name k = Some k1"
    and k': "thread_init t ss sz prio tick k1 = Some k'"
    using r by (auto simp: rt_thread_init_def bind_eq_Some_conv)
  from k1 show ?thesis
  proof (cases rule: object_init_result)
    case (1 k2)
    have i2: "kernel_inv k2" by (rule kernel_inv_critical[OF inv 1(1)])
    have nc: "OThread t \<notin> set (k_containers k2 RT_Object_Class_Thread)"
      using 1(2) rt_exit_critical_frame[OF 1(1)] by (simp add: rt_enter_critical_def)
    then have "o_type (k_objects k2 (OThread t)) \<noteq> RT_Object_Class_Thread"
      using kernel_invD(3)[OF i2] by (auto simp: registry_inv_def)
    from kernel_inv_thread_init_tail[OF i2 this nc _ k'[unfolded 1(4)]] show ?thesis by simp
  qed
qed

end
