(* ===== verification/Clock.thy ===== *)
theory Clock
  imports Kernel_Inv
begin

text \<open>
  The tick: \<^verbatim>\<open>rt_timer_check\<close> of \<^verbatim>\<open>src/timer.c\<close> and \<^verbatim>\<open>rt_tick_increase\<close> of \<^verbatim>\<open>src/clock.c\<close>. The
  timeout functions of user timers are a parameter; a thread's timer calls \<^verbatim>\<open>rt_thread_timeout\<close>.
  The check loop is a partial function: \<open>None\<close> is a failed assertion or a loop that never ends.
\<close>

section \<open>Operations\<close>

definition timeout_call :: "(nat \<Rightarrow> kernel \<Rightarrow> kernel option) \<Rightarrow> timeout_func \<Rightarrow> kernel \<Rightarrow> kernel option" where
  "timeout_call cb f k = (case f of Rt_Thread_Timeout t \<Rightarrow> rt_thread_timeout t k | User_Timeout i \<Rightarrow> cb i k)"

partial_function (option) timer_check_loop ::
  "(nat \<Rightarrow> kernel \<Rightarrow> kernel option) \<Rightarrow> rt_tick_t \<Rightarrow> kernel \<Rightarrow> kernel option" where
  "timer_check_loop cb current_tick k =
     (case k_timer_list k of
        [] \<Rightarrow> Some k
      | tm # _ \<Rightarrow>
          if current_tick - tm_timeout_tick (k_timers k tm) < RT_TICK_HALF then
            Option.bind (timeout_call cb (tm_func (k_timers k tm)) (timer_remove tm k)) (\<lambda>k.
              if tm_periodic (k_timers k tm) \<and> tm_activated (k_timers k tm)
              then Option.bind (rt_timer_start tm (upd_timer tm (tm_activated_update (\<lambda>_. False)) k))
                     (timer_check_loop cb (rt_tick_get k))
              else timer_check_loop cb (rt_tick_get k) (upd_timer tm (tm_activated_update (\<lambda>_. False)) k))
          else Some k)"

definition rt_timer_check :: "(nat \<Rightarrow> kernel \<Rightarrow> kernel option) \<Rightarrow> kernel \<Rightarrow> kernel option" where
  "rt_timer_check cb k = timer_check_loop cb (rt_tick_get k) k"

definition rt_tick_increase :: "(nat \<Rightarrow> kernel \<Rightarrow> kernel option) \<Rightarrow> kernel \<Rightarrow> kernel option" where
  "rt_tick_increase cb k = do {
     let k = k\<lparr>k_tick := k_tick k + 1\<rparr>;
     t \<leftarrow> rt_thread_self k;
     let k = upd_thr t (\<lambda>th. th\<lparr>t_remaining_tick := t_remaining_tick th - 1\<rparr>) k;
     k \<leftarrow> (if t_remaining_tick (thr k t) = 0
          then rt_thread_yield (upd_thr t (\<lambda>th. th\<lparr>t_remaining_tick := t_init_tick th\<rparr>) k)
          else Some k);
     rt_timer_check cb k }"

section \<open>Order of the timer list\<close>

text \<open>\<open>dist r d\<close> is how far the tick \<open>d\<close> lies after \<open>r\<close>, around the wrap.\<close>

definition dist :: "rt_tick_t \<Rightarrow> rt_tick_t \<Rightarrow> nat" where
  "dist r d = unat (d - r)"

definition due :: "kernel \<Rightarrow> timer_id \<Rightarrow> rt_tick_t" where
  "due k tm = tm_timeout_tick (k_timers k tm)"

definition half :: nat where "half = unat RT_TICK_HALF"

definition queue_ok :: "rt_tick_t \<Rightarrow> nat \<Rightarrow> (timer_id \<Rightarrow> rt_tick_t) \<Rightarrow> timer_id list \<Rightarrow> bool" where
  "queue_ok r b d ts \<longleftrightarrow> (\<forall>t \<in> set ts. dist r (d t) \<le> b) \<and> sorted (map (\<lambda>t. dist r (d t)) ts)"

text \<open>The pending timers are in order of expiry, all within half the tick range.\<close>

definition timer_queue_inv :: "kernel \<Rightarrow> bool" where
  "timer_queue_inv k \<longleftrightarrow> queue_ok (k_tick k) (half - 1) (due k) (k_timer_list k)"

definition expired :: "kernel \<Rightarrow> timer_id \<Rightarrow> bool" where
  "expired k tm \<longleftrightarrow> k_tick k - due k tm < RT_TICK_HALF"

lemma half_val: "half = 2147483647"
  by (simp add: half_def RT_TICK_HALF_def)

lemma dist_diff:
  fixes r a b :: rt_tick_t
  shows "unat (b - a) = (if dist r a \<le> dist r b then dist r b - dist r a else 2 ^ 32 + dist r b - dist r a)"
proof -
  have e: "b - a = (b - r) - (a - r)" by simp
  have lt: "unat (a - r) < 2 ^ 32" using unsigned_less[of "a - r"] by simp
  show ?thesis
    unfolding dist_def e
    using unat_sub_if_size[of "b - r" "a - r"] lt by (auto simp: word_size word_le_nat_alt)
qed

lemma before_iff:
  assumes "dist r a \<le> half" "dist r b \<le> half" "dist r a < half \<or> 0 < dist r b"
  shows "(a - b = 0 \<longleftrightarrow> dist r a = dist r b)" "(a - b \<noteq> 0 \<and> a - b < RT_TICK_HALF \<longleftrightarrow> dist r b < dist r a)"
proof -
  have e: "unat (a - b) = (if dist r b \<le> dist r a then dist r a - dist r b else 2 ^ 32 + dist r a - dist r b)"
    by (rule dist_diff)
  have "a - b = 0 \<longleftrightarrow> unat (a - b) = 0" by (simp only: unat_eq_0)
  then show 1: "a - b = 0 \<longleftrightarrow> dist r a = dist r b"
    using e assms by (cases "dist r b \<le> dist r a") (auto simp: half_val)
  have "a - b < RT_TICK_HALF \<longleftrightarrow> unat (a - b) < half" by (simp add: word_less_nat_alt half_def)
  then show "a - b \<noteq> 0 \<and> a - b < RT_TICK_HALF \<longleftrightarrow> dist r b < dist r a"
    unfolding 1 using e assms by (cases "dist r b \<le> dist r a") (auto simp: half_val)
qed

lemma timer_insert_split:
  assumes "\<forall>t \<in> set ts. dist r (d t) \<le> half" "dist r (d tm) \<le> half"
    and "0 < dist r (d tm) \<or> (\<forall>t \<in> set ts. dist r (d t) < half)"
    and "sorted (map (\<lambda>t. dist r (d t)) ts)"
  shows "\<exists>xs ys. ts = xs @ ys \<and> timer_insert d tm ts = xs @ tm # ys \<and>
    (\<forall>t \<in> set xs. dist r (d t) \<le> dist r (d tm)) \<and> (\<forall>t \<in> set ys. dist r (d tm) < dist r (d t))"
  using assms
proof (induction ts)
  case (Cons t ts)
  have b: "(d t - d tm = 0 \<longleftrightarrow> dist r (d t) = dist r (d tm))"
    "(d t - d tm \<noteq> 0 \<and> d t - d tm < RT_TICK_HALF \<longleftrightarrow> dist r (d tm) < dist r (d t))"
    using before_iff[of r "d t" "d tm"] Cons.prems(1-3) by auto
  show ?case
  proof (cases "dist r (d tm) < dist r (d t)")
    case True
    then have "timer_insert d tm (t # ts) = [] @ tm # (t # ts)" using b by auto
    moreover have "\<forall>u \<in> set (t # ts). dist r (d tm) < dist r (d u)"
      using True Cons.prems(4) by auto
    ultimately show ?thesis by (metis append_Nil empty_iff list.set(1))
  next
    case False
    then have i: "timer_insert d tm (t # ts) = t # timer_insert d tm ts" using b by auto
    have "\<exists>xs ys. ts = xs @ ys \<and> timer_insert d tm ts = xs @ tm # ys \<and>
      (\<forall>t \<in> set xs. dist r (d t) \<le> dist r (d tm)) \<and> (\<forall>t \<in> set ys. dist r (d tm) < dist r (d t))"
      using Cons.IH Cons.prems by auto
    then obtain xs ys where "ts = xs @ ys" "timer_insert d tm ts = xs @ tm # ys"
      "\<forall>t \<in> set xs. dist r (d t) \<le> dist r (d tm)" "\<forall>t \<in> set ys. dist r (d tm) < dist r (d t)" by blast
    then show ?thesis using i False
      by (intro exI[of _ "t # xs"] exI[of _ ys]) auto
  qed
qed simp

lemma timer_insert_sorted:
  assumes q: "queue_ok r b d ts" "b \<le> half" "dist r (d tm) \<le> b"
    and "0 < dist r (d tm) \<or> b < half"
  shows "queue_ok r b d (timer_insert d tm ts)"
proof -
  have "\<forall>t \<in> set ts. dist r (d t) \<le> half" "dist r (d tm) \<le> half"
    "0 < dist r (d tm) \<or> (\<forall>t \<in> set ts. dist r (d t) < half)"
    "sorted (map (\<lambda>t. dist r (d t)) ts)"
    using assms by (auto simp: queue_ok_def)
  from timer_insert_split[OF this] obtain xs ys where
    e: "ts = xs @ ys" "timer_insert d tm ts = xs @ tm # ys"
    "\<forall>t \<in> set xs. dist r (d t) \<le> dist r (d tm)" "\<forall>t \<in> set ys. dist r (d tm) < dist r (d t)" by blast
  then show ?thesis
    using q by (auto simp: queue_ok_def sorted_append less_imp_le)
qed

lemma queue_ok_cong:
  "(\<And>t. t \<in> set ts \<Longrightarrow> d t = d' t) \<Longrightarrow> queue_ok r b d ts = queue_ok r b d' ts"
  by (auto simp: queue_ok_def cong: map_cong)

lemma queue_ok_remove: "queue_ok r b d ts \<Longrightarrow> queue_ok r b d (remove1 t ts)"
  unfolding queue_ok_def
  by (metis sorted_map_remove1 set_remove1_subset subsetD)

text \<open>Starting a timer keeps the order.\<close>

lemma timer_start_queue:
  assumes q: "timer_queue_inv k" and r: "rt_timer_start tm k = Some k'" and d: "distinct (k_timer_list k)"
  shows "queue_ok (k_tick k) (half - 1) (due k') (remove1 tm (k_timer_list k))"
    "dist (k_tick k) (due k' tm) \<le> half - 1"
    "due k' t = (if t = tm then k_tick k + tm_init_tick (k_timers k tm) else due k t)"
    "k_timer_list k' = timer_insert (due k') tm (remove1 tm (k_timer_list k))" "timer_queue_inv k'"
proof -
  note s = timer_start_spec[OF r] and e = same_but_timersD[OF timer_start_spec(1)[OF r]]
  let ?ts = "remove1 tm (k_timer_list k)"
  have du: "due k' t = (if t = tm then k_tick k + tm_init_tick (k_timers k tm) else due k t)" for t
    by (simp add: due_def s(2))
  then show "due k' t = (if t = tm then k_tick k + tm_init_tick (k_timers k tm) else due k t)" .
  have "queue_ok (k_tick k) (half - 1) (due k) ?ts" using q by (simp add: timer_queue_inv_def queue_ok_remove)
  then show q1: "queue_ok (k_tick k) (half - 1) (due k') ?ts"
    by (rule queue_ok_cong[THEN iffD1, rotated]) (use d in \<open>auto simp: du\<close>)
  have "unat (tm_init_tick (k_timers k tm)) < half"
    using s(4) by (simp add: half_def word_less_nat_alt)
  then show dt: "dist (k_tick k) (due k' tm) \<le> half - 1" by (simp add: du dist_def half_val)
  show l: "k_timer_list k' = timer_insert (due k') tm ?ts" unfolding s(3) due_def ..
  show "timer_queue_inv k'"
    unfolding timer_queue_inv_def l e(7)
    by (rule timer_insert_sorted[OF q1 _ dt]) (simp_all add: half_val)
qed

section \<open>Scheduling does not fail\<close>

definition stacks_ok :: "kernel \<Rightarrow> bool" where
  "stacks_ok k \<longleftrightarrow> (\<forall>t. live_stat (t_stat (thr k t)) \<longrightarrow> rt_scheduler_stack_check (thr k t) = Some ())"

lemma stack_check_stat [simp]:
  "rt_scheduler_stack_check (th\<lparr>t_stat := s\<rparr>) = rt_scheduler_stack_check th"
  "rt_scheduler_stack_check (th\<lparr>t_error := e\<rparr>) = rt_scheduler_stack_check th"
  "rt_scheduler_stack_check (th\<lparr>t_remaining_tick := n\<rparr>) = rt_scheduler_stack_check th"
  "rt_scheduler_stack_check (th\<lparr>t_event_set := f\<rparr>) = rt_scheduler_stack_check th"
  "rt_scheduler_stack_check (th\<lparr>t_event_info := i\<rparr>) = rt_scheduler_stack_check th"
  by (simp_all add: rt_scheduler_stack_check_def)

lemma schedule_enabled:
  assumes inv: "kernel_inv k" and st: "stacks_ok k" and cur: "k_current k = Some c"
  shows "\<exists>k'. rt_schedule k = Some k'"
  using kernel_invD(1)[OF inv] cur
proof (cases rule: rt_schedule_cases)
  case self
  then show ?thesis using kernel_invD(2)[OF inv] cur by (simp add: current_inv_def)
next
  case (switch to p)
  have "t_stat (thr k to) = RT_THREAD_READY"
    using ready_prio_ok(3)[OF kernel_invD(7)[OF inv] switch(3)] .
  then have "rt_scheduler_stack_check (thr k to) = Some ()" using st by (simp add: stacks_ok_def live_stat_def)
  then show ?thesis using switch(8) by simp
qed auto

lemma schedule_stacks_ok:
  assumes inv: "kernel_inv k" and st: "stacks_ok k" and cur: "k_current k = Some c"
    and r: "rt_schedule k = Some k'"
  shows "stacks_ok k'"
  unfolding stacks_ok_def
proof (intro allI impI)
  fix t
  have "sched_rel (thr k t) (thr k' t)"
    by (rule rt_schedule_threads[OF kernel_invD(1,2)[OF inv] cur r])
  then obtain s where s: "thr k' t = (thr k t)\<lparr>t_stat := s\<rparr>"
    "s = t_stat (thr k t) \<or> {t_stat (thr k t), s} \<subseteq> {RT_THREAD_READY, RT_THREAD_RUNNING}"
    by (auto simp: sched_rel_def)
  assume "live_stat (t_stat (thr k' t))"
  then have "live_stat (t_stat (thr k t))" using s by (auto simp: live_stat_def)
  then show "rt_scheduler_stack_check (thr k' t) = Some ()" using st s(1) by (simp add: stacks_ok_def)
qed

lemma schedule_current:
  assumes "kernel_inv k" "k_current k = Some c" "rt_schedule k = Some k'"
  shows "k_current k' \<noteq> None"
  using kernel_invD(1)[OF assms(1)] assms(2)
proof (cases rule: rt_schedule_cases)
  case (switch to p)
  then show ?thesis using assms(3) by (auto split: option.splits)
qed (use assms kernel_invD(2)[OF assms(1)] in \<open>auto simp: current_inv_def\<close>)

section \<open>The check loop\<close>

text \<open>What a timeout function may do: it may stop pending timers, wake threads and switch, but
  starts no timer.\<close>

definition same_timer :: "rt_timer \<Rightarrow> rt_timer \<Rightarrow> bool" where
  "same_timer a b \<longleftrightarrow> b = a\<lparr>tm_activated := tm_activated b\<rparr>"

definition callback_frame :: "kernel \<Rightarrow> kernel \<Rightarrow> bool" where
  "callback_frame k k' \<longleftrightarrow> kernel_inv k' \<and> stacks_ok k' \<and> k_current k' \<noteq> None \<and> k_tick k' = k_tick k \<and>
     k_objects k' = k_objects k \<and> (\<exists>P. k_timer_list k' = filter P (k_timer_list k)) \<and>
     (\<forall>tm. same_timer (k_timers k tm) (k_timers k' tm))"

definition callback_ok :: "(nat \<Rightarrow> kernel \<Rightarrow> kernel option) \<Rightarrow> bool" where
  "callback_ok cb \<longleftrightarrow> (\<forall>i k. kernel_inv k \<longrightarrow> stacks_ok k \<longrightarrow> k_current k \<noteq> None \<longrightarrow>
     (\<exists>k'. cb i k = Some k' \<and> callback_frame k k'))"

text \<open>Pending timers are registered; a periodic one has a period.\<close>

definition listed_ok :: "kernel \<Rightarrow> bool" where
  "listed_ok k \<longleftrightarrow> (\<forall>tm \<in> set (k_timer_list k).
     o_type (k_objects k (OTimer tm)) = RT_Object_Class_Timer \<and>
     (tm_periodic (k_timers k tm) \<longrightarrow> 0 < tm_init_tick (k_timers k tm) \<and> tm_init_tick (k_timers k tm) < RT_TICK_HALF) \<and>
     (\<forall>u. tm = UserTimer u \<longrightarrow> (\<exists>i. tm_func (k_timers k tm) = User_Timeout i)))"

definition check_inv :: "kernel \<Rightarrow> bool" where
  "check_inv k \<longleftrightarrow> kernel_inv k \<and> stacks_ok k \<and> k_current k \<noteq> None \<and> listed_ok k \<and>
     queue_ok (k_tick k - 1) half (due k) (k_timer_list k)"

lemma expired_iff:
  assumes "dist (k_tick k - 1) (due k tm) \<le> half"
  shows "expired k tm \<longleftrightarrow> dist (k_tick k - 1) (due k tm) \<le> 1"
    and "\<not> expired k tm \<Longrightarrow> dist (k_tick k) (due k tm) = dist (k_tick k - 1) (due k tm) - 1"
proof -
  let ?r = "k_tick k - 1"
  have one: "dist ?r (k_tick k) = 1" by (simp add: dist_def)
  have e: "unat (k_tick k - due k tm) =
      (if dist ?r (due k tm) \<le> 1 then 1 - dist ?r (due k tm) else 2 ^ 32 + 1 - dist ?r (due k tm))"
    using dist_diff[of "k_tick k" "due k tm" ?r] unfolding one by simp
  have "expired k tm \<longleftrightarrow> unat (k_tick k - due k tm) < half"
    by (simp add: expired_def half_def word_less_nat_alt)
  then show x: "expired k tm \<longleftrightarrow> dist ?r (due k tm) \<le> 1"
    using e assms by (auto simp: half_val)
  have "dist (k_tick k) (due k tm) = unat (due k tm - k_tick k)" by (simp add: dist_def)
  then show "dist (k_tick k) (due k tm) = dist ?r (due k tm) - 1" if "\<not> expired k tm"
    using that x dist_diff[of "due k tm" "k_tick k" ?r] unfolding one by simp
qed

lemma thread_timeout_frame:
  assumes inv: "kernel_inv k" "stacks_ok k" "k_current k \<noteq> None"
    and t: "ThreadTimer t \<notin> set (k_timer_list k)" "t_stat (thr k t) = RT_THREAD_SUSPEND"
  shows "\<exists>k'. rt_thread_timeout t k = Some k' \<and> callback_frame k k'"
proof -
  note d = kernel_invD[OF inv(1)]
  obtain c where c: "k_current k = Some c" using inv(3) by blast
  have ty: "o_type (k_objects k (OThread t)) = RT_Object_Class_Thread"
    using d(5)[of t] t(2) by (auto simp: thread_timer_inv_def live_stat_def)
  let ?k1 = "rt_schedule_insert_thread t (tlist_remove t (upd_thr t (t_error_update (\<lambda>_. - RT_ETIMEOUT)) k))"
  have e: "rt_thread_timeout t k = rt_schedule ?k1"
    using t(2) ty by (simp add: rt_thread_timeout_def rt_object_get_type_def Let_def)
  have i1: "kernel_inv ?k1" by (rule kernel_inv_timeout_wake[OF inv(1) t])
  have s1: "stacks_ok ?k1"
    using inv(2) t(2) by (auto simp: stacks_ok_def live_stat_def)
  have c1: "k_current ?k1 = Some c" using c by simp
  obtain k' where k': "rt_schedule ?k1 = Some k'" using schedule_enabled[OF i1 s1 c1] by blast
  have "callback_frame k k'"
    unfolding callback_frame_def
    using rt_schedule_frame[OF k'] kernel_inv_schedule[OF i1 c1 k'] schedule_stacks_ok[OF i1 s1 c1 k']
      schedule_current[OF i1 c1 k']
    by (auto simp: same_objects_def same_timer_def intro!: exI[of _ "\<lambda>_. True"])
  then show ?thesis using e k' by auto
qed

lemma kernel_inv_timer_remove:
  assumes inv: "kernel_inv k"
  shows "kernel_inv (timer_remove tm k)"
  by (rule kernel_inv_timers[OF inv])
    (use kernel_invD(5)[OF inv] kernel_invD(8)[OF inv] in
      \<open>auto simp: same_but_timers_def timer_remove_def thread_timer_inv_def intro!: exI[of _ "k_timers k"]\<close>)

lemma fire_timer:
  assumes ci: "check_inv k" and l: "k_timer_list k = tm # ts" and cb: "callback_ok cb"
  shows "\<exists>k1. timeout_call cb (tm_func (k_timers k tm)) (timer_remove tm k) = Some k1 \<and>
    callback_frame (timer_remove tm k) k1"
proof -
  have inv: "kernel_inv k" "stacks_ok k" "k_current k \<noteq> None" "listed_ok k"
    using ci by (auto simp: check_inv_def)
  note d = kernel_invD[OF inv(1)]
  have inv': "kernel_inv (timer_remove tm k)" "stacks_ok (timer_remove tm k)" "k_current (timer_remove tm k) \<noteq> None"
    using kernel_inv_timer_remove[OF inv(1)] inv by (auto simp: stacks_ok_def)
  show ?thesis
  proof (cases tm)
    case (UserTimer u)
    obtain i where "tm_func (k_timers k tm) = User_Timeout i"
      using inv(4) l UserTimer by (auto simp: listed_ok_def)
    then show ?thesis using cb inv' by (simp add: timeout_call_def callback_ok_def)
  next
    case (ThreadTimer t)
    have st: "t_stat (thr k t) = RT_THREAD_SUSPEND"
      using d(5)[of t] l ThreadTimer by (simp add: thread_timer_inv_def)
    then have "tm_func (k_timers k tm) = Rt_Thread_Timeout t"
      using d(5)[of t] ThreadTimer by (auto simp: thread_timer_inv_def live_stat_def)
    moreover have "ThreadTimer t \<notin> set (k_timer_list (timer_remove tm k))"
      using d(8) ThreadTimer by simp
    ultimately show ?thesis
      using thread_timeout_frame[OF inv', of t] st by (simp add: timeout_call_def)
  qed
qed

lemma queue_ok_filter: "queue_ok r b d ts \<Longrightarrow> queue_ok r b d (filter P ts)"
  by (simp add: queue_ok_def sorted_filter)

lemma queue_ok_tl: "queue_ok r b d (t # ts) \<Longrightarrow> queue_ok r b d ts"
  by (simp add: queue_ok_def)

lemma same_timerD:
  "same_timer a b \<Longrightarrow> tm_periodic b = tm_periodic a \<and> tm_func b = tm_func a \<and>
     tm_init_tick b = tm_init_tick a \<and> tm_timeout_tick b = tm_timeout_tick a"
  by (metis same_timer_def rt_timer.select_convs rt_timer.surjective rt_timer.update_convs(1))

lemma callback_frameD:
  assumes "callback_frame k k'"
  shows "kernel_inv k'" "stacks_ok k'" "k_current k' \<noteq> None" "k_tick k' = k_tick k" "k_objects k' = k_objects k"
    "\<exists>P. k_timer_list k' = filter P (k_timer_list k)"
    "tm_periodic (k_timers k' tm) = tm_periodic (k_timers k tm)"
    "tm_func (k_timers k' tm) = tm_func (k_timers k tm)"
    "tm_init_tick (k_timers k' tm) = tm_init_tick (k_timers k tm)" "due k' tm = due k tm"
  using assms same_timerD[of "k_timers k tm" "k_timers k' tm"] by (auto simp: callback_frame_def due_def)

definition n_expired :: "kernel \<Rightarrow> nat" where
  "n_expired k = length (filter (expired k) (k_timer_list k))"

lemma deactivate_inv:
  assumes inv: "kernel_inv k" and nl: "tm \<notin> set (k_timer_list k)"
  shows "kernel_inv (upd_timer tm (tm_activated_update (\<lambda>_. False)) k)"
proof (rule kernel_inv_timers[OF inv])
  show "same_but_timers k (upd_timer tm (tm_activated_update (\<lambda>_. False)) k)"
    by (auto simp: same_but_timers_def upd_timer_def intro!: exI[of _ "k_timer_list k"])
qed (use nl kernel_invD(5)[OF inv] kernel_invD(8)[OF inv] in \<open>auto simp: thread_timer_inv_def\<close>)

lemma stop_step:
  assumes ci: "check_inv k" and l: "k_timer_list k = tm # ts" and ex: "expired k tm"
    and k1: "callback_frame (timer_remove tm k) k1"
  shows "check_inv (upd_timer tm (tm_activated_update (\<lambda>_. False)) k1)"
    and "n_expired (upd_timer tm (tm_activated_update (\<lambda>_. False)) k1) < n_expired k"
proof -
  let ?k2 = "upd_timer tm (tm_activated_update (\<lambda>_. False)) k1"
  note f = callback_frameD[OF k1]
  have d: "distinct (tm # ts)" using ci l kernel_invD(8)[of k] by (simp add: check_inv_def)
  obtain P where P: "k_timer_list k1 = filter P ts" using f(6) l by auto
  have nl: "tm \<notin> set (k_timer_list k1)" using P d by auto
  have du: "due ?k2 t = due k t" for t using f(10)[of t] by (cases "t = tm") (auto simp: due_def)
  have q: "queue_ok (k_tick k - 1) half (due k) (filter P ts)"
  proof -
    have "queue_ok (k_tick k - 1) half (due k) (tm # ts)" using ci l by (simp add: check_inv_def)
    then show ?thesis by (rule queue_ok_filter[OF queue_ok_tl])
  qed
  have "listed_ok ?k2"
    using ci l P f(5,7-9) by (auto simp: check_inv_def listed_ok_def)
  then show "check_inv ?k2"
    using deactivate_inv[OF f(1) nl] f(2-4) q P queue_ok_cong[of "filter P ts" "due ?k2" "due k"] du
    by (simp add: check_inv_def stacks_ok_def)
  have "expired ?k2 = expired k" by (rule ext) (simp add: expired_def du f(4))
  then have "n_expired ?k2 = length (filter P (filter (expired k) ts))"
    using P by (simp add: n_expired_def conj_commute)
  then have "n_expired ?k2 \<le> length (filter (expired k) ts)" by (simp only: length_filter_le)
  then show "n_expired ?k2 < n_expired k" using l ex by (simp add: n_expired_def)
qed

lemma dist_restart:
  assumes "0 < n" "n < RT_TICK_HALF"
  shows "dist (k_tick k - 1) (k_tick k + n) = unat n + 1" "unat n + 1 \<le> half"
proof -
  have b: "unat n < half" using assms(2) by (simp add: half_def word_less_nat_alt)
  have "unat (n + 1) = unat n + 1"
    using b by (simp add: unat_add_lem[THEN iffD1] half_val unat_word_ariths)
  then show "dist (k_tick k - 1) (k_tick k + n) = unat n + 1" by (simp add: dist_def algebra_simps)
  show "unat n + 1 \<le> half" using b by simp
qed

lemma restart_step:
  assumes ci: "check_inv k" and l: "k_timer_list k = tm # ts" and ex: "expired k tm"
    and k1: "callback_frame (timer_remove tm k) k1" and pe: "tm_periodic (k_timers k1 tm)"
  shows "\<exists>k2. rt_timer_start tm (upd_timer tm (tm_activated_update (\<lambda>_. False)) k1) = Some k2 \<and>
    check_inv k2 \<and> k_tick k2 = k_tick k \<and> n_expired k2 < n_expired k"
proof -
  let ?k1 = "upd_timer tm (tm_activated_update (\<lambda>_. False)) k1"
  note f = callback_frameD[OF k1]
  have s1: "check_inv ?k1" "n_expired ?k1 < n_expired k" by (rule stop_step[OF ci l ex k1])+
  have d: "distinct (tm # ts)" using ci l kernel_invD(8)[of k] by (simp add: check_inv_def)
  obtain P where P: "k_timer_list k1 = filter P ts" using f(6) l by auto
  have nl: "tm \<notin> set (k_timer_list ?k1)" using P d by auto
  have lo: "o_type (k_objects k (OTimer tm)) = RT_Object_Class_Timer"
    "0 < tm_init_tick (k_timers k tm)" "tm_init_tick (k_timers k tm) < RT_TICK_HALF"
    "\<forall>u. tm = UserTimer u \<longrightarrow> (\<exists>i. tm_func (k_timers k tm) = User_Timeout i)"
    using ci l pe f(7)[of tm] by (auto simp: check_inv_def listed_ok_def)
  have "\<exists>k2. rt_timer_start tm ?k1 = Some k2"
    using lo f(5,9) by (simp add: rt_timer_start_def rt_object_get_type_def Let_def timer_remove_def upd_timer_def)
  then obtain k2 where k2: "rt_timer_start tm ?k1 = Some k2" by blast
  note s = timer_start_spec[OF k2] and e = same_but_timersD[OF timer_start_spec(1)[OF k2]]
  have init: "tm_init_tick (k_timers ?k1 tm) = tm_init_tick (k_timers k tm)" using f(9)[of tm] by simp
  have k2i: "kernel_inv k2"
  proof (rule kernel_inv_timer_start[OF _ k2])
    show "kernel_inv ?k1" using s1(1) by (simp add: check_inv_def)
    fix t assume t: "tm = ThreadTimer t"
    have "t_stat (thr k t) = RT_THREAD_SUSPEND"
      using ci l t kernel_invD(5)[of k t] by (simp add: check_inv_def thread_timer_inv_def)
    then have "\<not> tm_periodic (k_timers k tm)"
      using ci t kernel_invD(5)[of k t] by (auto simp: check_inv_def thread_timer_inv_def live_stat_def)
    then show "t_stat (thr ?k1 t) = RT_THREAD_SUSPEND" using pe f(7)[of tm] by simp
  qed
  have du: "due k2 t = (if t = tm then k_tick k + tm_init_tick (k_timers k tm) else due ?k1 t)" for t
    unfolding due_def s(2) using init f(4) by simp
  have dist: "dist (k_tick k - 1) (due k2 tm) \<le> half" "dist (k_tick k - 1) (due k2 tm) > 1"
    using dist_restart(1)[OF lo(2,3), of k] dist_restart(2)[OF lo(2,3)] lo(2) by (auto simp: du unat_gt_0 word_greater_zero_iff)
  have ls: "k_timer_list k2 = timer_insert (due k2) tm (k_timer_list ?k1)"
    unfolding s(3) due_def using nl by (simp add: remove1_idem)
  have "queue_ok (k_tick k - 1) half (due ?k1) (k_timer_list ?k1)"
    using s1(1) f(4) by (simp add: check_inv_def)
  then have "queue_ok (k_tick k - 1) half (due k2) (k_timer_list ?k1)"
    by (rule queue_ok_cong[THEN iffD1, rotated]) (use nl in \<open>auto simp: du\<close>)
  then have q: "queue_ok (k_tick k - 1) half (due k2) (k_timer_list k2)"
    unfolding ls by (rule timer_insert_sorted) (use dist in auto)
  have tk: "k_tick k2 = k_tick k" using e(7) f(4) by simp
  have "listed_ok k2"
  proof -
    have "o_type (k_objects k2 (OTimer x)) = o_type (k_objects k1 (OTimer x))" for x using e(5) by simp
    moreover have "set (k_timer_list k2) = insert tm (set (k_timer_list ?k1))" by (simp add: ls)
    ultimately show ?thesis
      using s1(1) lo f(5,7-9) by (auto simp: check_inv_def listed_ok_def s(2))
  qed
  then have ci2: "check_inv k2"
    using k2i q s1(1) e tk by (simp add: check_inv_def stacks_ok_def)
  have ne: "\<not> expired k2 tm"
    using expired_iff(1)[of k2 tm] dist unfolding tk by simp
  have exeq: "expired k2 t = expired ?k1 t" if "t \<noteq> tm" for t
    using that by (simp add: expired_def du tk f(4))
  have eq: "filter (expired k2) xs = filter (expired ?k1) xs" if "tm \<notin> set xs" for xs
    by (rule filter_cong[OF refl], rule exeq) (use that in auto)
  have ins: "filter (expired k2) (timer_insert (due k2) tm xs) = filter (expired k2) xs" for xs
    by (induction xs) (use ne in auto)
  have "n_expired k2 = n_expired ?k1" unfolding n_expired_def ls ins eq[OF nl] ..
  then show ?thesis using k2 ci2 tk s1(2) by auto
qed

text \<open>Reaching the end of the loop, with any further property \<open>Q\<close> that the timeout functions and
  restarting a timer keep.\<close>

lemma check_loop_ends:
  assumes "check_inv k" and cb: "callback_ok cb" and Q: "Q k"
    and fire: "\<And>k tm k1. check_inv k \<Longrightarrow> Q k \<Longrightarrow> tm \<in> set (k_timer_list k) \<Longrightarrow>
      timeout_call cb (tm_func (k_timers k tm)) (timer_remove tm k) = Some k1 \<Longrightarrow>
      callback_frame (timer_remove tm k) k1 \<Longrightarrow> Q (upd_timer tm (tm_activated_update (\<lambda>_. False)) k1)"
    and start: "\<And>k tm k'. Q k \<Longrightarrow> rt_timer_start tm k = Some k' \<Longrightarrow> Q k'"
  shows "\<exists>k'. timer_check_loop cb (k_tick k) k = Some k' \<and> check_inv k' \<and> k_tick k' = k_tick k \<and>
    (k_timer_list k' = [] \<or> \<not> expired k' (hd (k_timer_list k'))) \<and> Q k'"
  using assms(1) Q
proof (induction "n_expired k" arbitrary: k rule: less_induct)
  case less
  show ?case
  proof (cases "k_timer_list k")
    case Nil
    then show ?thesis using less.prems by (simp add: timer_check_loop.simps)
  next
    case (Cons tm ts)
    show ?thesis
    proof (cases "expired k tm")
      case False
      then show ?thesis using less.prems Cons by (simp add: timer_check_loop.simps expired_def due_def)
    next
      case True
      obtain k1 where k1: "timeout_call cb (tm_func (k_timers k tm)) (timer_remove tm k) = Some k1"
        "callback_frame (timer_remove tm k) k1" using fire_timer[OF less.prems(1) Cons cb] by blast
      have tk: "k_tick k1 = k_tick k" using callback_frameD(4)[OF k1(2)] by simp
      let ?k1 = "upd_timer tm (tm_activated_update (\<lambda>_. False)) k1"
      have q1: "Q ?k1" by (rule fire[OF less.prems _ k1]) (simp add: Cons)
      have step: "timer_check_loop cb (k_tick k) k =
          (if tm_periodic (k_timers k1 tm) \<and> tm_activated (k_timers k1 tm)
           then Option.bind (rt_timer_start tm ?k1) (timer_check_loop cb (k_tick k))
           else timer_check_loop cb (k_tick k) ?k1)"
        using True Cons k1(1) tk
        by (subst timer_check_loop.simps) (simp add: expired_def due_def rt_tick_get_def)
      show ?thesis
      proof (cases "tm_periodic (k_timers k1 tm) \<and> tm_activated (k_timers k1 tm)")
        case True':True
        then obtain k2 where k2: "rt_timer_start tm ?k1 = Some k2" "check_inv k2" "k_tick k2 = k_tick k"
          "n_expired k2 < n_expired k"
          using restart_step[OF less.prems(1) Cons True k1(2)] by blast
        show ?thesis using less.hyps[OF k2(4,2) start[OF q1 k2(1)]] step True' k2(1,3) by simp
      next
        case False
        have s: "check_inv ?k1" "n_expired ?k1 < n_expired k"
          by (rule stop_step[OF less.prems(1) Cons True k1(2)])+
        have "k_tick ?k1 = k_tick k" using tk by simp
        then show ?thesis using less.hyps[OF s(2,1) q1] step False by (simp only: if_False)
      qed
    qed
  qed
qed

text \<open>The tick interrupt up to the timer check: the time slice, and a switch when it is used up.\<close>

lemma tick_prefix:
  assumes inv: "kernel_inv k" "stacks_ok k" and cur: "k_current k = Some c"
    and q: "timer_queue_inv k" "listed_ok k"
    and k0: "k0 = upd_thr c (\<lambda>th. th\<lparr>t_remaining_tick := t_remaining_tick th - 1\<rparr>) (k\<lparr>k_tick := k_tick k + 1\<rparr>)"
    and kr: "kr = upd_thr c (\<lambda>th. th\<lparr>t_remaining_tick := t_init_tick th\<rparr>) k0"
  shows "\<exists>k1. rt_tick_increase cb k = timer_check_loop cb (k_tick k1) k1 \<and> check_inv k1 \<and> k_tick k1 = k_tick k + 1 \<and>
    k_timers k1 = k_timers k \<and> (k1 = k0 \<or> rt_schedule kr = Some k1)"
proof -
  have i0: "kernel_inv k0" unfolding k0 by (rule kernel_inv_upd_thr) (use inv in simp_all)
  have ir: "kernel_inv kr" unfolding kr by (rule kernel_inv_upd_thr[OF i0]) simp_all
  have s0: "stacks_ok k0" "stacks_ok kr" using inv(2) by (auto simp: stacks_ok_def k0 kr)
  have c0: "k_current k0 = Some c" "k_current kr = Some c" using cur by (simp_all add: k0 kr)
  have "\<exists>k1. (if t_remaining_tick (thr k0 c) = 0 then rt_thread_yield kr else Some k0) = Some k1 \<and>
      kernel_inv k1 \<and> stacks_ok k1 \<and> k_current k1 \<noteq> None \<and> k_tick k1 = k_tick k + 1 \<and>
      k_timers k1 = k_timers k \<and> k_timer_list k1 = k_timer_list k \<and> k_objects k1 = k_objects k \<and>
      (k1 = k0 \<or> rt_schedule kr = Some k1)"
  proof (cases "t_remaining_tick (thr k0 c) = 0")
    case True
    obtain k1 where k1: "rt_schedule kr = Some k1" using schedule_enabled[OF ir s0(2) c0(2)] by blast
    then show ?thesis
      using True kernel_inv_schedule[OF ir c0(2) k1] schedule_stacks_ok[OF ir s0(2) c0(2) k1]
        schedule_current[OF ir c0(2) k1] rt_schedule_frame[OF k1]
      by (intro exI[of _ k1]) (simp add: rt_thread_yield_def same_objects_def kr k0)
  next
    case False
    then show ?thesis using i0 s0 c0 by (intro exI[of _ k0]) (simp add: k0)
  qed
  then obtain k1 where
    y: "(if t_remaining_tick (thr k0 c) = 0 then rt_thread_yield kr else Some k0) = Some k1"
    and k1: "kernel_inv k1" "stacks_ok k1" "k_current k1 \<noteq> None" "k_tick k1 = k_tick k + 1"
      "k_timers k1 = k_timers k" "k_timer_list k1 = k_timer_list k" "k_objects k1 = k_objects k"
      "k1 = k0 \<or> rt_schedule kr = Some k1" by blast
  have "rt_tick_increase cb k =
      ((if t_remaining_tick (thr k0 c) = 0 then rt_thread_yield kr else Some k0) \<bind> rt_timer_check cb)"
    using cur by (simp add: rt_tick_increase_def rt_thread_self_def Let_def k0 kr)
  then have e: "rt_tick_increase cb k = timer_check_loop cb (k_tick k1) k1"
    unfolding y by (simp add: rt_timer_check_def rt_tick_get_def)
  have du1: "due k1 = due k" by (rule ext) (simp add: due_def k1)
  have "queue_ok (k_tick k1 - 1) half (due k1) (k_timer_list k1)"
    using q(1) by (auto simp: timer_queue_inv_def queue_ok_def k1 du1 half_val)
  moreover have "listed_ok k1" using q(2) by (simp add: listed_ok_def k1)
  ultimately have "check_inv k1" using k1 by (simp add: check_inv_def)
  then show ?thesis using e k1 by blast
qed

text \<open>At the end of the loop nothing expired is left, and the queue is in order for the new tick.\<close>

lemma check_done:
  assumes "check_inv k" "k_timer_list k = [] \<or> \<not> expired k (hd (k_timer_list k))"
  shows "timer_queue_inv k" "tm \<in> set (k_timer_list k) \<Longrightarrow> \<not> expired k tm"
proof -
  have q': "queue_ok (k_tick k - 1) half (due k) (k_timer_list k)" using assms(1) by (simp add: check_inv_def)
  have b: "dist (k_tick k - 1) (due k tm) \<le> half" if "tm \<in> set (k_timer_list k)" for tm
    using q' that by (simp add: queue_ok_def)
  show ne: "\<not> expired k tm" if m: "tm \<in> set (k_timer_list k)" for tm
  proof -
    obtain t ts where l: "k_timer_list k = t # ts" using m by (cases "k_timer_list k") auto
    have "dist (k_tick k - 1) (due k t) \<le> dist (k_tick k - 1) (due k tm)"
      using q' m l by (auto simp: queue_ok_def)
    moreover have "\<not> dist (k_tick k - 1) (due k t) \<le> 1"
      using assms(2) l expired_iff(1)[of k t] b[of t] by simp
    ultimately show ?thesis using expired_iff(1)[OF b[OF m]] by simp
  qed
  have dd: "dist (k_tick k) (due k tm) = dist (k_tick k - 1) (due k tm) - 1"
    if "tm \<in> set (k_timer_list k)" for tm
    using expired_iff(2)[OF b[OF that] ne[OF that]] .
  have "sorted (map (\<lambda>t. dist (k_tick k - 1) (due k t) - 1) (k_timer_list k))"
    using q' by (auto simp: queue_ok_def sorted_map sorted_wrt_iff_nth_less intro: diff_le_mono)
  moreover have "map (\<lambda>t. dist (k_tick k) (due k t)) (k_timer_list k) =
      map (\<lambda>t. dist (k_tick k - 1) (due k t) - 1) (k_timer_list k)"
    by (rule map_cong[OF refl dd])
  ultimately have "sorted (map (\<lambda>t. dist (k_tick k) (due k t)) (k_timer_list k))" by (simp only:)
  moreover have "dist (k_tick k) (due k tm) \<le> half - 1" if "tm \<in> set (k_timer_list k)" for tm
    using b[OF that] dd[OF that] by simp
  ultimately show "timer_queue_inv k" by (simp add: timer_queue_inv_def queue_ok_def)
qed

end
