(* ===== verification/Sample_State.thy ===== *)
theory Sample_State
  imports Clock
begin

text \<open>
  A concrete running system, used to show that the hypotheses of the properties can be met: the
  idle thread 0, the running thread 1 and the ready thread 2 of the same priority, threads 3 to 6
  and 8 waiting on one object of each kind (thread 3 with a timeout), the ready thread 7 that holds
  a second mutex, and thread 9, initialised but not started.
\<close>

definition sample_thread :: "rt_thread_stat \<Rightarrow> nat \<Rightarrow> rt_thread" where
  "sample_thread s p = \<lparr>t_stack_addr = 4096, t_stack_size = 512, t_sp = 4352, t_magic = 35,
     t_error = 0, t_stat = s, t_current_priority = p, t_init_priority = p,
     t_number_mask = push_bit p 1, t_event_set = 3, t_event_info = 5, t_init_tick = 10,
     t_remaining_tick = 5, t_cleanup = None\<rparr>"

definition sample_threads :: "nat \<Rightarrow> rt_thread" where
  "sample_threads = (\<lambda>_. sample_thread RT_THREAD_INIT 0)
     (0 := sample_thread RT_THREAD_READY 31, 1 := sample_thread RT_THREAD_RUNNING 10,
      2 := sample_thread RT_THREAD_READY 10, 3 := sample_thread RT_THREAD_SUSPEND 5,
      4 := sample_thread RT_THREAD_SUSPEND 12, 5 := sample_thread RT_THREAD_SUSPEND 8,
      6 := sample_thread RT_THREAD_SUSPEND 9, 7 := sample_thread RT_THREAD_READY 20,
      8 := sample_thread RT_THREAD_SUSPEND 11, 9 := sample_thread RT_THREAD_INIT 15)"

definition sample_lists :: "list_head \<Rightarrow> nat list" where
  "sample_lists = (\<lambda>_. [])(Ready 31 := [0], Ready 10 := [2], Ready 20 := [7], SemWait 0 := [3],
     MutexWait 0 := [4], EventWait 0 := [5], MbRecvWait 0 := [6], MqWait 0 := [8])"

definition sample_timers :: "timer_id \<Rightarrow> rt_timer" where
  "sample_timers tm = (case tm of
       ThreadTimer t \<Rightarrow> \<lparr>tm_activated = (t = 3), tm_periodic = False, tm_soft = False,
         tm_func = Rt_Thread_Timeout t, tm_init_tick = 5, tm_timeout_tick = 105\<rparr>
     | UserTimer u \<Rightarrow> \<lparr>tm_activated = (u = 1), tm_periodic = (u = 1), tm_soft = False,
         tm_func = User_Timeout u, tm_init_tick = 7, tm_timeout_tick = 101\<rparr>)"

text \<open>Threads 0 to 9, user timers 0 to 2, two mutexes and one of every other kind are registered.\<close>

definition sample_registered :: "object_id list" where
  "sample_registered = map OThread [0,1,2,3,4,5,6,7,8,9] @
     map (\<lambda>t. OTimer (ThreadTimer t)) [0,1,2,3,4,5,6,7,8,9] @
     [OTimer (UserTimer 0), OTimer (UserTimer 1), OTimer (UserTimer 2), OSem 0, OMutex 0, OMutex 1,
      OEvent 0, OMailBox 0, OMq 0]"

definition sample_objects :: "object_id \<Rightarrow> rt_object" where
  "sample_objects ob = (if ob \<in> set sample_registered
     then \<lparr>o_name = ''obj'', o_type = class_of ob, o_static = True\<rparr>
     else \<lparr>o_name = ''obj'', o_type = RT_Object_Class_Null, o_static = False\<rparr>)"

definition sample_containers :: "rt_object_class_type \<Rightarrow> object_id list" where
  "sample_containers c = filter (\<lambda>ob. class_of ob = c) sample_registered"

definition sample :: kernel where
  "sample = \<lparr>k_tick = 100, k_interrupt_nest = 0, k_lock_nest = 0, k_current = Some 1,
     k_current_priority = 10, k_ready_group = 0x80100400, k_lists = sample_lists,
     k_threads = sample_threads, k_timers = sample_timers,
     k_timer_list = [UserTimer 1, ThreadTimer 3],
     k_objects = sample_objects, k_containers = sample_containers,
     k_sems = (\<lambda>_. \<lparr>sem_flag = 0, sem_value = 0\<rparr>),
     k_mutexes = (\<lambda>m. \<lparr>mtx_flag = 1, mtx_value = 0, mtx_original_priority = (if m = 0 then 10 else 20),
        mtx_hold = 1, mtx_owner = Some (if m = 0 then 1 else 7)\<rparr>),
     k_events = (\<lambda>_. \<lparr>ev_flag = 0, ev_set = 1\<rparr>),
     k_mbs = (\<lambda>_. \<lparr>mb_flag = 0, mb_msg_pool = [0, 0], mb_size = 2, mb_entry = 0,
        mb_in_offset = 0, mb_out_offset = 0\<rparr>),
     k_mqs = (\<lambda>_. \<lparr>mq_flag = 0, mq_msg_size = 4, mq_max_msgs = 2, mq_entry = 0,
        mq_head = None, mq_tail = None, mq_free = Some 1,
        mq_next = (\<lambda>i. if i = 1 then Some 0 else None), mq_data = (\<lambda>_. [0, 0, 0, 0])\<rparr>)\<rparr>"

lemmas sample_defs = sample_def sample_threads_def sample_thread_def sample_lists_def
  sample_timers_def sample_objects_def sample_registered_def sample_containers_def

lemma sample_sel [simp]:
  "k_tick sample = 100" "k_interrupt_nest sample = 0" "k_lock_nest sample = 0"
  "k_current sample = Some 1" "k_threads sample = sample_threads" "k_lists sample = sample_lists"
  "k_timers sample = sample_timers" "k_timer_list sample = [UserTimer 1, ThreadTimer 3]"
  "k_objects sample = sample_objects" "k_containers sample = sample_containers"
  "k_ready_group sample = 0x80100400"
  by (simp_all add: sample_def)

text \<open>Which thread is linked where.\<close>

lemma sample_linked:
  "t \<in> set (sample_lists h) \<longleftrightarrow>
     (t = 0 \<and> h = Ready 31) \<or> (t = 2 \<and> h = Ready 10) \<or> (t = 7 \<and> h = Ready 20) \<or>
     (t = 3 \<and> h = SemWait 0) \<or> (t = 4 \<and> h = MutexWait 0) \<or> (t = 5 \<and> h = EventWait 0) \<or>
     (t = 6 \<and> h = MbRecvWait 0) \<or> (t = 8 \<and> h = MqWait 0)"
  by (auto simp: sample_lists_def)

lemma sample_thread_sel [simp]:
  "t_stat (sample_thread s p) = s" "t_current_priority (sample_thread s p) = p"
  "t_init_priority (sample_thread s p) = p" "prio_ok (sample_thread s p) \<longleftrightarrow> p < 32"
  "rt_scheduler_stack_check (sample_thread s p) = Some ()"
  by (simp_all add: sample_thread_def prio_ok_def rt_scheduler_stack_check_def)

lemma sample_ids:
  fixes t :: nat
  shows "t = 0 \<or> t = 1 \<or> t = 2 \<or> t = 3 \<or> t = 4 \<or> t = 5 \<or> t = 6 \<or> t = 7 \<or> t = 8 \<or> t = 9 \<or> t > 9"
  by presburger

lemma sample_thread_inv: "thread_inv sample t"
  using sample_ids[of t]
  by (elim disjE) (simp_all add: thread_inv_def sample_linked sample_threads_def live_stat_def)

lemma sample_group: "bit (0x80100400 :: u32) p \<longleftrightarrow> p = 10 \<or> p = 20 \<or> p = 31"
proof -
  have "(0x80100400 :: u32) = 2 ^ 10 OR 2 ^ 20 OR 2 ^ 31" by simp
  then show ?thesis by (simp only: bit_or_iff bit_push_one)
qed

lemma sample_sched_inv: "sched_inv sample"
proof -
  have "lists_ok sample_lists"
    unfolding lists_ok_def sample_linked by (auto simp: sample_lists_def)
  moreover have "bitmap_inv sample"
    unfolding bitmap_inv_def sample_sel sample_group by (auto simp: sample_lists_def)
  ultimately show ?thesis
    using sample_thread_inv by (simp add: sched_inv_def sched_inv_ex_def tlist_inv_def)
qed

lemma sample_registry_inv: "registry_inv sample"
  unfolding registry_inv_def
  by (auto simp: sample_objects_def sample_containers_def sample_registered_def)

lemma sample_thread_registered:
  "o_type (sample_objects (OThread t)) = (if t < 10 then RT_Object_Class_Thread else RT_Object_Class_Null)"
  "o_type (sample_objects (OTimer (ThreadTimer t))) =
     (if t < 10 then RT_Object_Class_Timer else RT_Object_Class_Null)"
  by (auto simp: sample_objects_def sample_registered_def)

lemma sample_thread_timer_inv: "thread_timer_inv sample t"
  using sample_ids[of t]
  by (elim disjE) (simp_all add: thread_timer_inv_def sample_thread_registered sample_threads_def
      live_stat_def sample_timers_def)

lemma sample_inv: "kernel_inv sample"
  using sample_sched_inv sample_registry_inv sample_thread_timer_inv
  by (simp add: kernel_inv_def timed_inv_def current_inv_def defunct_inv_def sample_lists_def
      sample_threads_def)

lemma sample_stacks_ok: "stacks_ok sample"
  by (simp add: stacks_ok_def sample_threads_def)

lemma sample_listed_ok: "listed_ok sample"
  by (simp add: listed_ok_def sample_timers_def sample_objects_def sample_registered_def RT_TICK_HALF_def)

lemma sample_timer_queue: "timer_queue_inv sample"
  by (simp add: timer_queue_inv_def queue_ok_def dist_def due_def sample_timers_def half_val)

end
