(* ===== verification/Timer_Properties.thy ===== *)
theory Timer_Properties
  imports Sample_State
begin

text \<open>
  What the timers promise: order of the timer list across the wrap of the tick, the tick interrupt
  as a total operation that fires everything due, and the conversion from milliseconds; and two
  ways in which the check loop goes wrong.
\<close>

text \<open>C25. \<^verbatim>\<open>rt_timer_start\<close> makes the timer due after its period and puts it behind every timer that
  is due no later and before every timer that is due later, around the wrap of the tick; the list
  stays in order of expiry and the other timers keep their order.\<close>

theorem timer_start_keeps_order:
  assumes q: "timer_queue_inv k" and r: "rt_timer_start tm k = Some k'"
    and d: "distinct (k_timer_list k)"
  shows "timer_queue_inv k' \<and> due k' tm = k_tick k + tm_init_tick (k_timers k tm) \<and>
    tm_activated (k_timers k' tm) \<and>
    (\<exists>xs ys. k_timer_list k' = xs @ tm # ys \<and> remove1 tm (k_timer_list k) = xs @ ys \<and>
       (\<forall>t \<in> set xs. dist (k_tick k) (due k' t) \<le> dist (k_tick k) (due k' tm)) \<and>
       (\<forall>t \<in> set ys. dist (k_tick k) (due k' tm) < dist (k_tick k) (due k' t)))"
proof -
  note s = timer_start_queue[OF q r d]
  have "\<exists>xs ys. remove1 tm (k_timer_list k) = xs @ ys \<and> timer_insert (due k') tm (remove1 tm (k_timer_list k)) = xs @ tm # ys \<and>
    (\<forall>t \<in> set xs. dist (k_tick k) (due k' t) \<le> dist (k_tick k) (due k' tm)) \<and>
    (\<forall>t \<in> set ys. dist (k_tick k) (due k' tm) < dist (k_tick k) (due k' t))"
    by (rule timer_insert_split) (use s(1,2) in \<open>auto simp: queue_ok_def half_val\<close>)
  then have "\<exists>xs ys. k_timer_list k' = xs @ tm # ys \<and> remove1 tm (k_timer_list k) = xs @ ys \<and>
    (\<forall>t \<in> set xs. dist (k_tick k) (due k' t) \<le> dist (k_tick k) (due k' tm)) \<and>
    (\<forall>t \<in> set ys. dist (k_tick k) (due k' tm) < dist (k_tick k) (due k' t))"
    unfolding s(4) by blast
  moreover have "tm_activated (k_timers k' tm)" by (simp add: timer_start_spec(2)[OF r])
  ultimately show ?thesis using s(3)[of tm] s(5) by simp
qed

theorem timer_start_keeps_order_witness:
  "\<exists>k'. rt_timer_start (UserTimer 2) sample = Some k' \<and> timer_queue_inv k' \<and>
     due k' (UserTimer 2) = k_tick sample + 7"
proof -
  have "\<exists>k'. rt_timer_start (UserTimer 2) sample = Some k'"
    by (simp add: rt_timer_start_def rt_object_get_type_def timer_remove_def upd_timer_def Let_def
        sample_objects_def sample_registered_def sample_timers_def RT_TICK_HALF_def)
  then obtain k' where k': "rt_timer_start (UserTimer 2) sample = Some k'" by blast
  have "tm_init_tick (k_timers sample (UserTimer 2)) = 7" by (simp add: sample_timers_def)
  then show ?thesis using timer_start_keeps_order[OF sample_timer_queue k'] k' by simp
qed

text \<open>C10. The tick interrupt always returns and keeps every invariant. It advances the tick by one
  and leaves no expired timer in the list, whatever waiting threads the timeout functions wake, as
  long as these are well behaved and periodic timers have a period.\<close>

theorem tick_increase_fires_all:
  assumes inv: "kernel_inv k" "stacks_ok k" and cur: "k_current k = Some c"
    and q: "timer_queue_inv k" "listed_ok k" and cb: "callback_ok cb"
  shows "\<exists>k'. rt_tick_increase cb k = Some k' \<and> k_tick k' = k_tick k + 1 \<and>
    kernel_inv k' \<and> stacks_ok k' \<and> k_current k' \<noteq> None \<and> timer_queue_inv k' \<and> listed_ok k' \<and>
    (\<forall>tm \<in> set (k_timer_list k'). \<not> expired k' tm)"
proof -
  obtain k1 where k1: "rt_tick_increase cb k = timer_check_loop cb (k_tick k1) k1" "check_inv k1"
    "k_tick k1 = k_tick k + 1" using tick_prefix[OF inv cur q refl refl] by blast
  obtain k' where k': "timer_check_loop cb (k_tick k1) k1 = Some k'" "check_inv k'" "k_tick k' = k_tick k1"
    "k_timer_list k' = [] \<or> \<not> expired k' (hd (k_timer_list k'))"
    using check_loop_ends[OF k1(2) cb, of "\<lambda>_. True"] by blast
  show ?thesis using k1 k' check_done[OF k'(2,4)] by (auto simp: check_inv_def)
qed

theorem tick_increase_fires_all_witness:
  "\<exists>k'. rt_tick_increase (\<lambda>_. Some) sample = Some k' \<and> k_tick k' = k_tick sample + 1 \<and> kernel_inv k'"
proof -
  have "callback_ok (\<lambda>_. Some)"
    by (auto simp: callback_ok_def callback_frame_def same_timer_def intro!: exI[of _ "\<lambda>_. True"])
  from tick_increase_fires_all[OF sample_inv sample_stacks_ok _ sample_timer_queue sample_listed_ok this]
  show ?thesis by auto
qed

text \<open>A one-shot timer whose timeout function starts it again is left in the list but marked as
  not activated: \<^verbatim>\<open>rt_timer_stop\<close> then reports an error and the timer still fires.\<close>

theorem restart_in_callback_cannot_be_stopped:
  assumes l: "k_timer_list k = [tm]" and ex: "expired k tm"
    and one: "\<not> tm_periodic (k_timers k tm)" and f: "tm_func (k_timers k tm) = User_Timeout i"
    and ty: "o_type (k_objects k (OTimer tm)) = RT_Object_Class_Timer"
    and init: "0 < tm_init_tick (k_timers k tm)" "tm_init_tick (k_timers k tm) < RT_TICK_HALF"
  shows "\<exists>k'. rt_timer_check (\<lambda>_. rt_timer_start tm) k = Some k' \<and> k_timer_list k' = [tm] \<and>
    due k' tm = k_tick k + tm_init_tick (k_timers k tm) \<and>
    rt_timer_stop tm k' = Some (k', - RT_ERROR)"
proof -
  obtain k1 where k1: "rt_timer_start tm (timer_remove tm k) = Some k1"
    using ty init by (auto simp: rt_timer_start_def rt_object_get_type_def Let_def timer_remove_def upd_timer_def)
  note s = timer_start_spec[OF k1] and e = same_but_timersD[OF timer_start_spec(1)[OF k1]]
  let ?k2 = "upd_timer tm (tm_activated_update (\<lambda>_. False)) k1"
  have t2: "k_timer_list ?k2 = [tm]" "k_tick ?k2 = k_tick k"
    "due ?k2 tm = k_tick k + tm_init_tick (k_timers k tm)"
    using l by (simp_all add: s(2,3) e due_def)
  have "k_tick k - due ?k2 tm = - tm_init_tick (k_timers k tm)" using t2 by simp
  moreover have "\<not> - n < RT_TICK_HALF" if "0 < n" "n < RT_TICK_HALF" for n :: rt_tick_t
  proof -
    have "unat (0 - n) = 2 ^ 32 - unat n" using that(1) unat_sub_if_size[of 0 n]
      by (simp add: word_size word_le_nat_alt word_less_nat_alt)
    then show ?thesis using that(2) by (simp add: word_less_nat_alt RT_TICK_HALF_def)
  qed
  ultimately have ne: "\<not> k_tick k - due ?k2 tm < RT_TICK_HALF" using init by simp
  have "timer_check_loop (\<lambda>_. rt_timer_start tm) (k_tick k) k =
      timer_check_loop (\<lambda>_. rt_timer_start tm) (k_tick k) ?k2"
    using l ex f one k1 by (subst timer_check_loop.simps)
      (simp add: expired_def due_def timeout_call_def s(2) e rt_tick_get_def)
  also have "\<dots> = Some ?k2"
    using t2 ne by (subst timer_check_loop.simps) (simp add: due_def)
  finally have "rt_timer_check (\<lambda>_. rt_timer_start tm) k = Some ?k2" by (simp add: rt_timer_check_def rt_tick_get_def)
  moreover have "rt_timer_stop tm ?k2 = Some (?k2, - RT_ERROR)"
    using ty e by (simp add: rt_timer_stop_def rt_object_get_type_def)
  ultimately show ?thesis using t2 by blast
qed

definition sample_expired :: kernel where
  "sample_expired = sample\<lparr>k_tick := 101, k_timer_list := [UserTimer 0]\<rparr>"

theorem restart_in_callback_cannot_be_stopped_witness:
  "\<exists>k'. rt_timer_check (\<lambda>_. rt_timer_start (UserTimer 0)) sample_expired = Some k' \<and>
    k_timer_list k' = [UserTimer 0] \<and> rt_timer_stop (UserTimer 0) k' = Some (k', - RT_ERROR)"
proof -
  have "tm_func (k_timers sample_expired (UserTimer 0)) = User_Timeout 0"
    by (simp add: sample_expired_def sample_timers_def)
  from restart_in_callback_cannot_be_stopped[OF _ _ _ this]
  show ?thesis
    by (auto simp: sample_expired_def expired_def due_def sample_timers_def sample_objects_def
        sample_registered_def RT_TICK_HALF_def)
qed

lemma zero_period_loop:
  assumes "timer_check_loop cb c k = Some y" "c = k_tick k" "cb = (\<lambda>_. Some)"
    "k_timer_list k = [tm]" "expired k tm" "tm_periodic (k_timers k tm)" "tm_activated (k_timers k tm)"
    "tm_func (k_timers k tm) = User_Timeout i" "tm_init_tick (k_timers k tm) = 0"
  shows False
  using assms
proof (induction cb c k y rule: timer_check_loop.raw_induct[rotated, consumes 1, case_names step])
  case (step loop cb c k y)
  let ?kd = "upd_timer tm (tm_activated_update (\<lambda>_. False)) (timer_remove tm k)"
  obtain k2 where k2: "rt_timer_start tm ?kd = Some k2" and y: "loop cb (k_tick k) k2 = Some y"
    using step(2-) by (auto simp: expired_def due_def timeout_call_def rt_tick_get_def bind_eq_Some_conv split: if_splits)
  note s = timer_start_spec[OF k2] and e = same_but_timersD[OF timer_start_spec(1)[OF k2]]
  show ?case
    by (rule step(1)[OF y]) (use step(3-) s e in \<open>simp_all add: expired_def due_def RT_TICK_HALF_def\<close>)
qed

text \<open>A periodic timer started with a period of 0 makes the check loop run for ever inside the
  tick interrupt: no result is reached.\<close>

theorem zero_period_hangs:
  assumes l: "k_timer_list k = [tm]" and ex: "expired k tm"
    and per: "tm_periodic (k_timers k tm)" "tm_activated (k_timers k tm)"
    and f: "tm_func (k_timers k tm) = User_Timeout i" and z: "tm_init_tick (k_timers k tm) = 0"
  shows "rt_timer_check (\<lambda>_. Some) k = None"
proof (cases "rt_timer_check (\<lambda>_. Some) k")
  case (Some y)
  from zero_period_loop[OF Some[unfolded rt_timer_check_def rt_tick_get_def] refl refl assms]
  show ?thesis ..
qed simp

theorem zero_period_hangs_witness:
  "rt_timer_check (\<lambda>_. Some) (upd_timer (UserTimer 0)
     (\<lambda>r. r\<lparr>tm_periodic := True, tm_activated := True, tm_init_tick := 0\<rparr>) sample_expired) = None"
  by (rule zero_period_hangs[where tm = "UserTimer 0" and i = 0])
    (simp_all add: sample_expired_def expired_def due_def sample_timers_def RT_TICK_HALF_def)

text \<open>\<^verbatim>\<open>rt_tick_from_millisecond\<close> rounds up: for every non-negative argument and tick rate whose
  result fits a tick, the result is the least number of ticks that last at least that long;
  negative arguments give \<^verbatim>\<open>RT_WAITING_FOREVER\<close>.\<close>

theorem tick_from_millisecond_rounds_up:
  assumes "0 \<le> ms" "0 \<le> hz" "hz * ms + 999 < 2 ^ 32"
  shows "uint (rt_tick_from_millisecond hz ms) = (hz * ms + 999) div 1000 \<and>
    hz * ms \<le> uint (rt_tick_from_millisecond hz ms) * 1000 \<and>
    uint (rt_tick_from_millisecond hz ms) * 1000 < hz * ms + 1000 \<and>
    rt_tick_from_millisecond hz (- 1) = - 1"
proof -
  let ?q = "ms div 1000" and ?r = "ms mod 1000"
  have ms: "hz * ms = 1000 * (hz * ?q) + hz * ?r" by (metis div_mult_mod_eq distrib_left mult.left_commute mult.commute)
  have sum: "hz * ?q + (hz * ?r + 999) div 1000 = (hz * ms + 999) div 1000"
    unfolding ms by simp
  have le: "0 \<le> (hz * ms + 999) div 1000" "(hz * ms + 999) div 1000 < 2 ^ 32"
    using assms by (simp_all add: pos_imp_zdiv_nonneg_iff) 
  have "uint (rt_tick_from_millisecond hz ms) = (hz * ?q + (hz * ?r + 999) div 1000) mod 2 ^ 32"
    using assms(1) by (simp add: rt_tick_from_millisecond_def uint_word_ariths unsigned_of_int take_bit_eq_mod mod_simps)
  then have u: "uint (rt_tick_from_millisecond hz ms) = (hz * ms + 999) div 1000"
    using le by (simp add: sum)
  moreover have "(hz * ms + 999) div 1000 * 1000 = hz * ms + 999 - (hz * ms + 999) mod 1000"
    by (simp add: minus_mod_eq_div_mult)
  moreover have "0 \<le> (hz * ms + 999) mod 1000" "(hz * ms + 999) mod 1000 < 1000" by simp_all
  moreover have "rt_tick_from_millisecond hz (- 1) = - 1" by (simp add: rt_tick_from_millisecond_def)
  ultimately show ?thesis by linarith
qed

theorem tick_from_millisecond_rounds_up_witness:
  "uint (rt_tick_from_millisecond 100 25) = (100 * 25 + 999) div 1000"
  using tick_from_millisecond_rounds_up[of 25 100] by simp

end
