(* ===== verification/Ipc_Core.thy ===== *)
theory Ipc_Core
  imports Sample_State
begin

text \<open>
  The helpers at the head of \<^verbatim>\<open>src/ipc.c\<close>: putting the current thread on an object's waiting list
  in arrival or priority order, and waking one or all waiting threads. A blocking call is modelled
  in two parts, up to its \<^verbatim>\<open>rt_schedule()\<close> and after it; the first part answers \<open>Blocked\<close> when
  the second is to run once the thread is scheduled again.
\<close>

section \<open>Operations\<close>

datatype ipc_result = Done int | Blocked

text \<open>The scan of \<^verbatim>\<open>RT_IPC_FLAG_PRIO\<close>: before the first thread that is strictly less urgent.\<close>

fun prio_insert :: "('a \<Rightarrow> nat) \<Rightarrow> 'a \<Rightarrow> 'a list \<Rightarrow> 'a list" where
  "prio_insert pr t [] = [t]"
| "prio_insert pr t (u # us) = (if pr t < pr u then t # u # us else u # prio_insert pr t us)"

definition rt_ipc_object_init :: "list_head \<Rightarrow> kernel \<Rightarrow> kernel" where
  "rt_ipc_object_init h k = tlist_init h k"

definition enqueue_waiter :: "list_head \<Rightarrow> nat \<Rightarrow> nat \<Rightarrow> kernel \<Rightarrow> kernel" where
  "enqueue_waiter h t flag k =
     (if flag = RT_IPC_FLAG_FIFO then tlist_append h t k
      else if flag = RT_IPC_FLAG_PRIO then
        k\<lparr>k_lists := (k_lists k)(h := prio_insert (\<lambda>u. t_current_priority (thr k u)) t (k_lists k h))\<rparr>
      else k)"

definition rt_ipc_list_suspend :: "list_head \<Rightarrow> nat \<Rightarrow> nat \<Rightarrow> kernel \<Rightarrow> kernel option" where
  "rt_ipc_list_suspend h t flag k = do {
     (k, _) \<leftarrow> rt_thread_suspend t k;
     Some (enqueue_waiter h t flag k) }"

text \<open>On an empty list \<^verbatim>\<open>rt_list_entry\<close> would make a thread out of the list head: \<open>None\<close>.\<close>

definition rt_ipc_list_resume :: "list_head \<Rightarrow> kernel \<Rightarrow> kernel option" where
  "rt_ipc_list_resume h k =
     (case k_lists k h of
        [] \<Rightarrow> None
      | t # _ \<Rightarrow> do { (k, _) \<leftarrow> rt_thread_resume t k; Some k })"

partial_function (option) rt_ipc_list_resume_all :: "list_head \<Rightarrow> kernel \<Rightarrow> kernel option" where
  "rt_ipc_list_resume_all h k =
     (case k_lists k h of
        [] \<Rightarrow> Some k
      | t # _ \<Rightarrow>
          Option.bind (rt_thread_resume t (upd_thr t (t_error_update (\<lambda>_. - RT_ERROR)) k))
            (\<lambda>r. rt_ipc_list_resume_all h (fst r)))"

text \<open>The common tail of the blocking calls: arm the thread's timer, then schedule.\<close>

definition arm_timer :: "nat \<Rightarrow> int \<Rightarrow> kernel \<Rightarrow> kernel option" where
  "arm_timer t time k =
     (if time > 0 then do {
        (k, _) \<leftarrow> rt_timer_control (ThreadTimer t) RT_TIMER_CTRL_SET_TIME (word_of_int time) k;
        rt_timer_start (ThreadTimer t) k }
      else Some k)"

section \<open>Order of the waiting lists\<close>

lemma set_prio_insert [simp]: "set (prio_insert pr t us) = insert t (set us)"
  by (induction us) auto

lemma distinct_prio_insert: "t \<notin> set us \<Longrightarrow> distinct us \<Longrightarrow> distinct (prio_insert pr t us)"
  by (induction us) auto

lemma prio_insert_split:
  "\<exists>xs ys. us = xs @ ys \<and> prio_insert pr t us = xs @ t # ys \<and>
     (\<forall>u \<in> set xs. pr u \<le> pr t) \<and> (ys \<noteq> [] \<longrightarrow> pr t < pr (hd ys))"
proof (induction us)
  case (Cons u us)
  then obtain xs ys where e: "us = xs @ ys" "prio_insert pr t us = xs @ t # ys"
    "\<forall>u \<in> set xs. pr u \<le> pr t" "ys \<noteq> [] \<longrightarrow> pr t < pr (hd ys)" by blast
  show ?case
  proof (cases "pr t < pr u")
    case True
    then show ?thesis by (intro exI[of _ "[]"] exI[of _ "u # us"]) auto
  next
    case False
    then show ?thesis using e by (intro exI[of _ "u # xs"] exI[of _ ys]) auto
  qed
qed simp

lemma sorted_prio_insert:
  "sorted (map pr us) \<Longrightarrow> sorted (map pr (prio_insert pr t us))"
  by (induction us) auto

section \<open>Effects\<close>

lemma enqueue_waiter_sel [simp]:
  "k_threads (enqueue_waiter h t f k) = k_threads k" "k_current (enqueue_waiter h t f k) = k_current k"
  "k_timers (enqueue_waiter h t f k) = k_timers k" "k_timer_list (enqueue_waiter h t f k) = k_timer_list k"
  "k_objects (enqueue_waiter h t f k) = k_objects k" "k_tick (enqueue_waiter h t f k) = k_tick k"
  "k_lock_nest (enqueue_waiter h t f k) = k_lock_nest k" "k_sems (enqueue_waiter h t f k) = k_sems k"
  "k_mutexes (enqueue_waiter h t f k) = k_mutexes k" "k_events (enqueue_waiter h t f k) = k_events k"
  "k_mbs (enqueue_waiter h t f k) = k_mbs k" "k_mqs (enqueue_waiter h t f k) = k_mqs k"
  "k_interrupt_nest (enqueue_waiter h t f k) = k_interrupt_nest k"
  by (simp_all add: enqueue_waiter_def tlist_append_def)

definition waiters_after :: "nat \<Rightarrow> (nat \<Rightarrow> nat) \<Rightarrow> nat \<Rightarrow> nat list \<Rightarrow> nat list" where
  "waiters_after flag pr t us =
     (if flag = RT_IPC_FLAG_FIFO then us @ [t] else if flag = RT_IPC_FLAG_PRIO then prio_insert pr t us else us)"

lemma enqueue_waiter_lists:
  "k_lists (enqueue_waiter h t f k) =
     (k_lists k)(h := waiters_after f (\<lambda>u. t_current_priority (thr k u)) t (k_lists k h))"
  by (simp add: enqueue_waiter_def waiters_after_def tlist_append_def)

lemma kernel_inv_enqueue [rt_inv]:
  assumes inv: "kernel_inv k" and st: "t_stat (thr k t) = RT_THREAD_SUSPEND" and un: "unlinked k t"
    and h: "stat_of_list h = RT_THREAD_SUSPEND"
  shows "kernel_inv (enqueue_waiter h t f k)"
proof -
  have d: "distinct (k_lists k h)" "t \<notin> set (k_lists k h)"
    using kernel_invD(7)[OF inv] un by (auto simp: sched_inv_ex_def tlist_inv_def lists_ok_def unlinked_def)
  show ?thesis
    using kernel_inv_wait_insert[OF inv st un h, of "k_lists k h @ [t]"]
      kernel_inv_wait_insert[OF inv st un h, of "prio_insert (\<lambda>u. t_current_priority (thr k u)) t (k_lists k h)"]
      d distinct_prio_insert[OF d(2,1)] inv
    by (auto simp: enqueue_waiter_def tlist_append_def)
qed

text \<open>Putting the running thread to sleep on a list.\<close>

definition wait_frame :: "nat \<Rightarrow> kernel \<Rightarrow> kernel \<Rightarrow> bool" where
  "wait_frame t k k' \<longleftrightarrow>
     (\<forall>u. u \<noteq> t \<longrightarrow> thr k' u = thr k u) \<and> thr k' t = (thr k t)\<lparr>t_stat := RT_THREAD_SUSPEND\<rparr> \<and>
     k_current k' = k_current k \<and> k_objects k' = k_objects k \<and> k_tick k' = k_tick k \<and>
     k_lock_nest k' = k_lock_nest k \<and> k_interrupt_nest k' = k_interrupt_nest k \<and>
     k_sems k' = k_sems k \<and> k_mutexes k' = k_mutexes k \<and> k_events k' = k_events k \<and>
     k_mbs k' = k_mbs k \<and> k_mqs k' = k_mqs k"

lemma ipc_suspend_effect:
  assumes inv: "kernel_inv k" and st: "t_stat (thr k t) = RT_THREAD_READY \<or> t_stat (thr k t) = RT_THREAD_RUNNING"
    and h: "stat_of_list h = RT_THREAD_SUSPEND"
  shows "\<exists>k'. rt_ipc_list_suspend h t flag k = Some k' \<and> kernel_inv k' \<and> wait_frame t k k' \<and>
    k_lists k' h = waiters_after flag (\<lambda>u. t_current_priority (thr k u)) t (k_lists k h) \<and>
    (\<forall>h'. stat_of_list h' = RT_THREAD_SUSPEND \<longrightarrow> h' \<noteq> h \<longrightarrow> k_lists k' h' = k_lists k h') \<and>
    ThreadTimer t \<notin> set (k_timer_list k')"
proof -
  obtain k1 where k1: "rt_thread_suspend t k = Some (k1, RT_EOK)" using suspend_enabled[OF inv st] by blast
  note e = suspend_effect[OF inv k1] and i1 = kernel_inv_suspend[OF inv k1]
  have nw: "remove1 t (k_lists k h') = k_lists k h'" if "stat_of_list h' = RT_THREAD_SUSPEND" for h'
    using thread_invD(1)[OF kernel_invD(6)[OF inv], of t h'] st that by (intro remove1_idem) auto
  have pr: "(\<lambda>u. t_current_priority (thr k1 u)) = (\<lambda>u. t_current_priority (thr k u))"
    using e by (auto simp: fun_eq_iff)
  have "kernel_inv (enqueue_waiter h t flag k1)"
    by (rule kernel_inv_enqueue[OF i1 _ _ h]) (use e in auto)
  moreover have "k_lists (enqueue_waiter h t flag k1) h =
      waiters_after flag (\<lambda>u. t_current_priority (thr k u)) t (k_lists k h)"
    unfolding enqueue_waiter_lists pr using e nw[OF h] by simp
  moreover have "k_lists (enqueue_waiter h t flag k1) h' = k_lists k h'"
    if "stat_of_list h' = RT_THREAD_SUSPEND" "h' \<noteq> h" for h'
    unfolding enqueue_waiter_lists using that e nw[OF that(1)] by simp
  moreover have "wait_frame t k (enqueue_waiter h t flag k1)" using e by (simp add: wait_frame_def)
  moreover have "rt_ipc_list_suspend h t flag k = Some (enqueue_waiter h t flag k1)"
    using k1 by (simp add: rt_ipc_list_suspend_def)
  ultimately show ?thesis using e by (intro exI[of _ "enqueue_waiter h t flag k1"]) simp
qed

lemma same_but_timers_trans:
  assumes "same_but_timers a b" "same_but_timers b c" shows "same_but_timers a c"
proof -
  obtain ts l where "b = a\<lparr>k_timers := ts, k_timer_list := l\<rparr>"
    using assms(1) unfolding same_but_timers_def by blast
  moreover obtain ts' l' where "c = b\<lparr>k_timers := ts', k_timer_list := l'\<rparr>"
    using assms(2) unfolding same_but_timers_def by blast
  ultimately have "c = a\<lparr>k_timers := ts', k_timer_list := l'\<rparr>" by simp
  then show ?thesis unfolding same_but_timers_def by blast
qed

lemma arm_timer_effect:
  assumes inv: "kernel_inv k" and st: "t_stat (thr k t) = RT_THREAD_SUSPEND"
    and tm: "time < 2 ^ 31 - 1"
  shows "\<exists>k'. arm_timer t time k = Some k' \<and> kernel_inv k' \<and> same_but_timers k k' \<and>
    (time > 0 \<longrightarrow> ThreadTimer t \<in> set (k_timer_list k') \<and>
       due k' (ThreadTimer t) = k_tick k + word_of_int time) \<and>
    (time \<le> 0 \<longrightarrow> k' = k)"
proof (cases "time > 0")
  case True
  let ?k = "upd_timer (ThreadTimer t) (tm_init_tick_update (\<lambda>_. word_of_int time)) k"
  have ty: "o_type (k_objects k (OTimer (ThreadTimer t))) = RT_Object_Class_Timer"
    using kernel_invD(5)[OF inv, of t] st by (auto simp: thread_timer_inv_def live_stat_def)
  have sb: "same_but_timers k ?k"
    by (auto simp: same_but_timers_def upd_timer_def intro!: exI[of _ "k_timer_list k"])
  have ik: "kernel_inv ?k"
    by (rule kernel_inv_timers[OF inv sb])
      (use kernel_invD(5)[OF inv] kernel_invD(8)[OF inv] in \<open>auto simp: thread_timer_inv_def\<close>)
  have "uint (word_of_int time :: rt_tick_t) = time" using True tm by (simp add: unsigned_of_int take_bit_eq_mod)
  then have lt: "(word_of_int time :: rt_tick_t) < RT_TICK_HALF"
    using tm by (simp add: word_less_def RT_TICK_HALF_def)
  obtain k' where k': "rt_timer_start (ThreadTimer t) ?k = Some k'"
    using lt ty by (auto simp: rt_timer_start_def rt_object_get_type_def Let_def timer_remove_def upd_timer_def)
  note s = timer_start_spec[OF k'] and f = same_but_timersD[OF timer_start_spec(1)[OF k']]
  have "kernel_inv k'" by (rule kernel_inv_timer_start[OF ik k']) (use st in auto)
  moreover have "same_but_timers k k'"
    by (rule same_but_timers_trans[OF sb s(1)])
  moreover have "arm_timer t time k = Some k'"
    using True k' ty by (simp add: arm_timer_def rt_timer_control_def rt_object_get_type_def)
  ultimately show ?thesis using True by (auto simp: s(2,3) due_def)
qed (use inv in \<open>auto simp: arm_timer_def same_but_timers_def intro!: exI[of _ "k_timers k"] exI[of _ "k_timer_list k"]\<close>)

lemma ipc_resume_effect:
  assumes inv: "kernel_inv k" and l: "k_lists k h = t # ts" and h: "stat_of_list h = RT_THREAD_SUSPEND"
  shows "\<exists>k'. rt_ipc_list_resume h k = Some k' \<and> rt_thread_resume t k = Some (k', RT_EOK) \<and> kernel_inv k' \<and>
    k_lists k' h = ts"
proof -
  have st: "t_stat (thr k t) = RT_THREAD_SUSPEND"
    using thread_invD(1)[OF kernel_invD(6)[OF inv], of t h] l h by simp
  obtain k' where k': "rt_thread_resume t k = Some (k', RT_EOK)" using resume_enabled[OF inv st] by blast
  have "h \<noteq> Ready p" for p using h by auto
  then show ?thesis
    using k' l resume_effect[OF inv k'] kernel_inv_resume[OF inv k']
    by (intro exI[of _ k']) (auto simp: rt_ipc_list_resume_def)
qed

text \<open>Waking all: the loop ends with the list empty, every waiting thread awake with an error.\<close>

lemma resume_all_effect:
  assumes inv: "kernel_inv k" and h: "stat_of_list h = RT_THREAD_SUSPEND" and l: "k_lists k h = us"
  shows "\<exists>k'. rt_ipc_list_resume_all h k = Some k' \<and> kernel_inv k' \<and> k_lists k' h = [] \<and>
    (\<forall>u \<in> set us. t_error (thr k' u) = - RT_ERROR \<and>
       t_stat (thr k' u) \<in> {RT_THREAD_READY, RT_THREAD_RUNNING}) \<and>
    (\<forall>u. u \<notin> set us \<longrightarrow> thr k' u = thr k u) \<and>
    (\<forall>h'. stat_of_list h' = RT_THREAD_SUSPEND \<longrightarrow> h' \<noteq> h \<longrightarrow> k_lists k' h' = k_lists k h') \<and>
    k_current k' = k_current k \<and> k_objects k' = k_objects k \<and> k_containers k' = k_containers k \<and>
    k_sems k' = k_sems k \<and> k_mutexes k' = k_mutexes k \<and> k_events k' = k_events k \<and>
    k_mbs k' = k_mbs k \<and> k_mqs k' = k_mqs k \<and> k_tick k' = k_tick k \<and> k_lock_nest k' = k_lock_nest k"
  using inv l
proof (induction us arbitrary: k)
  case Nil
  then show ?case by (simp add: rt_ipc_list_resume_all.simps)
next
  case (Cons t us)
  let ?k = "upd_thr t (t_error_update (\<lambda>_. - RT_ERROR)) k"
  have i: "kernel_inv ?k" by (rule kernel_inv_upd_thr[OF Cons.prems(1)]) simp_all
  have l: "k_lists ?k h = t # us" using Cons.prems(2) by simp
  obtain k1 where k1: "rt_thread_resume t ?k = Some (k1, RT_EOK)" "kernel_inv k1" "k_lists k1 h = us"
    using ipc_resume_effect[OF i l h] by blast
  note e = resume_effect[OF i k1(1)]
  have nt: "t \<notin> set us"
    using kernel_invD(7)[OF Cons.prems(1)] Cons.prems(2)
    by (metis distinct.simps(2) lists_ok_def sched_inv_exD(1) tlist_inv_def)
  have step: "rt_ipc_list_resume_all h k = rt_ipc_list_resume_all h k1"
    by (subst rt_ipc_list_resume_all.simps) (use Cons.prems(2) k1(1) in simp)
  have others: "k_lists k1 h' = k_lists k h'" if "stat_of_list h' = RT_THREAD_SUSPEND" "h' \<noteq> h" for h'
  proof -
    have "lists_ok (k_lists k)" using kernel_invD(7)[OF Cons.prems(1)] by (simp add: sched_inv_ex_def tlist_inv_def)
    then have "t \<notin> set (k_lists k h')" using that(2) Cons.prems(2) unfolding lists_ok_def by (metis list.set_intros(1))
    moreover have "h' \<noteq> Ready p" for p using that(1) by auto
    ultimately show ?thesis using e by (simp add: remove1_idem)
  qed
  from Cons.IH[OF k1(2,3)] obtain k' where k': "rt_ipc_list_resume_all h k1 = Some k'" "kernel_inv k'"
    "k_lists k' h = []"
    "\<forall>u \<in> set us. t_error (thr k' u) = - RT_ERROR \<and> t_stat (thr k' u) \<in> {RT_THREAD_READY, RT_THREAD_RUNNING}"
    "\<forall>u. u \<notin> set us \<longrightarrow> thr k' u = thr k1 u"
    "\<forall>h'. stat_of_list h' = RT_THREAD_SUSPEND \<longrightarrow> h' \<noteq> h \<longrightarrow> k_lists k' h' = k_lists k1 h'"
    "k_current k' = k_current k1 \<and> k_objects k' = k_objects k1 \<and> k_containers k' = k_containers k1 \<and>
     k_sems k' = k_sems k1 \<and> k_mutexes k' = k_mutexes k1 \<and> k_events k' = k_events k1 \<and>
     k_mbs k' = k_mbs k1 \<and> k_mqs k' = k_mqs k1 \<and> k_tick k' = k_tick k1 \<and> k_lock_nest k' = k_lock_nest k1" by blast
  have "t_error (thr k' t) = - RT_ERROR \<and> t_stat (thr k' t) \<in> {RT_THREAD_READY, RT_THREAD_RUNNING}"
    using k'(5) nt e by simp
  then show ?case
    using k' step e others by (intro exI[of _ k']) auto
qed

section \<open>Blocking and waking with a schedule\<close>

definition ipc_block :: "list_head \<Rightarrow> nat \<Rightarrow> nat \<Rightarrow> int \<Rightarrow> kernel \<Rightarrow> kernel option" where
  "ipc_block h t flag time k = do {
     k \<leftarrow> rt_ipc_list_suspend h t flag k;
     k \<leftarrow> arm_timer t time k;
     rt_schedule k }"

text \<open>What a scheduling step keeps of the objects and waiting lists.\<close>

definition wait_lists_same :: "kernel \<Rightarrow> kernel \<Rightarrow> bool" where
  "wait_lists_same k k' \<longleftrightarrow> (\<forall>h. stat_of_list h = RT_THREAD_SUSPEND \<longrightarrow> k_lists k' h = k_lists k h)"

definition same_ipc :: "kernel \<Rightarrow> kernel \<Rightarrow> bool" where
  "same_ipc k k' \<longleftrightarrow> k_sems k' = k_sems k \<and> k_mutexes k' = k_mutexes k \<and> k_events k' = k_events k \<and>
     k_mbs k' = k_mbs k \<and> k_mqs k' = k_mqs k \<and> k_objects k' = k_objects k \<and> k_tick k' = k_tick k"

lemma not_ready_head: "stat_of_list h = RT_THREAD_SUSPEND \<Longrightarrow> Ready p \<noteq> h"
  by auto

text \<open>Scheduling moves threads between the ready lists only.\<close>

lemma rt_schedule_lists:
  assumes inv: "kernel_inv k" and cur: "k_current k = Some c" and r: "rt_schedule k = Some k'"
    and h: "stat_of_list h \<noteq> RT_THREAD_READY"
  shows "k_lists k' h = k_lists k h"
proof -
  have ni: "remove1 t (k_lists k h) = k_lists k h" if "t_stat (thr k t) \<in> {RT_THREAD_READY, RT_THREAD_RUNNING}" for t
  proof -
    have "stat_of_list h \<noteq> RT_THREAD_RUNNING" by (cases h) auto
    then show ?thesis
      using thread_invD(1)[OF kernel_invD(6)[OF inv], of t h] that h by (intro remove1_idem) auto
  qed
  have nr: "Ready p \<noteq> h" for p using h by auto
  from kernel_invD(1)[OF inv] cur show ?thesis
  proof (cases rule: rt_schedule_cases)
    case (stay p)
    then show ?thesis using r ni[of c] by auto
  next
    case (switch to p)
    have "t_stat (thr k to) = RT_THREAD_READY"
      using ready_prio_ok(3)[OF kernel_invD(7)[OF inv] switch(3)] .
    then show ?thesis
      using switch(8) r ni[of to] nr nr[symmetric]
      by (auto simp: switch_to_def Let_def split: option.splits)
  qed (use r kernel_invD(2)[OF inv] cur in \<open>auto simp: current_inv_def\<close>)
qed

lemma rt_schedule_wait_lists:
  assumes "kernel_inv k" "k_current k = Some c" "rt_schedule k = Some k'"
  shows "wait_lists_same k k'"
  using rt_schedule_lists[OF assms] by (simp add: wait_lists_same_def)

lemma schedule_effect:
  assumes inv: "kernel_inv k" and st: "stacks_ok k" and cur: "k_current k = Some c"
  shows "\<exists>k'. rt_schedule k = Some k' \<and> kernel_inv k' \<and> stacks_ok k' \<and> k_current k' \<noteq> None \<and>
    same_ipc k k' \<and> wait_lists_same k k' \<and> (\<forall>t. sched_rel (thr k t) (thr k' t)) \<and>
    k_timers k' = k_timers k \<and> k_timer_list k' = k_timer_list k \<and>
    k_lock_nest k' = k_lock_nest k \<and> k_interrupt_nest k' = k_interrupt_nest k"
proof -
  obtain k' where r: "rt_schedule k = Some k'" using schedule_enabled[OF inv st cur] by blast
  then show ?thesis
    using kernel_inv_schedule[OF inv cur r] schedule_stacks_ok[OF inv st cur r] schedule_current[OF inv cur r]
      rt_schedule_frame[OF r] rt_schedule_wait_lists[OF inv cur r]
      rt_schedule_threads[OF kernel_invD(1,2)[OF inv] cur r]
    by (intro exI[of _ k']) (simp add: same_objects_def same_ipc_def)
qed

lemma sched_rel_suspend: "sched_rel a b \<Longrightarrow> t_stat a = RT_THREAD_SUSPEND \<Longrightarrow> b = a"
  by (auto simp: sched_rel_def)

text \<open>The second half of a blocking call: the thread is on its waiting list (state \<open>k1\<close>); arm its timer
  and schedule.\<close>

lemma arm_schedule_effect:
  assumes st: "stacks_ok k" and cur: "k_current k = Some c" "t_stat (thr k c) = RT_THREAD_RUNNING" and tm: "time < 2 ^ 31 - 1"
    and k1: "kernel_inv k1" "wait_frame c k k1" "ThreadTimer c \<notin> set (k_timer_list k1)"
  shows "\<exists>k2 k3. arm_timer c time k1 = Some k2 \<and> rt_schedule k2 = Some k3 \<and> kernel_inv k3 \<and> stacks_ok k3 \<and> same_ipc k k3 \<and>
    k_current k3 \<noteq> None \<and> wait_lists_same k1 k3 \<and> thr k3 c = (thr k c)\<lparr>t_stat := RT_THREAD_SUSPEND\<rparr> \<and>
    (\<forall>u. u \<noteq> c \<longrightarrow> sched_rel (thr k u) (thr k3 u)) \<and>
    (time > 0 \<longrightarrow> ThreadTimer c \<in> set (k_timer_list k3) \<and> due k3 (ThreadTimer c) = k_tick k + word_of_int time) \<and>
    (time \<le> 0 \<longrightarrow> ThreadTimer c \<notin> set (k_timer_list k3))"
proof -
  have s1: "t_stat (thr k1 c) = RT_THREAD_SUSPEND" using k1(2) by (simp add: wait_frame_def)
  obtain k2 where k2: "arm_timer c time k1 = Some k2" "kernel_inv k2" "same_but_timers k1 k2"
    "time > 0 \<longrightarrow> ThreadTimer c \<in> set (k_timer_list k2) \<and> due k2 (ThreadTimer c) = k_tick k1 + word_of_int time"
    "time \<le> 0 \<longrightarrow> k2 = k1"
    using arm_timer_effect[OF k1(1) s1 tm] by blast
  note f = same_but_timersD[OF k2(3)]
  have st2: "stacks_ok k2"
    unfolding stacks_ok_def
  proof (intro allI impI)
    fix u assume "live_stat (t_stat (thr k2 u))"
    then show "rt_scheduler_stack_check (thr k2 u) = Some ()"
      using st k1(2) cur(2) by (cases "u = c") (auto simp: f wait_frame_def stacks_ok_def live_stat_def)
  qed
  have c2: "k_current k2 = Some c" using k1(2) cur f by (simp add: wait_frame_def)
  obtain k3 where k3: "rt_schedule k2 = Some k3" "kernel_inv k3" "stacks_ok k3" "same_ipc k2 k3"
    "wait_lists_same k2 k3" "\<forall>t. sched_rel (thr k2 t) (thr k3 t)"
    "k_timers k3 = k_timers k2" "k_timer_list k3 = k_timer_list k2" "k_current k3 \<noteq> None"
    using schedule_effect[OF k2(2) st2 c2] by blast
  have tc: "thr k3 c = thr k2 c" by (rule sched_rel_suspend) (use k3(6) s1 f in auto)
  have "same_ipc k k3" using k1(2) f k3(4) by (simp add: same_ipc_def wait_frame_def)
  moreover have "wait_lists_same k1 k3" using k3(5) f by (simp add: wait_lists_same_def)
  moreover have "sched_rel (thr k u) (thr k3 u)" if "u \<noteq> c" for u
    using k3(6) k1(2) f that by (metis wait_frame_def)
  moreover have "k_tick k1 = k_tick k" using k1(2) by (simp add: wait_frame_def)
  moreover have "thr k3 c = (thr k c)\<lparr>t_stat := RT_THREAD_SUSPEND\<rparr>" using tc f k1(2) by (simp add: wait_frame_def)
  moreover have "due k3 (ThreadTimer c) = due k2 (ThreadTimer c)" by (simp add: due_def k3)
  ultimately show ?thesis
    using k1(3) k2(1,4,5) k3(1-3,8,9) by (intro exI[of _ k2] exI[of _ k3]) auto
qed

lemma block_effect:
  assumes inv: "kernel_inv k" "stacks_ok k" and cur: "k_current k = Some c" "t_stat (thr k c) = RT_THREAD_RUNNING"
    and h: "stat_of_list h = RT_THREAD_SUSPEND" and tm: "time < 2 ^ 31 - 1"
  shows "\<exists>k'. ipc_block h c flag time k = Some k' \<and> kernel_inv k' \<and> stacks_ok k' \<and> same_ipc k k' \<and>
    k_current k' \<noteq> None \<and>
    k_lists k' h = waiters_after flag (\<lambda>u. t_current_priority (thr k u)) c (k_lists k h) \<and>
    (\<forall>h'. stat_of_list h' = RT_THREAD_SUSPEND \<longrightarrow> h' \<noteq> h \<longrightarrow> k_lists k' h' = k_lists k h') \<and>
    thr k' c = (thr k c)\<lparr>t_stat := RT_THREAD_SUSPEND\<rparr> \<and>
    (\<forall>u. u \<noteq> c \<longrightarrow> sched_rel (thr k u) (thr k' u)) \<and>
    (time > 0 \<longrightarrow> ThreadTimer c \<in> set (k_timer_list k') \<and>
       due k' (ThreadTimer c) = k_tick k + word_of_int time) \<and>
    (time \<le> 0 \<longrightarrow> ThreadTimer c \<notin> set (k_timer_list k'))"
proof -
  obtain k1 where k1: "rt_ipc_list_suspend h c flag k = Some k1" "kernel_inv k1" "wait_frame c k k1"
    "k_lists k1 h = waiters_after flag (\<lambda>u. t_current_priority (thr k u)) c (k_lists k h)"
    "\<forall>h'. stat_of_list h' = RT_THREAD_SUSPEND \<longrightarrow> h' \<noteq> h \<longrightarrow> k_lists k1 h' = k_lists k h'"
    "ThreadTimer c \<notin> set (k_timer_list k1)"
    using ipc_suspend_effect[OF inv(1) _ h, of c flag] cur(2) by blast
  then obtain k2 k3 where k3: "arm_timer c time k1 = Some k2" "rt_schedule k2 = Some k3" "kernel_inv k3" "stacks_ok k3"
    "same_ipc k k3" "k_current k3 \<noteq> None" "wait_lists_same k1 k3" "thr k3 c = (thr k c)\<lparr>t_stat := RT_THREAD_SUSPEND\<rparr>"
    "\<forall>u. u \<noteq> c \<longrightarrow> sched_rel (thr k u) (thr k3 u)"
    "time > 0 \<longrightarrow> ThreadTimer c \<in> set (k_timer_list k3) \<and> due k3 (ThreadTimer c) = k_tick k + word_of_int time"
    "time \<le> 0 \<longrightarrow> ThreadTimer c \<notin> set (k_timer_list k3)"
    using arm_schedule_effect[OF inv(2) cur tm, of k1] by blast
  have "ipc_block h c flag time k = Some k3" using k1(1) k3(1,2) by (simp add: ipc_block_def)
  then show ?thesis using k1(4,5) k3(3-11) h by (intro exI[of _ k3]) (simp add: wait_lists_same_def)
qed

text \<open>Waking the first waiter, then scheduling.\<close>

lemma resume_stacks_ok:
  assumes "kernel_inv k" "stacks_ok k" "rt_thread_resume t k = Some (k', RT_EOK)"
  shows "stacks_ok k'"
  using assms(2) resume_effect[OF assms(1,3)] by (auto simp: stacks_ok_def live_stat_def)

definition woken :: "rt_thread_stat \<Rightarrow> bool" where
  "woken s \<longleftrightarrow> s = RT_THREAD_READY \<or> s = RT_THREAD_RUNNING"

lemma resume_first_effect:
  assumes inv: "kernel_inv k" "stacks_ok k" and l: "k_lists k h = t # ts" and h: "stat_of_list h = RT_THREAD_SUSPEND"
  shows "\<exists>k'. rt_ipc_list_resume h k = Some k' \<and> kernel_inv k' \<and> stacks_ok k' \<and> same_ipc k k' \<and>
    k_lists k' h = ts \<and>
    (\<forall>h'. stat_of_list h' = RT_THREAD_SUSPEND \<longrightarrow> h' \<noteq> h \<longrightarrow> k_lists k' h' = k_lists k h') \<and>
    (\<exists>s. woken s \<and> thr k' t = (thr k t)\<lparr>t_stat := s\<rparr>) \<and> (\<forall>u. u \<noteq> t \<longrightarrow> thr k' u = thr k u) \<and>
    k_current k' = k_current k \<and> k_lock_nest k' = k_lock_nest k \<and> k_interrupt_nest k' = k_interrupt_nest k \<and>
    ThreadTimer t \<notin> set (k_timer_list k')"
proof -
  obtain k' where k': "rt_ipc_list_resume h k = Some k'" "rt_thread_resume t k = Some (k', RT_EOK)"
    "kernel_inv k'" "k_lists k' h = ts" using ipc_resume_effect[OF inv(1) l h] by blast
  note e = resume_effect[OF inv(1) k'(2)]
  have "k_lists k' h' = k_lists k h'" if "stat_of_list h' = RT_THREAD_SUSPEND" "h' \<noteq> h" for h'
  proof -
    have "lists_ok (k_lists k)" using kernel_invD(7)[OF inv(1)] by (simp add: sched_inv_ex_def tlist_inv_def)
    then have "t \<notin> set (k_lists k h')" using that(2) l unfolding lists_ok_def by (metis list.set_intros(1))
    then show ?thesis using e not_ready_head[OF that(1)] not_ready_head[OF that(1), symmetric] by (simp add: remove1_idem)
  qed
  moreover have "\<exists>s. woken s \<and> thr k' t = (thr k t)\<lparr>t_stat := s\<rparr>"
    using e by (auto simp: woken_def)
  ultimately show ?thesis
    using k' e resume_stacks_ok[OF inv k'(2)] by (intro exI[of _ k']) (simp add: same_ipc_def)
qed

text \<open>Waking the first waiter and scheduling, as every sender and releaser does.\<close>

lemma wake_schedule_effect:
  assumes inv: "kernel_inv k" "stacks_ok k" and l: "k_lists k h = t # ts" and h: "stat_of_list h = RT_THREAD_SUSPEND"
    and cur: "k_current k = Some c"
  shows "\<exists>k1 k2. rt_ipc_list_resume h k = Some k1 \<and> rt_schedule k1 = Some k2 \<and> kernel_inv k2 \<and> stacks_ok k2 \<and>
    same_ipc k k2 \<and> k_lists k2 h = ts \<and>
    (\<forall>h'. stat_of_list h' = RT_THREAD_SUSPEND \<longrightarrow> h' \<noteq> h \<longrightarrow> k_lists k2 h' = k_lists k h') \<and>
    woken (t_stat (thr k2 t)) \<and> t_error (thr k2 t) = t_error (thr k t) \<and> k_current k2 \<noteq> None \<and>
    (\<forall>u. u \<noteq> t \<longrightarrow> sched_rel (thr k u) (thr k2 u))"
proof -
  from resume_first_effect[OF inv l h] obtain k1 where
    k1: "rt_ipc_list_resume h k = Some k1" "kernel_inv k1" "stacks_ok k1" "same_ipc k k1" "k_lists k1 h = ts"
      "\<forall>h'. stat_of_list h' = RT_THREAD_SUSPEND \<longrightarrow> h' \<noteq> h \<longrightarrow> k_lists k1 h' = k_lists k h'"
      "\<exists>st. woken st \<and> thr k1 t = (thr k t)\<lparr>t_stat := st\<rparr>" "\<forall>u. u \<noteq> t \<longrightarrow> thr k1 u = thr k u"
      "k_current k1 = k_current k" by blast
  have c1: "k_current k1 = Some c" using k1(9) cur by simp
  from schedule_effect[OF k1(2,3) c1] obtain k2 where
    k2: "rt_schedule k1 = Some k2" "kernel_inv k2" "stacks_ok k2" "same_ipc k1 k2" "wait_lists_same k1 k2"
      "\<forall>t. sched_rel (thr k1 t) (thr k2 t)" "k_current k2 \<noteq> None" by blast
  have "woken (t_stat (thr k2 t)) \<and> t_error (thr k2 t) = t_error (thr k t)"
    using k1(7) k2(6)[rule_format, of t] by (auto simp: sched_rel_def woken_def)
  moreover have "\<forall>u. u \<noteq> t \<longrightarrow> sched_rel (thr k u) (thr k2 u)" using k1(8) k2(6) by metis
  moreover have "same_ipc k k2" using k1(4) k2(4) by (simp add: same_ipc_def)
  ultimately show ?thesis
    using k1(1,5,6) k2 h by (intro exI[of _ k1] exI[of _ k2]) (simp add: wait_lists_same_def)
qed

text \<open>A waiting thread gives up.\<close>

lemma timeout_effect:
  assumes inv: "kernel_inv k" "stacks_ok k" and cur: "k_current k \<noteq> None"
    and t: "ThreadTimer t \<notin> set (k_timer_list k)" "t_stat (thr k t) = RT_THREAD_SUSPEND"
  shows "\<exists>k'. rt_thread_timeout t k = Some k' \<and> kernel_inv k' \<and> stacks_ok k' \<and> same_ipc k k' \<and>
    (\<forall>h. stat_of_list h = RT_THREAD_SUSPEND \<longrightarrow> k_lists k' h = remove1 t (k_lists k h)) \<and>
    woken (t_stat (thr k' t)) \<and> t_error (thr k' t) = - RT_ETIMEOUT \<and>
    (\<forall>u. t_current_priority (thr k' u) = t_current_priority (thr k u))"
proof -
  obtain c where c: "k_current k = Some c" using cur by blast
  let ?w = "rt_schedule_insert_thread t (tlist_remove t (upd_thr t (t_error_update (\<lambda>_. - RT_ETIMEOUT)) k))"
  have iw: "kernel_inv ?w" by (rule kernel_inv_timeout_wake[OF inv(1) t])
  have sw: "stacks_ok ?w" using inv(2) t(2) by (auto simp: stacks_ok_def live_stat_def)
  have cw: "k_current ?w = Some c" using c by simp
  have ty: "o_type (k_objects k (OThread t)) = RT_Object_Class_Thread"
    using kernel_invD(5)[OF inv(1), of t] t(2) by (auto simp: thread_timer_inv_def live_stat_def)
  from schedule_effect[OF iw sw cw] obtain k' where
    k': "rt_schedule ?w = Some k'" "kernel_inv k'" "stacks_ok k'" "same_ipc ?w k'" "wait_lists_same ?w k'"
      "\<forall>u. sched_rel (thr ?w u) (thr k' u)" by blast
  have e: "rt_thread_timeout t k = Some k'"
    using t(2) ty k'(1) by (simp add: rt_thread_timeout_def rt_object_get_type_def Let_def)
  have "k_lists k' h = remove1 t (k_lists k h)" if "stat_of_list h = RT_THREAD_SUSPEND" for h
    using k'(5) not_ready_head[OF that] not_ready_head[OF that, symmetric] that by (simp add: wait_lists_same_def)
  moreover have "woken (t_stat (thr k' t)) \<and> t_error (thr k' t) = - RT_ETIMEOUT"
    using k'(6)[rule_format, of t] by (auto simp: sched_rel_def woken_def split: if_splits)
  moreover have "t_current_priority (thr k' u) = t_current_priority (thr k u)" for u
    using sched_relD(1)[OF k'(6)[rule_format, of u]] by simp
  ultimately show ?thesis using e k'(2-4) by (intro exI[of _ k']) (simp add: same_ipc_def)
qed

end
