(* ===== verification/Semaphore.thy ===== *)
theory Semaphore
  imports Ipc_Core
begin

text \<open>
  The semaphore of \<^verbatim>\<open>src/ipc.c\<close>: a 16-bit counter and a waiting list, refined from a counting
  semaphore with a queue. A release hands the unit to the first waiter without touching the counter.
\<close>

section \<open>Operations\<close>

definition upd_sem :: "nat \<Rightarrow> (rt_semaphore \<Rightarrow> rt_semaphore) \<Rightarrow> kernel \<Rightarrow> kernel" where
  "upd_sem s f k = k\<lparr>k_sems := (k_sems k)(s := f (k_sems k s))\<rparr>"

definition rt_sem_init :: "nat \<Rightarrow> string \<Rightarrow> nat \<Rightarrow> nat \<Rightarrow> kernel \<Rightarrow> kernel option" where
  "rt_sem_init s name value flag k = do {
     rt_assert (value < 0x10000);
     k \<leftarrow> rt_object_init (OSem s) RT_Object_Class_Semaphore name k;
     let k = rt_ipc_object_init (SemWait s) k;
     Some (upd_sem s (\<lambda>_. \<lparr>sem_flag = flag, sem_value = word_of_nat value\<rparr>) k) }"

definition rt_sem_detach :: "nat \<Rightarrow> kernel \<Rightarrow> kernel option" where
  "rt_sem_detach s k = do {
     rt_assert (rt_object_get_type k (OSem s) = RT_Object_Class_Semaphore);
     rt_assert (rt_object_is_systemobject k (OSem s));
     k \<leftarrow> rt_ipc_list_resume_all (SemWait s) k;
     Some (rt_object_detach (OSem s) k) }"

definition rt_sem_create :: "nat option \<Rightarrow> string \<Rightarrow> nat \<Rightarrow> nat \<Rightarrow> kernel \<Rightarrow> (kernel \<times> nat option) option" where
  "rt_sem_create mem name value flag k = do {
     rt_debug_not_in_interrupt k;
     rt_assert (value < 0x10000);
     (k, ob) \<leftarrow> rt_object_allocate (map_option OSem mem) RT_Object_Class_Semaphore name k;
     (case mem of
        None \<Rightarrow> Some (k, None)
      | Some s \<Rightarrow>
          let k = rt_ipc_object_init (SemWait s) k in
          Some (upd_sem s (\<lambda>_. \<lparr>sem_flag = flag, sem_value = word_of_nat value\<rparr>) k, Some s)) }"

definition rt_sem_delete :: "nat \<Rightarrow> kernel \<Rightarrow> kernel option" where
  "rt_sem_delete s k = do {
     rt_debug_not_in_interrupt k;
     rt_assert (rt_object_get_type k (OSem s) = RT_Object_Class_Semaphore);
     rt_assert (\<not> rt_object_is_systemobject k (OSem s));
     k \<leftarrow> rt_ipc_list_resume_all (SemWait s) k;
     rt_object_delete (OSem s) k }"

definition rt_sem_take :: "nat \<Rightarrow> int \<Rightarrow> kernel \<Rightarrow> (kernel \<times> ipc_result) option" where
  "rt_sem_take s time k = do {
     rt_assert (rt_object_get_type k (OSem s) = RT_Object_Class_Semaphore);
     if sem_value (k_sems k s) > 0
     then Some (upd_sem s (\<lambda>x. x\<lparr>sem_value := sem_value x - 1\<rparr>) k, Done RT_EOK)
     else if time = 0 then Some (k, Done (- RT_ETIMEOUT))
     else do {
       rt_debug_in_thread_context k;
       t \<leftarrow> rt_thread_self k;
       let k = upd_thr t (t_error_update (\<lambda>_. RT_EOK)) k;
       k \<leftarrow> ipc_block (SemWait s) t (sem_flag (k_sems k s)) time k;
       Some (k, Blocked) } }"

text \<open>After the schedule: the thread's error, if any, is the result.\<close>

definition rt_sem_take_resume :: "nat \<Rightarrow> kernel \<Rightarrow> int" where
  "rt_sem_take_resume t k = (if t_error (thr k t) \<noteq> RT_EOK then t_error (thr k t) else RT_EOK)"

definition rt_sem_trytake :: "nat \<Rightarrow> kernel \<Rightarrow> (kernel \<times> ipc_result) option" where
  "rt_sem_trytake s k = rt_sem_take s 0 k"

definition rt_sem_release :: "nat \<Rightarrow> kernel \<Rightarrow> kernel option" where
  "rt_sem_release s k = do {
     rt_assert (rt_object_get_type k (OSem s) = RT_Object_Class_Semaphore);
     if k_lists k (SemWait s) \<noteq> [] then do {
       k \<leftarrow> rt_ipc_list_resume (SemWait s) k;
       rt_schedule k }
     else Some (upd_sem s (\<lambda>x. x\<lparr>sem_value := sem_value x + 1\<rparr>) k) }"

definition rt_sem_control :: "nat \<Rightarrow> int \<Rightarrow> nat \<Rightarrow> kernel \<Rightarrow> (kernel \<times> int) option" where
  "rt_sem_control s cmd arg k = do {
     rt_assert (rt_object_get_type k (OSem s) = RT_Object_Class_Semaphore);
     if cmd = RT_IPC_CMD_RESET then do {
       k \<leftarrow> rt_ipc_list_resume_all (SemWait s) k;
       let k = upd_sem s (\<lambda>x. x\<lparr>sem_value := word_of_nat arg\<rparr>) k;
       k \<leftarrow> rt_schedule k;
       Some (k, RT_EOK) }
     else Some (k, - RT_ERROR) }"

section \<open>The abstract semaphore\<close>

text \<open>A counter and the queue of waiting threads; \<open>enq\<close> is the queueing discipline.\<close>

type_synonym abs_sem = "nat \<times> nat list"

definition abs_take :: "(nat \<Rightarrow> nat list \<Rightarrow> nat list) \<Rightarrow> nat \<Rightarrow> abs_sem \<Rightarrow> abs_sem" where
  "abs_take enq t s = (if fst s > 0 then (fst s - 1, snd s) else (0, enq t (snd s)))"

definition abs_release :: "abs_sem \<Rightarrow> abs_sem" where
  "abs_release s = (if snd s \<noteq> [] then (fst s, tl (snd s)) else (fst s + 1, []))"

definition sem_abs :: "kernel \<Rightarrow> nat \<Rightarrow> abs_sem" where
  "sem_abs k s = (unat (sem_value (k_sems k s)), k_lists k (SemWait s))"

text \<open>Nobody waits while a unit is available.\<close>

definition sem_inv :: "kernel \<Rightarrow> nat \<Rightarrow> bool" where
  "sem_inv k s \<longleftrightarrow> (sem_value (k_sems k s) > 0 \<longrightarrow> k_lists k (SemWait s) = [])"

lemma upd_sem_sel [simp]:
  "k_sems (upd_sem s f k) = (k_sems k)(s := f (k_sems k s))" "k_lists (upd_sem s f k) = k_lists k"
  "k_threads (upd_sem s f k) = k_threads k" "k_current (upd_sem s f k) = k_current k"
  "k_objects (upd_sem s f k) = k_objects k" "k_timers (upd_sem s f k) = k_timers k"
  "k_timer_list (upd_sem s f k) = k_timer_list k" "kernel_inv (upd_sem s f k) = kernel_inv k"
  "stacks_ok (upd_sem s f k) = stacks_ok k"
  by (simp_all add: upd_sem_def stacks_ok_def)

section \<open>Properties\<close>

text \<open>What a running thread outside interrupts needs.\<close>

definition running_thread :: "kernel \<Rightarrow> nat \<Rightarrow> bool" where
  "running_thread k c \<longleftrightarrow> k_current k = Some c \<and> t_stat (thr k c) = RT_THREAD_RUNNING \<and> k_interrupt_nest k = 0"

lemma sample_running: "running_thread sample 1"
  by (simp add: running_thread_def sample_threads_def)

lemma sample_registered_types:
  "o_type (sample_objects (OSem 0)) = RT_Object_Class_Semaphore"
  "o_type (sample_objects (OMutex 0)) = RT_Object_Class_Mutex"
  "o_type (sample_objects (OMutex 1)) = RT_Object_Class_Mutex"
  "o_type (sample_objects (OEvent 0)) = RT_Object_Class_Event"
  "o_type (sample_objects (OMailBox 0)) = RT_Object_Class_MailBox"
  "o_type (sample_objects (OMq 0)) = RT_Object_Class_MessageQueue"
  by (simp_all add: sample_objects_def sample_registered_def)

lemma sem_take_effect:
  assumes inv: "kernel_inv k" "stacks_ok k" and run: "running_thread k c"
    and ty: "o_type (k_objects k (OSem s)) = RT_Object_Class_Semaphore" and tm: "time < 2 ^ 31 - 1"
  shows "\<exists>k' r. rt_sem_take s time k = Some (k', r) \<and> kernel_inv k' \<and> stacks_ok k' \<and>
    (if sem_value (k_sems k s) > 0 then
       r = Done RT_EOK \<and> sem_abs k' s = (fst (sem_abs k s) - 1, snd (sem_abs k s)) \<and> k_threads k' = k_threads k
     else if time = 0 then r = Done (- RT_ETIMEOUT) \<and> k' = k
     else r = Blocked \<and> t_stat (thr k' c) = RT_THREAD_SUSPEND \<and> t_error (thr k' c) = RT_EOK \<and>
       sem_abs k' s = (0, waiters_after (sem_flag (k_sems k s)) (\<lambda>u. t_current_priority (thr k u)) c
                            (k_lists k (SemWait s))) \<and>
       (ThreadTimer c \<in> set (k_timer_list k') \<longleftrightarrow> time > 0))"
proof (cases "sem_value (k_sems k s) > 0")
  case True
  then have "unat (sem_value (k_sems k s) - 1) = unat (sem_value (k_sems k s)) - 1"
    by (metis unat_minus_one word_greater_zero_iff)
  then show ?thesis
    using True ty inv by (simp add: rt_sem_take_def rt_object_get_type_def sem_abs_def)
next
  case False
  show ?thesis
  proof (cases "time = 0")
    case True
    then show ?thesis using False ty inv by (simp add: rt_sem_take_def rt_object_get_type_def)
  next
    case nz: False
    let ?k = "upd_thr c (t_error_update (\<lambda>_. RT_EOK)) k"
    have c: "k_current ?k = Some c" "t_stat (thr ?k c) = RT_THREAD_RUNNING"
      using run by (simp_all add: running_thread_def)
    have i: "kernel_inv ?k" by (rule kernel_inv_upd_thr[OF inv(1)]) simp_all
    have s: "stacks_ok ?k" using inv(2) by (auto simp: stacks_ok_def)
    have pr: "(\<lambda>u. t_current_priority (thr ?k u)) = (\<lambda>u. t_current_priority (thr k u))" by (auto simp: fun_eq_iff)
    have hs: "stat_of_list (SemWait s) = RT_THREAD_SUSPEND" by simp
    from block_effect[OF i s c hs tm, of "sem_flag (k_sems k s)"] obtain k' where
      k': "ipc_block (SemWait s) c (sem_flag (k_sems k s)) time ?k = Some k'" "kernel_inv k'" "stacks_ok k'"
      "same_ipc ?k k'"
      "k_lists k' (SemWait s) = waiters_after (sem_flag (k_sems k s)) (\<lambda>u. t_current_priority (thr ?k u)) c
         (k_lists ?k (SemWait s))"
      "thr k' c = (thr ?k c)\<lparr>t_stat := RT_THREAD_SUSPEND\<rparr>"
      "time > 0 \<longrightarrow> ThreadTimer c \<in> set (k_timer_list k')"
      "time \<le> 0 \<longrightarrow> ThreadTimer c \<notin> set (k_timer_list k')" by blast
    have "rt_sem_take s time k = Some (k', Blocked)"
      using False nz ty run k'(1)
      by (simp add: rt_sem_take_def rt_object_get_type_def rt_debug_in_thread_context_def
          rt_debug_not_in_interrupt_def rt_interrupt_get_nest_def rt_thread_self_def running_thread_def)
    moreover have "sem_value (k_sems k' s) = 0"
      using k'(4) False by (simp add: same_ipc_def word_gt_0)
    moreover have "ThreadTimer c \<in> set (k_timer_list k') \<longleftrightarrow> time > 0"
      using k'(7,8) by linarith
    ultimately show ?thesis
      using False nz k'(2,3,6) k'(5)[unfolded pr] by (simp add: sem_abs_def)
  qed
qed

text \<open>C17. \<^verbatim>\<open>rt_sem_take\<close> by a running thread always reaches a result and keeps the kernel invariant:
  it takes a unit if there is one, answers a timeout at once when told not to wait, and otherwise
  suspends the thread at its place in the queue with its timer armed for the waiting time.\<close>

theorem sem_take_spec:
  assumes inv: "kernel_inv k" "stacks_ok k" and run: "running_thread k c"
    and ty: "o_type (k_objects k (OSem s)) = RT_Object_Class_Semaphore" and tm: "time < 2 ^ 31 - 1"
  shows "\<exists>k' r. rt_sem_take s time k = Some (k', r) \<and> kernel_inv k' \<and> stacks_ok k' \<and>
    (if sem_value (k_sems k s) > 0 then
       r = Done RT_EOK \<and> sem_abs k' s = (fst (sem_abs k s) - 1, snd (sem_abs k s)) \<and> k_threads k' = k_threads k
     else if time = 0 then r = Done (- RT_ETIMEOUT) \<and> k' = k
     else r = Blocked \<and> t_stat (thr k' c) = RT_THREAD_SUSPEND \<and> t_error (thr k' c) = RT_EOK \<and>
       sem_abs k' s = (0, waiters_after (sem_flag (k_sems k s)) (\<lambda>u. t_current_priority (thr k u)) c
                            (k_lists k (SemWait s))) \<and>
       (ThreadTimer c \<in> set (k_timer_list k') \<longleftrightarrow> time > 0))"
  using assms by (rule sem_take_effect)

theorem sem_take_spec_witness:
  "\<exists>k' r. rt_sem_take 0 (-1) sample = Some (k', r) \<and> r = Blocked \<and> t_stat (thr k' 1) = RT_THREAD_SUSPEND"
  using sem_take_spec[OF sample_inv sample_stacks_ok sample_running, of 0 "-1"] sample_registered_types(1)
  by (auto simp: sample_def)

lemma sem_release_effect:
  assumes inv: "kernel_inv k" "stacks_ok k" and cur: "k_current k = Some c"
    and ty: "o_type (k_objects k (OSem s)) = RT_Object_Class_Semaphore"
  shows "\<exists>k'. rt_sem_release s k = Some k' \<and> kernel_inv k' \<and> stacks_ok k' \<and>
    (if k_lists k (SemWait s) = [] \<and> sem_value (k_sems k s) = 0xFFFF then sem_abs k' s = (0, [])
     else sem_abs k' s = abs_release (sem_abs k s)) \<and>
    (k_lists k (SemWait s) \<noteq> [] \<longrightarrow> woken (t_stat (thr k' (hd (k_lists k (SemWait s))))) \<and>
       t_error (thr k' (hd (k_lists k (SemWait s)))) = t_error (thr k (hd (k_lists k (SemWait s)))))"
proof (cases "k_lists k (SemWait s)")
  case Nil
  have "unat (sem_value (k_sems k s) + 1) = unat (sem_value (k_sems k s)) + 1"
    if "sem_value (k_sems k s) \<noteq> 0xFFFF"
  proof -
    have "(0xFFFF :: u16) = - 1" by simp
    then have "sem_value (k_sems k s) + 1 \<noteq> 0"
      using that by (metis eq_neg_iff_add_eq_0)
    then show ?thesis by (metis Suc_eq_plus1 unatSuc add.commute)
  qed
  then show ?thesis
    using Nil ty inv by (auto simp: rt_sem_release_def rt_object_get_type_def sem_abs_def abs_release_def)
next
  case (Cons t ts)
  have hs: "stat_of_list (SemWait s) = RT_THREAD_SUSPEND" by simp
  from resume_first_effect[OF inv Cons hs] obtain k1 where
    k1: "rt_ipc_list_resume (SemWait s) k = Some k1" "kernel_inv k1" "stacks_ok k1" "same_ipc k k1"
      "k_lists k1 (SemWait s) = ts" "\<exists>st. woken st \<and> thr k1 t = (thr k t)\<lparr>t_stat := st\<rparr>"
      "k_current k1 = k_current k" by blast
  have c1: "k_current k1 = Some c" using k1(7) cur by simp
  from schedule_effect[OF k1(2,3) c1] obtain k2 where
    k2: "rt_schedule k1 = Some k2" "kernel_inv k2" "stacks_ok k2" "same_ipc k1 k2" "wait_lists_same k1 k2"
      "\<forall>t. sched_rel (thr k1 t) (thr k2 t)" by blast
  have "rt_sem_release s k = Some k2" using Cons ty k1(1) k2(1) by (simp add: rt_sem_release_def rt_object_get_type_def)
  moreover have "sem_abs k2 s = (fst (sem_abs k s), ts)"
    using k1(4,5) k2(4,5) by (simp add: sem_abs_def same_ipc_def wait_lists_same_def)
  moreover have "woken (t_stat (thr k2 t)) \<and> t_error (thr k2 t) = t_error (thr k t)"
    using k1(6) k2(6)[rule_format, of t] by (auto simp: sched_rel_def woken_def)
  ultimately show ?thesis
    using k2(2,3) Cons by (intro exI[of _ k2]) (simp add: sem_abs_def abs_release_def)
qed

text \<open>C16. \<^verbatim>\<open>rt_sem_release\<close> refines the release of a counting semaphore: with threads waiting the
  first of them becomes ready and the counter stays; otherwise the counter grows by one, but as a
  16-bit value, so at 65535 it wraps to 0 and all units are lost.\<close>

theorem sem_release_refines:
  assumes inv: "kernel_inv k" "stacks_ok k" and cur: "k_current k = Some c"
    and ty: "o_type (k_objects k (OSem s)) = RT_Object_Class_Semaphore"
  shows "\<exists>k'. rt_sem_release s k = Some k' \<and> kernel_inv k' \<and> stacks_ok k' \<and>
    (if k_lists k (SemWait s) = [] \<and> sem_value (k_sems k s) = 0xFFFF then sem_abs k' s = (0, [])
     else sem_abs k' s = abs_release (sem_abs k s)) \<and>
    (k_lists k (SemWait s) \<noteq> [] \<longrightarrow> woken (t_stat (thr k' (hd (k_lists k (SemWait s))))) \<and>
       t_error (thr k' (hd (k_lists k (SemWait s)))) = t_error (thr k (hd (k_lists k (SemWait s)))))"
  using assms by (rule sem_release_effect)

theorem sem_release_refines_witness:
  "\<exists>k'. rt_sem_release 0 sample = Some k' \<and> sem_abs k' 0 = abs_release (sem_abs sample 0) \<and>
     woken (t_stat (thr k' 3))"
proof -
  have l: "k_lists sample (SemWait 0) = [3]" by (simp add: sample_lists_def)
  show ?thesis
    using sem_release_refines[OF sample_inv sample_stacks_ok, of 1 0] sample_registered_types(1) l by auto
qed

text \<open>C18. No lost wake-up: in every state reached by taking, releasing and waking on timeout, nobody
  waits on a semaphore that has units. Each of the operations keeps that invariant.\<close>

theorem sem_no_lost_wakeup:
  assumes inv: "kernel_inv k" "stacks_ok k" and si: "sem_inv k s"
    and ty: "o_type (k_objects k (OSem s)) = RT_Object_Class_Semaphore"
    and cur: "k_current k = Some c"
    and op: "rt_sem_release s k = Some k' \<or>
      (running_thread k c \<and> time < 2 ^ 31 - 1 \<and> rt_sem_take s time k = Some (k', r)) \<or>
      (ThreadTimer t \<notin> set (k_timer_list k) \<and> rt_thread_timeout t k = Some k')"
  shows "sem_inv k' s"
  using op
proof (elim disjE conjE)
  assume r: "rt_sem_release s k = Some k'"
  from sem_release_effect[OF inv cur ty] obtain k2 where k2: "rt_sem_release s k = Some k2"
    "if k_lists k (SemWait s) = [] \<and> sem_value (k_sems k s) = 0xFFFF then sem_abs k2 s = (0, [])
     else sem_abs k2 s = abs_release (sem_abs k s)" by blast
  then have k': "k2 = k'" using r by simp
  show ?thesis
  proof (cases "k_lists k (SemWait s)")
    case Nil
    then show ?thesis using k2(2) unfolding k' by (simp add: sem_abs_def sem_inv_def abs_release_def split: if_splits)
  next
    case (Cons u us)
    then have "sem_value (k_sems k s) = 0" using si by (simp add: sem_inv_def word_gt_0)
    then show ?thesis
      using k2(2) Cons unfolding k' by (simp add: sem_abs_def sem_inv_def abs_release_def word_gt_0 unat_eq_0)
  qed
next
  assume a: "running_thread k c" "time < 2 ^ 31 - 1" "rt_sem_take s time k = Some (k', r)"
  from sem_take_effect[OF inv a(1) ty a(2)] a(3) have
    "if sem_value (k_sems k s) > 0 then sem_abs k' s = (fst (sem_abs k s) - 1, snd (sem_abs k s))
     else if time = 0 then k' = k else fst (sem_abs k' s) = 0" by (auto split: if_splits)
  then show ?thesis
    using si by (auto simp: sem_abs_def sem_inv_def word_gt_0 unat_eq_0 split: if_splits)
next
  assume a: "ThreadTimer t \<notin> set (k_timer_list k)" "rt_thread_timeout t k = Some k'"
  let ?w = "rt_schedule_insert_thread t (tlist_remove t (upd_thr t (t_error_update (\<lambda>_. - RT_ETIMEOUT)) k))"
  have w: "rt_schedule ?w = Some k'" using a(2) by (auto simp: rt_thread_timeout_def bind_eq_Some_conv Let_def)
  have "set (k_lists k' (SemWait s)) \<subseteq> set (k_lists ?w (SemWait s))"
    using w by (auto simp: rt_schedule_def Let_def bind_eq_Some_conv split: if_splits
        dest: set_remove1_subset[THEN subsetD])
  also have "\<dots> \<subseteq> set (k_lists k (SemWait s))" by (auto dest: set_remove1_subset[THEN subsetD])
  finally have "k_lists k (SemWait s) = [] \<Longrightarrow> k_lists k' (SemWait s) = []" by auto
  moreover have "k_sems k' = k_sems k" using rt_schedule_frame[OF w] by (simp add: same_objects_def)
  ultimately show ?thesis using si by (simp add: sem_inv_def)
qed

theorem sem_no_lost_wakeup_witness:
  "\<exists>k'. rt_sem_release 0 sample = Some k' \<and> sem_inv k' 0"
proof -
  have ty: "o_type (k_objects sample (OSem 0)) = RT_Object_Class_Semaphore" and cur: "k_current sample = Some 1"
    by (simp_all add: sample_registered_types)
  obtain k' where k': "rt_sem_release 0 sample = Some k'"
    using resume_first_effect[OF sample_inv sample_stacks_ok, of "SemWait 0" 3 "[]"] schedule_enabled ty
    by (fastforce simp: rt_sem_release_def rt_object_get_type_def sample_lists_def)
  have "sem_inv sample 0" by (simp add: sem_inv_def sample_def)
  from sem_no_lost_wakeup[OF sample_inv sample_stacks_ok this ty cur disjI1[OF k']] k' show ?thesis by blast
qed

end
