(* ===== verification/Mutex.thy ===== *)
theory Mutex
  imports Semaphore
begin

text \<open>
  The mutex of \<^verbatim>\<open>src/ipc.c\<close>: ownership, nested takes, priority inheritance and the hand-over to the
  first waiter on release.
\<close>

section \<open>Operations\<close>

definition upd_mutex :: "nat \<Rightarrow> (rt_mutex \<Rightarrow> rt_mutex) \<Rightarrow> kernel \<Rightarrow> kernel" where
  "upd_mutex m f k = k\<lparr>k_mutexes := (k_mutexes k)(m := f (k_mutexes k m))\<rparr>"

definition new_mutex :: "nat \<Rightarrow> rt_mutex" where
  "new_mutex flag = \<lparr>mtx_flag = flag, mtx_value = 1, mtx_original_priority = 0xFF, mtx_hold = 0, mtx_owner = None\<rparr>"

definition rt_mutex_init :: "nat \<Rightarrow> string \<Rightarrow> nat \<Rightarrow> kernel \<Rightarrow> kernel option" where
  "rt_mutex_init m name flag k = do {
     k \<leftarrow> rt_object_init (OMutex m) RT_Object_Class_Mutex name k;
     Some (upd_mutex m (\<lambda>_. new_mutex flag) (rt_ipc_object_init (MutexWait m) k)) }"

definition rt_mutex_detach :: "nat \<Rightarrow> kernel \<Rightarrow> kernel option" where
  "rt_mutex_detach m k = do {
     rt_assert (rt_object_get_type k (OMutex m) = RT_Object_Class_Mutex);
     rt_assert (rt_object_is_systemobject k (OMutex m));
     k \<leftarrow> rt_ipc_list_resume_all (MutexWait m) k;
     Some (rt_object_detach (OMutex m) k) }"

definition rt_mutex_create :: "nat option \<Rightarrow> string \<Rightarrow> nat \<Rightarrow> kernel \<Rightarrow> (kernel \<times> nat option) option" where
  "rt_mutex_create mem name flag k = do {
     rt_debug_not_in_interrupt k;
     (k, ob) \<leftarrow> rt_object_allocate (map_option OMutex mem) RT_Object_Class_Mutex name k;
     (case mem of
        None \<Rightarrow> Some (k, None)
      | Some m \<Rightarrow> Some (upd_mutex m (\<lambda>_. new_mutex flag) (rt_ipc_object_init (MutexWait m) k), Some m)) }"

definition rt_mutex_delete :: "nat \<Rightarrow> kernel \<Rightarrow> kernel option" where
  "rt_mutex_delete m k = do {
     rt_debug_not_in_interrupt k;
     rt_assert (rt_object_get_type k (OMutex m) = RT_Object_Class_Mutex);
     rt_assert (\<not> rt_object_is_systemobject k (OMutex m));
     k \<leftarrow> rt_ipc_list_resume_all (MutexWait m) k;
     rt_object_delete (OMutex m) k }"

text \<open>From the label \<^verbatim>\<open>__again\<close> on, for a thread that does not own the mutex.\<close>

definition mutex_take_again :: "nat \<Rightarrow> nat \<Rightarrow> int \<Rightarrow> kernel \<Rightarrow> (kernel \<times> ipc_result) option" where
  "mutex_take_again m t time k =
     (let mtx = k_mutexes k m in
      if mtx_value mtx > 0 then
        Some (upd_mutex m (\<lambda>x. x\<lparr>mtx_value := mtx_value x - 1, mtx_owner := Some t,
           mtx_original_priority := t_current_priority (thr k t), mtx_hold := mtx_hold x + 1\<rparr>) k, Done RT_EOK)
      else if time = 0 then
        Some (upd_thr t (t_error_update (\<lambda>_. - RT_ETIMEOUT)) k, Done (- RT_ETIMEOUT))
      else do {
        own \<leftarrow> mtx_owner mtx;
        k \<leftarrow> (if t_current_priority (thr k t) < t_current_priority (thr k own)
             then rt_thread_control own (RT_THREAD_CTRL_CHANGE_PRIORITY (word_of_nat (t_current_priority (thr k t)))) k
             else Some k);
        k \<leftarrow> ipc_block (MutexWait m) t (mtx_flag mtx) time k;
        Some (k, Blocked) })"

definition rt_mutex_take :: "nat \<Rightarrow> int \<Rightarrow> kernel \<Rightarrow> (kernel \<times> ipc_result) option" where
  "rt_mutex_take m time k = do {
     rt_debug_in_thread_context k;
     rt_assert (rt_object_get_type k (OMutex m) = RT_Object_Class_Mutex);
     t \<leftarrow> rt_thread_self k;
     let k = upd_thr t (t_error_update (\<lambda>_. RT_EOK)) k;
     if mtx_owner (k_mutexes k m) = Some t
     then Some (upd_mutex m (\<lambda>x. x\<lparr>mtx_hold := mtx_hold x + 1\<rparr>) k, Done RT_EOK)
     else mutex_take_again m t time k }"

text \<open>After the schedule: an interruption by a signal tries again, any other error is the result.\<close>

definition rt_mutex_take_resume :: "nat \<Rightarrow> nat \<Rightarrow> int \<Rightarrow> kernel \<Rightarrow> (kernel \<times> ipc_result) option" where
  "rt_mutex_take_resume m t time k =
     (if t_error (thr k t) \<noteq> RT_EOK then
        if t_error (thr k t) = - RT_EINTR then mutex_take_again m t time k
        else Some (k, Done (t_error (thr k t)))
      else Some (k, Done RT_EOK))"

definition rt_mutex_release :: "nat \<Rightarrow> kernel \<Rightarrow> (kernel \<times> int) option" where
  "rt_mutex_release m k = do {
     rt_assert (rt_object_get_type k (OMutex m) = RT_Object_Class_Mutex);
     rt_debug_in_thread_context k;
     t \<leftarrow> rt_thread_self k;
     if mtx_owner (k_mutexes k m) \<noteq> Some t
     then Some (upd_thr t (t_error_update (\<lambda>_. - RT_ERROR)) k, - RT_ERROR)
     else do {
       let k = upd_mutex m (\<lambda>x. x\<lparr>mtx_hold := mtx_hold x - 1\<rparr>) k;
       if mtx_hold (k_mutexes k m) = 0 then do {
         k \<leftarrow> (if mtx_original_priority (k_mutexes k m) \<noteq> t_current_priority (thr k t)
              then rt_thread_control t
                (RT_THREAD_CTRL_CHANGE_PRIORITY (word_of_nat (mtx_original_priority (k_mutexes k m)))) k
              else Some k);
         (case k_lists k (MutexWait m) of
            u # _ \<Rightarrow> do {
              let k = upd_mutex m (\<lambda>x. x\<lparr>mtx_owner := Some u,
                 mtx_original_priority := t_current_priority (thr k u), mtx_hold := mtx_hold x + 1\<rparr>) k;
              k \<leftarrow> rt_ipc_list_resume (MutexWait m) k;
              k \<leftarrow> rt_schedule k;
              Some (k, RT_EOK) }
          | [] \<Rightarrow> Some (upd_mutex m (\<lambda>x. x\<lparr>mtx_value := mtx_value x + 1, mtx_owner := None,
                     mtx_original_priority := 0xFF\<rparr>) k, RT_EOK)) }
       else Some (k, RT_EOK) } }"

definition rt_mutex_control :: "nat \<Rightarrow> int \<Rightarrow> kernel \<Rightarrow> (kernel \<times> int) option" where
  "rt_mutex_control m cmd k = do {
     rt_assert (rt_object_get_type k (OMutex m) = RT_Object_Class_Mutex);
     Some (k, - RT_ERROR) }"

section \<open>Invariant and frame\<close>

text \<open>A free mutex is not held and has no waiters; an owner is a registered thread.\<close>

definition mutex_inv :: "kernel \<Rightarrow> nat \<Rightarrow> bool" where
  "mutex_inv k m \<longleftrightarrow>
     (case mtx_owner (k_mutexes k m) of
        None \<Rightarrow> mtx_value (k_mutexes k m) = 1 \<and> mtx_hold (k_mutexes k m) = 0 \<and> k_lists k (MutexWait m) = []
      | Some t \<Rightarrow> mtx_value (k_mutexes k m) = 0 \<and> mtx_original_priority (k_mutexes k m) < 32 \<and>
          o_type (k_objects k (OThread t)) = RT_Object_Class_Thread)"

lemma upd_mutex_sel [simp]:
  "k_mutexes (upd_mutex m f k) = (k_mutexes k)(m := f (k_mutexes k m))" "k_lists (upd_mutex m f k) = k_lists k"
  "k_threads (upd_mutex m f k) = k_threads k" "k_current (upd_mutex m f k) = k_current k"
  "k_objects (upd_mutex m f k) = k_objects k" "k_timers (upd_mutex m f k) = k_timers k"
  "k_timer_list (upd_mutex m f k) = k_timer_list k" "kernel_inv (upd_mutex m f k) = kernel_inv k"
  "stacks_ok (upd_mutex m f k) = stacks_ok k" "k_interrupt_nest (upd_mutex m f k) = k_interrupt_nest k"
  by (simp_all add: upd_mutex_def stacks_ok_def)

lemma running_prio:
  assumes "kernel_inv k" "running_thread k c"
  shows "t_current_priority (thr k c) < 32"
  using thread_invD(4)[OF kernel_invD(6)[OF assms(1)], of c] assms(2)
  by (simp add: running_thread_def live_stat_def prio_ok_def)

lemma unat_prio: "p < 32 \<Longrightarrow> unat (word_of_nat p :: u8) = p"
  by (simp add: unsigned_of_nat take_bit_eq_mod)

lemma running_upd_error:
  assumes "kernel_inv k" "stacks_ok k" "running_thread k c"
  shows "kernel_inv (upd_thr c (t_error_update (\<lambda>_. e)) k)" "stacks_ok (upd_thr c (t_error_update (\<lambda>_. e)) k)"
    "running_thread (upd_thr c (t_error_update (\<lambda>_. e)) k) c"
proof -
  show "kernel_inv (upd_thr c (t_error_update (\<lambda>_. e)) k)" by (rule kernel_inv_upd_thr[OF assms(1)]) simp_all
  show "stacks_ok (upd_thr c (t_error_update (\<lambda>_. e)) k)" using assms(2) by (auto simp: stacks_ok_def)
  show "running_thread (upd_thr c (t_error_update (\<lambda>_. e)) k) c" using assms(3) by (simp add: running_thread_def)
qed

lemma stacks_ok_change_priority:
  assumes "kernel_inv k" "stacks_ok k" shows "stacks_ok (change_priority t p k)"
proof -
  have "rt_scheduler_stack_check (th\<lparr>t_current_priority := p, t_number_mask := q\<rparr>) = rt_scheduler_stack_check th"
    for th q by (simp add: rt_scheduler_stack_check_def)
  then show ?thesis using assms(2) by (auto simp: stacks_ok_def change_priority_threads[OF assms(1)])
qed

text \<open>Priority inheritance as one step.\<close>

definition inherit :: "nat \<Rightarrow> nat \<Rightarrow> kernel \<Rightarrow> kernel" where
  "inherit c own k =
     (if t_current_priority (thr k c) < t_current_priority (thr k own)
      then change_priority own (t_current_priority (thr k c)) k else k)"

lemma inherit_effect:
  assumes inv: "kernel_inv k" "stacks_ok k" and run: "running_thread k c" and ne: "own \<noteq> c"
  shows "kernel_inv (inherit c own k)" "stacks_ok (inherit c own k)" "running_thread (inherit c own k) c"
    "thr (inherit c own k) c = thr k c"
    "t_current_priority (thr (inherit c own k) own) =
       min (t_current_priority (thr k own)) (t_current_priority (thr k c))"
    "\<And>u. u \<noteq> own \<Longrightarrow> thr (inherit c own k) u = thr k u"
    "\<And>h. stat_of_list h = RT_THREAD_SUSPEND \<Longrightarrow> k_lists (inherit c own k) h = k_lists k h"
    "same_ipc k (inherit c own k)"
proof -
  note th = change_priority_threads[OF inv(1), of own "t_current_priority (thr k c)"]
  show "kernel_inv (inherit c own k)"
    using kernel_inv_change_priority[OF inv(1) running_prio[OF inv(1) run]] inv(1) by (simp add: inherit_def)
  show "stacks_ok (inherit c own k)" using stacks_ok_change_priority[OF inv] inv(2) by (simp add: inherit_def)
  show "running_thread (inherit c own k) c" using run ne th by (simp add: inherit_def running_thread_def)
  show "thr (inherit c own k) c = thr k c" using ne th by (simp add: inherit_def)
  show "t_current_priority (thr (inherit c own k) own) =
       min (t_current_priority (thr k own)) (t_current_priority (thr k c))"
    using th by (simp add: inherit_def min_def)
  show "\<And>u. u \<noteq> own \<Longrightarrow> thr (inherit c own k) u = thr k u" using th by (simp add: inherit_def)
  show "\<And>h. stat_of_list h = RT_THREAD_SUSPEND \<Longrightarrow> k_lists (inherit c own k) h = k_lists k h"
    using change_priority_waiting[OF inv(1)] by (simp add: inherit_def)
  show "same_ipc k (inherit c own k)" by (simp add: inherit_def same_ipc_def)
qed

section \<open>Properties\<close>

lemma mutex_block:
  assumes inv: "kernel_inv k" "stacks_ok k" and run: "running_thread k c"
    and own: "mtx_owner (k_mutexes k m) = Some own" "own \<noteq> c" "mtx_value (k_mutexes k m) = 0"
      "o_type (k_objects k (OThread own)) = RT_Object_Class_Thread"
    and tm: "time < 2 ^ 31 - 1" "time \<noteq> 0"
  shows "\<exists>k'. mutex_take_again m c time k = Some (k', Blocked) \<and> kernel_inv k' \<and> stacks_ok k' \<and> same_ipc k k' \<and>
    k_current k' \<noteq> None \<and>
    k_lists k' (MutexWait m) = waiters_after (mtx_flag (k_mutexes k m))
      (\<lambda>u. t_current_priority (thr (inherit c own k) u)) c (k_lists k (MutexWait m)) \<and>
    thr k' c = (thr k c)\<lparr>t_stat := RT_THREAD_SUSPEND\<rparr> \<and>
    t_current_priority (thr k' own) = min (t_current_priority (thr k own)) (t_current_priority (thr k c)) \<and>
    (time > 0 \<longrightarrow> ThreadTimer c \<in> set (k_timer_list k'))"
proof -
  let ?k = "inherit c own k" and ?f = "mtx_flag (k_mutexes k m)"
  note i = inherit_effect[OF inv run own(2)]
  have hs: "stat_of_list (MutexWait m) = RT_THREAD_SUSPEND" by simp
  have c: "k_current ?k = Some c" "t_stat (thr ?k c) = RT_THREAD_RUNNING"
    using i(3) by (simp_all add: running_thread_def)
  from block_effect[OF i(1,2) c hs tm(1), of ?f] obtain k' where
    k': "ipc_block (MutexWait m) c ?f time ?k = Some k'" "kernel_inv k'" "stacks_ok k'" "same_ipc ?k k'"
      "k_lists k' (MutexWait m) = waiters_after ?f (\<lambda>u. t_current_priority (thr ?k u)) c (k_lists ?k (MutexWait m))"
      "thr k' c = (thr ?k c)\<lparr>t_stat := RT_THREAD_SUSPEND\<rparr>"
      "\<forall>u. u \<noteq> c \<longrightarrow> sched_rel (thr ?k u) (thr k' u)"
      "time > 0 \<longrightarrow> ThreadTimer c \<in> set (k_timer_list k')" "k_current k' \<noteq> None" by blast
  have ctl: "(if t_current_priority (thr k c) < t_current_priority (thr k own)
        then rt_thread_control own (RT_THREAD_CTRL_CHANGE_PRIORITY (word_of_nat (t_current_priority (thr k c)))) k
        else Some k) = Some ?k"
    using own(4) unat_prio[OF running_prio[OF inv(1) run]]
    by (simp add: inherit_def rt_thread_control_def rt_object_get_type_def)
  have "mutex_take_again m c time k = Some (k', Blocked)"
    unfolding mutex_take_again_def Let_def using own(1,3) tm(2) k'(1) by (simp add: ctl)
  moreover have "t_current_priority (thr k' own) = t_current_priority (thr ?k own)"
    using k'(7) own(2) by (auto dest: sched_relD(1))
  moreover have "same_ipc k k'" using i(8) k'(4) by (simp add: same_ipc_def)
  ultimately show ?thesis
    using k'(2,3,8,9) k'(5)[unfolded i(7)[OF hs]] k'(6)[unfolded i(4)] i(5) by (intro exI[of _ k']) simp
qed

lemma mutex_take_effect:
  assumes inv: "kernel_inv k" "stacks_ok k" "mutex_inv k m" and run: "running_thread k c"
    and ty: "o_type (k_objects k (OMutex m)) = RT_Object_Class_Mutex" and tm: "time < 2 ^ 31 - 1"
  shows "\<exists>k' r. rt_mutex_take m time k = Some (k', r) \<and> kernel_inv k' \<and> stacks_ok k' \<and> mutex_inv k' m \<and>
    (case mtx_owner (k_mutexes k m) of
       None \<Rightarrow> r = Done RT_EOK \<and> mtx_owner (k_mutexes k' m) = Some c \<and> mtx_hold (k_mutexes k' m) = 1 \<and>
         mtx_original_priority (k_mutexes k' m) = t_current_priority (thr k c)
     | Some own \<Rightarrow>
         if own = c then r = Done RT_EOK \<and>
           k_mutexes k' m = (k_mutexes k m)\<lparr>mtx_hold := mtx_hold (k_mutexes k m) + 1\<rparr>
         else k_mutexes k' m = k_mutexes k m \<and>
           (if time = 0 then r = Done (- RT_ETIMEOUT) \<and> k_lists k' = k_lists k
            else r = Blocked \<and> t_stat (thr k' c) = RT_THREAD_SUSPEND \<and>
              k_lists k' (MutexWait m) = waiters_after (mtx_flag (k_mutexes k m))
                (\<lambda>u. t_current_priority (thr (inherit c own k) u)) c (k_lists k (MutexWait m)) \<and>
              t_current_priority (thr k' own) =
                min (t_current_priority (thr k own)) (t_current_priority (thr k c))))"
proof -
  let ?k = "upd_thr c (t_error_update (\<lambda>_. RT_EOK)) k"
  note u = running_upd_error[OF inv(1,2) run]
  have e: "rt_mutex_take m time k =
      (if mtx_owner (k_mutexes k m) = Some c
       then Some (upd_mutex m (\<lambda>x. x\<lparr>mtx_hold := mtx_hold x + 1\<rparr>) ?k, Done RT_EOK)
       else mutex_take_again m c time ?k)"
    using run ty by (simp add: rt_mutex_take_def rt_debug_in_thread_context_def rt_debug_not_in_interrupt_def
        rt_interrupt_get_nest_def rt_thread_self_def running_thread_def rt_object_get_type_def)
  have cty: "o_type (k_objects k (OThread c)) = RT_Object_Class_Thread"
    using kernel_invD(5)[OF inv(1), of c] run by (simp add: thread_timer_inv_def running_thread_def live_stat_def)
  show ?thesis
  proof (cases "mtx_owner (k_mutexes k m)")
    case None
    let ?k1 = "upd_mutex m (\<lambda>x. x\<lparr>mtx_value := mtx_value x - 1, mtx_owner := Some c,
        mtx_original_priority := t_current_priority (thr ?k c), mtx_hold := mtx_hold x + 1\<rparr>) ?k"
    have v: "mtx_value (k_mutexes k m) = 1" "mtx_hold (k_mutexes k m) = 0"
      using inv(3) None by (simp_all add: mutex_inv_def)
    have "rt_mutex_take m time k = Some (?k1, Done RT_EOK)"
      using e None v by (simp add: mutex_take_again_def Let_def)
    moreover have "mutex_inv ?k1 m"
      using v cty running_prio[OF inv(1) run] by (simp add: mutex_inv_def)
    ultimately show ?thesis using None u(1,2) v by simp
  next
    case (Some own)
    have o: "mtx_value (k_mutexes k m) = 0" "o_type (k_objects k (OThread own)) = RT_Object_Class_Thread"
      "mtx_original_priority (k_mutexes k m) < 32"
      using inv(3) Some by (simp_all add: mutex_inv_def)
    show ?thesis
    proof (cases "own = c")
      case True
      then show ?thesis using e Some u(1,2) inv(3) by (simp add: mutex_inv_def)
    next
      case ne: False
      show ?thesis
      proof (cases "time = 0")
        case True
        let ?k1 = "upd_thr c (t_error_update (\<lambda>_. - RT_ETIMEOUT)) ?k"
        have "rt_mutex_take m time k = Some (?k1, Done (- RT_ETIMEOUT))"
          using e Some ne True o(1) by (simp add: mutex_take_again_def Let_def)
        then show ?thesis
          using running_upd_error(1,2)[OF u, of "- RT_ETIMEOUT"] Some ne True inv(3) by (simp add: mutex_inv_def)
      next
        case nz: False
        have pk: "(\<lambda>v. t_current_priority (thr (inherit c own ?k) v)) =
            (\<lambda>v. t_current_priority (thr (inherit c own k) v))"
          using change_priority_threads[OF u(1)] change_priority_threads[OF inv(1)]
          by (auto simp: fun_eq_iff inherit_def)
        have ow: "mtx_owner (k_mutexes ?k m) = Some own" "mtx_value (k_mutexes ?k m) = 0"
          "o_type (k_objects ?k (OThread own)) = RT_Object_Class_Thread"
          using Some o by simp_all
        from mutex_block[OF u ow(1) ne ow(2,3) tm nz] obtain k' where
          k': "mutex_take_again m c time ?k = Some (k', Blocked)" "kernel_inv k'" "stacks_ok k'" "same_ipc ?k k'"
          "k_lists k' (MutexWait m) = waiters_after (mtx_flag (k_mutexes ?k m))
            (\<lambda>v. t_current_priority (thr (inherit c own ?k) v)) c (k_lists ?k (MutexWait m))"
          "thr k' c = (thr ?k c)\<lparr>t_stat := RT_THREAD_SUSPEND\<rparr>"
          "t_current_priority (thr k' own) = min (t_current_priority (thr ?k own)) (t_current_priority (thr ?k c))"
          by blast
        have "k_mutexes k' m = k_mutexes k m" "k_objects k' = k_objects k" using k'(4) by (simp_all add: same_ipc_def)
        moreover from this have "mutex_inv k' m" using Some o by (simp add: mutex_inv_def)
        ultimately show ?thesis
          using e Some ne nz k'(1,2,3,6,7) k'(5)[unfolded pk] by (intro exI[of _ k'] exI[of _ Blocked]) simp
      qed
    qed
  qed
qed


lemma sample_mutex_inv: "mutex_inv sample 0" "mutex_inv sample 1"
  by (simp_all add: mutex_inv_def sample_def sample_thread_registered)


lemma release_hand_over:
  assumes inv: "kernel_inv k" "stacks_ok k" and cur: "k_current k = Some c" "t_stat (thr k c) = RT_THREAD_RUNNING"
    and l: "k_lists k (MutexWait m) = u # us" and v: "mtx_value (k_mutexes k m) = 0" "mtx_hold (k_mutexes k m) = 0"
  shows "\<exists>k1 k'. rt_ipc_list_resume (MutexWait m) (upd_mutex m (\<lambda>x. x\<lparr>mtx_owner := Some u,
        mtx_original_priority := t_current_priority (thr k u), mtx_hold := mtx_hold x + 1\<rparr>) k) = Some k1 \<and>
    rt_schedule k1 = Some k' \<and> kernel_inv k' \<and> stacks_ok k' \<and> mutex_inv k' m \<and>
    mtx_owner (k_mutexes k' m) = Some u \<and> mtx_hold (k_mutexes k' m) = 1 \<and>
    mtx_original_priority (k_mutexes k' m) = t_current_priority (thr k u) \<and>
    k_lists k' (MutexWait m) = us \<and> woken (t_stat (thr k' u)) \<and>
    (\<forall>t. t_current_priority (thr k' t) = t_current_priority (thr k t))"
proof -
  let ?k = "upd_mutex m (\<lambda>x. x\<lparr>mtx_owner := Some u,
        mtx_original_priority := t_current_priority (thr k u), mtx_hold := mtx_hold x + 1\<rparr>) k"
  have hs: "stat_of_list (MutexWait m) = RT_THREAD_SUSPEND" by simp
  have su: "t_stat (thr k u) = RT_THREAD_SUSPEND"
    using thread_invD(1)[OF kernel_invD(6)[OF inv(1)], of u "MutexWait m"] l by simp
  have pu: "t_current_priority (thr k u) < 32" "o_type (k_objects k (OThread u)) = RT_Object_Class_Thread"
    using thread_invD(4)[OF kernel_invD(6)[OF inv(1)], of u] kernel_invD(5)[OF inv(1), of u] su
    by (simp_all add: live_stat_def prio_ok_def thread_timer_inv_def)
  have i: "kernel_inv ?k" "stacks_ok ?k" "k_lists ?k (MutexWait m) = u # us" using inv l by simp_all
  from resume_first_effect[OF i hs] obtain k1 where
    k1: "rt_ipc_list_resume (MutexWait m) ?k = Some k1" "kernel_inv k1" "stacks_ok k1" "same_ipc ?k k1"
      "k_lists k1 (MutexWait m) = us" "\<exists>s. woken s \<and> thr k1 u = (thr ?k u)\<lparr>t_stat := s\<rparr>"
      "\<forall>v. v \<noteq> u \<longrightarrow> thr k1 v = thr ?k v" "k_current k1 = k_current ?k" by blast
  have c1: "k_current k1 = Some c" using k1(8) cur by simp
  from schedule_effect[OF k1(2,3) c1] obtain k2 where
    k2: "rt_schedule k1 = Some k2" "kernel_inv k2" "stacks_ok k2" "same_ipc k1 k2" "wait_lists_same k1 k2"
      "\<forall>t. sched_rel (thr k1 t) (thr k2 t)" by blast
  have mx: "k_mutexes k2 m = (k_mutexes k m)\<lparr>mtx_owner := Some u,
      mtx_original_priority := t_current_priority (thr k u), mtx_hold := 1\<rparr>" "k_objects k2 = k_objects k"
    using k1(4) k2(4) v by (simp_all add: same_ipc_def)
  have "t_current_priority (thr k2 t) = t_current_priority (thr k t)" for t
    using sched_relD(1)[OF k2(6)[rule_format, of t]] k1(6,7) by (cases "t = u") auto
  moreover have "woken (t_stat (thr k2 u))"
    using k1(6) k2(6)[rule_format, of u] by (auto simp: sched_rel_def woken_def)
  ultimately show ?thesis
    using k1(1) k2(1,2,3) k1(5) k2(5) mx pu v by (auto simp: wait_lists_same_def mutex_inv_def)
qed

lemma mutex_release_effect:
  assumes inv: "kernel_inv k" "stacks_ok k" "mutex_inv k m" and run: "running_thread k c"
    and ty: "o_type (k_objects k (OMutex m)) = RT_Object_Class_Mutex"
  shows "\<exists>k' r. rt_mutex_release m k = Some (k', r) \<and> kernel_inv k' \<and> stacks_ok k' \<and> mutex_inv k' m \<and>
    (if mtx_owner (k_mutexes k m) \<noteq> Some c then r = - RT_ERROR \<and> k_mutexes k' = k_mutexes k
     else r = RT_EOK \<and>
       (if mtx_hold (k_mutexes k m) \<noteq> 1 then
          k_mutexes k' m = (k_mutexes k m)\<lparr>mtx_hold := mtx_hold (k_mutexes k m) - 1\<rparr> \<and> k_threads k' = k_threads k
        else t_current_priority (thr k' c) = mtx_original_priority (k_mutexes k m) \<and>
          (case k_lists k (MutexWait m) of
             [] \<Rightarrow> mtx_owner (k_mutexes k' m) = None
           | u # us \<Rightarrow> mtx_owner (k_mutexes k' m) = Some u \<and> mtx_hold (k_mutexes k' m) = 1 \<and>
               k_lists k' (MutexWait m) = us \<and> woken (t_stat (thr k' u)))))"
proof -
  have pre: "rt_debug_in_thread_context k = Some ()" "rt_thread_self k = Some c"
    "rt_object_get_type k (OMutex m) = RT_Object_Class_Mutex"
    using run ty by (simp_all add: rt_debug_in_thread_context_def rt_debug_not_in_interrupt_def
        rt_interrupt_get_nest_def rt_thread_self_def running_thread_def rt_object_get_type_def)
  show ?thesis
  proof (cases "mtx_owner (k_mutexes k m) = Some c")
    case False
    then show ?thesis
      using running_upd_error(1,2)[OF inv(1,2) run, of "- RT_ERROR"] inv(3)
      by (simp add: rt_mutex_release_def pre mutex_inv_def split: option.splits)
  next
    case own: True
    let ?k1 = "upd_mutex m (\<lambda>x. x\<lparr>mtx_hold := mtx_hold x - 1\<rparr>) k"
    let ?o = "mtx_original_priority (k_mutexes k m)"
    have mi: "mtx_value (k_mutexes k m) = 0" "?o < 32" "o_type (k_objects k (OThread c)) = RT_Object_Class_Thread"
      using inv(3) own by (simp_all add: mutex_inv_def)
    show ?thesis
    proof (cases "mtx_hold (k_mutexes k m) = 1")
      case False
      then have "mtx_hold (k_mutexes k m) - 1 \<noteq> 0" by simp
      then show ?thesis
        using own False inv mi by (simp add: rt_mutex_release_def pre Let_def mutex_inv_def)
    next
      case one: True
      let ?k2 = "if ?o \<noteq> t_current_priority (thr k c) then change_priority c ?o ?k1 else ?k1"
      have i1: "kernel_inv ?k1" "stacks_ok ?k1" using inv by simp_all
      have i2: "kernel_inv ?k2" "stacks_ok ?k2"
        using kernel_inv_change_priority[OF i1(1) mi(2)] stacks_ok_change_priority[OF i1] i1 by auto
      note th = change_priority_threads[OF i1(1), of c ?o]
      have p2: "t_current_priority (thr ?k2 c) = ?o" "t_stat (thr ?k2 c) = RT_THREAD_RUNNING"
        using th run by (auto simp: running_thread_def)
      have l2: "k_lists ?k2 (MutexWait m) = k_lists k (MutexWait m)"
        using change_priority_waiting[OF i1(1), of "MutexWait m" c ?o] by simp
      have c2: "k_current ?k2 = Some c" using run by (simp add: running_thread_def)
      have m2: "k_mutexes ?k2 m = (k_mutexes k m)\<lparr>mtx_hold := 0\<rparr>" using one by simp
      have e: "rt_mutex_release m k =
          (case k_lists ?k2 (MutexWait m) of
            u # _ \<Rightarrow> do {
              k \<leftarrow> rt_ipc_list_resume (MutexWait m) (upd_mutex m (\<lambda>x. x\<lparr>mtx_owner := Some u,
                 mtx_original_priority := t_current_priority (thr ?k2 u), mtx_hold := mtx_hold x + 1\<rparr>) ?k2);
              k \<leftarrow> rt_schedule k;
              Some (k, RT_EOK) }
          | [] \<Rightarrow> Some (upd_mutex m (\<lambda>x. x\<lparr>mtx_value := mtx_value x + 1, mtx_owner := None,
                     mtx_original_priority := 0xFF\<rparr>) ?k2, RT_EOK))"
        unfolding rt_mutex_release_def Let_def using own one mi unat_prio[OF mi(2)] ty
        by (simp add: pre rt_thread_control_def rt_object_get_type_def)
      show ?thesis
      proof (cases "k_lists k (MutexWait m)")
        case Nil
        let ?k3 = "upd_mutex m (\<lambda>x. x\<lparr>mtx_value := mtx_value x + 1, mtx_owner := None,
            mtx_original_priority := 0xFF\<rparr>) ?k2"
        have r3: "rt_mutex_release m k = Some (?k3, RT_EOK)" unfolding e l2 Nil by simp
        have m3: "mutex_inv ?k3 m" using m2 mi l2 Nil by (simp add: mutex_inv_def)
        have "kernel_inv ?k3" "stacks_ok ?k3" "t_current_priority (thr ?k3 c) = ?o" "mtx_owner (k_mutexes ?k3 m) = None"
          using i2 p2 by (simp_all only: upd_mutex_sel) simp
        then show ?thesis using r3 m3 own one Nil by (intro exI[of _ ?k3] exI[of _ RT_EOK]) simp
      next
        case (Cons u us)
        have lc: "k_lists ?k2 (MutexWait m) = u # us" using l2 Cons by simp
        have hv: "mtx_value (k_mutexes ?k2 m) = 0" "mtx_hold (k_mutexes ?k2 m) = 0"
          using m2 mi by simp_all
        from release_hand_over[OF i2 c2 p2(2) lc hv] obtain k3 k4 where
          k4: "rt_ipc_list_resume (MutexWait m) (upd_mutex m (\<lambda>x. x\<lparr>mtx_owner := Some u,
              mtx_original_priority := t_current_priority (thr ?k2 u), mtx_hold := mtx_hold x + 1\<rparr>) ?k2) = Some k3"
            "rt_schedule k3 = Some k4" "kernel_inv k4" "stacks_ok k4" "mutex_inv k4 m"
            "mtx_owner (k_mutexes k4 m) = Some u" "mtx_hold (k_mutexes k4 m) = 1"
            "k_lists k4 (MutexWait m) = us" "woken (t_stat (thr k4 u))"
            "\<forall>t. t_current_priority (thr k4 t) = t_current_priority (thr ?k2 t)" by blast
        have r4: "rt_mutex_release m k = Some (k4, RT_EOK)"
          unfolding e lc list.case k4(1) using k4(2) by simp
        have pc: "t_current_priority (thr k4 c) = ?o" using k4(10) p2(1) by simp
        show ?thesis using r4 pc k4(3-9) own one Cons by (intro exI[of _ k4] exI[of _ RT_EOK]) simp
      qed
    qed
  qed
qed

text \<open>C12. \<^verbatim>\<open>rt_mutex_release\<close> by a thread that does not own the mutex is refused and changes no
  mutex. By the owner it undoes one take; the last one restores the owner's original priority and
  hands the mutex to the first waiter, which becomes ready as its owner, or frees it. The kernel
  and mutex invariants are kept.\<close>

theorem mutex_release_spec:
  assumes inv: "kernel_inv k" "stacks_ok k" "mutex_inv k m" and run: "running_thread k c"
    and ty: "o_type (k_objects k (OMutex m)) = RT_Object_Class_Mutex"
  shows "\<exists>k' r. rt_mutex_release m k = Some (k', r) \<and> kernel_inv k' \<and> stacks_ok k' \<and> mutex_inv k' m \<and>
    (if mtx_owner (k_mutexes k m) \<noteq> Some c then r = - RT_ERROR \<and> k_mutexes k' = k_mutexes k
     else r = RT_EOK \<and>
       (if mtx_hold (k_mutexes k m) \<noteq> 1 then
          k_mutexes k' m = (k_mutexes k m)\<lparr>mtx_hold := mtx_hold (k_mutexes k m) - 1\<rparr> \<and> k_threads k' = k_threads k
        else t_current_priority (thr k' c) = mtx_original_priority (k_mutexes k m) \<and>
          (case k_lists k (MutexWait m) of
             [] \<Rightarrow> mtx_owner (k_mutexes k' m) = None
           | u # us \<Rightarrow> mtx_owner (k_mutexes k' m) = Some u \<and> mtx_hold (k_mutexes k' m) = 1 \<and>
               k_lists k' (MutexWait m) = us \<and> woken (t_stat (thr k' u)))))"
  using assms by (rule mutex_release_effect)

theorem mutex_release_spec_witness:
  "\<exists>k' r. rt_mutex_release 0 sample = Some (k', r) \<and> r = RT_EOK \<and> mtx_owner (k_mutexes k' 0) = Some 4 \<and>
     woken (t_stat (thr k' 4))"
proof -
  have m: "mtx_owner (k_mutexes sample 0) = Some 1" "mtx_hold (k_mutexes sample 0) = 1"
    "k_lists sample (MutexWait 0) = [4]"
    by (simp_all add: sample_def sample_lists_def)
  show ?thesis
    using mutex_release_spec[OF sample_inv sample_stacks_ok sample_mutex_inv(1) sample_running]
      sample_registered_types(2) m by auto
qed

text \<open>The nesting counter has 8 bits: the 256th nested take by the owner brings it back to 0, and
  the release that follows leaves the mutex owned with a count of 255.\<close>

theorem mutex_hold_wraps:
  assumes inv: "kernel_inv k" "stacks_ok k" "mutex_inv k m" and run: "running_thread k c"
    and ty: "o_type (k_objects k (OMutex m)) = RT_Object_Class_Mutex"
    and own: "mtx_owner (k_mutexes k m) = Some c" "mtx_hold (k_mutexes k m) = 255"
  shows "\<exists>k1 k2. rt_mutex_take m 0 k = Some (k1, Done RT_EOK) \<and> mtx_hold (k_mutexes k1 m) = 0 \<and>
    rt_mutex_release m k1 = Some (k2, RT_EOK) \<and>
    mtx_owner (k_mutexes k2 m) = Some c \<and> mtx_hold (k_mutexes k2 m) = 255"
  using run ty own
  by (simp add: rt_mutex_take_def rt_mutex_release_def rt_debug_in_thread_context_def
      rt_debug_not_in_interrupt_def rt_interrupt_get_nest_def rt_thread_self_def running_thread_def
      rt_object_get_type_def Let_def)

theorem mutex_hold_wraps_witness:
  "\<exists>k1 k2. rt_mutex_take 0 0 (upd_mutex 0 (\<lambda>x. x\<lparr>mtx_hold := 255\<rparr>) sample) = Some (k1, Done RT_EOK) \<and>
     rt_mutex_release 0 k1 = Some (k2, RT_EOK) \<and> mtx_hold (k_mutexes k2 0) = 255"
proof -
  let ?k = "upd_mutex 0 (\<lambda>x. x\<lparr>mtx_hold := 255\<rparr>) sample"
  have "kernel_inv ?k" "stacks_ok ?k" "mutex_inv ?k 0" "running_thread ?k 1"
    "o_type (k_objects ?k (OMutex 0)) = RT_Object_Class_Mutex" "mtx_owner (k_mutexes ?k 0) = Some 1"
    "mtx_hold (k_mutexes ?k 0) = 255"
    using sample_inv sample_stacks_ok sample_mutex_inv(1) sample_running sample_registered_types(2)
    by (simp_all add: mutex_inv_def running_thread_def sample_def)
  from mutex_hold_wraps[OF this] show ?thesis by blast
qed

text \<open>Priority inheritance outlives the wait: when the only, more urgent waiter of a mutex gives
  up on its timeout, nobody waits any more but the owner keeps the inherited priority.\<close>

theorem mutex_timeout_keeps_inheritance:
  assumes inv: "kernel_inv k" "stacks_ok k" "mutex_inv k m" and run: "running_thread k c"
    and ty: "o_type (k_objects k (OMutex m)) = RT_Object_Class_Mutex"
    and own: "mtx_owner (k_mutexes k m) = Some own" "own \<noteq> c" "k_lists k (MutexWait m) = []"
      "mtx_flag (k_mutexes k m) = RT_IPC_FLAG_FIFO"
    and pr: "t_current_priority (thr k c) < t_current_priority (thr k own)"
    and tm: "0 < time" "time < 2 ^ 31 - 1"
  shows "\<exists>k1 k2. rt_mutex_take m time k = Some (k1, Blocked) \<and>
    rt_thread_timeout c (timer_remove (ThreadTimer c) k1) = Some k2 \<and>
    k_lists k2 (MutexWait m) = [] \<and>
    t_current_priority (thr k2 own) = t_current_priority (thr k c)"
proof -
  let ?k = "upd_thr c (t_error_update (\<lambda>_. RT_EOK)) k"
  note u = running_upd_error[OF inv(1,2) run]
  have ow: "mtx_owner (k_mutexes ?k m) = Some own" "mtx_value (k_mutexes ?k m) = 0"
    "o_type (k_objects ?k (OThread own)) = RT_Object_Class_Thread"
    using own inv(3) by (simp_all add: mutex_inv_def)
  have nz: "time \<noteq> 0" using tm by simp
  from mutex_block[OF u ow(1) own(2) ow(2,3) tm(2) nz] obtain k1 where
    k1: "mutex_take_again m c time ?k = Some (k1, Blocked)" "kernel_inv k1" "stacks_ok k1" "k_current k1 \<noteq> None"
      "k_lists k1 (MutexWait m) = waiters_after (mtx_flag (k_mutexes ?k m))
        (\<lambda>v. t_current_priority (thr (inherit c own ?k) v)) c (k_lists ?k (MutexWait m))"
      "thr k1 c = (thr ?k c)\<lparr>t_stat := RT_THREAD_SUSPEND\<rparr>"
      "t_current_priority (thr k1 own) = min (t_current_priority (thr ?k own)) (t_current_priority (thr ?k c))"
    by blast
  have l1: "k_lists k1 (MutexWait m) = [c]" using k1(5) own(3,4) by (simp add: waiters_after_def)
  have p1: "t_current_priority (thr k1 own) = t_current_priority (thr k c)" using k1(7) own(2) pr by simp
  have take: "rt_mutex_take m time k = Some (k1, Blocked)"
    using run ty k1(1) own by (simp add: rt_mutex_take_def rt_debug_in_thread_context_def
        rt_debug_not_in_interrupt_def rt_interrupt_get_nest_def rt_thread_self_def running_thread_def
        rt_object_get_type_def)
  let ?r = "timer_remove (ThreadTimer c) k1"
  have r: "kernel_inv ?r" "stacks_ok ?r" "k_current ?r \<noteq> None" "ThreadTimer c \<notin> set (k_timer_list ?r)"
    "t_stat (thr ?r c) = RT_THREAD_SUSPEND"
    using kernel_inv_timer_remove[OF k1(2)] k1(3,4,6) kernel_invD(8)[OF k1(2)] by (simp_all add: stacks_ok_def)
  from timeout_effect[OF r] obtain k2 where k2: "rt_thread_timeout c ?r = Some k2"
    "\<forall>h. stat_of_list h = RT_THREAD_SUSPEND \<longrightarrow> k_lists k2 h = remove1 c (k_lists ?r h)"
    "\<forall>u. t_current_priority (thr k2 u) = t_current_priority (thr ?r u)" by blast
  show ?thesis
    by (rule exI[of _ k1], rule exI[of _ k2]) (use take k2 l1 p1 in simp)
qed

theorem mutex_timeout_keeps_inheritance_witness:
  "\<exists>k1 k2. rt_mutex_take 1 50 (upd_mutex 1 (\<lambda>x. x\<lparr>mtx_flag := 0\<rparr>) sample) = Some (k1, Blocked) \<and>
     rt_thread_timeout 1 (timer_remove (ThreadTimer 1) k1) = Some k2 \<and>
     t_current_priority (thr k2 7) = 10"
proof -
  let ?k = "upd_mutex 1 (\<lambda>x. x\<lparr>mtx_flag := 0\<rparr>) sample"
  have a: "kernel_inv ?k" "stacks_ok ?k" "mutex_inv ?k 1" "running_thread ?k 1"
    "o_type (k_objects ?k (OMutex 1)) = RT_Object_Class_Mutex"
    "mtx_owner (k_mutexes ?k 1) = Some 7" "(7::nat) \<noteq> 1" "k_lists ?k (MutexWait 1) = []"
    "mtx_flag (k_mutexes ?k 1) = RT_IPC_FLAG_FIFO"
    "t_current_priority (thr ?k 1) < t_current_priority (thr ?k 7)"
    using sample_inv sample_stacks_ok sample_mutex_inv(2) sample_running sample_registered_types(3)
    by (simp_all add: mutex_inv_def running_thread_def sample_def sample_lists_def sample_threads_def
        RT_IPC_FLAG_FIFO_def)
  have p: "t_current_priority (thr ?k 1) = 10" by (simp add: sample_threads_def)
  from mutex_timeout_keeps_inheritance[OF a, of 50] show ?thesis unfolding p by auto
qed

end
