(* ===== verification/Event.thy ===== *)
theory Event
  imports Mutex
begin

text \<open>
  The event flags of \<^verbatim>\<open>src/ipc.c\<close>. The scan of \<^verbatim>\<open>rt_event_send\<close> walks the waiting list and
  reads the next link before it wakes a thread, so it visits exactly the threads that waited when
  it started; what it decides is a pure function of the flags and the waiters' requests.
\<close>

section \<open>Operations\<close>

definition upd_event :: "nat \<Rightarrow> (rt_event \<Rightarrow> rt_event) \<Rightarrow> kernel \<Rightarrow> kernel" where
  "upd_event e f k = k\<lparr>k_events := (k_events k)(e := f (k_events k e))\<rparr>"

definition rt_event_init :: "nat \<Rightarrow> string \<Rightarrow> nat \<Rightarrow> kernel \<Rightarrow> kernel option" where
  "rt_event_init e name flag k = do {
     k \<leftarrow> rt_object_init (OEvent e) RT_Object_Class_Event name k;
     Some (upd_event e (\<lambda>_. \<lparr>ev_flag = flag, ev_set = 0\<rparr>) (rt_ipc_object_init (EventWait e) k)) }"

definition rt_event_detach :: "nat \<Rightarrow> kernel \<Rightarrow> kernel option" where
  "rt_event_detach e k = do {
     rt_assert (rt_object_get_type k (OEvent e) = RT_Object_Class_Event);
     rt_assert (rt_object_is_systemobject k (OEvent e));
     k \<leftarrow> rt_ipc_list_resume_all (EventWait e) k;
     Some (rt_object_detach (OEvent e) k) }"

definition rt_event_create :: "nat option \<Rightarrow> string \<Rightarrow> nat \<Rightarrow> kernel \<Rightarrow> (kernel \<times> nat option) option" where
  "rt_event_create mem name flag k = do {
     rt_debug_not_in_interrupt k;
     (k, ob) \<leftarrow> rt_object_allocate (map_option OEvent mem) RT_Object_Class_Event name k;
     (case mem of
        None \<Rightarrow> Some (k, None)
      | Some e \<Rightarrow> Some (upd_event e (\<lambda>_. \<lparr>ev_flag = flag, ev_set = 0\<rparr>)
                        (rt_ipc_object_init (EventWait e) k), Some e)) }"

definition rt_event_delete :: "nat \<Rightarrow> kernel \<Rightarrow> kernel option" where
  "rt_event_delete e k = do {
     rt_assert (rt_object_get_type k (OEvent e) = RT_Object_Class_Event);
     rt_assert (\<not> rt_object_is_systemobject k (OEvent e));
     rt_debug_not_in_interrupt k;
     k \<leftarrow> rt_ipc_list_resume_all (EventWait e) k;
     rt_object_delete (OEvent e) k }"

text \<open>The check of one waiter's request against the flags: the flags it receives, if satisfied. An
  AND request receives all it asked for, an OR request the ones that are set.\<close>

definition event_check :: "u32 \<Rightarrow> u8 \<Rightarrow> u32 \<Rightarrow> u32 option" where
  "event_check req info ev =
     (if info AND RT_EVENT_FLAG_AND \<noteq> 0 then (if req AND ev = req then Some req else None)
      else if info AND RT_EVENT_FLAG_OR \<noteq> 0 then (if req AND ev \<noteq> 0 then Some (req AND ev) else None)
      else None)"

fun event_scan :: "nat \<Rightarrow> nat list \<Rightarrow> bool \<Rightarrow> kernel \<Rightarrow> (kernel \<times> bool) option" where
  "event_scan e [] need k = Some (k, need)"
| "event_scan e (t # ts) need k =
     (case event_check (t_event_set (thr k t)) (t_event_info (thr k t)) (ev_set (k_events k e)) of
        None \<Rightarrow> event_scan e ts need k
      | Some got \<Rightarrow>
          let k = upd_thr t (t_event_set_update (\<lambda>_. got)) k;
              k = (if t_event_info (thr k t) AND RT_EVENT_FLAG_CLEAR \<noteq> 0
                   then upd_event e (\<lambda>x. x\<lparr>ev_set := ev_set x AND NOT (t_event_set (thr k t))\<rparr>) k else k) in
          Option.bind (rt_thread_resume t k) (\<lambda>r. event_scan e ts True (fst r)))"

definition rt_event_send :: "nat \<Rightarrow> u32 \<Rightarrow> kernel \<Rightarrow> (kernel \<times> int) option" where
  "rt_event_send e flags k = do {
     rt_assert (rt_object_get_type k (OEvent e) = RT_Object_Class_Event);
     if flags = 0 then Some (k, - RT_ERROR)
     else do {
       let k = upd_event e (\<lambda>x. x\<lparr>ev_set := ev_set x OR flags\<rparr>) k;
       (k, need_schedule) \<leftarrow> event_scan e (k_lists k (EventWait e)) False k;
       k \<leftarrow> (if need_schedule then rt_schedule k else Some k);
       Some (k, RT_EOK) } }"

text \<open>\<open>recved\<close> is what the caller's pointer receives.\<close>

definition rt_event_recv ::
  "nat \<Rightarrow> u32 \<Rightarrow> u8 \<Rightarrow> int \<Rightarrow> u32 \<Rightarrow> kernel \<Rightarrow> (kernel \<times> ipc_result \<times> u32) option" where
  "rt_event_recv e flags opt timeout recved k = do {
     rt_debug_in_thread_context k;
     rt_assert (rt_object_get_type k (OEvent e) = RT_Object_Class_Event);
     if flags = 0 then Some (k, Done (- RT_ERROR), recved)
     else do {
       t \<leftarrow> rt_thread_self k;
       let k = upd_thr t (t_error_update (\<lambda>_. RT_EOK)) k;
       let ev = ev_set (k_events k e);
       ok \<leftarrow> (if opt AND RT_EVENT_FLAG_AND \<noteq> 0 then Some (ev AND flags = flags)
             else if opt AND RT_EVENT_FLAG_OR \<noteq> 0 then Some (ev AND flags \<noteq> 0)
             else None);
       if ok then
         Some (if opt AND RT_EVENT_FLAG_CLEAR \<noteq> 0
               then upd_event e (\<lambda>x. x\<lparr>ev_set := ev_set x AND NOT flags\<rparr>) k else k,
               Done RT_EOK, ev AND flags)
       else if timeout = 0 then
         Some (upd_thr t (t_error_update (\<lambda>_. - RT_ETIMEOUT)) k, Done (- RT_ETIMEOUT), recved)
       else do {
         let k = upd_thr t (\<lambda>th. th\<lparr>t_event_set := flags, t_event_info := opt\<rparr>) k;
         k \<leftarrow> ipc_block (EventWait e) t (ev_flag (k_events k e)) timeout k;
         Some (k, Blocked, recved) } } }"

definition rt_event_recv_resume :: "nat \<Rightarrow> u32 \<Rightarrow> kernel \<Rightarrow> int \<times> u32" where
  "rt_event_recv_resume t recved k =
     (if t_error (thr k t) \<noteq> RT_EOK then (t_error (thr k t), recved)
      else (t_error (thr k t), t_event_set (thr k t)))"

definition rt_event_control :: "nat \<Rightarrow> int \<Rightarrow> kernel \<Rightarrow> (kernel \<times> int) option" where
  "rt_event_control e cmd k = do {
     rt_assert (rt_object_get_type k (OEvent e) = RT_Object_Class_Event);
     if cmd = RT_IPC_CMD_RESET then do {
       k \<leftarrow> rt_ipc_list_resume_all (EventWait e) k;
       k \<leftarrow> rt_schedule (upd_event e (\<lambda>x. x\<lparr>ev_set := 0\<rparr>) k);
       Some (k, RT_EOK) }
     else Some (k, - RT_ERROR) }"

section \<open>The abstract scan\<close>

text \<open>A request is a thread with the flags and options it waits for. \<open>wake ev rs\<close> gives the flags
  left, the threads woken with what they receive, and the threads that go on waiting.\<close>

fun wake :: "u32 \<Rightarrow> (nat \<times> u32 \<times> u8) list \<Rightarrow> u32 \<times> (nat \<times> u32) list \<times> nat list" where
  "wake ev [] = (ev, [], [])"
| "wake ev ((t, req, info) # rs) =
     (case event_check req info ev of
        None \<Rightarrow> let (ev', w, l) = wake ev rs in (ev', w, t # l)
      | Some got \<Rightarrow>
          let (ev', w, l) = wake (if info AND RT_EVENT_FLAG_CLEAR \<noteq> 0 then ev AND NOT got else ev) rs
          in (ev', (t, got) # w, l))"

definition requests :: "kernel \<Rightarrow> nat list \<Rightarrow> (nat \<times> u32 \<times> u8) list" where
  "requests k ts = map (\<lambda>t. (t, t_event_set (thr k t), t_event_info (thr k t))) ts"

lemma upd_event_sel [simp]:
  "k_events (upd_event e f k) = (k_events k)(e := f (k_events k e))" "k_lists (upd_event e f k) = k_lists k"
  "k_threads (upd_event e f k) = k_threads k" "k_current (upd_event e f k) = k_current k"
  "k_objects (upd_event e f k) = k_objects k" "kernel_inv (upd_event e f k) = kernel_inv k"
  "stacks_ok (upd_event e f k) = stacks_ok k" "k_timer_list (upd_event e f k) = k_timer_list k"
  by (simp_all add: upd_event_def stacks_ok_def)

lemma requests_cong:
  "(\<And>t. t \<in> set ts \<Longrightarrow> thr k' t = thr k t) \<Longrightarrow> requests k' ts = requests k ts"
  by (simp add: requests_def)

lemma wake_split:
  "wake ev rs = (ev', w, l) \<Longrightarrow> set (map fst rs) = set (map fst w) \<union> set l"
proof (induction ev rs arbitrary: ev' w l rule: wake.induct)
  case (2 ev t req info rs)
  then show ?case
    by (cases "event_check req info ev") (auto split: prod.splits)
qed simp

lemma resume_middle_effect:
  assumes inv: "kernel_inv k" "stacks_ok k" and l: "k_lists k h = xs @ t # ys"
    and h: "stat_of_list h = RT_THREAD_SUSPEND"
  shows "\<exists>k'. rt_thread_resume t k = Some (k', RT_EOK) \<and> kernel_inv k' \<and> stacks_ok k' \<and> same_ipc k k' \<and>
    k_lists k' h = xs @ ys \<and> (\<exists>s. woken s \<and> thr k' t = (thr k t)\<lparr>t_stat := s\<rparr>) \<and>
    (\<forall>u. u \<noteq> t \<longrightarrow> thr k' u = thr k u) \<and> k_current k' = k_current k"
proof -
  have st: "t_stat (thr k t) = RT_THREAD_SUSPEND"
    using thread_invD(1)[OF kernel_invD(6)[OF inv(1)], of t h] l h by simp
  obtain k' where k': "rt_thread_resume t k = Some (k', RT_EOK)" using resume_enabled[OF inv(1) st] by blast
  note e = resume_effect[OF inv(1) k']
  have d: "distinct (xs @ t # ys)"
    using kernel_invD(7)[OF inv(1)] l by (metis lists_ok_def sched_inv_exD(1) tlist_inv_def)
  have "k_lists k' h = remove1 t (k_lists k h)"
    using e not_ready_head[OF h] not_ready_head[OF h, symmetric] by simp
  then have "k_lists k' h = xs @ ys" using l d by (simp add: remove1_append)
  moreover have "\<exists>s. woken s \<and> thr k' t = (thr k t)\<lparr>t_stat := s\<rparr>" using e by (auto simp: woken_def)
  ultimately show ?thesis
    using k' kernel_inv_resume[OF inv(1) k'] resume_stacks_ok[OF inv k'] e
    by (intro exI[of _ k']) (simp add: same_ipc_def)
qed

lemma event_scan_effect:
  assumes "kernel_inv k" "stacks_ok k" "k_lists k (EventWait e) = xs @ ts"
    and "wake (ev_set (k_events k e)) (requests k ts) = (ev', w, l)"
  shows "\<exists>k' need'. event_scan e ts need k = Some (k', need') \<and> kernel_inv k' \<and> stacks_ok k' \<and>
    k_lists k' (EventWait e) = xs @ l \<and> ev_set (k_events k' e) = ev' \<and> need' = (need \<or> w \<noteq> []) \<and>
    k_current k' = k_current k \<and>
    (\<forall>t g. (t, g) \<in> set w \<longrightarrow> woken (t_stat (thr k' t)) \<and> t_event_set (thr k' t) = g \<and>
       t_error (thr k' t) = t_error (thr k t)) \<and>
    (\<forall>t. t \<notin> fst ` set w \<longrightarrow> thr k' t = thr k t)"
  using assms
proof (induction ts arbitrary: k xs w l need)
  case Nil
  then show ?case by (simp add: requests_def)
next
  case (Cons t ts)
  let ?ev = "ev_set (k_events k e)" and ?th = "thr k t"
  have d: "distinct (xs @ t # ts)"
    using kernel_invD(7)[OF Cons.prems(1)] Cons.prems(3) by (metis lists_ok_def sched_inv_exD(1) tlist_inv_def)
  show ?case
  proof (cases "event_check (t_event_set ?th) (t_event_info ?th) ?ev")
    case None
    obtain l' where l: "l = t # l'" "wake ?ev (requests k ts) = (ev', w, l')"
      using Cons.prems(4) None by (auto simp: requests_def split: prod.splits)
    have "k_lists k (EventWait e) = (xs @ [t]) @ ts" using Cons.prems(3) by simp
    from Cons.IH[OF Cons.prems(1,2) this l(2), of need] show ?thesis
      using None l(1) by simp
  next
    case (Some got)
    let ?k1 = "upd_thr t (t_event_set_update (\<lambda>_. got)) k"
    let ?k2 = "if t_event_info ?th AND RT_EVENT_FLAG_CLEAR \<noteq> 0
      then upd_event e (\<lambda>x. x\<lparr>ev_set := ev_set x AND NOT got\<rparr>) ?k1 else ?k1"
    let ?ev2 = "if t_event_info ?th AND RT_EVENT_FLAG_CLEAR \<noteq> 0 then ?ev AND NOT got else ?ev"
    obtain w' where w: "w = (t, got) # w'" "wake ?ev2 (requests k ts) = (ev', w', l)"
      using Cons.prems(4) Some by (auto simp: requests_def split: prod.splits)
    have i1: "kernel_inv ?k1" by (rule kernel_inv_upd_thr[OF Cons.prems(1)]) simp_all
    have s1: "stacks_ok ?k1"
      using Cons.prems(2) by (auto simp: stacks_ok_def rt_scheduler_stack_check_def)
    have k2: "kernel_inv ?k2" "stacks_ok ?k2" "k_lists ?k2 (EventWait e) = xs @ t # ts"
      using i1 s1 Cons.prems(3) by simp_all
    from resume_middle_effect[OF k2] obtain k3 where
      k3: "rt_thread_resume t ?k2 = Some (k3, RT_EOK)" "kernel_inv k3" "stacks_ok k3" "same_ipc ?k2 k3"
        "k_lists k3 (EventWait e) = xs @ ts" "\<exists>s. woken s \<and> thr k3 t = (thr ?k2 t)\<lparr>t_stat := s\<rparr>"
        "\<forall>u. u \<noteq> t \<longrightarrow> thr k3 u = thr ?k2 u" "k_current k3 = k_current ?k2" by auto
    have ev3: "ev_set (k_events k3 e) = ?ev2" using k3(4) by (simp add: same_ipc_def)
    have rq: "requests k3 ts = requests k ts"
      by (rule requests_cong) (use k3(7) d in auto)
    from Cons.IH[OF k3(2,3,5) w(2)[folded rq ev3], of True] obtain k' need' where
      k': "event_scan e ts True k3 = Some (k', need')" "kernel_inv k'" "stacks_ok k'"
        "k_lists k' (EventWait e) = xs @ l" "ev_set (k_events k' e) = ev'" "need'" "k_current k' = k_current k3"
        "\<forall>t g. (t, g) \<in> set w' \<longrightarrow> woken (t_stat (thr k' t)) \<and> t_event_set (thr k' t) = g \<and>
           t_error (thr k' t) = t_error (thr k3 t)"
        "\<forall>t. t \<notin> fst ` set w' \<longrightarrow> thr k' t = thr k3 t" by auto
    have step: "event_scan e (t # ts) need k = event_scan e ts True k3"
      using Some k3(1)
      by (cases "t_event_info ?th AND RT_EVENT_FLAG_CLEAR = 0") (simp_all add: Let_def)
    have nt: "t \<notin> fst ` set w'"
      using wake_split[OF w(2)] d by (auto simp: requests_def)
    have others: "thr k3 u = thr k u" if "u \<noteq> t" for u using k3(7) that by simp
    have tt: "woken (t_stat (thr k' t)) \<and> t_event_set (thr k' t) = got \<and> t_error (thr k' t) = t_error (thr k t)"
      using k'(9) nt k3(6) by auto
    have ws: "woken (t_stat (thr k' u)) \<and> t_event_set (thr k' u) = g \<and> t_error (thr k' u) = t_error (thr k u)"
      if "(u, g) \<in> set w" for u g
    proof (cases "u = t")
      case True
      then have "g = got" using that w(1) nt by force
      then show ?thesis using tt True by simp
    next
      case False
      then have "(u, g) \<in> set w'" using that w(1) by simp
      then show ?thesis using k'(8) others[OF False] by metis
    qed
    have os: "thr k' u = thr k u" if "u \<notin> fst ` set w" for u
      using that w(1) k'(9) others[of u] by force
    show ?thesis
      using step k'(1-7) k3(8) ws os w(1) by (intro exI[of _ k'] exI[of _ need']) auto
  qed
qed

lemma event_send_effect:
  assumes inv: "kernel_inv k" "stacks_ok k" and cur: "k_current k \<noteq> None"
    and ty: "o_type (k_objects k (OEvent e)) = RT_Object_Class_Event" and nz: "s \<noteq> 0"
    and w: "wake (ev_set (k_events k e) OR s) (requests k (k_lists k (EventWait e))) = (ev', w, l)"
  shows "\<exists>k'. rt_event_send e s k = Some (k', RT_EOK) \<and> kernel_inv k' \<and> stacks_ok k' \<and>
    ev_set (k_events k' e) = ev' \<and> k_lists k' (EventWait e) = l \<and>
    (\<forall>t g. (t, g) \<in> set w \<longrightarrow> woken (t_stat (thr k' t)) \<and> rt_event_recv_resume t 0 k' =
       (if t_error (thr k t) = RT_EOK then (RT_EOK, g) else (t_error (thr k t), 0)))"
proof -
  let ?k = "upd_event e (\<lambda>x. x\<lparr>ev_set := ev_set x OR s\<rparr>) k"
  have a: "kernel_inv ?k" "stacks_ok ?k" "k_lists ?k (EventWait e) = [] @ k_lists k (EventWait e)"
    "wake (ev_set (k_events ?k e)) (requests ?k (k_lists k (EventWait e))) = (ev', w, l)"
    using inv w by (simp_all add: requests_def)
  from event_scan_effect[OF a, of False] obtain k1 need where
    k1: "event_scan e (k_lists k (EventWait e)) False ?k = Some (k1, need)" "kernel_inv k1" "stacks_ok k1"
      "k_lists k1 (EventWait e) = l" "ev_set (k_events k1 e) = ev'" "k_current k1 = k_current k"
      "\<forall>t g. (t, g) \<in> set w \<longrightarrow> woken (t_stat (thr k1 t)) \<and> t_event_set (thr k1 t) = g \<and>
         t_error (thr k1 t) = t_error (thr k t)" by auto
  have "\<exists>k'. (if need then rt_schedule k1 else Some k1) = Some k' \<and> kernel_inv k' \<and> stacks_ok k' \<and>
      same_ipc k1 k' \<and> wait_lists_same k1 k' \<and> (\<forall>t. sched_rel (thr k1 t) (thr k' t))"
  proof (cases need)
    case True
    obtain c where "k_current k1 = Some c" using k1(6) cur by auto
    from schedule_effect[OF k1(2,3) this] True show ?thesis by auto
  next
    case False
    then show ?thesis using k1(2,3) by (simp add: same_ipc_def wait_lists_same_def sched_rel_refl)
  qed
  then obtain k' where k': "(if need then rt_schedule k1 else Some k1) = Some k'" "kernel_inv k'" "stacks_ok k'"
    "same_ipc k1 k'" "wait_lists_same k1 k'" "\<forall>t. sched_rel (thr k1 t) (thr k' t)" by blast
  have send: "rt_event_send e s k = Some (k', RT_EOK)"
    using ty nz k1(1) k'(1) by (simp add: rt_event_send_def rt_object_get_type_def Let_def)
  have "woken (t_stat (thr k' t)) \<and> t_event_set (thr k' t) = g \<and> t_error (thr k' t) = t_error (thr k t)"
    if "(t, g) \<in> set w" for t g
    using k1(7)[rule_format, OF that] k'(6)[rule_format, of t] by (auto simp: sched_rel_def woken_def)
  moreover have "ev_set (k_events k' e) = ev'" "k_lists k' (EventWait e) = l"
    using k'(4,5) k1(4,5) by (simp_all add: same_ipc_def wait_lists_same_def)
  ultimately show ?thesis
    using send k'(2,3) by (intro exI[of _ k']) (simp add: rt_event_recv_resume_def)
qed

text \<open>C14. \<^verbatim>\<open>rt_event_send\<close> adds the flags and wakes exactly the waiters the abstract scan chooses, in
  queue order: each leaves the queue ready, with the flags it received (all it asked for with AND,
  the ones set with OR), and its flags are taken out for the later waiters if it asked for that;
  the others keep their place. The kernel invariant is kept.\<close>

theorem event_send_spec:
  assumes inv: "kernel_inv k" "stacks_ok k" and cur: "k_current k \<noteq> None"
    and ty: "o_type (k_objects k (OEvent e)) = RT_Object_Class_Event" and nz: "s \<noteq> 0"
    and w: "wake (ev_set (k_events k e) OR s) (requests k (k_lists k (EventWait e))) = (ev', w, l)"
  shows "\<exists>k'. rt_event_send e s k = Some (k', RT_EOK) \<and> kernel_inv k' \<and> stacks_ok k' \<and>
    ev_set (k_events k' e) = ev' \<and> k_lists k' (EventWait e) = l \<and>
    (\<forall>t g. (t, g) \<in> set w \<longrightarrow> woken (t_stat (thr k' t)) \<and> rt_event_recv_resume t 0 k' =
       (if t_error (thr k t) = RT_EOK then (RT_EOK, g) else (t_error (thr k t), 0)))"
  using assms by (rule event_send_effect)

theorem event_send_spec_witness:
  "\<exists>k'. rt_event_send 0 2 sample = Some (k', RT_EOK) \<and> ev_set (k_events k' 0) = 0 \<and>
     k_lists k' (EventWait 0) = [] \<and> rt_event_recv_resume 5 0 k' = (RT_EOK, 3)"
proof -
  have rq: "requests sample (k_lists sample (EventWait 0)) = [(5, 3, 5)]"
    by (simp add: requests_def sample_lists_def sample_threads_def sample_thread_def)
  have ev: "ev_set (k_events sample 0) OR 2 = 3" by (simp add: sample_def)
  have w: "wake (ev_set (k_events sample 0) OR 2) (requests sample (k_lists sample (EventWait 0))) =
      (0, [(5, 3)], [])"
    unfolding rq ev by (simp add: event_check_def RT_EVENT_FLAG_AND_def RT_EVENT_FLAG_CLEAR_def)
  have "t_error (thr sample 5) = RT_EOK" by (simp add: sample_threads_def sample_thread_def RT_EOK_def)
  with event_send_spec[OF sample_inv sample_stacks_ok _ _ _ w] sample_registered_types(4)
  show ?thesis by auto
qed

lemma event_recv_effect:
  assumes inv: "kernel_inv k" "stacks_ok k" and run: "running_thread k c"
    and ty: "o_type (k_objects k (OEvent e)) = RT_Object_Class_Event" and fl: "flags \<noteq> 0"
    and tm: "time < 2 ^ 31 - 1"
  shows "if opt AND (RT_EVENT_FLAG_AND OR RT_EVENT_FLAG_OR) = 0 then rt_event_recv e flags opt time r0 k = None
    else \<exists>k' res got. rt_event_recv e flags opt time r0 k = Some (k', res, got) \<and> kernel_inv k' \<and> stacks_ok k' \<and>
      (if event_check flags opt (ev_set (k_events k e)) \<noteq> None then
         res = Done RT_EOK \<and> got = ev_set (k_events k e) AND flags \<and> k_lists k' = k_lists k \<and>
         ev_set (k_events k' e) = (if opt AND RT_EVENT_FLAG_CLEAR \<noteq> 0
            then ev_set (k_events k e) AND NOT flags else ev_set (k_events k e))
       else if time = 0 then res = Done (- RT_ETIMEOUT) \<and> k_events k' = k_events k \<and> k_lists k' = k_lists k
       else res = Blocked \<and> k_events k' = k_events k \<and> t_stat (thr k' c) = RT_THREAD_SUSPEND \<and>
         k_lists k' (EventWait e) = waiters_after (ev_flag (k_events k e))
           (\<lambda>u. t_current_priority (thr k u)) c (k_lists k (EventWait e)) \<and>
         t_event_set (thr k' c) = flags \<and> t_event_info (thr k' c) = opt)"
proof -
  let ?k = "upd_thr c (t_error_update (\<lambda>_. RT_EOK)) k" and ?ev = "ev_set (k_events k e)"
  note u = running_upd_error[OF inv run]
  have pre: "rt_debug_in_thread_context k = Some ()" "rt_thread_self k = Some c"
    "rt_object_get_type k (OEvent e) = RT_Object_Class_Event"
    using run ty by (simp_all add: rt_debug_in_thread_context_def rt_debug_not_in_interrupt_def
        rt_interrupt_get_nest_def rt_thread_self_def running_thread_def rt_object_get_type_def)
  let ?a = "opt AND RT_EVENT_FLAG_AND \<noteq> 0" and ?o = "opt AND RT_EVENT_FLAG_OR \<noteq> 0"
  have none: "opt AND (RT_EVENT_FLAG_AND OR RT_EVENT_FLAG_OR) = 0 \<longleftrightarrow> \<not> ?a \<and> \<not> ?o"
    by (simp add: bit.conj_disj_distrib or_eq_0_iff)
  show ?thesis
  proof (cases "\<not> ?a \<and> \<not> ?o")
    case True
    then show ?thesis using fl by (simp add: none[THEN iffD2] rt_event_recv_def pre)
  next
    case False
    let ?ok = "event_check flags opt ?ev \<noteq> None"
    have ok: "(if ?a then Some (?ev AND flags = flags) else if ?o then Some (?ev AND flags \<noteq> 0) else None) = Some ?ok"
      using False by (auto simp: event_check_def and.commute)
    let ?kb = "upd_thr c (\<lambda>th. th\<lparr>t_event_set := flags, t_event_info := opt\<rparr>) ?k"
    have e: "rt_event_recv e flags opt time r0 k =
       (if ?ok then Some (if opt AND RT_EVENT_FLAG_CLEAR \<noteq> 0
               then upd_event e (\<lambda>x. x\<lparr>ev_set := ev_set x AND NOT flags\<rparr>) ?k else ?k,
               Done RT_EOK, ?ev AND flags)
       else if time = 0 then
         Some (upd_thr c (t_error_update (\<lambda>_. - RT_ETIMEOUT)) ?k, Done (- RT_ETIMEOUT), r0)
       else Option.bind (ipc_block (EventWait e) c (ev_flag (k_events k e)) time ?kb)
         (\<lambda>k. Some (k, Blocked, r0)))"
    proof -
      have "rt_event_recv e flags opt time r0 k =
        Option.bind (if ?a then Some (?ev AND flags = flags) else if ?o then Some (?ev AND flags \<noteq> 0) else None)
         (\<lambda>ok. if ok then Some (if opt AND RT_EVENT_FLAG_CLEAR \<noteq> 0
               then upd_event e (\<lambda>x. x\<lparr>ev_set := ev_set x AND NOT flags\<rparr>) ?k else ?k,
               Done RT_EOK, ?ev AND flags)
           else if time = 0 then
             Some (upd_thr c (t_error_update (\<lambda>_. - RT_ETIMEOUT)) ?k, Done (- RT_ETIMEOUT), r0)
           else Option.bind (ipc_block (EventWait e) c (ev_flag (k_events k e)) time ?kb)
             (\<lambda>k. Some (k, Blocked, r0)))"
        unfolding rt_event_recv_def pre Let_def using fl by (simp cong: if_cong)
      then show ?thesis unfolding ok by simp
    qed
    have "\<exists>k' res got. rt_event_recv e flags opt time r0 k = Some (k', res, got) \<and> kernel_inv k' \<and> stacks_ok k' \<and>
      (if ?ok then res = Done RT_EOK \<and> got = ?ev AND flags \<and> k_lists k' = k_lists k \<and>
         ev_set (k_events k' e) = (if opt AND RT_EVENT_FLAG_CLEAR \<noteq> 0 then ?ev AND NOT flags else ?ev)
       else if time = 0 then res = Done (- RT_ETIMEOUT) \<and> k_events k' = k_events k \<and> k_lists k' = k_lists k
       else res = Blocked \<and> k_events k' = k_events k \<and> t_stat (thr k' c) = RT_THREAD_SUSPEND \<and>
         k_lists k' (EventWait e) = waiters_after (ev_flag (k_events k e))
           (\<lambda>u. t_current_priority (thr k u)) c (k_lists k (EventWait e)) \<and>
         t_event_set (thr k' c) = flags \<and> t_event_info (thr k' c) = opt)"
    proof (cases ?ok)
      case True
      then show ?thesis unfolding e using u by simp
    next
      case nok: False
      show ?thesis
      proof (cases "time = 0")
        case True
        then show ?thesis unfolding e using nok running_upd_error(1,2)[OF u, of "- RT_ETIMEOUT"] by simp
      next
        case nz: False
        have ib: "kernel_inv ?kb" by (rule kernel_inv_upd_thr[OF u(1)]) simp_all
        have sb: "stacks_ok ?kb" using inv(2) by (auto simp: stacks_ok_def)
        have cb: "k_current ?kb = Some c" "t_stat (thr ?kb c) = RT_THREAD_RUNNING"
          using run by (simp_all add: running_thread_def)
        have hs: "stat_of_list (EventWait e) = RT_THREAD_SUSPEND" by simp
        from block_effect[OF ib sb cb hs tm, of "ev_flag (k_events k e)"] obtain k' where
          k': "ipc_block (EventWait e) c (ev_flag (k_events k e)) time ?kb = Some k'" "kernel_inv k'" "stacks_ok k'"
            "same_ipc ?kb k'" "k_lists k' (EventWait e) = waiters_after (ev_flag (k_events k e))
               (\<lambda>v. t_current_priority (thr ?kb v)) c (k_lists ?kb (EventWait e))"
            "thr k' c = (thr ?kb c)\<lparr>t_stat := RT_THREAD_SUSPEND\<rparr>" by blast
        have pr: "(\<lambda>v. t_current_priority (thr ?kb v)) = (\<lambda>v. t_current_priority (thr k v))"
          by (auto simp: fun_eq_iff)
        show ?thesis
          unfolding e using nok nz k'(1-4,6) k'(5)[unfolded pr] by (simp add: same_ipc_def)
      qed
    qed
    moreover have n: "opt AND (RT_EVENT_FLAG_AND OR RT_EVENT_FLAG_OR) \<noteq> 0" using False none by blast
    ultimately show ?thesis unfolding if_not_P[OF n] by blast
  qed
qed



end
