(* ===== verification/Mailbox.thy ===== *)
theory Mailbox
  imports Event Bounded_Fifo
begin

text \<open>
  The mailbox of \<^verbatim>\<open>src/ipc.c\<close>: a ring of 32-bit mails with waiting senders and receivers. The
  counters are 16-bit fields; the size is truncated when it is stored, and the invariant keeps the
  others below it, so they are numbers here. A woken thread tries again with the time that is left.
\<close>

section \<open>The ring\<close>

definition mb_put :: "u32 \<Rightarrow> rt_mailbox \<Rightarrow> rt_mailbox" where
  "mb_put value mb =
     mb\<lparr>mb_msg_pool := (mb_msg_pool mb)[mb_in_offset mb := value],
        mb_in_offset := (if mb_in_offset mb + 1 \<ge> mb_size mb then 0 else mb_in_offset mb + 1),
        mb_entry := mb_entry mb + 1\<rparr>"

definition mb_take :: "rt_mailbox \<Rightarrow> rt_mailbox" where
  "mb_take mb =
     mb\<lparr>mb_out_offset := (if mb_out_offset mb + 1 \<ge> mb_size mb then 0 else mb_out_offset mb + 1),
        mb_entry := mb_entry mb - 1\<rparr>"

definition mb_front :: "rt_mailbox \<Rightarrow> u32" where
  "mb_front mb = mb_msg_pool mb ! mb_out_offset mb"

section \<open>Operations\<close>

definition upd_mb :: "nat \<Rightarrow> (rt_mailbox \<Rightarrow> rt_mailbox) \<Rightarrow> kernel \<Rightarrow> kernel" where
  "upd_mb b f k = k\<lparr>k_mbs := (k_mbs k)(b := f (k_mbs k b))\<rparr>"

definition new_mailbox :: "nat \<Rightarrow> u32 list \<Rightarrow> nat \<Rightarrow> rt_mailbox" where
  "new_mailbox flag pool sz = \<lparr>mb_flag = flag, mb_msg_pool = pool, mb_size = sz mod 0x10000, mb_entry = 0,
     mb_in_offset = 0, mb_out_offset = 0\<rparr>"

definition rt_mb_init :: "nat \<Rightarrow> string \<Rightarrow> u32 list \<Rightarrow> nat \<Rightarrow> nat \<Rightarrow> kernel \<Rightarrow> kernel option" where
  "rt_mb_init b name msgpool sz flag k = do {
     k \<leftarrow> rt_object_init (OMailBox b) RT_Object_Class_MailBox name k;
     Some (tlist_init (MbSendWait b) (upd_mb b (\<lambda>_. new_mailbox flag msgpool sz)
       (rt_ipc_object_init (MbRecvWait b) k))) }"

definition rt_mb_detach :: "nat \<Rightarrow> kernel \<Rightarrow> kernel option" where
  "rt_mb_detach b k = do {
     rt_assert (rt_object_get_type k (OMailBox b) = RT_Object_Class_MailBox);
     rt_assert (rt_object_is_systemobject k (OMailBox b));
     k \<leftarrow> rt_ipc_list_resume_all (MbRecvWait b) k;
     k \<leftarrow> rt_ipc_list_resume_all (MbSendWait b) k;
     Some (rt_object_detach (OMailBox b) k) }"

text \<open>\<open>mem\<close> and \<open>pool\<close> are the allocator's answers, the second a block of \<open>size\<close> words.\<close>

definition rt_mb_create ::
  "nat option \<Rightarrow> u32 list option \<Rightarrow> string \<Rightarrow> nat \<Rightarrow> nat \<Rightarrow> kernel \<Rightarrow> (kernel \<times> nat option) option" where
  "rt_mb_create mem pool name sz flag k = do {
     rt_debug_not_in_interrupt k;
     (k, ob) \<leftarrow> rt_object_allocate (map_option OMailBox mem) RT_Object_Class_MailBox name k;
     (case mem of
        None \<Rightarrow> Some (k, None)
      | Some b \<Rightarrow>
          let k = rt_ipc_object_init (MbRecvWait b) k in
          (case pool of
             None \<Rightarrow> do { k \<leftarrow> rt_object_delete (OMailBox b) k; Some (k, None) }
           | Some p \<Rightarrow> Some (tlist_init (MbSendWait b) (upd_mb b (\<lambda>_. new_mailbox flag p sz) k), Some b))) }"

definition rt_mb_delete :: "nat \<Rightarrow> kernel \<Rightarrow> kernel option" where
  "rt_mb_delete b k = do {
     rt_debug_not_in_interrupt k;
     rt_assert (rt_object_get_type k (OMailBox b) = RT_Object_Class_MailBox);
     rt_assert (\<not> rt_object_is_systemobject k (OMailBox b));
     k \<leftarrow> rt_ipc_list_resume_all (MbRecvWait b) k;
     k \<leftarrow> rt_ipc_list_resume_all (MbSendWait b) k;
     rt_object_delete (OMailBox b) k }"

text \<open>
  One round of the loop that waits for a condition. The last component of the result is the local
  \<^verbatim>\<open>tick_delta\<close>: the tick at which the wait began, when it is limited.
\<close>

definition wait_round :: "list_head \<Rightarrow> nat \<Rightarrow> int \<Rightarrow> rt_tick_t \<Rightarrow> kernel \<Rightarrow> (kernel \<times> ipc_result \<times> rt_tick_t) option" where
  "wait_round h flag timeout tick_delta k = do {
     rt_debug_in_thread_context k;
     t \<leftarrow> rt_thread_self k;
     let start = (if timeout > 0 then rt_tick_get k else tick_delta);
     k \<leftarrow> ipc_block h t flag timeout k;
     Some (k, Blocked, start) }"

text \<open>\<^verbatim>\<open>timeout -= tick_delta\<close> is unsigned arithmetic read back as a signed number.\<close>

definition time_left :: "int \<Rightarrow> rt_tick_t \<Rightarrow> kernel \<Rightarrow> int" where
  "time_left timeout tick_delta k =
     (if timeout > 0 then max 0 (sint (word_of_int timeout - (rt_tick_get k - tick_delta))) else timeout)"

text \<open>From the \<^verbatim>\<open>while\<close> on.\<close>

definition mb_send_loop ::
  "nat \<Rightarrow> u32 \<Rightarrow> int \<Rightarrow> rt_tick_t \<Rightarrow> kernel \<Rightarrow> (kernel \<times> ipc_result \<times> rt_tick_t) option" where
  "mb_send_loop b value timeout tick_delta k =
     (if mb_entry (k_mbs k b) = mb_size (k_mbs k b) then do {
        t \<leftarrow> rt_thread_self k;
        let k = upd_thr t (t_error_update (\<lambda>_. RT_EOK)) k;
        if timeout = 0 then Some (k, Done (- RT_EFULL), tick_delta)
        else wait_round (MbSendWait b) (mb_flag (k_mbs k b)) timeout tick_delta k }
      else do {
        let k = upd_mb b (mb_put value) k;
        if k_lists k (MbRecvWait b) \<noteq> [] then do {
          k \<leftarrow> rt_ipc_list_resume (MbRecvWait b) k;
          k \<leftarrow> rt_schedule k;
          Some (k, Done RT_EOK, tick_delta) }
        else Some (k, Done RT_EOK, tick_delta) })"

definition rt_mb_send_wait :: "nat \<Rightarrow> u32 \<Rightarrow> int \<Rightarrow> kernel \<Rightarrow> (kernel \<times> ipc_result \<times> rt_tick_t) option" where
  "rt_mb_send_wait b value timeout k = do {
     rt_assert (rt_object_get_type k (OMailBox b) = RT_Object_Class_MailBox);
     if mb_entry (k_mbs k b) = mb_size (k_mbs k b) \<and> timeout = 0
     then Some (k, Done (- RT_EFULL), 0)
     else mb_send_loop b value timeout 0 k }"

definition rt_mb_send_wait_resume ::
  "nat \<Rightarrow> nat \<Rightarrow> u32 \<Rightarrow> int \<Rightarrow> rt_tick_t \<Rightarrow> kernel \<Rightarrow> (kernel \<times> ipc_result \<times> rt_tick_t) option" where
  "rt_mb_send_wait_resume b t value timeout tick_delta k =
     (if t_error (thr k t) \<noteq> RT_EOK then Some (k, Done (t_error (thr k t)), tick_delta)
      else mb_send_loop b value (time_left timeout tick_delta k)
             (if timeout > 0 then rt_tick_get k - tick_delta else tick_delta) k)"

definition rt_mb_send :: "nat \<Rightarrow> u32 \<Rightarrow> kernel \<Rightarrow> (kernel \<times> ipc_result \<times> rt_tick_t) option" where
  "rt_mb_send b value k = rt_mb_send_wait b value 0 k"

text \<open>\<open>value\<close> is what the caller's pointer holds before and after.\<close>

definition mb_recv_loop ::
  "nat \<Rightarrow> u32 \<Rightarrow> int \<Rightarrow> rt_tick_t \<Rightarrow> kernel \<Rightarrow> ((kernel \<times> ipc_result \<times> rt_tick_t) \<times> u32) option" where
  "mb_recv_loop b value timeout tick_delta k =
     (if mb_entry (k_mbs k b) = 0 then do {
        t \<leftarrow> rt_thread_self k;
        let k = upd_thr t (t_error_update (\<lambda>_. RT_EOK)) k;
        if timeout = 0 then
          Some ((upd_thr t (t_error_update (\<lambda>_. - RT_ETIMEOUT)) k, Done (- RT_ETIMEOUT), tick_delta), value)
        else do {
          r \<leftarrow> wait_round (MbRecvWait b) (mb_flag (k_mbs k b)) timeout tick_delta k;
          Some (r, value) } }
      else do {
        let value = mb_front (k_mbs k b);
        let k = upd_mb b mb_take k;
        if k_lists k (MbSendWait b) \<noteq> [] then do {
          k \<leftarrow> rt_ipc_list_resume (MbSendWait b) k;
          k \<leftarrow> rt_schedule k;
          Some ((k, Done RT_EOK, tick_delta), value) }
        else Some ((k, Done RT_EOK, tick_delta), value) })"

definition rt_mb_recv :: "nat \<Rightarrow> u32 \<Rightarrow> int \<Rightarrow> kernel \<Rightarrow> ((kernel \<times> ipc_result \<times> rt_tick_t) \<times> u32) option" where
  "rt_mb_recv b value timeout k = do {
     rt_assert (rt_object_get_type k (OMailBox b) = RT_Object_Class_MailBox);
     if mb_entry (k_mbs k b) = 0 \<and> timeout = 0 then Some ((k, Done (- RT_ETIMEOUT), 0), value)
     else mb_recv_loop b value timeout 0 k }"

definition rt_mb_recv_resume ::
  "nat \<Rightarrow> nat \<Rightarrow> u32 \<Rightarrow> int \<Rightarrow> rt_tick_t \<Rightarrow> kernel \<Rightarrow> ((kernel \<times> ipc_result \<times> rt_tick_t) \<times> u32) option" where
  "rt_mb_recv_resume b t value timeout tick_delta k =
     (if t_error (thr k t) \<noteq> RT_EOK then Some ((k, Done (t_error (thr k t)), tick_delta), value)
      else mb_recv_loop b value (time_left timeout tick_delta k)
             (if timeout > 0 then rt_tick_get k - tick_delta else tick_delta) k)"

definition rt_mb_control :: "nat \<Rightarrow> int \<Rightarrow> kernel \<Rightarrow> (kernel \<times> int) option" where
  "rt_mb_control b cmd k = do {
     rt_assert (rt_object_get_type k (OMailBox b) = RT_Object_Class_MailBox);
     if cmd = RT_IPC_CMD_RESET then do {
       k \<leftarrow> rt_ipc_list_resume_all (MbRecvWait b) k;
       k \<leftarrow> rt_ipc_list_resume_all (MbSendWait b) k;
       k \<leftarrow> rt_schedule (upd_mb b (\<lambda>mb. mb\<lparr>mb_entry := 0, mb_in_offset := 0, mb_out_offset := 0\<rparr>) k);
       Some (k, RT_EOK) }
     else Some (k, - RT_ERROR) }"

section \<open>The ring is a bounded queue\<close>

definition mb_inv :: "rt_mailbox \<Rightarrow> bool" where
  "mb_inv mb \<longleftrightarrow> 0 < mb_size mb \<and> mb_size mb < 0x10000 \<and> mb_size mb \<le> length (mb_msg_pool mb) \<and>
     mb_entry mb \<le> mb_size mb \<and> mb_out_offset mb < mb_size mb \<and>
     mb_in_offset mb = (mb_out_offset mb + mb_entry mb) mod mb_size mb"

definition mb_contents :: "rt_mailbox \<Rightarrow> u32 list" where
  "mb_contents mb = map (\<lambda>i. mb_msg_pool mb ! ((mb_out_offset mb + i) mod mb_size mb)) [0 ..< mb_entry mb]"

definition mb_push_try :: "rt_mailbox \<Rightarrow> u32 \<Rightarrow> rt_mailbox \<times> bool" where
  "mb_push_try mb v = (if mb_entry mb = mb_size mb then (mb, False) else (mb_put v mb, True))"

definition mb_pop_try :: "rt_mailbox \<Rightarrow> rt_mailbox \<times> u32 option" where
  "mb_pop_try mb = (if mb_entry mb = 0 then (mb, None) else (mb_take mb, Some (mb_front mb)))"

lemma length_mb_contents [simp]: "length (mb_contents mb) = mb_entry mb"
  by (simp add: mb_contents_def)

lemma next_offset: "i < n \<Longrightarrow> (if i + 1 \<ge> n then 0 else i + 1) = (i + 1) mod (n :: nat)"
  by (cases "i + 1 = n") auto

lemma mb_put_ok:
  assumes "mb_inv mb" "mb_entry mb < mb_size mb"
  shows "mb_inv (mb_put v mb) \<and> mb_contents (mb_put v mb) = mb_contents mb @ [v] \<and>
    mb_size (mb_put v mb) = mb_size mb"
proof -
  let ?n = "mb_size mb" and ?o = "mb_out_offset mb" and ?e = "mb_entry mb"
  have i: "mb_in_offset mb = (?o + ?e) mod ?n" "mb_in_offset mb < ?n" using assms by (auto simp: mb_inv_def)
  have nx: "(if mb_in_offset mb + 1 \<ge> ?n then 0 else mb_in_offset mb + 1) = (?o + (?e + 1)) mod ?n"
    unfolding next_offset[OF i(2)] by (simp add: i(1) mod_simps)
  have ne: "(?o + j) mod ?n \<noteq> (?o + ?e) mod ?n" if "j < ?e" for j
    using circ_index[of ?o ?n j] circ_index[of ?o ?n ?e] assms that by (auto simp: mb_inv_def)
  have il: "mb_in_offset mb < length (mb_msg_pool mb)" using assms(1) i(2) unfolding mb_inv_def by linarith
  have "mb_inv (mb_put v mb)"
    using assms nx by (simp add: mb_inv_def mb_put_def del: mod_Suc_eq)
  moreover have "mb_contents (mb_put v mb) = mb_contents mb @ [v]"
    using il ne by (auto simp: mb_put_def mb_contents_def i(1) nth_list_update dest: sym)
  ultimately show ?thesis by (simp add: mb_put_def)
qed

lemma mb_take_ok:
  assumes "mb_inv mb" "mb_contents mb = x # xs"
  shows "mb_front mb = x \<and> mb_inv (mb_take mb) \<and> mb_contents (mb_take mb) = xs \<and>
    mb_size (mb_take mb) = mb_size mb"
proof -
  let ?n = "mb_size mb" and ?o = "mb_out_offset mb" and ?e = "mb_entry mb"
  obtain e where e: "?e = Suc e" using assms(2) length_mb_contents[of mb] by (cases ?e) auto
  have o: "?o < ?n" using assms by (auto simp: mb_inv_def)
  have nx: "(if ?o + 1 \<ge> ?n then 0 else ?o + 1) = (?o + 1) mod ?n" by (rule next_offset[OF o])
  have "mb_contents mb = mb_msg_pool mb ! ?o # map (\<lambda>i. mb_msg_pool mb ! ((?o + (1 + i)) mod ?n)) [0 ..< e]"
    using o upt_map_shift[of "\<lambda>i. mb_msg_pool mb ! ((?o + i) mod ?n)" 1 e]
    unfolding mb_contents_def e by (simp add: upt_conv_Cons del: upt_Suc)
  then have "x = mb_msg_pool mb ! ?o" "xs = map (\<lambda>i. mb_msg_pool mb ! ((?o + (1 + i)) mod ?n)) [0 ..< e]"
    using assms(2) by auto
  moreover have "mb_contents (mb_take mb) = map (\<lambda>i. mb_msg_pool mb ! (((?o + 1) mod ?n + i) mod ?n)) [0 ..< e]"
    using nx by (simp add: mb_contents_def mb_take_def e)
  ultimately show ?thesis
    using assms(1) o e nx by (auto simp: mb_inv_def mb_front_def mb_take_def mod_simps)
qed

interpretation mbq: bounded_fifo mb_inv mb_contents mb_size mb_push_try mb_pop_try
proof
  fix mb :: rt_mailbox and v x :: u32 and xs :: "u32 list"
  show "mb_inv mb \<Longrightarrow> length (mb_contents mb) \<le> mb_size mb" by (simp add: mb_inv_def)
  show "mb_inv mb \<Longrightarrow> length (mb_contents mb) < mb_size mb \<Longrightarrow>
      \<exists>q'. mb_push_try mb v = (q', True) \<and> mb_inv q' \<and> mb_contents q' = mb_contents mb @ [v] \<and> mb_size q' = mb_size mb"
    using mb_put_ok[of mb v] by (simp add: mb_push_try_def)
  show "mb_inv mb \<Longrightarrow> length (mb_contents mb) = mb_size mb \<Longrightarrow> mb_push_try mb v = (mb, False)"
    by (simp add: mb_push_try_def)
  show "mb_inv mb \<Longrightarrow> mb_contents mb = x # xs \<Longrightarrow>
      \<exists>q'. mb_pop_try mb = (q', Some x) \<and> mb_inv q' \<and> mb_contents q' = xs \<and> mb_size q' = mb_size mb"
    using mb_take_ok[of mb x xs] length_mb_contents[of mb] by (auto simp: mb_pop_try_def)
  show "mb_inv mb \<Longrightarrow> mb_contents mb = [] \<Longrightarrow> mb_pop_try mb = (mb, None)"
    using length_mb_contents[of mb] by (simp add: mb_pop_try_def)
qed

section \<open>Effects\<close>

lemma upd_mb_sel [simp]:
  "k_mbs (upd_mb b f k) = (k_mbs k)(b := f (k_mbs k b))" "k_lists (upd_mb b f k) = k_lists k"
  "k_threads (upd_mb b f k) = k_threads k" "k_current (upd_mb b f k) = k_current k"
  "k_objects (upd_mb b f k) = k_objects k" "k_timers (upd_mb b f k) = k_timers k"
  "k_timer_list (upd_mb b f k) = k_timer_list k" "kernel_inv (upd_mb b f k) = kernel_inv k"
  "stacks_ok (upd_mb b f k) = stacks_ok k" "k_interrupt_nest (upd_mb b f k) = k_interrupt_nest k"
  "k_tick (upd_mb b f k) = k_tick k"
  by (simp_all add: upd_mb_def stacks_ok_def)

text \<open>Suspending the running thread with a clear error on one of the two lists.\<close>

lemma wait_round_effect:
  assumes inv: "kernel_inv k" "stacks_ok k" and run: "running_thread k c"
    and h: "stat_of_list h = RT_THREAD_SUSPEND" and tm: "time < 2 ^ 31 - 1"
  shows "\<exists>k'. wait_round h flag time td (upd_thr c (t_error_update (\<lambda>_. RT_EOK)) k) =
      Some (k', Blocked, if time > 0 then k_tick k else td) \<and> kernel_inv k' \<and> stacks_ok k' \<and> same_ipc k k' \<and>
    k_lists k' h = waiters_after flag (\<lambda>u. t_current_priority (thr k u)) c (k_lists k h) \<and>
    (\<forall>h'. stat_of_list h' = RT_THREAD_SUSPEND \<longrightarrow> h' \<noteq> h \<longrightarrow> k_lists k' h' = k_lists k h') \<and>
    t_stat (thr k' c) = RT_THREAD_SUSPEND \<and> t_error (thr k' c) = RT_EOK \<and>
    (ThreadTimer c \<in> set (k_timer_list k') \<longleftrightarrow> time > 0)"
proof -
  let ?k = "upd_thr c (t_error_update (\<lambda>_. RT_EOK)) k"
  have c: "k_current ?k = Some c" "t_stat (thr ?k c) = RT_THREAD_RUNNING"
    using run by (simp_all add: running_thread_def)
  have i: "kernel_inv ?k" by (rule kernel_inv_upd_thr[OF inv(1)]) simp_all
  have s: "stacks_ok ?k" using inv(2) by (auto simp: stacks_ok_def)
  have pr: "(\<lambda>u. t_current_priority (thr ?k u)) = (\<lambda>u. t_current_priority (thr k u))" by (auto simp: fun_eq_iff)
  from block_effect[OF i s c h tm, of flag] obtain k' where
    k': "ipc_block h c flag time ?k = Some k'" "kernel_inv k'" "stacks_ok k'" "same_ipc ?k k'"
    "k_lists k' h = waiters_after flag (\<lambda>u. t_current_priority (thr ?k u)) c (k_lists ?k h)"
    "\<forall>h'. stat_of_list h' = RT_THREAD_SUSPEND \<longrightarrow> h' \<noteq> h \<longrightarrow> k_lists k' h' = k_lists ?k h'"
    "thr k' c = (thr ?k c)\<lparr>t_stat := RT_THREAD_SUSPEND\<rparr>"
    "time > 0 \<longrightarrow> ThreadTimer c \<in> set (k_timer_list k')"
    "time \<le> 0 \<longrightarrow> ThreadTimer c \<notin> set (k_timer_list k')" by blast
  have "wait_round h flag time td ?k = Some (k', Blocked, if time > 0 then k_tick k else td)"
    using run k'(1) by (simp add: wait_round_def rt_debug_in_thread_context_def rt_debug_not_in_interrupt_def
        rt_interrupt_get_nest_def rt_thread_self_def running_thread_def rt_tick_get_def)
  moreover have "ThreadTimer c \<in> set (k_timer_list k') \<longleftrightarrow> time > 0" using k'(8,9) by linarith
  ultimately show ?thesis
    using k'(2,3,4,6,7) k'(5)[unfolded pr] by (simp add: same_ipc_def)
qed

text \<open>The end of a successful call: wake the first thread of the other side, if any.\<close>

definition wake_one :: "list_head \<Rightarrow> kernel \<Rightarrow> kernel option" where
  "wake_one h k = (if k_lists k h \<noteq> [] then do { k \<leftarrow> rt_ipc_list_resume h k; rt_schedule k } else Some k)"

lemma wake_one_effect:
  assumes inv: "kernel_inv k" "stacks_ok k" and h: "stat_of_list h = RT_THREAD_SUSPEND" and cur: "k_current k = Some c"
  shows "\<exists>k'. wake_one h k = Some k' \<and> kernel_inv k' \<and> stacks_ok k' \<and> k_mbs k' = k_mbs k \<and> k_mqs k' = k_mqs k \<and>
    k_lists k' h = tl (k_lists k h) \<and>
    (\<forall>h'. stat_of_list h' = RT_THREAD_SUSPEND \<longrightarrow> h' \<noteq> h \<longrightarrow> k_lists k' h' = k_lists k h') \<and>
    (k_lists k h \<noteq> [] \<longrightarrow> woken (t_stat (thr k' (hd (k_lists k h)))))"
proof (cases "k_lists k h")
  case Nil
  then show ?thesis using inv by (simp add: wake_one_def)
next
  case (Cons t ts)
  from wake_schedule_effect[OF inv Cons h cur] obtain k1 k2 where
    k: "rt_ipc_list_resume h k = Some k1" "rt_schedule k1 = Some k2" "kernel_inv k2" "stacks_ok k2" "same_ipc k k2"
    "k_lists k2 h = ts" "woken (t_stat (thr k2 t))"
    "\<forall>h'. stat_of_list h' = RT_THREAD_SUSPEND \<longrightarrow> h' \<noteq> h \<longrightarrow> k_lists k2 h' = k_lists k h'" by blast
  have "wake_one h k = Some k2" using Cons k(1,2) by (simp add: wake_one_def)
  then show ?thesis using k(3-8) Cons by (intro exI[of _ k2]) (simp add: same_ipc_def)
qed

section \<open>Properties\<close>

lemma mailbox_send_effect:
  assumes inv: "kernel_inv k" "stacks_ok k" and cur: "k_current k = Some c"
    and ty: "o_type (k_objects k (OMailBox b)) = RT_Object_Class_MailBox" and mb: "mb_inv (k_mbs k b)"
    and tm: "timeout < 2 ^ 31 - 1"
    and run: "mb_entry (k_mbs k b) = mb_size (k_mbs k b) \<and> timeout \<noteq> 0 \<longrightarrow> running_thread k c"
  shows "\<exists>k' r td. rt_mb_send_wait b v timeout k = Some (k', r, td) \<and> kernel_inv k' \<and> stacks_ok k' \<and>
    mb_inv (k_mbs k' b) \<and>
    (if mb_entry (k_mbs k b) < mb_size (k_mbs k b) then
       r = Done RT_EOK \<and> mb_contents (k_mbs k' b) = mb_contents (k_mbs k b) @ [v] \<and>
       k_lists k' (MbRecvWait b) = tl (k_lists k (MbRecvWait b)) \<and>
       k_lists k' (MbSendWait b) = k_lists k (MbSendWait b) \<and>
       (k_lists k (MbRecvWait b) \<noteq> [] \<longrightarrow> woken (t_stat (thr k' (hd (k_lists k (MbRecvWait b))))))
     else if timeout = 0 then r = Done (- RT_EFULL) \<and> k' = k
     else r = Blocked \<and> k_mbs k' = k_mbs k \<and> t_stat (thr k' c) = RT_THREAD_SUSPEND \<and>
       k_lists k' (MbSendWait b) = waiters_after (mb_flag (k_mbs k b)) (\<lambda>u. t_current_priority (thr k u)) c
         (k_lists k (MbSendWait b)) \<and>
       (ThreadTimer c \<in> set (k_timer_list k') \<longleftrightarrow> timeout > 0) \<and> (timeout > 0 \<longrightarrow> td = k_tick k))"
proof (cases "mb_entry (k_mbs k b) < mb_size (k_mbs k b)")
  case True
  let ?k = "upd_mb b (mb_put v) k"
  have h: "stat_of_list (MbRecvWait b) = RT_THREAD_SUSPEND" by simp
  have i: "kernel_inv ?k" "stacks_ok ?k" "k_current ?k = Some c" using inv cur by simp_all
  from wake_one_effect[OF i(1,2) h i(3)] obtain k' where
    k': "wake_one (MbRecvWait b) ?k = Some k'" "kernel_inv k'" "stacks_ok k'" "k_mbs k' = k_mbs ?k"
      "k_lists k' (MbRecvWait b) = tl (k_lists k (MbRecvWait b))"
      "\<forall>h'. stat_of_list h' = RT_THREAD_SUSPEND \<longrightarrow> h' \<noteq> MbRecvWait b \<longrightarrow> k_lists k' h' = k_lists k h'"
      "k_lists k (MbRecvWait b) \<noteq> [] \<longrightarrow> woken (t_stat (thr k' (hd (k_lists k (MbRecvWait b)))))"
    by (auto simp only: upd_mb_sel)
  have "rt_mb_send_wait b v timeout k = Some (k', Done RT_EOK, 0)"
    using True ty k'(1) by (auto simp: rt_mb_send_wait_def mb_send_loop_def wake_one_def rt_object_get_type_def
        bind_eq_Some_conv split: if_splits)
  then show ?thesis using True k'(2-7) mb_put_ok[OF mb True, of v] by simp
next
  case False
  then have full: "mb_entry (k_mbs k b) = mb_size (k_mbs k b)" using mb by (simp add: mb_inv_def)
  show ?thesis
  proof (cases "timeout = 0")
    case True
    then show ?thesis using full ty inv mb by (simp add: rt_mb_send_wait_def rt_object_get_type_def)
  next
    case nz: False
    have run: "running_thread k c" using run full nz by blast
    have h: "stat_of_list (MbSendWait b) = RT_THREAD_SUSPEND" by simp
    from wait_round_effect[OF inv run h tm, of "mb_flag (k_mbs k b)" 0] obtain k' where
      k': "wait_round (MbSendWait b) (mb_flag (k_mbs k b)) timeout 0 (upd_thr c (t_error_update (\<lambda>_. RT_EOK)) k) =
        Some (k', Blocked, if timeout > 0 then k_tick k else 0)" "kernel_inv k'" "stacks_ok k'" "same_ipc k k'"
      "k_lists k' (MbSendWait b) = waiters_after (mb_flag (k_mbs k b)) (\<lambda>u. t_current_priority (thr k u)) c
         (k_lists k (MbSendWait b))" "t_stat (thr k' c) = RT_THREAD_SUSPEND"
      "ThreadTimer c \<in> set (k_timer_list k') \<longleftrightarrow> timeout > 0" by blast
    have "rt_mb_send_wait b v timeout k = Some (k', Blocked, if timeout > 0 then k_tick k else 0)"
      using full nz ty cur k'(1)
      by (simp add: rt_mb_send_wait_def mb_send_loop_def rt_object_get_type_def rt_thread_self_def)
    then show ?thesis using full nz k'(2-7) mb by (simp add: same_ipc_def)
  qed
qed

text \<open>C22. \<^verbatim>\<open>rt_mb_send_wait\<close> on a valid mailbox always reaches a result and keeps the kernel invariant: it
  appends the mail and wakes the first waiting receiver if there is room, in a thread or in an
  interrupt; on a full mailbox it is refused at once when told not to wait, and otherwise the
  running thread joins the waiting senders.\<close>

theorem mailbox_send_spec:
  assumes inv: "kernel_inv k" "stacks_ok k" and cur: "k_current k = Some c"
    and ty: "o_type (k_objects k (OMailBox b)) = RT_Object_Class_MailBox" and mb: "mb_inv (k_mbs k b)"
    and tm: "timeout < 2 ^ 31 - 1"
    and run: "mb_entry (k_mbs k b) = mb_size (k_mbs k b) \<and> timeout \<noteq> 0 \<longrightarrow> running_thread k c"
  shows "\<exists>k' r td. rt_mb_send_wait b v timeout k = Some (k', r, td) \<and> kernel_inv k' \<and> stacks_ok k' \<and>
    mb_inv (k_mbs k' b) \<and>
    (if mb_entry (k_mbs k b) < mb_size (k_mbs k b) then
       r = Done RT_EOK \<and> mb_contents (k_mbs k' b) = mb_contents (k_mbs k b) @ [v] \<and>
       k_lists k' (MbRecvWait b) = tl (k_lists k (MbRecvWait b)) \<and>
       k_lists k' (MbSendWait b) = k_lists k (MbSendWait b) \<and>
       (k_lists k (MbRecvWait b) \<noteq> [] \<longrightarrow> woken (t_stat (thr k' (hd (k_lists k (MbRecvWait b))))))
     else if timeout = 0 then r = Done (- RT_EFULL) \<and> k' = k
     else r = Blocked \<and> k_mbs k' = k_mbs k \<and> t_stat (thr k' c) = RT_THREAD_SUSPEND \<and>
       k_lists k' (MbSendWait b) = waiters_after (mb_flag (k_mbs k b)) (\<lambda>u. t_current_priority (thr k u)) c
         (k_lists k (MbSendWait b)) \<and>
       (ThreadTimer c \<in> set (k_timer_list k') \<longleftrightarrow> timeout > 0) \<and> (timeout > 0 \<longrightarrow> td = k_tick k))"
  using assms by (rule mailbox_send_effect)

theorem mailbox_send_spec_witness:
  "\<exists>k' r td. rt_mb_send_wait 0 7 0 sample = Some (k', r, td) \<and> r = Done RT_EOK \<and>
     mb_contents (k_mbs k' 0) = [7] \<and> woken (t_stat (thr k' 6))"
proof -
  have "mb_inv (k_mbs sample 0)" by (simp add: sample_def mb_inv_def)
  moreover have "k_current sample = Some 1" by simp
  ultimately show ?thesis
    using mailbox_send_spec[OF sample_inv sample_stacks_ok, of 1 0 0 7] sample_registered_types(5)
    by (auto simp: sample_def sample_lists_def mb_contents_def)
qed

lemma mailbox_recv_effect:
  assumes inv: "kernel_inv k" "stacks_ok k" and cur: "k_current k = Some c"
    and ty: "o_type (k_objects k (OMailBox b)) = RT_Object_Class_MailBox" and mb: "mb_inv (k_mbs k b)"
    and tm: "timeout < 2 ^ 31 - 1"
    and run: "mb_contents (k_mbs k b) = [] \<and> timeout \<noteq> 0 \<longrightarrow> running_thread k c"
  shows "\<exists>k' r td v'. rt_mb_recv b v timeout k = Some ((k', r, td), v') \<and> kernel_inv k' \<and> stacks_ok k' \<and>
    mb_inv (k_mbs k' b) \<and>
    (if mb_contents (k_mbs k b) \<noteq> [] then
       r = Done RT_EOK \<and> mb_contents (k_mbs k b) = v' # mb_contents (k_mbs k' b) \<and>
       k_lists k' (MbSendWait b) = tl (k_lists k (MbSendWait b)) \<and>
       k_lists k' (MbRecvWait b) = k_lists k (MbRecvWait b) \<and>
       (k_lists k (MbSendWait b) \<noteq> [] \<longrightarrow> woken (t_stat (thr k' (hd (k_lists k (MbSendWait b))))))
     else if timeout = 0 then r = Done (- RT_ETIMEOUT) \<and> k' = k \<and> v' = v
     else r = Blocked \<and> k_mbs k' = k_mbs k \<and> v' = v \<and> t_stat (thr k' c) = RT_THREAD_SUSPEND \<and>
       k_lists k' (MbRecvWait b) = waiters_after (mb_flag (k_mbs k b)) (\<lambda>u. t_current_priority (thr k u)) c
         (k_lists k (MbRecvWait b)) \<and>
       (ThreadTimer c \<in> set (k_timer_list k') \<longleftrightarrow> timeout > 0) \<and> (timeout > 0 \<longrightarrow> td = k_tick k))"
proof (cases "mb_contents (k_mbs k b)")
  case (Cons x xs)
  let ?k = "upd_mb b mb_take k"
  have ne: "mb_entry (k_mbs k b) \<noteq> 0" using Cons length_mb_contents[of "k_mbs k b"] by auto
  have h: "stat_of_list (MbSendWait b) = RT_THREAD_SUSPEND" by simp
  have i: "kernel_inv ?k" "stacks_ok ?k" "k_current ?k = Some c" using inv cur by simp_all
  from wake_one_effect[OF i(1,2) h i(3)] obtain k' where
    k': "wake_one (MbSendWait b) ?k = Some k'" "kernel_inv k'" "stacks_ok k'" "k_mbs k' = k_mbs ?k"
      "k_lists k' (MbSendWait b) = tl (k_lists k (MbSendWait b))"
      "\<forall>h'. stat_of_list h' = RT_THREAD_SUSPEND \<longrightarrow> h' \<noteq> MbSendWait b \<longrightarrow> k_lists k' h' = k_lists k h'"
      "k_lists k (MbSendWait b) \<noteq> [] \<longrightarrow> woken (t_stat (thr k' (hd (k_lists k (MbSendWait b)))))"
    by (auto simp only: upd_mb_sel)
  have "rt_mb_recv b v timeout k = Some ((k', Done RT_EOK, 0), mb_front (k_mbs k b))"
    using ne ty k'(1) by (auto simp: rt_mb_recv_def mb_recv_loop_def wake_one_def rt_object_get_type_def
        bind_eq_Some_conv split: if_splits)
  then show ?thesis using Cons k'(2-7) mb_take_ok[OF mb Cons] by simp
next
  case Nil
  then have empty: "mb_entry (k_mbs k b) = 0" using length_mb_contents[of "k_mbs k b"] by simp
  show ?thesis
  proof (cases "timeout = 0")
    case True
    then show ?thesis using empty Nil ty inv mb by (simp add: rt_mb_recv_def rt_object_get_type_def)
  next
    case nz: False
    have run: "running_thread k c" using run Nil nz by blast
    have h: "stat_of_list (MbRecvWait b) = RT_THREAD_SUSPEND" by simp
    from wait_round_effect[OF inv run h tm, of "mb_flag (k_mbs k b)" 0] obtain k' where
      k': "wait_round (MbRecvWait b) (mb_flag (k_mbs k b)) timeout 0 (upd_thr c (t_error_update (\<lambda>_. RT_EOK)) k) =
        Some (k', Blocked, if timeout > 0 then k_tick k else 0)" "kernel_inv k'" "stacks_ok k'" "same_ipc k k'"
      "k_lists k' (MbRecvWait b) = waiters_after (mb_flag (k_mbs k b)) (\<lambda>u. t_current_priority (thr k u)) c
         (k_lists k (MbRecvWait b))" "t_stat (thr k' c) = RT_THREAD_SUSPEND"
      "ThreadTimer c \<in> set (k_timer_list k') \<longleftrightarrow> timeout > 0" by blast
    have "rt_mb_recv b v timeout k = Some ((k', Blocked, if timeout > 0 then k_tick k else 0), v)"
      using empty nz ty cur k'(1)
      by (simp add: rt_mb_recv_def mb_recv_loop_def rt_object_get_type_def rt_thread_self_def)
    then show ?thesis using Nil nz k'(2-7) mb by (simp add: same_ipc_def)
  qed
qed

text \<open>C23. \<^verbatim>\<open>rt_mb_recv\<close> on a valid mailbox always reaches a result and keeps the kernel invariant: it
  hands out the oldest mail and wakes the first waiting sender; on an empty mailbox it answers a
  timeout at once when told not to wait, and otherwise the running thread joins the waiting
  receivers. The caller's value changes only with a mail.\<close>

theorem mailbox_recv_spec:
  assumes inv: "kernel_inv k" "stacks_ok k" and cur: "k_current k = Some c"
    and ty: "o_type (k_objects k (OMailBox b)) = RT_Object_Class_MailBox" and mb: "mb_inv (k_mbs k b)"
    and tm: "timeout < 2 ^ 31 - 1"
    and run: "mb_contents (k_mbs k b) = [] \<and> timeout \<noteq> 0 \<longrightarrow> running_thread k c"
  shows "\<exists>k' r td v'. rt_mb_recv b v timeout k = Some ((k', r, td), v') \<and> kernel_inv k' \<and> stacks_ok k' \<and>
    mb_inv (k_mbs k' b) \<and>
    (if mb_contents (k_mbs k b) \<noteq> [] then
       r = Done RT_EOK \<and> mb_contents (k_mbs k b) = v' # mb_contents (k_mbs k' b) \<and>
       k_lists k' (MbSendWait b) = tl (k_lists k (MbSendWait b)) \<and>
       k_lists k' (MbRecvWait b) = k_lists k (MbRecvWait b) \<and>
       (k_lists k (MbSendWait b) \<noteq> [] \<longrightarrow> woken (t_stat (thr k' (hd (k_lists k (MbSendWait b))))))
     else if timeout = 0 then r = Done (- RT_ETIMEOUT) \<and> k' = k \<and> v' = v
     else r = Blocked \<and> k_mbs k' = k_mbs k \<and> v' = v \<and> t_stat (thr k' c) = RT_THREAD_SUSPEND \<and>
       k_lists k' (MbRecvWait b) = waiters_after (mb_flag (k_mbs k b)) (\<lambda>u. t_current_priority (thr k u)) c
         (k_lists k (MbRecvWait b)) \<and>
       (ThreadTimer c \<in> set (k_timer_list k') \<longleftrightarrow> timeout > 0) \<and> (timeout > 0 \<longrightarrow> td = k_tick k))"
  using assms by (rule mailbox_recv_effect)

theorem mailbox_recv_spec_witness:
  "\<exists>k' r td v'. rt_mb_recv 0 9 20 sample = Some ((k', r, td), v') \<and> r = Blocked \<and> v' = 9 \<and>
     k_lists k' (MbRecvWait 0) = [6, 1] \<and> td = 100"
proof -
  have "mb_inv (k_mbs sample 0)" by (simp add: sample_def mb_inv_def)
  moreover have "k_current sample = Some 1" by simp
  ultimately show ?thesis
    using mailbox_recv_spec[OF sample_inv sample_stacks_ok, of 1 0 20 9] sample_registered_types(5) sample_running
    by (auto simp: sample_def sample_lists_def mb_contents_def waiters_after_def RT_IPC_FLAG_FIFO_def)
qed

text \<open>Whatever the interleaving of mails put into and taken out of the ring, the mails taken out so
  far followed by those still in it are the ones it held followed by the accepted ones, in order,
  and it never holds more than its size.\<close>

theorem mailbox_ring_fifo:
  assumes "mb_inv mb" "fifo_run mb_push_try mb_pop_try mb ops = (mb', acc, out)"
  shows "mb_inv mb' \<and> mb_contents mb @ acc = out @ mb_contents mb' \<and>
    length (mb_contents mb') \<le> mb_size mb"
  using mbq.run_fifo[OF assms] mbq.run_bounded[OF assms] by blast

theorem mailbox_ring_fifo_witness:
  "\<exists>mb'. fifo_run mb_push_try mb_pop_try (new_mailbox 0 [0, 0] 2) [Push 5, Push 6, Push 7, Pop, Push 8, Pop] =
     (mb', [5, 6, 8], [5, 6]) \<and> mb_contents mb' = [8] \<and> mb_inv mb'"
proof -
  have "mb_inv (new_mailbox 0 [0, 0] 2)" by (simp add: mb_inv_def new_mailbox_def)
  from mailbox_ring_fifo[OF this, of "[Push 5, Push 6, Push 7, Pop, Push 8, Pop]"] show ?thesis
    by (simp add: mb_push_try_def mb_pop_try_def mb_put_def mb_take_def mb_front_def new_mailbox_def mb_contents_def)
qed

text \<open>The time a woken thread still may wait is its timeout less the ticks that have passed, and
  never negative, as long as fewer than \<open>2 ^ 31\<close> ticks have passed, around the wrap of the tick; an
  unlimited wait stays unlimited.\<close>

theorem time_left_exact:
  assumes "timeout < 2 ^ 31" "unat (k_tick k - start) < 2 ^ 31"
  shows "time_left timeout start k =
    (if timeout > 0 then max 0 (timeout - uint (k_tick k - start)) else timeout)"
proof (cases "timeout > 0")
  case True
  let ?e = "uint (k_tick k - start)"
  have "?e = int (unat (k_tick k - start))" by (rule uint_nat)
  moreover have "int (unat (k_tick k - start)) < int (2 ^ 31)" using assms(2) by (rule iffD2[OF of_nat_less_iff])
  moreover have "int (2 ^ 31) = 2147483648" by simp
  ultimately have e: "0 \<le> ?e" "?e < 2147483648" by linarith+
  have p31: "(2 :: int) ^ 31 = 2147483648" by simp
  have w: "word_of_int timeout - (k_tick k - start) = word_of_int (timeout - ?e)" by simp
  have "sint (word_of_int (timeout - ?e) :: u32) = signed_take_bit 31 (timeout - ?e)"
    by (simp only: signed_of_int) simp
  also have "\<dots> = timeout - ?e"
  proof (rule signed_take_bit_int_eq_self)
    have "timeout < 2147483648" using assms(1) by simp
    then have "timeout - ?e < 2147483648" "- 2147483648 \<le> timeout - ?e" using True e by linarith+
    then show "timeout - ?e < 2 ^ 31" "- (2 ^ 31) \<le> timeout - ?e" unfolding p31 .
  qed
  finally show ?thesis using True by (simp only: time_left_def rt_tick_get_def w if_True)
qed (simp add: time_left_def)

theorem time_left_exact_witness:
  "time_left 50 (- 10) (sample\<lparr>k_tick := 20\<rparr>) = 20"
  using time_left_exact[of 50 "sample\<lparr>k_tick := 20\<rparr>" "- 10"] by simp

end
