(* ===== verification/MessageQueue.thy ===== *)
theory MessageQueue
  imports Mailbox
begin

text \<open>
  The message queue of \<^verbatim>\<open>src/ipc.c\<close>. Slots of the pool are numbered; the link in front of each
  payload chains them into the queue and into the free list. Sending and receiving are two critical
  sections with a copy between them, during which the slot is in neither chain; the sections are
  separate definitions, so that any interleaving of senders and receivers can be described.
\<close>

section \<open>The critical sections\<close>

text \<open>The loop that builds the free list, for the slots below \<open>n\<close>.\<close>

fun mq_link_free :: "nat \<Rightarrow> rt_messagequeue \<Rightarrow> rt_messagequeue" where
  "mq_link_free 0 q = q"
| "mq_link_free (Suc n) q =
     (let q = mq_link_free n q in q\<lparr>mq_free := Some n, mq_next := (mq_next q)(n := mq_free q)\<rparr>)"

text \<open>The fields have 16 bits. \<open>pool\<close> is what the slots' memory holds.\<close>

definition new_mq :: "nat \<Rightarrow> nat \<Rightarrow> nat \<Rightarrow> (nat \<Rightarrow> u8 list) \<Rightarrow> rt_messagequeue" where
  "new_mq flag msg_size max_msgs pool =
     mq_link_free (max_msgs mod 0x10000)
       \<lparr>mq_flag = flag, mq_msg_size = msg_size mod 0x10000, mq_max_msgs = max_msgs mod 0x10000, mq_entry = 0,
        mq_head = None, mq_tail = None, mq_free = None, mq_next = (\<lambda>_. None), mq_data = pool\<rparr>"

definition mq_take_free :: "rt_messagequeue \<Rightarrow> (rt_messagequeue \<times> nat) option" where
  "mq_take_free q =
     (case mq_free q of None \<Rightarrow> None | Some m \<Rightarrow> Some (q\<lparr>mq_free := mq_next q m\<rparr>, m))"

definition mq_fill :: "nat \<Rightarrow> u8 list \<Rightarrow> nat \<Rightarrow> rt_messagequeue \<Rightarrow> rt_messagequeue" where
  "mq_fill m buffer sz q = q\<lparr>mq_data := (mq_data q)(m := mem_put (mq_data q m) 0 buffer sz)\<rparr>"

definition mq_append :: "nat \<Rightarrow> rt_messagequeue \<Rightarrow> rt_messagequeue" where
  "mq_append m q =
     (let q = (case mq_tail q of None \<Rightarrow> q | Some t \<Rightarrow> q\<lparr>mq_next := (mq_next q)(t := Some m)\<rparr>);
          q = q\<lparr>mq_tail := Some m\<rparr>;
          q = (if mq_head q = None then q\<lparr>mq_head := Some m\<rparr> else q)
      in q\<lparr>mq_entry := mq_entry q + 1\<rparr>)"

definition mq_prepend :: "nat \<Rightarrow> rt_messagequeue \<Rightarrow> rt_messagequeue" where
  "mq_prepend m q =
     (let q = q\<lparr>mq_next := (mq_next q)(m := mq_head q)\<rparr>;
          q = q\<lparr>mq_head := Some m\<rparr>;
          q = (if mq_tail q = None then q\<lparr>mq_tail := Some m\<rparr> else q)
      in q\<lparr>mq_entry := mq_entry q + 1\<rparr>)"

text \<open>\<open>None\<close>: the null dereference on an empty chain.\<close>

definition mq_unlink_head :: "rt_messagequeue \<Rightarrow> (rt_messagequeue \<times> nat) option" where
  "mq_unlink_head q =
     (case mq_head q of
        None \<Rightarrow> None
      | Some m \<Rightarrow>
          let q = q\<lparr>mq_head := mq_next q m\<rparr>;
              q = (if mq_tail q = Some m then q\<lparr>mq_tail := None\<rparr> else q)
          in Some (q, m))"

definition mq_take_head :: "rt_messagequeue \<Rightarrow> (rt_messagequeue \<times> nat) option" where
  "mq_take_head q = do { (q, m) \<leftarrow> mq_unlink_head q; Some (q\<lparr>mq_entry := mq_entry q - 1\<rparr>, m) }"

definition mq_put_free :: "nat \<Rightarrow> rt_messagequeue \<Rightarrow> rt_messagequeue" where
  "mq_put_free m q = q\<lparr>mq_free := Some m, mq_next := (mq_next q)(m := mq_free q)\<rparr>"

text \<open>The loop of \<^verbatim>\<open>rt_mq_control\<close>.\<close>

partial_function (option) mq_flush :: "rt_messagequeue \<Rightarrow> rt_messagequeue option" where
  "mq_flush q =
     (case mq_unlink_head q of
        None \<Rightarrow> Some q
      | Some r \<Rightarrow> mq_flush (mq_put_free (snd r) (fst r)))"

section \<open>Operations\<close>

definition upd_mq :: "nat \<Rightarrow> (rt_messagequeue \<Rightarrow> rt_messagequeue) \<Rightarrow> kernel \<Rightarrow> kernel" where
  "upd_mq i f k = k\<lparr>k_mqs := (k_mqs k)(i := f (k_mqs k i))\<rparr>"

text \<open>\<^verbatim>\<open>sizeof(struct rt_mq_message)\<close> is 4.\<close>

definition rt_mq_init ::
  "nat \<Rightarrow> string \<Rightarrow> (nat \<Rightarrow> u8 list) \<Rightarrow> nat \<Rightarrow> nat \<Rightarrow> nat \<Rightarrow> kernel \<Rightarrow> kernel option" where
  "rt_mq_init i name msgpool msg_size pool_size flag k = do {
     k \<leftarrow> rt_object_init (OMq i) RT_Object_Class_MessageQueue name k;
     let k = rt_ipc_object_init (MqWait i) k;
     let sz = RT_ALIGN msg_size RT_ALIGN_SIZE;
     Some (upd_mq i (\<lambda>_. new_mq flag sz (pool_size div (sz mod 0x10000 + 4)) msgpool) k) }"

definition rt_mq_detach :: "nat \<Rightarrow> kernel \<Rightarrow> kernel option" where
  "rt_mq_detach i k = do {
     rt_assert (rt_object_get_type k (OMq i) = RT_Object_Class_MessageQueue);
     rt_assert (rt_object_is_systemobject k (OMq i));
     k \<leftarrow> rt_ipc_list_resume_all (MqWait i) k;
     Some (rt_object_detach (OMq i) k) }"

definition rt_mq_delete :: "nat \<Rightarrow> kernel \<Rightarrow> kernel option" where
  "rt_mq_delete i k = do {
     rt_debug_not_in_interrupt k;
     rt_assert (rt_object_get_type k (OMq i) = RT_Object_Class_MessageQueue);
     rt_assert (\<not> rt_object_is_systemobject k (OMq i));
     k \<leftarrow> rt_ipc_list_resume_all (MqWait i) k;
     rt_object_delete (OMq i) k }"

definition rt_mq_create ::
  "nat option \<Rightarrow> (nat \<Rightarrow> u8 list) option \<Rightarrow> string \<Rightarrow> nat \<Rightarrow> nat \<Rightarrow> nat \<Rightarrow> kernel \<Rightarrow> (kernel \<times> nat option) option" where
  "rt_mq_create mem pool name msg_size max_msgs flag k = do {
     rt_debug_not_in_interrupt k;
     (k, ob) \<leftarrow> rt_object_allocate (map_option OMq mem) RT_Object_Class_MessageQueue name k;
     (case mem of
        None \<Rightarrow> Some (k, None)
      | Some i \<Rightarrow>
          let k = rt_ipc_object_init (MqWait i) k in
          (case pool of
             None \<Rightarrow> do { k \<leftarrow> rt_mq_delete i k; Some (k, None) }
           | Some p \<Rightarrow> Some (upd_mq i (\<lambda>_. new_mq flag (RT_ALIGN msg_size RT_ALIGN_SIZE) max_msgs p) k, Some i))) }"

text \<open>The first section of \<^verbatim>\<open>rt_mq_send\<close> and \<^verbatim>\<open>rt_mq_urgent\<close>: an error or the slot taken.\<close>

definition mq_send_begin :: "nat \<Rightarrow> nat \<Rightarrow> kernel \<Rightarrow> (kernel \<times> (int + nat)) option" where
  "mq_send_begin i sz k = do {
     rt_assert (rt_object_get_type k (OMq i) = RT_Object_Class_MessageQueue);
     rt_assert (sz \<noteq> 0);
     if sz > mq_msg_size (k_mqs k i) then Some (k, Inl (- RT_ERROR))
     else (case mq_take_free (k_mqs k i) of
             None \<Rightarrow> Some (k, Inl (- RT_EFULL))
           | Some (q, m) \<Rightarrow> Some (upd_mq i (\<lambda>_. q) k, Inr m)) }"

text \<open>The copy, the second section with the link operation, and waking a receiver.\<close>

definition mq_send_end ::
  "(nat \<Rightarrow> rt_messagequeue \<Rightarrow> rt_messagequeue) \<Rightarrow> nat \<Rightarrow> nat \<Rightarrow> u8 list \<Rightarrow> nat \<Rightarrow> kernel \<Rightarrow> kernel option" where
  "mq_send_end link i m buffer sz k = do {
     let k = upd_mq i (link m \<circ> mq_fill m buffer sz) k;
     if k_lists k (MqWait i) \<noteq> [] then do {
       k \<leftarrow> rt_ipc_list_resume (MqWait i) k;
       rt_schedule k }
     else Some k }"

definition rt_mq_send :: "nat \<Rightarrow> u8 list \<Rightarrow> nat \<Rightarrow> kernel \<Rightarrow> (kernel \<times> int) option" where
  "rt_mq_send i buffer sz k = do {
     (k, r) \<leftarrow> mq_send_begin i sz k;
     (case r of
        Inl err \<Rightarrow> Some (k, err)
      | Inr m \<Rightarrow> do {
          k \<leftarrow> mq_send_end (\<lambda>m q. mq_append m (q\<lparr>mq_next := (mq_next q)(m := None)\<rparr>)) i m buffer sz k;
          Some (k, RT_EOK) }) }"

definition rt_mq_urgent :: "nat \<Rightarrow> u8 list \<Rightarrow> nat \<Rightarrow> kernel \<Rightarrow> (kernel \<times> int) option" where
  "rt_mq_urgent i buffer sz k = do {
     (k, r) \<leftarrow> mq_send_begin i sz k;
     (case r of
        Inl err \<Rightarrow> Some (k, err)
      | Inr m \<Rightarrow> do { k \<leftarrow> mq_send_end mq_prepend i m buffer sz k; Some (k, RT_EOK) }) }"

text \<open>\<open>buffer\<close> is the caller's memory before and after.\<close>

definition mq_recv_loop ::
  "nat \<Rightarrow> u8 list \<Rightarrow> nat \<Rightarrow> int \<Rightarrow> rt_tick_t \<Rightarrow> kernel \<Rightarrow> ((kernel \<times> ipc_result \<times> rt_tick_t) \<times> u8 list) option" where
  "mq_recv_loop i buffer sz timeout tick_delta k =
     (if mq_entry (k_mqs k i) = 0 then do {
        rt_debug_in_thread_context k;
        t \<leftarrow> rt_thread_self k;
        let k = upd_thr t (t_error_update (\<lambda>_. RT_EOK)) k;
        if timeout = 0 then
          Some ((upd_thr t (t_error_update (\<lambda>_. - RT_ETIMEOUT)) k, Done (- RT_ETIMEOUT), tick_delta), buffer)
        else do {
          r \<leftarrow> wait_round (MqWait i) (mq_flag (k_mqs k i)) timeout tick_delta k;
          Some (r, buffer) } }
      else do {
        (q, m) \<leftarrow> mq_take_head (k_mqs k i);
        let buffer = mem_put buffer 0 (mq_data q m) (if sz > mq_msg_size q then mq_msg_size q else sz);
        Some ((upd_mq i (\<lambda>_. mq_put_free m q) k, Done RT_EOK, tick_delta), buffer) })"

definition rt_mq_recv ::
  "nat \<Rightarrow> u8 list \<Rightarrow> nat \<Rightarrow> int \<Rightarrow> kernel \<Rightarrow> ((kernel \<times> ipc_result \<times> rt_tick_t) \<times> u8 list) option" where
  "rt_mq_recv i buffer sz timeout k = do {
     rt_assert (rt_object_get_type k (OMq i) = RT_Object_Class_MessageQueue);
     rt_assert (sz \<noteq> 0);
     if mq_entry (k_mqs k i) = 0 \<and> timeout = 0 then Some ((k, Done (- RT_ETIMEOUT), 0), buffer)
     else mq_recv_loop i buffer sz timeout 0 k }"

definition rt_mq_recv_resume ::
  "nat \<Rightarrow> nat \<Rightarrow> u8 list \<Rightarrow> nat \<Rightarrow> int \<Rightarrow> rt_tick_t \<Rightarrow> kernel \<Rightarrow> ((kernel \<times> ipc_result \<times> rt_tick_t) \<times> u8 list) option" where
  "rt_mq_recv_resume i t buffer sz timeout tick_delta k =
     (if t_error (thr k t) \<noteq> RT_EOK then Some ((k, Done (t_error (thr k t)), tick_delta), buffer)
      else mq_recv_loop i buffer sz (time_left timeout tick_delta k)
             (if timeout > 0 then rt_tick_get k - tick_delta else tick_delta) k)"

definition rt_mq_control :: "nat \<Rightarrow> int \<Rightarrow> kernel \<Rightarrow> (kernel \<times> int) option" where
  "rt_mq_control i cmd k = do {
     rt_assert (rt_object_get_type k (OMq i) = RT_Object_Class_MessageQueue);
     if cmd = RT_IPC_CMD_RESET then do {
       k \<leftarrow> rt_ipc_list_resume_all (MqWait i) k;
       q \<leftarrow> mq_flush (k_mqs k i);
       k \<leftarrow> rt_schedule (upd_mq i (\<lambda>_. q\<lparr>mq_entry := 0\<rparr>) k);
       Some (k, RT_EOK) }
     else Some (k, - RT_ERROR) }"

section \<open>Chains\<close>

text \<open>\<open>chain nx p xs\<close>: following the links from \<open>p\<close> visits exactly \<open>xs\<close>.\<close>

fun chain :: "(nat \<Rightarrow> nat option) \<Rightarrow> nat option \<Rightarrow> nat list \<Rightarrow> bool" where
  "chain nx p [] \<longleftrightarrow> p = None"
| "chain nx p (x # xs) \<longleftrightarrow> p = Some x \<and> chain nx (nx x) xs"

lemma chain_upd [simp]: "i \<notin> set xs \<Longrightarrow> chain (nx(i := v)) p xs = chain nx p xs"
  by (induction xs arbitrary: p) auto

lemma chain_None [simp]: "chain nx None xs \<longleftrightarrow> xs = []"
  by (cases xs) auto

lemma chain_Some: "chain nx (Some x) xs \<longleftrightarrow> (\<exists>ys. xs = x # ys \<and> chain nx (nx x) ys)"
  by (cases xs) auto

lemma chain_unique: "chain nx p xs \<Longrightarrow> chain nx p ys \<Longrightarrow> xs = ys"
  by (induction xs arbitrary: p ys) (auto simp: chain_Some)

lemma chain_snoc:
  "chain nx p xs \<Longrightarrow> xs \<noteq> [] \<Longrightarrow> distinct xs \<Longrightarrow> m \<notin> set xs \<Longrightarrow> nx m = None \<Longrightarrow>
   chain (nx(last xs := Some m)) p (xs @ [m])"
proof (induction xs arbitrary: p)
  case (Cons x xs)
  show ?case
  proof (cases "xs = []")
    case False
    then have "last xs \<in> set xs" by simp
    then show ?thesis using Cons False by auto
  qed (use Cons.prems in auto)
qed simp

text \<open>The chain as a list, for at most \<open>n\<close> links.\<close>

fun walk :: "(nat \<Rightarrow> nat option) \<Rightarrow> nat \<Rightarrow> nat option \<Rightarrow> nat list" where
  "walk nx 0 p = []"
| "walk nx (Suc n) p = (case p of None \<Rightarrow> [] | Some x \<Rightarrow> x # walk nx n (nx x))"

lemma walk_chain: "chain nx p xs \<Longrightarrow> length xs \<le> n \<Longrightarrow> walk nx n p = xs"
proof (induction xs arbitrary: p n)
  case Nil
  then show ?case by (cases n) auto
next
  case (Cons x xs)
  then show ?case by (cases n) auto
qed

section \<open>The slots of a queue\<close>

text \<open>The messages \<open>ms\<close> in order, the free slots \<open>fs\<close> and the slots in flight \<open>fl\<close> are all slots, each once.\<close>

definition mq_rep :: "rt_messagequeue \<Rightarrow> nat list \<Rightarrow> nat list \<Rightarrow> nat list \<Rightarrow> bool" where
  "mq_rep q ms fs fl \<longleftrightarrow> chain (mq_next q) (mq_head q) ms \<and> chain (mq_next q) (mq_free q) fs \<and>
     distinct (ms @ fs @ fl) \<and> set (ms @ fs @ fl) = {..<mq_max_msgs q} \<and> mq_entry q = length ms \<and>
     mq_tail q = (if ms = [] then None else Some (last ms)) \<and>
     (\<forall>i < mq_max_msgs q. length (mq_data q i) = mq_msg_size q)"

definition mq_slots :: "rt_messagequeue \<Rightarrow> nat list" where
  "mq_slots q = walk (mq_next q) (mq_max_msgs q) (mq_head q)"

definition mq_frees :: "rt_messagequeue \<Rightarrow> nat list" where
  "mq_frees q = walk (mq_next q) (mq_max_msgs q) (mq_free q)"

definition mq_contents :: "rt_messagequeue \<Rightarrow> u8 list list" where
  "mq_contents q = map (mq_data q) (mq_slots q)"

definition mq_inv :: "rt_messagequeue \<Rightarrow> nat list \<Rightarrow> bool" where
  "mq_inv q fl \<longleftrightarrow> mq_rep q (mq_slots q) (mq_frees q) fl"

lemma mq_rep_length: "mq_rep q ms fs fl \<Longrightarrow> length ms + length fs + length fl = mq_max_msgs q"
  by (metis mq_rep_def card_lessThan distinct_card length_append add.assoc)

lemma mq_rep_unique:
  assumes "mq_rep q ms fs fl" shows "mq_slots q = ms \<and> mq_frees q = fs \<and> mq_inv q fl"
proof -
  have "length ms \<le> mq_max_msgs q" "length fs \<le> mq_max_msgs q" using mq_rep_length[OF assms] by simp_all
  then have "mq_slots q = ms" "mq_frees q = fs"
    using assms by (simp_all add: mq_slots_def mq_frees_def mq_rep_def walk_chain)
  then show ?thesis using assms by (simp add: mq_inv_def)
qed

lemmas mq_rep_inv = mq_rep_unique[THEN conjunct2, THEN conjunct2]
lemmas mq_rep_slots = mq_rep_unique[THEN conjunct1]

lemma mq_link_free_sel [simp]:
  "mq_flag (mq_link_free n q) = mq_flag q" "mq_msg_size (mq_link_free n q) = mq_msg_size q"
  "mq_max_msgs (mq_link_free n q) = mq_max_msgs q" "mq_entry (mq_link_free n q) = mq_entry q"
  "mq_head (mq_link_free n q) = mq_head q" "mq_tail (mq_link_free n q) = mq_tail q"
  "mq_data (mq_link_free n q) = mq_data q"
  by (induction n) (simp_all add: Let_def)

lemma chain_link_free:
  "mq_free q = None \<Longrightarrow> chain (mq_next (mq_link_free n q)) (mq_free (mq_link_free n q)) (rev [0 ..< n])"
  by (induction n) (simp_all add: Let_def)

lemma mq_rep_new:
  assumes "\<forall>i < n mod 0x10000. length (pool i) = msz mod 0x10000"
  shows "mq_rep (new_mq flag msz n pool) [] (rev [0 ..< n mod 0x10000]) []"
  using assms chain_link_free by (auto simp: mq_rep_def new_mq_def)

lemma mq_take_free_rep:
  assumes "mq_rep q ms fs fl"
  shows "mq_take_free q = (case fs of [] \<Rightarrow> None | m # _ \<Rightarrow> Some (q\<lparr>mq_free := mq_next q m\<rparr>, m)) \<and>
    (fs = m # gs \<longrightarrow> mq_rep (q\<lparr>mq_free := mq_next q m\<rparr>) ms gs (m # fl))"
  using assms by (cases fs) (auto simp: mq_rep_def mq_take_free_def)

lemma mq_fill_rep:
  assumes "mq_rep q ms fs fl" "m \<in> set fl" "sz \<le> mq_msg_size q" "sz \<le> length buffer"
  shows "mq_rep (mq_fill m buffer sz q) ms fs fl"
  using assms by (auto simp: mq_rep_def mq_fill_def)

lemma mq_append_rep:
  assumes r: "mq_rep q ms fs fl" and m: "m \<in> set fl"
  shows "mq_rep (mq_append m (q\<lparr>mq_next := (mq_next q)(m := None)\<rparr>)) (ms @ [m]) fs (remove1 m fl)"
proof -
  have d: "m \<notin> set ms" "m \<notin> set fs" "distinct ms" using r m by (auto simp: mq_rep_def)
  let ?nx = "(mq_next q)(m := None)"
  have c: "chain ?nx (mq_head q) ms" "chain ?nx (mq_free q) fs" using r d by (simp_all add: mq_rep_def)
  have s: "set (remove1 m fl) = set fl - {m}" "distinct (remove1 m fl)" using r by (auto simp: mq_rep_def)
  show ?thesis
  proof (cases "ms = []")
    case True
    then show ?thesis using r m d s c by (auto simp: mq_rep_def mq_append_def Let_def)
  next
    case False
    then have "last ms \<notin> set fs" using r last_in_set[OF False] by (auto simp: mq_rep_def disjoint_iff)
    moreover have "mq_head q \<noteq> None" using r False by (cases ms) (auto simp: mq_rep_def)
    moreover have "chain (?nx(last ms := Some m)) (mq_head q) (ms @ [m])"
      by (rule chain_snoc) (use c False d in auto)
    ultimately show ?thesis using r m d s c False by (auto simp: mq_rep_def mq_append_def Let_def)
  qed
qed

lemma mq_prepend_rep:
  assumes r: "mq_rep q ms fs fl" and m: "m \<in> set fl"
  shows "mq_rep (mq_prepend m q) (m # ms) fs (remove1 m fl)"
proof -
  have d: "m \<notin> set ms" "m \<notin> set fs" "distinct ms" using r m by (auto simp: mq_rep_def)
  have s: "set (remove1 m fl) = set fl - {m}" "distinct (remove1 m fl)" using r by (auto simp: mq_rep_def)
  show ?thesis using r m d s by (cases ms) (auto simp: mq_rep_def mq_prepend_def Let_def)
qed

lemma mq_unlink_head_rep:
  assumes r: "mq_rep q (m # ms) fs fl"
  shows "\<exists>q'. mq_unlink_head q = Some (q', m) \<and> mq_rep (q'\<lparr>mq_entry := length ms\<rparr>) ms fs (m # fl) \<and>
    mq_entry q' = mq_entry q \<and> mq_data q' = mq_data q \<and> mq_msg_size q' = mq_msg_size q \<and>
    mq_max_msgs q' = mq_max_msgs q \<and> mq_flag q' = mq_flag q"
proof -
  have "ms \<noteq> [] \<Longrightarrow> last ms \<noteq> m" using r by (auto simp: mq_rep_def)
  then show ?thesis using r by (auto simp: mq_rep_def mq_unlink_head_def Let_def)
qed

lemma mq_take_head_rep:
  assumes r: "mq_rep q (m # ms) fs fl"
  shows "\<exists>q'. mq_take_head q = Some (q', m) \<and> mq_rep q' ms fs (m # fl) \<and> mq_data q' = mq_data q \<and>
    mq_msg_size q' = mq_msg_size q"
proof -
  obtain q' where q': "mq_unlink_head q = Some (q', m)" "mq_rep (q'\<lparr>mq_entry := length ms\<rparr>) ms fs (m # fl)"
    "mq_entry q' = mq_entry q" "mq_data q' = mq_data q" "mq_msg_size q' = mq_msg_size q"
    using mq_unlink_head_rep[OF r] by blast
  moreover have "mq_entry q - 1 = length ms" using r by (simp add: mq_rep_def)
  ultimately show ?thesis by (simp add: mq_take_head_def)
qed

lemma mq_put_free_rep:
  assumes r: "mq_rep q ms fs fl" and m: "m \<in> set fl"
  shows "mq_rep (mq_put_free m q) ms (m # fs) (remove1 m fl)"
proof -
  have d: "m \<notin> set ms" "m \<notin> set fs" using r m by (auto simp: mq_rep_def)
  have s: "set (remove1 m fl) = set fl - {m}" "distinct (remove1 m fl)" using r by (auto simp: mq_rep_def)
  show ?thesis using r m d s by (auto simp: mq_rep_def mq_put_free_def)
qed

text \<open>The flush ends and moves every message's slot to the free list.\<close>

lemma mq_flush_rep:
  "mq_rep (q\<lparr>mq_entry := length ms\<rparr>) ms fs fl \<Longrightarrow>
   \<exists>q'. mq_flush q = Some q' \<and> mq_rep (q'\<lparr>mq_entry := 0\<rparr>) [] (rev ms @ fs) fl \<and>
     mq_msg_size q' = mq_msg_size q \<and> mq_max_msgs q' = mq_max_msgs q"
proof (induction ms arbitrary: q fs)
  case Nil
  then have "mq_unlink_head q = None" by (simp add: mq_rep_def mq_unlink_head_def)
  then show ?case using Nil by (subst mq_flush.simps) (simp add: mq_rep_def)
next
  case (Cons m ms)
  let ?q = "q\<lparr>mq_entry := length (m # ms)\<rparr>"
  obtain q1 where q1: "mq_unlink_head ?q = Some (q1, m)" "mq_rep (q1\<lparr>mq_entry := length ms\<rparr>) ms fs (m # fl)"
    "mq_msg_size q1 = mq_msg_size q" "mq_max_msgs q1 = mq_max_msgs q"
    using mq_unlink_head_rep[OF Cons.prems] by auto
  obtain q2 where q2: "mq_unlink_head q = Some (q2, m)" "q1\<lparr>mq_entry := length ms\<rparr> = q2\<lparr>mq_entry := length ms\<rparr>"
    using q1(1) by (auto simp: mq_unlink_head_def Let_def split: option.splits if_splits)
  have "mq_rep (mq_put_free m (q2\<lparr>mq_entry := length ms\<rparr>)) ms (m # fs) (remove1 m (m # fl))"
    by (rule mq_put_free_rep) (use q1(2) q2(2) in simp_all)
  then have "mq_rep ((mq_put_free m q2)\<lparr>mq_entry := length ms\<rparr>) ms (m # fs) fl"
    by (simp add: mq_put_free_def mq_rep_def)
  from Cons.IH[OF this] obtain q' where "mq_flush (mq_put_free m q2) = Some q'"
    "mq_rep (q'\<lparr>mq_entry := 0\<rparr>) [] (rev ms @ m # fs) fl"
    "mq_msg_size q' = mq_msg_size q2" "mq_max_msgs q' = mq_max_msgs q2"
    by (auto simp: mq_put_free_def)
  moreover have "mq_msg_size q2 = mq_msg_size q" "mq_max_msgs q2 = mq_max_msgs q"
    using q2(1) by (auto simp: mq_unlink_head_def Let_def split: option.splits if_splits)
  ultimately show ?case using q2(1) by (subst mq_flush.simps) simp
qed

section \<open>Any interleaving of the critical sections\<close>

text \<open>A state is a queue and the slots in flight: taken for sending or receiving and not yet put back.\<close>

inductive mq_step :: "rt_messagequeue \<times> nat list \<Rightarrow> rt_messagequeue \<times> nat list \<Rightarrow> bool" where
  take_free: "mq_take_free q = Some (q', m) \<Longrightarrow> mq_step (q, fl) (q', m # fl)"
| send: "m \<in> set fl \<Longrightarrow> sz \<le> mq_msg_size q \<Longrightarrow> sz \<le> length buffer \<Longrightarrow>
    q' = (let q1 = mq_fill m buffer sz q in mq_append m (q1\<lparr>mq_next := (mq_next q1)(m := None)\<rparr>)) \<Longrightarrow>
    mq_step (q, fl) (q', remove1 m fl)"
| urgent: "m \<in> set fl \<Longrightarrow> sz \<le> mq_msg_size q \<Longrightarrow> sz \<le> length buffer \<Longrightarrow>
    mq_step (q, fl) (mq_prepend m (mq_fill m buffer sz q), remove1 m fl)"
| take_head: "mq_entry q \<noteq> 0 \<Longrightarrow> mq_take_head q = Some (q', m) \<Longrightarrow> mq_step (q, fl) (q', m # fl)"
| put_free: "m \<in> set fl \<Longrightarrow> mq_step (q, fl) (mq_put_free m q, remove1 m fl)"
| reset: "mq_flush q = Some q' \<Longrightarrow> mq_step (q, fl) (q'\<lparr>mq_entry := 0\<rparr>, fl)"

lemma mq_fill_sel [simp]:
  "mq_next (mq_fill m buffer sz q) = mq_next q" "mq_msg_size (mq_fill m buffer sz q) = mq_msg_size q"
  "mq_max_msgs (mq_fill m buffer sz q) = mq_max_msgs q" "mq_entry (mq_fill m buffer sz q) = mq_entry q"
  by (simp_all add: mq_fill_def)

lemma mq_max_sel [simp]:
  "mq_max_msgs (mq_append m q) = mq_max_msgs q" "mq_max_msgs (mq_prepend m q) = mq_max_msgs q"
  "mq_max_msgs (mq_put_free m q) = mq_max_msgs q"
  by (simp_all add: mq_append_def mq_prepend_def mq_put_free_def Let_def split: option.split)

lemma mq_step_inv:
  assumes "mq_step (q, fl) (q', fl')" "mq_inv q fl"
  shows "mq_inv q' fl' \<and> mq_max_msgs q' = mq_max_msgs q"
proof -
  have r: "mq_rep q (mq_slots q) (mq_frees q) fl" using assms(2) by (simp add: mq_inv_def)
  from assms(1) show ?thesis
  proof cases
    case (take_free m)
    then obtain gs where g: "mq_frees q = m # gs" "q' = q\<lparr>mq_free := mq_next q m\<rparr>"
      using mq_take_free_rep[OF r] by (auto split: list.splits)
    then show ?thesis using mq_take_free_rep[OF r, of m gs] take_free mq_rep_inv by auto
  next
    case (send m sz buffer)
    from mq_append_rep[OF mq_fill_rep[OF r send(2-4)] send(2)] show ?thesis
      using send mq_rep_inv by (auto simp: Let_def)
  next
    case (urgent m sz buffer)
    from mq_prepend_rep[OF mq_fill_rep[OF r urgent(3-5)] urgent(3)] show ?thesis
      using urgent mq_rep_inv by auto
  next
    case (take_head m)
    then obtain x ms where m: "mq_slots q = x # ms"
      using r by (cases "mq_slots q") (auto simp: mq_rep_def)
    obtain q1 where "mq_take_head q = Some (q1, x)" "mq_rep q1 ms (mq_frees q) (x # fl)"
      using mq_take_head_rep[OF r[unfolded m]] by blast
    moreover have "mq_max_msgs q' = mq_max_msgs q"
      using take_head by (auto simp: mq_take_head_def mq_unlink_head_def Let_def split: option.splits if_splits)
    ultimately show ?thesis using take_head mq_rep_inv by auto
  next
    case (put_free m)
    from mq_put_free_rep[OF r put_free(3)] show ?thesis using put_free mq_rep_inv by auto
  next
    case (reset q1)
    have "mq_rep (q\<lparr>mq_entry := length (mq_slots q)\<rparr>) (mq_slots q) (mq_frees q) fl"
      using r by (simp add: mq_rep_def)
    from mq_flush_rep[OF this] reset show ?thesis using mq_rep_inv by auto
  qed
qed

text \<open>C19. Whatever the interleaving of senders, urgent senders, receivers and resets of a message queue,
  interrupted between their critical sections, every slot of the pool is in the queue, in the free
  list or held by exactly one caller, once, and the entry count is the number of queued messages.\<close>

theorem mq_slots_conserved:
  assumes steps: "mq_step\<^sup>*\<^sup>* (new_mq flag msz n pool, []) (q, fl)"
    and pool: "\<forall>i < n mod 0x10000. length (pool i) = msz mod 0x10000"
  shows "distinct (mq_slots q @ mq_frees q @ fl) \<and> set (mq_slots q @ mq_frees q @ fl) = {..<n mod 0x10000} \<and>
    mq_entry q = length (mq_slots q) \<and> (mq_take_free q = None \<longleftrightarrow> mq_entry q + length fl = n mod 0x10000)"
proof -
  have "mq_inv (fst (q, fl)) (snd (q, fl)) \<and> mq_max_msgs (fst (q, fl)) = n mod 0x10000"
    using steps
  proof (induction rule: rtranclp_induct)
    case base
    show ?case using mq_rep_inv[OF mq_rep_new[OF pool]] by (simp add: new_mq_def)
  next
    case (step s s')
    then show ?case using mq_step_inv[of "fst s" "snd s" "fst s'" "snd s'"] by simp
  qed
  then have r: "mq_rep q (mq_slots q) (mq_frees q) fl" "mq_max_msgs q = n mod 0x10000"
    by (simp_all add: mq_inv_def)
  have "mq_take_free q = None \<longleftrightarrow> mq_frees q = []"
    using mq_take_free_rep[OF r(1)] by (auto split: list.splits)
  moreover have entry: "mq_entry q = length (mq_slots q)" using r(1) by (simp add: mq_rep_def)
  moreover have "mq_frees q = [] \<longleftrightarrow> mq_entry q + length fl = n mod 0x10000"
    using mq_rep_length[OF r(1)] r(2) entry by (metis add.assoc add_left_cancel add_0 length_0_conv add.commute)
  ultimately show ?thesis using r by (simp add: mq_rep_def)
qed

theorem mq_slots_conserved_witness:
  "\<exists>q fl. mq_step\<^sup>*\<^sup>* (new_mq 0 4 2 (\<lambda>_. [0, 0, 0, 0]), []) (q, fl) \<and> fl = [1] \<and> mq_slots q = [] \<and> mq_frees q = [0] \<and>
     mq_take_free q \<noteq> None"
proof -
  let ?q = "new_mq 0 4 2 (\<lambda>_. [0, 0, 0, 0])"
  have l2: "mq_link_free 2 q = mq_link_free (Suc (Suc 0)) q" for q by (simp only: numeral_2_eq_2)
  have w2: "walk nx 2 p = walk nx (Suc (Suc 0)) p" for nx p by (simp only: numeral_2_eq_2)
  have f: "mq_free ?q = Some 1" "mq_next ?q 1 = Some 0" by (simp_all add: new_mq_def l2)
  let ?q1 = "?q\<lparr>mq_free := mq_next ?q 1\<rparr>"
  have "mq_step (?q, []) (?q1, [1])" by (rule take_free) (use f in \<open>simp add: mq_take_free_def\<close>)
  then have s: "mq_step\<^sup>*\<^sup>* (?q, []) (?q1, [1])" by (rule r_into_rtranclp)
  have "distinct (mq_slots ?q1 @ mq_frees ?q1 @ [1]) \<and> set (mq_slots ?q1 @ mq_frees ?q1 @ [1]) = {..<2 mod 0x10000} \<and>
    mq_entry ?q1 = length (mq_slots ?q1) \<and> (mq_take_free ?q1 = None \<longleftrightarrow> mq_entry ?q1 + length [1 :: nat] = 2 mod 0x10000)"
    by (rule mq_slots_conserved[OF s]) simp
  moreover have "mq_slots ?q1 = [] \<and> mq_frees ?q1 = [0]"
    by (simp add: mq_slots_def mq_frees_def new_mq_def l2 w2)
  ultimately show ?thesis using s by (intro exI[of _ ?q1] exI[of _ "[1]"]) (simp add: new_mq_def l2)
qed

section \<open>The calls\<close>

lemma upd_mq_sel [simp]:
  "k_mqs (upd_mq b f k) = (k_mqs k)(b := f (k_mqs k b))" "k_lists (upd_mq b f k) = k_lists k"
  "k_threads (upd_mq b f k) = k_threads k" "k_current (upd_mq b f k) = k_current k"
  "k_objects (upd_mq b f k) = k_objects k" "k_timers (upd_mq b f k) = k_timers k"
  "k_timer_list (upd_mq b f k) = k_timer_list k" "kernel_inv (upd_mq b f k) = kernel_inv k"
  "stacks_ok (upd_mq b f k) = stacks_ok k" "k_interrupt_nest (upd_mq b f k) = k_interrupt_nest k"
  "k_tick (upd_mq b f k) = k_tick k"
  by (simp_all add: upd_mq_def stacks_ok_def)

lemma mq_contents_rep: "mq_rep q ms fs fl \<Longrightarrow> mq_contents q = map (mq_data q) ms"
  by (simp add: mq_contents_def mq_rep_slots)

text \<open>What linking a filled slot does to the contents, for both ends of the queue.\<close>

definition mq_link :: "bool \<Rightarrow> nat \<Rightarrow> rt_messagequeue \<Rightarrow> rt_messagequeue" where
  "mq_link urgent m q = (if urgent then mq_prepend m q else mq_append m (q\<lparr>mq_next := (mq_next q)(m := None)\<rparr>))"

lemma mq_link_sel [simp]:
  "mq_data (mq_link u m q) = mq_data q" "mq_msg_size (mq_link u m q) = mq_msg_size q"
  by (simp_all add: mq_link_def mq_append_def mq_prepend_def Let_def split: option.split)

lemma mq_link_contents:
  assumes r: "mq_rep q ms fs fl" and m: "m \<in> set fl" and sz: "sz \<le> mq_msg_size q" "sz \<le> length buffer"
  shows "\<exists>msg. take sz msg = take sz buffer \<and> length msg = mq_msg_size q \<and>
    mq_inv (mq_link u m (mq_fill m buffer sz q)) (remove1 m fl) \<and>
    mq_contents (mq_link u m (mq_fill m buffer sz q)) =
      (if u then msg # map (mq_data q) ms else map (mq_data q) ms @ [msg])"
proof -
  let ?q = "mq_fill m buffer sz q" and ?msg = "mem_put (mq_data q m) 0 buffer sz"
  have f: "mq_rep ?q ms fs fl" by (rule mq_fill_rep[OF r m sz])
  have rep: "mq_rep (mq_link u m ?q) (if u then m # ms else ms @ [m]) fs (remove1 m fl)"
    using mq_append_rep[OF f m] mq_prepend_rep[OF f m] by (simp add: mq_link_def)
  have m1: "m \<notin> set ms" "length (mq_data q m) = mq_msg_size q" using r m by (auto simp: mq_rep_def)
  have "map (mq_data (mq_link u m ?q)) ms = map (mq_data q) ms" "mq_data (mq_link u m ?q) m = ?msg"
    using m1 by (auto simp: mq_fill_def)
  moreover have "take sz ?msg = take sz buffer" "length ?msg = mq_msg_size q"
    using sz m1 by (simp_all add: mem_put_def)
  ultimately show ?thesis
    using mq_contents_rep[OF rep] mq_rep_inv[OF rep] by (intro exI[of _ ?msg]) auto
qed

lemma mq_send_effect:
  assumes inv: "kernel_inv k" "stacks_ok k" and cur: "k_current k = Some c"
    and ty: "o_type (k_objects k (OMq i)) = RT_Object_Class_MessageQueue" and mq: "mq_inv (k_mqs k i) fl"
    and sz: "0 < sz" "sz \<le> length buffer"
  shows "\<exists>k' r. (if urgent then rt_mq_urgent i buffer sz k else rt_mq_send i buffer sz k) = Some (k', r) \<and>
    kernel_inv k' \<and> stacks_ok k' \<and> mq_inv (k_mqs k' i) fl \<and>
    (if sz > mq_msg_size (k_mqs k i) then r = - RT_ERROR \<and> k' = k
     else if mq_frees (k_mqs k i) = [] then r = - RT_EFULL \<and> k' = k
     else r = RT_EOK \<and>
       (\<exists>msg. take sz msg = take sz buffer \<and> length msg = mq_msg_size (k_mqs k i) \<and>
          mq_contents (k_mqs k' i) = (if urgent then msg # mq_contents (k_mqs k i)
                                      else mq_contents (k_mqs k i) @ [msg])) \<and>
       k_lists k' (MqWait i) = tl (k_lists k (MqWait i)) \<and>
       (k_lists k (MqWait i) \<noteq> [] \<longrightarrow> woken (t_stat (thr k' (hd (k_lists k (MqWait i)))))))"
proof -
  let ?q = "k_mqs k i"
  let ?call = "if urgent then rt_mq_urgent i buffer sz k else rt_mq_send i buffer sz k"
  have r: "mq_rep ?q (mq_slots ?q) (mq_frees ?q) fl" using mq by (simp add: mq_inv_def)
  show ?thesis
  proof (cases "sz > mq_msg_size ?q")
    case True
    then have "?call = Some (k, - RT_ERROR)"
      using ty sz by (simp add: rt_mq_send_def rt_mq_urgent_def mq_send_begin_def rt_object_get_type_def)
    then show ?thesis using inv mq True by simp
  next
    case le: False
    show ?thesis
    proof (cases "mq_frees ?q")
      case Nil
      then have "mq_take_free ?q = None" using mq_take_free_rep[OF r] by simp
      then have "?call = Some (k, - RT_EFULL)"
        using ty sz le by (simp add: rt_mq_send_def rt_mq_urgent_def mq_send_begin_def rt_object_get_type_def)
      then show ?thesis using inv mq le Nil by simp
    next
      case (Cons m gs)
      let ?q1 = "?q\<lparr>mq_free := mq_next ?q m\<rparr>"
      have t: "mq_take_free ?q = Some (?q1, m)" "mq_rep ?q1 (mq_slots ?q) gs (m # fl)"
        using mq_take_free_rep[OF r, of m gs] Cons by simp_all
      from mq_link_contents[OF t(2), of m sz buffer urgent] sz le obtain msg where
        msg: "take sz msg = take sz buffer" "length msg = mq_msg_size ?q"
        "mq_inv (mq_link urgent m (mq_fill m buffer sz ?q1)) fl"
        "mq_contents (mq_link urgent m (mq_fill m buffer sz ?q1)) =
           (if urgent then msg # mq_contents ?q else mq_contents ?q @ [msg])"
        by (auto simp: mq_contents_def)
      let ?k = "upd_mq i (mq_link urgent m \<circ> mq_fill m buffer sz) (upd_mq i (\<lambda>_. ?q1) k)"
      have h: "stat_of_list (MqWait i) = RT_THREAD_SUSPEND" by simp
      have e: "kernel_inv ?k" "stacks_ok ?k" "k_current ?k = Some c" using inv cur by simp_all
      from wake_one_effect[OF e(1,2) h e(3)] obtain k' where
        k': "wake_one (MqWait i) ?k = Some k'" "kernel_inv k'" "stacks_ok k'" "k_mqs k' = k_mqs ?k"
          "k_lists k' (MqWait i) = tl (k_lists k (MqWait i))"
          "k_lists k (MqWait i) \<noteq> [] \<longrightarrow> woken (t_stat (thr k' (hd (k_lists k (MqWait i)))))"
        by (auto simp only: upd_mq_sel)
      have lk: "mq_link True = mq_prepend" "mq_link False = (\<lambda>m q. mq_append m (q\<lparr>mq_next := (mq_next q)(m := None)\<rparr>))"
        by (auto simp: mq_link_def fun_eq_iff)
      have "mq_send_end (mq_link urgent) i m buffer sz (upd_mq i (\<lambda>_. ?q1) k) = wake_one (MqWait i) ?k"
        by (simp add: mq_send_end_def wake_one_def)
      then have "?call = Some (k', RT_EOK)"
        using ty sz le t(1) k'(1) lk
        by (cases urgent) (simp_all add: rt_mq_send_def rt_mq_urgent_def mq_send_begin_def rt_object_get_type_def)
      then show ?thesis using k'(2-6) msg le Cons by auto
    qed
  qed
qed

text \<open>C20. \<^verbatim>\<open>rt_mq_send\<close> and \<^verbatim>\<open>rt_mq_urgent\<close>, from a thread or an interrupt, always reach a result and keep
  the kernel and queue invariants: a message longer than a slot is an error, a pool with no free
  slot is reported full, and otherwise the message is put at the end of the queue, for the urgent
  call at its front, and the first waiting receiver becomes ready.\<close>

theorem mq_send_spec:
  assumes inv: "kernel_inv k" "stacks_ok k" and cur: "k_current k = Some c"
    and ty: "o_type (k_objects k (OMq i)) = RT_Object_Class_MessageQueue" and mq: "mq_inv (k_mqs k i) fl"
    and sz: "0 < sz" "sz \<le> length buffer"
  shows "\<exists>k' r. (if urgent then rt_mq_urgent i buffer sz k else rt_mq_send i buffer sz k) = Some (k', r) \<and>
    kernel_inv k' \<and> stacks_ok k' \<and> mq_inv (k_mqs k' i) fl \<and>
    (if sz > mq_msg_size (k_mqs k i) then r = - RT_ERROR \<and> k' = k
     else if mq_frees (k_mqs k i) = [] then r = - RT_EFULL \<and> k' = k
     else r = RT_EOK \<and>
       (\<exists>msg. take sz msg = take sz buffer \<and> length msg = mq_msg_size (k_mqs k i) \<and>
          mq_contents (k_mqs k' i) = (if urgent then msg # mq_contents (k_mqs k i)
                                      else mq_contents (k_mqs k i) @ [msg])) \<and>
       k_lists k' (MqWait i) = tl (k_lists k (MqWait i)) \<and>
       (k_lists k (MqWait i) \<noteq> [] \<longrightarrow> woken (t_stat (thr k' (hd (k_lists k (MqWait i)))))))"
  using assms by (rule mq_send_effect)

lemma sample_mq: "mq_inv (k_mqs sample 0) [] \<and> mq_frees (k_mqs sample 0) = [1, 0] \<and> mq_msg_size (k_mqs sample 0) = 4 \<and>
    mq_slots (k_mqs sample 0) = []"
proof -
  have "mq_rep (k_mqs sample 0) [] [1, 0] []" by (auto simp: sample_def mq_rep_def)
  from mq_rep_unique[OF this] show ?thesis by (simp add: sample_def)
qed

theorem mq_send_spec_witness:
  "\<exists>k' r. rt_mq_send 0 [1, 2, 3] 3 sample = Some (k', r) \<and> r = RT_EOK \<and> length (mq_contents (k_mqs k' 0)) = 1 \<and>
     woken (t_stat (thr k' 8))"
proof -
  have "k_current sample = Some 1" by simp
  from mq_send_spec[OF sample_inv sample_stacks_ok this _ conjunct1[OF sample_mq], of 3 "[1, 2, 3]" False]
  show ?thesis using sample_registered_types(6) sample_mq by (fastforce simp: sample_lists_def mq_contents_def)
qed

lemma mq_recv_effect:
  assumes inv: "kernel_inv k" "stacks_ok k" and cur: "k_current k = Some c"
    and ty: "o_type (k_objects k (OMq i)) = RT_Object_Class_MessageQueue" and mq: "mq_inv (k_mqs k i) fl"
    and tm: "timeout < 2 ^ 31 - 1" and sz: "0 < sz" "sz \<le> length buffer"
    and run: "mq_contents (k_mqs k i) = [] \<and> timeout \<noteq> 0 \<longrightarrow> running_thread k c"
  shows "\<exists>k' r td buffer'. rt_mq_recv i buffer sz timeout k = Some ((k', r, td), buffer') \<and>
    kernel_inv k' \<and> stacks_ok k' \<and> mq_inv (k_mqs k' i) fl \<and>
    (if mq_contents (k_mqs k i) \<noteq> [] then
       (let msg = hd (mq_contents (k_mqs k i)); n = min sz (mq_msg_size (k_mqs k i)) in
        r = Done RT_EOK \<and> mq_contents (k_mqs k' i) = tl (mq_contents (k_mqs k i)) \<and>
        buffer' = take n msg @ drop n buffer \<and> k_threads k' = k_threads k)
     else if timeout = 0 then r = Done (- RT_ETIMEOUT) \<and> k' = k \<and> buffer' = buffer
     else r = Blocked \<and> k_mqs k' = k_mqs k \<and> buffer' = buffer \<and> t_stat (thr k' c) = RT_THREAD_SUSPEND \<and>
       k_lists k' (MqWait i) = waiters_after (mq_flag (k_mqs k i)) (\<lambda>u. t_current_priority (thr k u)) c
         (k_lists k (MqWait i)) \<and>
       (ThreadTimer c \<in> set (k_timer_list k') \<longleftrightarrow> timeout > 0) \<and> (timeout > 0 \<longrightarrow> td = k_tick k))"
proof -
  let ?q = "k_mqs k i"
  have r: "mq_rep ?q (mq_slots ?q) (mq_frees ?q) fl" using mq by (simp add: mq_inv_def)
  have en: "mq_entry ?q = length (mq_slots ?q)" using r by (simp add: mq_rep_def)
  show ?thesis
  proof (cases "mq_slots ?q")
    case (Cons m ms)
    obtain q' where q': "mq_take_head ?q = Some (q', m)" "mq_rep q' ms (mq_frees ?q) (m # fl)"
      "mq_data q' = mq_data ?q" "mq_msg_size q' = mq_msg_size ?q"
      using mq_take_head_rep[OF r[unfolded Cons]] by blast
    have p: "mq_rep (mq_put_free m q') ms (m # mq_frees ?q) fl" using mq_put_free_rep[OF q'(2), of m] by simp
    have "mq_contents (mq_put_free m q') = map (mq_data ?q) ms"
      using mq_contents_rep[OF p] q'(3) by (simp add: mq_put_free_def)
    moreover have "rt_mq_recv i buffer sz timeout k = Some ((upd_mq i (\<lambda>_. mq_put_free m q') k, Done RT_EOK, 0),
        mem_put buffer 0 (mq_data ?q m) (if sz > mq_msg_size ?q then mq_msg_size ?q else sz))"
      using ty sz en Cons q' by (simp add: rt_mq_recv_def mq_recv_loop_def rt_object_get_type_def)
    ultimately show ?thesis
      using inv mq_rep_inv[OF p] Cons by (simp add: mq_contents_def Let_def mem_put_def min_def)
  next
    case Nil
    then have empty: "mq_entry ?q = 0" "mq_contents ?q = []" using en by (simp_all add: mq_contents_def)
    show ?thesis
    proof (cases "timeout = 0")
      case True
      then show ?thesis using empty ty sz inv mq by (simp add: rt_mq_recv_def rt_object_get_type_def)
    next
      case nz: False
      have run: "running_thread k c" using run empty nz by blast
      have h: "stat_of_list (MqWait i) = RT_THREAD_SUSPEND" by simp
      from wait_round_effect[OF inv run h tm, of "mq_flag ?q" 0] obtain k' where
        k': "wait_round (MqWait i) (mq_flag ?q) timeout 0 (upd_thr c (t_error_update (\<lambda>_. RT_EOK)) k) =
          Some (k', Blocked, if timeout > 0 then k_tick k else 0)" "kernel_inv k'" "stacks_ok k'" "same_ipc k k'"
        "k_lists k' (MqWait i) = waiters_after (mq_flag ?q) (\<lambda>u. t_current_priority (thr k u)) c
           (k_lists k (MqWait i))" "t_stat (thr k' c) = RT_THREAD_SUSPEND"
        "ThreadTimer c \<in> set (k_timer_list k') \<longleftrightarrow> timeout > 0" by blast
      have "rt_mq_recv i buffer sz timeout k = Some ((k', Blocked, if timeout > 0 then k_tick k else 0), buffer)"
        using empty nz ty sz run cur k'(1)
        by (simp add: rt_mq_recv_def mq_recv_loop_def rt_object_get_type_def rt_thread_self_def
            rt_debug_in_thread_context_def rt_debug_not_in_interrupt_def rt_interrupt_get_nest_def running_thread_def)
      then show ?thesis using empty nz k'(2-7) mq by (simp add: same_ipc_def)
    qed
  qed
qed

text \<open>C21. \<^verbatim>\<open>rt_mq_recv\<close> always reaches a result and keeps the kernel and queue invariants: it takes the
  first message out of the queue, copies as much of it as fits the request and the slot, and gives
  the slot back; on an empty queue it answers a timeout at once when told not to wait, and otherwise
  the running thread joins the waiting receivers.\<close>

theorem mq_recv_spec:
  assumes inv: "kernel_inv k" "stacks_ok k" and cur: "k_current k = Some c"
    and ty: "o_type (k_objects k (OMq i)) = RT_Object_Class_MessageQueue" and mq: "mq_inv (k_mqs k i) fl"
    and tm: "timeout < 2 ^ 31 - 1" and sz: "0 < sz" "sz \<le> length buffer"
    and run: "mq_contents (k_mqs k i) = [] \<and> timeout \<noteq> 0 \<longrightarrow> running_thread k c"
  shows "\<exists>k' r td buffer'. rt_mq_recv i buffer sz timeout k = Some ((k', r, td), buffer') \<and>
    kernel_inv k' \<and> stacks_ok k' \<and> mq_inv (k_mqs k' i) fl \<and>
    (if mq_contents (k_mqs k i) \<noteq> [] then
       (let msg = hd (mq_contents (k_mqs k i)); n = min sz (mq_msg_size (k_mqs k i)) in
        r = Done RT_EOK \<and> mq_contents (k_mqs k' i) = tl (mq_contents (k_mqs k i)) \<and>
        buffer' = take n msg @ drop n buffer \<and> k_threads k' = k_threads k)
     else if timeout = 0 then r = Done (- RT_ETIMEOUT) \<and> k' = k \<and> buffer' = buffer
     else r = Blocked \<and> k_mqs k' = k_mqs k \<and> buffer' = buffer \<and> t_stat (thr k' c) = RT_THREAD_SUSPEND \<and>
       k_lists k' (MqWait i) = waiters_after (mq_flag (k_mqs k i)) (\<lambda>u. t_current_priority (thr k u)) c
         (k_lists k (MqWait i)) \<and>
       (ThreadTimer c \<in> set (k_timer_list k') \<longleftrightarrow> timeout > 0) \<and> (timeout > 0 \<longrightarrow> td = k_tick k))"
  using assms by (rule mq_recv_effect)

theorem mq_recv_spec_witness:
  "\<exists>k' r td b. rt_mq_recv 0 [9, 9, 9, 9] 4 30 sample = Some ((k', r, td), b) \<and> r = Blocked \<and>
     b = [9, 9, 9, 9] \<and> k_lists k' (MqWait 0) = [8, 1]"
proof -
  have "k_current sample = Some 1" by simp
  from mq_recv_spec[OF sample_inv sample_stacks_ok this _ conjunct1[OF sample_mq], of 30 4 "[9, 9, 9, 9]"]
  show ?thesis
    using sample_registered_types(6) sample_mq sample_running
    by (fastforce simp: sample_lists_def mq_contents_def waiters_after_def RT_IPC_FLAG_FIFO_def sample_def)
qed

end
