(* ===== verification/Idle.thy ===== *)
theory Idle
  imports Ipc_Core
begin

text \<open>
  \<^verbatim>\<open>src/idle.c\<close>: the table of idle hooks and the reclamation of threads that have ended. A clean-up
  function is a parameter, applied to its identifier and the thread; the stack and control block of
  a dynamic thread go back to the allocator, which is outside this state. The endless loop of the
  idle thread is one round here.
\<close>

section \<open>Operations\<close>

text \<open>The hook table has four entries; an entry is a function identifier or \<^verbatim>\<open>RT_NULL\<close>.\<close>

definition RT_IDEL_HOOK_LIST_SIZE :: nat where "RT_IDEL_HOOK_LIST_SIZE = 4"

text \<open>The two search loops: write \<open>new\<close> into the first entry that holds \<open>old\<close>.\<close>

fun hook_replace :: "nat option \<Rightarrow> nat option \<Rightarrow> nat option list \<Rightarrow> nat option list \<times> bool" where
  "hook_replace old new [] = ([], False)"
| "hook_replace old new (h # hs) =
     (if h = old then (new # hs, True)
      else let (hs', found) = hook_replace old new hs in (h # hs', found))"

definition rt_thread_idle_sethook :: "nat option \<Rightarrow> nat option list \<Rightarrow> nat option list \<times> int" where
  "rt_thread_idle_sethook hook hooks =
     (let (hooks', found) = hook_replace None hook hooks in (hooks', if found then RT_EOK else - RT_EFULL))"

definition rt_thread_idle_delhook :: "nat option \<Rightarrow> nat option list \<Rightarrow> nat option list \<times> int" where
  "rt_thread_idle_delhook hook hooks =
     (let (hooks', found) = hook_replace hook None hooks in (hooks', if found then RT_EOK else - RT_ENOSYS))"

definition has_defunct_thread :: "kernel \<Rightarrow> bool" where
  "has_defunct_thread k \<longleftrightarrow> k_lists k Defunct \<noteq> []"

type_synonym cleanup_fun = "nat \<Rightarrow> nat \<Rightarrow> kernel \<Rightarrow> kernel option"

partial_function (option) rt_thread_idle_excute :: "cleanup_fun \<Rightarrow> kernel \<Rightarrow> kernel option" where
  "rt_thread_idle_excute cleanup k =
     (case k_lists k Defunct of
        [] \<Rightarrow> Some k
      | t # _ \<Rightarrow>
          Option.bind (rt_debug_not_in_interrupt k) (\<lambda>_.
          Option.bind (let k = rt_enter_critical (tlist_remove t k) in
                       case t_cleanup (thr k t) of None \<Rightarrow> Some k | Some c \<Rightarrow> cleanup c t k) (\<lambda>k.
          if rt_object_is_systemobject k (OThread t)
          then rt_exit_critical (rt_object_detach (OThread t) k)
          else Option.bind (rt_exit_critical k) (\<lambda>k.
               Option.bind (rt_object_delete (OThread t) k) (rt_thread_idle_excute cleanup)))))"

text \<open>One round of the idle thread: the hooks in table order, then the reclamation.\<close>

fun run_hooks :: "(nat \<Rightarrow> kernel \<Rightarrow> kernel option) \<Rightarrow> nat option list \<Rightarrow> kernel \<Rightarrow> kernel option" where
  "run_hooks call [] k = Some k"
| "run_hooks call (None # hs) k = run_hooks call hs k"
| "run_hooks call (Some h # hs) k = do { k \<leftarrow> call h k; run_hooks call hs k }"

definition rt_thread_idle_entry ::
  "(nat \<Rightarrow> kernel \<Rightarrow> kernel option) \<Rightarrow> nat option list \<Rightarrow> cleanup_fun \<Rightarrow> kernel \<Rightarrow> kernel option" where
  "rt_thread_idle_entry call hooks cleanup k = do {
     k \<leftarrow> run_hooks call hooks k;
     rt_thread_idle_excute cleanup k }"

text \<open>\<open>idle\<close> is the idle thread's identity and \<open>stack\<close> the address of its 256 bytes of stack.\<close>

definition rt_thread_idle_init :: "nat \<Rightarrow> nat \<Rightarrow> kernel \<Rightarrow> kernel option" where
  "rt_thread_idle_init idle stack k = do {
     k \<leftarrow> rt_thread_init idle ''tidle0'' stack 256 (word_of_nat (RT_THREAD_PRIORITY_MAX - 1)) 32 k;
     rt_thread_startup idle k }"

definition rt_thread_idle_gethandler :: "nat \<Rightarrow> nat" where
  "rt_thread_idle_gethandler idle = idle"

section \<open>The hook table\<close>

lemma hook_replace_found:
  "old \<in> set hs \<Longrightarrow> hook_replace old new hs =
     (takeWhile (\<lambda>h. h \<noteq> old) hs @ new # tl (dropWhile (\<lambda>h. h \<noteq> old) hs), True)"
  by (induction hs) auto

lemma hook_replace_missing: "old \<notin> set hs \<Longrightarrow> hook_replace old new hs = (hs, False)"
  by (induction hs) auto

lemma length_hook_replace: "length (fst (hook_replace old new hs)) = length hs"
  by (induction hs) (auto split: prod.splits)

section \<open>Reclaiming one thread\<close>

text \<open>Taking a thread off the list of ended threads.\<close>

lemma kernel_inv_take_defunct:
  assumes inv: "kernel_inv k" and l: "k_lists k Defunct = t # ts"
  shows "kernel_inv (tlist_remove t k)" "k_lists (tlist_remove t k) Defunct = ts"
    "t_stat (thr k t) = RT_THREAD_CLOSE" "t \<notin> set (k_lists (tlist_remove t k) h)"
proof -
  note d = kernel_invD[OF inv]
  have ok: "lists_ok (k_lists k)" using d(7) by (simp add: sched_inv_ex_def tlist_inv_def)
  show st: "t_stat (thr k t) = RT_THREAD_CLOSE" using thread_invD(1)[OF d(6), of t Defunct] l by simp
  have rd: "remove1 t (ready_list k p) = ready_list k p" for p
    using thread_invD(1)[OF d(6), of t "Ready p"] st by (intro remove1_idem) auto
  have nt: "t \<notin> set (remove1 t (k_lists k h))" for h
    using ok by (simp add: lists_ok_def)
  then show "t \<notin> set (k_lists (tlist_remove t k) h)" by (simp add: tlist_remove_def)
  show "k_lists (tlist_remove t k) Defunct = ts" using l by (simp add: tlist_remove_def)
  have "sched_inv (tlist_remove t k)"
    unfolding sched_inv_def sched_inv_ex_def
  proof (intro conjI allI ballI impI)
    show "tlist_inv (tlist_remove t k)" using lists_ok_remove[OF ok] by (simp add: tlist_inv_def tlist_remove_def)
    show "bitmap_inv (tlist_remove t k)" using d(7) rd
      by (simp add: sched_inv_ex_def bitmap_inv_def tlist_remove_def)
    show "thread_inv (tlist_remove t k) u" for u
      using d(6)[of u] st rd by (auto simp: thread_inv_def tlist_remove_def dest: set_remove1_subset[THEN subsetD])
  qed simp
  then show "kernel_inv (tlist_remove t k)"
    using d(2,3,4,9) by (auto simp: kernel_inv_def current_inv_def timed_inv_def thread_timer_inv_def defunct_inv_def
        tlist_remove_def registry_inv_def dest: set_remove1_subset[THEN subsetD])
qed

text \<open>Unregistering a closed thread that is in no list.\<close>

lemma kernel_inv_drop_thread:
  assumes inv: "kernel_inv k" and st: "t_stat (thr k t) = RT_THREAD_CLOSE" and un: "t \<notin> set (k_lists k Defunct)"
  shows "kernel_inv (rt_object_detach (OThread t) k)"
proof -
  note d = kernel_invD[OF inv]
  have "thread_timer_inv (rt_object_detach (OThread t) k) u" for u
    using d(5)[of u] st by (cases "u = t") (auto simp: thread_timer_inv_def live_stat_def)
  moreover have "sched_inv (rt_object_detach (OThread t) k)"
    unfolding sched_inv_def by (rule iffD1[OF sched_inv_ex_cong d(7)]) simp_all
  ultimately show ?thesis
    using d(2,8,9) un registry_inv_detach[OF d(3)]
    by (auto simp: kernel_inv_def timed_inv_def current_inv_def defunct_inv_def)
qed

text \<open>Leaving a critical section always succeeds and moves threads between ready lists only.\<close>

lemma exit_critical_effect:
  assumes inv: "kernel_inv k" "stacks_ok k" and cur: "k_current k = Some c"
  shows "\<exists>k'. rt_exit_critical k = Some k' \<and> kernel_inv k' \<and> stacks_ok k' \<and> k_current k' \<noteq> None \<and>
    k_objects k' = k_objects k \<and> k_interrupt_nest k' = k_interrupt_nest k \<and>
    k_lists k' Defunct = k_lists k Defunct \<and> (\<forall>t. sched_rel (thr k t) (thr k' t))"
proof (cases "sint (k_lock_nest k - 1) \<le> 0")
  case True
  let ?k = "k\<lparr>k_lock_nest := 0\<rparr>"
  have i: "kernel_inv ?k" "stacks_ok ?k" "k_current ?k = Some c" using inv cur by (simp_all add: stacks_ok_def)
  from schedule_effect[OF i] obtain k' where
    k': "rt_schedule ?k = Some k'" "kernel_inv k'" "stacks_ok k'" "k_current k' \<noteq> None" "same_ipc ?k k'"
      "\<forall>t. sched_rel (thr ?k t) (thr k' t)" "k_interrupt_nest k' = k_interrupt_nest ?k" by blast
  moreover have "k_lists k' Defunct = k_lists k Defunct"
    using rt_schedule_lists[OF i(1,3) k'(1), of Defunct] by simp
  moreover have "rt_exit_critical k = Some k'" using True cur k'(1) by (simp add: rt_exit_critical_def Let_def)
  ultimately show ?thesis by (intro exI[of _ k']) (simp add: same_ipc_def)
next
  case False
  then show ?thesis using inv cur
    by (simp add: rt_exit_critical_def Let_def stacks_ok_def sched_rel_refl)
qed

section \<open>Reclaiming all\<close>

text \<open>A well-behaved clean-up function: it returns, keeps the invariant, and neither revives threads nor
  touches their registration or the list of ended threads.\<close>

definition cleanup_ok :: "cleanup_fun \<Rightarrow> bool" where
  "cleanup_ok cleanup \<longleftrightarrow> (\<forall>c t k. kernel_inv k \<longrightarrow> stacks_ok k \<longrightarrow> k_current k \<noteq> None \<longrightarrow>
     (\<exists>k'. cleanup c t k = Some k' \<and> kernel_inv k' \<and> stacks_ok k' \<and> k_current k' \<noteq> None \<and>
        k_interrupt_nest k' = k_interrupt_nest k \<and> k_lists k' Defunct = k_lists k Defunct \<and>
        (\<forall>u. k_objects k' (OThread u) = k_objects k (OThread u)) \<and>
        (\<forall>u. t_stat (thr k u) = RT_THREAD_CLOSE \<longrightarrow> t_stat (thr k' u) = RT_THREAD_CLOSE)))"

lemma run_cleanup:
  assumes ok: "cleanup_ok cleanup" and inv: "kernel_inv k" "stacks_ok k" and cur: "k_current k \<noteq> None"
    and l: "k_lists k Defunct = t # ts"
  shows "\<exists>k'. (let k = rt_enter_critical (tlist_remove t k) in
             case t_cleanup (thr k t) of None \<Rightarrow> Some k | Some c \<Rightarrow> cleanup c t k) = Some k' \<and>
    kernel_inv k' \<and> stacks_ok k' \<and> k_current k' \<noteq> None \<and> k_interrupt_nest k' = k_interrupt_nest k \<and>
    k_lists k' Defunct = ts \<and> (\<forall>u. k_objects k' (OThread u) = k_objects k (OThread u)) \<and>
    t_stat (thr k' t) = RT_THREAD_CLOSE \<and> t \<notin> set ts"
proof -
  note d = kernel_inv_take_defunct[OF inv(1) l]
  let ?k = "rt_enter_critical (tlist_remove t k)"
  have k: "kernel_inv ?k" "stacks_ok ?k" "k_current ?k \<noteq> None" "k_lists ?k Defunct = ts"
    "k_objects ?k = k_objects k" "thr ?k t = thr k t" "k_interrupt_nest ?k = k_interrupt_nest k"
    using d(1,2) inv(2) cur by (auto simp: rt_enter_critical_def stacks_ok_def tlist_remove_def)
  have nt: "t \<notin> set ts" using d(4)[of Defunct] d(2) by simp
  show ?thesis
  proof (cases "t_cleanup (thr ?k t)")
    case None
    then show ?thesis using k d(3) nt by (intro exI[of _ ?k]) simp
  next
    case (Some c)
    obtain k' where "cleanup c t ?k = Some k'" "kernel_inv k'" "stacks_ok k'" "k_current k' \<noteq> None"
      "k_interrupt_nest k' = k_interrupt_nest ?k" "k_lists k' Defunct = k_lists ?k Defunct"
      "\<forall>u. k_objects k' (OThread u) = k_objects ?k (OThread u)"
      "\<forall>u. t_stat (thr ?k u) = RT_THREAD_CLOSE \<longrightarrow> t_stat (thr k' u) = RT_THREAD_CLOSE"
      using ok k(1-3) unfolding cleanup_ok_def by blast
    then show ?thesis using Some k d(3) nt by (intro exI[of _ k']) simp
  qed
qed

lemma idle_excute_effect:
  assumes ok: "cleanup_ok cleanup" and inv: "kernel_inv k" "stacks_ok k" and cur: "k_current k \<noteq> None"
    and nest: "k_interrupt_nest k = 0" and l: "k_lists k Defunct = ds"
  shows "\<exists>k'. rt_thread_idle_excute cleanup k = Some k' \<and> kernel_inv k' \<and> stacks_ok k' \<and>
    k_lists k' Defunct = tl (dropWhile (\<lambda>t. \<not> o_static (k_objects k (OThread t))) ds) \<and>
    (\<forall>t \<in> set ds. t \<notin> set (k_lists k' Defunct) \<longrightarrow> o_type (k_objects k' (OThread t)) = RT_Object_Class_Null) \<and>
    (\<forall>t. t \<notin> set ds \<longrightarrow> k_objects k' (OThread t) = k_objects k (OThread t))"
  using inv cur nest l
proof (induction ds arbitrary: k)
  case Nil
  then show ?case by (subst rt_thread_idle_excute.simps) simp
next
  case (Cons t ts)
  from run_cleanup[OF ok Cons.prems(1-3,5)] obtain k1 where
    k1: "(let k = rt_enter_critical (tlist_remove t k) in
             case t_cleanup (thr k t) of None \<Rightarrow> Some k | Some c \<Rightarrow> cleanup c t k) = Some k1"
      "kernel_inv k1" "stacks_ok k1" "k_current k1 \<noteq> None" "k_interrupt_nest k1 = k_interrupt_nest k"
      "k_lists k1 Defunct = ts" "\<forall>u. k_objects k1 (OThread u) = k_objects k (OThread u)"
      "t_stat (thr k1 t) = RT_THREAD_CLOSE" "t \<notin> set ts" by blast
  have nest: "rt_debug_not_in_interrupt k = Some ()"
    using Cons.prems(4) by (simp add: rt_debug_not_in_interrupt_def rt_interrupt_get_nest_def)
  show ?case
  proof (cases "o_static (k_objects k (OThread t))")
    case True
    let ?k = "rt_object_detach (OThread t) k1"
    obtain c where i: "kernel_inv ?k" "stacks_ok ?k" "k_current ?k = Some c"
      using kernel_inv_drop_thread[OF k1(2,8)] k1(3,4,6,9) by (auto simp: stacks_ok_def)
    from exit_critical_effect[OF i] obtain k' where
      k': "rt_exit_critical ?k = Some k'" "kernel_inv k'" "stacks_ok k'" "k_objects k' = k_objects ?k"
        "k_lists k' Defunct = k_lists ?k Defunct" by blast
    have "rt_thread_idle_excute cleanup k = Some k'"
      using Cons.prems(5) nest k1(1,7) True k'(1)
      by (subst rt_thread_idle_excute.simps) (simp add: rt_object_is_systemobject_def)
    then show ?thesis using k' k1(6,7) True by (intro exI[of _ k']) auto
  next
    case False
    obtain c where "k_current k1 = Some c" using k1(4) by blast
    from exit_critical_effect[OF k1(2,3) this] obtain k2 where
      k2: "rt_exit_critical k1 = Some k2" "kernel_inv k2" "stacks_ok k2" "k_current k2 \<noteq> None"
        "k_objects k2 = k_objects k1" "k_interrupt_nest k2 = k_interrupt_nest k1"
        "k_lists k2 Defunct = k_lists k1 Defunct" "\<forall>t. sched_rel (thr k1 t) (thr k2 t)" by blast
    have st: "t_stat (thr k2 t) = RT_THREAD_CLOSE" using k2(8)[rule_format, of t] k1(8) by (auto simp: sched_rel_def)
    let ?k = "rt_object_detach (OThread t) k2"
    have i: "kernel_inv ?k" "stacks_ok ?k" "k_current ?k \<noteq> None" "k_interrupt_nest ?k = 0" "k_lists ?k Defunct = ts"
      using kernel_inv_drop_thread[OF k2(2) st] k2 k1(5,6,9) Cons.prems(4) by (auto simp: stacks_ok_def rt_object_detach_def)
    from Cons.IH[OF i] obtain k' where
      k': "rt_thread_idle_excute cleanup ?k = Some k'" "kernel_inv k'" "stacks_ok k'"
        "k_lists k' Defunct = tl (dropWhile (\<lambda>t. \<not> o_static (k_objects ?k (OThread t))) ts)"
        "\<forall>u \<in> set ts. u \<notin> set (k_lists k' Defunct) \<longrightarrow> o_type (k_objects k' (OThread u)) = RT_Object_Class_Null"
        "\<forall>u. u \<notin> set ts \<longrightarrow> k_objects k' (OThread u) = k_objects ?k (OThread u)" by blast
    have ob: "k_objects ?k (OThread u) = k_objects k (OThread u)" if "u \<noteq> t" for u
      using that k1(7) k2(5) by simp
    have "dropWhile (\<lambda>t. \<not> o_static (k_objects ?k (OThread t))) ts = dropWhile (\<lambda>t. \<not> o_static (k_objects k (OThread t))) ts"
      by (rule dropWhile_cong[OF refl]) (use k1(9) ob in auto)
    moreover have "rt_thread_idle_excute cleanup k = Some k'"
      using Cons.prems(5) nest k1(1,7) False k2(1,5) k'(1)
      by (subst rt_thread_idle_excute.simps) (simp add: rt_object_is_systemobject_def rt_object_delete_def)
    moreover have "o_type (k_objects k' (OThread t)) = RT_Object_Class_Null" using k'(6) k1(9) by simp
    ultimately show ?thesis using k' False ob by (intro exI[of _ k']) auto
  qed
qed

text \<open>\<^verbatim>\<open>rt_thread_idle_excute\<close> always returns and keeps the kernel invariant. It reclaims the ended
  dynamic threads from the front of the list up to and including the first static one; contrary to
  its comment it stops there, and the threads behind wait for the next round.\<close>

theorem idle_reclaims_up_to_first_static:
  assumes "cleanup_ok cleanup" "kernel_inv k" "stacks_ok k" "k_current k \<noteq> None" "k_interrupt_nest k = 0"
  shows "\<exists>k'. rt_thread_idle_excute cleanup k = Some k' \<and> kernel_inv k' \<and> stacks_ok k' \<and>
    k_lists k' Defunct = tl (dropWhile (\<lambda>t. \<not> o_static (k_objects k (OThread t))) (k_lists k Defunct)) \<and>
    (\<forall>t \<in> set (k_lists k Defunct). t \<notin> set (k_lists k' Defunct) \<longrightarrow>
       o_type (k_objects k' (OThread t)) = RT_Object_Class_Null) \<and>
    (\<forall>t. t \<notin> set (k_lists k Defunct) \<longrightarrow> k_objects k' (OThread t) = k_objects k (OThread t))"
  using idle_excute_effect[OF assms refl] .

theorem idle_reclaims_up_to_first_static_witness:
  "\<exists>k k'. k_lists k Defunct = [9] \<and> o_type (k_objects k (OThread 9)) = RT_Object_Class_Thread \<and>
     rt_thread_idle_excute (\<lambda>_ _. Some) k = Some k' \<and> k_lists k' Defunct = [] \<and>
     o_type (k_objects k' (OThread 9)) = RT_Object_Class_Null"
proof -
  let ?s = "upd_thr 9 (t_cleanup_update (\<lambda>_. Some 0)) sample"
  have s: "kernel_inv ?s" by (rule kernel_inv_upd_thr[OF sample_inv]) simp_all
  obtain k where k: "rt_thread_detach 9 ?s = Some k"
    by (simp add: rt_thread_detach_def rt_object_get_type_def rt_object_is_systemobject_def rt_timer_detach_def
        sample_objects_def sample_registered_def sample_threads_def Let_def)
  have e: "k_lists k Defunct = [9]" "k_current k = Some 1" "k_interrupt_nest k = 0" "stacks_ok k"
    "k_objects k (OThread 9) = sample_objects (OThread 9)"
    using k sample_stacks_ok
    by (auto simp: rt_thread_detach_def bind_eq_Some_conv rt_timer_detach_def release_thread_def Let_def
        timer_remove_def rt_object_detach_def tlist_push_def stacks_ok_def sample_lists_def live_stat_def
        rt_object_is_systemobject_def split: if_splits)
  have "cleanup_ok (\<lambda>_ _. Some)" by (auto simp: cleanup_ok_def)
  from idle_reclaims_up_to_first_static[OF this kernel_inv_detach[OF s k] e(4)] e
  show ?thesis by (fastforce simp: sample_objects_def sample_registered_def)
qed

end
