(* ===== verification/Frames.thy ===== *)
theory Frames
  imports MessageQueue Idle
begin

text \<open>
  What each kernel call leaves alone: the objects it is not about, the waiting lists of others
  (which it may shorten by waking threads), the registry, and the order of the timer list. The
  rules follow the shape of the operations, so one method proves the frame of any of them.
\<close>

section \<open>Frames\<close>

fun list_owner :: "list_head \<Rightarrow> object_id option" where
  "list_owner (SemWait s) = Some (OSem s)"
| "list_owner (MutexWait m) = Some (OMutex m)"
| "list_owner (EventWait e) = Some (OEvent e)"
| "list_owner (MbRecvWait b) = Some (OMailBox b)"
| "list_owner (MbSendWait b) = Some (OMailBox b)"
| "list_owner (MqWait q) = Some (OMq q)"
| "list_owner (MpWait p) = Some (OMemPool p)"
| "list_owner _ = None"

text \<open>The timer list is in order; pending timers are registered; thread timers are one-shot, user
  timers have a period below half the tick range and a user function.\<close>

definition timers_ok :: "kernel \<Rightarrow> bool" where
  "timers_ok k \<longleftrightarrow> timer_queue_inv k \<and> distinct (k_timer_list k) \<and>
     (\<forall>tm \<in> set (k_timer_list k). o_type (k_objects k (OTimer tm)) = RT_Object_Class_Timer) \<and>
     (\<forall>t. \<not> tm_periodic (k_timers k (ThreadTimer t))) \<and>
     (\<forall>u. 0 < tm_init_tick (k_timers k (UserTimer u)) \<and> tm_init_tick (k_timers k (UserTimer u)) < RT_TICK_HALF \<and>
        (\<exists>i. tm_func (k_timers k (UserTimer u)) = User_Timeout i))"

lemma timers_ok_listed: "timers_ok k \<Longrightarrow> listed_ok k"
  unfolding timers_ok_def listed_ok_def by (metis timer_id.exhaust)

text \<open>\<open>sys_frame ob k k'\<close>: from \<open>k\<close> to \<open>k'\<close> only the object \<open>ob\<close> was changed.\<close>

definition sys_frame :: "object_id \<Rightarrow> kernel \<Rightarrow> kernel \<Rightarrow> bool" where
  "sys_frame ob k k' \<longleftrightarrow> k_objects k' = k_objects k \<and> k_tick k' = k_tick k \<and>
     (\<forall>s. ob \<noteq> OSem s \<longrightarrow> k_sems k' s = k_sems k s) \<and> (\<forall>m. ob \<noteq> OMutex m \<longrightarrow> k_mutexes k' m = k_mutexes k m) \<and>
     (\<forall>e. ob \<noteq> OEvent e \<longrightarrow> k_events k' e = k_events k e) \<and> (\<forall>b. ob \<noteq> OMailBox b \<longrightarrow> k_mbs k' b = k_mbs k b) \<and>
     (\<forall>q. ob \<noteq> OMq q \<longrightarrow> k_mqs k' q = k_mqs k q) \<and>
     (\<forall>h. stat_of_list h = RT_THREAD_SUSPEND \<longrightarrow> list_owner h \<noteq> Some ob \<longrightarrow> set (k_lists k' h) \<subseteq> set (k_lists k h)) \<and>
     (timers_ok k \<longrightarrow> timers_ok k') \<and> (k_current k \<noteq> None \<longrightarrow> k_current k' \<noteq> None)"

lemma sys_frame_refl: "sys_frame ob k k"
  by (simp add: sys_frame_def)

lemma sys_frame_trans: "sys_frame ob a b \<Longrightarrow> sys_frame ob b c \<Longrightarrow> sys_frame ob a c"
  unfolding sys_frame_def by (elim conjE, intro conjI allI impI) (metis subset_trans)+

lemma timers_ok_cong:
  "k_tick k' = k_tick k \<Longrightarrow> k_timers k' = k_timers k \<Longrightarrow> k_timer_list k' = k_timer_list k \<Longrightarrow>
   k_objects k' = k_objects k \<Longrightarrow> timers_ok k' = timers_ok k"
  by (simp add: timers_ok_def timer_queue_inv_def due_def [abs_def])

section \<open>Timers\<close>

lemma timers_ok_stop:
  assumes ok: "timers_ok k" and r: "rt_timer_stop tm k = Some (k', r)"
  shows "timers_ok k'"
proof -
  note s = timer_stop_spec[OF r] and e = same_but_timersD[OF timer_stop_spec(1)[OF r]]
  have du: "due k' = due k" by (rule ext) (simp add: due_def s(3))
  have "timer_queue_inv k'"
    using ok queue_ok_remove[of "k_tick k" "half - 1" "due k" "k_timer_list k" tm]
    by (simp add: timers_ok_def timer_queue_inv_def du e s(2))
  moreover have "set (k_timer_list k') \<subseteq> set (k_timer_list k)"
    using set_remove1_subset[of tm "k_timer_list k"] by (simp add: s(2))
  moreover have "distinct (k_timer_list k')" using ok by (simp add: s(2) timers_ok_def)
  ultimately show ?thesis
    using ok e by (auto simp: timers_ok_def s(3))
qed

lemma timers_ok_start:
  assumes ok: "timers_ok k" and r: "rt_timer_start tm k = Some k'"
  shows "timers_ok k'"
proof -
  note s = timer_start_spec[OF r] and e = same_but_timersD[OF timer_start_spec(1)[OF r]]
  have d: "timer_queue_inv k" "distinct (k_timer_list k)" using ok by (simp_all add: timers_ok_def)
  have "timer_queue_inv k'" by (rule timer_start_queue(5)[OF d(1) r d(2)])
  moreover have "distinct (k_timer_list k')" using d by (simp add: s(3) distinct_timer_insert)
  moreover have "set (k_timer_list k') \<subseteq> insert tm (set (k_timer_list k))"
    using set_remove1_subset[of tm "k_timer_list k"] by (auto simp: s(3))
  ultimately show ?thesis using ok s(5) e by (auto simp: timers_ok_def s(2))
qed

text \<open>The time of a timer is not read while it waits.\<close>

lemma timers_ok_set_time:
  assumes "timers_ok k" "\<And>u. tm = UserTimer u \<Longrightarrow> 0 < n \<and> n < RT_TICK_HALF"
  shows "timers_ok (upd_timer tm (tm_init_tick_update (\<lambda>_. n)) k)"
proof -
  have "due (upd_timer tm (tm_init_tick_update (\<lambda>_. n)) k) = due k" by (rule ext) (simp add: due_def)
  then show ?thesis using assms by (auto simp: timers_ok_def timer_queue_inv_def)
qed

section \<open>Rules for the primitives\<close>

text \<open>\<open>framed ob k g m\<close>: whatever \<open>m\<close> returns, its state (read by \<open>g\<close>) is in the frame of \<open>k\<close>.\<close>

definition framed :: "object_id \<Rightarrow> kernel \<Rightarrow> ('r \<Rightarrow> kernel) \<Rightarrow> 'r option \<Rightarrow> bool" where
  "framed ob k g m \<longleftrightarrow> (\<forall>r. m = Some r \<longrightarrow> sys_frame ob k (g r))"

named_theorems frame_rules \<open>introduction rules for frames, one per construct and primitive\<close>

lemma framed_Some [frame_rules]:
  "sys_frame ob k k1 \<Longrightarrow> framed ob k (\<lambda>x. x) (Some k1)"
  "sys_frame ob k k1 \<Longrightarrow> framed ob k fst (Some (k1, x))"
  "sys_frame ob k (fst p) \<Longrightarrow> framed ob k (\<lambda>r. fst (fst r)) (Some (p, z))"
  "sys_frame ob k k1 \<Longrightarrow> sys_frame ob k (fst (k1, x))"
  by (simp_all add: framed_def)

lemma framed_None [frame_rules]: "framed ob k g None"
  by (simp add: framed_def)

lemma framed_if [frame_rules]: "(b \<Longrightarrow> framed ob k g m) \<Longrightarrow> (\<not> b \<Longrightarrow> framed ob k g n) \<Longrightarrow> framed ob k g (if b then m else n)"
  by simp

lemma sys_frame_if [frame_rules]:
  "(b \<Longrightarrow> sys_frame ob k x) \<Longrightarrow> (\<not> b \<Longrightarrow> sys_frame ob k y) \<Longrightarrow> sys_frame ob k (if b then x else y)"
  by simp

lemma framed_list [frame_rules]:
  "(xs = [] \<Longrightarrow> framed ob k g m) \<Longrightarrow> (\<And>y ys. xs = y # ys \<Longrightarrow> framed ob k g (f y ys)) \<Longrightarrow>
   framed ob k g (case xs of [] \<Rightarrow> m | y # ys \<Rightarrow> f y ys)"
  by (cases xs) simp_all

lemma framed_option [frame_rules]:
  "(x = None \<Longrightarrow> framed ob k g m) \<Longrightarrow> (\<And>y. x = Some y \<Longrightarrow> framed ob k g (f y)) \<Longrightarrow>
   framed ob k g (case x of None \<Rightarrow> m | Some y \<Rightarrow> f y)"
  by (cases x) simp_all

lemma framed_prod [frame_rules]: "framed ob k g (f (fst r) (snd r)) \<Longrightarrow> framed ob k g (case r of (a, b) \<Rightarrow> f a b)"
  by (cases r) simp

lemma framed_assert [frame_rules]: "(b \<Longrightarrow> framed ob k g (f ())) \<Longrightarrow> framed ob k g (rt_assert b \<bind> f)"
  by (simp add: framed_def rt_assert_bind)

lemma framed_value:
  "(\<And>x. v = Some x \<Longrightarrow> framed ob k g (f x)) \<Longrightarrow> framed ob k g (v \<bind> f)"
  by (cases v) (simp_all add: framed_def)

lemmas framed_reads [frame_rules] =
  framed_value[where v = "rt_thread_self x" for x] framed_value[where v = "rt_debug_in_thread_context x" for x]
  framed_value[where v = "rt_debug_not_in_interrupt x" for x] framed_value[where v = "mtx_owner x" for x]
  framed_value[where v = "mq_take_head x" for x]

lemma framed_bind:
  "framed ob k g m \<Longrightarrow> (\<And>r. sys_frame ob k (g r) \<Longrightarrow> framed ob k h (f r)) \<Longrightarrow> framed ob k h (m \<bind> f)"
  by (cases m) (simp_all add: framed_def)

lemma framed_bind_if [frame_rules]:
  "(b \<Longrightarrow> framed ob k g (m \<bind> f)) \<Longrightarrow> (\<not> b \<Longrightarrow> framed ob k g (n \<bind> f)) \<Longrightarrow>
   framed ob k g ((if b then m else n) \<bind> f)"
  by simp

lemma framed_bind_Some [frame_rules]: "framed ob k g (f x) \<Longrightarrow> framed ob k g (Some x \<bind> f)"
  by simp

lemma framed_bind_None [frame_rules]: "framed ob k g (None \<bind> f)"
  by (simp add: framed_def)

lemma framed_sum [frame_rules]:
  "(\<And>y. x = Inl y \<Longrightarrow> framed ob k g (f y)) \<Longrightarrow> (\<And>y. x = Inr y \<Longrightarrow> framed ob k g (f' y)) \<Longrightarrow>
   framed ob k g (case x of Inl y \<Rightarrow> f y | Inr y \<Rightarrow> f' y)"
  by (cases x) simp_all

lemma framed_from: "sys_frame ob k k1 \<Longrightarrow> framed ob k1 g m \<Longrightarrow> framed ob k g m"
  unfolding framed_def using sys_frame_trans by blast

lemma framedD: "framed ob k g m \<Longrightarrow> m = Some r \<Longrightarrow> sys_frame ob k (g r)"
  by (simp add: framed_def)

lemma framedI: "(\<And>r. m = Some r \<Longrightarrow> sys_frame ob k (g r)) \<Longrightarrow> framed ob k g m"
  by (simp add: framed_def)

subsection \<open>State updates\<close>

lemma frame_upd_thr [frame_rules]: "sys_frame ob k k1 \<Longrightarrow> sys_frame ob k (upd_thr t f k1)"
  by (erule sys_frame_trans) (simp add: sys_frame_def timers_ok_def timer_queue_inv_def due_def [abs_def])

lemma frame_tlist_remove [frame_rules]: "sys_frame ob k k1 \<Longrightarrow> sys_frame ob k (tlist_remove t k1)"
  by (erule sys_frame_trans)
    (simp add: sys_frame_def timers_ok_def timer_queue_inv_def due_def [abs_def] set_remove1_subset)

lemma frame_insert_thread [frame_rules]: "sys_frame ob k k1 \<Longrightarrow> sys_frame ob k (rt_schedule_insert_thread t k1)"
  by (erule sys_frame_trans)
    (auto simp: sys_frame_def timers_ok_def timer_queue_inv_def due_def [abs_def])

lemma frame_remove_thread [frame_rules]: "sys_frame ob k k1 \<Longrightarrow> sys_frame ob k (rt_schedule_remove_thread t k1)"
  by (erule sys_frame_trans)
    (simp add: sys_frame_def timers_ok_def timer_queue_inv_def due_def [abs_def] set_remove1_subset)

lemma frame_upd_sem [frame_rules]: "sys_frame (OSem s) k k1 \<Longrightarrow> sys_frame (OSem s) k (upd_sem s f k1)"
  by (erule sys_frame_trans) (simp add: upd_sem_def sys_frame_def timers_ok_def timer_queue_inv_def due_def [abs_def])

lemma frame_upd_mutex [frame_rules]: "sys_frame (OMutex s) k k1 \<Longrightarrow> sys_frame (OMutex s) k (upd_mutex s f k1)"
  by (erule sys_frame_trans) (simp add: upd_mutex_def sys_frame_def timers_ok_def timer_queue_inv_def due_def [abs_def])

lemma frame_upd_event [frame_rules]: "sys_frame (OEvent s) k k1 \<Longrightarrow> sys_frame (OEvent s) k (upd_event s f k1)"
  by (erule sys_frame_trans) (simp add: upd_event_def sys_frame_def timers_ok_def timer_queue_inv_def due_def [abs_def])

lemma frame_upd_mb [frame_rules]: "sys_frame (OMailBox s) k k1 \<Longrightarrow> sys_frame (OMailBox s) k (upd_mb s f k1)"
  by (erule sys_frame_trans) (simp add: upd_mb_def sys_frame_def timers_ok_def timer_queue_inv_def due_def [abs_def])

lemma frame_upd_mq [frame_rules]: "sys_frame (OMq s) k k1 \<Longrightarrow> sys_frame (OMq s) k (upd_mq s f k1)"
  by (erule sys_frame_trans) (simp add: upd_mq_def sys_frame_def timers_ok_def timer_queue_inv_def due_def [abs_def])

lemma frame_set_priority [frame_rules]: "sys_frame ob k k1 \<Longrightarrow> sys_frame ob k (set_priority t p k1)"
  unfolding set_priority_def by (rule frame_upd_thr)

lemma frame_change_priority [frame_rules]: "sys_frame ob k k1 \<Longrightarrow> sys_frame ob k (change_priority t p k1)"
  unfolding change_priority_def by (intro frame_rules)

lemma frame_enqueue [frame_rules]:
  "sys_frame ob k k1 \<Longrightarrow> list_owner h = Some ob \<Longrightarrow> sys_frame ob k (enqueue_waiter h t flag k1)"
  by (erule sys_frame_trans)
    (auto simp: sys_frame_def timers_ok_def timer_queue_inv_def due_def [abs_def] enqueue_waiter_lists split: if_splits)

section \<open>Rules for the operations\<close>

lemma framed_stop [frame_rules]: "sys_frame ob k k1 \<Longrightarrow> framed ob k fst (rt_timer_stop tm k1)"
proof (rule framed_from, assumption, rule framedI)
  fix r assume r: "rt_timer_stop tm k1 = Some r"
  then have r': "rt_timer_stop tm k1 = Some (fst r, snd r)" by simp
  show "sys_frame ob k1 (fst r)"
    using same_but_timersD[OF timer_stop_spec(1)[OF r']] timers_ok_stop[OF _ r'] by (simp add: sys_frame_def)
qed

lemma framed_start [frame_rules]: "sys_frame ob k k1 \<Longrightarrow> framed ob k (\<lambda>x. x) (rt_timer_start tm k1)"
proof (rule framed_from, assumption, rule framedI)
  fix k2 assume r: "rt_timer_start tm k1 = Some k2"
  show "sys_frame ob k1 k2"
    using same_but_timersD[OF timer_start_spec(1)[OF r]] timers_ok_start[OF _ r] by (simp add: sys_frame_def)
qed

lemma frame_set_time [frame_rules]:
  "sys_frame ob k k1 \<Longrightarrow> sys_frame ob k (upd_timer (ThreadTimer t) (tm_init_tick_update (\<lambda>_. n)) k1)"
  by (erule sys_frame_trans) (auto simp: sys_frame_def simp del: upd_timer_sel(1) intro!: timers_ok_set_time)

lemma framed_set_time [frame_rules]:
  "sys_frame ob k k1 \<Longrightarrow> framed ob k fst (rt_timer_control (ThreadTimer t) RT_TIMER_CTRL_SET_TIME n k1)"
  unfolding rt_timer_control_def timer_cmd.case by (intro frame_rules)

lemma schedule_lists_subset:
  assumes "rt_schedule k = Some k'" "stat_of_list h = RT_THREAD_SUSPEND"
  shows "set (k_lists k' h) \<subseteq> set (k_lists k h)"
  using assms not_ready_head[OF assms(2)]
  by (auto simp: rt_schedule_def Let_def bind_eq_Some_conv split: if_splits dest: set_remove1_subset[THEN subsetD])

lemma schedule_keeps_current:
  "rt_schedule k = Some k' \<Longrightarrow> k_current k \<noteq> None \<Longrightarrow> k_current k' \<noteq> None"
  by (auto simp: rt_schedule_def Let_def bind_eq_Some_conv split: if_splits)

lemma framed_schedule [frame_rules]: "sys_frame ob k k1 \<Longrightarrow> framed ob k (\<lambda>x. x) (rt_schedule k1)"
proof (rule framed_from, assumption, rule framedI)
  fix k2 assume r: "rt_schedule k1 = Some k2"
  have "same_objects k1 k2" by (rule rt_schedule_frame[OF r])
  then show "sys_frame ob k1 k2"
    using schedule_lists_subset[OF r] schedule_keeps_current[OF r] timers_ok_cong[of k2 k1]
    by (simp add: sys_frame_def same_objects_def)
qed

lemmas framed_bind_primitive [frame_rules] =
  framed_bind[OF framed_stop] framed_bind[OF framed_start]
  framed_bind[OF framed_set_time] framed_bind[OF framed_schedule]

subsection \<open>Threads\<close>

lemma framed_resume [frame_rules]: "sys_frame ob k k1 \<Longrightarrow> framed ob k fst (rt_thread_resume t k1)"
  unfolding rt_thread_resume_def Let_def by (intro frame_rules)

lemma framed_suspend [frame_rules]: "sys_frame ob k k1 \<Longrightarrow> framed ob k fst (rt_thread_suspend t k1)"
  unfolding rt_thread_suspend_def Let_def by (intro frame_rules)

lemma framed_control [frame_rules]:
  "sys_frame ob k k1 \<Longrightarrow> framed ob k (\<lambda>x. x) (rt_thread_control t (RT_THREAD_CTRL_CHANGE_PRIORITY p) k1)"
  unfolding rt_thread_control_def thread_cmd.case by (intro frame_rules)

lemmas framed_bind_thread [frame_rules] =
  framed_bind[OF framed_resume] framed_bind[OF framed_suspend] framed_bind[OF framed_control]

lemma framed_timeout [frame_rules]: "sys_frame ob k k1 \<Longrightarrow> framed ob k (\<lambda>x. x) (rt_thread_timeout t k1)"
  unfolding rt_thread_timeout_def Let_def by (intro frame_rules)

lemma framed_sleep [frame_rules]: "sys_frame ob k k1 \<Longrightarrow> framed ob k (\<lambda>x. x) (rt_thread_sleep n k1)"
  unfolding rt_thread_sleep_def Let_def by (intro frame_rules)

subsection \<open>Waiting and waking\<close>

lemma framed_list_suspend [frame_rules]:
  "sys_frame ob k k1 \<Longrightarrow> list_owner h = Some ob \<Longrightarrow> framed ob k (\<lambda>x. x) (rt_ipc_list_suspend h t flag k1)"
  unfolding rt_ipc_list_suspend_def by (intro frame_rules)

lemma framed_list_resume [frame_rules]: "sys_frame ob k k1 \<Longrightarrow> framed ob k (\<lambda>x. x) (rt_ipc_list_resume h k1)"
  unfolding rt_ipc_list_resume_def by (intro frame_rules)

lemma framed_arm [frame_rules]: "sys_frame ob k k1 \<Longrightarrow> framed ob k (\<lambda>x. x) (arm_timer t time k1)"
  unfolding arm_timer_def by (intro frame_rules)

lemmas framed_bind_list = framed_bind[OF framed_list_suspend]
  framed_bind[OF framed_list_resume] framed_bind[OF framed_arm]

lemma framed_block [frame_rules]:
  "sys_frame ob k k1 \<Longrightarrow> list_owner h = Some ob \<Longrightarrow> framed ob k (\<lambda>x. x) (ipc_block h t flag time k1)"
  unfolding ipc_block_def by (intro framed_bind_list frame_rules)

lemmas framed_bind_block = framed_bind[OF framed_block]

lemma framed_wait_round [frame_rules]:
  "sys_frame ob k k1 \<Longrightarrow> list_owner h = Some ob \<Longrightarrow> framed ob k fst (wait_round h flag timeout td k1)"
  unfolding wait_round_def Let_def by (intro framed_bind_block frame_rules)

section \<open>The calls on objects\<close>

lemma frame_sem_take: "framed (OSem s) k fst (rt_sem_take s time k)"
  unfolding rt_sem_take_def Let_def
  by (intro framed_bind_block frame_rules sys_frame_refl list_owner.simps)

lemma frame_sem_release: "framed (OSem s) k (\<lambda>x. x) (rt_sem_release s k)"
  unfolding rt_sem_release_def Let_def
  by (intro framed_bind_list frame_rules sys_frame_refl)

lemma frame_mutex_take: "framed (OMutex m) k fst (rt_mutex_take m time k)"
  unfolding rt_mutex_take_def mutex_take_again_def Let_def
  by (intro framed_bind_block frame_rules sys_frame_refl list_owner.simps)

lemma frame_mutex_release: "framed (OMutex m) k fst (rt_mutex_release m k)"
  unfolding rt_mutex_release_def Let_def
  by (intro framed_bind_list frame_rules sys_frame_refl)

lemma frame_event_scan:
  "sys_frame (OEvent e) k k1 \<Longrightarrow> framed (OEvent e) k fst (event_scan e ts need k1)"
proof (induction ts arbitrary: need k1)
  case Nil
  then show ?case by (simp add: framed_def)
next
  case (Cons t ts)
  have IH: "framed (OEvent e) k fst (event_scan e ts n k2)" if "sys_frame (OEvent e) k k2" for n k2
    by (rule Cons.IH[OF that])
  show ?case
    unfolding event_scan.simps Let_def
    by (intro frame_rules IH Cons.prems)
qed

lemma frame_event_send: "framed (OEvent e) k fst (rt_event_send e flags k)"
  unfolding rt_event_send_def Let_def
  by (intro framed_bind[OF frame_event_scan] frame_rules sys_frame_refl)

lemma frame_event_recv: "framed (OEvent e) k fst (rt_event_recv e flags opt timeout recved k)"
  unfolding rt_event_recv_def Let_def
  by (intro framed_bind_block frame_rules sys_frame_refl list_owner.simps)

lemma frame_mb_send: "framed (OMailBox b) k fst (rt_mb_send_wait b value timeout k)"
  unfolding rt_mb_send_wait_def mb_send_loop_def Let_def
  by (intro framed_bind_list frame_rules sys_frame_refl list_owner.simps)

lemma frame_mb_recv: "framed (OMailBox b) k (\<lambda>r. fst (fst r)) (rt_mb_recv b value timeout k)"
  unfolding rt_mb_recv_def mb_recv_loop_def Let_def
  by (intro framed_bind_list framed_bind[OF framed_wait_round] frame_rules sys_frame_refl list_owner.simps)

lemma framed_mq_send_begin: "sys_frame (OMq i) k k1 \<Longrightarrow> framed (OMq i) k fst (mq_send_begin i sz k1)"
  unfolding mq_send_begin_def by (intro frame_rules)

lemma framed_mq_send_end:
  "sys_frame (OMq i) k k1 \<Longrightarrow> framed (OMq i) k (\<lambda>x. x) (mq_send_end link i m buffer sz k1)"
  unfolding mq_send_end_def Let_def by (intro framed_bind_list frame_rules)

lemmas framed_bind_mq = framed_bind[OF framed_mq_send_begin] framed_bind[OF framed_mq_send_end]

lemma frame_mq_send: "framed (OMq i) k fst (rt_mq_send i buffer sz k)"
  unfolding rt_mq_send_def by (intro framed_bind_mq frame_rules sys_frame_refl)

lemma frame_mq_urgent: "framed (OMq i) k fst (rt_mq_urgent i buffer sz k)"
  unfolding rt_mq_urgent_def by (intro framed_bind_mq frame_rules sys_frame_refl)

lemma frame_mq_recv: "framed (OMq i) k (\<lambda>r. fst (fst r)) (rt_mq_recv i buffer sz timeout k)"
  unfolding rt_mq_recv_def mq_recv_loop_def Let_def
  by (intro framed_bind_list framed_bind[OF framed_wait_round] frame_rules sys_frame_refl list_owner.simps)

end
