(* ===== verification/Thread_Properties.thy ===== *)
theory Thread_Properties
  imports Sample_State
begin

text \<open>
  What the scheduler and the thread operations promise: priority order, round robin inside a
  priority, suspending, resuming, sleeping, changing priorities and preparing the stack.
\<close>

section \<open>Priority bitmap and scheduling\<close>

text \<open>\<^verbatim>\<open>__rt_ffs\<close> returns 0 for an empty bitmap and otherwise one plus the position of the lowest
  set bit, which is the most urgent ready priority.\<close>

theorem ffs_most_urgent:
  "if v = 0 then rt_ffs v = 0
   else rt_ffs v = Suc (LEAST p. bit v p) \<and> rt_ffs v \<le> 32"
proof (cases "v = 0")
  case True then show ?thesis by (simp add: rt_ffs_zero)
next
  case False
  then obtain m where m: "m < 32" "rt_ffs v = m + 1" "bit v m" "\<forall>j<m. \<not> bit v j"
    using rt_ffs_lowest by blast
  have "(LEAST p. bit v p) = m"
    by (rule Least_equality) (use m in \<open>auto simp: not_less[symmetric]\<close>)
  then show ?thesis using False m by simp
qed

text \<open>C11. After \<^verbatim>\<open>rt_schedule\<close> outside a critical section no ready thread is more urgent than the
  current one, which is running whenever there is a ready thread; and the invariant is kept.\<close>

theorem schedule_picks_most_urgent:
  assumes inv: "sched_inv k" "current_inv k" and cur: "k_current k = Some c" "k_lock_nest k = 0"
    and r: "rt_schedule k = Some k'"
  shows "sched_inv k' \<and> current_inv k' \<and> (\<exists>c'. k_current k' = Some c' \<and>
     (\<forall>t. t_stat (thr k' t) = RT_THREAD_READY \<longrightarrow>
        t_stat (thr k' c') = RT_THREAD_RUNNING \<and>
        t_current_priority (thr k' c') \<le> t_current_priority (thr k' t)))"
proof -
  have i: "sched_inv k' \<and> current_inv k'" by (rule rt_schedule_inv[OF inv cur(1) r])
  note i' = conjunct1[OF i, unfolded sched_inv_def]
  have rd: "t \<in> set (ready_list k' (t_current_priority (thr k' t)))" if "t_stat (thr k' t) = RT_THREAD_READY" for t
    using that thread_invD(3)[OF sched_inv_exD(3)[OF i']] by simp
  from inv(1) cur(1) have "\<exists>c'. k_current k' = Some c' \<and>
     (\<forall>t. t_stat (thr k' t) = RT_THREAD_READY \<longrightarrow>
        t_stat (thr k' c') = RT_THREAD_RUNNING \<and>
        t_current_priority (thr k' c') \<le> t_current_priority (thr k' t))"
  proof (cases rule: rt_schedule_cases)
    case idle
    then have "k' = k" using r by simp
    then show ?thesis using cur(1) rd empty_group[OF inv(1)[unfolded sched_inv_def] idle(2)] by auto
  next
    case (stay p)
    then have k': "k' = upd_thr c (t_stat_update (\<lambda>_. RT_THREAD_RUNNING)) (rt_schedule_remove_thread c k)"
      using r by simp
    have "t_current_priority (thr k c) \<le> t_current_priority (thr k' t)"
      if "t_stat (thr k' t) = RT_THREAD_READY" for t
    proof (rule ccontr)
      assume "\<not> t_current_priority (thr k c) \<le> t_current_priority (thr k' t)"
      then have "ready_list k (t_current_priority (thr k' t)) = []" using stay(3,4) by simp
      then show False using rd[OF that] by (simp add: k')
    qed
    then show ?thesis using cur(1) k' by (intro exI[of _ c]) simp
  next
    case (switch to p)
    have k': "k' = switch_to c to p k" using switch(8) r by (auto split: option.splits)
    have pto: "t_current_priority (thr k to) = p"
      using ready_prio_ok(1)[OF inv(1)[unfolded sched_inv_def] switch(3)] by simp
    have "p \<le> t_current_priority (thr k' t)" if "t_stat (thr k' t) = RT_THREAD_READY" for t
    proof (rule ccontr)
      assume "\<not> p \<le> t_current_priority (thr k' t)"
      then have "ready_list k (t_current_priority (thr k' t)) = []" using switch(6) by simp
      then have "t = c \<and> t_stat (thr k c) = RT_THREAD_RUNNING"
        using rd[OF that] by (auto simp: k' switch_to_def Let_def split: if_splits)
      then show False using switch(4,7) \<open>\<not> p \<le> _\<close> by (auto simp: k' switch_to_def Let_def)
    qed
    moreover have "t_current_priority (thr k' to) = p" "t_stat (thr k' to) = RT_THREAD_RUNNING"
      using switch(4) pto by (auto simp: k' switch_to_def Let_def)
    ultimately show ?thesis by (intro exI[of _ to]) (auto simp: k')
  qed (use cur inv in \<open>auto simp: current_inv_def\<close>)
  with i show ?thesis by blast
qed

theorem schedule_picks_most_urgent_witness:
  "\<exists>k' c'. rt_schedule sample = Some k' \<and> k_current k' = Some c' \<and>
     (\<forall>t. t_stat (thr k' t) = RT_THREAD_READY \<longrightarrow>
        t_current_priority (thr k' c') \<le> t_current_priority (thr k' t))"
proof -
  obtain k' where r: "rt_schedule sample = Some k'"
    using schedule_enabled[OF sample_inv sample_stacks_ok] by auto
  from schedule_picks_most_urgent[OF kernel_invD(1,2)[OF sample_inv] _ _ r]
  show ?thesis using r by auto
qed

text \<open>C38. Round robin: when the running thread yields and the first ready thread of its priority is
  \<open>t\<close>, with nothing more urgent, \<open>t\<close> runs next and the old thread goes to the end of the queue.\<close>

theorem yield_round_robin:
  assumes inv: "sched_inv k" and cur: "k_current k = Some c" "t_stat (thr k c) = RT_THREAD_RUNNING"
    and lock: "k_lock_nest k = 0"
    and q: "ready_list k (t_current_priority (thr k c)) = t # ts"
      "\<forall>p < t_current_priority (thr k c). ready_list k p = []"
    and st: "rt_scheduler_stack_check (thr k t) = Some ()"
  shows "\<exists>k'. rt_thread_yield k = Some k' \<and> k_current k' = Some t \<and>
    t_stat (thr k' t) = RT_THREAD_RUNNING \<and> t_stat (thr k' c) = RT_THREAD_READY \<and>
    ready_list k' (t_current_priority (thr k c)) = ts @ [c]"
proof -
  let ?p = "t_current_priority (thr k c)"
  note i0 = inv[unfolded sched_inv_def]
  have mem: "t \<in> set (ready_list k ?p)" using q(1) by simp
  have tc: "t \<noteq> c" using ready_prio_ok(3)[OF i0 mem] cur(2) by auto
  have dt: "distinct (t # ts)"
    using sched_inv_exD(1)[OF i0] q(1) by (metis lists_ok_def tlist_inv_def)
  from inv cur(1) show ?thesis
  proof (cases rule: rt_schedule_cases)
    case locked then show ?thesis using lock by simp
  next
    case idle
    then show ?thesis using empty_group[OF i0 idle(2), of ?p] q(1) by simp
  next
    case (stay p) then show ?thesis using q(1) by (metis list.distinct(1))
  next
    case self then show ?thesis using cur(2) by simp
  next
    case (switch to p)
    have p: "p = ?p"
    proof (rule antisym)
      show "p \<le> ?p" using switch(7) cur(2) by simp
      show "?p \<le> p" using switch(3) q(2) by (metis empty_iff list.set(1) not_le)
    qed
    then have to: "to = t" using switch(2) q(1) by simp
    have k': "rt_thread_yield k = Some (switch_to c t ?p k)"
      using switch(8) st to p by (simp add: rt_thread_yield_def)
    have "ready_list (switch_to c t ?p k) ?p = remove1 t (ready_list k ?p @ [c])"
      using cur(2) tc by (simp add: switch_to_def Let_def)
    then have "ready_list (switch_to c t ?p k) ?p = ts @ [c]" using q(1) by simp
    then show ?thesis using k' cur(2) tc
      by (intro exI[of _ "switch_to c t ?p k"]) (auto simp: switch_to_def Let_def)
  qed
qed

theorem yield_round_robin_witness:
  "\<exists>k'. rt_thread_yield sample = Some k' \<and> k_current k' = Some 2 \<and>
    ready_list k' (t_current_priority (thr sample 1)) = [] @ [1]"
proof -
  have "\<forall>p < 10. ready_list sample p = []" by (auto simp: sample_lists_def)
  moreover have "ready_list sample 10 = 2 # []" by (simp add: sample_lists_def)
  ultimately show ?thesis
    using yield_round_robin[OF sample_sched_inv, of 1 2 "[]"] by (auto simp: sample_threads_def)
qed

section \<open>Suspending, resuming, sleeping\<close>

text \<open>A ready or running thread can always be suspended; it leaves its list and its timer stops.
  Resuming it then succeeds, makes it ready at the end of its priority queue (running if it is
  the current thread), and both calls keep the kernel invariant.\<close>

theorem suspend_then_resume:
  assumes inv: "kernel_inv k"
    and st: "t_stat (thr k t) = RT_THREAD_READY \<or> t_stat (thr k t) = RT_THREAD_RUNNING"
  shows "\<exists>k1 k2. rt_thread_suspend t k = Some (k1, RT_EOK) \<and> kernel_inv k1 \<and>
    t_stat (thr k1 t) = RT_THREAD_SUSPEND \<and> unlinked k1 t \<and>
    rt_thread_resume t k1 = Some (k2, RT_EOK) \<and> kernel_inv k2 \<and>
    (if k_current k = Some t then t_stat (thr k2 t) = RT_THREAD_RUNNING
     else last (ready_list k2 (t_current_priority (thr k t))) = t)"
proof -
  obtain k1 where k1: "rt_thread_suspend t k = Some (k1, RT_EOK)" using suspend_enabled[OF assms] by blast
  note e = suspend_effect[OF inv k1] and i1 = kernel_inv_suspend[OF inv k1]
  have s: "t_stat (thr k1 t) = RT_THREAD_SUSPEND" using e by simp
  obtain k2 where k2: "rt_thread_resume t k1 = Some (k2, RT_EOK)" using resume_enabled[OF i1 s] by blast
  note f = resume_effect[OF i1 k2] and i2 = kernel_inv_resume[OF i1 k2]
  show ?thesis
    by (rule exI[of _ k1], rule exI[of _ k2]) (use k1 k2 i1 i2 e f s in \<open>auto split: if_splits\<close>)
qed

theorem suspend_then_resume_witness:
  "\<exists>k1. rt_thread_suspend 2 sample = Some (k1, RT_EOK) \<and> t_stat (thr k1 2) = RT_THREAD_SUSPEND"
  using suspend_then_resume[OF sample_inv, of 2] by (auto simp: sample_threads_def)

lemma sleep_effect:
  assumes inv: "kernel_inv k" "stacks_ok k" and cur: "k_current k = Some t" "t_stat (thr k t) = RT_THREAD_RUNNING"
    and tk: "tick < RT_TICK_HALF"
  shows "\<exists>k1. rt_thread_sleep tick k = Some k1 \<and> kernel_inv k1 \<and> stacks_ok k1 \<and> k_current k1 \<noteq> None \<and>
    t_stat (thr k1 t) = RT_THREAD_SUSPEND \<and> ThreadTimer t \<in> set (k_timer_list k1) \<and>
    due k1 (ThreadTimer t) = k_tick k + tick"
proof -
  obtain ks where ks: "rt_thread_suspend t k = Some (ks, RT_EOK)" using suspend_enabled[OF inv(1)] cur(2) by blast
  note e = suspend_effect[OF inv(1) ks] and ins = kernel_inv_suspend[OF inv(1) ks]
  let ?k = "upd_timer (ThreadTimer t) (tm_init_tick_update (\<lambda>_. tick)) ks"
  have ty: "o_type (k_objects k (OThread t)) = RT_Object_Class_Thread"
    "o_type (k_objects k (OTimer (ThreadTimer t))) = RT_Object_Class_Timer"
    using kernel_invD(5)[OF inv(1), of t] cur(2) by (auto simp: thread_timer_inv_def live_stat_def)
  obtain k3 where k3: "rt_timer_start (ThreadTimer t) ?k = Some k3"
    using tk e ty by (auto simp: rt_timer_start_def rt_object_get_type_def Let_def timer_remove_def upd_timer_def)
  note s = timer_start_spec[OF k3] and f = same_but_timersD[OF timer_start_spec(1)[OF k3]]
  have i3: "kernel_inv k3"
  proof (rule kernel_inv_timer_start[OF _ k3])
    show "kernel_inv ?k"
      by (rule kernel_inv_timers[OF ins])
        (use kernel_invD(5)[OF ins] kernel_invD(8)[OF ins] in
          \<open>auto simp: same_but_timers_def upd_timer_def thread_timer_inv_def intro!: exI[of _ "k_timer_list ks"]\<close>)
  qed (use e in auto)
  have st3: "stacks_ok k3" using inv(2) e f cur(2) by (auto simp: stacks_ok_def live_stat_def)
  have c3: "k_current k3 = Some t" using e f cur by simp
  have t3: "t_stat (thr k3 t) = RT_THREAD_SUSPEND" using e f by simp
  obtain k1 where k1: "rt_schedule k3 = Some k1" using schedule_enabled[OF i3 st3 c3] by blast
  have rel: "sched_rel (thr k3 t) (thr k1 t)"
    by (rule rt_schedule_threads[OF kernel_invD(1,2)[OF i3] c3 k1])
  have t1: "t_stat (thr k1 t) = RT_THREAD_SUSPEND" using rel t3 by (auto simp: sched_rel_def)
  have i1: "kernel_inv k1" by (rule kernel_inv_schedule[OF i3 c3 k1])
  note g = rt_schedule_frame[OF k1, unfolded same_objects_def]
  have sl: "rt_thread_sleep tick k = Some k1"
    using ks k3 k1 cur ty e by (simp add: rt_thread_sleep_def rt_thread_self_def rt_timer_control_def rt_object_get_type_def)
  have li: "ThreadTimer t \<in> set (k_timer_list k1)" using g s(3) by simp
  have du: "due k1 (ThreadTimer t) = k_tick k + tick" using g s(2) e by (simp add: due_def)
  show ?thesis
    using sl i1 t1 li du schedule_stacks_ok[OF i3 st3 c3 k1] schedule_current[OF i3 c3 k1] by blast
qed

text \<open>\<^verbatim>\<open>rt_thread_sleep\<close> for less than half the tick range succeeds and keeps the invariant: the
  caller is suspended with its timer due after exactly that many ticks. When the timer fires, the
  handler makes the thread ready with the timeout error, which the rest of the call clears.\<close>

theorem sleep_and_wake:
  assumes inv: "kernel_inv k" "stacks_ok k" and cur: "k_current k = Some t" "t_stat (thr k t) = RT_THREAD_RUNNING"
    and tk: "tick < RT_TICK_HALF"
  shows "\<exists>k1. rt_thread_sleep tick k = Some k1 \<and> kernel_inv k1 \<and>
    t_stat (thr k1 t) = RT_THREAD_SUSPEND \<and> ThreadTimer t \<in> set (k_timer_list k1) \<and>
    due k1 (ThreadTimer t) = k_tick k + tick \<and>
    (\<exists>k2. rt_thread_timeout t (timer_remove (ThreadTimer t) k1) = Some k2 \<and>
       t_stat (thr k2 t) \<in> {RT_THREAD_READY, RT_THREAD_RUNNING} \<and>
       t_error (thr k2 t) = - RT_ETIMEOUT \<and>
       t_error (thr (rt_thread_sleep_resume t k2) t) = RT_EOK)"
proof -
  obtain k1 where sl: "rt_thread_sleep tick k = Some k1" and i1: "kernel_inv k1" and s1: "stacks_ok k1"
    and c1: "k_current k1 \<noteq> None" and t1: "t_stat (thr k1 t) = RT_THREAD_SUSPEND"
    and li: "ThreadTimer t \<in> set (k_timer_list k1)" and du: "due k1 (ThreadTimer t) = k_tick k + tick"
    using sleep_effect[OF assms] by blast
  let ?r = "timer_remove (ThreadTimer t) k1"
  have ir: "kernel_inv ?r" by (rule kernel_inv_timer_remove[OF i1])
  have sr: "stacks_ok ?r" using s1 by (simp add: stacks_ok_def)
  obtain cr where cr: "k_current ?r = Some cr" using c1 by auto
  have "ThreadTimer t \<notin> set (k_timer_list ?r)" using kernel_invD(8)[OF i1] by simp
  then obtain k2 where k2: "rt_thread_timeout t ?r = Some k2"
    using thread_timeout_frame[OF ir sr _ _, of t] cr t1 by auto
  have ki: "kernel_inv (rt_schedule_insert_thread t (tlist_remove t (upd_thr t (t_error_update (\<lambda>_. - RT_ETIMEOUT)) ?r)))"
    (is "kernel_inv ?w")
    by (rule kernel_inv_timeout_wake[OF ir]) (use t1 kernel_invD(8)[OF i1] in auto)
  have w: "rt_schedule ?w = Some k2" using k2 by (auto simp: rt_thread_timeout_def bind_eq_Some_conv Let_def)
  have cw: "k_current ?w = Some cr" using cr by simp
  have rel2: "sched_rel (thr ?w t) (thr k2 t)"
    by (rule rt_schedule_threads[OF kernel_invD(1,2)[OF ki] cw w])
  have "t_stat (thr k2 t) \<in> {RT_THREAD_READY, RT_THREAD_RUNNING}" "t_error (thr k2 t) = - RT_ETIMEOUT"
    using rel2 by (auto simp: sched_rel_def split: if_splits)
  then show ?thesis
    using sl i1 t1 li du k2 by (auto simp: rt_thread_sleep_resume_def)
qed

theorem sleep_and_wake_witness:
  "\<exists>k1. rt_thread_sleep 20 sample = Some k1 \<and> due k1 (ThreadTimer 1) = k_tick sample + 20"
  using sleep_and_wake[OF sample_inv sample_stacks_ok, of 1 20]
  by (auto simp: sample_threads_def RT_TICK_HALF_def)

text \<open>Changing the priority of a registered thread to a valid one keeps the kernel invariant; a
  ready thread moves to the end of the queue of its new priority and leaves the old one, a thread
  in any other state keeps its place. A value of 32 or more is not rejected: the thread gets an
  empty bit mask.\<close>

theorem change_priority_moves:
  assumes inv: "kernel_inv k" and r: "rt_thread_control t (RT_THREAD_CTRL_CHANGE_PRIORITY p) k = Some k'"
  shows "t_current_priority (thr k' t) = unat p \<and>
    (unat p < 32 \<longrightarrow> kernel_inv k') \<and>
    (t_stat (thr k t) = RT_THREAD_READY \<longrightarrow>
       ready_list k' (unat p) = remove1 t (ready_list k (unat p)) @ [t] \<and>
       (\<forall>q. q \<noteq> unat p \<longrightarrow> t \<notin> set (ready_list k' q))) \<and>
    (t_stat (thr k t) \<noteq> RT_THREAD_READY \<longrightarrow> k_lists k' = k_lists k) \<and>
    (32 \<le> unat p \<longrightarrow> t_number_mask (thr k' t) = 0)"
proof -
  have k': "k' = change_priority t (unat p) k" using control_result[OF r] by simp
  note th = change_priority_threads[OF inv, of t "unat p"]
  have nc: "t_stat (thr k t) = RT_THREAD_READY \<Longrightarrow> k_current k \<noteq> Some t"
    using kernel_invD(2)[OF inv] by (auto simp: current_inv_def)
  have di: "\<And>h. distinct (k_lists k h)"
    using sched_inv_exD(1)[OF kernel_invD(7)[OF inv]] by (simp add: tlist_inv_def lists_ok_def)
  have "push_bit n (1 :: u32) = 0" if "32 \<le> n" for n
    using that by (intro bit_eqI) (auto simp: bit_simps)
  then show ?thesis
    unfolding k' th using kernel_inv_change_priority[OF inv] nc di
    by (auto simp: change_priority_def)
qed

theorem change_priority_moves_witness:
  "\<exists>k'. rt_thread_control 2 (RT_THREAD_CTRL_CHANGE_PRIORITY 20) sample = Some k' \<and> kernel_inv k' \<and>
     ready_list k' 20 = [7, 2]"
proof -
  have ty: "rt_object_get_type sample (OThread 2) = RT_Object_Class_Thread"
    by (simp add: rt_object_get_type_def sample_thread_registered)
  then obtain k' where r: "rt_thread_control 2 (RT_THREAD_CTRL_CHANGE_PRIORITY 20) sample = Some k'"
    by (simp add: rt_thread_control_def)
  have "t_stat (thr sample 2) = RT_THREAD_READY" "ready_list sample 20 = [7]"
    by (simp_all add: sample_threads_def sample_lists_def)
  then show ?thesis using change_priority_moves[OF sample_inv r] r by auto
qed

section \<open>Creating and closing threads\<close>

text \<open>Initialising a thread, static and unregistered before, with a valid priority and starting it
  keeps the kernel invariant. With at least 128 bytes of stack the prepared stack
  pointer lies inside the stack, so the scheduler's overflow check accepts the thread.\<close>

theorem init_thread_ready_to_run:
  assumes inv: "kernel_inv k" and r: "rt_thread_init t name ss sz prio tick k = Some k'"
    and al: "128 \<le> sz"
  shows "kernel_inv k' \<and> t_stat (thr k' t) = RT_THREAD_INIT \<and> unat prio < 32 \<and>
    t_init_priority (thr k' t) = unat prio \<and>
    rt_scheduler_stack_check (thr k' t) = Some () \<and>
    (\<forall>k2. rt_thread_startup t k' = Some k2 \<longrightarrow> kernel_inv k2)"
proof -
  have i: "kernel_inv k'" and f: "fresh_thread ss sz prio (thr k' t)"
    using kernel_inv_thread_init[OF inv r] by simp_all
  have sp: "ss < rt_hw_stack_init (ss + sz - 4)" "rt_hw_stack_init (ss + sz - 4) \<le> ss + sz"
  proof -
    have e: "ss + sz - 4 + 4 = ss + sz" using al by simp
    have "RT_ALIGN_DOWN (ss + sz) 8 \<le> ss + sz" by (rule RT_ALIGN_DOWN_le)
    moreover have "ss + sz < RT_ALIGN_DOWN (ss + sz) 8 + 8"
      unfolding RT_ALIGN_DOWN_def using div_mult_mod_eq[of "ss + sz" 8] mod_less_divisor[of 8 "ss + sz"] by linarith
    ultimately show "ss < rt_hw_stack_init (ss + sz - 4)" "rt_hw_stack_init (ss + sz - 4) \<le> ss + sz"
      using al by (simp_all add: rt_hw_stack_init_def stack_frame_size_def e)
  qed
  then have "rt_scheduler_stack_check (thr k' t) = Some ()"
    using f al by (simp add: fresh_thread_def rt_scheduler_stack_check_def)
  then show ?thesis using i f kernel_inv_startup by (auto simp: fresh_thread_def)
qed

lemma critical_locked:
  "k_lock_nest k = 1 \<Longrightarrow> rt_exit_critical (rt_enter_critical k) = Some k"
  by (simp add: rt_exit_critical_def rt_enter_critical_def Let_def)

lemma object_init_locked:
  assumes "k_lock_nest k = 1" "cls \<in> set container_classes" "ob \<notin> set (k_containers k cls)"
  shows "rt_object_init ob cls name k =
    Some (object_attach ob \<lparr>o_name = take RT_NAME_MAX name, o_type = cls, o_static = True\<rparr> k)"
  using assms critical_locked[OF assms(1)]
  by (simp add: rt_object_init_def get_information_iff Let_def rt_enter_critical_def)

theorem init_thread_ready_to_run_witness:
  "\<exists>k'. rt_thread_init 20 ''new'' 8192 256 12 10 (sample\<lparr>k_lock_nest := 1\<rparr>) = Some k' \<and> kernel_inv k' \<and>
     rt_scheduler_stack_check (thr k' 20) = Some ()"
proof -
  have nr: "OThread 20 \<notin> set (sample_containers RT_Object_Class_Thread)"
    "OTimer (ThreadTimer 20) \<notin> set (sample_containers RT_Object_Class_Timer)"
    by (auto simp: sample_containers_def sample_registered_def)
  have "\<exists>k'. rt_thread_init 20 ''new'' 8192 256 12 10 (sample\<lparr>k_lock_nest := 1\<rparr>) = Some k'"
    using nr by (simp add: rt_thread_init_def thread_init_def rt_timer_init_def object_init_locked
        container_classes_def RT_THREAD_PRIORITY_MAX_def Let_def object_attach_def upd_thr_def)
  then obtain k' where k': "rt_thread_init 20 ''new'' 8192 256 12 10 (sample\<lparr>k_lock_nest := 1\<rparr>) = Some k'"
    by blast
  show ?thesis using init_thread_ready_to_run[OF _ k'] k' sample_inv by simp
qed



end
