(* ===== verification/System.thy ===== *)
theory System
  imports Frames Thread_Properties
begin

text \<open>
  The kernel as a whole: a thread's calls and the interrupts as steps on one state, with the
  invariants of all components together. Objects are created before the system runs; the steps are
  the calls on existing threads, timers and IPC objects, and the tick.
\<close>

section \<open>The invariant of the system\<close>

text \<open>What holds of one registered object.\<close>

fun object_ok :: "kernel \<Rightarrow> object_id \<Rightarrow> bool" where
  "object_ok k (OSem s) = (o_type (k_objects k (OSem s)) = RT_Object_Class_Semaphore \<longrightarrow> sem_inv k s)"
| "object_ok k (OMutex m) = (o_type (k_objects k (OMutex m)) = RT_Object_Class_Mutex \<longrightarrow> mutex_inv k m)"
| "object_ok k (OMailBox b) = (o_type (k_objects k (OMailBox b)) = RT_Object_Class_MailBox \<longrightarrow> mb_inv (k_mbs k b))"
| "object_ok k (OMq i) = (o_type (k_objects k (OMq i)) = RT_Object_Class_MessageQueue \<longrightarrow> mq_inv (k_mqs k i) [])"
| "object_ok k _ = True"

definition objects_ok :: "kernel \<Rightarrow> bool" where
  "objects_ok k \<longleftrightarrow> (\<forall>ob. object_ok k ob)"

definition sys_inv :: "kernel \<Rightarrow> bool" where
  "sys_inv k \<longleftrightarrow> kernel_inv k \<and> stacks_ok k \<and> k_current k \<noteq> None \<and> timers_ok k \<and> objects_ok k"

text \<open>A call on one object keeps the invariants of all others.\<close>

lemma object_ok_frame:
  assumes f: "sys_frame ob k k'" and ne: "x \<noteq> ob" and ok: "object_ok k x"
  shows "object_ok k' x"
proof (cases x)
  case (OSem s)
  have "set (k_lists k' (SemWait s)) \<subseteq> set (k_lists k (SemWait s))" "k_sems k' s = k_sems k s"
    "k_objects k' = k_objects k" using f ne OSem by (auto simp: sys_frame_def)
  then show ?thesis using ok OSem by (auto simp: sem_inv_def)
next
  case (OMutex m)
  have "set (k_lists k' (MutexWait m)) \<subseteq> set (k_lists k (MutexWait m))" "k_mutexes k' m = k_mutexes k m"
    "k_objects k' = k_objects k" using f ne OMutex by (auto simp: sys_frame_def)
  then show ?thesis using ok OMutex by (auto simp: mutex_inv_def split: option.splits)
qed (use assms in \<open>auto simp: sys_frame_def\<close>)

lemma objects_ok_frame:
  "sys_frame ob k k' \<Longrightarrow> objects_ok k \<Longrightarrow> object_ok k' ob \<Longrightarrow> objects_ok k'"
  unfolding objects_ok_def using object_ok_frame by metis

lemma sys_inv_step:
  assumes f: "sys_frame ob k k'" and inv: "sys_inv k" and new: "kernel_inv k'" "stacks_ok k'" "object_ok k' ob"
  shows "sys_inv k'"
  using objects_ok_frame[OF f _ new(3)] f inv new(1,2) by (simp add: sys_inv_def sys_frame_def)

lemma objects_ok_cong:
  assumes "k_objects k' = k_objects k" "k_sems k' = k_sems k" "k_mutexes k' = k_mutexes k" "k_mbs k' = k_mbs k"
    "k_mqs k' = k_mqs k" "k_lists k' = k_lists k"
  shows "objects_ok k' = objects_ok k"
proof -
  have "object_ok k' ob = object_ok k ob" for ob
    by (cases ob) (simp_all add: assms sem_inv_def mutex_inv_def split: option.split)
  then show ?thesis by (simp add: objects_ok_def)
qed

lemma sys_invD:
  assumes "sys_inv k"
  shows "kernel_inv k" "stacks_ok k" "k_current k \<noteq> None" "timers_ok k" "objects_ok k" "object_ok k ob"
  using assms by (auto simp: sys_inv_def objects_ok_def)

section \<open>Steps\<close>

datatype kcall =
    Tick | Interrupt_Enter | Interrupt_Leave | Enter_Critical | Exit_Critical
  | Yield | Sleep rt_tick_t | Suspend nat | Resume nat | Change_Priority nat u8
  | Timer_Start nat | Timer_Stop nat
  | Sem_Take nat int | Sem_Release nat | Mutex_Take nat int | Mutex_Release nat
  | Event_Send nat u32 | Event_Recv nat u32 u8 int
  | Mb_Send nat u32 int | Mb_Recv nat int
  | Mq_Send nat "u8 list" nat | Mq_Urgent nat "u8 list" nat | Mq_Recv nat "u8 list" nat int

text \<open>The state a call leaves; \<open>cb\<close> are the functions of the user timers.\<close>

fun exec :: "(nat \<Rightarrow> kernel \<Rightarrow> kernel option) \<Rightarrow> kcall \<Rightarrow> kernel \<Rightarrow> kernel option" where
  "exec cb Tick k = rt_tick_increase cb k"
| "exec cb Interrupt_Enter k = Some (rt_interrupt_enter k)"
| "exec cb Interrupt_Leave k = Some (rt_interrupt_leave k)"
| "exec cb Enter_Critical k = Some (rt_enter_critical k)"
| "exec cb Exit_Critical k = rt_exit_critical k"
| "exec cb Yield k = rt_thread_yield k"
| "exec cb (Sleep n) k = rt_thread_sleep n k"
| "exec cb (Suspend t) k = map_option fst (rt_thread_suspend t k)"
| "exec cb (Resume t) k = map_option fst (rt_thread_resume t k)"
| "exec cb (Change_Priority t p) k = rt_thread_control t (RT_THREAD_CTRL_CHANGE_PRIORITY p) k"
| "exec cb (Timer_Start u) k = rt_timer_start (UserTimer u) k"
| "exec cb (Timer_Stop u) k = map_option fst (rt_timer_stop (UserTimer u) k)"
| "exec cb (Sem_Take s time) k = map_option fst (rt_sem_take s time k)"
| "exec cb (Sem_Release s) k = rt_sem_release s k"
| "exec cb (Mutex_Take m time) k = map_option fst (rt_mutex_take m time k)"
| "exec cb (Mutex_Release m) k = map_option fst (rt_mutex_release m k)"
| "exec cb (Event_Send e flags) k = map_option fst (rt_event_send e flags k)"
| "exec cb (Event_Recv e flags opt time) k = map_option fst (rt_event_recv e flags opt time 0 k)"
| "exec cb (Mb_Send b v time) k = map_option fst (rt_mb_send_wait b v time k)"
| "exec cb (Mb_Recv b time) k = map_option (\<lambda>r. fst (fst r)) (rt_mb_recv b 0 time k)"
| "exec cb (Mq_Send i buffer sz) k = map_option fst (rt_mq_send i buffer sz k)"
| "exec cb (Mq_Urgent i buffer sz) k = map_option fst (rt_mq_urgent i buffer sz k)"
| "exec cb (Mq_Recv i buffer sz time) k = map_option (\<lambda>r. fst (fst r)) (rt_mq_recv i buffer sz time k)"

text \<open>The rules of use: objects are registered, waiting times below half the tick range, and only a
  running thread outside interrupts may wait.\<close>

definition is_running :: "kernel \<Rightarrow> bool" where
  "is_running k \<longleftrightarrow> (case k_current k of None \<Rightarrow> False | Some c \<Rightarrow> running_thread k c)"

definition time_ok :: "int \<Rightarrow> bool" where
  "time_ok time \<longleftrightarrow> time < 2 ^ 31 - 1"

fun admissible :: "kernel \<Rightarrow> kcall \<Rightarrow> bool" where
  "admissible k (Sleep n) = (is_running k \<and> n < RT_TICK_HALF)"
| "admissible k (Suspend t) = (o_type (k_objects k (OThread t)) = RT_Object_Class_Thread)"
| "admissible k (Resume t) = (o_type (k_objects k (OThread t)) = RT_Object_Class_Thread)"
| "admissible k (Change_Priority t p) = (o_type (k_objects k (OThread t)) = RT_Object_Class_Thread \<and> unat p < 32)"
| "admissible k (Timer_Start u) = (o_type (k_objects k (OTimer (UserTimer u))) = RT_Object_Class_Timer)"
| "admissible k (Timer_Stop u) = (o_type (k_objects k (OTimer (UserTimer u))) = RT_Object_Class_Timer)"
| "admissible k (Sem_Take s time) =
     (o_type (k_objects k (OSem s)) = RT_Object_Class_Semaphore \<and> time_ok time \<and> is_running k)"
| "admissible k (Sem_Release s) = (o_type (k_objects k (OSem s)) = RT_Object_Class_Semaphore)"
| "admissible k (Mutex_Take m time) =
     (o_type (k_objects k (OMutex m)) = RT_Object_Class_Mutex \<and> time_ok time \<and> is_running k)"
| "admissible k (Mutex_Release m) = (o_type (k_objects k (OMutex m)) = RT_Object_Class_Mutex \<and> is_running k)"
| "admissible k (Event_Send e flags) = (o_type (k_objects k (OEvent e)) = RT_Object_Class_Event)"
| "admissible k (Event_Recv e flags opt time) =
     (o_type (k_objects k (OEvent e)) = RT_Object_Class_Event \<and> time_ok time \<and> is_running k \<and>
      opt AND (RT_EVENT_FLAG_AND OR RT_EVENT_FLAG_OR) \<noteq> 0)"
| "admissible k (Mb_Send b v time) =
     (o_type (k_objects k (OMailBox b)) = RT_Object_Class_MailBox \<and> time_ok time \<and> (time = 0 \<or> is_running k))"
| "admissible k (Mb_Recv b time) =
     (o_type (k_objects k (OMailBox b)) = RT_Object_Class_MailBox \<and> time_ok time \<and> (time = 0 \<or> is_running k))"
| "admissible k (Mq_Send i buffer sz) =
     (o_type (k_objects k (OMq i)) = RT_Object_Class_MessageQueue \<and> 0 < sz \<and> sz \<le> length buffer)"
| "admissible k (Mq_Urgent i buffer sz) =
     (o_type (k_objects k (OMq i)) = RT_Object_Class_MessageQueue \<and> 0 < sz \<and> sz \<le> length buffer)"
| "admissible k (Mq_Recv i buffer sz time) =
     (o_type (k_objects k (OMq i)) = RT_Object_Class_MessageQueue \<and> 0 < sz \<and> sz \<le> length buffer \<and>
      time_ok time \<and> (time = 0 \<or> is_running k))"
| "admissible k _ = True"

text \<open>A well-behaved set of timer functions also keeps the objects' invariants.\<close>

definition callbacks_ok :: "(nat \<Rightarrow> kernel \<Rightarrow> kernel option) \<Rightarrow> bool" where
  "callbacks_ok cb \<longleftrightarrow> callback_ok cb \<and> (\<forall>i k k'. objects_ok k \<longrightarrow> cb i k = Some k' \<longrightarrow> objects_ok k')"

inductive sys_step :: "(nat \<Rightarrow> kernel \<Rightarrow> kernel option) \<Rightarrow> kernel \<Rightarrow> kernel \<Rightarrow> bool" for cb where
  call: "admissible k c \<Longrightarrow> exec cb c k = Some k' \<Longrightarrow> sys_step cb k k'"

inductive_cases sys_stepE: "sys_step cb k k'"

section \<open>Every admissible call returns and keeps the invariant\<close>

lemma call_ok:
  assumes inv: "sys_inv k" and f: "framed ob k g m"
    and e: "m = Some r" "kernel_inv (g r)" "stacks_ok (g r)" "object_ok (g r) ob"
  shows "\<exists>k'. map_option g m = Some k' \<and> sys_inv k'"
  using sys_inv_step[OF framedD[OF f e(1)] inv e(2-4)] e(1) by simp

lemma call_ok_id:
  assumes "sys_inv k" "framed ob k (\<lambda>x. x) m" "m = Some k1" "kernel_inv k1" "stacks_ok k1" "object_ok k1 ob"
  shows "\<exists>k'. m = Some k' \<and> sys_inv k'"
  using call_ok[OF assms] assms(3) by simp

lemma is_runningE:
  assumes "is_running k" obtains c where "running_thread k c" "k_current k = Some c" "t_stat (thr k c) = RT_THREAD_RUNNING"
  using assms by (auto simp: is_running_def running_thread_def split: option.splits)

subsection \<open>Scheduling and threads\<close>

lemma ok_yield:
  assumes inv: "sys_inv k" shows "\<exists>k'. rt_thread_yield k = Some k' \<and> sys_inv k'"
proof -
  note i = sys_invD[OF inv]
  obtain c where c: "k_current k = Some c" using i(3) by blast
  obtain k' where k': "rt_schedule k = Some k'" "kernel_inv k'" "stacks_ok k'"
    using schedule_effect[OF i(1,2) c] by blast
  show ?thesis unfolding rt_thread_yield_def
    by (rule call_ok_id[OF inv framed_schedule[OF sys_frame_refl], of _ "ODevice 0"]) (use k' in simp_all)
qed

lemma ok_sleep:
  assumes inv: "sys_inv k" and a: "is_running k" "n < RT_TICK_HALF"
  shows "\<exists>k'. rt_thread_sleep n k = Some k' \<and> sys_inv k'"
proof -
  note i = sys_invD[OF inv]
  from a(1) obtain c where c: "k_current k = Some c" "t_stat (thr k c) = RT_THREAD_RUNNING" by (rule is_runningE)
  obtain k' where k': "rt_thread_sleep n k = Some k'" "kernel_inv k'" "stacks_ok k'"
    using sleep_effect[OF i(1,2) c a(2)] by blast
  show ?thesis
    by (rule call_ok_id[OF inv framed_sleep[OF sys_frame_refl], of _ _ "ODevice 0"]) (use k' in simp_all)
qed

lemma suspend_stacks_ok:
  assumes "kernel_inv k" "stacks_ok k" "rt_thread_suspend t k = Some (k', RT_EOK)"
  shows "stacks_ok k'"
  using assms(3)
proof (cases rule: suspend_result)
  case (ok r')
  then have "live_stat (t_stat (thr k t))" by (auto simp: live_stat_def)
  then show ?thesis using assms(2) suspend_effect[OF assms(1,3)] by (auto simp: stacks_ok_def)
qed (simp add: RT_EOK_def RT_ERROR_def)

lemma ok_suspend:
  assumes inv: "sys_inv k" and ty: "o_type (k_objects k (OThread t)) = RT_Object_Class_Thread"
  shows "\<exists>k'. map_option fst (rt_thread_suspend t k) = Some k' \<and> sys_inv k'"
proof (cases "t_stat (thr k t) = RT_THREAD_READY \<or> t_stat (thr k t) = RT_THREAD_RUNNING")
  case True
  note i = sys_invD[OF inv]
  obtain k' where k': "rt_thread_suspend t k = Some (k', RT_EOK)" using suspend_enabled[OF i(1) True] by blast
  show ?thesis
    by (rule call_ok[OF inv framed_suspend[OF sys_frame_refl] k', of "ODevice 0"])
      (use kernel_inv_suspend[OF i(1) k'] suspend_stacks_ok[OF i(1,2) k'] in simp_all)
next
  case False
  then show ?thesis using inv ty by (auto simp: rt_thread_suspend_def rt_object_get_type_def Let_def)
qed

lemma ok_resume:
  assumes inv: "sys_inv k" and ty: "o_type (k_objects k (OThread t)) = RT_Object_Class_Thread"
  shows "\<exists>k'. map_option fst (rt_thread_resume t k) = Some k' \<and> sys_inv k'"
proof (cases "t_stat (thr k t) = RT_THREAD_SUSPEND")
  case True
  note i = sys_invD[OF inv]
  obtain k' where k': "rt_thread_resume t k = Some (k', RT_EOK)" using resume_enabled[OF i(1) True] by blast
  show ?thesis
    by (rule call_ok[OF inv framed_resume[OF sys_frame_refl] k', of "ODevice 0"])
      (use kernel_inv_resume[OF i(1) k'] resume_stacks_ok[OF i(1,2) k'] in simp_all)
next
  case False
  then show ?thesis using inv ty by (auto simp: rt_thread_resume_def rt_object_get_type_def)
qed

lemma ok_change_priority:
  assumes inv: "sys_inv k" and a: "o_type (k_objects k (OThread t)) = RT_Object_Class_Thread" "unat p < 32"
  shows "\<exists>k'. rt_thread_control t (RT_THREAD_CTRL_CHANGE_PRIORITY p) k = Some k' \<and> sys_inv k'"
proof -
  note i = sys_invD[OF inv]
  have c: "rt_thread_control t (RT_THREAD_CTRL_CHANGE_PRIORITY p) k = Some (change_priority t (unat p) k)"
    using a(1) by (simp add: rt_thread_control_def rt_object_get_type_def)
  show ?thesis
    by (rule call_ok_id[OF inv framed_control[OF sys_frame_refl] c, of "ODevice 0"])
      (use kernel_inv_change_priority[OF i(1) a(2)] stacks_ok_change_priority[OF i(1,2)] in simp_all)
qed

text \<open>The counters of interrupts and critical sections are outside the invariant.\<close>

lemma timers_ok_counters [simp]:
  "timers_ok (k\<lparr>k_interrupt_nest := n\<rparr>) = timers_ok k" "timers_ok (k\<lparr>k_lock_nest := l\<rparr>) = timers_ok k"
  by (rule timers_ok_cong; simp)+

lemma frame_counters [frame_rules]:
  "sys_frame ob k k1 \<Longrightarrow> sys_frame ob k (k1\<lparr>k_interrupt_nest := n\<rparr>)"
  "sys_frame ob k k1 \<Longrightarrow> sys_frame ob k (k1\<lparr>k_lock_nest := l\<rparr>)"
  by (erule sys_frame_trans, simp add: sys_frame_def)+

lemma ok_counters:
  assumes inv: "sys_inv k"
  shows "sys_inv (k\<lparr>k_interrupt_nest := n\<rparr>)" "sys_inv (k\<lparr>k_lock_nest := l\<rparr>)"
  by (rule sys_inv_step[where ob = "ODevice 0", OF frame_counters(1)[OF sys_frame_refl] inv]
        sys_inv_step[where ob = "ODevice 0", OF frame_counters(2)[OF sys_frame_refl] inv];
      use sys_invD(1,2)[OF inv] in \<open>simp add: stacks_ok_def\<close>)+

lemma ok_exit_critical:
  assumes inv: "sys_inv k" shows "\<exists>k'. rt_exit_critical k = Some k' \<and> sys_inv k'"
proof -
  note i = sys_invD[OF inv]
  obtain c where c: "k_current k = Some c" using i(3) by blast
  have f: "framed (ODevice 0) k (\<lambda>x. x) (rt_exit_critical k)"
    unfolding rt_exit_critical_def Let_def by (intro frame_rules sys_frame_refl)
  obtain k' where k': "rt_exit_critical k = Some k'" "kernel_inv k'" "stacks_ok k'"
    using exit_critical_effect[OF i(1,2) c] by blast
  show ?thesis by (rule call_ok_id[OF inv f k']) simp
qed

subsection \<open>Timers and the tick\<close>

lemma ok_timer_start:
  assumes inv: "sys_inv k" and ty: "o_type (k_objects k (OTimer (UserTimer u))) = RT_Object_Class_Timer"
  shows "\<exists>k'. rt_timer_start (UserTimer u) k = Some k' \<and> sys_inv k'"
proof -
  note i = sys_invD[OF inv]
  have "tm_init_tick (k_timers k (UserTimer u)) < RT_TICK_HALF" using i(4) by (simp add: timers_ok_def)
  then obtain k' where k': "rt_timer_start (UserTimer u) k = Some k'"
    using ty by (auto simp: rt_timer_start_def rt_object_get_type_def Let_def timer_remove_def upd_timer_def)
  have "kernel_inv k'" by (rule kernel_inv_timer_start[OF i(1) k']) simp
  moreover have "stacks_ok k'" using i(2) same_but_timersD[OF timer_start_spec(1)[OF k']] by (simp add: stacks_ok_def)
  ultimately show ?thesis
    by (intro call_ok_id[OF inv framed_start[OF sys_frame_refl] k', of "ODevice 0"]) simp_all
qed

lemma ok_timer_stop:
  assumes inv: "sys_inv k" and ty: "o_type (k_objects k (OTimer (UserTimer u))) = RT_Object_Class_Timer"
  shows "\<exists>k'. map_option fst (rt_timer_stop (UserTimer u) k) = Some k' \<and> sys_inv k'"
proof -
  note i = sys_invD[OF inv]
  have "\<exists>k' r. rt_timer_stop (UserTimer u) k = Some (k', r)"
    using ty by (simp add: rt_timer_stop_def rt_object_get_type_def)
  then obtain k' r where k': "rt_timer_stop (UserTimer u) k = Some (k', r)" by blast
  have "stacks_ok k'" using i(2) same_but_timersD[OF timer_stop_spec(1)[OF k']] by (simp add: stacks_ok_def)
  then show ?thesis
    by (intro call_ok[OF inv framed_stop[OF sys_frame_refl] k', of "ODevice 0"])
      (simp_all add: kernel_inv_timer_stop[OF i(1) k'])
qed

definition timer_attrs :: "kernel \<Rightarrow> bool" where
  "timer_attrs k \<longleftrightarrow> (\<forall>t. \<not> tm_periodic (k_timers k (ThreadTimer t))) \<and>
     (\<forall>u. 0 < tm_init_tick (k_timers k (UserTimer u)) \<and> tm_init_tick (k_timers k (UserTimer u)) < RT_TICK_HALF \<and>
        (\<exists>i. tm_func (k_timers k (UserTimer u)) = User_Timeout i))"

lemma ok_tick:
  assumes inv: "sys_inv k" and cb: "callbacks_ok cb"
  shows "\<exists>k'. rt_tick_increase cb k = Some k' \<and> sys_inv k'"
proof -
  note i = sys_invD[OF inv]
  let ?Q = "\<lambda>k. objects_ok k \<and> timer_attrs k" and ?o = "ODevice 0"
  have cb': "callback_ok cb" using cb by (simp add: callbacks_ok_def)
  have env: "objects_ok k2" if "sys_frame ?o k1 k2" "objects_ok k1" for k1 k2
    by (rule objects_ok_frame[OF that]) simp
  obtain c where c: "k_current k = Some c" using i(3) by blast
  let ?kt = "k\<lparr>k_tick := k_tick k + 1\<rparr>"
  let ?k0 = "upd_thr c (\<lambda>th. th\<lparr>t_remaining_tick := t_remaining_tick th - 1\<rparr>) ?kt"
  let ?kr = "upd_thr c (\<lambda>th. th\<lparr>t_remaining_tick := t_init_tick th\<rparr>) ?k0"
  have tq: "timer_queue_inv k" using i(4) by (simp add: timers_ok_def)
  obtain k1 where k1: "rt_tick_increase cb k = timer_check_loop cb (k_tick k1) k1" "check_inv k1"
    "k_timers k1 = k_timers k" "k1 = ?k0 \<or> rt_schedule ?kr = Some k1"
    using tick_prefix[OF i(1,2) c tq timers_ok_listed[OF i(4)] refl refl] by blast
  have fr: "sys_frame ?o ?kt ?k0" "sys_frame ?o ?kt ?kr" by (intro frame_rules sys_frame_refl)+
  have "sys_frame ?o ?kt k1" using k1(4) fr framedD[OF framed_schedule[OF fr(2)]] by blast
  moreover have "objects_ok ?kt"
    using i(5) by (rule iffD2[OF objects_ok_cong, rotated -1]) simp_all
  ultimately have q1: "?Q k1"
    using env i(4) k1(3) by (simp add: timers_ok_def timer_attrs_def)
  have ends: "\<exists>k'. timer_check_loop cb (k_tick k1) k1 = Some k' \<and> check_inv k' \<and> k_tick k' = k_tick k1 \<and>
    (k_timer_list k' = [] \<or> \<not> expired k' (hd (k_timer_list k'))) \<and> ?Q k'"
  proof (rule check_loop_ends[where Q = ?Q, OF k1(2) cb' q1])
    fix k tm k1
    assume q: "?Q k" and r: "timeout_call cb (tm_func (k_timers k tm)) (timer_remove tm k) = Some k1"
      and f: "callback_frame (timer_remove tm k) k1"
    have rm: "objects_ok (timer_remove tm k)"
      using conjunct1[OF q] by (rule iffD2[OF objects_ok_cong, rotated -1]) (simp_all add: timer_remove_def)
    have o1: "objects_ok k1"
    proof (cases "tm_func (k_timers k tm)")
      case (Rt_Thread_Timeout t)
      then show ?thesis
        using r env[OF framedD[OF framed_timeout[OF sys_frame_refl]] rm] by (simp add: timeout_call_def)
    next
      case (User_Timeout u)
      then show ?thesis using r rm cb by (auto simp: timeout_call_def callbacks_ok_def)
    qed
    have "objects_ok (upd_timer tm (tm_activated_update (\<lambda>_. False)) k1)"
      using o1 by (rule iffD2[OF objects_ok_cong, rotated -1]) simp_all
    moreover have "timer_attrs (upd_timer tm (tm_activated_update (\<lambda>_. False)) k1)"
      using q callback_frameD(7-9)[OF f] by (auto simp: timer_attrs_def)
    ultimately show "?Q (upd_timer tm (tm_activated_update (\<lambda>_. False)) k1)" ..
  next
    fix k tm k'
    assume q: "?Q k" and r: "rt_timer_start tm k = Some k'"
    have "sys_frame ?o k k'" by (rule framedD[OF framed_start[OF sys_frame_refl] r])
    then show "?Q k'" using env q timer_start_spec(2)[OF r] by (auto simp: timer_attrs_def)
  qed
  then obtain k' where k': "timer_check_loop cb (k_tick k1) k1 = Some k'" "check_inv k'"
    "k_timer_list k' = [] \<or> \<not> expired k' (hd (k_timer_list k'))" "?Q k'" by blast
  have "timers_ok k'"
    using check_done(1)[OF k'(2,3)] k'(2,4) kernel_invD(8)[of k']
    by (simp add: timers_ok_def timer_attrs_def check_inv_def listed_ok_def)
  then show ?thesis using k1(1) k' by (auto simp: sys_inv_def check_inv_def)
qed

subsection \<open>Semaphores, mutexes, events\<close>

lemma ok_sem_take:
  assumes inv: "sys_inv k" and a: "o_type (k_objects k (OSem s)) = RT_Object_Class_Semaphore" "time_ok time" "is_running k"
  shows "\<exists>k'. map_option fst (rt_sem_take s time k) = Some k' \<and> sys_inv k'"
proof -
  note i = sys_invD[OF inv]
  from a(3) obtain c where c: "running_thread k c" by (rule is_runningE)
  have si: "sem_inv k s" using i(6)[of "OSem s"] a(1) by simp
  obtain k' r where e: "rt_sem_take s time k = Some (k', r)" "kernel_inv k'" "stacks_ok k'"
    and d: "if sem_value (k_sems k s) > 0 then
       r = Done RT_EOK \<and> sem_abs k' s = (fst (sem_abs k s) - 1, snd (sem_abs k s)) \<and> k_threads k' = k_threads k
     else if time = 0 then r = Done (- RT_ETIMEOUT) \<and> k' = k
     else r = Blocked \<and> t_stat (thr k' c) = RT_THREAD_SUSPEND \<and> t_error (thr k' c) = RT_EOK \<and>
       sem_abs k' s = (0, waiters_after (sem_flag (k_sems k s)) (\<lambda>u. t_current_priority (thr k u)) c
                            (k_lists k (SemWait s))) \<and>
       (ThreadTimer c \<in> set (k_timer_list k') \<longleftrightarrow> time > 0)"
    using sem_take_effect[OF i(1,2) c a(1) a(2)[unfolded time_ok_def]] by blast
  have "sem_inv k' s"
    using d si by (auto simp: sem_abs_def sem_inv_def unat_eq_0 split: if_splits)
  then show ?thesis using e by (intro call_ok[OF inv frame_sem_take e(1)]) simp_all
qed

lemma ok_sem_release:
  assumes inv: "sys_inv k" and ty: "o_type (k_objects k (OSem s)) = RT_Object_Class_Semaphore"
  shows "\<exists>k'. rt_sem_release s k = Some k' \<and> sys_inv k'"
proof -
  note i = sys_invD[OF inv]
  obtain c where c: "k_current k = Some c" using i(3) by blast
  have si: "sem_inv k s" using i(6)[of "OSem s"] ty by simp
  obtain k' where e: "rt_sem_release s k = Some k'" "kernel_inv k'" "stacks_ok k'"
    and d: "if k_lists k (SemWait s) = [] \<and> sem_value (k_sems k s) = 0xFFFF then sem_abs k' s = (0, [])
     else sem_abs k' s = abs_release (sem_abs k s)"
    using sem_release_effect[OF i(1,2) c ty] by blast
  have "sem_inv k' s"
    using d si by (auto simp: sem_abs_def sem_inv_def abs_release_def unat_eq_0 word_gt_0 split: if_splits)
  then show ?thesis using e by (intro call_ok_id[OF inv frame_sem_release e(1)]) simp_all
qed

lemma ok_mutex_take:
  assumes inv: "sys_inv k" and a: "o_type (k_objects k (OMutex m)) = RT_Object_Class_Mutex" "time_ok time" "is_running k"
  shows "\<exists>k'. map_option fst (rt_mutex_take m time k) = Some k' \<and> sys_inv k'"
proof -
  note i = sys_invD[OF inv]
  from a(3) obtain c where c: "running_thread k c" by (rule is_runningE)
  have mi: "mutex_inv k m" using i(6)[of "OMutex m"] a(1) by simp
  obtain k' r where e: "rt_mutex_take m time k = Some (k', r)" "kernel_inv k'" "stacks_ok k'" "mutex_inv k' m"
    using mutex_take_effect[OF i(1,2) mi c a(1) a(2)[unfolded time_ok_def]] by blast
  then show ?thesis by (intro call_ok[OF inv frame_mutex_take e(1)]) simp_all
qed

lemma ok_mutex_release:
  assumes inv: "sys_inv k" and a: "o_type (k_objects k (OMutex m)) = RT_Object_Class_Mutex" "is_running k"
  shows "\<exists>k'. map_option fst (rt_mutex_release m k) = Some k' \<and> sys_inv k'"
proof -
  note i = sys_invD[OF inv]
  from a(2) obtain c where c: "running_thread k c" by (rule is_runningE)
  have mi: "mutex_inv k m" using i(6)[of "OMutex m"] a(1) by simp
  obtain k' r where e: "rt_mutex_release m k = Some (k', r)" "kernel_inv k'" "stacks_ok k'" "mutex_inv k' m"
    using mutex_release_effect[OF i(1,2) mi c a(1)] by blast
  then show ?thesis by (intro call_ok[OF inv frame_mutex_release e(1)]) simp_all
qed

lemma ok_event_send:
  assumes inv: "sys_inv k" and ty: "o_type (k_objects k (OEvent e)) = RT_Object_Class_Event"
  shows "\<exists>k'. map_option fst (rt_event_send e flags k) = Some k' \<and> sys_inv k'"
proof (cases "flags = 0")
  case True
  then show ?thesis using inv ty by (simp add: rt_event_send_def rt_object_get_type_def)
next
  case False
  note i = sys_invD[OF inv]
  obtain ev' w l where w: "wake (ev_set (k_events k e) OR flags) (requests k (k_lists k (EventWait e))) = (ev', w, l)"
    by (metis prod_cases3)
  obtain k' where e: "rt_event_send e flags k = Some (k', RT_EOK)" "kernel_inv k'" "stacks_ok k'"
    using event_send_effect[OF i(1-3) ty False w] by blast
  then show ?thesis by (intro call_ok[OF inv frame_event_send e(1)]) simp_all
qed

lemma ok_event_recv:
  assumes inv: "sys_inv k" and a: "o_type (k_objects k (OEvent e)) = RT_Object_Class_Event" "time_ok time" "is_running k"
    "opt AND (RT_EVENT_FLAG_AND OR RT_EVENT_FLAG_OR) \<noteq> 0"
  shows "\<exists>k'. map_option fst (rt_event_recv e flags opt time r0 k) = Some k' \<and> sys_inv k'"
proof -
  note i = sys_invD[OF inv]
  from a(3) obtain c where c: "running_thread k c" by (rule is_runningE)
  show ?thesis
  proof (cases "flags = 0")
    case True
    then show ?thesis
      using inv a(1) c by (simp add: rt_event_recv_def rt_object_get_type_def rt_debug_in_thread_context_def
          rt_debug_not_in_interrupt_def rt_interrupt_get_nest_def rt_thread_self_def running_thread_def)
  next
    case False
    obtain k' r got where e: "rt_event_recv e flags opt time r0 k = Some (k', r, got)" "kernel_inv k'" "stacks_ok k'"
      using event_recv_effect[OF i(1,2) c a(1) False a(2)[unfolded time_ok_def], of opt r0] a(4) by auto
    then show ?thesis by (intro call_ok[OF inv frame_event_recv e(1)]) simp_all
  qed
qed

subsection \<open>Mailboxes and message queues\<close>

lemma ok_mb_send:
  assumes inv: "sys_inv k" and a: "o_type (k_objects k (OMailBox b)) = RT_Object_Class_MailBox" "time_ok time"
    "time = 0 \<or> is_running k"
  shows "\<exists>k'. map_option fst (rt_mb_send_wait b v time k) = Some k' \<and> sys_inv k'"
proof -
  note i = sys_invD[OF inv]
  obtain c where c: "k_current k = Some c" using i(3) by blast
  have run: "mb_entry (k_mbs k b) = mb_size (k_mbs k b) \<and> time \<noteq> 0 \<longrightarrow> running_thread k c"
    using a(3) c by (auto simp: is_running_def)
  have mi: "mb_inv (k_mbs k b)" using i(6)[of "OMailBox b"] a(1) by simp
  obtain k' r td where e: "rt_mb_send_wait b v time k = Some (k', r, td)" "kernel_inv k'" "stacks_ok k'" "mb_inv (k_mbs k' b)"
    using mailbox_send_effect[OF i(1,2) c a(1) mi a(2)[unfolded time_ok_def] run] by blast
  then show ?thesis by (intro call_ok[OF inv frame_mb_send e(1)]) simp_all
qed

lemma ok_mb_recv:
  assumes inv: "sys_inv k" and a: "o_type (k_objects k (OMailBox b)) = RT_Object_Class_MailBox" "time_ok time"
    "time = 0 \<or> is_running k"
  shows "\<exists>k'. map_option (\<lambda>r. fst (fst r)) (rt_mb_recv b v time k) = Some k' \<and> sys_inv k'"
proof -
  note i = sys_invD[OF inv]
  obtain c where c: "k_current k = Some c" using i(3) by blast
  have run: "mb_contents (k_mbs k b) = [] \<and> time \<noteq> 0 \<longrightarrow> running_thread k c"
    using a(3) c by (auto simp: is_running_def)
  have mi: "mb_inv (k_mbs k b)" using i(6)[of "OMailBox b"] a(1) by simp
  obtain k' r td v' where e: "rt_mb_recv b v time k = Some ((k', r, td), v')" "kernel_inv k'" "stacks_ok k'" "mb_inv (k_mbs k' b)"
    using mailbox_recv_effect[OF i(1,2) c a(1) mi a(2)[unfolded time_ok_def] run] by blast
  then show ?thesis by (intro call_ok[OF inv frame_mb_recv e(1)]) simp_all
qed

lemma ok_mq_send:
  assumes inv: "sys_inv k" and a: "o_type (k_objects k (OMq i)) = RT_Object_Class_MessageQueue" "0 < sz" "sz \<le> length buffer"
  shows "\<exists>k'. map_option fst (rt_mq_send i buffer sz k) = Some k' \<and> sys_inv k'"
    "\<exists>k'. map_option fst (rt_mq_urgent i buffer sz k) = Some k' \<and> sys_inv k'"
proof -
  note d = sys_invD[OF inv]
  obtain c where c: "k_current k = Some c" using d(3) by blast
  have mi: "mq_inv (k_mqs k i) []" using d(6)[of "OMq i"] a(1) by simp
  obtain k' r where e: "rt_mq_send i buffer sz k = Some (k', r)" "kernel_inv k'" "stacks_ok k'" "mq_inv (k_mqs k' i) []"
    using mq_send_effect[OF d(1,2) c a(1) mi a(2,3), of False] by auto
  then show "\<exists>k'. map_option fst (rt_mq_send i buffer sz k) = Some k' \<and> sys_inv k'"
    by (intro call_ok[OF inv frame_mq_send e(1)]) simp_all
  obtain k' r where e: "rt_mq_urgent i buffer sz k = Some (k', r)" "kernel_inv k'" "stacks_ok k'" "mq_inv (k_mqs k' i) []"
    using mq_send_effect[OF d(1,2) c a(1) mi a(2,3), of True] by auto
  then show "\<exists>k'. map_option fst (rt_mq_urgent i buffer sz k) = Some k' \<and> sys_inv k'"
    by (intro call_ok[OF inv frame_mq_urgent e(1)]) simp_all
qed

lemma ok_mq_recv:
  assumes inv: "sys_inv k" and a: "o_type (k_objects k (OMq i)) = RT_Object_Class_MessageQueue" "0 < sz" "sz \<le> length buffer"
    "time_ok time" "time = 0 \<or> is_running k"
  shows "\<exists>k'. map_option (\<lambda>r. fst (fst r)) (rt_mq_recv i buffer sz time k) = Some k' \<and> sys_inv k'"
proof -
  note d = sys_invD[OF inv]
  obtain c where c: "k_current k = Some c" using d(3) by blast
  have run: "mq_contents (k_mqs k i) = [] \<and> time \<noteq> 0 \<longrightarrow> running_thread k c"
    using a(5) c by (auto simp: is_running_def)
  have mi: "mq_inv (k_mqs k i) []" using d(6)[of "OMq i"] a(1) by simp
  obtain k' r td b' where e: "rt_mq_recv i buffer sz time k = Some ((k', r, td), b')" "kernel_inv k'" "stacks_ok k'"
    "mq_inv (k_mqs k' i) []"
    using mq_recv_effect[OF d(1,2) c a(1) mi a(4)[unfolded time_ok_def] a(2,3) run] by blast
  then show ?thesis by (intro call_ok[OF inv frame_mq_recv e(1)]) simp_all
qed

section \<open>The system never fails\<close>

lemmas ok_calls = ok_tick ok_exit_critical ok_yield ok_sleep ok_suspend ok_resume ok_change_priority
  ok_timer_start ok_timer_stop ok_sem_take ok_sem_release ok_mutex_take ok_mutex_release ok_event_send
  ok_event_recv ok_mb_send ok_mb_recv ok_mq_send ok_mq_recv

lemma exec_ok:
  assumes "sys_inv k" "callbacks_ok cb" "admissible k c"
  shows "\<exists>k'. exec cb c k = Some k' \<and> sys_inv k'"
  using assms(3) ok_counters[OF assms(1)] assms(1,2)
  by (cases c; simp only: exec.simps admissible.simps)
    (intro ok_calls; simp | simp add: rt_interrupt_enter_def rt_interrupt_leave_def rt_enter_critical_def)+

lemma reachable_inv:
  assumes "(sys_step cb)\<^sup>*\<^sup>* k0 k" "sys_inv k0" "callbacks_ok cb"
  shows "sys_inv k"
  using assms(1,2)
proof (induction rule: rtranclp_induct)
  case (step k k')
  from step(2) obtain c where "admissible k c" "exec cb c k = Some k'" by (rule sys_stepE)
  then show ?case using exec_ok[OF step.IH[OF step.prems] assms(3), of c] by simp
qed


lemma sample_sys_inv: "sys_inv sample"
proof -
  have "timers_ok sample"
    using sample_timer_queue kernel_invD(8)[OF sample_inv]
    by (auto simp: timers_ok_def sample_timers_def sample_objects_def sample_registered_def RT_TICK_HALF_def)
  moreover have "object_ok sample ob" for ob
  proof (cases ob)
    case (OMq i)
    have "mq_rep (k_mqs sample i) [] [1, 0] []" by (auto simp: sample_def mq_rep_def)
    then show ?thesis using OMq mq_rep_inv by simp
  next
    case (OMutex m)
    have "m = 0 \<or> m = 1" if "o_type (sample_objects (OMutex m)) = RT_Object_Class_Mutex"
      using that by (auto simp: sample_objects_def sample_registered_def split: if_splits)
    then show ?thesis using OMutex sample_mutex_inv by auto
  qed (simp_all add: sem_inv_def mb_inv_def sample_def)
  ultimately show ?thesis using sample_inv sample_stacks_ok by (simp add: sys_inv_def objects_ok_def)
qed

lemma no_callbacks_ok: "callbacks_ok (\<lambda>_. Some)"
  by (auto simp: callbacks_ok_def callback_ok_def callback_frame_def same_timer_def intro!: exI[of _ "\<lambda>_. True"])




end
