(* ===== verification/Rt_List.thy ===== *)
theory Rt_List
  imports Scheduler Ipc_Core
begin

text \<open>
  The intrusive doubly linked lists of \<^verbatim>\<open>include/rtservice.h\<close> at the level of their pointers, and
  the justification of the view the rest of the development takes of them: \<open>k_lists\<close> gives for each
  list head the sequence of the threads linked from it. The pointer operations are stated over any
  type of node addresses; the locale \<open>intrusive_list\<close> is the contract the kernel's lists rely on, and
  \<open>rtl\<close> is its interpretation on the code's operations.
\<close>

section \<open>Operations\<close>

text \<open>The \<^verbatim>\<open>next\<close> and \<^verbatim>\<open>prev\<close> fields of all nodes in memory. Assignments are made in the order of the
  code, since the nodes may coincide.\<close>

record 'p links =
  ln_next :: "'p \<Rightarrow> 'p"
  ln_prev :: "'p \<Rightarrow> 'p"

definition set_next :: "'p \<Rightarrow> 'p \<Rightarrow> 'p links \<Rightarrow> 'p links" where
  "set_next p q h = h\<lparr>ln_next := (ln_next h)(p := q)\<rparr>"

definition set_prev :: "'p \<Rightarrow> 'p \<Rightarrow> 'p links \<Rightarrow> 'p links" where
  "set_prev p q h = h\<lparr>ln_prev := (ln_prev h)(p := q)\<rparr>"

definition rt_list_init :: "'p \<Rightarrow> 'p links \<Rightarrow> 'p links" where
  "rt_list_init l h = set_next l l (set_prev l l h)"

definition rt_list_insert_after :: "'p \<Rightarrow> 'p \<Rightarrow> 'p links \<Rightarrow> 'p links" where
  "rt_list_insert_after l n h =
     (let h = set_prev (ln_next h l) n h;
          h = set_next n (ln_next h l) h;
          h = set_next l n h in
      set_prev n l h)"

definition rt_list_insert_before :: "'p \<Rightarrow> 'p \<Rightarrow> 'p links \<Rightarrow> 'p links" where
  "rt_list_insert_before l n h =
     (let h = set_next (ln_prev h l) n h;
          h = set_prev n (ln_prev h l) h;
          h = set_prev l n h in
      set_next n l h)"

definition rt_list_remove :: "'p \<Rightarrow> 'p links \<Rightarrow> 'p links" where
  "rt_list_remove n h =
     (let h = set_prev (ln_next h n) (ln_prev h n) h;
          h = set_next (ln_prev h n) (ln_next h n) h in
      set_next n n (set_prev n n h))"

definition rt_list_isempty :: "'p \<Rightarrow> 'p links \<Rightarrow> bool" where
  "rt_list_isempty l h \<longleftrightarrow> ln_next h l = l"

text \<open>The loop of \<^verbatim>\<open>rt_list_len\<close> ends only when the nodes lead back to the head.\<close>

partial_function (option) list_len_from :: "'p \<Rightarrow> 'p \<Rightarrow> 'p links \<Rightarrow> u32 \<Rightarrow> u32 option" where
  "list_len_from l p h len =
     (if ln_next h p \<noteq> l then list_len_from l (ln_next h p) h (len + 1) else Some len)"

definition rt_list_len :: "'p \<Rightarrow> 'p links \<Rightarrow> u32 option" where
  "rt_list_len l h = list_len_from l l h 0"

text \<open>
  The list part of \<^verbatim>\<open>rt_ipc_list_suspend\<close> under \<^verbatim>\<open>RT_IPC_FLAG_PRIO\<close>: insert the node before the first
  one whose thread is strictly less urgent, else at the end. \<open>pr\<close> reads the priority of the thread
  around a node.
\<close>

partial_function (option) list_prio_scan :: "('p \<Rightarrow> nat) \<Rightarrow> 'p \<Rightarrow> 'p \<Rightarrow> 'p \<Rightarrow> 'p links \<Rightarrow> 'p links option" where
  "list_prio_scan pr l t n h =
     (if n = l then Some (rt_list_insert_before l t h)
      else if pr t < pr n then Some (rt_list_insert_before n t h)
      else list_prio_scan pr l t (ln_next h n) h)"

section \<open>Rings\<close>

lemma links_sel [simp]:
  "ln_next (set_next p q h) = (ln_next h)(p := q)" "ln_prev (set_next p q h) = ln_prev h"
  "ln_prev (set_prev p q h) = (ln_prev h)(p := q)" "ln_next (set_prev p q h) = ln_next h"
  by (simp_all add: set_next_def set_prev_def)

primrec chain_between :: "'p links \<Rightarrow> 'p \<Rightarrow> 'p list \<Rightarrow> 'p \<Rightarrow> bool" where
  "chain_between h a [] b \<longleftrightarrow> ln_next h a = b \<and> ln_prev h b = a"
| "chain_between h a (x # xs) b \<longleftrightarrow> ln_next h a = x \<and> ln_prev h x = a \<and> chain_between h x xs b"

text \<open>\<open>is_ring h l xs\<close>: the ring through the head \<open>l\<close> holds exactly the nodes \<open>xs\<close>, in this order.\<close>

definition is_ring :: "'p links \<Rightarrow> 'p \<Rightarrow> 'p list \<Rightarrow> bool" where
  "is_ring h l xs \<longleftrightarrow> distinct (l # xs) \<and> chain_between h l xs l"

lemma chain_append:
  "chain_between h a (xs @ x # ys) b \<longleftrightarrow> chain_between h a xs x \<and> chain_between h x ys b"
  by (induction xs arbitrary: a) auto

lemma chain_cong:
  assumes "chain_between h a xs b" "\<And>p. p \<in> set (a # xs) \<Longrightarrow> ln_next h' p = ln_next h p"
    "\<And>p. p \<in> set (xs @ [b]) \<Longrightarrow> ln_prev h' p = ln_prev h p"
  shows "chain_between h' a xs b"
  using assms by (induction xs arbitrary: a) auto

text \<open>Only the last link of a chain is redirected.\<close>

lemma chain_retarget:
  assumes "chain_between h a xs b" "distinct (a # xs)" "q = last (a # xs)"
    "\<And>p. p \<in> set (a # xs) \<Longrightarrow> ln_next h' p = (if p = q then c else ln_next h p)"
    "ln_prev h' c = q" "\<And>p. p \<in> set xs \<Longrightarrow> ln_prev h' p = ln_prev h p"
  shows "chain_between h' a xs c"
  using assms
proof (induction xs arbitrary: a)
  case (Cons x xs)
  have "chain_between h' x xs c"
    by (rule Cons.IH) (use Cons.prems in \<open>auto split: if_splits\<close>)
  then show ?case using Cons.prems by (auto split: if_splits)
qed simp

lemma chain_last: "chain_between h a xs b \<Longrightarrow> ln_prev h b = last (a # xs) \<and> ln_next h (last (a # xs)) = b"
  by (induction xs arbitrary: a) auto

lemma insert_before_next:
  "ln_next (rt_list_insert_before p n h) x =
     (if x = n then p else if x = ln_prev h p then n else ln_next h x)"
  by (simp add: rt_list_insert_before_def Let_def)

lemma insert_before_prev:
  "n \<noteq> p \<Longrightarrow> ln_prev (rt_list_insert_before p n h) x =
     (if x = p then n else if x = n then ln_prev h p else ln_prev h x)"
  by (simp add: rt_list_insert_before_def Let_def)

text \<open>A ring split at a node: the node before the split and the node after it.\<close>

lemma ring_split:
  assumes "is_ring h l (xs @ ys)"
  obtains q p where "q = last (l # xs)" "p = hd (ys @ [l])" "q \<in> set (l # xs)" "p \<in> set (ys @ [l])" "p \<notin> set xs"
    "chain_between h l xs p" "ln_prev h p = q" "ln_next h q = p"
    "\<And>y zs. ys = y # zs \<Longrightarrow> p = y \<and> chain_between h y zs l"
proof -
  have d: "distinct (l # xs @ ys)" and c: "chain_between h l (xs @ ys) l" using assms by (auto simp: is_ring_def)
  have c1: "chain_between h l xs (hd (ys @ [l]))" using c by (cases ys) (auto simp: chain_append)
  moreover have "hd (ys @ [l]) \<notin> set xs" using d by (cases ys) auto
  moreover have "hd (ys @ [l]) \<in> set (ys @ [l])" "last (l # xs) \<in> set (l # xs)"
    by (rule hd_in_set, simp) (rule last_in_set, simp)
  moreover have "hd (ys @ [l]) = y \<and> chain_between h y zs l" if "ys = y # zs" for y zs
    using c that by (simp add: chain_append)
  ultimately show thesis using that chain_last[OF c1] by blast
qed

lemma ring_insert_before:
  assumes r: "is_ring h l (xs @ ys)" and n: "n \<notin> set (l # xs @ ys)"
  shows "is_ring (rt_list_insert_before (hd (ys @ [l])) n h) l (xs @ n # ys)"
proof -
  from r obtain q p where s: "q = last (l # xs)" "p = hd (ys @ [l])" "q \<in> set (l # xs)" "p \<in> set (ys @ [l])"
    "p \<notin> set xs" "chain_between h l xs p" "ln_prev h p = q" "ln_next h q = p"
    "\<And>y zs. ys = y # zs \<Longrightarrow> p = y \<and> chain_between h y zs l" by (rule ring_split) blast
  obtain h' where h': "h' = rt_list_insert_before p n h" by blast
  have d: "distinct (l # xs @ ys)" using r by (simp add: is_ring_def)
  have np: "n \<noteq> p" using n s(4) by auto
  have nx: "ln_next h' x = (if x = n then p else if x = q then n else ln_next h x)"
    "ln_prev h' x = (if x = p then n else if x = n then q else ln_prev h x)" for x
    using np by (simp_all add: h' insert_before_next insert_before_prev s(7))
  have "chain_between h' l xs n"
    by (rule chain_retarget[OF s(6) _ s(1)]) (use n d s(3,5) np in \<open>auto simp: nx\<close>)
  moreover have "chain_between h' n ys l"
  proof (cases ys)
    case Nil
    then show ?thesis using s(2) np by (simp add: nx)
  next
    case (Cons y zs)
    have "chain_between h' y zs l"
      by (rule chain_cong[of h]) (use n d Cons s(3) s(9)[of y zs] in \<open>auto simp: nx\<close>)
    then show ?thesis using Cons s(9) np by (simp add: nx)
  qed
  ultimately show ?thesis using d n by (auto simp: is_ring_def chain_append s(2)[symmetric] h'[symmetric])
qed

text \<open>Inserting after a node is inserting before its successor.\<close>

lemma insert_after_before:
  assumes "ln_prev h (ln_next h l) = l" "n \<noteq> l" "n \<noteq> ln_next h l"
  shows "rt_list_insert_after l n h = rt_list_insert_before (ln_next h l) n h"
  using assms
  by (auto simp: rt_list_insert_after_def rt_list_insert_before_def Let_def set_next_def set_prev_def fun_eq_iff)

lemma remove_next:
  "ln_next (rt_list_remove n h) x = (if x = n then n else if x = ln_prev h n then ln_next h n else ln_next h x)"
  if "ln_prev h n \<noteq> n \<or> ln_next h n = n" "ln_next h n \<noteq> n \<or> ln_prev h n = n"
  using that by (auto simp: rt_list_remove_def Let_def)

lemma remove_prev:
  "ln_prev (rt_list_remove n h) x = (if x = n then n else if x = ln_next h n then ln_prev h n else ln_prev h x)"
  by (simp add: rt_list_remove_def Let_def)

lemma ring_remove:
  assumes r: "is_ring h l (xs @ n # ys)"
  shows "is_ring (rt_list_remove n h) l (xs @ ys)" "is_ring (rt_list_remove n h) n []"
proof -
  have d: "distinct (l # xs @ n # ys)" and c: "chain_between h l xs n" "chain_between h n ys l"
    using r by (auto simp: is_ring_def chain_append)
  from r have r': "is_ring h l ((xs @ [n]) @ ys)" by simp
  then obtain p where p: "p = hd (ys @ [l])" "p \<in> set (ys @ [l])" "ln_next h n = p"
    "\<And>y zs. ys = y # zs \<Longrightarrow> p = y \<and> chain_between h y zs l"
    by (rule ring_split) auto
  obtain q where q: "q = last (l # xs)" "q \<in> set (l # xs)" "ln_prev h n = q"
    by (rule ring_split[OF r]) auto
  let ?h = "rt_list_remove n h"
  have ne: "q \<noteq> n" "p \<noteq> n" using d p(2) q(2) by auto
  have nx: "ln_next ?h x = (if x = n then n else if x = q then p else ln_next h x)"
    "ln_prev ?h x = (if x = n then n else if x = p then q else ln_prev h x)" for x
    using remove_next[of h n x] remove_prev[of n h x] ne p(3) q(3) by auto
  have c1: "chain_between ?h l xs p"
    by (rule chain_retarget[OF c(1) _ q(1)]) (use d q(2) p(2) ne in \<open>auto simp: nx\<close>)
  have "chain_between ?h l (xs @ ys) l"
  proof (cases ys)
    case Nil
    then show ?thesis using c1 p(1) by simp
  next
    case (Cons y zs)
    have "chain_between ?h y zs l"
      by (rule chain_cong[of h]) (use d q(2) Cons p(4)[of y zs] in \<open>auto simp: nx\<close>)
    then show ?thesis using c1 Cons p(4) by (simp add: chain_append)
  qed
  then show "is_ring ?h l (xs @ ys)" using d by (auto simp: is_ring_def)
  show "is_ring ?h n []" by (simp add: is_ring_def nx)
qed

text \<open>The other rings of the memory are not touched.\<close>

lemma ring_frame:
  assumes "is_ring h l zs" "\<And>x. x \<in> set (l # zs) \<Longrightarrow> ln_next h' x = ln_next h x \<and> ln_prev h' x = ln_prev h x"
  shows "is_ring h' l zs"
  using assms by (auto simp: is_ring_def intro: chain_cong)

lemma ring_closed:
  assumes "is_ring h l xs" "p \<in> set (l # xs)"
  shows "ln_prev h p \<in> set (l # xs)" "ln_next h p \<in> set (l # xs)"
    "ln_prev h (ln_next h p) = p" "ln_next h (ln_prev h p) = p"
proof -
  have "\<exists>q p' r. ln_prev h p = q \<and> q \<in> set (l # xs) \<and> ln_next h q = p \<and> ln_next h p = r \<and>
    r \<in> set (l # xs) \<and> ln_prev h r = p"
  proof (cases "p = l")
    case True
    have c: "chain_between h l xs l" using assms(1) by (simp add: is_ring_def)
    have "ln_next h l \<in> set (l # xs) \<and> ln_prev h (ln_next h l) = l" using c by (cases xs) auto
    moreover have "last (l # xs) \<in> set (l # xs)" by (rule last_in_set) simp
    ultimately show ?thesis using True chain_last[OF c] by metis
  next
    case False
    then obtain ys zs where xs: "xs = ys @ p # zs" using assms(2) by (auto simp: in_set_conv_decomp)
    then have c: "chain_between h l ys p" "chain_between h p zs l" using assms(1) by (auto simp: is_ring_def chain_append)
    have "last (l # ys) \<in> set (l # ys)" by (rule last_in_set) simp
    moreover have "ln_next h p \<in> set (l # zs) \<and> ln_prev h (ln_next h p) = p" using c(2) by (cases zs) auto
    ultimately show ?thesis using chain_last[OF c(1)] xs by (metis (no_types, opaque_lifting) Un_iff list.set(2) insert_iff set_append)
  qed
  then show "ln_prev h p \<in> set (l # xs)" "ln_next h p \<in> set (l # xs)"
    "ln_prev h (ln_next h p) = p" "ln_next h (ln_prev h p) = p" by auto
qed

lemma ring_insert_before_frame:
  assumes "is_ring h l xs" "p \<in> set (l # xs)" "is_ring h l' zs" "set (l # xs) \<inter> set (l' # zs) = {}"
    "n \<notin> set (l' # zs)" "n \<noteq> p"
  shows "is_ring (rt_list_insert_before p n h) l' zs"
  by (rule ring_frame[OF assms(3)])
    (use assms(2,4-6) ring_closed(1)[OF assms(1,2)] in \<open>auto simp: insert_before_next insert_before_prev\<close>)

lemma ring_insert_after:
  assumes r: "is_ring h l xs" and p: "p \<in> set (l # xs)" and n: "n \<notin> set (l # xs)"
  shows "rt_list_insert_after p n h = rt_list_insert_before (ln_next h p) n h" "ln_next h p \<in> set (l # xs)"
proof -
  show "ln_next h p \<in> set (l # xs)" by (rule ring_closed(2)[OF r p])
  then show "rt_list_insert_after p n h = rt_list_insert_before (ln_next h p) n h"
    using ring_closed(3)[OF r p] p n by (intro insert_after_before) auto
qed

lemma ring_remove_frame:
  assumes "is_ring h l xs" "n \<in> set (l # xs)" "is_ring h l' zs" "set (l # xs) \<inter> set (l' # zs) = {}"
  shows "is_ring (rt_list_remove n h) l' zs"
proof (rule ring_frame[OF assms(3)])
  fix x assume x: "x \<in> set (l' # zs)"
  then have "x \<noteq> n" "x \<noteq> ln_prev h n" "x \<noteq> ln_next h n"
    using assms(2,4) ring_closed(1,2)[OF assms(1,2)] by blast+
  then show "ln_next (rt_list_remove n h) x = ln_next h x \<and> ln_prev (rt_list_remove n h) x = ln_prev h x"
    by (simp add: rt_list_remove_def Let_def)
qed

lemma ring_isempty: "is_ring h l xs \<Longrightarrow> rt_list_isempty l h \<longleftrightarrow> xs = []"
  by (cases xs) (auto simp: is_ring_def rt_list_isempty_def)

lemma list_len_from_ring:
  "chain_between h p xs l \<Longrightarrow> l \<notin> set xs \<Longrightarrow> list_len_from l p h n = Some (n + of_nat (length xs))"
proof (induction xs arbitrary: p n)
  case Nil
  then show ?case by (simp add: list_len_from.simps)
next
  case (Cons x xs)
  then have "list_len_from l p h n = list_len_from l x h (n + 1)" by (subst list_len_from.simps) auto
  then show ?case using Cons by (simp add: algebra_simps)
qed

lemma ring_len: "is_ring h l xs \<Longrightarrow> rt_list_len l h = Some (of_nat (length xs))"
  using list_len_from_ring[of h l xs l 0] by (simp add: is_ring_def rt_list_len_def)

lemma ring_init: "is_ring (rt_list_init l h) l []"
  by (simp add: is_ring_def rt_list_init_def)

text \<open>The scan for the priority order returns on every ring and inserts where \<open>prio_insert\<close> does.\<close>

lemma list_prio_scan_split:
  assumes "chain_between h q ys l" "l \<notin> set ys"
  shows "\<exists>us vs. ys = us @ vs \<and> prio_insert pr t ys = us @ t # vs \<and>
    list_prio_scan pr l t (hd (ys @ [l])) h = Some (rt_list_insert_before (hd (vs @ [l])) t h)"
  using assms
proof (induction ys arbitrary: q)
  case Nil
  then show ?case by (simp add: list_prio_scan.simps)
next
  case (Cons y ys)
  show ?case
  proof (cases "pr t < pr y")
    case True
    then show ?thesis using Cons.prems
      by (intro exI[of _ "[]"] exI[of _ "y # ys"]) (simp add: list_prio_scan.simps)
  next
    case False
    obtain us vs where u: "ys = us @ vs" "prio_insert pr t ys = us @ t # vs"
      "list_prio_scan pr l t (hd (ys @ [l])) h = Some (rt_list_insert_before (hd (vs @ [l])) t h)"
      using Cons.IH[of y] Cons.prems by auto
    have "ln_next h y = hd (ys @ [l])" using Cons.prems by (cases ys) auto
    then have "list_prio_scan pr l t y h = list_prio_scan pr l t (hd (ys @ [l])) h"
      using False Cons.prems by (subst list_prio_scan.simps) auto
    then show ?thesis using u False by (intro exI[of _ "y # us"] exI[of _ vs]) simp
  qed
qed

section \<open>The contract of the kernel's lists\<close>

text \<open>Addresses of the nodes: the list heads and the \<^verbatim>\<open>tlist\<close> of each thread. A memory represents
  the lists \<open>L\<close> when each head's ring is its list and the node of every other thread is on its own.\<close>

datatype node = Head list_head | Node nat

definition represents :: "('m \<Rightarrow> node \<Rightarrow> node list \<Rightarrow> bool) \<Rightarrow> 'm \<Rightarrow> (list_head \<Rightarrow> nat list) \<Rightarrow> bool" where
  "represents ring h L \<longleftrightarrow> (\<forall>i. ring h (Head i) (map Node (L i))) \<and>
     (\<forall>t. (\<forall>i. t \<notin> set (L i)) \<longrightarrow> ring h (Node t) [])"

locale intrusive_list =
  fixes ring :: "'m \<Rightarrow> node \<Rightarrow> node list \<Rightarrow> bool"
    and ins :: "node \<Rightarrow> node \<Rightarrow> 'm \<Rightarrow> 'm"
    and rem :: "node \<Rightarrow> 'm \<Rightarrow> 'm"
  assumes ins_ring: "ring h l (xs @ ys) \<Longrightarrow> n \<notin> set (l # xs @ ys) \<Longrightarrow>
      ring (ins (hd (ys @ [l])) n h) l (xs @ n # ys)"
    and ins_frame: "ring h l xs \<Longrightarrow> p \<in> set (l # xs) \<Longrightarrow> ring h l' zs \<Longrightarrow>
      set (l # xs) \<inter> set (l' # zs) = {} \<Longrightarrow> n \<notin> set (l' # zs) \<Longrightarrow> n \<noteq> p \<Longrightarrow> ring (ins p n h) l' zs"
    and rem_ring: "ring h l (xs @ n # ys) \<Longrightarrow> ring (rem n h) l (xs @ ys)"
    and rem_self: "ring h l xs \<Longrightarrow> n \<in> set (l # xs) \<Longrightarrow> n = l \<longrightarrow> xs = [] \<Longrightarrow> ring (rem n h) n []"
    and rem_frame: "ring h l xs \<Longrightarrow> n \<in> set (l # xs) \<Longrightarrow> ring h l' zs \<Longrightarrow>
      set (l # xs) \<inter> set (l' # zs) = {} \<Longrightarrow> ring (rem n h) l' zs"
begin

lemma insert_represents:
  assumes r: "represents ring h L" and ok: "lists_ok L" and t: "\<forall>i. t \<notin> set (L i)" and L: "L i = us @ vs"
  shows "represents ring (ins (hd (map Node vs @ [Head i])) (Node t) h) (L(i := us @ t # vs))"
proof -
  let ?p = "hd (map Node vs @ [Head i])"
  have ri: "ring h (Head i) (map Node us @ map Node vs)" using r L by (metis represents_def map_append)
  have p: "?p \<in> set (Head i # map Node (L i))" using L by (cases vs) auto
  have fr: "ring (ins ?p (Node t) h) l' zs"
    if "ring h l' zs" "set (Head i # map Node (L i)) \<inter> set (l' # zs) = {}" "Node t \<notin> set (l' # zs)" for l' zs
  proof (rule ins_frame[OF _ p])
    have "Node t \<notin> set (Head i # map Node (L i))" using t by auto
    then show "Node t \<noteq> ?p" using p by metis
  qed (use ri that L in auto)
  have "ring (ins ?p (Node t) h) (Head j) (map Node ((L(i := us @ t # vs)) j))" for j
  proof (cases "j = i")
    case True
    then show ?thesis using ins_ring[OF ri, of "Node t"] t[rule_format, of i] L by (simp add: image_iff)
  next
    case False
    then have "ring (ins ?p (Node t) h) (Head j) (map Node (L j))"
      using r t ok by (intro fr) (auto simp: represents_def lists_ok_def)
    then show ?thesis using False by simp
  qed
  moreover have "ring (ins ?p (Node t) h) (Node u) []" if "\<forall>j. u \<notin> set ((L(i := us @ t # vs)) j)" for u
  proof -
    have "u \<noteq> t" "u \<notin> set (L j)" for j using that[rule_format, of i] that[rule_format, of j] L
      by (auto split: if_splits)
    then show ?thesis using r by (intro fr) (auto simp: represents_def)
  qed
  ultimately show ?thesis by (simp add: represents_def)
qed

lemma remove_represents:
  assumes r: "represents ring h L" and ok: "lists_ok L"
  shows "represents ring (rem (Node t) h) (\<lambda>i. remove1 t (L i))"
proof (cases "\<exists>i. t \<in> set (L i)")
  case True
  then obtain i us vs where L: "L i = us @ t # vs" by (auto simp: in_set_conv_decomp)
  have d: "distinct (L i)" "\<And>j. j \<noteq> i \<Longrightarrow> set (L j) \<inter> set (L i) = {}" using ok by (auto simp: lists_ok_def)
  have ri: "ring h (Head i) (map Node us @ Node t # map Node vs)"
    using r L by (metis represents_def map_append list.simps(9))
  have fr: "ring (rem (Node t) h) l' zs"
    if "ring h l' zs" "set (Head i # map Node (L i)) \<inter> set (l' # zs) = {}" for l' zs
    using ri that L by (intro rem_frame[of h "Head i" "map Node (L i)" "Node t" l' zs]) auto
  have "ring (rem (Node t) h) (Head j) (map Node (remove1 t (L j)))" for j
  proof (cases "j = i")
    case True
    then show ?thesis using rem_ring[OF ri] L d(1) by (simp add: remove1_append)
  next
    case False
    have nt: "t \<notin> set (L j)" using d(2)[OF False] L by auto
    have "ring (rem (Node t) h) (Head j) (map Node (L j))"
      using r False d(2)[OF False] by (intro fr) (auto simp: represents_def)
    then show ?thesis using nt by (simp add: remove1_idem)
  qed
  moreover have "ring (rem (Node t) h) (Node u) []" if u: "\<forall>j. u \<notin> set (remove1 t (L j))" for u
  proof (cases "u = t")
    case True
    then show ?thesis using rem_self[OF ri, of "Node t"] by auto
  next
    case False
    then have "\<forall>j. u \<notin> set (L j)" using u by auto
    then show ?thesis using r by (intro fr) (auto simp: represents_def)
  qed
  ultimately show ?thesis by (simp add: represents_def)
next
  case False
  then have rt: "ring h (Node t) []" using r by (simp add: represents_def)
  have fr: "ring (rem (Node t) h) l' zs" if "ring h l' zs" "Node t \<notin> set (l' # zs)" for l' zs
    by (rule rem_frame[OF rt _ that(1)]) (use that(2) in auto)
  have "ring (rem (Node t) h) (Node u) []" if "\<forall>j. u \<notin> set (L j)" for u
    using that r fr[of "Node u" "[]"] rem_self[OF rt, of "Node t"] by (cases "u = t") (auto simp: represents_def)
  moreover have "ring (rem (Node t) h) (Head j) (map Node (L j))" for j
    by (rule fr) (use r False in \<open>auto simp: represents_def\<close>)
  ultimately show ?thesis using False by (simp add: represents_def remove1_idem)
qed

end

interpretation rtl: intrusive_list is_ring rt_list_insert_before rt_list_remove
proof
  fix h :: "node links" and l n :: node and xs
  assume r: "is_ring h l xs" and n: "n \<in> set (l # xs)" and e: "n = l \<longrightarrow> xs = []"
  show "is_ring (rt_list_remove n h) n []"
  proof (cases "n = l")
    case True
    then show ?thesis using r e by (simp add: is_ring_def remove_next remove_prev)
  next
    case False
    then obtain us vs where "xs = us @ n # vs" using n by (auto simp: in_set_conv_decomp)
    then show ?thesis using ring_remove(2)[of h l us n vs] r by simp
  qed
qed (rule ring_insert_before ring_insert_before_frame ring_remove(1) ring_remove_frame; assumption)+

section \<open>The list view of the kernel is implemented by the pointers\<close>

definition node_prio :: "kernel \<Rightarrow> node \<Rightarrow> nat" where
  "node_prio k n = (case n of Node t \<Rightarrow> t_current_priority (thr k t) | Head _ \<Rightarrow> 0)"

lemma prio_insert_map: "prio_insert f (g t) (map g us) = map g (prio_insert (\<lambda>u. f (g u)) t us)"
  by (induction us) auto

lemma prio_scan_represents:
  assumes r: "represents is_ring h (k_lists k)" and ok: "lists_ok (k_lists k)" and t: "\<forall>j. t \<notin> set (k_lists k j)"
  shows "\<exists>h'. list_prio_scan (node_prio k) (Head i) (Node t) (ln_next h (Head i)) h = Some h' \<and>
    represents is_ring h' (k_lists (enqueue_waiter i t RT_IPC_FLAG_PRIO k))"
proof -
  have ri: "is_ring h (Head i) (map Node (k_lists k i))" using r by (simp add: represents_def)
  have nx: "ln_next h (Head i) = hd (map Node (k_lists k i) @ [Head i])"
    using ri by (cases "k_lists k i") (auto simp: is_ring_def)
  let ?pr = "node_prio k"
  obtain us vs where s: "map Node (k_lists k i) = us @ vs" "prio_insert ?pr (Node t) (map Node (k_lists k i)) = us @ Node t # vs"
    "list_prio_scan ?pr (Head i) (Node t) (ln_next h (Head i)) h = Some (rt_list_insert_before (hd (vs @ [Head i])) (Node t) h)"
    using list_prio_scan_split[of h "Head i" "map Node (k_lists k i)" "Head i" ?pr "Node t"] ri
    by (auto simp: is_ring_def nx)
  then obtain us' vs' where s': "k_lists k i = us' @ vs'" "us = map Node us'" "vs = map Node vs'"
    by (auto simp: map_eq_append_conv)
  have "map Node (prio_insert (\<lambda>u. t_current_priority (thr k u)) t (k_lists k i)) = map Node (us' @ t # vs')"
    (is "map Node ?xs = map Node ?ys")
    using s(2) prio_insert_map[of ?pr Node t "k_lists k i"] s' by (simp add: node_prio_def)
  then have "prio_insert (\<lambda>u. t_current_priority (thr k u)) t (k_lists k i) = us' @ t # vs'"
    using inj_map_eq_map[of Node ?xs ?ys] by (simp add: inj_def del: map_append list.map)
  then show ?thesis
    using s(3) rtl.insert_represents[OF r ok t s'(1)] s'(3) by (simp add: enqueue_waiter_def RT_IPC_FLAG_PRIO_def RT_IPC_FLAG_FIFO_def)
qed

text \<open>C15. The list view is sound: when the nodes in memory represent the kernel's lists, each pointer
  operation of \<^verbatim>\<open>rtservice.h\<close> at the call sites of the kernel (removing a thread's node wherever it
  is, inserting at either end, inserting by priority, initialising, testing for emptiness, counting)
  leaves a memory that represents the lists of the model's operation, and its result is the model's.\<close>

theorem lists_refined:
  assumes r: "represents is_ring h (k_lists k)" and inv: "tlist_inv k"
  shows "represents is_ring (rt_list_remove (Node t) h) (k_lists (tlist_remove t k)) \<and>
    (unlinked k t \<longrightarrow>
       represents is_ring (rt_list_insert_before (Head i) (Node t) h) (k_lists (tlist_append i t k)) \<and>
       represents is_ring (rt_list_insert_after (Head i) (Node t) h) (k_lists (tlist_push i t k)) \<and>
       (\<exists>h'. list_prio_scan (node_prio k) (Head i) (Node t) (ln_next h (Head i)) h = Some h' \<and>
          represents is_ring h' (k_lists (enqueue_waiter i t RT_IPC_FLAG_PRIO k)))) \<and>
    (rt_list_isempty (Head i) h \<longleftrightarrow> k_lists k i = []) \<and>
    rt_list_len (Head i) h = Some (of_nat (length (k_lists k i)))"
proof (intro conjI impI)
  have ok: "lists_ok (k_lists k)" using inv by (simp add: tlist_inv_def)
  have ri: "is_ring h (Head i) (map Node (k_lists k i))" using r by (simp add: represents_def)
  show "represents is_ring (rt_list_remove (Node t) h) (k_lists (tlist_remove t k))"
    using rtl.remove_represents[OF r ok] by (simp add: tlist_remove_def)
  show "rt_list_isempty (Head i) h \<longleftrightarrow> k_lists k i = []" using ring_isempty[OF ri] by simp
  show "rt_list_len (Head i) h = Some (of_nat (length (k_lists k i)))" using ring_len[OF ri] by simp
  assume u: "unlinked k t"
  then have t: "\<forall>j. t \<notin> set (k_lists k j)" by (simp add: unlinked_def)
  note ins = rtl.insert_represents[OF r ok t]
  show "represents is_ring (rt_list_insert_before (Head i) (Node t) h) (k_lists (tlist_append i t k))"
    using ins[of i "k_lists k i" "[]"] by (simp add: tlist_append_def)
  have "ln_next h (Head i) = hd (map Node (k_lists k i) @ [Head i])"
    using ri by (cases "k_lists k i") (auto simp: is_ring_def)
  note nx = this
  show "represents is_ring (rt_list_insert_after (Head i) (Node t) h) (k_lists (tlist_push i t k))"
    using ins[of i "[]" "k_lists k i"] ring_insert_after(1)[OF ri, of "Head i" "Node t"] t
    by (simp add: tlist_push_def nx image_iff)
  show "\<exists>h'. list_prio_scan (node_prio k) (Head i) (Node t) (ln_next h (Head i)) h = Some h' \<and>
      represents is_ring h' (k_lists (enqueue_waiter i t RT_IPC_FLAG_PRIO k))"
    by (rule prio_scan_represents[OF r ok t])
qed

text \<open>All nodes on their own represent empty lists.\<close>

lemma self_linked_represents: "represents is_ring \<lparr>ln_next = (\<lambda>p. p), ln_prev = (\<lambda>p. p)\<rparr> (\<lambda>_. [])"
  by (simp add: represents_def is_ring_def)

theorem lists_refined_witness:
  "\<exists>h. represents is_ring h (k_lists (tlist_append (SemWait 0) 1 (sample\<lparr>k_lists := (\<lambda>_. [])\<rparr>))) \<and>
     rt_list_len (Head (SemWait 0)) h = Some 1"
proof -
  let ?k = "sample\<lparr>k_lists := (\<lambda>_. [])\<rparr>" and ?h = "\<lparr>ln_next = (\<lambda>p::node. p), ln_prev = (\<lambda>p. p)\<rparr>"
  have "represents is_ring ?h (k_lists ?k)" "tlist_inv ?k" "unlinked ?k 1"
    by (simp_all add: self_linked_represents tlist_inv_def lists_ok_def unlinked_def)
  then have "represents is_ring (rt_list_insert_before (Head (SemWait 0)) (Node 1) ?h)
      (k_lists (tlist_append (SemWait 0) 1 ?k))" using lists_refined[of ?h ?k 1 "SemWait 0"] by blast
  moreover from this have "rt_list_len (Head (SemWait 0)) (rt_list_insert_before (Head (SemWait 0)) (Node 1) ?h) = Some 1"
    using lists_refined[of _ "tlist_append (SemWait 0) 1 ?k" 1 "SemWait 0"]
    by (simp add: tlist_append_def tlist_inv_def lists_ok_def)
  ultimately show ?thesis by blast
qed

end
