(* ===== verification/Direct_Wait.thy ===== *)
theory Direct_Wait
  imports MessageQueue
begin

text \<open>
  Objects outside \<^verbatim>\<open>src/ipc.c\<close> that keep a waiting list of their own (memory pools, completions, data
  queues) suspend and resume threads themselves. What their code does around a list \<open>h\<close>: suspend the
  running thread, link it, arm its timer and schedule; resume the first thread and schedule.
\<close>

lemma suspend_link_effect:
  assumes inv: "kernel_inv k" and st: "t_stat (thr k t) = RT_THREAD_READY \<or> t_stat (thr k t) = RT_THREAD_RUNNING"
    and h: "stat_of_list h = RT_THREAD_SUSPEND" and xs: "set xs = insert t (set (k_lists k h))" "distinct xs"
  shows "\<exists>k1. rt_thread_suspend t k = Some (k1, RT_EOK) \<and> k_lists k1 h = k_lists k h \<and>
    kernel_inv (k1\<lparr>k_lists := (k_lists k1)(h := xs)\<rparr>) \<and> wait_frame t k (k1\<lparr>k_lists := (k_lists k1)(h := xs)\<rparr>) \<and>
    (\<forall>h'. stat_of_list h' = RT_THREAD_SUSPEND \<longrightarrow> h' \<noteq> h \<longrightarrow> k_lists k1 h' = k_lists k h') \<and>
    ThreadTimer t \<notin> set (k_timer_list k1)"
proof -
  obtain k1 where k1: "rt_thread_suspend t k = Some (k1, RT_EOK)" using suspend_enabled[OF inv st] by blast
  note e = suspend_effect[OF inv k1] and i1 = kernel_inv_suspend[OF inv k1]
  have nw: "remove1 t (k_lists k h') = k_lists k h'" if "stat_of_list h' = RT_THREAD_SUSPEND" for h'
    using thread_invD(1)[OF kernel_invD(6)[OF inv], of t h'] st that by (intro remove1_idem) auto
  have "kernel_inv (k1\<lparr>k_lists := (k_lists k1)(h := xs)\<rparr>)"
    by (rule kernel_inv_wait_insert[OF i1 _ _ h _ xs(2), of t]) (use e nw[OF h] xs(1) in auto)
  moreover have "wait_frame t k (k1\<lparr>k_lists := (k_lists k1)(h := xs)\<rparr>)" using e by (simp add: wait_frame_def)
  ultimately show ?thesis using k1 e nw h by (intro exI[of _ k1]) simp
qed

lemma direct_block_effect:
  assumes inv: "kernel_inv k" "stacks_ok k" and cur: "k_current k = Some c" "t_stat (thr k c) = RT_THREAD_RUNNING"
    and h: "stat_of_list h = RT_THREAD_SUSPEND" and tm: "time < 2 ^ 31 - 1"
    and xs: "set xs = insert c (set (k_lists k h))" "distinct xs"
  shows "\<exists>k1 k2 k3. rt_thread_suspend c k = Some (k1, RT_EOK) \<and> k_lists k1 h = k_lists k h \<and> k_tick k1 = k_tick k \<and>
    arm_timer c time (k1\<lparr>k_lists := (k_lists k1)(h := xs)\<rparr>) = Some k2 \<and> rt_schedule k2 = Some k3 \<and>
    kernel_inv k3 \<and> stacks_ok k3 \<and> same_ipc k k3 \<and> k_current k3 \<noteq> None \<and> k_lists k3 h = xs \<and>
    (\<forall>h'. stat_of_list h' = RT_THREAD_SUSPEND \<longrightarrow> h' \<noteq> h \<longrightarrow> k_lists k3 h' = k_lists k h') \<and>
    thr k3 c = (thr k c)\<lparr>t_stat := RT_THREAD_SUSPEND\<rparr> \<and> (\<forall>u. u \<noteq> c \<longrightarrow> sched_rel (thr k u) (thr k3 u)) \<and>
    (ThreadTimer c \<in> set (k_timer_list k3) \<longleftrightarrow> time > 0) \<and>
    (time > 0 \<longrightarrow> due k3 (ThreadTimer c) = k_tick k + word_of_int time)"
proof -
  obtain k1 where k1: "rt_thread_suspend c k = Some (k1, RT_EOK)" "k_lists k1 h = k_lists k h"
    "kernel_inv (k1\<lparr>k_lists := (k_lists k1)(h := xs)\<rparr>)" "wait_frame c k (k1\<lparr>k_lists := (k_lists k1)(h := xs)\<rparr>)"
    "\<forall>h'. stat_of_list h' = RT_THREAD_SUSPEND \<longrightarrow> h' \<noteq> h \<longrightarrow> k_lists k1 h' = k_lists k h'"
    "ThreadTimer c \<notin> set (k_timer_list k1)"
    using suspend_link_effect[OF inv(1) _ h xs] cur(2) by blast
  obtain k1' where k1': "k1' = k1\<lparr>k_lists := (k_lists k1)(h := xs)\<rparr>" by blast
  note k1l = k1(3,4)[folded k1']
  have tl: "ThreadTimer c \<notin> set (k_timer_list k1')" using k1(6) k1' by simp
  obtain k2 k3 where k3: "arm_timer c time k1' = Some k2" "rt_schedule k2 = Some k3" "kernel_inv k3" "stacks_ok k3"
    "same_ipc k k3" "k_current k3 \<noteq> None" "wait_lists_same k1' k3" "thr k3 c = (thr k c)\<lparr>t_stat := RT_THREAD_SUSPEND\<rparr>"
    "\<forall>u. u \<noteq> c \<longrightarrow> sched_rel (thr k u) (thr k3 u)"
    "time > 0 \<longrightarrow> ThreadTimer c \<in> set (k_timer_list k3) \<and> due k3 (ThreadTimer c) = k_tick k + word_of_int time"
    "time \<le> 0 \<longrightarrow> ThreadTimer c \<notin> set (k_timer_list k3)"
    using arm_schedule_effect[OF inv(2) cur tm k1l tl] by blast
  have "k_tick k1 = k_tick k" using k1(4) by (simp add: wait_frame_def)
  moreover have "k_lists k3 h = xs" "\<forall>h'. stat_of_list h' = RT_THREAD_SUSPEND \<longrightarrow> h' \<noteq> h \<longrightarrow> k_lists k3 h' = k_lists k h'"
    using k3(7) h k1(5) by (simp_all add: wait_lists_same_def k1')
  moreover have "ThreadTimer c \<in> set (k_timer_list k3) \<longleftrightarrow> time > 0" using k3(10,11) by linarith
  ultimately show ?thesis
    using k1(1,2) k3(1-6,8-10) unfolding k1' by (intro exI[of _ k1] exI[of _ k2] exI[of _ k3]) simp
qed

text \<open>The first thread is resumed after its error was set to \<open>e\<close>.\<close>

lemma direct_wake_effect:
  assumes inv: "kernel_inv k" "stacks_ok k" and l: "k_lists k h = t # ts" and h: "stat_of_list h = RT_THREAD_SUSPEND"
    and cur: "k_current k = Some c"
  shows "\<exists>k1 k2. rt_thread_resume t (upd_thr t (t_error_update (\<lambda>_. e)) k) = Some (k1, RT_EOK) \<and> rt_schedule k1 = Some k2 \<and>
    kernel_inv k1 \<and> stacks_ok k1 \<and> k_current k1 = Some c \<and> k_lists k1 h = ts \<and>
    kernel_inv k2 \<and> stacks_ok k2 \<and> same_ipc k k2 \<and> k_lists k2 h = ts \<and>
    (\<forall>h'. stat_of_list h' = RT_THREAD_SUSPEND \<longrightarrow> h' \<noteq> h \<longrightarrow> k_lists k2 h' = k_lists k h') \<and>
    woken (t_stat (thr k2 t)) \<and> t_error (thr k2 t) = e \<and> k_current k2 \<noteq> None \<and>
    (\<forall>u. u \<noteq> t \<longrightarrow> sched_rel (thr k u) (thr k2 u))"
proof -
  let ?k = "upd_thr t (t_error_update (\<lambda>_. e)) k"
  have i: "kernel_inv ?k" by (rule kernel_inv_upd_thr[OF inv(1)]) simp_all
  have s: "stacks_ok ?k" using inv(2) by (auto simp: stacks_ok_def)
  have l': "k_lists ?k h = t # ts" and c: "k_current ?k = Some c" using l cur by simp_all
  obtain k1 k2 where w: "rt_ipc_list_resume h ?k = Some k1" "rt_schedule k1 = Some k2" "kernel_inv k2" "stacks_ok k2"
    "same_ipc ?k k2" "k_lists k2 h = ts"
    "\<forall>h'. stat_of_list h' = RT_THREAD_SUSPEND \<longrightarrow> h' \<noteq> h \<longrightarrow> k_lists k2 h' = k_lists ?k h'"
    "woken (t_stat (thr k2 t))" "t_error (thr k2 t) = t_error (thr ?k t)" "k_current k2 \<noteq> None"
    "\<forall>u. u \<noteq> t \<longrightarrow> sched_rel (thr ?k u) (thr k2 u)"
    using wake_schedule_effect[OF i s l' h c] by blast
  obtain k1' where k1': "rt_ipc_list_resume h ?k = Some k1'" "rt_thread_resume t ?k = Some (k1', RT_EOK)" "kernel_inv k1'"
    "k_lists k1' h = ts" using ipc_resume_effect[OF i l' h] by blast
  have e: "k1' = k1" using w(1) k1'(1) by simp
  have "k_current k1 = Some c" using resume_effect[OF i k1'(2)] c e by simp
  moreover have "stacks_ok k1" using resume_stacks_ok[OF i s k1'(2)] e by simp
  ultimately show ?thesis
    using k1'(2-4) w(2-11) unfolding e by (intro exI[of _ k1] exI[of _ k2]) (auto simp: same_ipc_def)
qed

text \<open>Resuming all threads leaves the stacks alone.\<close>

lemma resume_all_stacks:
  assumes "kernel_inv k" "stacks_ok k" "stat_of_list h = RT_THREAD_SUSPEND" "rt_ipc_list_resume_all h k = Some k'"
  shows "stacks_ok k'"
  using assms(1,2,4)
proof (induction "k_lists k h" arbitrary: k)
  case Nil
  then show ?case by (simp add: rt_ipc_list_resume_all.simps)
next
  case (Cons t us)
  let ?k = "upd_thr t (t_error_update (\<lambda>_. - RT_ERROR)) k"
  have i: "kernel_inv ?k" by (rule kernel_inv_upd_thr[OF Cons.prems(1)]) simp_all
  have s: "stacks_ok ?k" using Cons.prems(2) by (auto simp: stacks_ok_def)
  have l: "k_lists k h = t # us" using Cons.hyps(2) by simp
  obtain k1 where k1: "rt_thread_resume t ?k = Some (k1, RT_EOK)" "kernel_inv k1" "k_lists k1 h = us"
    using ipc_resume_effect[OF i _ assms(3)] l by auto
  have "rt_ipc_list_resume_all h k = rt_ipc_list_resume_all h k1"
    by (subst rt_ipc_list_resume_all.simps) (use l k1(1) in simp)
  then show ?case
    using Cons.hyps(1)[OF k1(3)[symmetric] k1(2) resume_stacks_ok[OF i s k1(1)]] Cons.prems(3) by simp
qed

text \<open>A suspended thread, linked or not, is resumed and the scheduler called.\<close>

lemma resume_schedule_effect:
  assumes inv: "kernel_inv k" "stacks_ok k" and cur: "k_current k = Some c" and st: "t_stat (thr k t) = RT_THREAD_SUSPEND"
  shows "\<exists>k1 k2. rt_thread_resume t k = Some (k1, RT_EOK) \<and> rt_schedule k1 = Some k2 \<and> kernel_inv k2 \<and> stacks_ok k2 \<and>
    k_current k2 \<noteq> None \<and> woken (t_stat (thr k2 t)) \<and> t_error (thr k2 t) = t_error (thr k t) \<and>
    (\<forall>u. u \<noteq> t \<longrightarrow> sched_rel (thr k u) (thr k2 u))"
proof -
  obtain k1 where k1: "rt_thread_resume t k = Some (k1, RT_EOK)" using resume_enabled[OF inv(1) st] by blast
  note e = resume_effect[OF inv(1) k1]
  have i1: "kernel_inv k1" by (rule kernel_inv_resume[OF inv(1) k1])
  have s1: "stacks_ok k1" by (rule resume_stacks_ok[OF inv k1])
  have c1: "k_current k1 = Some c" using e cur by simp
  obtain k2 where k2: "rt_schedule k1 = Some k2" "kernel_inv k2" "stacks_ok k2" "k_current k2 \<noteq> None"
    "\<forall>u. sched_rel (thr k1 u) (thr k2 u)" using schedule_effect[OF i1 s1 c1] by blast
  have w: "woken (t_stat (thr k1 t))" "t_error (thr k1 t) = t_error (thr k t)" using e by (simp_all add: woken_def)
  have "woken (t_stat (thr k2 t)) \<and> t_error (thr k2 t) = t_error (thr k t)"
    using k2(5)[rule_format, of t] w by (auto simp: sched_rel_def woken_def)
  moreover have "sched_rel (thr k u) (thr k2 u)" if "u \<noteq> t" for u
    using k2(5)[rule_format, of u] e that by simp
  ultimately show ?thesis using k1 k2(1-4) by (intro exI[of _ k1] exI[of _ k2]) simp
qed

end
