(* ===== verification/Area_Allocator.thy ===== *)
theory Area_Allocator
  imports Kernel_Prelude
begin

text \<open>
  The contract of a memory allocator as its clients see it: \<open>rep s A\<close> relates a state of the allocator to
  the areas (address and size) it has handed out. Null, the address 0, is a refusal. Both system heaps,
  \<^verbatim>\<open>src/mem.c\<close> and \<^verbatim>\<open>src/memheap.c\<close>, are shown to keep it.
\<close>

definition apart :: "nat \<times> nat \<Rightarrow> nat \<times> nat \<Rightarrow> bool" where
  "apart a b \<longleftrightarrow> fst a + snd a \<le> fst b \<or> fst b + snd b \<le> fst a"

lemma apart_sym: "apart a b = apart b a"
  by (auto simp: apart_def)

lemma apart_self: "apart (p, n) (p, m) \<Longrightarrow> n = 0 \<or> m = 0"
  by (auto simp: apart_def)

lemma apart_mono: "apart (p, n) (q, m) \<Longrightarrow> n' \<le> n \<Longrightarrow> m' \<le> m \<Longrightarrow> apart (p, n') (q, m')"
  by (auto simp: apart_def)

text \<open>A client: it asks for sizes and gives areas back, by their place in the list of those it holds.\<close>

datatype area_op = Ask nat | Give_back nat

fun area_run ::
  "(nat \<Rightarrow> 's \<Rightarrow> ('s \<times> nat) option) \<Rightarrow> (nat \<Rightarrow> 's \<Rightarrow> 's option) \<Rightarrow> area_op list \<Rightarrow> 's \<Rightarrow> (nat \<times> nat) list \<Rightarrow>
     ('s \<times> (nat \<times> nat) list) option" where
  "area_run al fr [] s held = Some (s, held)"
| "area_run al fr (Ask n # ops) s held =
     (case al n s of None \<Rightarrow> None
      | Some (s', p) \<Rightarrow> area_run al fr ops s' (if p = 0 then held else (p, n) # held))"
| "area_run al fr (Give_back i # ops) s held =
     (if i < length held then
        (case fr (fst (held ! i)) s of None \<Rightarrow> None
         | Some s' \<Rightarrow> area_run al fr ops s' (take i held @ drop (Suc i) held))
      else area_run al fr ops s held)"

text \<open>What a client holds is what the allocator has handed out.\<close>

definition held_ok :: "(nat \<times> nat) list \<Rightarrow> (nat \<times> nat) set \<Rightarrow> bool" where
  "held_ok held A \<longleftrightarrow> distinct (map fst held) \<and> fst ` A = fst ` set held \<and>
     (\<forall>(p, w) \<in> set held. \<exists>n. (p, n) \<in> A \<and> w \<le> n) \<and> (\<forall>x \<in> A. 0 < snd x) \<and> (\<forall>x \<in> A. \<forall>y \<in> A. x \<noteq> y \<longrightarrow> apart x y)"

locale area_allocator =
  fixes rep :: "'s \<Rightarrow> (nat \<times> nat) set \<Rightarrow> bool"
    and al :: "nat \<Rightarrow> 's \<Rightarrow> ('s \<times> nat) option"
    and fr :: "nat \<Rightarrow> 's \<Rightarrow> 's option"
    and max_size :: nat
  assumes ask: "rep s A \<Longrightarrow> sz \<le> max_size \<Longrightarrow> \<exists>s' p. al sz s = Some (s', p) \<and>
      (if p = 0 then s' = s else \<exists>n. sz \<le> n \<and> 0 < n \<and> rep s' (insert (p, n) A) \<and> (\<forall>a \<in> A. apart (p, n) a))"
    and give: "rep s A \<Longrightarrow> (p, n) \<in> A \<Longrightarrow> 0 < n \<Longrightarrow> \<exists>s'. fr p s = Some s' \<and> rep s' (A - {(p, n)})"
begin

lemma ask_held:
  assumes "rep s A" "sz \<le> max_size" "held_ok held A"
  obtains s' p A' where "al sz s = Some (s', p)" "rep s' A'" "held_ok (if p = 0 then held else (p, sz) # held) A'"
proof -
  obtain s' p where a: "al sz s = Some (s', p)"
    "if p = 0 then s' = s else \<exists>n. sz \<le> n \<and> 0 < n \<and> rep s' (insert (p, n) A) \<and> (\<forall>a \<in> A. apart (p, n) a)"
    using ask[OF assms(1,2)] by blast
  show thesis
  proof (cases "p = 0")
    case True
    then show thesis using a assms by (intro that[of s' p A]) simp_all
  next
    case False
    then obtain n where n: "sz \<le> n" "0 < n" "rep s' (insert (p, n) A)" "\<forall>a \<in> A. apart (p, n) a" using a(2) by auto
    note h = assms(3)[unfolded held_ok_def]
    have "p \<notin> fst ` A"
    proof
      assume "p \<in> fst ` A"
      then obtain m where m: "(p, m) \<in> A" by force
      then have "apart (p, n) (p, m)" "0 < m" using n(4) h by auto
      then show False using apart_self[of p n m] n(2) by simp
    qed
    then have "p \<notin> fst ` set held" using h by simp
    then have "distinct (map fst ((p, sz) # held))" using h by simp
    moreover have "\<forall>x \<in> insert (p, n) A. \<forall>y \<in> insert (p, n) A. x \<noteq> y \<longrightarrow> apart x y"
      using h n(4) apart_sym by blast
    moreover have "\<forall>(q, w) \<in> set ((p, sz) # held). \<exists>m. (q, m) \<in> insert (p, n) A \<and> w \<le> m" using h n(1) by fastforce
    ultimately have "held_ok ((p, sz) # held) (insert (p, n) A)" using h n(2) unfolding held_ok_def by simp
    then show thesis using a(1) n(3) False by (intro that[of s' p "insert (p, n) A"]) simp_all
  qed
qed

lemma give_held:
  assumes "rep s A" "held_ok held A" "i < length held"
  obtains s' A' where "fr (fst (held ! i)) s = Some s'" "rep s' A'" "held_ok (take i held @ drop (Suc i) held) A'"
proof -
  note h = assms(2)[unfolded held_ok_def]
  obtain p w where pw: "held ! i = (p, w)" by (cases "held ! i")
  have split: "held = take i held @ (p, w) # drop (Suc i) held" using id_take_nth_drop[OF assms(3)] pw by simp
  have "(p, w) \<in> set held" using assms(3) pw nth_mem by metis
  then obtain n where n: "(p, n) \<in> A" "0 < n" using h by fastforce
  obtain s' where s': "fr p s = Some s'" "rep s' (A - {(p, n)})" using give[OF assms(1) n] by blast
  have uniq: "m = n" if "(p, m) \<in> A" for m
  proof (rule ccontr)
    assume "m \<noteq> n"
    then have "apart (p, m) (p, n)" "0 < m" using h n(1) that by auto
    then show False using apart_self[of p m n] n(2) by simp
  qed
  let ?held = "take i held @ drop (Suc i) held"
  have d: "distinct (map fst ?held)" "p \<notin> fst ` set ?held" "set held = insert (p, w) (set ?held)"
  proof -
    have e: "map fst held = map fst (take i held) @ p # map fst (drop (Suc i) held)" by (subst split) simp
    have "distinct (map fst (take i held) @ p # map fst (drop (Suc i) held))" using h unfolding e[symmetric] by blast
    then show "distinct (map fst ?held)" "p \<notin> fst ` set ?held" by auto
    show "set held = insert (p, w) (set ?held)" by (subst split) auto
  qed
  have "fst ` (A - {(p, n)}) = fst ` set ?held"
  proof -
    have "fst ` (A - {(p, n)}) = fst ` A - {p}" using uniq by force
    also have "\<dots> = fst ` set held - {p}" using h by simp
    also have "\<dots> = fst ` set ?held" using d(2,3) by auto
    finally show ?thesis .
  qed
  moreover have "\<forall>(q, v) \<in> set ?held. \<exists>m. (q, m) \<in> A - {(p, n)} \<and> v \<le> m"
  proof clarify
    fix q v assume q: "(q, v) \<in> set ?held"
    then have "(q, v) \<in> set held" "q \<noteq> p" using d(2,3) by force+
    then show "\<exists>m. (q, m) \<in> A - {(p, n)} \<and> v \<le> m" using h by fastforce
  qed
  ultimately have "held_ok ?held (A - {(p, n)})" using h d(1) unfolding held_ok_def by simp
  then show thesis using that s' pw by simp
qed

lemma run_ok:
  assumes "rep s A" "held_ok held A" "\<forall>n. Ask n \<in> set ops \<longrightarrow> n \<le> max_size"
  shows "\<exists>s' held' A'. area_run al fr ops s held = Some (s', held') \<and> rep s' A' \<and> held_ok held' A'"
  using assms
proof (induction ops arbitrary: s held A)
  case Nil
  then show ?case by auto
next
  case (Cons op ops)
  note IH = Cons.IH and rest = Cons.prems
  show ?case
  proof (cases op)
    case (Ask n)
    then have "n \<le> max_size" using rest(3) by simp
    then obtain s' p A' where a: "al n s = Some (s', p)" "rep s' A'" "held_ok (if p = 0 then held else (p, n) # held) A'"
      by (rule ask_held[OF rest(1) _ rest(2)])
    show ?thesis using IH[OF a(2,3)] rest(3) Ask a(1) by simp
  next
    case (Give_back i)
    show ?thesis
    proof (cases "i < length held")
      case True
      obtain s' A' where g: "fr (fst (held ! i)) s = Some s'" "rep s' A'" "held_ok (take i held @ drop (Suc i) held) A'"
        by (rule give_held[OF rest(1,2) True])
      show ?thesis using IH[OF g(2,3)] rest(3) Give_back g(1) True by simp
    qed (use IH[OF rest(1,2)] rest(3) Give_back in simp)
  qed
qed

text \<open>From an allocator with nothing handed out no script fails; at its end the areas held are disjoint, and
  the allocator has handed out nothing else.\<close>

lemma run_safe:
  assumes "rep s {}" "\<forall>n. Ask n \<in> set ops \<longrightarrow> n \<le> max_size"
  shows "\<exists>s' held A. area_run al fr ops s [] = Some (s', held) \<and> rep s' A \<and> fst ` A = fst ` set held \<and>
    distinct (map fst held) \<and> (\<forall>i < length held. \<forall>j < length held. i \<noteq> j \<longrightarrow> apart (held ! i) (held ! j)) \<and>
    (held = [] \<longrightarrow> A = {})"
proof -
  have "held_ok [] {}" by (simp add: held_ok_def)
  then obtain s' held A where r: "area_run al fr ops s [] = Some (s', held)" "rep s' A" "held_ok held A"
    using run_ok[OF assms(1) _ assms(2)] by blast
  note h = r(3)[unfolded held_ok_def]
  have "apart (held ! i) (held ! j)" if ij: "i < length held" "j < length held" "i \<noteq> j" for i j
  proof -
    obtain p w q v where e: "held ! i = (p, w)" "held ! j = (q, v)" by (cases "held ! i"; cases "held ! j")
    have "p \<noteq> q" using h ij e nth_eq_iff_index_eq[of "map fst held" i j] by fastforce
    moreover obtain n where n: "(p, n) \<in> A" "w \<le> n" using h nth_mem[OF ij(1)] e(1) by fastforce
    moreover obtain m where m: "(q, m) \<in> A" "v \<le> m" using h nth_mem[OF ij(2)] e(2) by fastforce
    ultimately have "apart (p, n) (q, m)" using h by auto
    then show ?thesis unfolding e using n(2) m(2) by (rule apart_mono)
  qed
  then show ?thesis using r(1,2) h by (intro exI[of _ s'] exI[of _ held] exI[of _ A]) auto
qed

end

end
