(* ===== verification/Heap_Calls.thy ===== *)
theory Heap_Calls
  imports Small_Mem Semaphore Area_Allocator
begin

text \<open>
  The memory calls of \<^verbatim>\<open>src/mem.c\<close>: \<^verbatim>\<open>rt_malloc\<close>, \<^verbatim>\<open>rt_realloc\<close>, \<^verbatim>\<open>rt_calloc\<close>, \<^verbatim>\<open>rt_free\<close>. Each runs its
  section of theory \<^verbatim>\<open>Small_Mem\<close> with the heap semaphore held. A call that has to wait for the
  semaphore answers \<open>Wait_Heap w\<close>; \<open>mem_resume w\<close> is the rest of the call, run when the thread is
  scheduled again. The refinement theorems are about calls that find the semaphore free.
\<close>

section \<open>Operations\<close>

definition RT_WAITING_FOREVER :: int where "RT_WAITING_FOREVER = - 1"

datatype mem_wait =
    W_Malloc nat | W_Free nat | W_Realloc nat nat
  | W_Calloc nat mem_wait | W_Grow nat nat nat mem_wait | W_Drop nat mem_wait

datatype mem_result = Ret nat | Wait_Heap mem_wait

text \<open>\<^verbatim>\<open>rt_memset\<close> and \<^verbatim>\<open>rt_memcpy\<close> on the user bytes, addressed absolutely.\<close>

definition heap_fill :: "nat \<Rightarrow> u8 \<Rightarrow> nat \<Rightarrow> heap \<Rightarrow> heap" where
  "heap_fill p c n h = h\<lparr>h_byte := (\<lambda>a. if p \<le> a \<and> a < p + n then c else h_byte h a)\<rparr>"

definition heap_copy :: "nat \<Rightarrow> nat \<Rightarrow> nat \<Rightarrow> heap \<Rightarrow> heap" where
  "heap_copy dst src n h = h\<lparr>h_byte := (\<lambda>a. if dst \<le> a \<and> a < dst + n then h_byte h (src + (a - dst)) else h_byte h a)\<rparr>"

text \<open>\<^verbatim>\<open>rt_system_heap_init\<close>: the heap and its semaphore \<open>s\<close>.\<close>

definition rt_system_heap_init :: "nat \<Rightarrow> nat \<Rightarrow> nat \<Rightarrow> kernel \<Rightarrow> heap \<Rightarrow> (kernel \<times> heap) option" where
  "rt_system_heap_init s begin_addr end_addr k h = do {
     rt_debug_not_in_interrupt k;
     let (h, ok) = heap_init s begin_addr end_addr h;
     if ok then do {
       k \<leftarrow> rt_sem_init s ''heap'' 1 RT_IPC_FLAG_FIFO k;
       Some (k, h) }
     else Some (k, h) }"

definition malloc_rest :: "nat \<Rightarrow> kernel \<Rightarrow> heap \<Rightarrow> (kernel \<times> heap \<times> mem_result) option" where
  "malloc_rest sz k h = do {
     (h, p) \<leftarrow> malloc_locked sz h;
     k \<leftarrow> rt_sem_release (h_sem h) k;
     rt_assert (p \<noteq> 0 \<longrightarrow> p + sz \<le> h_ptr h + h_end h \<and> RT_ALIGN_SIZE dvd p \<and> RT_ALIGN_SIZE dvd p - SIZEOF_STRUCT_MEM);
     Some (k, h, Ret p) }"

definition rt_malloc :: "nat \<Rightarrow> kernel \<Rightarrow> heap \<Rightarrow> (kernel \<times> heap \<times> mem_result) option" where
  "rt_malloc sz k h =
     (if sz = 0 then Some (k, h, Ret 0)
      else do {
        rt_debug_not_in_interrupt k;
        let sz = align32 sz;
        if sz > h_size h then Some (k, h, Ret 0)
        else do {
          let sz = (if sz < MIN_SIZE_ALIGNED then MIN_SIZE_ALIGNED else sz);
          (k, r) \<leftarrow> rt_sem_take (h_sem h) RT_WAITING_FOREVER k;
          if r = Blocked then Some (k, h, Wait_Heap (W_Malloc sz)) else malloc_rest sz k h } })"

definition free_rest :: "nat \<Rightarrow> kernel \<Rightarrow> heap \<Rightarrow> (kernel \<times> heap \<times> mem_result) option" where
  "free_rest mem k h = do {
     h \<leftarrow> free_locked mem h;
     k \<leftarrow> rt_sem_release (h_sem h) k;
     Some (k, h, Ret 0) }"

text \<open>An address in the first header of the heap would make \<^verbatim>\<open>mem\<close> point before the heap: \<open>None\<close>.\<close>

definition rt_free :: "nat \<Rightarrow> kernel \<Rightarrow> heap \<Rightarrow> (kernel \<times> heap \<times> mem_result) option" where
  "rt_free rmem k h =
     (if rmem = 0 then Some (k, h, Ret 0)
      else do {
        rt_debug_not_in_interrupt k;
        rt_assert (RT_ALIGN_SIZE dvd rmem);
        rt_assert (h_ptr h \<le> rmem \<and> rmem < h_ptr h + h_end h);
        rt_assert (h_ptr h + SIZEOF_STRUCT_MEM \<le> rmem);
        let mem = rmem - SIZEOF_STRUCT_MEM - h_ptr h;
        (k, r) \<leftarrow> rt_sem_take (h_sem h) RT_WAITING_FOREVER k;
        if r = Blocked then Some (k, h, Wait_Heap (W_Free mem)) else free_rest mem k h })"

definition drop_done :: "nat \<Rightarrow> kernel \<times> heap \<times> mem_result \<Rightarrow> kernel \<times> heap \<times> mem_result" where
  "drop_done p x = (case x of (k, h, r) \<Rightarrow>
     (k, h, case r of Ret _ \<Rightarrow> Ret p | Wait_Heap w \<Rightarrow> Wait_Heap (W_Drop p w)))"

definition grow_done :: "nat \<Rightarrow> nat \<Rightarrow> nat \<Rightarrow> kernel \<times> heap \<times> mem_result \<Rightarrow> (kernel \<times> heap \<times> mem_result) option" where
  "grow_done rmem sz newsize x = (case x of (k, h, r) \<Rightarrow> (case r of
       Wait_Heap w \<Rightarrow> Some (k, h, Wait_Heap (W_Grow rmem sz newsize w))
     | Ret nmem \<Rightarrow>
         if nmem \<noteq> 0
         then map_option (drop_done nmem) (rt_free rmem k (heap_copy nmem rmem (if sz < newsize then sz else newsize) h))
         else Some (k, h, Ret 0)))"

definition realloc_rest :: "nat \<Rightarrow> nat \<Rightarrow> kernel \<Rightarrow> heap \<Rightarrow> (kernel \<times> heap \<times> mem_result) option" where
  "realloc_rest rmem newsize k h =
     (if rmem < h_ptr h \<or> h_ptr h + h_end h \<le> rmem then do {
        k \<leftarrow> rt_sem_release (h_sem h) k;
        Some (k, h, Ret rmem) }
      else do {
        rt_assert (h_ptr h + SIZEOF_STRUCT_MEM \<le> rmem);
        let mem = rmem - SIZEOF_STRUCT_MEM - h_ptr h;
        let sz = sub32 (hm_next (h_mem h mem)) (mem + SIZEOF_STRUCT_MEM);
        (h, kept) \<leftarrow> realloc_locked mem newsize h;
        k \<leftarrow> rt_sem_release (h_sem h) k;
        if kept then Some (k, h, Ret rmem)
        else do {
          x \<leftarrow> rt_malloc newsize k h;
          grow_done rmem sz newsize x } })"

definition rt_realloc :: "nat \<Rightarrow> nat \<Rightarrow> kernel \<Rightarrow> heap \<Rightarrow> (kernel \<times> heap \<times> mem_result) option" where
  "rt_realloc rmem newsize k h = do {
     rt_debug_not_in_interrupt k;
     let newsize = align32 newsize;
     if newsize > h_size h then Some (k, h, Ret 0)
     else if newsize = 0 then map_option (drop_done 0) (rt_free rmem k h)
     else if rmem = 0 then rt_malloc newsize k h
     else do {
       (k, r) \<leftarrow> rt_sem_take (h_sem h) RT_WAITING_FOREVER k;
       if r = Blocked then Some (k, h, Wait_Heap (W_Realloc rmem newsize)) else realloc_rest rmem newsize k h } }"

definition calloc_done :: "nat \<Rightarrow> kernel \<times> heap \<times> mem_result \<Rightarrow> kernel \<times> heap \<times> mem_result" where
  "calloc_done n x = (case x of (k, h, r) \<Rightarrow> (case r of
       Ret p \<Rightarrow> (k, if p \<noteq> 0 then heap_fill p 0 n h else h, Ret p)
     | Wait_Heap w \<Rightarrow> (k, h, Wait_Heap (W_Calloc n w))))"

text \<open>The product of count and size is a 32-bit product.\<close>

definition rt_calloc :: "nat \<Rightarrow> nat \<Rightarrow> kernel \<Rightarrow> heap \<Rightarrow> (kernel \<times> heap \<times> mem_result) option" where
  "rt_calloc count sz k h =
     (let n = count * sz mod 2 ^ 32 in map_option (calloc_done n) (rt_malloc n k h))"

fun mem_resume :: "mem_wait \<Rightarrow> kernel \<Rightarrow> heap \<Rightarrow> (kernel \<times> heap \<times> mem_result) option" where
  "mem_resume (W_Malloc sz) k h = malloc_rest sz k h"
| "mem_resume (W_Free mem) k h = free_rest mem k h"
| "mem_resume (W_Realloc rmem n) k h = realloc_rest rmem n k h"
| "mem_resume (W_Calloc n w) k h = map_option (calloc_done n) (mem_resume w k h)"
| "mem_resume (W_Grow rmem sz n w) k h = do { x \<leftarrow> mem_resume w k h; grow_done rmem sz n x }"
| "mem_resume (W_Drop p w) k h = map_option (drop_done p) (mem_resume w k h)"

section \<open>The heap semaphore\<close>

text \<open>Nobody holds the semaphore or waits for it.\<close>

definition heap_sem_free :: "kernel \<Rightarrow> heap \<Rightarrow> bool" where
  "heap_sem_free k h \<longleftrightarrow> o_type (k_objects k (OSem (h_sem h))) = RT_Object_Class_Semaphore \<and>
     sem_value (k_sems k (h_sem h)) = 1 \<and> k_lists k (SemWait (h_sem h)) = [] \<and> k_interrupt_nest k = 0"

lemma take_release:
  assumes "heap_sem_free k h"
  obtains k1 where "rt_sem_take (h_sem h) RT_WAITING_FOREVER k = Some (k1, Done RT_EOK)"
    "\<And>h'. h_sem h' = h_sem h \<Longrightarrow> rt_sem_release (h_sem h') k1 = Some k"
proof -
  let ?k1 = "upd_sem (h_sem h) (\<lambda>x. x\<lparr>sem_value := sem_value x - 1\<rparr>) k"
  have "rt_sem_take (h_sem h) RT_WAITING_FOREVER k = Some (?k1, Done RT_EOK)"
    using assms by (simp add: rt_sem_take_def heap_sem_free_def rt_object_get_type_def)
  moreover have "(k_sems k)(h_sem h := (k_sems k (h_sem h))\<lparr>sem_value := 1\<rparr>) = k_sems k"
    by (rule fun_upd_idem) (use assms in \<open>cases "k_sems k (h_sem h)", simp add: heap_sem_free_def\<close>)
  then have "rt_sem_release (h_sem h') ?k1 = Some k" if "h_sem h' = h_sem h" for h'
    using assms that by (simp add: rt_sem_release_def heap_sem_free_def rt_object_get_type_def upd_sem_def)
  ultimately show thesis by (rule that)
qed

lemma not_in_interrupt: "heap_sem_free k h \<Longrightarrow> rt_debug_not_in_interrupt k = Some ()"
  by (simp add: heap_sem_free_def rt_debug_not_in_interrupt_def rt_interrupt_get_nest_def)

lemma heap_sem_free_cong: "h_sem h' = h_sem h \<Longrightarrow> heap_sem_free k h' = heap_sem_free k h"
  by (simp add: heap_sem_free_def)

section \<open>The calls refine an allocator of disjoint areas\<close>

lemma regions_apart:
  assumes c: "heap_chain h bs" and a: "x \<in> regions h bs" "y \<in> regions h bs" "x \<noteq> y"
  shows "apart x y"
proof -
  have *: "apart (area h b) (area h c) \<and> apart (area h c) (area h b)" if "b \<in> set bs" "c \<in> set bs" "b < c" for b c
    using heap_chain_next(1,3)[OF assms(1) that(1)] that heap_chain_next(1)[OF assms(1) that(2)]
    by (fastforce simp: apart_def area_def mem_consts)
  obtain b d where "x = area h b" "y = area h d" "b \<in> set bs" "d \<in> set bs" "b \<noteq> d"
    using a by (auto simp: regions_area)
  then show ?thesis using *[of b d] *[of d b] by (cases "b < d") auto
qed

lemma regions_bounds:
  assumes c: "heap_chain h bs" and a: "(p, n) \<in> regions h bs"
  shows "h_ptr h + SIZEOF_STRUCT_MEM \<le> p" "p + n \<le> h_ptr h + h_end h" "p < h_ptr h + h_end h \<or> n = 0" "RT_ALIGN_SIZE dvd p" "p \<noteq> 0"
    "p - SIZEOF_STRUCT_MEM - h_ptr h \<in> set bs" "\<not> is_free h (p - SIZEOF_STRUCT_MEM - h_ptr h)"
    "area h (p - SIZEOF_STRUCT_MEM - h_ptr h) = (p, n)"
proof -
  obtain b where b: "b \<in> set bs" "\<not> is_free h b" "area h b = (p, n)" using a by (auto simp: regions_area)
  note nx = heap_chain_next[OF c b(1)]
  have dv: "RT_ALIGN_SIZE dvd b" using c b(1) by (metis heap_chain_bounds(4) in_set_conv_decomp)
  have e: "p = h_ptr h + b + SIZEOF_STRUCT_MEM" "n = hm_next (h_mem h b) - b - SIZEOF_STRUCT_MEM" using b(3) by (simp_all add: area_def)
  then show "h_ptr h + SIZEOF_STRUCT_MEM \<le> p" "p + n \<le> h_ptr h + h_end h" "p < h_ptr h + h_end h \<or> n = 0" "p \<noteq> 0"
    using nx(1,4) by (auto simp: mem_consts)
  show "RT_ALIGN_SIZE dvd p" using c dv e(1) by (simp add: heap_chain_def mem_consts RT_ALIGN_SIZE_def)
  have "p - SIZEOF_STRUCT_MEM - h_ptr h = b" using e(1) by simp
  then show "p - SIZEOF_STRUCT_MEM - h_ptr h \<in> set bs" "\<not> is_free h (p - SIZEOF_STRUCT_MEM - h_ptr h)"
    "area h (p - SIZEOF_STRUCT_MEM - h_ptr h) = (p, n)" using b by simp_all
qed

text \<open>The size a block of \<open>sz\<close> bytes gets at least, after alignment in 32 bits.\<close>

definition request :: "nat \<Rightarrow> nat" where
  "request sz = (if align32 sz < MIN_SIZE_ALIGNED then MIN_SIZE_ALIGNED else align32 sz)"

lemma align32_dvd: "RT_ALIGN_SIZE dvd align32 sz"
  unfolding align32_def RT_ALIGN_SIZE_def using RT_ALIGN_dvd[of 4 sz] by (simp add: dvd_mod)

lemma request_dvd: "RT_ALIGN_SIZE dvd request sz"
  using align32_dvd[of sz] by (simp add: request_def mem_consts RT_ALIGN_SIZE_def)

lemma align32_no_wrap: "sz \<le> 2 ^ 32 - 4 \<Longrightarrow> align32 sz = RT_ALIGN sz 4 \<and> sz \<le> align32 sz"
  using RT_ALIGN_less[of 4 sz] RT_ALIGN_ge[of 4 sz] by (simp add: align32_def RT_ALIGN_SIZE_def)

lemma malloc_effect:
  assumes inv: "heap_inv h bs" and sem: "heap_sem_free k h" and big: "12 \<le> h_size h"
  obtains h' bs' p where "rt_malloc sz k h = Some (k, h', Ret p)" "heap_inv h' bs'"
    "if sz = 0 \<or> h_size h < align32 sz then p = 0 \<and> h' = h \<and> bs' = bs else alloc_result (request sz) h bs h' bs' p"
    "lfree_low h bs \<Longrightarrow> lfree_low h' bs'" "h_sem h' = h_sem h"
proof (cases "sz = 0 \<or> h_size h < align32 sz")
  case True
  then show thesis using inv not_in_interrupt[OF sem] by (intro that[of h 0 bs]) (auto simp: rt_malloc_def Let_def)
next
  case False
  have rq: "request sz \<le> h_size h" using False big by (simp add: request_def mem_consts)
  obtain h' bs' p where m: "malloc_locked (request sz) h = Some (h', p)" "heap_inv h' bs'"
    "alloc_result (request sz) h bs h' bs' p" "lfree_low h bs \<Longrightarrow> lfree_low h' bs'"
    by (rule malloc_locked_effect[OF inv rq request_dvd]) blast
  have s: "h_sem h' = h_sem h" using m(3) by (auto simp: alloc_result_def split: if_splits)
  obtain k1 where k1: "rt_sem_take (h_sem h) RT_WAITING_FOREVER k = Some (k1, Done RT_EOK)"
    "rt_sem_release (h_sem h') k1 = Some k" using take_release[OF sem] s by metis
  have as: "p \<noteq> 0 \<longrightarrow> p + request sz \<le> h_ptr h' + h_end h' \<and> RT_ALIGN_SIZE dvd p \<and> RT_ALIGN_SIZE dvd p - SIZEOF_STRUCT_MEM"
    using m(3) by (auto simp: alloc_result_def mem_consts RT_ALIGN_SIZE_def dvd_diff_nat)
  have "rt_malloc sz k h = Some (k, h', Ret p)"
    using False m(1) k1 as not_in_interrupt[OF sem]
    by (simp add: rt_malloc_def Let_def malloc_rest_def request_def[symmetric])
  then show thesis using m False s by (intro that[of h' p bs']) auto
qed

lemma free_effect:
  assumes inv: "heap_inv h bs" and sem: "heap_sem_free k h" and r: "(p, n) \<in> regions h bs" "0 < n"
  obtains h' bs' where "rt_free p k h = Some (k, h', Ret 0)" "heap_inv h' bs'" "regions h' bs' = regions h bs - {(p, n)}"
    "h_used h' = h_used h - (n + 12)" "same_setup h h'" "lfree_low h bs \<Longrightarrow> lfree_low h' bs'"
proof -
  note b = regions_bounds[OF heap_invD(1)[OF inv] r(1)]
  obtain x where x: "p - SIZEOF_STRUCT_MEM - h_ptr h = x" by blast
  obtain h' bs' where f: "free_locked x h = Some h'" "heap_inv h' bs'" "regions h' bs' = regions h bs - {area h x}"
    "h_used h' = h_used h - (hm_next (h_mem h x) - x)" "same_setup h h'" "lfree_low h bs \<Longrightarrow> lfree_low h' bs'"
    by (rule free_locked_effect[OF inv b(6,7)[unfolded x]]) blast
  have s: "h_sem h' = h_sem h" using f(5) by (simp add: same_setup_def)
  obtain k1 where k1: "rt_sem_take (h_sem h) RT_WAITING_FOREVER k = Some (k1, Done RT_EOK)"
    "rt_sem_release (h_sem h') k1 = Some k" using take_release[OF sem] s by metis
  have "rt_free p k h = Some (k, h', Ret 0)"
    using b(1,3-5) r(2) f(1) k1 not_in_interrupt[OF sem] 
    by (simp add: rt_free_def Let_def free_rest_def x[unfolded diff_diff_left])
  moreover have "hm_next (h_mem h x) - x = n + 12"
    using b(8)[unfolded x] heap_chain_next(1)[OF heap_invD(1)[OF inv] b(6)[unfolded x]]
    unfolding area_def mem_consts prod.inject by linarith
  ultimately show thesis using f b(8)[unfolded x] by (intro that[of h' bs']) simp_all
qed

text \<open>Resizing: the block is kept, shrunk in place, or moved.\<close>

definition keeps_contents :: "heap \<Rightarrow> heap \<Rightarrow> (nat \<times> nat) set \<Rightarrow> bool" where
  "keeps_contents h h' A \<longleftrightarrow> (\<forall>(q, m) \<in> A. \<forall>i < m. h_byte h' (q + i) = h_byte h (q + i))"

lemma heap_copy_sel [simp]:
  "h_ptr (heap_copy d s n h) = h_ptr h" "h_end (heap_copy d s n h) = h_end h" "h_size (heap_copy d s n h) = h_size h"
  "h_lfree (heap_copy d s n h) = h_lfree h" "h_used (heap_copy d s n h) = h_used h" "h_max (heap_copy d s n h) = h_max h"
  "h_mem (heap_copy d s n h) = h_mem h" "h_sem (heap_copy d s n h) = h_sem h"
  by (simp_all add: heap_copy_def)

lemma heap_copy_inv [simp]: "heap_inv (heap_copy d s n h) bs = heap_inv h bs" "regions (heap_copy d s n h) bs = regions h bs"
  by (simp_all add: heap_inv_def heap_chain_def lfree_ok_def coalesced_def regions_def)

lemma grow_effect:
  assumes inv: "heap_inv h bs" and sem: "heap_sem_free k h" and big: "12 \<le> h_size h" and r: "(p, n) \<in> regions h bs" "0 < n"
    and z: "0 < sz" "align32 sz = sz" "sz \<le> h_size h"
  obtains h' bs' q where "Option.bind (rt_malloc sz k h) (grow_done p n sz) = Some (k, h', Ret q)" "heap_inv h' bs'" "h_sem h' = h_sem h"
    "if q = 0 then h' = h \<and> bs' = bs
     else (\<exists>m. sz \<le> m \<and> regions h' bs' = insert (q, m) (regions h bs - {(p, n)}) \<and>
       (\<forall>r \<in> regions h bs. apart (q, m) r)) \<and> (\<forall>i < min n sz. h_byte h' (q + i) = h_byte h (p + i)) \<and>
       keeps_contents h h' (regions h bs - {(p, n)})"
proof -
  obtain h1 b1 q where m: "rt_malloc sz k h = Some (k, h1, Ret q)" "heap_inv h1 b1"
    "if sz = 0 \<or> h_size h < align32 sz then q = 0 \<and> h1 = h \<and> b1 = bs else alloc_result (request sz) h bs h1 b1 q"
    "h_sem h1 = h_sem h"
    by (rule malloc_effect[OF inv sem big]) blast
  then have al: "alloc_result (request sz) h bs h1 b1 q" using z by simp
  show thesis
  proof (cases "q = 0")
    case True
    then have "h1 = h" "b1 = bs" using al by (simp_all add: alloc_result_def)
    then show thesis using m True inv by (intro that[of h 0 bs]) (simp_all add: grow_done_def)
  next
    case False
    then obtain m' where m': "request sz \<le> m'" "regions h1 b1 = insert (q, m') (regions h bs)"
      "h_byte h1 = h_byte h" "q \<notin> fst ` regions h bs" "same_setup h h1"
      using al by (auto simp: alloc_result_def same_setup_def)
    have q: "(q, m') \<in> regions h1 b1" using m' by simp
    have zq: "sz \<le> m'" using m'(1) z(2) by (auto simp: request_def split: if_splits)
    have fresh: "(q, m') \<notin> regions h bs" using m'(4) by force
    have ap: "apart (q, m') r" if "r \<in> regions h bs" for r
      using regions_apart[OF heap_invD(1)[OF m(2)] q, of r] that m'(2) fresh by auto
    obtain h2 where h2: "h2 = heap_copy q p (if n < sz then n else sz) h1" by blast
    have i2: "heap_inv h2 b1" "(p, n) \<in> regions h2 b1" "heap_sem_free k h2"
      using m(2,4) m'(2) r(1) sem heap_sem_free_cong[of h2 h k] by (simp_all add: h2)
    obtain h3 b3 where f: "rt_free p k h2 = Some (k, h3, Ret 0)" "heap_inv h3 b3" "regions h3 b3 = regions h2 b1 - {(p, n)}"
      "same_setup h2 h3" by (rule free_effect[OF i2(1,3,2) r(2)]) blast
    have "Option.bind (rt_malloc sz k h) (grow_done p n sz) = Some (k, h3, Ret q)"
      using m(1) False f(1) by (simp add: grow_done_def drop_done_def h2[symmetric])
    moreover have "regions h3 b3 = insert (q, m') (regions h bs - {(p, n)})"
      using f(3) m'(2) fresh r(1) by (auto simp: h2)
    moreover have "h_byte h3 (q + i) = h_byte h (p + i)" if "i < min n sz" for i
      using that f(4) m'(3) by (simp add: same_setup_def h2 heap_copy_def)
    moreover have "keeps_contents h h3 (regions h bs - {(p, n)})"
      unfolding keeps_contents_def
    proof (intro ballI, clarify)
      fix a l i assume a: "(a, l) \<in> regions h bs" "i < l"
      then have "\<not> (q \<le> a + i \<and> a + i < q + (if n < sz then n else sz))"
        using ap[OF a(1)] zq by (auto simp: apart_def)
      then show "h_byte h3 (a + i) = h_byte h (a + i)" using f(4) m'(3) by (auto simp: same_setup_def h2 heap_copy_def)
    qed
    moreover from calculation have "\<exists>m. sz \<le> m \<and> regions h3 b3 = insert (q, m) (regions h bs - {(p, n)}) \<and>
        (\<forall>r \<in> regions h bs. apart (q, m) r)" using ap zq by blast
    ultimately show thesis
      using False f(2,4) m(4) by (intro that[of h3 q b3]) (simp_all add: same_setup_def h2)
  qed
qed

lemma realloc_effect:
  assumes inv: "heap_inv h bs" and sem: "heap_sem_free k h" and big: "12 \<le> h_size h" and r: "(p, n) \<in> regions h bs" "0 < n"
    and z: "0 < align32 sz" "align32 sz \<le> h_size h"
  obtains h' bs' q where "rt_realloc p sz k h = Some (k, h', Ret q)" "heap_inv h' bs'" "h_sem h' = h_sem h"
    "if q = 0 then h' = h \<and> bs' = bs
     else (\<exists>m. align32 sz \<le> m \<and> regions h' bs' = insert (q, m) (regions h bs - {(p, n)}) \<and>
       (\<forall>r \<in> regions h bs - {(p, n)}. apart (q, m) r)) \<and>
       (\<forall>i < min n (align32 sz). h_byte h' (q + i) = h_byte h (p + i)) \<and> keeps_contents h h' (regions h bs - {(p, n)})"
proof -
  let ?sz = "align32 sz"
  note b = regions_bounds[OF heap_invD(1)[OF inv] r(1)]
  obtain x where x: "p - SIZEOF_STRUCT_MEM - h_ptr h = x" by blast
  have nx: "sub32 (hm_next (h_mem h x)) (x + SIZEOF_STRUCT_MEM) = n"
    using b(8)[unfolded x] heap_chain_next(1)[OF heap_invD(1)[OF inv] b(6)[unfolded x]]
    by (simp add: area_def mem_consts)
  obtain h1 b1 kept where l: "realloc_locked x ?sz h = Some (h1, kept)" "heap_inv h1 b1" "same_setup h h1"
    "kept \<longleftrightarrow> snd (area h x) = ?sz \<or> ?sz + 24 < snd (area h x)"
    "regions h1 b1 = (if kept then insert (fst (area h x), ?sz) (regions h bs - {area h x}) else regions h bs)"
    "kept \<and> snd (area h x) \<noteq> ?sz \<or> h1 = h \<and> b1 = bs"
    by (rule realloc_locked_effect[OF inv b(6,7)[unfolded x] align32_dvd]) blast
  have s: "h_sem h1 = h_sem h" "h_byte h1 = h_byte h" using l(3) by (simp_all add: same_setup_def)
  have ar: "area h x = (p, n)" using b(8) x by simp
  obtain k1 where k1: "rt_sem_take (h_sem h) RT_WAITING_FOREVER k = Some (k1, Done RT_EOK)"
    "rt_sem_release (h_sem h1) k1 = Some k" using take_release[OF sem] s by metis
  have e: "rt_realloc p sz k h = (if kept then Some (k, h1, Ret p) else Option.bind (rt_malloc ?sz k h1) (grow_done p n ?sz))"
    using b(1,3,5) r(2) z l(1) k1 not_in_interrupt[OF sem] nx
    by (simp add: rt_realloc_def realloc_rest_def Let_def x[unfolded diff_diff_left])
  show thesis
  proof (cases kept)
    case True
    have "apart (p, ?sz) c" if "c \<in> regions h bs - {(p, n)}" for c
    proof -
      have "(p, ?sz) \<in> regions h1 b1" "c \<in> regions h1 b1" using l(5) True ar that by auto
      moreover have "c \<noteq> (p, ?sz)"
      proof
        assume "c = (p, ?sz)"
        then have "area h x = c" using regions_bounds(8)[OF heap_invD(1)[OF inv], of p ?sz] that x by auto
        then show False using that ar by simp
      qed
      ultimately show ?thesis using regions_apart[OF heap_invD(1)[OF l(2)]] by metis
    qed
    then show thesis
      using e True l(2,5) s ar b(5)
      by (intro that[of h1 p b1]) (auto simp: keeps_contents_def intro!: exI[of _ ?sz])
  next
    case False
    then have h: "h1 = h" using l(6) by simp
    have "align32 ?sz = ?sz" using align32_dvd[of sz] by (auto simp: align32_def RT_ALIGN_def RT_ALIGN_SIZE_def elim!: dvdE)
    then obtain h' bs' q where g: "Option.bind (rt_malloc ?sz k h) (grow_done p n ?sz) = Some (k, h', Ret q)"
      "heap_inv h' bs'" "h_sem h' = h_sem h" "if q = 0 then h' = h \<and> bs' = bs
       else (\<exists>m. ?sz \<le> m \<and> regions h' bs' = insert (q, m) (regions h bs - {(p, n)}) \<and>
         (\<forall>r \<in> regions h bs. apart (q, m) r)) \<and> (\<forall>i < min n ?sz. h_byte h' (q + i) = h_byte h (p + i)) \<and>
         keeps_contents h h' (regions h bs - {(p, n)})"
      using grow_effect[OF inv sem big r z(1) _ z(2)] by blast
    have "rt_realloc p sz k h = Some (k, h', Ret q)" using e False g(1) h by simp
    then show thesis using g(2-4) by (intro that[of h' q bs']) (auto split: if_splits)
  qed
qed

section \<open>The contract of an allocator\<close>

text \<open>The calls as operations on the heap, for a thread that finds its semaphore free.\<close>

definition heap_ask :: "kernel \<Rightarrow> nat \<Rightarrow> heap \<Rightarrow> (heap \<times> nat) option" where
  "heap_ask k sz h = (case rt_malloc sz k h of Some (_, h', Ret p) \<Rightarrow> Some (h', p) | _ \<Rightarrow> None)"

definition heap_give :: "kernel \<Rightarrow> nat \<Rightarrow> heap \<Rightarrow> heap option" where
  "heap_give k p h = (case rt_free p k h of Some (_, h', Ret _) \<Rightarrow> Some h' | _ \<Rightarrow> None)"

definition heap_holds :: "kernel \<Rightarrow> heap \<Rightarrow> (nat \<times> nat) set \<Rightarrow> bool" where
  "heap_holds k h A \<longleftrightarrow> heap_sem_free k h \<and> 12 \<le> h_size h \<and> (\<exists>bs. heap_inv h bs \<and> A = regions h bs)"

interpretation small_heap: area_allocator "heap_holds k" "heap_ask k" "heap_give k" "2 ^ 32 - 4" for k
proof
  fix s A sz assume a: "heap_holds k s A" "sz \<le> (2 ^ 32 - 4 :: nat)"
  then obtain bs where h: "heap_sem_free k s" "12 \<le> h_size s" "heap_inv s bs" "A = regions s bs" by (auto simp: heap_holds_def)
  obtain h' bs' p where m: "rt_malloc sz k s = Some (k, h', Ret p)" "heap_inv h' bs'"
    "if sz = 0 \<or> h_size s < align32 sz then p = 0 \<and> h' = s \<and> bs' = bs else alloc_result (request sz) s bs h' bs' p"
    "h_sem h' = h_sem s" by (rule malloc_effect[OF h(3,1,2)]) blast
  have ask: "heap_ask k sz s = Some (h', p)" by (simp add: heap_ask_def m(1))
  show "\<exists>s' p. heap_ask k sz s = Some (s', p) \<and> (if p = 0 then s' = s
      else \<exists>n. sz \<le> n \<and> 0 < n \<and> heap_holds k s' (insert (p, n) A) \<and> (\<forall>a \<in> A. apart (p, n) a))"
  proof (cases "p = 0")
    case True
    then have "h' = s" using m(3) by (auto simp: alloc_result_def split: if_splits)
    then show ?thesis using ask True by simp
  next
    case False
    then obtain n where n: "request sz \<le> n" "regions h' bs' = insert (p, n) (regions s bs)" "p \<notin> fst ` regions s bs" "h_size h' = h_size s"
      using m(3) by (auto simp: alloc_result_def split: if_splits)
    have "\<forall>a \<in> regions s bs. apart (p, n) a"
      using regions_apart[OF heap_invD(1)[OF m(2)], of "(p, n)"] n(2,3) by force
    moreover have "sz \<le> n" "0 < n" using n(1) align32_no_wrap[OF a(2)] by (auto simp: request_def mem_consts split: if_splits)
    moreover have "heap_holds k h' (insert (p, n) A)"
      using h m(2) n(2,4) heap_sem_free_cong[OF m(4)] by (auto simp: heap_holds_def)
    ultimately show ?thesis using ask False h(4) by auto
  qed
next
  fix s A p n assume a: "heap_holds k s A" "(p, n) \<in> A" "0 < (n :: nat)"
  then obtain bs where h: "heap_sem_free k s" "12 \<le> h_size s" "heap_inv s bs" "A = regions s bs" by (auto simp: heap_holds_def)
  obtain h' bs' where f: "rt_free p k s = Some (k, h', Ret 0)" "heap_inv h' bs'" "regions h' bs' = regions s bs - {(p, n)}"
    "same_setup s h'" by (rule free_effect[OF h(3,1) a(2)[unfolded h(4)] a(3)])
  have "heap_give k p s = Some h'" by (simp add: heap_give_def f(1))
  moreover have "heap_holds k h' (A - {(p, n)})"
    using h(1,2,4) f(2-4) heap_sem_free_cong[of h' s k] by (auto simp: heap_holds_def same_setup_def)
  ultimately show "\<exists>s'. heap_give k p s = Some s' \<and> heap_holds k s' (A - {(p, n)})" by blast
qed

text \<open>A program that starts on an empty heap never fails, and holds disjoint areas.\<close>

lemma small_heap_scripts:
  assumes "heap_holds k h {}" "\<forall>n. Ask n \<in> set ops \<longrightarrow> n \<le> 2 ^ 32 - 4"
  shows "\<exists>h' held. area_run (heap_ask k) (heap_give k) ops h [] = Some (h', held) \<and>
    (\<forall>i < length held. \<forall>j < length held. i \<noteq> j \<longrightarrow> apart (held ! i) (held ! j))"
  using small_heap.run_safe[OF assms] by blast

section \<open>Properties\<close>

text \<open>A heap of one kilobyte and a kernel whose heap semaphore is free.\<close>

definition blank_heap :: heap where
  "blank_heap = \<lparr>h_ptr = 0, h_end = 0, h_lfree = 0, h_size = 0, h_used = 0, h_max = 0,
     h_mem = (\<lambda>_. \<lparr>hm_magic = 0, hm_used = 0, hm_next = 0, hm_prev = 0\<rparr>), h_byte = (\<lambda>_. 0), h_sem = 0\<rparr>"

definition sample_heap :: heap where
  "sample_heap = fst (heap_init 0 0x20000000 0x20000400 blank_heap)"

definition heap_kernel :: kernel where
  "heap_kernel = sample\<lparr>k_sems := (\<lambda>_. \<lparr>sem_flag = 0, sem_value = 1\<rparr>), k_lists := (k_lists sample)(SemWait 0 := [])\<rparr>"

lemma sample_heap_facts:
  "heap_inv sample_heap [0]" "lfree_low sample_heap [0]" "regions sample_heap [0] = {}" "h_size sample_heap = 1000"
  "h_sem sample_heap = 0" "h_lfree sample_heap = 0" "h_ptr sample_heap = 0x20000000"
  "heap_sem_free heap_kernel sample_heap" "fits sample_heap 100 0"
proof -
  have a: "RT_ALIGN 0x20000000 4 = 0x20000000" "RT_ALIGN_DOWN 0x20000400 4 = 0x20000400"
    by (simp_all add: RT_ALIGN_def RT_ALIGN_DOWN_def)
  show "heap_inv sample_heap [0]" "lfree_low sample_heap [0]" "regions sample_heap [0] = {}"
    using heap_init_effect(1)[where begin_addr = "0x20000000" and end_addr = "0x20000400" and h = blank_heap and s = 0] a by (simp_all add: sample_heap_def blank_heap_def)
  show s: "h_size sample_heap = 1000" "h_sem sample_heap = 0" "h_lfree sample_heap = 0" "h_ptr sample_heap = 0x20000000"
    by (simp_all add: sample_heap_def heap_init_def align32_def RT_ALIGN_def RT_ALIGN_DOWN_def RT_ALIGN_SIZE_def mem_consts Let_def)
  show "fits sample_heap 100 0" by (simp add: fits_def sample_heap_def heap_init_def align32_def RT_ALIGN_def
      RT_ALIGN_DOWN_def RT_ALIGN_SIZE_def mem_consts Let_def)
  show "heap_sem_free heap_kernel sample_heap"
    using sample_registered_types(1) s by (simp add: heap_sem_free_def heap_kernel_def)
qed

text \<open>One area of at least 100 bytes in use.\<close>

lemma sample_malloc:
  obtains h bs p n where "rt_malloc 100 heap_kernel sample_heap = Some (heap_kernel, h, Ret p)" "heap_inv h bs"
    "regions h bs = {(p, n)}" "100 \<le> n" "heap_sem_free heap_kernel h" "h_size h = 1000"
proof -
  note f = sample_heap_facts
  have a: "align32 100 = 100" "request 100 = 100" by (simp_all add: align32_def RT_ALIGN_def RT_ALIGN_SIZE_def request_def mem_consts)
  obtain h bs p where m: "rt_malloc 100 heap_kernel sample_heap = Some (heap_kernel, h, Ret p)" "heap_inv h bs"
    "if 100 = (0::nat) \<or> h_size sample_heap < align32 100 then p = 0 \<and> h = sample_heap \<and> bs = [0]
     else alloc_result (request 100) sample_heap [0] h bs p" "h_sem h = h_sem sample_heap"
    by (rule malloc_effect[OF f(1,8), of 100]) (use f(4) in auto)
  then have al: "alloc_result 100 sample_heap [0] h bs p" using a f(4) by simp
  then have "p \<noteq> 0" using f(4,6,9) by (auto simp: alloc_result_def split: if_splits)
  then obtain n where "regions h bs = {(p, n)}" "100 \<le> n" "h_size h = 1000" using al f(3,4) by (auto simp: alloc_result_def)
  then show thesis using m(1,2) f(8) heap_sem_free_cong[OF m(4)] that by blast
qed

text \<open>C2. \<open>rt_malloc\<close> refines an allocator of disjoint areas: it returns, keeps the heap well formed, and
  answers null without any effect or an aligned area of at least the size asked for, apart from all
  areas in use. When no free block lies below \<open>lfree\<close> it answers null only if the size is zero or too
  large, or no free block below the bound of the search fits.\<close>

theorem malloc_refines:
  assumes "heap_inv h bs" "heap_sem_free k h" "12 \<le> h_size h" "sz \<le> 2 ^ 32 - 4"
  shows "\<exists>h' bs' p. rt_malloc sz k h = Some (k, h', Ret p) \<and> heap_inv h' bs' \<and> (lfree_low h bs \<longrightarrow> lfree_low h' bs') \<and>
    (if p = 0
     then h' = h \<and> (lfree_low h bs \<longrightarrow> sz = 0 \<or> h_size h < align32 sz \<or>
            (\<forall>b \<in> set bs. b + request sz < h_size h \<longrightarrow> \<not> fits h (request sz) b))
     else (\<exists>n. sz \<le> n \<and> RT_ALIGN_SIZE dvd p \<and> h_ptr h < p \<and> p + n \<le> h_ptr h + h_end h \<and>
            regions h' bs' = insert (p, n) (regions h bs) \<and> (\<forall>a \<in> regions h bs. apart (p, n) a)) \<and>
          h_byte h' = h_byte h)"
proof -
  obtain h' bs' p where m: "rt_malloc sz k h = Some (k, h', Ret p)" "heap_inv h' bs'"
    "if sz = 0 \<or> h_size h < align32 sz then p = 0 \<and> h' = h \<and> bs' = bs else alloc_result (request sz) h bs h' bs' p"
    "lfree_low h bs \<Longrightarrow> lfree_low h' bs'" by (rule malloc_effect[OF assms(1-3)]) blast
  have le: "sz \<le> request sz" using align32_no_wrap[OF assms(4)] by (auto simp: request_def)
  show ?thesis
  proof (cases "p = 0")
    case True
    then show ?thesis using m by (intro exI[of _ h'] exI[of _ bs'] exI[of _ 0])
        (auto simp: alloc_result_def lfree_low_def fits_def split: if_splits)
  next
    case False
    then have al: "alloc_result (request sz) h bs h' bs' p" using m(3) by (simp split: if_splits)
    then obtain n where n: "request sz \<le> n" "regions h' bs' = insert (p, n) (regions h bs)" "p \<notin> fst ` regions h bs"
      "RT_ALIGN_SIZE dvd p" "p + n \<le> h_ptr h + h_end h" "h_byte h' = h_byte h" "h_ptr h' = h_ptr h"
      using False by (auto simp: alloc_result_def)
    have "(p, n) \<in> regions h' bs'" using n(2) by simp
    then have "h_ptr h < p" "\<forall>a \<in> regions h bs. apart (p, n) a"
      using regions_apart[OF heap_invD(1)[OF m(2)], of "(p, n)"] regions_bounds(1)[OF heap_invD(1)[OF m(2)], of p n] n(2,3,7)
      by (force simp: mem_consts)+
    then show ?thesis using m n le False
      by (intro exI[of _ h'] exI[of _ bs'] exI[of _ p]) (auto intro!: exI[of _ n])
  qed
qed

theorem malloc_refines_witness:
  "\<exists>h' bs' p. rt_malloc 100 heap_kernel sample_heap = Some (heap_kernel, h', Ret p) \<and> heap_inv h' bs'"
  using malloc_refines[OF sample_heap_facts(1,8), of 100] sample_heap_facts(4) by auto

text \<open>C3. \<open>rt_free\<close> gives back exactly the area it is called with, merges the free blocks, keeps the
  contents of the others and the accounts; when the last area is given back the heap is again one
  free block, so no sequence of calls loses memory.\<close>

theorem free_refines:
  assumes "heap_inv h bs" "heap_sem_free k h" "(p, n) \<in> regions h bs" "0 < n"
  shows "\<exists>h' bs'. rt_free p k h = Some (k, h', Ret 0) \<and> heap_inv h' bs' \<and> regions h' bs' = regions h bs - {(p, n)} \<and>
    h_byte h' = h_byte h \<and> h_used h' = h_used h - (n + 12) \<and> (lfree_low h bs \<longrightarrow> lfree_low h' bs') \<and>
    (regions h bs = {(p, n)} \<longrightarrow> bs' = [0] \<and> hm_next (h_mem h' 0) = h_end h \<and> h_used h' = 0)"
proof -
  obtain h' bs' where f: "rt_free p k h = Some (k, h', Ret 0)" "heap_inv h' bs'" "regions h' bs' = regions h bs - {(p, n)}"
    "h_used h' = h_used h - (n + 12)" "same_setup h h'" "lfree_low h bs \<Longrightarrow> lfree_low h' bs'"
    by (rule free_effect[OF assms]) blast
  have "bs' = [0] \<and> hm_next (h_mem h' 0) = h_end h \<and> h_used h' = 0" if e: "regions h' bs' = {}"
  proof -
    note i = heap_invD[OF f(2)]
    have fr: "is_free h' b" if "b \<in> set bs'" for b using e that by (auto simp: regions_area)
    obtain xs where xs: "bs' = 0 # xs" using i(1) by (cases bs') (auto simp: heap_chain_def)
    then have "xs = []" using i(3) fr by (cases xs) (auto simp: coalesced_Cons)
    moreover have "blocks (h_mem h') (h_end h') 0 xs (h_end h')" using i(1) xs by (simp add: heap_chain_def)
    ultimately show ?thesis using i(4) fr xs f(5) by (simp add: used_bytes_def block_ok_def same_setup_def)
  qed
  then show ?thesis using f by (intro exI[of _ h'] exI[of _ bs']) (auto simp: same_setup_def)
qed

theorem free_refines_witness:
  "\<exists>h p h' bs'. rt_malloc 100 heap_kernel sample_heap = Some (heap_kernel, h, Ret p) \<and>
     rt_free p heap_kernel h = Some (heap_kernel, h', Ret 0) \<and> heap_inv h' bs' \<and> bs' = [0] \<and> h_used h' = 0"
proof -
  obtain h bs p n where s: "rt_malloc 100 heap_kernel sample_heap = Some (heap_kernel, h, Ret p)" "heap_inv h bs"
    "regions h bs = {(p, n)}" "100 \<le> n" "heap_sem_free heap_kernel h" by (rule sample_malloc) blast
  show ?thesis using free_refines[OF s(2,5), of p n] s(1,3,4) by auto
qed

text \<open>C4. \<open>rt_realloc\<close> answers null and leaves everything as it was, or an area of at least the new size
  (in place or elsewhere) that replaces the old one, apart from all others, with the contents of the
  old area up to the smaller of the two sizes; the other areas keep their contents.\<close>

theorem realloc_refines:
  assumes "heap_inv h bs" "heap_sem_free k h" "12 \<le> h_size h" "(p, n) \<in> regions h bs" "0 < n"
    "0 < sz" "sz \<le> 2 ^ 32 - 4" "align32 sz \<le> h_size h"
  shows "\<exists>h' bs' q. rt_realloc p sz k h = Some (k, h', Ret q) \<and> heap_inv h' bs' \<and>
    (if q = 0 then h' = h
     else (\<exists>m. sz \<le> m \<and> regions h' bs' = insert (q, m) (regions h bs - {(p, n)}) \<and>
            (\<forall>a \<in> regions h bs - {(p, n)}. apart (q, m) a)) \<and>
          (\<forall>i < min n sz. h_byte h' (q + i) = h_byte h (p + i)) \<and> keeps_contents h h' (regions h bs - {(p, n)}))"
proof -
  have a: "sz \<le> align32 sz" "0 < align32 sz" using align32_no_wrap[OF assms(7)] assms(6) by auto
  obtain h' bs' q where r: "rt_realloc p sz k h = Some (k, h', Ret q)" "heap_inv h' bs'"
    "if q = 0 then h' = h \<and> bs' = bs
     else (\<exists>m. align32 sz \<le> m \<and> regions h' bs' = insert (q, m) (regions h bs - {(p, n)}) \<and>
       (\<forall>r \<in> regions h bs - {(p, n)}. apart (q, m) r)) \<and>
       (\<forall>i < min n (align32 sz). h_byte h' (q + i) = h_byte h (p + i)) \<and> keeps_contents h h' (regions h bs - {(p, n)})"
    by (rule realloc_effect[OF assms(1-5) a(2) assms(8)]) blast
  show ?thesis
  proof (cases "q = 0")
    case False
    then obtain m where "align32 sz \<le> m" "regions h' bs' = insert (q, m) (regions h bs - {(p, n)})"
      "\<forall>r \<in> regions h bs - {(p, n)}. apart (q, m) r" using r(3) by auto
    then have "\<exists>m. sz \<le> m \<and> regions h' bs' = insert (q, m) (regions h bs - {(p, n)}) \<and>
        (\<forall>a \<in> regions h bs - {(p, n)}. apart (q, m) a)" using a(1) by (intro exI[of _ m]) simp
    then show ?thesis using r False a(1) by (intro exI[of _ h'] exI[of _ bs'] exI[of _ q]) auto
  qed (use r in auto)
qed

theorem realloc_refines_witness:
  "\<exists>h p h' q. rt_malloc 100 heap_kernel sample_heap = Some (heap_kernel, h, Ret p) \<and>
     rt_realloc p 500 heap_kernel h = Some (heap_kernel, h', Ret q) \<and>
     (q \<noteq> 0 \<longrightarrow> (\<forall>i < 100. h_byte h' (q + i) = h_byte h (p + i)))"
proof -
  obtain h bs p n where s: "rt_malloc 100 heap_kernel sample_heap = Some (heap_kernel, h, Ret p)" "heap_inv h bs"
    "regions h bs = {(p, n)}" "100 \<le> n" "heap_sem_free heap_kernel h" "h_size h = 1000" by (rule sample_malloc) blast
  have "align32 500 = 500" by (simp add: align32_def RT_ALIGN_def RT_ALIGN_SIZE_def)
  then show ?thesis using realloc_refines[OF s(2,5), of p n 500] s(1,3,4,6) by (fastforce split: if_splits)
qed

text \<open>A block shrunk in place leaves a free block that the allocator does not find: when \<open>lfree\<close> is
  above it and the next block is in use, \<open>lfree\<close> is not lowered, and every later \<open>rt_malloc\<close>, however
  small the size, answers null or an area above the freed tail.\<close>

theorem shrink_hides_tail:
  assumes inv: "heap_inv h bs" and sem: "heap_sem_free k h" and big: "12 \<le> h_size h" and r: "(p, n) \<in> regions h bs"
    and z: "0 < align32 sz" "align32 sz + 24 < n" and lf: "p < h_ptr h + h_lfree h" and nx: "\<not> is_free h (p - h_ptr h + n)"
  shows "\<exists>h' bs' b. rt_realloc p sz k h = Some (k, h', Ret p) \<and> heap_inv h' bs' \<and> b \<in> set bs' \<and> is_free h' b \<and>
    area h' b = (p + align32 sz + 12, n - align32 sz - 12) \<and>
    (\<forall>want h'' a. rt_malloc want k h' = Some (k, h'', Ret a) \<longrightarrow> a = 0 \<or> fst (area h' b) < a)"
proof -
  note i = heap_invD[OF inv] and b = regions_bounds[OF heap_invD(1)[OF inv] r]
  obtain x where x: "p - SIZEOF_STRUCT_MEM - h_ptr h = x" by blast
  obtain us vs where bs: "bs = us @ x # vs" using b(6) x by (auto simp: in_set_conv_decomp)
  have p: "p = h_ptr h + x + 12" using b(1) x by (simp add: mem_consts)
  have ar: "area h x = (p, n)" using b(8) x by simp
  have xn: "x + SIZEOF_STRUCT_MEM \<le> hm_next (h_mem h x)" "hm_next (h_mem h x) \<le> h_end h"
    using heap_chain_next(1,4)[OF i(1)] b(6) x by auto
  then have next_x: "hm_next (h_mem h x) = x + 12 + n" using ar by (auto simp: area_def mem_consts)
  let ?sz = "align32 sz" and ?q = "x + SIZEOF_STRUCT_MEM + align32 sz"
  have nx': "\<not> is_free h (hm_next (h_mem h x))" using nx p next_x by (simp add: add.commute add.left_commute)
  have zs: "?sz + 24 < snd (area h x)" using z(2) ar by simp
  obtain h1 where l: "realloc_locked x ?sz h = Some (h1, True)" "heap_inv h1 (us @ x # ?q # vs)" "same_setup h h1"
    "is_free h1 ?q" "h_lfree h1 = h_lfree h" "hm_next (h_mem h1 ?q) = hm_next (h_mem h x)"
    by (rule shrink_before_used[OF inv[unfolded bs] _ nx' align32_dvd zs refl]) (use b(7) x in auto)
  have s: "h_sem h1 = h_sem h" "h_ptr h1 = h_ptr h" "h_size h1 = h_size h" "h_end h1 = h_end h"
    using l(3) by (simp_all add: same_setup_def)
  obtain k1 where k1: "rt_sem_take (h_sem h) RT_WAITING_FOREVER k = Some (k1, Done RT_EOK)"
    "rt_sem_release (h_sem h1) k1 = Some k" using take_release[OF sem] s(1) by metis
  have le: "?sz \<le> h_size h" using z(2) next_x xn(2) i(1) by (simp add: heap_chain_def mem_consts)
  have e: "rt_realloc p sz k h = Some (k, h1, Ret p)"
    using b(1,3,5) z le l(1) k1 not_in_interrupt[OF sem]
    by (simp add: rt_realloc_def realloc_rest_def Let_def x[unfolded diff_diff_left])
  have "h_lfree h = h_end h \<or> h_lfree h \<in> set bs" using i(2) by (auto simp: lfree_ok_def)
  then have "hm_next (h_mem h x) \<le> h_lfree h"
  proof
    assume "h_lfree h \<in> set bs"
    moreover have "x \<noteq> h_lfree h" using b(7) x i(2) by (auto simp: lfree_ok_def) (use xn in \<open>simp add: mem_consts\<close>)
    ultimately show ?thesis using heap_chain_next(3)[OF i(1) b(6), of "h_lfree h"] lf p x nx' by (auto simp: not_less)
  qed (use xn(2) in simp)
  then have lo: "?q + 12 \<le> h_lfree h1" using l(5) next_x z(2) by (simp add: mem_consts)
  have a: "a = 0 \<or> h_ptr h + ?q + 12 < a" if m: "rt_malloc want k h1 = Some (k, h2, Ret a)" for want h2 a
  proof -
    have h1: "heap_sem_free k h1" "12 \<le> h_size h1" using sem big s(3) heap_sem_free_cong[OF s(1), of k] by simp_all
    obtain h3 b3 a' where "rt_malloc want k h1 = Some (k, h3, Ret a')"
      "if want = 0 \<or> h_size h1 < align32 want then a' = 0 \<and> h3 = h1 \<and> b3 = us @ x # ?q # vs
       else alloc_result (request want) h1 (us @ x # ?q # vs) h3 b3 a'"
      by (rule malloc_effect[OF l(2) h1, of want]) blast
    moreover from this(1) m have "a' = a" by simp
    ultimately show ?thesis using lo s(2) by (auto simp: alloc_result_def split: if_splits)
  qed
  have "area h1 ?q = (p + ?sz + 12, n - ?sz - 12)" using p s(2) l(6) next_x by (simp add: area_def mem_consts)
  moreover have "fst (area h1 ?q) = h_ptr h + ?q + 12" using s(2) by (simp add: area_def mem_consts)
  then have "\<forall>want h'' a. rt_malloc want k h1 = Some (k, h'', Ret a) \<longrightarrow> a = 0 \<or> fst (area h1 ?q) < a"
    using a by metis
  ultimately show ?thesis using e l(2,4)
    by (intro exI[of _ h1] exI[of _ "us @ x # ?q # vs"] exI[of _ ?q] conjI) simp_all
qed

text \<open>Two blocks in use, the first large, and a free block behind them.\<close>

definition tail_heap :: heap where
  "tail_heap = \<lparr>h_ptr = 4096, h_end = 1012, h_lfree = 964, h_size = 1000, h_used = 964, h_max = 964,
     h_mem = (\<lambda>_. \<lparr>hm_magic = 0, hm_used = 0, hm_next = 0, hm_prev = 0\<rparr>)
       (0 := \<lparr>hm_magic = HEAP_MAGIC, hm_used = 1, hm_next = 912, hm_prev = 0\<rparr>,
        912 := \<lparr>hm_magic = HEAP_MAGIC, hm_used = 1, hm_next = 964, hm_prev = 0\<rparr>,
        964 := \<lparr>hm_magic = HEAP_MAGIC, hm_used = 0, hm_next = 1012, hm_prev = 912\<rparr>,
        1012 := \<lparr>hm_magic = HEAP_MAGIC, hm_used = 1, hm_next = 1012, hm_prev = 1012\<rparr>),
     h_byte = (\<lambda>_. 0), h_sem = 0\<rparr>"

lemma tail_heap_inv: "heap_inv tail_heap [0, 912, 964]" "(4108, 900) \<in> regions tail_heap [0, 912, 964]"
  "heap_sem_free heap_kernel tail_heap"
  using sample_heap_facts(5,8)
  by (simp_all add: tail_heap_def heap_inv_def heap_chain_def lfree_ok_def coalesced_def block_ok_def used_bytes_def
      regions_def mem_consts RT_ALIGN_SIZE_def heap_sem_free_def)

theorem shrink_hides_tail_witness:
  "\<exists>h' b. rt_realloc 4108 100 heap_kernel tail_heap = Some (heap_kernel, h', Ret 4108) \<and> is_free h' b \<and>
     snd (area h' b) = 788 \<and>
     (\<forall>want h'' a. rt_malloc want heap_kernel h' = Some (heap_kernel, h'', Ret a) \<longrightarrow> a = 0 \<or> fst (area h' b) < a)"
proof -
  have a: "align32 100 = 100" by (simp add: align32_def RT_ALIGN_def RT_ALIGN_SIZE_def)
  have t: "12 \<le> h_size tail_heap" "(4108::nat) < h_ptr tail_heap + h_lfree tail_heap" "\<not> is_free tail_heap (4108 - h_ptr tail_heap + 900)"
    by (simp_all add: tail_heap_def)
  have "0 < align32 100" "align32 100 + 24 < 900" using a by simp_all
  from shrink_hides_tail[OF tail_heap_inv(1,3) t(1) tail_heap_inv(2) this t(2,3)]
  obtain h' b where r: "rt_realloc 4108 100 heap_kernel tail_heap = Some (heap_kernel, h', Ret 4108)" "is_free h' b"
    "area h' b = (4108 + align32 100 + 12, 900 - align32 100 - 12)"
    "\<forall>want h'' a. rt_malloc want heap_kernel h' = Some (heap_kernel, h'', Ret a) \<longrightarrow> a = 0 \<or> fst (area h' b) < a" by blast
  have "snd (area h' b) = 788" using r(3) a by simp
  then show ?thesis using r(1,2,4) by blast
qed

text \<open>The limits of the sizes: aligning the three largest 32-bit sizes wraps to zero, so \<open>rt_malloc\<close>
  answers them like a request for one byte and \<open>rt_realloc\<close> frees the block; a request for all the
  bytes that \<open>rt_memory_info\<close> reports as the total is never met, even when nothing is allocated.\<close>

theorem size_limits:
  assumes inv: "heap_inv h bs" and sem: "heap_sem_free k h" and big: "12 \<le> h_size h" and sz: "2 ^ 32 - 4 < sz" "sz < 2 ^ 32"
  shows "rt_malloc sz k h = rt_malloc 1 k h \<and> rt_realloc p sz k h = map_option (drop_done 0) (rt_free p k h) \<and>
    rt_malloc (fst (rt_memory_info h)) k h = Some (k, h, Ret 0)"
proof (intro conjI)
  have "sz = 4294967293 \<or> sz = 4294967294 \<or> sz = 4294967295" using sz by auto
  then have a: "align32 sz = 0" by (auto simp: align32_def RT_ALIGN_def RT_ALIGN_SIZE_def)
  have o: "align32 1 = 4" by (simp add: align32_def RT_ALIGN_def RT_ALIGN_SIZE_def)
  show "rt_malloc sz k h = rt_malloc 1 k h" using a o sz big by (simp add: rt_malloc_def mem_consts)
  show "rt_realloc p sz k h = map_option (drop_done 0) (rt_free p k h)"
    using a not_in_interrupt[OF sem] by (simp add: rt_realloc_def)
  have c: "heap_chain h bs" by (rule heap_invD(1)[OF inv])
  then have e: "h_size h + 12 = h_end h" "RT_ALIGN_SIZE dvd h_end h" "h_end h < 2 ^ 32" by (simp_all add: heap_chain_def mem_consts)
  then have d: "RT_ALIGN_SIZE dvd h_size h" "h_size h < 2 ^ 32" unfolding RT_ALIGN_SIZE_def by presburger+
  then have h: "align32 (h_size h) = h_size h" by (auto simp: align32_def RT_ALIGN_def RT_ALIGN_SIZE_def elim!: dvdE)
  have "malloc_find h (h_size h) (h_lfree h) = Some None" by (subst malloc_find.simps) simp
  then have "malloc_locked (h_size h) h = Some (h, 0)" by (simp add: malloc_locked_def)
  moreover obtain k1 where "rt_sem_take (h_sem h) RT_WAITING_FOREVER k = Some (k1, Done RT_EOK)"
    "rt_sem_release (h_sem h) k1 = Some k" using take_release[OF sem] by metis
  ultimately have "rt_malloc (h_size h) k h = Some (k, h, Ret 0)"
    using big h not_in_interrupt[OF sem] by (simp add: rt_malloc_def malloc_rest_def mem_consts)
  then show "rt_malloc (fst (rt_memory_info h)) k h = Some (k, h, Ret 0)" by (simp add: rt_memory_info_def)
qed

theorem size_limits_witness:
  "rt_malloc 4294967295 heap_kernel sample_heap = rt_malloc 1 heap_kernel sample_heap \<and>
   rt_malloc (fst (rt_memory_info sample_heap)) heap_kernel sample_heap = Some (heap_kernel, sample_heap, Ret 0)"
  using size_limits[OF sample_heap_facts(1,8), of 4294967295] sample_heap_facts(4) by simp

end
