(* ===== verification/MemPool.thy ===== *)
theory MemPool
  imports Direct_Wait Heap_Calls Idle
begin

text \<open>
  The memory pools of \<^verbatim>\<open>src/mempool.c\<close>: blocks of one size, with threads that wait for a block. In
  front of each block is a word: the next free block while the block is free, the pool while it is
  in use. Blocks are numbered; the pools are a table beside the kernel state.
\<close>

section \<open>Operations\<close>

datatype mp_word = Free_Link "nat option" | Owner nat

record rt_mempool =
  mp_start :: nat
  mp_size :: nat
  mp_block_size :: nat
  mp_list :: "nat option"
  mp_total :: nat
  mp_free :: nat
  mp_words :: "nat \<Rightarrow> mp_word"
  mp_waiting :: nat

type_synonym pools = "nat \<Rightarrow> rt_mempool"

definition upd_mp :: "nat \<Rightarrow> (rt_mempool \<Rightarrow> rt_mempool) \<Rightarrow> pools \<Rightarrow> pools" where
  "upd_mp p f mps = mps(p := f (mps p))"

text \<open>The loop that links the blocks, and the last link.\<close>

fun mp_link_blocks :: "nat \<Rightarrow> (nat \<Rightarrow> mp_word) \<Rightarrow> nat \<Rightarrow> mp_word" where
  "mp_link_blocks 0 w = w"
| "mp_link_blocks (Suc n) w = (mp_link_blocks n w)(n := Free_Link (Some (Suc n)))"

definition new_pool :: "nat \<Rightarrow> nat \<Rightarrow> nat \<Rightarrow> nat \<Rightarrow> (nat \<Rightarrow> mp_word) \<Rightarrow> rt_mempool" where
  "new_pool start sz bs cnt w = \<lparr>mp_start = start, mp_size = sz, mp_block_size = bs, mp_list = Some 0, mp_total = cnt,
     mp_free = cnt, mp_words = (mp_link_blocks cnt w)(cnt - 1 := Free_Link None), mp_waiting = 0\<rparr>"

text \<open>With no room for a block the last link is written in front of the pool: \<open>None\<close>.\<close>

definition rt_mp_init :: "nat \<Rightarrow> string \<Rightarrow> nat \<Rightarrow> nat \<Rightarrow> nat \<Rightarrow> kernel \<Rightarrow> pools \<Rightarrow> (kernel \<times> pools) option" where
  "rt_mp_init p name start sz block_size k mps = do {
     k \<leftarrow> rt_object_init (OMemPool p) RT_Object_Class_MemPool name k;
     let sz = RT_ALIGN_DOWN sz RT_ALIGN_SIZE;
     let bs = align32 block_size;
     let cnt = sz div ((bs + 4) mod 2 ^ 32);
     let k = tlist_init (MpWait p) k;
     if cnt = 0 then None
     else Some (k, upd_mp p (\<lambda>mp. new_pool start sz bs cnt (mp_words mp)) mps) }"

partial_function (option) mp_resume_all :: "nat \<Rightarrow> kernel \<Rightarrow> nat \<Rightarrow> (kernel \<times> nat) option" where
  "mp_resume_all p k n =
     (case k_lists k (MpWait p) of
        [] \<Rightarrow> Some (k, n)
      | t # _ \<Rightarrow>
          Option.bind (rt_thread_resume t (upd_thr t (t_error_update (\<lambda>_. - RT_ERROR)) k))
            (\<lambda>r. mp_resume_all p (fst r) (sub32 n 1)))"

definition rt_mp_detach :: "nat \<Rightarrow> kernel \<Rightarrow> pools \<Rightarrow> (kernel \<times> pools) option" where
  "rt_mp_detach p k mps = do {
     rt_assert (rt_object_get_type k (OMemPool p) = RT_Object_Class_MemPool);
     rt_assert (rt_object_is_systemobject k (OMemPool p));
     (k, n) \<leftarrow> mp_resume_all p k (mp_waiting (mps p));
     Some (rt_object_detach (OMemPool p) k, upd_mp p (mp_waiting_update (\<lambda>_. n)) mps) }"

text \<open>Creating and deleting take the blocks from the heap, whose semaphore may make the caller wait;
  \<open>mem\<close> is the identity of the object's memory.\<close>

datatype mp_result = Pool "nat option" | Pool_Wait mem_wait

definition mp_create_done ::
  "nat \<Rightarrow> nat \<Rightarrow> nat \<Rightarrow> kernel \<times> heap \<times> mem_result \<Rightarrow> pools \<Rightarrow> (kernel \<times> heap \<times> pools \<times> mp_result) option" where
  "mp_create_done p count bs x mps = (case x of (k, h, r) \<Rightarrow> (case r of
       Wait_Heap w \<Rightarrow> Some (k, h, mps, Pool_Wait w)
     | Ret start \<Rightarrow>
         if start = 0 then do { k \<leftarrow> rt_object_delete (OMemPool p) k; Some (k, h, mps, Pool None) }
         else if count = 0 \<or> 2 ^ 32 \<le> (bs + 4) * count then None
         else Some (tlist_init (MpWait p) k, h,
                upd_mp p (\<lambda>mp. new_pool start ((bs + 4) * count mod 2 ^ 32) bs count (mp_words mp)) mps, Pool (Some p))))"

definition rt_mp_create ::
  "nat option \<Rightarrow> string \<Rightarrow> nat \<Rightarrow> nat \<Rightarrow> kernel \<Rightarrow> heap \<Rightarrow> pools \<Rightarrow> (kernel \<times> heap \<times> pools \<times> mp_result) option" where
  "rt_mp_create mem name count block_size k h mps = do {
     rt_debug_not_in_interrupt k;
     (k, ob) \<leftarrow> rt_object_allocate (map_option OMemPool mem) RT_Object_Class_MemPool name k;
     (case mem of
        None \<Rightarrow> Some (k, h, mps, Pool None)
      | Some p \<Rightarrow> do {
          let bs = align32 block_size;
          x \<leftarrow> rt_malloc ((bs + 4) * count mod 2 ^ 32) k h;
          mp_create_done p count bs x mps }) }"

definition rt_mp_create_resume ::
  "nat \<Rightarrow> nat \<Rightarrow> nat \<Rightarrow> mem_wait \<Rightarrow> kernel \<Rightarrow> heap \<Rightarrow> pools \<Rightarrow> (kernel \<times> heap \<times> pools \<times> mp_result) option" where
  "rt_mp_create_resume p count block_size w k h mps =
     do { x \<leftarrow> mem_resume w k h; mp_create_done p count (align32 block_size) x mps }"

definition mp_delete_done :: "nat \<Rightarrow> kernel \<times> heap \<times> mem_result \<Rightarrow> (kernel \<times> heap \<times> mp_result) option" where
  "mp_delete_done p x = (case x of (k, h, r) \<Rightarrow> (case r of
       Wait_Heap w \<Rightarrow> Some (k, h, Pool_Wait w)
     | Ret _ \<Rightarrow> do { k \<leftarrow> rt_object_delete (OMemPool p) k; Some (k, h, Pool None) }))"

definition rt_mp_delete :: "nat \<Rightarrow> kernel \<Rightarrow> heap \<Rightarrow> pools \<Rightarrow> ((kernel \<times> heap \<times> mp_result) \<times> pools) option" where
  "rt_mp_delete p k h mps = do {
     rt_debug_not_in_interrupt k;
     rt_assert (rt_object_get_type k (OMemPool p) = RT_Object_Class_MemPool);
     rt_assert (\<not> rt_object_is_systemobject k (OMemPool p));
     (k, n) \<leftarrow> mp_resume_all p k (mp_waiting (mps p));
     x \<leftarrow> rt_free (mp_start (mps p)) k h;
     x \<leftarrow> mp_delete_done p x;
     Some (x, upd_mp p (mp_waiting_update (\<lambda>_. n)) mps) }"

definition rt_mp_delete_resume :: "nat \<Rightarrow> mem_wait \<Rightarrow> kernel \<Rightarrow> heap \<Rightarrow> (kernel \<times> heap \<times> mp_result) option" where
  "rt_mp_delete_resume p w k h = do { x \<leftarrow> mem_resume w k h; mp_delete_done p x }"

text \<open>The global error number outside threads is not read by the kernel and is left out.\<close>

definition rt_set_errno :: "int \<Rightarrow> kernel \<Rightarrow> kernel" where
  "rt_set_errno e k =
     (if rt_interrupt_get_nest k \<noteq> 0 then k
      else case rt_thread_self k of None \<Rightarrow> k | Some t \<Rightarrow> upd_thr t (t_error_update (\<lambda>_. e)) k)"

datatype mp_answer = Got "nat option" | Mp_Blocked

text \<open>From the \<^verbatim>\<open>while\<close> on. A taken block whose word is not a link would make \<^verbatim>\<open>block_list\<close> wild.\<close>

definition mp_alloc_loop ::
  "nat \<Rightarrow> int \<Rightarrow> rt_tick_t \<Rightarrow> kernel \<Rightarrow> pools \<Rightarrow> (kernel \<times> pools \<times> mp_answer \<times> rt_tick_t) option" where
  "mp_alloc_loop p time before k mps =
     (if mp_free (mps p) = 0 then
        if time = 0 then Some (rt_set_errno (- RT_ETIMEOUT) k, mps, Got None, before)
        else do {
          rt_debug_not_in_interrupt k;
          t \<leftarrow> rt_thread_self k;
          (k, _) \<leftarrow> rt_thread_suspend t (upd_thr t (t_error_update (\<lambda>_. RT_EOK)) k);
          let k = tlist_push (MpWait p) t k;
          let mps = upd_mp p (\<lambda>mp. mp\<lparr>mp_waiting := mp_waiting mp + 1\<rparr>) mps;
          let before = (if time > 0 then rt_tick_get k else before);
          k \<leftarrow> arm_timer t time k;
          k \<leftarrow> rt_schedule k;
          Some (k, mps, Mp_Blocked, before) }
      else do {
        b \<leftarrow> mp_list (mps p);
        nxt \<leftarrow> (case mp_words (mps p) b of Free_Link n \<Rightarrow> Some n | Owner _ \<Rightarrow> None);
        Some (k, upd_mp p (\<lambda>mp. mp\<lparr>mp_free := mp_free mp - 1, mp_list := nxt,
                 mp_words := (mp_words mp)(b := Owner p)\<rparr>) mps, Got (Some b), before) })"

definition rt_mp_alloc :: "nat \<Rightarrow> int \<Rightarrow> kernel \<Rightarrow> pools \<Rightarrow> (kernel \<times> pools \<times> mp_answer \<times> rt_tick_t) option" where
  "rt_mp_alloc p time k mps = mp_alloc_loop p time 0 k mps"

definition rt_mp_alloc_resume ::
  "nat \<Rightarrow> nat \<Rightarrow> int \<Rightarrow> rt_tick_t \<Rightarrow> kernel \<Rightarrow> pools \<Rightarrow> (kernel \<times> pools \<times> mp_answer \<times> rt_tick_t) option" where
  "rt_mp_alloc_resume p t time before k mps =
     (if t_error (thr k t) \<noteq> RT_EOK then Some (k, mps, Got None, before)
      else mp_alloc_loop p (time_left time before k) before k mps)"

text \<open>\<open>b\<close> is a block in the memory of pool \<open>p\<close>. The pool is found through the word in front of the block;
  when that is not the pool the code works on a wild control block: \<open>None\<close>. So is the first waiting
  thread when the count says there is one and the list is empty.\<close>

definition rt_mp_free :: "nat \<Rightarrow> nat \<Rightarrow> kernel \<Rightarrow> pools \<Rightarrow> (kernel \<times> pools) option" where
  "rt_mp_free p b k mps =
     (if mp_words (mps p) b \<noteq> Owner p then None
      else
        let mps = upd_mp p (\<lambda>mp. mp\<lparr>mp_free := mp_free mp + 1, mp_list := Some b,
                    mp_words := (mp_words mp)(b := Free_Link (mp_list mp))\<rparr>) mps in
        if mp_waiting (mps p) > 0 then
          (case k_lists k (MpWait p) of
             [] \<Rightarrow> None
           | t # _ \<Rightarrow> do {
               (k, _) \<leftarrow> rt_thread_resume t (upd_thr t (t_error_update (\<lambda>_. RT_EOK)) k);
               k \<leftarrow> rt_schedule k;
               Some (k, upd_mp p (\<lambda>mp. mp\<lparr>mp_waiting := mp_waiting mp - 1\<rparr>) mps) })
        else Some (k, mps))"

section \<open>Invariant\<close>

fun mp_chain :: "(nat \<Rightarrow> mp_word) \<Rightarrow> nat option \<Rightarrow> nat list \<Rightarrow> bool" where
  "mp_chain w p [] \<longleftrightarrow> p = None"
| "mp_chain w p (x # xs) \<longleftrightarrow> p = Some x \<and> (\<exists>n. w x = Free_Link n \<and> mp_chain w n xs)"

text \<open>\<open>fs\<close> are the free blocks in the order in which they will be given out, \<open>us\<close> those in use.\<close>

definition mp_rep :: "nat \<Rightarrow> rt_mempool \<Rightarrow> nat list \<Rightarrow> nat list \<Rightarrow> bool" where
  "mp_rep p mp fs us \<longleftrightarrow> mp_chain (mp_words mp) (mp_list mp) fs \<and> distinct (fs @ us) \<and> set (fs @ us) = {..<mp_total mp} \<and>
     mp_free mp = length fs \<and> (\<forall>b \<in> set us. mp_words mp b = Owner p)"

definition pool_ok :: "nat \<Rightarrow> kernel \<Rightarrow> pools \<Rightarrow> nat list \<Rightarrow> nat list \<Rightarrow> bool" where
  "pool_ok p k mps fs us \<longleftrightarrow> mp_rep p (mps p) fs us \<and> mp_waiting (mps p) = length (k_lists k (MpWait p))"

lemma mp_chain_upd [simp]: "b \<notin> set xs \<Longrightarrow> mp_chain (w(b := v)) p xs = mp_chain w p xs"
  by (induction xs arbitrary: p) auto

lemma upd_mp_same [simp]: "upd_mp p f mps p = f (mps p)"
  by (simp add: upd_mp_def)

lemma mp_link_blocks_nth: "mp_link_blocks n w i = (if i < n then Free_Link (Some (Suc i)) else w i)"
  by (induction n) auto

lemma mp_chain_upt:
  assumes "i + n = cnt" "\<And>j. j < cnt \<Longrightarrow> w j = Free_Link (if Suc j < cnt then Some (Suc j) else None)"
  shows "mp_chain w (if i < cnt then Some i else None) [i ..< cnt]"
  using assms(1)
proof (induction n arbitrary: i)
  case (Suc n)
  then show ?case using Suc.IH[of "Suc i"] assms(2)[of i] by (simp add: upt_conv_Cons)
qed simp

lemma mp_rep_new:
  assumes "0 < cnt"
  shows "mp_rep p (new_pool start sz bs cnt w) [0 ..< cnt] []"
proof -
  let ?w = "(mp_link_blocks cnt w)(cnt - 1 := Free_Link None)"
  have "mp_chain ?w (if 0 < cnt then Some 0 else None) [0 ..< cnt]"
    by (rule mp_chain_upt[of 0 cnt cnt]) (auto simp: mp_link_blocks_nth)
  then show ?thesis using assms by (auto simp: mp_rep_def new_pool_def)
qed

lemma mp_rep_take:
  assumes "mp_rep p mp (b # fs) us"
  shows "mp_list mp = Some b \<and> (\<exists>n. mp_words mp b = Free_Link n \<and>
    mp_rep p (mp\<lparr>mp_free := mp_free mp - 1, mp_list := n, mp_words := (mp_words mp)(b := Owner p)\<rparr>) fs (b # us))"
  using assms by (auto simp: mp_rep_def)

lemma mp_rep_give:
  assumes "mp_rep p mp fs us" "b \<in> set us"
  shows "mp_rep p (mp\<lparr>mp_free := mp_free mp + 1, mp_list := Some b, mp_words := (mp_words mp)(b := Free_Link (mp_list mp))\<rparr>)
    (b # fs) (remove1 b us)"
proof -
  have "b \<notin> set fs" using assms by (auto simp: mp_rep_def)
  then show ?thesis using assms by (auto simp: mp_rep_def)
qed

lemma mp_rep_waiting [simp]: "mp_rep p (mp\<lparr>mp_waiting := n\<rparr>) fs us = mp_rep p mp fs us"
  by (simp add: mp_rep_def)

section \<open>Allocating and freeing\<close>

lemma mp_alloc_effect:
  assumes inv: "kernel_inv k" "stacks_ok k" and run: "running_thread k c" and ok: "pool_ok p k mps fs us"
    and tm: "time < 2 ^ 31 - 1"
  shows "\<exists>k' mps' r before. rt_mp_alloc p time k mps = Some (k', mps', r, before) \<and> kernel_inv k' \<and> stacks_ok k' \<and>
    (case fs of
       b # fs' \<Rightarrow> r = Got (Some b) \<and> k' = k \<and> pool_ok p k' mps' fs' (b # us)
     | [] \<Rightarrow> pool_ok p k' mps' [] us \<and>
         (if time = 0 then r = Got None \<and> t_error (thr k' c) = - RT_ETIMEOUT \<and> k_lists k' = k_lists k
          else r = Mp_Blocked \<and> k_lists k' (MpWait p) = c # k_lists k (MpWait p) \<and> k_current k' \<noteq> None \<and>
            t_stat (thr k' c) = RT_THREAD_SUSPEND \<and> t_error (thr k' c) = RT_EOK \<and>
            (ThreadTimer c \<in> set (k_timer_list k') \<longleftrightarrow> time > 0)))"
proof (cases fs)
  case (Cons b fs')
  have f: "mp_free (mps p) \<noteq> 0" using ok Cons by (simp add: pool_ok_def mp_rep_def)
  have "mp_rep p (mps p) (b # fs') us" using ok Cons by (simp add: pool_ok_def)
  then obtain n where n: "mp_list (mps p) = Some b" "mp_words (mps p) b = Free_Link n"
    "mp_rep p ((mps p)\<lparr>mp_free := mp_free (mps p) - 1, mp_list := n, mp_words := (mp_words (mps p))(b := Owner p)\<rparr>)
       fs' (b # us)" using mp_rep_take by blast
  then show ?thesis
    using f ok inv Cons by (simp add: rt_mp_alloc_def mp_alloc_loop_def pool_ok_def)
next
  case Nil
  have f: "mp_free (mps p) = 0" using ok Nil by (simp add: pool_ok_def mp_rep_def)
  have run': "k_current k = Some c" "t_stat (thr k c) = RT_THREAD_RUNNING" "k_interrupt_nest k = 0"
    using run by (simp_all add: running_thread_def)
  show ?thesis
  proof (cases "time = 0")
    case True
    have e: "rt_set_errno (- RT_ETIMEOUT) k = upd_thr c (t_error_update (\<lambda>_. - RT_ETIMEOUT)) k"
      using run' by (simp add: rt_set_errno_def rt_interrupt_get_nest_def rt_thread_self_def)
    have "kernel_inv (upd_thr c (t_error_update (\<lambda>_. - RT_ETIMEOUT)) k)" by (rule kernel_inv_upd_thr[OF inv(1)]) simp_all
    then show ?thesis
      using f True Nil ok inv(2) by (auto simp: rt_mp_alloc_def mp_alloc_loop_def e pool_ok_def stacks_ok_def)
  next
    case False
    let ?k = "upd_thr c (t_error_update (\<lambda>_. RT_EOK)) k"
    have i: "kernel_inv ?k" by (rule kernel_inv_upd_thr[OF inv(1)]) simp_all
    have s: "stacks_ok ?k" using inv(2) by (auto simp: stacks_ok_def)
    have c: "k_current ?k = Some c" "t_stat (thr ?k c) = RT_THREAD_RUNNING" using run' by simp_all
    have nc: "c \<notin> set (k_lists k (MpWait p))"
      using thread_invD(1)[OF kernel_invD(6)[OF inv(1)], of c "MpWait p"] run' by auto
    have d: "distinct (k_lists k (MpWait p))"
      using kernel_invD(7)[OF inv(1)] by (simp add: sched_inv_ex_def tlist_inv_def lists_ok_def)
    have xs: "set (c # k_lists k (MpWait p)) = insert c (set (k_lists ?k (MpWait p)))" "distinct (c # k_lists k (MpWait p))"
      using nc d by simp_all
    have hs: "stat_of_list (MpWait p) = RT_THREAD_SUSPEND" by simp
    obtain k1 k2 k3 where b: "rt_thread_suspend c ?k = Some (k1, RT_EOK)" "k_lists k1 (MpWait p) = k_lists ?k (MpWait p)"
      "arm_timer c time (k1\<lparr>k_lists := (k_lists k1)(MpWait p := c # k_lists k (MpWait p))\<rparr>) = Some k2"
      "rt_schedule k2 = Some k3" "kernel_inv k3" "stacks_ok k3" "k_current k3 \<noteq> None"
      "k_lists k3 (MpWait p) = c # k_lists k (MpWait p)"
      "thr k3 c = (thr ?k c)\<lparr>t_stat := RT_THREAD_SUSPEND\<rparr>" "ThreadTimer c \<in> set (k_timer_list k3) \<longleftrightarrow> time > 0"
      using direct_block_effect[OF i s c hs tm xs] by blast
    have l: "tlist_push (MpWait p) c k1 = k1\<lparr>k_lists := (k_lists k1)(MpWait p := c # k_lists k (MpWait p))\<rparr>"
      using b(2) by (simp add: tlist_push_def)
    have "\<exists>before. rt_mp_alloc p time k mps =
        Some (k3, upd_mp p (\<lambda>mp. mp\<lparr>mp_waiting := mp_waiting mp + 1\<rparr>) mps, Mp_Blocked, before)"
      using f False run' b(1,3,4)
      by (simp add: rt_mp_alloc_def mp_alloc_loop_def rt_debug_not_in_interrupt_def rt_interrupt_get_nest_def
          rt_thread_self_def l Let_def)
    then show ?thesis
      using Nil False ok b(5-10) by (auto simp: pool_ok_def)
  qed
qed

lemma mp_free_effect:
  assumes inv: "kernel_inv k" "stacks_ok k" and cur: "k_current k = Some c" and ok: "pool_ok p k mps fs us"
    and b: "b \<in> set us"
  shows "\<exists>k' mps'. rt_mp_free p b k mps = Some (k', mps') \<and> kernel_inv k' \<and> stacks_ok k' \<and>
    pool_ok p k' mps' (b # fs) (remove1 b us) \<and> k_lists k' (MpWait p) = tl (k_lists k (MpWait p)) \<and>
    (case k_lists k (MpWait p) of
       [] \<Rightarrow> k' = k
     | t # _ \<Rightarrow> woken (t_stat (thr k' t)) \<and> t_error (thr k' t) = RT_EOK)"
proof -
  let ?m = "(mps p)\<lparr>mp_free := mp_free (mps p) + 1, mp_list := Some b,
      mp_words := (mp_words (mps p))(b := Free_Link (mp_list (mps p)))\<rparr>"
  have w: "mp_words (mps p) b = Owner p" and r: "mp_rep p ?m (b # fs) (remove1 b us)"
    and n: "mp_waiting (mps p) = length (k_lists k (MpWait p))"
    using ok b mp_rep_give[of p "mps p" fs us b] by (auto simp: pool_ok_def mp_rep_def)
  show ?thesis
  proof (cases "k_lists k (MpWait p)")
    case Nil
    then show ?thesis using w r n inv by (simp add: rt_mp_free_def Let_def pool_ok_def)
  next
    case (Cons t ts)
    have hs: "stat_of_list (MpWait p) = RT_THREAD_SUSPEND" by simp
    obtain k1 k2 where k2: "rt_thread_resume t (upd_thr t (t_error_update (\<lambda>_. RT_EOK)) k) = Some (k1, RT_EOK)"
      "rt_schedule k1 = Some k2" "kernel_inv k2" "stacks_ok k2" "k_lists k2 (MpWait p) = ts" "woken (t_stat (thr k2 t))"
      "t_error (thr k2 t) = RT_EOK" using direct_wake_effect[OF inv Cons hs cur, of RT_EOK] by blast
    then show ?thesis using w r n Cons by (simp add: rt_mp_free_def Let_def pool_ok_def)
  qed
qed

text \<open>C26. \<open>rt_mp_alloc\<close> hands out the block at the head of the free list and marks it with its pool; with
  no block left it fails at once with a timeout in the error number, or suspends the caller as the
  \<^emph>\<open>first\<close> of the waiting threads, with its timer armed. Every block stays either free or in use, and the
  counters stay exact.\<close>

theorem mempool_alloc_spec:
  assumes inv: "kernel_inv k" "stacks_ok k" and run: "running_thread k c" and ok: "pool_ok p k mps fs us"
    and tm: "time < 2 ^ 31 - 1"
  shows "\<exists>k' mps' r before. rt_mp_alloc p time k mps = Some (k', mps', r, before) \<and> kernel_inv k' \<and> stacks_ok k' \<and>
    (case fs of
       b # fs' \<Rightarrow> r = Got (Some b) \<and> k' = k \<and> pool_ok p k' mps' fs' (b # us)
     | [] \<Rightarrow> pool_ok p k' mps' [] us \<and>
         (if time = 0 then r = Got None \<and> t_error (thr k' c) = - RT_ETIMEOUT \<and> k_lists k' = k_lists k
          else r = Mp_Blocked \<and> k_lists k' (MpWait p) = c # k_lists k (MpWait p) \<and> k_current k' \<noteq> None \<and>
            t_stat (thr k' c) = RT_THREAD_SUSPEND \<and> t_error (thr k' c) = RT_EOK \<and>
            (ThreadTimer c \<in> set (k_timer_list k') \<longleftrightarrow> time > 0)))"
  using assms by (rule mp_alloc_effect)

text \<open>A pool of two blocks of 8 bytes; all given out.\<close>

definition sample_pool :: pools where
  "sample_pool = (\<lambda>_. new_pool 0x20001000 24 8 2 (\<lambda>_. Owner 0))"

definition empty_pool :: pools where
  "empty_pool = upd_mp 0 (\<lambda>mp. mp\<lparr>mp_free := 0, mp_list := None, mp_words := (\<lambda>_. Owner 0)\<rparr>) sample_pool"

lemma sample_pool_ok: "pool_ok 0 sample sample_pool [0, 1] []"
proof -
  have "[0 ..< 2] = [0, 1 :: nat]" by (simp add: upt_conv_Cons)
  then show ?thesis
    using mp_rep_new[of 2 0 "0x20001000" 24 8 "\<lambda>_. Owner 0"]
    by (simp add: pool_ok_def sample_pool_def sample_lists_def new_pool_def)
qed

lemma empty_pool_ok: "pool_ok 0 sample empty_pool [] [0, 1]"
  by (auto simp: pool_ok_def mp_rep_def empty_pool_def sample_pool_def new_pool_def sample_lists_def)

theorem mempool_alloc_spec_witness:
  "(\<exists>k' mps' r b. rt_mp_alloc 0 5 sample sample_pool = Some (k', mps', r, b) \<and> r = Got (Some 0)) \<and>
   (\<exists>k' mps' r b. rt_mp_alloc 0 5 sample empty_pool = Some (k', mps', r, b) \<and> k_lists k' (MpWait 0) = [1])"
  using mempool_alloc_spec[OF sample_inv sample_stacks_ok sample_running sample_pool_ok, of 5]
    mempool_alloc_spec[OF sample_inv sample_stacks_ok sample_running empty_pool_ok, of 5]
  by (auto simp: sample_lists_def)

text \<open>\<open>rt_mp_free\<close> puts the block in front of the free list, wakes the first waiting thread and keeps
  the counters exact.\<close>

theorem mempool_free_spec:
  assumes inv: "kernel_inv k" "stacks_ok k" and cur: "k_current k = Some c" and ok: "pool_ok p k mps fs us"
    and b: "b \<in> set us"
  shows "\<exists>k' mps'. rt_mp_free p b k mps = Some (k', mps') \<and> kernel_inv k' \<and> stacks_ok k' \<and>
    pool_ok p k' mps' (b # fs) (remove1 b us) \<and> k_lists k' (MpWait p) = tl (k_lists k (MpWait p)) \<and>
    (case k_lists k (MpWait p) of
       [] \<Rightarrow> k' = k
     | t # _ \<Rightarrow> woken (t_stat (thr k' t)) \<and> t_error (thr k' t) = RT_EOK)"
  using assms by (rule mp_free_effect)

theorem mempool_free_spec_witness:
  "\<exists>k1 m1 r b k2 m2. rt_mp_alloc 0 5 sample empty_pool = Some (k1, m1, r, b) \<and> rt_mp_free 0 1 k1 m1 = Some (k2, m2) \<and>
     woken (t_stat (thr k2 1))"
proof -
  obtain k1 m1 r b where a: "rt_mp_alloc 0 5 sample empty_pool = Some (k1, m1, r, b)" "kernel_inv k1" "stacks_ok k1"
    "pool_ok 0 k1 m1 [] [0, 1]" "k_lists k1 (MpWait 0) = [1]" "k_current k1 \<noteq> None"
    using mp_alloc_effect[OF sample_inv sample_stacks_ok sample_running empty_pool_ok, of 5]
    by (auto simp: sample_lists_def)
  then obtain c where "k_current k1 = Some c" by blast
  from mempool_free_spec[OF a(2,3) this a(4), of 1] a(1,5) show ?thesis by auto
qed

text \<open>C28. A timeout takes the thread off the waiting list and leaves the pool's count of waiting threads as
  it was: after the only waiting thread has timed out, the next \<open>rt_mp_free\<close> finds a positive
  count and takes the list head itself for a thread.\<close>

theorem mempool_timeout_corrupts:
  assumes inv: "kernel_inv k" "stacks_ok k" and cur: "k_current k \<noteq> None" and ok: "pool_ok p k mps fs us"
    and t: "k_lists k (MpWait p) = [t]" "ThreadTimer t \<notin> set (k_timer_list k)" and b: "b \<in> set us"
  shows "\<exists>k'. rt_thread_timeout t k = Some k' \<and> mp_waiting (mps p) = 1 \<and> k_lists k' (MpWait p) = [] \<and>
    rt_mp_free p b k' mps = None"
proof -
  have st: "t_stat (thr k t) = RT_THREAD_SUSPEND"
    using thread_invD(1)[OF kernel_invD(6)[OF inv(1)], of t "MpWait p"] t(1) by simp
  have hs: "stat_of_list (MpWait p) = RT_THREAD_SUSPEND" by simp
  obtain k' where k': "rt_thread_timeout t k = Some k'"
    "\<forall>h. stat_of_list h = RT_THREAD_SUSPEND \<longrightarrow> k_lists k' h = remove1 t (k_lists k h)"
    using timeout_effect[OF inv cur t(2) st] by blast
  have l: "k_lists k' (MpWait p) = []" using k'(2) hs t(1) by simp
  have "mp_waiting (mps p) = 1" "mp_words (mps p) b = Owner p" using ok t(1) b by (auto simp: pool_ok_def mp_rep_def)
  then show ?thesis using k'(1) l by (simp add: rt_mp_free_def Let_def)
qed

theorem mempool_timeout_corrupts_witness:
  "\<exists>k1 m1 r b k2. rt_mp_alloc 0 (- 1) sample empty_pool = Some (k1, m1, r, b) \<and> rt_thread_timeout 1 k1 = Some k2 \<and>
     rt_mp_free 0 1 k2 m1 = None"
proof -
  obtain k1 m1 r b where a: "rt_mp_alloc 0 (- 1) sample empty_pool = Some (k1, m1, r, b)" "kernel_inv k1" "stacks_ok k1"
    "pool_ok 0 k1 m1 [] [0, 1]" "k_lists k1 (MpWait 0) = [1]" "k_current k1 \<noteq> None" "ThreadTimer 1 \<notin> set (k_timer_list k1)"
    using mp_alloc_effect[OF sample_inv sample_stacks_ok sample_running empty_pool_ok, of "- 1"]
    by (auto simp: sample_lists_def)
  from mempool_timeout_corrupts[OF a(2,3,6,4,5,7), of 1] a(1) show ?thesis by auto
qed

section \<open>Initialisation\<close>

text \<open>\<open>mp_addr mp b\<close> is the address the caller gets for block \<open>b\<close>.\<close>

definition mp_addr :: "rt_mempool \<Rightarrow> nat \<Rightarrow> nat" where
  "mp_addr mp b = mp_start mp + b * (mp_block_size mp + 4) + 4"

lemma exit_critical_lists:
  assumes inv: "kernel_inv k" and r: "rt_exit_critical (rt_enter_critical k) = Some k'"
    and h: "stat_of_list h \<noteq> RT_THREAD_READY"
  shows "k_lists k' h = k_lists k h"
  using r
proof (cases rule: exit_critical_result)
  case (2 n c)
  have "kernel_inv (k\<lparr>k_lock_nest := n\<rparr>)" "k_current (k\<lparr>k_lock_nest := n\<rparr>) = Some c"
    "rt_schedule (k\<lparr>k_lock_nest := n\<rparr>) = Some k'" using inv 2 by (simp_all add: rt_enter_critical_def)
  from rt_schedule_lists[OF this h] show ?thesis by simp
qed (simp add: rt_enter_critical_def)

lemma object_init_effect:
  assumes inv: "kernel_inv k" "stacks_ok k" and cur: "k_current k = Some c"
    and new: "ob \<notin> set (k_containers k (class_of ob))" "class_of ob \<in> set container_classes" "plain_object ob"
  shows "\<exists>k'. rt_object_init ob (class_of ob) name k = Some k' \<and> kernel_inv k' \<and> stacks_ok k' \<and>
    o_type (k_objects k' ob) = class_of ob \<and> o_static (k_objects k' ob) \<and> k_current k' \<noteq> None \<and>
    (\<forall>h. stat_of_list h \<noteq> RT_THREAD_READY \<longrightarrow> k_lists k' h = k_lists k h)"
proof -
  let ?e = "rt_enter_critical k"
  have e: "kernel_inv ?e" "stacks_ok ?e" "k_current ?e = Some c"
    using inv cur by (simp_all add: rt_enter_critical_def stacks_ok_def)
  obtain k1 where k1: "rt_exit_critical ?e = Some k1" "kernel_inv k1" "stacks_ok k1" "k_current k1 \<noteq> None"
    using exit_critical_effect[OF e] by blast
  let ?k = "object_attach ob \<lparr>o_name = take RT_NAME_MAX name, o_type = class_of ob, o_static = True\<rparr> k1"
  have r: "rt_object_init ob (class_of ob) name k = Some ?k"
    using new k1(1) by (simp add: rt_object_init_def get_information_iff Let_def) (simp add: rt_enter_critical_def)
  have "kernel_inv ?k" by (rule kernel_inv_object_init[OF inv(1) new(3) refl r])
  moreover have "stacks_ok ?k" using k1(3) by (simp add: stacks_ok_def)
  ultimately show ?thesis using r k1(4) exit_critical_lists[OF inv(1) k1(1)] by (intro exI[of _ ?k]) simp
qed

text \<open>C27. \<open>rt_mp_init\<close> cuts the given memory into as many blocks as fit, each with its link word inside the
  memory and apart from the others, all of them free and nobody waiting. For memory that is too small for
  one block it does not return a pool: it writes in front of the memory.\<close>

theorem mempool_init_spec:
  assumes inv: "kernel_inv k" "stacks_ok k" and cur: "k_current k = Some c" and sz: "sz < 2 ^ 32"
    and new: "OMemPool p \<notin> set (k_containers k RT_Object_Class_MemPool)" "k_lists k (MpWait p) = []"
  shows "if sz div 4 * 4 < align32 bs + 4 then rt_mp_init p name start sz bs k mps = None
    else \<exists>k' mps' n. rt_mp_init p name start sz bs k mps = Some (k', mps') \<and> kernel_inv k' \<and> stacks_ok k' \<and>
      n = sz div 4 * 4 div (align32 bs + 4) \<and> 0 < n \<and> pool_ok p k' mps' [0 ..< n] [] \<and>
      (\<forall>b < n. start + 4 \<le> mp_addr (mps' p) b \<and> mp_addr (mps' p) b + align32 bs \<le> start + sz \<and>
         (\<forall>b' < b. mp_addr (mps' p) b' + align32 bs + 4 \<le> mp_addr (mps' p) b))"
proof -
  let ?c = "align32 bs + 4"
  let ?s = "sz div 4 * 4"
  have new': "OMemPool p \<notin> set (k_containers k (class_of (OMemPool p)))" "class_of (OMemPool p) \<in> set container_classes"
    "plain_object (OMemPool p)" using new by (simp_all add: container_classes_def plain_object_def)
  obtain k1 where k1: "rt_object_init (OMemPool p) RT_Object_Class_MemPool name k = Some k1" "kernel_inv k1" "stacks_ok k1"
    "\<forall>h. stat_of_list h \<noteq> RT_THREAD_READY \<longrightarrow> k_lists k1 h = k_lists k h"
    using object_init_effect[OF inv cur new'] by auto
  have l: "k_lists k1 (MpWait p) = []" using k1(4) new(2) by simp
  then have t: "tlist_init (MpWait p) k1 = k1" by (simp add: tlist_init_def fun_upd_idem)
  have al: "align32 bs < 2 ^ 32" by (simp add: align32_def)
  have dn: "RT_ALIGN_DOWN sz RT_ALIGN_SIZE = ?s" by (simp add: RT_ALIGN_DOWN_def RT_ALIGN_SIZE_def)
  have le: "?s \<le> sz" by simp
  show ?thesis
  proof (cases "?s < ?c")
    case True
    have "?s div (?c mod 2 ^ 32) = 0"
    proof (cases "?c < 2 ^ 32")
      case False
      have "4 dvd align32 bs" by (simp add: align32_def RT_ALIGN_def RT_ALIGN_SIZE_def dvd_mod)
      then obtain q where "align32 bs = 4 * q" by (elim dvdE)
      then have "align32 bs = 2 ^ 32 - 4" using al False by simp
      then show ?thesis by simp
    qed (use True in simp)
    then show ?thesis using True k1(1) by (simp add: rt_mp_init_def Let_def dn)
  next
    case False
    obtain n where n_def: "n = ?s div ?c" by blast
    have "?c mod 2 ^ 32 = ?c" using False le sz by simp
    moreover have n: "0 < n" using False by (simp add: n_def div_greater_zero_iff)
    ultimately have r: "rt_mp_init p name start sz bs k mps =
        Some (k1, upd_mp p (\<lambda>mp. new_pool start ?s (align32 bs) n (mp_words mp)) mps)"
      using k1(1) by (simp add: rt_mp_init_def Let_def dn t n_def)
    have top: "(b + 1) * ?c \<le> sz" if "b < n" for b
    proof -
      have "(b + 1) * ?c \<le> n * ?c" using that by (intro mult_le_mono1) simp
      also have "\<dots> \<le> ?s" by (simp add: n_def)
      finally show ?thesis using le by simp
    qed
    have apart: "b' * ?c + ?c \<le> b * ?c" if "b' < b" for b b'
    proof -
      have "(b' + 1) * ?c \<le> b * ?c" using that by (intro mult_le_mono1) simp
      then show ?thesis by simp
    qed
    obtain mps' where m: "mps' = upd_mp p (\<lambda>mp. new_pool start ?s (align32 bs) n (mp_words mp)) mps" by blast
    have ok: "pool_ok p k1 mps' [0 ..< n] []" using l mp_rep_new[OF n] by (simp add: m pool_ok_def new_pool_def)
    have ad: "mp_addr (mps' p) b = start + b * ?c + 4" for b by (simp add: m mp_addr_def new_pool_def)
    have "\<forall>b < n. start + 4 \<le> mp_addr (mps' p) b \<and> mp_addr (mps' p) b + align32 bs \<le> start + sz \<and>
        (\<forall>b' < b. mp_addr (mps' p) b' + align32 bs + 4 \<le> mp_addr (mps' p) b)"
    proof (intro allI impI conjI)
      fix b assume b: "b < n"
      show "start + 4 \<le> mp_addr (mps' p) b" unfolding ad by simp
      have "(b + 1) * ?c = b * ?c + align32 bs + 4" by simp
      then show "mp_addr (mps' p) b + align32 bs \<le> start + sz" using top[OF b] unfolding ad by linarith
      fix b' assume "b' < b"
      from apart[OF this] show "mp_addr (mps' p) b' + align32 bs + 4 \<le> mp_addr (mps' p) b" unfolding ad by linarith
    qed
    moreover have "rt_mp_init p name start sz bs k mps = Some (k1, mps')" using r m by simp
    moreover have "\<not> sz div 4 * 4 < align32 bs + 4" using False .
    ultimately show ?thesis using k1(2,3) n ok n_def by auto
  qed
qed

theorem mempool_init_spec_witness:
  "(\<exists>k' mps'. rt_mp_init 0 ''pool'' 0x20001000 25 6 sample sample_pool = Some (k', mps') \<and> pool_ok 0 k' mps' [0, 1] []) \<and>
   rt_mp_init 0 ''pool'' 0x20001000 11 6 sample sample_pool = None"
proof -
  have a: "align32 6 = 8" by (simp add: align32_def RT_ALIGN_def RT_ALIGN_SIZE_def)
  have u: "[0 ..< 2] = [0, 1 :: nat]" by (simp add: upt_conv_Cons)
  have n: "OMemPool 0 \<notin> set (k_containers sample RT_Object_Class_MemPool)" "k_lists sample (MpWait 0) = []"
    "k_current sample = Some 1" by (simp_all add: sample_containers_def sample_registered_def sample_lists_def)
  show ?thesis
    using mempool_init_spec[OF sample_inv sample_stacks_ok n(3) _ n(1,2), of 25 6 "''pool''" "0x20001000" sample_pool]
      mempool_init_spec[OF sample_inv sample_stacks_ok n(3) _ n(1,2), of 11 6 "''pool''" "0x20001000" sample_pool] a u
    by auto
qed

section \<open>Detaching\<close>

text \<open>The loop does to the threads what the helper of \<^verbatim>\<open>src/ipc.c\<close> does.\<close>

lemma mp_resume_all_ipc:
  assumes "kernel_inv k" "k_lists k (MpWait p) = us" "length us \<le> n"
  shows "mp_resume_all p k n = map_option (\<lambda>k'. (k', n - length us)) (rt_ipc_list_resume_all (MpWait p) k)"
  using assms
proof (induction us arbitrary: k n)
  case Nil
  then show ?case by (subst mp_resume_all.simps, subst rt_ipc_list_resume_all.simps) simp
next
  case (Cons t us)
  let ?k = "upd_thr t (t_error_update (\<lambda>_. - RT_ERROR)) k"
  have i: "kernel_inv ?k" by (rule kernel_inv_upd_thr[OF Cons.prems(1)]) simp_all
  have l: "k_lists ?k (MpWait p) = t # us" "stat_of_list (MpWait p) = RT_THREAD_SUSPEND" using Cons.prems(2) by simp_all
  obtain k1 where k1: "rt_thread_resume t ?k = Some (k1, RT_EOK)" "kernel_inv k1" "k_lists k1 (MpWait p) = us"
    using ipc_resume_effect[OF i l] by blast
  have n: "length us \<le> n - 1" "sub32 n 1 = n - 1" using Cons.prems(3) by (simp_all add: sub32_def)
  show ?case
    using Cons.IH[OF k1(2,3) n(1)] Cons.prems(2) k1(1) n(2)
    by (subst mp_resume_all.simps, subst rt_ipc_list_resume_all.simps) simp
qed

lemma mempool_detach_effect:
  assumes inv: "kernel_inv k" and ok: "pool_ok p k mps fs us"
    and ob: "o_type (k_objects k (OMemPool p)) = RT_Object_Class_MemPool" "o_static (k_objects k (OMemPool p))"
  shows "\<exists>k' mps'. rt_mp_detach p k mps = Some (k', mps') \<and> kernel_inv k' \<and> mp_waiting (mps' p) = 0 \<and>
    k_lists k' (MpWait p) = [] \<and> o_type (k_objects k' (OMemPool p)) = RT_Object_Class_Null \<and>
    (\<forall>t \<in> set (k_lists k (MpWait p)). t_error (thr k' t) = - RT_ERROR \<and>
       t_stat (thr k' t) \<in> {RT_THREAD_READY, RT_THREAD_RUNNING})"
proof -
  have hs: "stat_of_list (MpWait p) = RT_THREAD_SUSPEND" by simp
  obtain k1 where k1: "rt_ipc_list_resume_all (MpWait p) k = Some k1" "kernel_inv k1" "k_lists k1 (MpWait p) = []"
    "\<forall>t \<in> set (k_lists k (MpWait p)). t_error (thr k1 t) = - RT_ERROR \<and>
       t_stat (thr k1 t) \<in> {RT_THREAD_READY, RT_THREAD_RUNNING}"
    using resume_all_effect[OF inv hs refl] by blast
  have "mp_resume_all p k (mp_waiting (mps p)) = Some (k1, 0)"
    using mp_resume_all_ipc[OF inv refl, of p "mp_waiting (mps p)"] ok k1(1) by (simp add: pool_ok_def)
  moreover have "kernel_inv (rt_object_detach (OMemPool p) k1)"
    by (rule kernel_inv_object_detach[OF k1(2)]) (simp add: plain_object_def)
  ultimately show ?thesis
    using ob k1(3,4)
    by (simp add: rt_mp_detach_def rt_object_get_type_def rt_object_is_systemobject_def)
qed

end
