(* ===== verification/Completion.thy ===== *)
theory Completion
  imports Direct_Wait
begin

text \<open>
  The completions of \<^verbatim>\<open>components/drivers/src/completion.c\<close>: a flag that an interrupt or a thread sets
  and one thread waits for. The completions are a table beside the kernel state.
\<close>

section \<open>Operations\<close>

definition RT_COMPLETED :: nat where "RT_COMPLETED = 1"
definition RT_UNCOMPLETED :: nat where "RT_UNCOMPLETED = 0"

record rt_completion =
  cpl_flag :: nat

type_synonym completions = "nat \<Rightarrow> rt_completion"

definition set_flag :: "nat \<Rightarrow> nat \<Rightarrow> completions \<Rightarrow> completions" where
  "set_flag c v cs = cs(c := \<lparr>cpl_flag = v\<rparr>)"

definition rt_completion_init :: "nat \<Rightarrow> kernel \<Rightarrow> completions \<Rightarrow> kernel \<times> completions" where
  "rt_completion_init c k cs = (tlist_init (CompletionWait c) k, set_flag c RT_UNCOMPLETED cs)"

datatype cpl_answer = Completed int | Cpl_Blocked

definition rt_completion_wait ::
  "nat \<Rightarrow> int \<Rightarrow> kernel \<Rightarrow> completions \<Rightarrow> (kernel \<times> completions \<times> cpl_answer) option" where
  "rt_completion_wait c time k cs =
     (if cpl_flag (cs c) \<noteq> RT_COMPLETED then do {
        rt_assert (k_lists k (CompletionWait c) = []);
        (if time = 0 then Some (k, cs, Completed (- RT_ETIMEOUT))
         else do {
           t \<leftarrow> rt_thread_self k;
           (k, _) \<leftarrow> rt_thread_suspend t (upd_thr t (t_error_update (\<lambda>_. RT_EOK)) k);
           let k = tlist_append (CompletionWait c) t k;
           rt_debug_not_in_interrupt k;
           k \<leftarrow> arm_timer t time k;
           k \<leftarrow> rt_schedule k;
           Some (k, cs, Cpl_Blocked) }) }
      else Some (k, set_flag c RT_UNCOMPLETED cs, Completed RT_EOK))"

definition rt_completion_wait_resume ::
  "nat \<Rightarrow> nat \<Rightarrow> kernel \<Rightarrow> completions \<Rightarrow> kernel \<times> completions \<times> cpl_answer" where
  "rt_completion_wait_resume c t k cs = (k, set_flag c RT_UNCOMPLETED cs, Completed (t_error (thr k t)))"

definition rt_completion_done :: "nat \<Rightarrow> kernel \<Rightarrow> completions \<Rightarrow> (kernel \<times> completions) option" where
  "rt_completion_done c k cs =
     (if cpl_flag (cs c) = RT_COMPLETED then Some (k, cs)
      else
        let cs = set_flag c RT_COMPLETED cs in
        (case k_lists k (CompletionWait c) of
           [] \<Rightarrow> Some (k, cs)
         | t # _ \<Rightarrow> do { (k, _) \<leftarrow> rt_thread_resume t k; k \<leftarrow> rt_schedule k; Some (k, cs) }))"

section \<open>Invariant\<close>

text \<open>Nobody waits for a completion that has happened, at most one thread waits, and it has no error yet.\<close>

definition completion_inv :: "nat \<Rightarrow> kernel \<Rightarrow> completions \<Rightarrow> bool" where
  "completion_inv c k cs \<longleftrightarrow> cpl_flag (cs c) \<in> {RT_UNCOMPLETED, RT_COMPLETED} \<and>
     length (k_lists k (CompletionWait c)) \<le> 1 \<and>
     (cpl_flag (cs c) = RT_COMPLETED \<longrightarrow> k_lists k (CompletionWait c) = []) \<and>
     (\<forall>t \<in> set (k_lists k (CompletionWait c)). t_error (thr k t) = RT_EOK)"

lemma set_flag_same [simp]: "cpl_flag (set_flag c v cs c) = v"
  by (simp add: set_flag_def)

lemma flags_differ [simp]: "RT_UNCOMPLETED \<noteq> RT_COMPLETED" "RT_COMPLETED \<noteq> RT_UNCOMPLETED"
  by (simp_all add: RT_UNCOMPLETED_def RT_COMPLETED_def)

lemma completion_wait_effect:
  assumes inv: "kernel_inv k" "stacks_ok k" and run: "running_thread k t" and ok: "completion_inv c k cs"
    and free: "k_lists k (CompletionWait c) = []" and tm: "time < 2 ^ 31 - 1"
  shows "\<exists>k' cs' r. rt_completion_wait c time k cs = Some (k', cs', r) \<and> kernel_inv k' \<and> stacks_ok k' \<and>
    completion_inv c k' cs' \<and> cpl_flag (cs' c) = RT_UNCOMPLETED \<and>
    (if cpl_flag (cs c) = RT_COMPLETED then r = Completed RT_EOK \<and> k' = k
     else if time = 0 then r = Completed (- RT_ETIMEOUT) \<and> k' = k
     else r = Cpl_Blocked \<and> k_lists k' (CompletionWait c) = [t] \<and> k_current k' \<noteq> None \<and>
       t_stat (thr k' t) = RT_THREAD_SUSPEND \<and> (ThreadTimer t \<in> set (k_timer_list k') \<longleftrightarrow> time > 0) \<and>
       (time > 0 \<longrightarrow> due k' (ThreadTimer t) = k_tick k + word_of_int time))"
proof (cases "cpl_flag (cs c) = RT_COMPLETED \<or> time = 0")
  case True
  then show ?thesis
    using inv ok free by (auto simp: rt_completion_wait_def rt_assert_def completion_inv_def)
next
  case False
  let ?k = "upd_thr t (t_error_update (\<lambda>_. RT_EOK)) k" and ?h = "CompletionWait c"
  have run': "k_current k = Some t" "t_stat (thr k t) = RT_THREAD_RUNNING" "k_interrupt_nest k = 0"
    using run by (simp_all add: running_thread_def)
  have i: "kernel_inv ?k" by (rule kernel_inv_upd_thr[OF inv(1)]) simp_all
  have s: "stacks_ok ?k" using inv(2) by (auto simp: stacks_ok_def)
  have cur: "k_current ?k = Some t" "t_stat (thr ?k t) = RT_THREAD_RUNNING" using run' by simp_all
  have xs: "set [t] = insert t (set (k_lists ?k ?h))" "distinct [t]" using free by simp_all
  have hs: "stat_of_list ?h = RT_THREAD_SUSPEND" by simp
  obtain k1 k2 k3 where b: "rt_thread_suspend t ?k = Some (k1, RT_EOK)" "k_lists k1 ?h = k_lists ?k ?h"
    "arm_timer t time (k1\<lparr>k_lists := (k_lists k1)(?h := [t])\<rparr>) = Some k2" "rt_schedule k2 = Some k3"
    "kernel_inv k3" "stacks_ok k3" "k_current k3 \<noteq> None" "k_lists k3 ?h = [t]"
    "thr k3 t = (thr ?k t)\<lparr>t_stat := RT_THREAD_SUSPEND\<rparr>" "ThreadTimer t \<in> set (k_timer_list k3) \<longleftrightarrow> time > 0"
    "time > 0 \<longrightarrow> due k3 (ThreadTimer t) = k_tick ?k + word_of_int time"
    using direct_block_effect[OF i s cur hs tm xs] by blast
  have l: "tlist_append ?h t k1 = k1\<lparr>k_lists := (k_lists k1)(?h := [t])\<rparr>"
    using b(2) free by (simp add: tlist_append_def)
  have "k_interrupt_nest k1 = 0" using suspend_effect[OF i b(1)] run'(3) by simp
  then have "rt_completion_wait c time k cs = Some (k3, cs, Cpl_Blocked)"
    using False free run' b(1,3,4)
    by (simp add: rt_completion_wait_def rt_assert_def rt_debug_not_in_interrupt_def rt_interrupt_get_nest_def
        rt_thread_self_def l Let_def)
  then show ?thesis using False ok b(5-11) by (auto simp: completion_inv_def)
qed

lemma completion_done_effect:
  assumes inv: "kernel_inv k" "stacks_ok k" and cur: "k_current k = Some u" and ok: "completion_inv c k cs"
  shows "\<exists>k' cs'. rt_completion_done c k cs = Some (k', cs') \<and> kernel_inv k' \<and> stacks_ok k' \<and>
    completion_inv c k' cs' \<and> cpl_flag (cs' c) = RT_COMPLETED \<and> k_lists k' (CompletionWait c) = [] \<and>
    (case k_lists k (CompletionWait c) of
       [] \<Rightarrow> k' = k
     | t # _ \<Rightarrow> woken (t_stat (thr k' t)) \<and> t_error (thr k' t) = RT_EOK)"
proof (cases "k_lists k (CompletionWait c)")
  case Nil
  then show ?thesis using inv ok by (auto simp: rt_completion_done_def Let_def completion_inv_def)
next
  case (Cons t ts)
  have hs: "stat_of_list (CompletionWait c) = RT_THREAD_SUSPEND" by simp
  have ts: "ts = []" and e: "t_error (thr k t) = RT_EOK" and f: "cpl_flag (cs c) \<noteq> RT_COMPLETED"
    using ok Cons by (auto simp: completion_inv_def)
  obtain k1 k2 where w: "rt_ipc_list_resume (CompletionWait c) k = Some k1" "rt_schedule k1 = Some k2" "kernel_inv k2"
    "stacks_ok k2" "k_lists k2 (CompletionWait c) = ts" "woken (t_stat (thr k2 t))" "t_error (thr k2 t) = t_error (thr k t)"
    using wake_schedule_effect[OF inv Cons hs cur] by blast
  have "rt_thread_resume t k = Some (k1, RT_EOK)" using ipc_resume_effect[OF inv(1) Cons hs] w(1) by auto
  then have "rt_completion_done c k cs = Some (k2, set_flag c RT_COMPLETED cs)"
    using Cons f w(2) by (simp add: rt_completion_done_def Let_def)
  then show ?thesis using w ts e Cons by (auto simp: completion_inv_def)
qed

section \<open>Properties\<close>

text \<open>C31. A completion is one token. Waiting for one that has happened takes the token; waiting otherwise
  fails at once or suspends the caller until its timeout; completing hands the token to the waiting
  thread, whose call then returns success and leaves the completion as it was initialised.\<close>

theorem completion_spec:
  assumes inv: "kernel_inv k" "stacks_ok k" and ok: "completion_inv c k cs" and cur: "k_current k = Some u"
  shows "(\<exists>k' cs'. rt_completion_done c k cs = Some (k', cs') \<and> kernel_inv k' \<and> completion_inv c k' cs' \<and>
      (case k_lists k (CompletionWait c) of
         [] \<Rightarrow> k' = k \<and> cpl_flag (cs' c) = RT_COMPLETED
       | t # _ \<Rightarrow> woken (t_stat (thr k' t)) \<and> (\<exists>cs''. rt_completion_wait_resume c t k' cs' = (k', cs'', Completed RT_EOK) \<and>
           completion_inv c k' cs'' \<and> cpl_flag (cs'' c) = RT_UNCOMPLETED))) \<and>
    (running_thread k u \<and> k_lists k (CompletionWait c) = [] \<and> time < 2 ^ 31 - 1 \<longrightarrow>
      (\<exists>k' cs' r. rt_completion_wait c time k cs = Some (k', cs', r) \<and> kernel_inv k' \<and> stacks_ok k' \<and>
        completion_inv c k' cs' \<and> cpl_flag (cs' c) = RT_UNCOMPLETED \<and>
        (if cpl_flag (cs c) = RT_COMPLETED then r = Completed RT_EOK \<and> k' = k
         else if time = 0 then r = Completed (- RT_ETIMEOUT) \<and> k' = k
         else r = Cpl_Blocked \<and> k_lists k' (CompletionWait c) = [u] \<and> k_current k' \<noteq> None \<and>
           t_stat (thr k' u) = RT_THREAD_SUSPEND \<and> (ThreadTimer u \<in> set (k_timer_list k') \<longleftrightarrow> time > 0) \<and>
           (time > 0 \<longrightarrow> due k' (ThreadTimer u) = k_tick k + word_of_int time))))"
proof (intro conjI impI)
  obtain k' cs' where d: "rt_completion_done c k cs = Some (k', cs')" "kernel_inv k'" "completion_inv c k' cs'"
    "cpl_flag (cs' c) = RT_COMPLETED" "k_lists k' (CompletionWait c) = []"
    "case k_lists k (CompletionWait c) of [] \<Rightarrow> k' = k | t # _ \<Rightarrow> woken (t_stat (thr k' t)) \<and> t_error (thr k' t) = RT_EOK"
    using completion_done_effect[OF inv cur ok] by blast
  have "completion_inv c k' (set_flag c RT_UNCOMPLETED cs')" using d(5) by (simp add: completion_inv_def)
  then show "\<exists>k' cs'. rt_completion_done c k cs = Some (k', cs') \<and> kernel_inv k' \<and> completion_inv c k' cs' \<and>
      (case k_lists k (CompletionWait c) of
         [] \<Rightarrow> k' = k \<and> cpl_flag (cs' c) = RT_COMPLETED
       | t # _ \<Rightarrow> woken (t_stat (thr k' t)) \<and> (\<exists>cs''. rt_completion_wait_resume c t k' cs' = (k', cs'', Completed RT_EOK) \<and>
           completion_inv c k' cs'' \<and> cpl_flag (cs'' c) = RT_UNCOMPLETED))"
    using d by (intro exI[of _ k'] exI[of _ cs']) (auto simp: rt_completion_wait_resume_def split: list.splits)
qed (use completion_wait_effect[OF inv _ ok] in blast)

definition sample_completions :: completions where
  "sample_completions = (\<lambda>_. \<lparr>cpl_flag = RT_UNCOMPLETED\<rparr>)"

lemma sample_completion_inv: "completion_inv 0 sample sample_completions"
  by (simp add: completion_inv_def sample_completions_def sample_lists_def)

theorem completion_spec_witness:
  "(\<exists>k' cs' r. rt_completion_wait 0 5 sample sample_completions = Some (k', cs', r) \<and> r = Cpl_Blocked \<and>
     k_lists k' (CompletionWait 0) = [1]) \<and>
   (\<exists>k' cs'. rt_completion_done 0 sample sample_completions = Some (k', cs') \<and> cpl_flag (cs' 0) = RT_COMPLETED)"
proof -
  have cur: "k_current sample = Some 1" and l: "k_lists sample (CompletionWait 0) = []"
    by (simp_all add: sample_lists_def)
  note s = completion_spec[OF sample_inv sample_stacks_ok sample_completion_inv cur, of 5]
  have f: "cpl_flag (sample_completions 0) \<noteq> RT_COMPLETED" by (simp add: sample_completions_def)
  show ?thesis using s sample_running l f by auto
qed

text \<open>The clean-up after a wait clears the flag also when the wait has timed out: a completion signalled after
  the timeout and before the thread runs is lost.\<close>

lemma late_completion_is_lost:
  assumes "cpl_flag (cs c) = RT_UNCOMPLETED" "k_lists k (CompletionWait c) = []" "t_error (thr k t) = - RT_ETIMEOUT"
  shows "\<exists>cs'. rt_completion_done c k cs = Some (k, cs') \<and> cpl_flag (cs' c) = RT_COMPLETED \<and>
    (\<exists>cs''. rt_completion_wait_resume c t k cs' = (k, cs'', Completed (- RT_ETIMEOUT)) \<and> cpl_flag (cs'' c) = RT_UNCOMPLETED)"
  using assms by (simp add: rt_completion_done_def rt_completion_wait_resume_def Let_def)

end
