(* ===== verification/DataQueue.thy ===== *)
theory DataQueue
  imports Direct_Wait Idle
begin

text \<open>
  The data queues of \<^verbatim>\<open>components/drivers/src/dataqueue.c\<close>: a ring of items between drivers, with
  16-bit positions that only grow, a list of threads that wait for room and one of threads that wait
  for an item. The queues are a table beside the kernel state. The last thing an operation may do is to
  call \<^verbatim>\<open>evt_notify\<close>; the model returns the event it is called with.
\<close>

section \<open>Operations\<close>

datatype dq_event = RT_DATAQUEUE_EVENT_UNKNOWN | RT_DATAQUEUE_EVENT_POP | RT_DATAQUEUE_EVENT_PUSH | RT_DATAQUEUE_EVENT_LWM

record rt_data_item =
  data_ptr :: nat
  data_size :: nat

record rt_data_queue =
  dq_size :: u16
  dq_lwm :: u16
  dq_get :: u16
  dq_put :: u16
  dq_queue :: "rt_data_item list"
  dq_notify :: bool

type_synonym queues = "nat \<Rightarrow> rt_data_queue"

definition upd_dq :: "nat \<Rightarrow> (rt_data_queue \<Rightarrow> rt_data_queue) \<Rightarrow> queues \<Rightarrow> queues" where
  "upd_dq q f dqs = dqs(q := f (dqs q))"

text \<open>\<open>mem\<close> is the allocator's answer: the memory for the items as it is found, or nothing.\<close>

definition rt_data_queue_init ::
  "nat \<Rightarrow> u16 \<Rightarrow> u16 \<Rightarrow> bool \<Rightarrow> rt_data_item list option \<Rightarrow> kernel \<Rightarrow> queues \<Rightarrow> kernel \<times> queues \<times> int" where
  "rt_data_queue_init q sz lwm notify mem k dqs =
     (tlist_init (DqGetWait q) (tlist_init (DqPutWait q) k),
      dqs(q := \<lparr>dq_size = sz, dq_lwm = lwm, dq_get = 0, dq_put = 0,
        dq_queue = (case mem of None \<Rightarrow> [] | Some m \<Rightarrow> m), dq_notify = notify\<rparr>),
      (if mem = None then - RT_ENOMEM else RT_EOK))"

definition notified :: "rt_data_queue \<Rightarrow> dq_event \<Rightarrow> dq_event option" where
  "notified d ev = (if dq_notify d then Some ev else None)"

text \<open>The loop condition is computed in \<^verbatim>\<open>int\<close>: both 16-bit positions are promoted before the subtraction.\<close>

definition dq_full :: "rt_data_queue \<Rightarrow> bool" where
  "dq_full d \<longleftrightarrow> uint (dq_put d) - uint (dq_get d) = uint (dq_size d)"

definition dq_low :: "rt_data_queue \<Rightarrow> bool" where
  "dq_low d \<longleftrightarrow> uint (dq_put d) - uint (dq_get d) \<le> uint (dq_lwm d)"

definition dq_block :: "list_head \<Rightarrow> int \<Rightarrow> kernel \<Rightarrow> kernel option" where
  "dq_block h time k = do {
     rt_debug_not_in_interrupt k;
     t \<leftarrow> rt_thread_self k;
     (k, _) \<leftarrow> rt_thread_suspend t (upd_thr t (t_error_update (\<lambda>_. RT_EOK)) k);
     let k = tlist_append h t k;
     k \<leftarrow> arm_timer t time k;
     rt_schedule k }"

definition dq_store :: "nat \<Rightarrow> nat \<Rightarrow> rt_data_queue \<Rightarrow> rt_data_queue" where
  "dq_store ptr n d = d\<lparr>dq_queue := (dq_queue d)[unat (dq_put d) mod unat (dq_size d) := \<lparr>data_ptr = ptr, data_size = n\<rparr>],
     dq_put := dq_put d + 1\<rparr>"

definition dq_front :: "rt_data_queue \<Rightarrow> rt_data_item" where
  "dq_front d = dq_queue d ! (unat (dq_get d) mod unat (dq_size d))"

datatype push_answer = Pushed int "dq_event option" | Push_Blocked

definition dq_push_loop ::
  "nat \<Rightarrow> nat \<Rightarrow> nat \<Rightarrow> int \<Rightarrow> kernel \<Rightarrow> queues \<Rightarrow> (kernel \<times> queues \<times> push_answer) option" where
  "dq_push_loop q ptr n time k dqs =
     (if dq_full (dqs q) then
        if time = 0 then Some (k, dqs, Pushed (- RT_ETIMEOUT) None)
        else do { k \<leftarrow> dq_block (DqPutWait q) time k; Some (k, dqs, Push_Blocked) }
      else do {
        rt_assert (dq_size (dqs q) \<noteq> 0);
        let dqs = upd_dq q (dq_store ptr n) dqs;
        (case k_lists k (DqGetWait q) of
           [] \<Rightarrow> Some (k, dqs, Pushed RT_EOK (notified (dqs q) RT_DATAQUEUE_EVENT_PUSH))
         | t # _ \<Rightarrow> do {
             (k, _) \<leftarrow> rt_thread_resume t k;
             k \<leftarrow> rt_schedule k;
             Some (k, dqs, Pushed RT_EOK None) }) })"

definition rt_data_queue_push ::
  "nat \<Rightarrow> nat \<Rightarrow> nat \<Rightarrow> int \<Rightarrow> kernel \<Rightarrow> queues \<Rightarrow> (kernel \<times> queues \<times> push_answer) option" where
  "rt_data_queue_push q ptr n time k dqs = dq_push_loop q ptr n time k dqs"

definition rt_data_queue_push_resume ::
  "nat \<Rightarrow> nat \<Rightarrow> nat \<Rightarrow> nat \<Rightarrow> int \<Rightarrow> kernel \<Rightarrow> queues \<Rightarrow> (kernel \<times> queues \<times> push_answer) option" where
  "rt_data_queue_push_resume q t ptr n time k dqs =
     (if t_error (thr k t) \<noteq> RT_EOK then Some (k, dqs, Pushed (t_error (thr k t)) None)
      else dq_push_loop q ptr n time k dqs)"

datatype pop_answer = Popped int "rt_data_item option" "dq_event option" | Pop_Blocked

definition dq_pop_loop :: "nat \<Rightarrow> int \<Rightarrow> kernel \<Rightarrow> queues \<Rightarrow> (kernel \<times> queues \<times> pop_answer) option" where
  "dq_pop_loop q time k dqs =
     (if dq_get (dqs q) = dq_put (dqs q) then
        if time = 0 then Some (k, dqs, Popped (- RT_ETIMEOUT) None None)
        else do { k \<leftarrow> dq_block (DqGetWait q) time k; Some (k, dqs, Pop_Blocked) }
      else do {
        rt_assert (dq_size (dqs q) \<noteq> 0);
        let x = dq_front (dqs q);
        let dqs = upd_dq q (\<lambda>d. d\<lparr>dq_get := dq_get d + 1\<rparr>) dqs;
        (if dq_low (dqs q) then do {
           k \<leftarrow> (case k_lists k (DqPutWait q) of
                   [] \<Rightarrow> Some k
                 | t # _ \<Rightarrow> do { (k, _) \<leftarrow> rt_thread_resume t k; rt_schedule k });
           Some (k, dqs, Popped RT_EOK (Some x) (notified (dqs q) RT_DATAQUEUE_EVENT_LWM)) }
         else Some (k, dqs, Popped RT_EOK (Some x) (notified (dqs q) RT_DATAQUEUE_EVENT_POP))) })"

definition rt_data_queue_pop :: "nat \<Rightarrow> int \<Rightarrow> kernel \<Rightarrow> queues \<Rightarrow> (kernel \<times> queues \<times> pop_answer) option" where
  "rt_data_queue_pop q time k dqs = dq_pop_loop q time k dqs"

definition rt_data_queue_pop_resume ::
  "nat \<Rightarrow> nat \<Rightarrow> int \<Rightarrow> kernel \<Rightarrow> queues \<Rightarrow> (kernel \<times> queues \<times> pop_answer) option" where
  "rt_data_queue_pop_resume q t time k dqs =
     (if t_error (thr k t) \<noteq> RT_EOK then Some (k, dqs, Popped (t_error (thr k t)) None None)
      else dq_pop_loop q time k dqs)"

definition rt_data_queue_peak :: "nat \<Rightarrow> queues \<Rightarrow> (int \<times> rt_data_item option) option" where
  "rt_data_queue_peak q dqs =
     (if dq_get (dqs q) = dq_put (dqs q) then Some (- RT_EEMPTY, None)
      else do { rt_assert (dq_size (dqs q) \<noteq> 0); Some (RT_EOK, Some (dq_front (dqs q))) })"

text \<open>Its two loops resume all threads of a list with an error, as \<^verbatim>\<open>rt_ipc_list_resume_all\<close> does.\<close>

definition rt_data_queue_reset :: "nat \<Rightarrow> kernel \<Rightarrow> kernel option" where
  "rt_data_queue_reset q k = do {
     let k = rt_enter_critical k;
     k \<leftarrow> rt_ipc_list_resume_all (DqGetWait q) k;
     k \<leftarrow> rt_ipc_list_resume_all (DqPutWait q) k;
     k \<leftarrow> rt_exit_critical k;
     rt_schedule k }"

section \<open>The queue as a sequence\<close>

text \<open>As long as the positions have not wrapped the items between them are the contents.\<close>

definition dq_items :: "rt_data_queue \<Rightarrow> rt_data_item list" where
  "dq_items d = map (\<lambda>i. dq_queue d ! (i mod unat (dq_size d))) [unat (dq_get d) ..< unat (dq_put d)]"

definition dq_inv :: "rt_data_queue \<Rightarrow> bool" where
  "dq_inv d \<longleftrightarrow> dq_size d \<noteq> 0 \<and> length (dq_queue d) = unat (dq_size d) \<and> unat (dq_get d) \<le> unat (dq_put d) \<and>
     unat (dq_put d) - unat (dq_get d) \<le> unat (dq_size d)"

lemma upd_dq_same [simp]: "upd_dq q f dqs q = f (dqs q)"
  by (simp add: upd_dq_def)

lemma dq_items_length [simp]: "length (dq_items d) = unat (dq_put d) - unat (dq_get d)"
  by (simp add: dq_items_def)

lemma uint_int_unat: "uint w = int (unat w)"
  by simp

lemma dq_full_iff: "dq_inv d \<Longrightarrow> dq_full d \<longleftrightarrow> length (dq_items d) = unat (dq_size d)"
proof -
  assume "dq_inv d"
  then have "unat (dq_get d) \<le> unat (dq_put d)" by (simp add: dq_inv_def)
  then show ?thesis unfolding dq_full_def uint_int_unat dq_items_length by linarith
qed

lemma dq_low_iff: "dq_inv d \<Longrightarrow> dq_low d \<longleftrightarrow> length (dq_items d) \<le> unat (dq_lwm d)"
proof -
  assume "dq_inv d"
  then have "unat (dq_get d) \<le> unat (dq_put d)" by (simp add: dq_inv_def)
  then show ?thesis unfolding dq_low_def uint_int_unat dq_items_length by linarith
qed

lemma dq_empty_iff: "dq_inv d \<Longrightarrow> dq_get d = dq_put d \<longleftrightarrow> dq_items d = []"
  by (auto simp: dq_items_def dq_inv_def word_unat_eq_iff)

text \<open>Two positions less than the size apart are different places.\<close>

lemma mod_places_differ:
  assumes "i < j" "j - i < (n::nat)"
  shows "i mod n \<noteq> j mod n"
proof
  assume "i mod n = j mod n"
  then have "n dvd j - i" using assms(1) mod_eq_dvd_iff_nat[of i j n] by simp
  then show False using assms by (auto dest: dvd_imp_le)
qed

lemma dq_store_items:
  assumes d: "dq_inv d" and room: "length (dq_items d) < unat (dq_size d)" and wrap: "unat (dq_put d) < 2 ^ 16 - 1"
  shows "dq_inv (dq_store ptr n d) \<and> dq_items (dq_store ptr n d) = dq_items d @ [\<lparr>data_ptr = ptr, data_size = n\<rparr>]"
proof -
  let ?s = "unat (dq_size d)" and ?p = "unat (dq_put d)" and ?g = "unat (dq_get d)"
  have p: "unat (dq_put d + 1) = ?p + 1"
    using wrap by (simp add: unat_word_ariths(1) unat_1)
  have s: "0 < ?s" and l: "length (dq_queue d) = ?s" and g: "?g \<le> ?p"
    using d by (auto simp: dq_inv_def unat_gt_0)
  have o: "(dq_queue d)[?p mod ?s := x] ! (i mod ?s) = dq_queue d ! (i mod ?s)" if "?g \<le> i" "i < ?p" for i x
    using mod_places_differ[of i ?p ?s] that room by (metis diff_le_mono2 dq_items_length le_less_trans nth_list_update_neq)
  have "dq_items (dq_store ptr n d) = dq_items d @ [\<lparr>data_ptr = ptr, data_size = n\<rparr>]"
    using g s l o by (simp add: dq_items_def dq_store_def p)
  then show ?thesis using d p g room by (simp add: dq_inv_def dq_store_def)
qed

lemma dq_take_items:
  assumes d: "dq_inv d" and l: "dq_items d = x # xs"
  shows "dq_front d = x \<and> dq_inv (d\<lparr>dq_get := dq_get d + 1\<rparr>) \<and> dq_items (d\<lparr>dq_get := dq_get d + 1\<rparr>) = xs"
proof -
  have lt: "unat (dq_get d) < unat (dq_put d)" using arg_cong[OF l, of length] by simp
  moreover have "unat (dq_put d) < 2 ^ 16" using unsigned_less[of "dq_put d"] by simp
  ultimately have g: "unat (dq_get d + 1) = unat (dq_get d) + 1" by (simp add: unat_word_ariths(1) unat_1)
  have "dq_inv (d\<lparr>dq_get := dq_get d + 1\<rparr>)" using lt d g by (auto simp: dq_inv_def)
  then show ?thesis using l lt g by (simp add: dq_items_def upt_conv_Cons dq_front_def)
qed

section \<open>Blocking, pushing and popping\<close>

lemma dq_block_effect:
  assumes inv: "kernel_inv k" "stacks_ok k" and run: "running_thread k c" and h: "stat_of_list h = RT_THREAD_SUSPEND"
    and tm: "time < 2 ^ 31 - 1"
  shows "\<exists>k'. dq_block h time k = Some k' \<and> kernel_inv k' \<and> stacks_ok k' \<and> k_current k' \<noteq> None \<and>
    k_lists k' h = k_lists k h @ [c] \<and> t_stat (thr k' c) = RT_THREAD_SUSPEND \<and> t_error (thr k' c) = RT_EOK \<and>
    (ThreadTimer c \<in> set (k_timer_list k') \<longleftrightarrow> time > 0) \<and>
    (time > 0 \<longrightarrow> due k' (ThreadTimer c) = k_tick k + word_of_int time)"
proof -
  let ?k = "upd_thr c (t_error_update (\<lambda>_. RT_EOK)) k"
  have run': "k_current k = Some c" "t_stat (thr k c) = RT_THREAD_RUNNING" "k_interrupt_nest k = 0"
    using run by (simp_all add: running_thread_def)
  have i: "kernel_inv ?k" by (rule kernel_inv_upd_thr[OF inv(1)]) simp_all
  have s: "stacks_ok ?k" using inv(2) by (auto simp: stacks_ok_def)
  have cur: "k_current ?k = Some c" "t_stat (thr ?k c) = RT_THREAD_RUNNING" using run' by simp_all
  have "c \<notin> set (k_lists k h)" using thread_invD(1)[OF kernel_invD(6)[OF inv(1)], of c h] run' h by auto
  moreover have "distinct (k_lists k h)"
    using kernel_invD(7)[OF inv(1)] by (simp add: sched_inv_ex_def tlist_inv_def lists_ok_def)
  ultimately have xs: "set (k_lists k h @ [c]) = insert c (set (k_lists ?k h))" "distinct (k_lists k h @ [c])" by simp_all
  obtain k1 k2 k3 where b: "rt_thread_suspend c ?k = Some (k1, RT_EOK)" "k_lists k1 h = k_lists ?k h"
    "arm_timer c time (k1\<lparr>k_lists := (k_lists k1)(h := k_lists k h @ [c])\<rparr>) = Some k2" "rt_schedule k2 = Some k3"
    "kernel_inv k3" "stacks_ok k3" "k_current k3 \<noteq> None" "k_lists k3 h = k_lists k h @ [c]"
    "thr k3 c = (thr ?k c)\<lparr>t_stat := RT_THREAD_SUSPEND\<rparr>" "ThreadTimer c \<in> set (k_timer_list k3) \<longleftrightarrow> time > 0"
    "time > 0 \<longrightarrow> due k3 (ThreadTimer c) = k_tick ?k + word_of_int time"
    using direct_block_effect[OF i s cur h tm xs] by blast
  have l: "tlist_append h c k1 = k1\<lparr>k_lists := (k_lists k1)(h := k_lists k h @ [c])\<rparr>"
    using b(2) by (simp add: tlist_append_def)
  have "dq_block h time k = Some k3"
    using run' b(1,3,4)
    by (simp add: dq_block_def rt_debug_not_in_interrupt_def rt_interrupt_get_nest_def rt_thread_self_def rt_assert_def l Let_def)
  then show ?thesis using b(5-11) by auto
qed

text \<open>What waking the first waiter of a list does, if there is one.\<close>

definition woken_first :: "list_head \<Rightarrow> kernel \<Rightarrow> kernel \<Rightarrow> bool" where
  "woken_first h k k' \<longleftrightarrow> kernel_inv k' \<and> stacks_ok k' \<and> k_current k' \<noteq> None \<and> k_lists k' h = tl (k_lists k h) \<and>
     (\<forall>h'. stat_of_list h' = RT_THREAD_SUSPEND \<longrightarrow> h' \<noteq> h \<longrightarrow> k_lists k' h' = k_lists k h') \<and>
     (case k_lists k h of
        [] \<Rightarrow> k' = k
      | t # _ \<Rightarrow> woken (t_stat (thr k' t)) \<and> t_error (thr k' t) = t_error (thr k t))"

lemma woken_first_none: "kernel_inv k \<Longrightarrow> stacks_ok k \<Longrightarrow> k_current k \<noteq> None \<Longrightarrow> k_lists k h = [] \<Longrightarrow> woken_first h k k"
  by (simp add: woken_first_def)

lemma wake_first_effect:
  assumes inv: "kernel_inv k" "stacks_ok k" and cur: "k_current k = Some c" and l: "k_lists k h = t # ts"
    and h: "stat_of_list h = RT_THREAD_SUSPEND"
  shows "\<exists>k1 k2. rt_thread_resume t k = Some (k1, RT_EOK) \<and> rt_schedule k1 = Some k2 \<and> woken_first h k k2"
proof -
  obtain k1 k2 where w: "rt_ipc_list_resume h k = Some k1" "rt_schedule k1 = Some k2" "kernel_inv k2" "stacks_ok k2"
    "k_lists k2 h = ts" "\<forall>h'. stat_of_list h' = RT_THREAD_SUSPEND \<longrightarrow> h' \<noteq> h \<longrightarrow> k_lists k2 h' = k_lists k h'"
    "woken (t_stat (thr k2 t))" "t_error (thr k2 t) = t_error (thr k t)" "k_current k2 \<noteq> None"
    using wake_schedule_effect[OF inv l h cur] by blast
  moreover have "rt_thread_resume t k = Some (k1, RT_EOK)" using ipc_resume_effect[OF inv(1) l h] w(1) by auto
  ultimately show ?thesis using l by (intro exI[of _ k1] exI[of _ k2]) (simp add: woken_first_def)
qed

lemma dq_push_effect:
  assumes inv: "kernel_inv k" "stacks_ok k" and cur: "k_current k = Some c" and d: "dq_inv (dqs q)"
    and room: "length (dq_items (dqs q)) < unat (dq_size (dqs q))" and wrap: "unat (dq_put (dqs q)) < 2 ^ 16 - 1"
  shows "\<exists>k' dqs' ev. rt_data_queue_push q ptr n time k dqs = Some (k', dqs', Pushed RT_EOK ev) \<and> dq_inv (dqs' q) \<and>
    dq_items (dqs' q) = dq_items (dqs q) @ [\<lparr>data_ptr = ptr, data_size = n\<rparr>] \<and> woken_first (DqGetWait q) k k' \<and>
    ev = (if k_lists k (DqGetWait q) = [] then notified (dqs q) RT_DATAQUEUE_EVENT_PUSH else None)"
proof -
  let ?dqs = "upd_dq q (dq_store ptr n) dqs"
  have nf: "\<not> dq_full (dqs q)" using dq_full_iff[OF d] room by simp
  have s: "dq_size (dqs q) \<noteq> 0" using d by (simp add: dq_inv_def)
  note st = dq_store_items[OF d room wrap, of ptr n]
  have nt: "notified (?dqs q) ev = notified (dqs q) ev" for ev by (simp add: notified_def dq_store_def)
  show ?thesis
  proof (cases "k_lists k (DqGetWait q)")
    case Nil
    then have "rt_data_queue_push q ptr n time k dqs = Some (k, ?dqs, Pushed RT_EOK (notified (dqs q) RT_DATAQUEUE_EVENT_PUSH))"
      using nf s nt by (simp add: rt_data_queue_push_def dq_push_loop_def rt_assert_def Let_def)
    then show ?thesis using st Nil woken_first_none[OF inv _ Nil] cur by simp
  next
    case (Cons t ts)
    have hs: "stat_of_list (DqGetWait q) = RT_THREAD_SUSPEND" by simp
    obtain k1 k2 where w: "rt_thread_resume t k = Some (k1, RT_EOK)" "rt_schedule k1 = Some k2" "woken_first (DqGetWait q) k k2"
      using wake_first_effect[OF inv cur Cons hs] by blast
    then have "rt_data_queue_push q ptr n time k dqs = Some (k2, ?dqs, Pushed RT_EOK None)"
      using nf s Cons by (simp add: rt_data_queue_push_def dq_push_loop_def rt_assert_def Let_def)
    then show ?thesis using st w(3) Cons by simp
  qed
qed

lemma dq_push_full_effect:
  assumes inv: "kernel_inv k" "stacks_ok k" and run: "running_thread k c" and d: "dq_inv (dqs q)"
    and full: "length (dq_items (dqs q)) = unat (dq_size (dqs q))" and tm: "time < 2 ^ 31 - 1"
  shows "if time = 0 then rt_data_queue_push q ptr n time k dqs = Some (k, dqs, Pushed (- RT_ETIMEOUT) None)
    else \<exists>k'. rt_data_queue_push q ptr n time k dqs = Some (k', dqs, Push_Blocked) \<and> dq_block (DqPutWait q) time k = Some k' \<and>
      kernel_inv k' \<and> stacks_ok k' \<and> k_lists k' (DqPutWait q) = k_lists k (DqPutWait q) @ [c] \<and>
      t_stat (thr k' c) = RT_THREAD_SUSPEND \<and> (ThreadTimer c \<in> set (k_timer_list k') \<longleftrightarrow> time > 0)"
proof -
  have "stat_of_list (DqPutWait q) = RT_THREAD_SUSPEND" by simp
  from dq_block_effect[OF inv run this tm] dq_full_iff[OF d] full show ?thesis
    by (auto simp: rt_data_queue_push_def dq_push_loop_def)
qed

lemma dq_pop_effect:
  assumes inv: "kernel_inv k" "stacks_ok k" and cur: "k_current k = Some c" and d: "dq_inv (dqs q)"
    and l: "dq_items (dqs q) = x # xs"
  shows "\<exists>k' dqs' ev. rt_data_queue_pop q time k dqs = Some (k', dqs', Popped RT_EOK (Some x) ev) \<and> dq_inv (dqs' q) \<and>
    dq_items (dqs' q) = xs \<and>
    (if length xs \<le> unat (dq_lwm (dqs q))
     then woken_first (DqPutWait q) k k' \<and> ev = notified (dqs q) RT_DATAQUEUE_EVENT_LWM
     else k' = k \<and> ev = notified (dqs q) RT_DATAQUEUE_EVENT_POP)"
proof -
  let ?dqs = "upd_dq q (\<lambda>d. d\<lparr>dq_get := dq_get d + 1\<rparr>) dqs"
  have ne: "dq_get (dqs q) \<noteq> dq_put (dqs q)" using dq_empty_iff[OF d] l by simp
  have s: "dq_size (dqs q) \<noteq> 0" using d by (simp add: dq_inv_def)
  note tk = dq_take_items[OF d l]
  have nt: "notified (?dqs q) ev = notified (dqs q) ev" for ev by (simp add: notified_def)
  have low: "dq_low (?dqs q) \<longleftrightarrow> length xs \<le> unat (dq_lwm (dqs q))" using dq_low_iff[of "?dqs q"] tk by simp
  show ?thesis
  proof (cases "length xs \<le> unat (dq_lwm (dqs q)) \<and> k_lists k (DqPutWait q) \<noteq> []")
    case True
    then obtain t ts where Cons: "k_lists k (DqPutWait q) = t # ts" by (cases "k_lists k (DqPutWait q)") auto
    have hs: "stat_of_list (DqPutWait q) = RT_THREAD_SUSPEND" by simp
    obtain k1 k2 where w: "rt_thread_resume t k = Some (k1, RT_EOK)" "rt_schedule k1 = Some k2" "woken_first (DqPutWait q) k k2"
      using wake_first_effect[OF inv cur Cons hs] by blast
    then have "rt_data_queue_pop q time k dqs =
        Some (k2, ?dqs, Popped RT_EOK (Some x) (notified (dqs q) RT_DATAQUEUE_EVENT_LWM))"
      using ne s low True Cons nt tk by (simp add: rt_data_queue_pop_def dq_pop_loop_def rt_assert_def Let_def)
    then show ?thesis using tk w(3) True by simp
  next
    case False
    have w: "woken_first (DqPutWait q) k k" if "k_lists k (DqPutWait q) = []"
      using woken_first_none[OF inv _ that] cur by simp
    have "rt_data_queue_pop q time k dqs = Some (k, ?dqs, Popped RT_EOK (Some x)
        (notified (dqs q) (if length xs \<le> unat (dq_lwm (dqs q)) then RT_DATAQUEUE_EVENT_LWM else RT_DATAQUEUE_EVENT_POP)))"
      using ne s low False nt tk by (auto simp: rt_data_queue_pop_def dq_pop_loop_def rt_assert_def Let_def)
    then show ?thesis using tk False w by auto
  qed
qed

lemma dq_pop_empty_effect:
  assumes inv: "kernel_inv k" "stacks_ok k" and run: "running_thread k c" and d: "dq_inv (dqs q)"
    and l: "dq_items (dqs q) = []" and tm: "time < 2 ^ 31 - 1"
  shows "if time = 0 then rt_data_queue_pop q time k dqs = Some (k, dqs, Popped (- RT_ETIMEOUT) None None)
    else \<exists>k'. rt_data_queue_pop q time k dqs = Some (k', dqs, Pop_Blocked) \<and> dq_block (DqGetWait q) time k = Some k' \<and>
      kernel_inv k' \<and> stacks_ok k' \<and> k_lists k' (DqGetWait q) = k_lists k (DqGetWait q) @ [c] \<and>
      t_stat (thr k' c) = RT_THREAD_SUSPEND \<and> (ThreadTimer c \<in> set (k_timer_list k') \<longleftrightarrow> time > 0)"
proof -
  have "stat_of_list (DqGetWait q) = RT_THREAD_SUSPEND" by simp
  from dq_block_effect[OF inv run this tm] dq_empty_iff[OF d] l show ?thesis
    by (auto simp: rt_data_queue_pop_def dq_pop_loop_def)
qed

section \<open>Reset\<close>

lemma exit_critical_wait_lists:
  assumes inv: "kernel_inv k" and cur: "k_current k = Some c" and r: "rt_exit_critical k = Some k'"
  shows "wait_lists_same k k'"
proof (cases "sint (k_lock_nest k - 1) \<le> 0")
  case True
  then have "rt_schedule (k\<lparr>k_lock_nest := 0\<rparr>) = Some k'" using r cur by (simp add: rt_exit_critical_def Let_def)
  then have "wait_lists_same (k\<lparr>k_lock_nest := 0\<rparr>) k'"
    using rt_schedule_wait_lists[of "k\<lparr>k_lock_nest := 0\<rparr>"] inv cur by simp
  then show ?thesis by (simp add: wait_lists_same_def)
next
  case False
  then show ?thesis using r by (auto simp: rt_exit_critical_def Let_def wait_lists_same_def)
qed

lemma dq_reset_effect:
  assumes inv: "kernel_inv k" "stacks_ok k" and cur: "k_current k = Some c"
  shows "\<exists>k'. rt_data_queue_reset q k = Some k' \<and> kernel_inv k' \<and> stacks_ok k' \<and>
    k_lists k' (DqGetWait q) = [] \<and> k_lists k' (DqPutWait q) = [] \<and>
    (\<forall>t \<in> set (k_lists k (DqGetWait q)) \<union> set (k_lists k (DqPutWait q)).
       t_error (thr k' t) = - RT_ERROR \<and> t_stat (thr k' t) \<in> {RT_THREAD_READY, RT_THREAD_RUNNING})"
proof -
  let ?k = "rt_enter_critical k"
  have i: "kernel_inv ?k" and s: "stacks_ok ?k" and cc: "k_current ?k = Some c"
    using inv cur by (auto simp: rt_enter_critical_def stacks_ok_def)
  have hs: "stat_of_list (DqGetWait q) = RT_THREAD_SUSPEND" "stat_of_list (DqPutWait q) = RT_THREAD_SUSPEND" by simp_all
  obtain k1 where k1: "rt_ipc_list_resume_all (DqGetWait q) ?k = Some k1" "kernel_inv k1" "k_lists k1 (DqGetWait q) = []"
    "\<forall>u \<in> set (k_lists k (DqGetWait q)). t_error (thr k1 u) = - RT_ERROR \<and> t_stat (thr k1 u) \<in> {RT_THREAD_READY, RT_THREAD_RUNNING}"
    "k_lists k1 (DqPutWait q) = k_lists k (DqPutWait q)" "k_current k1 = Some c"
    using resume_all_effect[OF i hs(1) refl] cc by (auto simp: rt_enter_critical_def)
  have s1: "stacks_ok k1" by (rule resume_all_stacks[OF i s hs(1) k1(1)])
  obtain k2 where k2: "rt_ipc_list_resume_all (DqPutWait q) k1 = Some k2" "kernel_inv k2" "k_lists k2 (DqPutWait q) = []"
    "\<forall>u \<in> set (k_lists k (DqPutWait q)). t_error (thr k2 u) = - RT_ERROR \<and> t_stat (thr k2 u) \<in> {RT_THREAD_READY, RT_THREAD_RUNNING}"
    "\<forall>u. u \<notin> set (k_lists k (DqPutWait q)) \<longrightarrow> thr k2 u = thr k1 u" "k_lists k2 (DqGetWait q) = []" "k_current k2 = Some c"
    using resume_all_effect[OF k1(2) hs(2) refl] k1(3,5,6) by auto
  have s2: "stacks_ok k2" by (rule resume_all_stacks[OF k1(2) s1 hs(2) k2(1)])
  have all: "\<forall>u \<in> set (k_lists k (DqGetWait q)) \<union> set (k_lists k (DqPutWait q)).
      t_error (thr k2 u) = - RT_ERROR \<and> t_stat (thr k2 u) \<in> {RT_THREAD_READY, RT_THREAD_RUNNING}"
    using k1(4) k2(4,5) by (metis Un_iff)
  obtain k3 c' where k3: "rt_exit_critical k2 = Some k3" "kernel_inv k3" "stacks_ok k3" "k_current k3 = Some c'"
    "\<forall>t. sched_rel (thr k2 t) (thr k3 t)" using exit_critical_effect[OF k2(2) s2 k2(7)] by blast
  note l3 = exit_critical_wait_lists[OF k2(2,7) k3(1)]
  obtain k4 where k4: "rt_schedule k3 = Some k4" "kernel_inv k4" "stacks_ok k4" "wait_lists_same k3 k4"
    "\<forall>t. sched_rel (thr k3 t) (thr k4 t)" using schedule_effect[OF k3(2-4)] by blast
  have "t_error (thr k4 u) = t_error (thr k2 u) \<and> (t_stat (thr k2 u) \<in> {RT_THREAD_READY, RT_THREAD_RUNNING} \<longrightarrow>
      t_stat (thr k4 u) \<in> {RT_THREAD_READY, RT_THREAD_RUNNING})" for u
    using k3(5)[rule_format, of u] k4(5)[rule_format, of u] by (auto simp: sched_rel_def)
  then have "\<forall>u \<in> set (k_lists k (DqGetWait q)) \<union> set (k_lists k (DqPutWait q)).
      t_error (thr k4 u) = - RT_ERROR \<and> t_stat (thr k4 u) \<in> {RT_THREAD_READY, RT_THREAD_RUNNING}"
    using all by metis
  moreover have "k_lists k4 (DqGetWait q) = []" "k_lists k4 (DqPutWait q) = []"
    using l3 k4(4) k2(3,6) hs by (simp_all add: wait_lists_same_def)
  moreover have "rt_data_queue_reset q k = Some k4"
    using k1(1) k2(1) k3(1) k4(1) by (simp add: rt_data_queue_reset_def)
  ultimately show ?thesis using k4(2,3) by blast
qed

section \<open>Properties\<close>

text \<open>C29. A data queue is a bounded first-in first-out queue, as long as its positions have not wrapped: a
  push appends the item and wakes the first thread that waits for one, or, with no room, fails at once
  or suspends the caller behind those already waiting; a pop takes the oldest item and, once no more
  than the low-water mark are left, wakes the first thread that waits for room, or, with no item, fails or
  suspends.\<close>

theorem data_queue_fifo:
  assumes inv: "kernel_inv k" "stacks_ok k" and run: "running_thread k c" and d: "dq_inv (dqs q)"
    and wrap: "unat (dq_put (dqs q)) < 2 ^ 16 - 1" and tm: "time < 2 ^ 31 - 1"
  shows "(if length (dq_items (dqs q)) < unat (dq_size (dqs q))
     then \<exists>k' dqs' ev. rt_data_queue_push q ptr n time k dqs = Some (k', dqs', Pushed RT_EOK ev) \<and> dq_inv (dqs' q) \<and>
       dq_items (dqs' q) = dq_items (dqs q) @ [\<lparr>data_ptr = ptr, data_size = n\<rparr>] \<and> woken_first (DqGetWait q) k k' \<and>
       ev = (if k_lists k (DqGetWait q) = [] then notified (dqs q) RT_DATAQUEUE_EVENT_PUSH else None)
     else if time = 0 then rt_data_queue_push q ptr n time k dqs = Some (k, dqs, Pushed (- RT_ETIMEOUT) None)
     else \<exists>k'. rt_data_queue_push q ptr n time k dqs = Some (k', dqs, Push_Blocked) \<and> dq_block (DqPutWait q) time k = Some k' \<and>
       kernel_inv k' \<and> stacks_ok k' \<and> k_lists k' (DqPutWait q) = k_lists k (DqPutWait q) @ [c] \<and>
       t_stat (thr k' c) = RT_THREAD_SUSPEND \<and> (ThreadTimer c \<in> set (k_timer_list k') \<longleftrightarrow> time > 0)) \<and>
   (case dq_items (dqs q) of
      x # xs \<Rightarrow> \<exists>k' dqs' ev. rt_data_queue_pop q time k dqs = Some (k', dqs', Popped RT_EOK (Some x) ev) \<and>
        dq_inv (dqs' q) \<and> dq_items (dqs' q) = xs \<and>
        (if length xs \<le> unat (dq_lwm (dqs q))
         then woken_first (DqPutWait q) k k' \<and> ev = notified (dqs q) RT_DATAQUEUE_EVENT_LWM
         else k' = k \<and> ev = notified (dqs q) RT_DATAQUEUE_EVENT_POP)
    | [] \<Rightarrow>
        if time = 0 then rt_data_queue_pop q time k dqs = Some (k, dqs, Popped (- RT_ETIMEOUT) None None)
        else \<exists>k'. rt_data_queue_pop q time k dqs = Some (k', dqs, Pop_Blocked) \<and> dq_block (DqGetWait q) time k = Some k' \<and>
          kernel_inv k' \<and> stacks_ok k' \<and> k_lists k' (DqGetWait q) = k_lists k (DqGetWait q) @ [c] \<and>
          t_stat (thr k' c) = RT_THREAD_SUSPEND \<and> (ThreadTimer c \<in> set (k_timer_list k') \<longleftrightarrow> time > 0))"
proof -
  have cur: "k_current k = Some c" using run by (simp add: running_thread_def)
  have le: "length (dq_items (dqs q)) \<le> unat (dq_size (dqs q))" using d by (simp add: dq_inv_def)
  show ?thesis
  proof (intro conjI, goal_cases)
    case 1
    show ?case
    proof (cases "length (dq_items (dqs q)) < unat (dq_size (dqs q))")
      case True
      then show ?thesis using dq_push_effect[where dqs = dqs and q = q, OF inv cur d True wrap] by simp
    next
      case False
      then have f: "length (dq_items (dqs q)) = unat (dq_size (dqs q))" using le by simp
      show ?thesis unfolding if_not_P[OF False] by (rule dq_push_full_effect[where dqs = dqs and q = q, OF inv run d f tm])
    qed
  next
    case 2
    show ?case
    proof (cases "dq_items (dqs q)")
      case Nil
      then show ?thesis using dq_pop_empty_effect[where dqs = dqs and q = q, OF inv run d Nil tm] by simp
    next
      case (Cons x xs)
      then show ?thesis using dq_pop_effect[where dqs = dqs and q = q, OF inv cur d Cons] by simp
    qed
  qed
qed

text \<open>A queue of two places holding one item.\<close>

definition sample_queues :: queues where
  "sample_queues = (\<lambda>_. \<lparr>dq_size = 2, dq_lwm = 1, dq_get = 0, dq_put = 1,
     dq_queue = [\<lparr>data_ptr = 0x20001000, data_size = 4\<rparr>, \<lparr>data_ptr = 0, data_size = 0\<rparr>], dq_notify = True\<rparr>)"

lemma sample_queue: "dq_inv (sample_queues 0)" "dq_items (sample_queues 0) = [\<lparr>data_ptr = 0x20001000, data_size = 4\<rparr>]"
  "unat (dq_put (sample_queues 0)) < 2 ^ 16 - 1" "unat (dq_size (sample_queues 0)) = 2"
  by (simp_all add: sample_queues_def dq_inv_def dq_items_def)

theorem data_queue_fifo_witness:
  "(\<exists>k' dqs' ev. rt_data_queue_push 0 0x20002000 8 5 sample sample_queues = Some (k', dqs', Pushed RT_EOK ev) \<and>
     length (dq_items (dqs' 0)) = 2) \<and>
   (\<exists>k' dqs' ev. rt_data_queue_pop 0 5 sample sample_queues =
     Some (k', dqs', Popped RT_EOK (Some \<lparr>data_ptr = 0x20001000, data_size = 4\<rparr>) ev) \<and> dq_items (dqs' 0) = [])"
proof -
  have tm: "(5 :: int) < 2 ^ 31 - 1" by simp
  note s = data_queue_fifo[where dqs = sample_queues and q = 0, OF sample_inv sample_stacks_ok sample_running sample_queue(1,3) tm,
      of "0x20002000" 8,
      unfolded sample_queue(2)]
  have "\<exists>k' dqs' ev. rt_data_queue_push 0 0x20002000 8 5 sample sample_queues = Some (k', dqs', Pushed RT_EOK ev) \<and>
      dq_items (dqs' 0) = [\<lparr>data_ptr = 0x20001000, data_size = 4\<rparr>] @ [\<lparr>data_ptr = 0x20002000, data_size = 8\<rparr>]"
    using s sample_queue(4) by auto
  moreover have "\<exists>k' dqs' ev. rt_data_queue_pop 0 5 sample sample_queues =
     Some (k', dqs', Popped RT_EOK (Some \<lparr>data_ptr = 0x20001000, data_size = 4\<rparr>) ev) \<and> dq_items (dqs' 0) = []"
    using s by auto
  ultimately show ?thesis by (metis append_Cons append_Nil length_Cons list.size(3) numeral_2_eq_2)
qed

text \<open>C32. The positions are 16 bits wide but are compared as \<^verbatim>\<open>int\<close>: once the write position has wrapped behind
  the read position, a full queue is not noticed. A push then succeeds although as many items are
  unread as the queue has places, and overwrites the oldest of them.\<close>

theorem data_queue_overruns:
  assumes wrapped: "unat (dq_put (dqs q)) < unat (dq_get (dqs q))"
    and full: "dq_put (dqs q) - dq_get (dqs q) = dq_size (dqs q)" and sz: "unat (dq_size (dqs q)) dvd 2 ^ 16"
    and len: "length (dq_queue (dqs q)) = unat (dq_size (dqs q))" and pop: "k_lists k (DqGetWait q) = []"
  shows "\<exists>dqs' ev. rt_data_queue_push q ptr n time k dqs = Some (k, dqs', Pushed RT_EOK ev) \<and>
    dq_get (dqs' q) = dq_get (dqs q) \<and> dq_front (dqs' q) = \<lparr>data_ptr = ptr, data_size = n\<rparr>"
proof -
  let ?d = "dqs q" and ?dqs = "upd_dq q (dq_store ptr n) dqs"
  let ?s = "unat (dq_size (dqs q))" and ?p = "unat (dq_put (dqs q))" and ?g = "unat (dq_get (dqs q))"
  have s0: "dq_size ?d \<noteq> 0" using full wrapped by auto
  have "uint (dq_put ?d) - uint (dq_get ?d) < 0" using wrapped unfolding uint_int_unat by linarith
  then have nf: "\<not> dq_full ?d" using uint_ge_0[of "dq_size ?d"] unfolding dq_full_def by linarith
  have "dq_put ?d = dq_size ?d + dq_get ?d" using full by (simp add: algebra_simps)
  then have "?p = (?s + ?g) mod 2 ^ 16" by (simp add: unat_word_ariths(1))
  then have "?p mod ?s = ?g mod ?s" using sz by (simp add: mod_mod_cancel)
  moreover have "0 < ?s" using s0 by (simp add: unat_gt_0)
  then have "?g mod ?s < length (dq_queue ?d)" using len by simp
  ultimately have "dq_front (?dqs q) = \<lparr>data_ptr = ptr, data_size = n\<rparr>"
    by (simp add: dq_front_def dq_store_def)
  moreover have "dq_get (?dqs q) = dq_get ?d" by (simp add: dq_store_def)
  moreover have "rt_data_queue_push q ptr n time k dqs = Some (k, ?dqs, Pushed RT_EOK (notified (?dqs q) RT_DATAQUEUE_EVENT_PUSH))"
    using nf s0 pop by (simp add: rt_data_queue_push_def dq_push_loop_def rt_assert_def Let_def)
  ultimately show ?thesis by blast
qed

definition wrapped_queues :: queues where
  "wrapped_queues = (\<lambda>q. (sample_queues q)\<lparr>dq_get := 0xFFFF, dq_put := 1\<rparr>)"

theorem data_queue_overruns_witness:
  "\<exists>dqs' ev. rt_data_queue_push 0 0x20002000 8 0 sample wrapped_queues = Some (sample, dqs', Pushed RT_EOK ev) \<and>
    dq_front (dqs' 0) = \<lparr>data_ptr = 0x20002000, data_size = 8\<rparr>"
  using data_queue_overruns[of wrapped_queues 0 sample "0x20002000" 8 0]
  by (simp add: wrapped_queues_def sample_queues_def sample_lists_def) blast

end
