(* ===== verification/WaitQueue.thy ===== *)
theory WaitQueue
  imports Direct_Wait
begin

text \<open>
  The wait queues of \<^verbatim>\<open>components/drivers/src/waitqueue.c\<close>: a flag that remembers a wake-up and a list of
  nodes. A node names the waiting thread and a function that says whether a wake-up with some key is for
  it (0: yes); the thread itself is suspended without being linked anywhere. Nodes are numbered; their
  functions are a parameter that only answers.
\<close>

section \<open>Operations\<close>

definition RT_WQ_FLAG_CLEAN :: nat where "RT_WQ_FLAG_CLEAN = 0"
definition RT_WQ_FLAG_WAKEUP :: nat where "RT_WQ_FLAG_WAKEUP = 1"

record rt_wqueue_node =
  wn_thread :: nat
  wn_key :: nat
  wn_wakeup :: "nat \<Rightarrow> nat \<Rightarrow> int"

record rt_wqueue =
  wq_flag :: nat
  wq_list :: "nat list"

record wqueues =
  wq_tab :: "nat \<Rightarrow> rt_wqueue"
  wq_node :: "nat \<Rightarrow> rt_wqueue_node"

definition upd_wq :: "nat \<Rightarrow> (rt_wqueue \<Rightarrow> rt_wqueue) \<Rightarrow> wqueues \<Rightarrow> wqueues" where
  "upd_wq q f ws = ws\<lparr>wq_tab := (wq_tab ws)(q := f (wq_tab ws q))\<rparr>"

definition rt_wqueue_init :: "nat \<Rightarrow> wqueues \<Rightarrow> wqueues" where
  "rt_wqueue_init q ws = upd_wq q (\<lambda>_. \<lparr>wq_flag = RT_WQ_FLAG_CLEAN, wq_list = []\<rparr>) ws"

definition rt_wqueue_add :: "nat \<Rightarrow> nat \<Rightarrow> wqueues \<Rightarrow> wqueues" where
  "rt_wqueue_add q n ws = upd_wq q (\<lambda>w. w\<lparr>wq_list := wq_list w @ [n]\<rparr>) ws"

text \<open>A node is unlinked from whatever list it is on.\<close>

definition rt_wqueue_remove :: "nat \<Rightarrow> wqueues \<Rightarrow> wqueues" where
  "rt_wqueue_remove n ws = ws\<lparr>wq_tab := (\<lambda>q. (wq_tab ws q)\<lparr>wq_list := remove1 n (wq_list (wq_tab ws q))\<rparr>)\<rparr>"

definition wqueue_default_wake :: "nat \<Rightarrow> nat \<Rightarrow> int" where
  "wqueue_default_wake wait key = 0"

fun wq_scan :: "(nat \<Rightarrow> rt_wqueue_node) \<Rightarrow> nat \<Rightarrow> nat list \<Rightarrow> nat option" where
  "wq_scan nd key [] = None"
| "wq_scan nd key (n # ns) = (if wn_wakeup (nd n) n key = 0 then Some n else wq_scan nd key ns)"

definition rt_wqueue_wakeup :: "nat \<Rightarrow> nat \<Rightarrow> kernel \<Rightarrow> wqueues \<Rightarrow> (kernel \<times> wqueues) option" where
  "rt_wqueue_wakeup q key k ws =
     (let ws = upd_wq q (\<lambda>w. w\<lparr>wq_flag := RT_WQ_FLAG_WAKEUP\<rparr>) ws in
      (case wq_scan (wq_node ws) key (wq_list (wq_tab ws q)) of
         None \<Rightarrow> Some (k, ws)
       | Some n \<Rightarrow> do {
           (k, _) \<leftarrow> rt_thread_resume (wn_thread (wq_node ws n)) k;
           let ws = rt_wqueue_remove n ws;
           k \<leftarrow> rt_schedule k;
           Some (k, ws) }))"

datatype wq_answer = Wq_Done int | Wq_Blocked

text \<open>\<open>n\<close> is the node on the caller's stack.\<close>

definition rt_wqueue_wait ::
  "nat \<Rightarrow> int \<Rightarrow> int \<Rightarrow> nat \<Rightarrow> kernel \<Rightarrow> wqueues \<Rightarrow> (kernel \<times> wqueues \<times> wq_answer) option" where
  "rt_wqueue_wait q condition msec n k ws = do {
     rt_debug_not_in_interrupt k;
     let tick = sint (rt_tick_from_millisecond RT_TICK_PER_SECOND msec);
     if condition \<noteq> 0 \<or> tick = 0 then Some (k, ws, Wq_Done 0)
     else do {
       t \<leftarrow> rt_thread_self k;
       let ws = ws\<lparr>wq_node := (wq_node ws)(n := \<lparr>wn_thread = t, wn_key = 0, wn_wakeup = wqueue_default_wake\<rparr>)\<rparr>;
       if wq_flag (wq_tab ws q) = RT_WQ_FLAG_WAKEUP
       then Some (k, rt_wqueue_remove n (upd_wq q (\<lambda>w. w\<lparr>wq_flag := 0\<rparr>) ws), Wq_Done 0)
       else do {
         let ws = rt_wqueue_add q n ws;
         (k, _) \<leftarrow> rt_thread_suspend t k;
         k \<leftarrow> (if tick \<noteq> - 1 then do {
                 (k, _) \<leftarrow> rt_timer_control (ThreadTimer t) RT_TIMER_CTRL_SET_TIME (word_of_int tick) k;
                 rt_timer_start (ThreadTimer t) k }
               else Some k);
         k \<leftarrow> rt_schedule k;
         Some (k, ws, Wq_Blocked) } } }"

definition rt_wqueue_wait_resume :: "nat \<Rightarrow> nat \<Rightarrow> wqueues \<Rightarrow> wqueues \<times> int" where
  "rt_wqueue_wait_resume q n ws = (rt_wqueue_remove n (upd_wq q (\<lambda>w. w\<lparr>wq_flag := 0\<rparr>) ws), 0)"

section \<open>Waking\<close>

lemma upd_wq_same [simp]: "wq_tab (upd_wq q f ws) q = f (wq_tab ws q)" "wq_node (upd_wq q f ws) = wq_node ws"
  by (simp_all add: upd_wq_def)

lemma wqueue_remove_sel [simp]:
  "wq_flag (wq_tab (rt_wqueue_remove n ws) q) = wq_flag (wq_tab ws q)"
  "wq_list (wq_tab (rt_wqueue_remove n ws) q) = remove1 n (wq_list (wq_tab ws q))"
  "wq_node (rt_wqueue_remove n ws) = wq_node ws"
  by (simp_all add: rt_wqueue_remove_def)

lemma wq_scan_Some:
  "wq_scan nd key ns = Some n \<Longrightarrow>
    \<exists>as bs. ns = as @ n # bs \<and> wn_wakeup (nd n) n key = 0 \<and> (\<forall>m \<in> set as. wn_wakeup (nd m) m key \<noteq> 0)"
proof (induction ns)
  case (Cons m ns)
  show ?case
  proof (cases "wn_wakeup (nd m) m key = 0")
    case True
    then show ?thesis using Cons.prems by (intro exI[of _ "[]"] exI[of _ ns]) simp
  next
    case False
    then obtain as bs where "ns = as @ n # bs" "wn_wakeup (nd n) n key = 0" "\<forall>m \<in> set as. wn_wakeup (nd m) m key \<noteq> 0"
      using Cons by auto
    then show ?thesis using False by (intro exI[of _ "m # as"] exI[of _ bs]) simp
  qed
qed simp

lemma wq_scan_None: "wq_scan nd key ns = None \<longleftrightarrow> (\<forall>n \<in> set ns. wn_wakeup (nd n) n key \<noteq> 0)"
  by (induction ns) auto

text \<open>The waiters of a queue are suspended, or have timed out and not run since.\<close>

definition wqueue_ok :: "nat \<Rightarrow> kernel \<Rightarrow> wqueues \<Rightarrow> bool" where
  "wqueue_ok q k ws \<longleftrightarrow> distinct (wq_list (wq_tab ws q)) \<and>
     (\<forall>n \<in> set (wq_list (wq_tab ws q)). t_stat (thr k (wn_thread (wq_node ws n))) = RT_THREAD_SUSPEND \<or>
        woken (t_stat (thr k (wn_thread (wq_node ws n)))))"

lemma resume_not_suspended:
  assumes "kernel_inv k" "woken (t_stat (thr k t))"
  shows "rt_thread_resume t k = Some (k, - RT_ERROR)"
proof -
  have "o_type (k_objects k (OThread t)) = RT_Object_Class_Thread"
    using kernel_invD(5)[OF assms(1), of t] assms(2) by (auto simp: thread_timer_inv_def live_stat_def woken_def)
  then show ?thesis using assms(2) by (auto simp: rt_thread_resume_def rt_object_get_type_def rt_assert_def woken_def)
qed

lemma wqueue_wakeup_effect:
  assumes inv: "kernel_inv k" "stacks_ok k" and cur: "k_current k = Some c" and ok: "wqueue_ok q k ws"
  shows "\<exists>k' ws'. rt_wqueue_wakeup q key k ws = Some (k', ws') \<and> kernel_inv k' \<and> stacks_ok k' \<and>
    wq_flag (wq_tab ws' q) = RT_WQ_FLAG_WAKEUP \<and>
    (case wq_scan (wq_node ws) key (wq_list (wq_tab ws q)) of
       None \<Rightarrow> k' = k \<and> wq_list (wq_tab ws' q) = wq_list (wq_tab ws q)
     | Some n \<Rightarrow> wq_list (wq_tab ws' q) = remove1 n (wq_list (wq_tab ws q)) \<and>
         woken (t_stat (thr k' (wn_thread (wq_node ws n)))) \<and>
         (\<forall>u. u \<noteq> wn_thread (wq_node ws n) \<longrightarrow> sched_rel (thr k u) (thr k' u)))"
proof (cases "wq_scan (wq_node ws) key (wq_list (wq_tab ws q))")
  case None
  then show ?thesis using inv by (simp add: rt_wqueue_wakeup_def Let_def)
next
  case (Some n)
  let ?t = "wn_thread (wq_node ws n)" and ?ws = "rt_wqueue_remove n (upd_wq q (\<lambda>w. w\<lparr>wq_flag := RT_WQ_FLAG_WAKEUP\<rparr>) ws)"
  have "n \<in> set (wq_list (wq_tab ws q))" using wq_scan_Some[OF Some] by auto
  then consider (susp) "t_stat (thr k ?t) = RT_THREAD_SUSPEND" | (late) "woken (t_stat (thr k ?t))"
    using ok by (auto simp: wqueue_ok_def)
  then show ?thesis
  proof cases
    case susp
    obtain k1 k2 where r: "rt_thread_resume ?t k = Some (k1, RT_EOK)" "rt_schedule k1 = Some k2" "kernel_inv k2"
      "stacks_ok k2" "woken (t_stat (thr k2 ?t))" "\<forall>u. u \<noteq> ?t \<longrightarrow> sched_rel (thr k u) (thr k2 u)"
      using resume_schedule_effect[OF inv cur susp] by blast
    then have "rt_wqueue_wakeup q key k ws = Some (k2, ?ws)" using Some by (simp add: rt_wqueue_wakeup_def Let_def)
    then show ?thesis using Some r(3-6) by simp
  next
    case late
    obtain k2 where r: "rt_schedule k = Some k2" "kernel_inv k2" "stacks_ok k2" "\<forall>u. sched_rel (thr k u) (thr k2 u)"
      using schedule_effect[OF inv cur] by blast
    have "rt_wqueue_wakeup q key k ws = Some (k2, ?ws)"
      using Some r(1) resume_not_suspended[OF inv(1) late] by (simp add: rt_wqueue_wakeup_def Let_def)
    moreover have "woken (t_stat (thr k2 ?t))" using r(4)[rule_format, of ?t] late by (auto simp: sched_rel_def woken_def)
    ultimately show ?thesis using Some r by simp
  qed
qed

section \<open>Waiting\<close>

lemma tick_of_msec:
  assumes "- (2 ^ 31) \<le> msec" "msec < 2 ^ 31"
  shows "sint (rt_tick_from_millisecond RT_TICK_PER_SECOND msec) = (if msec < 0 then - 1 else msec)"
proof (cases "msec < 0")
  case False
  have "(1000 * (msec mod 1000) + 999) div 1000 = msec mod 1000" by linarith
  then have "rt_tick_from_millisecond RT_TICK_PER_SECOND msec =
      word_of_int (1000 * (msec div 1000)) + word_of_int (msec mod 1000)"
    using False by (simp only: rt_tick_from_millisecond_def RT_TICK_PER_SECOND_def if_False)
  also have "\<dots> = word_of_int msec" by (simp only: wi_hom_add mult_div_mod_eq)
  finally show ?thesis using False assms by (simp add: signed_of_int signed_take_bit_int_eq_self_iff)
qed (simp add: rt_tick_from_millisecond_def)

lemma waiter_stat_kept:
  "sched_rel a b \<Longrightarrow> t_stat a = RT_THREAD_SUSPEND \<or> woken (t_stat a) \<Longrightarrow> t_stat b = RT_THREAD_SUSPEND \<or> woken (t_stat b)"
  by (auto simp: sched_rel_def woken_def)

lemma wqueue_wait_effect:
  assumes inv: "kernel_inv k" "stacks_ok k" and run: "running_thread k c" and ok: "wqueue_ok q k ws"
    and n: "\<forall>q. n \<notin> set (wq_list (wq_tab ws q))" and tm: "- (2 ^ 31) \<le> msec" "msec < 2 ^ 31 - 1"
  shows "\<exists>k' ws' r. rt_wqueue_wait q condition msec n k ws = Some (k', ws', r) \<and> kernel_inv k' \<and> stacks_ok k' \<and>
    wqueue_ok q k' ws' \<and>
    (if condition \<noteq> 0 \<or> msec = 0 then r = Wq_Done 0 \<and> k' = k \<and> ws' = ws
     else if wq_flag (wq_tab ws q) = RT_WQ_FLAG_WAKEUP
     then r = Wq_Done 0 \<and> k' = k \<and> wq_flag (wq_tab ws' q) = 0 \<and> wq_list (wq_tab ws' q) = wq_list (wq_tab ws q)
     else r = Wq_Blocked \<and> wq_list (wq_tab ws' q) = wq_list (wq_tab ws q) @ [n] \<and> wn_thread (wq_node ws' n) = c \<and>
       t_stat (thr k' c) = RT_THREAD_SUSPEND \<and> k_current k' \<noteq> None \<and>
       (ThreadTimer c \<in> set (k_timer_list k') \<longleftrightarrow> msec > 0) \<and>
       (msec > 0 \<longrightarrow> due k' (ThreadTimer c) = k_tick k + word_of_int msec))"
proof -
  let ?tick = "sint (rt_tick_from_millisecond RT_TICK_PER_SECOND msec)"
  have run': "k_current k = Some c" "t_stat (thr k c) = RT_THREAD_RUNNING" "k_interrupt_nest k = 0"
    using run by (simp_all add: running_thread_def)
  have tick: "?tick = (if msec < 0 then - 1 else msec)" by (rule tick_of_msec) (use tm in auto)
  let ?ws = "ws\<lparr>wq_node := (wq_node ws)(n := \<lparr>wn_thread = c, wn_key = 0, wn_wakeup = wqueue_default_wake\<rparr>)\<rparr>"
  have other: "wq_node ?ws m = wq_node ws m" if "m \<in> set (wq_list (wq_tab ws q))" for m using n that by auto
  have n0: "remove1 n (wq_list (wq_tab ws p)) = wq_list (wq_tab ws p)" for p using n by (simp add: remove1_idem)
  have dbg: "rt_debug_not_in_interrupt k = Some ()" using run'(3)
    by (simp add: rt_debug_not_in_interrupt_def rt_interrupt_get_nest_def rt_assert_def)
  consider (skip) "condition \<noteq> 0 \<or> msec = 0" | (flag) "condition = 0" "msec \<noteq> 0" "wq_flag (wq_tab ws q) = RT_WQ_FLAG_WAKEUP"
    | (block) "condition = 0" "msec \<noteq> 0" "wq_flag (wq_tab ws q) \<noteq> RT_WQ_FLAG_WAKEUP" by blast
  then show ?thesis
  proof cases
    case skip
    then show ?thesis using dbg tick inv ok by (simp add: rt_wqueue_wait_def Let_def)
  next
    case flag
    let ?ws' = "rt_wqueue_remove n (upd_wq q (\<lambda>w. w\<lparr>wq_flag := 0\<rparr>) ?ws)"
    have "rt_wqueue_wait q condition msec n k ws = Some (k, ?ws', Wq_Done 0)"
      using flag dbg tick run'(1) by (simp add: rt_wqueue_wait_def Let_def rt_thread_self_def)
    moreover have "wqueue_ok q k ?ws'" using ok n0 other by (simp add: wqueue_ok_def)
    ultimately show ?thesis using flag inv n0 by simp
  next
    case block
    obtain k1 where k1: "rt_thread_suspend c k = Some (k1, RT_EOK)" using suspend_enabled[OF inv(1)] run'(2) by blast
    note e = suspend_effect[OF inv(1) k1]
    have f: "kernel_inv k1" "wait_frame c k k1" "ThreadTimer c \<notin> set (k_timer_list k1)"
      using kernel_inv_suspend[OF inv(1) k1] e by (simp_all add: wait_frame_def)
    have t31: "?tick < 2 ^ 31 - 1" using tick tm by simp
    obtain k2 k3 where b: "arm_timer c ?tick k1 = Some k2" "rt_schedule k2 = Some k3" "kernel_inv k3" "stacks_ok k3"
      "k_current k3 \<noteq> None" "thr k3 c = (thr k c)\<lparr>t_stat := RT_THREAD_SUSPEND\<rparr>"
      "\<forall>u. u \<noteq> c \<longrightarrow> sched_rel (thr k u) (thr k3 u)"
      "?tick > 0 \<longrightarrow> ThreadTimer c \<in> set (k_timer_list k3) \<and> due k3 (ThreadTimer c) = k_tick k + word_of_int ?tick"
      "?tick \<le> 0 \<longrightarrow> ThreadTimer c \<notin> set (k_timer_list k3)"
      using arm_schedule_effect[OF inv(2) run'(1,2) t31 f] by blast
    have arm: "(if ?tick \<noteq> - 1 then do {
                 (k, _) \<leftarrow> rt_timer_control (ThreadTimer c) RT_TIMER_CTRL_SET_TIME (word_of_int ?tick) k1;
                 rt_timer_start (ThreadTimer c) k }
               else Some k1) = Some k2"
      using b(1) tick block(2) by (simp add: arm_timer_def split: if_splits)
    have "rt_wqueue_wait q condition msec n k ws = Some (k3, rt_wqueue_add q n ?ws, Wq_Blocked)"
      unfolding rt_wqueue_wait_def Let_def dbg using block tick run'(1) k1 arm b(2)
      by (simp add: rt_thread_self_def)
    moreover have "wqueue_ok q k3 (rt_wqueue_add q n ?ws)"
    proof -
      have "t_stat (thr k3 (wn_thread (wq_node ws m))) = RT_THREAD_SUSPEND \<or> woken (t_stat (thr k3 (wn_thread (wq_node ws m))))"
        if "m \<in> set (wq_list (wq_tab ws q))" for m
      proof (cases "wn_thread (wq_node ws m) = c")
        case False
        then show ?thesis using b(7) ok that waiter_stat_kept by (metis wqueue_ok_def)
      qed (use b(6) in simp)
      then show ?thesis using ok n b(6) by (auto simp: wqueue_ok_def rt_wqueue_add_def)
    qed
    moreover have "ThreadTimer c \<in> set (k_timer_list k3) \<longleftrightarrow> msec > 0" using b(8,9) tick by (auto split: if_splits)
    ultimately show ?thesis using block b tick by (auto simp: rt_wqueue_add_def)
  qed
qed

section \<open>Properties\<close>


definition sample_wqueues :: wqueues where
  "sample_wqueues = \<lparr>wq_tab = (\<lambda>_. \<lparr>wq_flag = RT_WQ_FLAG_CLEAN, wq_list = []\<rparr>),
     wq_node = (\<lambda>_. \<lparr>wn_thread = 0, wn_key = 0, wn_wakeup = wqueue_default_wake\<rparr>)\<rparr>"


text \<open>A thread whose time is over stays on the queue until it runs. A wake-up before that goes to it and wakes
  nobody: the next waiter keeps waiting.\<close>

lemma wakeup_spent_on_timed_out:
  assumes inv: "kernel_inv k" "stacks_ok k" and cur: "k_current k = Some c" and ok: "wqueue_ok q k ws"
    and l: "wq_list (wq_tab ws q) = n # m # ns" and key: "wn_wakeup (wq_node ws n) n key = 0"
    and late: "woken (t_stat (thr k (wn_thread (wq_node ws n))))"
    and susp: "t_stat (thr k (wn_thread (wq_node ws m))) = RT_THREAD_SUSPEND"
  shows "\<exists>k' ws'. rt_wqueue_wakeup q key k ws = Some (k', ws') \<and>
    t_stat (thr k' (wn_thread (wq_node ws m))) = RT_THREAD_SUSPEND \<and> wq_list (wq_tab ws' q) = m # ns"
proof -
  have s: "wq_scan (wq_node ws) key (wq_list (wq_tab ws q)) = Some n" using l key by simp
  have ne: "wn_thread (wq_node ws m) \<noteq> wn_thread (wq_node ws n)" using late susp by (auto simp: woken_def)
  obtain k' ws' where w: "rt_wqueue_wakeup q key k ws = Some (k', ws')"
    "wq_list (wq_tab ws' q) = remove1 n (wq_list (wq_tab ws q))"
    "\<forall>u. u \<noteq> wn_thread (wq_node ws n) \<longrightarrow> sched_rel (thr k u) (thr k' u)"
    using wqueue_wakeup_effect[OF inv cur ok, of key] s by auto
  have "t_stat (thr k' (wn_thread (wq_node ws m))) = RT_THREAD_SUSPEND"
    using w(3)[rule_format, OF ne] susp by (auto simp: sched_rel_def)
  then show ?thesis using w(1,2) l by (intro exI[of _ k'] exI[of _ ws']) simp
qed

end
