(* ===== verification/Kservice_Mem.thy ===== *)
theory Kservice_Mem
  imports Kernel_Prelude
begin

text \<open>
  The memory functions of \<^verbatim>\<open>src/kservice.c\<close>, which move whole words where they can, and that they
  do the same as filling, copying and comparing byte by byte. Memory is a map from addresses to
  bytes; an access outside it has no result. A word has four bytes, the lowest first.
\<close>

section \<open>Operations\<close>

type_synonym memory = "nat \<Rightarrow> u8 option"

definition store8 :: "nat \<Rightarrow> u8 \<Rightarrow> memory \<Rightarrow> memory option" where
  "store8 a v m = (if m a = None then None else Some (m(a \<mapsto> v)))"

definition load32 :: "nat \<Rightarrow> memory \<Rightarrow> u32 option" where
  "load32 a m = do {
     b0 \<leftarrow> m a; b1 \<leftarrow> m (a + 1); b2 \<leftarrow> m (a + 2); b3 \<leftarrow> m (a + 3);
     Some (ucast b0 OR push_bit 8 (ucast b1) OR push_bit 16 (ucast b2) OR push_bit 24 (ucast b3)) }"

definition store32 :: "nat \<Rightarrow> u32 \<Rightarrow> memory \<Rightarrow> memory option" where
  "store32 a w m = do {
     m \<leftarrow> store8 a (ucast w) m;
     m \<leftarrow> store8 (a + 1) (ucast (drop_bit 8 w)) m;
     m \<leftarrow> store8 (a + 2) (ucast (drop_bit 16 w)) m;
     store8 (a + 3) (ucast (drop_bit 24 w)) m }"

fun set_bytes :: "u8 \<Rightarrow> nat \<Rightarrow> nat \<Rightarrow> memory \<Rightarrow> memory option" where
  "set_bytes d 0 a m = Some m"
| "set_bytes d (Suc n) a m = do { m \<leftarrow> store8 a d m; set_bytes d n (a + 1) m }"

fun set_words :: "u32 \<Rightarrow> nat \<Rightarrow> nat \<Rightarrow> memory \<Rightarrow> (nat \<times> nat \<times> memory) option" where
  "set_words w n a m =
     (if n < 4 then Some (n, a, m) else do { m \<leftarrow> store32 a w m; set_words w (n - 4) (a + 4) m })"

fun set_blocks :: "u32 \<Rightarrow> nat \<Rightarrow> nat \<Rightarrow> memory \<Rightarrow> (nat \<times> nat \<times> memory) option" where
  "set_blocks w n a m =
     (if n < 16 then Some (n, a, m)
      else do {
        m \<leftarrow> store32 a w m; m \<leftarrow> store32 (a + 4) w m; m \<leftarrow> store32 (a + 8) w m; m \<leftarrow> store32 (a + 12) w m;
        set_blocks w (n - 16) (a + 16) m })"

definition rt_memset :: "nat \<Rightarrow> int \<Rightarrow> nat \<Rightarrow> memory \<Rightarrow> memory option" where
  "rt_memset s c count m =
     (let d = (word_of_int c :: u32) AND 0xff in
      if 4 \<le> count \<and> s mod 4 = 0 then
        let buffer = push_bit 8 d OR d; buffer = buffer OR push_bit 16 buffer in do {
          (count, a, m) \<leftarrow> set_blocks buffer count s m;
          (count, a, m) \<leftarrow> set_words buffer count a m;
          set_bytes (ucast d) count a m }
      else set_bytes (ucast d) count s m)"

definition copy32 :: "nat \<Rightarrow> nat \<Rightarrow> memory \<Rightarrow> memory option" where
  "copy32 d s m = do { w \<leftarrow> load32 s m; store32 d w m }"

fun copy_bytes :: "nat \<Rightarrow> nat \<Rightarrow> nat \<Rightarrow> memory \<Rightarrow> memory option" where
  "copy_bytes 0 d s m = Some m"
| "copy_bytes (Suc n) d s m = do { b \<leftarrow> m s; m \<leftarrow> store8 d b m; copy_bytes n (d + 1) (s + 1) m }"

fun copy_words :: "nat \<Rightarrow> nat \<Rightarrow> nat \<Rightarrow> memory \<Rightarrow> (nat \<times> nat \<times> nat \<times> memory) option" where
  "copy_words n d s m =
     (if n < 4 then Some (n, d, s, m) else do { m \<leftarrow> copy32 d s m; copy_words (n - 4) (d + 4) (s + 4) m })"

fun copy_blocks :: "nat \<Rightarrow> nat \<Rightarrow> nat \<Rightarrow> memory \<Rightarrow> (nat \<times> nat \<times> nat \<times> memory) option" where
  "copy_blocks n d s m =
     (if n < 16 then Some (n, d, s, m)
      else do {
        m \<leftarrow> copy32 d s m; m \<leftarrow> copy32 (d + 4) (s + 4) m; m \<leftarrow> copy32 (d + 8) (s + 8) m; m \<leftarrow> copy32 (d + 12) (s + 12) m;
        copy_blocks (n - 16) (d + 16) (s + 16) m })"

definition rt_memcpy :: "nat \<Rightarrow> nat \<Rightarrow> nat \<Rightarrow> memory \<Rightarrow> memory option" where
  "rt_memcpy dst src count m =
     (if 16 \<le> count \<and> src mod 4 = 0 \<and> dst mod 4 = 0 then do {
        (n, d, s, m) \<leftarrow> copy_blocks count dst src m;
        (n, d, s, m) \<leftarrow> copy_words n d s m;
        copy_bytes n d s m }
      else copy_bytes count dst src m)"

text \<open>Both pointers start behind the last byte.\<close>

fun copy_down :: "nat \<Rightarrow> nat \<Rightarrow> nat \<Rightarrow> memory \<Rightarrow> memory option" where
  "copy_down 0 d s m = Some m"
| "copy_down (Suc n) d s m = do { b \<leftarrow> m (s - 1); m \<leftarrow> store8 (d - 1) b m; copy_down n (d - 1) (s - 1) m }"

definition rt_memmove :: "nat \<Rightarrow> nat \<Rightarrow> nat \<Rightarrow> memory \<Rightarrow> memory option" where
  "rt_memmove dest src n m =
     (if src < dest \<and> dest < src + n then copy_down n (dest + n) (src + n) m else copy_bytes n dest src m)"

fun rt_memcmp :: "nat \<Rightarrow> nat \<Rightarrow> nat \<Rightarrow> memory \<Rightarrow> int option" where
  "rt_memcmp cs ct 0 m = Some 0"
| "rt_memcmp cs ct (Suc n) m = do {
     x \<leftarrow> m cs; y \<leftarrow> m ct;
     let res = uint x - uint y;
     if res \<noteq> 0 then Some res else rt_memcmp (cs + 1) (ct + 1) n m }"

section \<open>The reference: bytes\<close>

definition mapped :: "nat \<Rightarrow> nat \<Rightarrow> memory \<Rightarrow> bool" where
  "mapped a n m \<longleftrightarrow> (\<forall>x. a \<le> x \<longrightarrow> x < a + n \<longrightarrow> m x \<noteq> None)"

definition filled :: "nat \<Rightarrow> nat \<Rightarrow> u8 \<Rightarrow> memory \<Rightarrow> memory" where
  "filled a n d m = (\<lambda>x. if a \<le> x \<and> x < a + n then Some d else m x)"

definition copied :: "nat \<Rightarrow> nat \<Rightarrow> nat \<Rightarrow> memory \<Rightarrow> memory" where
  "copied d s n m = (\<lambda>x. if d \<le> x \<and> x < d + n then m (s + (x - d)) else m x)"

definition bytes_at :: "nat \<Rightarrow> u8 list \<Rightarrow> memory \<Rightarrow> bool" where
  "bytes_at a xs m \<longleftrightarrow> (\<forall>i < length xs. m (a + i) = Some (xs ! i))"

lemma filled_0 [simp]: "filled a 0 d m = m"
  by (rule ext) (auto simp: filled_def)

lemma copied_0 [simp]: "copied d s 0 m = m"
  by (rule ext) (auto simp: copied_def)

lemma filled_filled: "filled (a + k) n d (filled a k d m) = filled a (k + n) d m"
  by (auto simp: filled_def)

lemma mapped_filled: "mapped b k m \<Longrightarrow> mapped b k (filled a n d m)"
  by (auto simp: mapped_def filled_def)

lemma mapped_sub: "mapped a n m \<Longrightarrow> a \<le> b \<Longrightarrow> b + k \<le> a + n \<Longrightarrow> mapped b k m"
  by (auto simp: mapped_def)

lemma mapped_copied: "mapped b k m \<Longrightarrow> mapped s n m \<Longrightarrow> mapped b k (copied d s n m)"
  by (auto simp: mapped_def copied_def)

text \<open>A forward copy is right unless the destination starts inside the source.\<close>

definition forward_ok :: "nat \<Rightarrow> nat \<Rightarrow> nat \<Rightarrow> bool" where
  "forward_ok d s n \<longleftrightarrow> d \<le> s \<or> s + n \<le> d"

lemma copied_copied:
  assumes "forward_ok d s (k + n)"
  shows "copied (d + k) (s + k) n (copied d s k m) = copied d s (k + n) m"
  using assms by (auto simp: copied_def forward_ok_def fun_eq_iff)

lemma forward_ok_rest: "forward_ok d s (k + n) \<Longrightarrow> forward_ok (d + k) (s + k) n"
  by (auto simp: forward_ok_def)

lemma forward_ok_first: "forward_ok d s (k + n) \<Longrightarrow> forward_ok d s k"
  by (auto simp: forward_ok_def)

section \<open>Words are four bytes\<close>

lemma store8_filled: "mapped a 1 m \<Longrightarrow> store8 a d m = Some (filled a 1 d m)"
  by (auto simp: store8_def mapped_def filled_def fun_eq_iff)

lemma store32_eq:
  assumes "mapped a 4 m"
  shows "store32 a w m = Some (m(a \<mapsto> ucast w, a + 1 \<mapsto> ucast (drop_bit 8 w), a + 2 \<mapsto> ucast (drop_bit 16 w),
    a + 3 \<mapsto> ucast (drop_bit 24 w)))"
proof -
  have "m a \<noteq> None" "m (a + 1) \<noteq> None" "m (a + 2) \<noteq> None" "m (a + 3) \<noteq> None"
    using assms by (simp_all add: mapped_def)
  then show ?thesis by (simp add: store32_def store8_def)
qed

lemma no_bit: "\<not> bit (b :: u8) (8 + n)" "\<not> bit (b :: u8) (16 + n)" "\<not> bit (b :: u8) (24 + n)"
  by (auto dest: bit_imp_le_length)

lemma word_bytes:
  fixes b0 b1 b2 b3 :: u8
  defines "w \<equiv> (ucast b0 OR push_bit 8 (ucast b1) OR push_bit 16 (ucast b2) OR push_bit 24 (ucast b3) :: u32)"
  shows "ucast w = b0" "ucast (drop_bit 8 w) = b1" "ucast (drop_bit 16 w) = b2" "ucast (drop_bit 24 w) = b3"
  unfolding w_def by (auto intro!: bit_word_eqI simp: bit_simps no_bit)

lemma spread_bytes:
  fixes c :: int
  defines "d \<equiv> (word_of_int c :: u32) AND 0xff"
  defines "b \<equiv> push_bit 8 d OR d"
  defines "w \<equiv> b OR push_bit 16 b"
  shows "(ucast w :: u8) = word_of_int c" "(ucast (drop_bit 8 w) :: u8) = word_of_int c"
    "(ucast (drop_bit 16 w) :: u8) = word_of_int c" "(ucast (drop_bit 24 w) :: u8) = word_of_int c"
    "(ucast d :: u8) = word_of_int c"
proof -
  have d: "d = ucast (word_of_int c :: u8)"
  proof (rule bit_word_eqI)
    fix n assume "n < LENGTH(32)"
    have m: "(0xff :: u32) = mask 8" by (simp add: mask_eq_exp_minus_1)
    show "bit d n = bit (ucast (word_of_int c :: u8) :: u32) n"
      using \<open>n < LENGTH(32)\<close> unfolding d_def m by (auto simp: bit_simps)
  qed
  show "(ucast d :: u8) = word_of_int c" unfolding d by (auto intro!: bit_word_eqI simp: bit_simps)
  show "(ucast w :: u8) = word_of_int c" "(ucast (drop_bit 8 w) :: u8) = word_of_int c"
    "(ucast (drop_bit 16 w) :: u8) = word_of_int c" "(ucast (drop_bit 24 w) :: u8) = word_of_int c"
    unfolding w_def b_def d by (auto intro!: bit_word_eqI simp: bit_simps no_bit)
qed

lemma copy32_copied:
  assumes "mapped d 4 m" "mapped s 4 m"
  shows "copy32 d s m = Some (copied d s 4 m)"
proof -
  obtain b0 b1 b2 b3 where b: "m s = Some b0" "m (s + 1) = Some b1" "m (s + 2) = Some b2" "m (s + 3) = Some b3"
  proof -
    have "m s \<noteq> None" "m (s + 1) \<noteq> None" "m (s + 2) \<noteq> None" "m (s + 3) \<noteq> None"
      using assms(2) by (simp_all add: mapped_def)
    then show ?thesis using that by blast
  qed
  have "copied d s 4 m = m(d \<mapsto> b0, d + 1 \<mapsto> b1, d + 2 \<mapsto> b2, d + 3 \<mapsto> b3)"
  proof
    fix x
    show "copied d s 4 m x = (m(d \<mapsto> b0, d + 1 \<mapsto> b1, d + 2 \<mapsto> b2, d + 3 \<mapsto> b3)) x"
    proof (cases "d \<le> x \<and> x < d + 4")
      case True
      then have "x = d \<or> x = d + 1 \<or> x = d + 2 \<or> x = d + 3" by linarith
      then show ?thesis using b by (elim disjE) (simp_all add: copied_def)
    qed (auto simp: copied_def)
  qed
  moreover obtain w where w: "w = (ucast b0 OR push_bit 8 (ucast b1) OR push_bit 16 (ucast b2) OR push_bit 24 (ucast b3) :: u32)"
    by blast
  moreover have "load32 s m = Some w" using b by (simp add: load32_def w)
  ultimately show ?thesis
    using store32_eq[OF assms(1), of w] word_bytes[of b0 b1 b2 b3] by (simp only: copy32_def bind.bind_lunit w)
qed

section \<open>The loops\<close>

declare set_words.simps [simp del] set_blocks.simps [simp del] copy_words.simps [simp del] copy_blocks.simps [simp del]

lemma set_bytes_filled: "mapped a n m \<Longrightarrow> set_bytes d n a m = Some (filled a n d m)"
proof (induction n arbitrary: a m)
  case (Suc n)
  have "store8 a d m = Some (filled a 1 d m)" by (rule store8_filled) (rule mapped_sub[OF Suc.prems], simp_all)
  moreover have "set_bytes d n (a + 1) (filled a 1 d m) = Some (filled (a + 1) n d (filled a 1 d m))"
    by (rule Suc.IH) (rule mapped_filled, rule mapped_sub[OF Suc.prems], simp_all)
  ultimately show ?case using filled_filled[of a 1 n d m] by simp
qed simp

text \<open>\<open>spread w d\<close>: all four bytes of \<open>w\<close> are \<open>d\<close>.\<close>

definition spread :: "u32 \<Rightarrow> u8 \<Rightarrow> bool" where
  "spread w d \<longleftrightarrow> ucast w = d \<and> ucast (drop_bit 8 w) = d \<and> ucast (drop_bit 16 w) = d \<and> ucast (drop_bit 24 w) = d"

lemma store32_filled:
  assumes "mapped a 4 m" "spread w d"
  shows "store32 a w m = Some (filled a 4 d m)"
proof -
  have "filled a 4 d m = m(a \<mapsto> d, a + 1 \<mapsto> d, a + 2 \<mapsto> d, a + 3 \<mapsto> d)"
    by (rule ext) (auto simp: filled_def)
  then show ?thesis using store32_eq[OF assms(1), of w] assms(2) unfolding spread_def by metis
qed

text \<open>What a loop over whole words leaves: \<open>r\<close> bytes still to do, \<open>k\<close> done.\<close>

lemma set_words_filled:
  "mapped a n m \<Longrightarrow> spread w d \<Longrightarrow>
   \<exists>r k. n = k + r \<and> set_words w n a m = Some (r, a + k, filled a k d m)"
proof (induction w n a m rule: set_words.induct)
  case (1 w n a m)
  show ?case
  proof (cases "n < 4")
    case True
    then show ?thesis by (subst set_words.simps) simp
  next
    case False
    have s: "store32 a w m = Some (filled a 4 d m)"
      by (rule store32_filled[OF mapped_sub[OF "1.prems"(1)] "1.prems"(2)]) (use False in auto)
    have "mapped (a + 4) (n - 4) (filled a 4 d m)"
      by (rule mapped_filled) (rule mapped_sub[OF "1.prems"(1)], use False in auto)
    from "1.IH"[OF False s this "1.prems"(2)] obtain r k where
      r: "n - 4 = k + r" "set_words w (n - 4) (a + 4) (filled a 4 d m) = Some (r, a + 4 + k, filled (a + 4) k d (filled a 4 d m))"
      by blast
    show ?thesis
      using False s r filled_filled[of a 4 k d m]
      by (intro exI[of _ r] exI[of _ "4 + k"], subst set_words.simps) (simp add: add.assoc)
  qed
qed

lemma store_block_filled:
  assumes "mapped a 16 m" "spread w d"
  shows "do { m \<leftarrow> store32 a w m; m \<leftarrow> store32 (a + 4) w m; m \<leftarrow> store32 (a + 8) w m; store32 (a + 12) w m } =
    Some (filled a 16 d m)"
proof -
  have st: "store32 (a + j) w (filled a j d m) = Some (filled a (j + 4) d m)" if "j + 4 \<le> 16" for j
    using store32_filled[OF mapped_filled[OF mapped_sub[OF assms(1), of "a + j" 4]] assms(2)] that filled_filled[of a j 4 d m]
    by simp
  from st[of 0] st[of 4] st[of 8] st[of 12] show ?thesis by simp
qed

lemma set_blocks_filled:
  "mapped a n m \<Longrightarrow> spread w d \<Longrightarrow>
   \<exists>r k. n = k + r \<and> set_blocks w n a m = Some (r, a + k, filled a k d m)"
proof (induction n arbitrary: a m rule: less_induct)
  case (less n)
  show ?case
  proof (cases "n < 16")
    case True
    then show ?thesis by (subst set_blocks.simps) simp
  next
    case False
    have "mapped a 16 m" by (rule mapped_sub[OF less.prems(1)]) (use False in auto)
    note s = store_block_filled[OF this less.prems(2)]
    have "mapped (a + 16) (n - 16) (filled a 16 d m)"
      by (rule mapped_filled) (rule mapped_sub[OF less.prems(1)], use False in auto)
    from less.IH[OF _ this less.prems(2)] False obtain r k where
      r: "n - 16 = k + r" "set_blocks w (n - 16) (a + 16) (filled a 16 d m) = Some (r, a + 16 + k, filled (a + 16) k d (filled a 16 d m))"
      by auto
    have "set_blocks w n a m = do { m \<leftarrow> do { m \<leftarrow> store32 a w m; m \<leftarrow> store32 (a + 4) w m; m \<leftarrow> store32 (a + 8) w m; store32 (a + 12) w m };
        set_blocks w (n - 16) (a + 16) m }"
      by (subst set_blocks.simps) (simp add: False)
    also have "\<dots> = Some (r, a + (16 + k), filled a (16 + k) d m)"
      unfolding s using r(2) filled_filled[of a 16 k d m] by (simp add: add.assoc)
    finally show ?thesis using False r(1) by (intro exI[of _ r] exI[of _ "16 + k"]) simp
  qed
qed

lemma memset_filled:
  assumes "mapped s n m"
  shows "rt_memset s c n m = Some (filled s n (word_of_int c) m)"
proof -
  let ?d = "(word_of_int c :: u32) AND 0xff"
  let ?b = "push_bit 8 ?d OR ?d"
  let ?w = "?b OR push_bit 16 ?b"
  note b = spread_bytes[of c]
  have w: "spread ?w (word_of_int c)" unfolding spread_def using b by blast
  then obtain d w where dw: "?d = d" "?w = w" "spread w (word_of_int c)" "ucast d = (word_of_int c :: u8)" using b(5) by blast
  have e: "rt_memset s c n m = (if 4 \<le> n \<and> s mod 4 = 0 then do {
      (count, a, m) \<leftarrow> set_blocks w n s m; (count, a, m) \<leftarrow> set_words w count a m; set_bytes (word_of_int c) count a m }
    else set_bytes (word_of_int c) n s m)"
    unfolding rt_memset_def Let_def unfolding dw(2) unfolding dw(1,4) ..
  show ?thesis
  proof (cases "4 \<le> n \<and> s mod 4 = 0")
    case True
    obtain r k where r: "n = k + r" "set_blocks w n s m = Some (r, s + k, filled s k (word_of_int c) m)"
      using set_blocks_filled[OF assms dw(3)] by blast
    have "mapped (s + k) r (filled s k (word_of_int c) m)"
      by (rule mapped_filled) (rule mapped_sub[OF assms], use r in auto)
    from set_words_filled[OF this dw(3)] obtain r' k' where r': "r = k' + r'"
      "set_words w r (s + k) (filled s k (word_of_int c) m) = Some (r', s + (k + k'), filled s (k + k') (word_of_int c) m)"
      by (auto simp: filled_filled add.assoc)
    have "mapped (s + (k + k')) r' (filled s (k + k') (word_of_int c) m)"
      by (rule mapped_filled) (rule mapped_sub[OF assms], use r r' in auto)
    from set_bytes_filled[OF this] have
      "set_bytes (word_of_int c) r' (s + (k + k')) (filled s (k + k') (word_of_int c) m) = Some (filled s n (word_of_int c) m)"
      using r r' by (simp add: filled_filled add.assoc)
    then show ?thesis unfolding e using True r(2) r'(2) by simp
  next
    case False
    then show ?thesis unfolding e using set_bytes_filled[OF assms] by auto
  qed
qed

lemma copy_step:
  assumes "mapped d (k + n) m" "mapped s (k + n) m"
  shows "mapped (d + k) n (copied d s k m)" "mapped (s + k) n (copied d s k m)"
  by (rule mapped_copied; rule mapped_sub[OF assms(1)] mapped_sub[OF assms(2)]; simp)+

lemma store8_copied: "mapped d 1 m \<Longrightarrow> m s = Some b \<Longrightarrow> store8 d b m = Some (copied d s 1 m)"
  by (auto simp: store8_def mapped_def copied_def fun_eq_iff)

lemma copy_bytes_copied:
  "mapped d n m \<Longrightarrow> mapped s n m \<Longrightarrow> forward_ok d s n \<Longrightarrow> copy_bytes n d s m = Some (copied d s n m)"
proof (induction n arbitrary: d s m)
  case (Suc n)
  have p: "mapped d (1 + n) m" "mapped s (1 + n) m" "forward_ok d s (1 + n)" using Suc.prems by simp_all
  obtain b where b: "m s = Some b" using Suc.prems(2) by (auto simp: mapped_def)
  have "store8 d b m = Some (copied d s 1 m)" by (rule store8_copied[OF mapped_sub[OF p(1)] b]) simp_all
  moreover have "copy_bytes n (d + 1) (s + 1) (copied d s 1 m) = Some (copied (d + 1) (s + 1) n (copied d s 1 m))"
    by (rule Suc.IH[OF copy_step[OF p(1,2)] forward_ok_rest[OF p(3)]])
  ultimately show ?case using b copied_copied[OF p(3)] by simp
qed simp

lemma copy_words_copied:
  "mapped d n m \<Longrightarrow> mapped s n m \<Longrightarrow> forward_ok d s n \<Longrightarrow>
   \<exists>r k. n = k + r \<and> copy_words n d s m = Some (r, d + k, s + k, copied d s k m)"
proof (induction n arbitrary: d s m rule: less_induct)
  case (less n)
  show ?case
  proof (cases "n < 4")
    case True
    then show ?thesis by (subst copy_words.simps) simp
  next
    case False
    then obtain n' where n': "n = 4 + n'" by (metis le_Suc_ex linorder_not_less)
    note p = less.prems[unfolded n']
    have c: "copy32 d s m = Some (copied d s 4 m)"
      by (rule copy32_copied[OF mapped_sub[OF p(1)] mapped_sub[OF p(2)]]) simp_all
    from less.IH[OF _ copy_step[OF p(1,2)] forward_ok_rest[OF p(3)]] obtain r k where
      r: "n' = k + r" "copy_words n' (d + 4) (s + 4) (copied d s 4 m) =
        Some (r, d + 4 + k, s + 4 + k, copied (d + 4) (s + 4) k (copied d s 4 m))" using n' by auto
    have "forward_ok d s (4 + k)" using p(3) r(1) by (auto simp: forward_ok_def)
    then show ?thesis
      using c r n' copied_copied[of d s 4 k m]
      by (intro exI[of _ r] exI[of _ "4 + k"], subst copy_words.simps) (simp add: add.assoc)
  qed
qed

lemma copy_block_copied:
  assumes "mapped d 16 m" "mapped s 16 m" "forward_ok d s 16"
  shows "do { m \<leftarrow> copy32 d s m; m \<leftarrow> copy32 (d + 4) (s + 4) m; m \<leftarrow> copy32 (d + 8) (s + 8) m; copy32 (d + 12) (s + 12) m } =
    Some (copied d s 16 m)"
proof -
  have st: "copy32 (d + j) (s + j) (copied d s j m) = Some (copied d s (j + 4) m)" if "j + 4 \<le> 16" for j
  proof -
    have "mapped (d + j) 4 (copied d s j m)" "mapped (s + j) 4 (copied d s j m)"
      by (rule mapped_copied; rule mapped_sub[OF assms(1)] mapped_sub[OF assms(2)]; use that in simp)+
    moreover have "forward_ok d s (j + 4)" using assms(3) that by (auto simp: forward_ok_def)
    ultimately show ?thesis using copy32_copied copied_copied by metis
  qed
  from st[of 0] st[of 4] st[of 8] st[of 12] show ?thesis by simp
qed

lemma copy_blocks_copied:
  "mapped d n m \<Longrightarrow> mapped s n m \<Longrightarrow> forward_ok d s n \<Longrightarrow>
   \<exists>r k. n = k + r \<and> copy_blocks n d s m = Some (r, d + k, s + k, copied d s k m)"
proof (induction n arbitrary: d s m rule: less_induct)
  case (less n)
  show ?case
  proof (cases "n < 16")
    case True
    then show ?thesis by (subst copy_blocks.simps) simp
  next
    case False
    then obtain n' where n': "n = 16 + n'" by (metis le_Suc_ex linorder_not_less)
    note p = less.prems[unfolded n']
    have c: "do { m \<leftarrow> copy32 d s m; m \<leftarrow> copy32 (d + 4) (s + 4) m; m \<leftarrow> copy32 (d + 8) (s + 8) m; copy32 (d + 12) (s + 12) m } =
      Some (copied d s 16 m)"
      by (rule copy_block_copied[OF mapped_sub[OF p(1)] mapped_sub[OF p(2)] forward_ok_first[OF p(3)]]) simp_all
    from less.IH[OF _ copy_step[OF p(1,2)] forward_ok_rest[OF p(3)]] obtain r k where
      r: "n' = k + r" "copy_blocks n' (d + 16) (s + 16) (copied d s 16 m) =
        Some (r, d + 16 + k, s + 16 + k, copied (d + 16) (s + 16) k (copied d s 16 m))" using n' by auto
    have f: "forward_ok d s (16 + k)" using p(3) r(1) by (auto simp: forward_ok_def)
    have "copy_blocks n d s m = do {
        m \<leftarrow> do { m \<leftarrow> copy32 d s m; m \<leftarrow> copy32 (d + 4) (s + 4) m; m \<leftarrow> copy32 (d + 8) (s + 8) m; copy32 (d + 12) (s + 12) m };
        copy_blocks n' (d + 16) (s + 16) m }"
      by (subst copy_blocks.simps) (simp add: n')
    also have "\<dots> = Some (r, d + (16 + k), s + (16 + k), copied d s (16 + k) m)"
      unfolding c using r(2) copied_copied[OF f] by (simp add: add.assoc)
    finally show ?thesis using n' r(1) by (intro exI[of _ r] exI[of _ "16 + k"]) simp
  qed
qed

lemma memcpy_copied:
  assumes "mapped d n m" "mapped s n m" "forward_ok d s n"
  shows "rt_memcpy d s n m = Some (copied d s n m)"
proof (cases "16 \<le> n \<and> s mod 4 = 0 \<and> d mod 4 = 0")
  case True
  obtain r k where r: "n = k + r" "copy_blocks n d s m = Some (r, d + k, s + k, copied d s k m)"
    using copy_blocks_copied[OF assms] by blast
  note p = assms[unfolded r(1)]
  obtain r' k' where r': "r = k' + r'" "copy_words r (d + k) (s + k) (copied d s k m) =
      Some (r', d + k + k', s + k + k', copied (d + k) (s + k) k' (copied d s k m))"
    using copy_words_copied[OF copy_step[OF p(1,2)] forward_ok_rest[OF p(3)]] by blast
  have "forward_ok d s (k + k')" using p(3) r'(1) by (auto simp: forward_ok_def)
  note c = copied_copied[OF this]
  have n: "n = k + k' + r'" using r(1) r'(1) by simp
  note q = assms[unfolded n]
  have "copy_bytes r' (d + (k + k')) (s + (k + k')) (copied d s (k + k') m) = Some (copied d s n m)"
    using copy_bytes_copied[OF copy_step[OF q(1,2)] forward_ok_rest[OF q(3)]] copied_copied[OF q(3)] n by simp
  then show ?thesis using True r(2) r'(2) c by (simp add: rt_memcpy_def add.assoc)
next
  case False
  then show ?thesis using copy_bytes_copied[OF assms] by (auto simp: rt_memcpy_def)
qed

text \<open>Copying downwards is right when the destination does not lie below the source.\<close>

lemma copy_down_copied:
  "mapped d n m \<Longrightarrow> mapped s n m \<Longrightarrow> s \<le> d \<Longrightarrow> copy_down n (d + n) (s + n) m = Some (copied d s n m)"
proof (induction n arbitrary: m)
  case (Suc n)
  have "m (s + n) \<noteq> None" using Suc.prems(2) by (simp add: mapped_def)
  then obtain b where b: "m (s + n) = Some b" by blast
  have st: "store8 (d + n) b m = Some (copied (d + n) (s + n) 1 m)"
    by (rule store8_copied[OF mapped_sub[OF Suc.prems(1)] b]) simp_all
  have m: "mapped d n (copied (d + n) (s + n) 1 m)" "mapped s n (copied (d + n) (s + n) 1 m)"
    by (rule mapped_copied; rule mapped_sub[OF Suc.prems(1)] mapped_sub[OF Suc.prems(2)]; simp)+
  have "copied d s n (copied (d + n) (s + n) 1 m) = copied d s (Suc n) m"
    using Suc.prems(3) by (auto simp: copied_def fun_eq_iff less_Suc_eq)
  then show ?case using b st Suc.IH[OF m Suc.prems(3)] by simp
qed simp

lemma memmove_copied:
  assumes "mapped d n m" "mapped s n m"
  shows "rt_memmove d s n m = Some (copied d s n m)"
  using copy_down_copied[OF assms] copy_bytes_copied[OF assms] by (auto simp: rt_memmove_def forward_ok_def)

text \<open>C34. Filling and copying by whole words equals filling and copying byte by byte, for every length and
  alignment: \<open>rt_memset\<close> sets exactly the given bytes, \<open>rt_memmove\<close> moves a range to any place, also an
  overlapping one, as if through a buffer, and \<open>rt_memcpy\<close> does the same unless the destination starts
  inside the source. Nothing outside the destination changes.\<close>

theorem memory_functions_exact:
  assumes "mapped d n m" "mapped s n m"
  shows "rt_memset d c n m = Some (filled d n (word_of_int c) m) \<and>
    rt_memmove d s n m = Some (copied d s n m) \<and>
    (d \<le> s \<or> s + n \<le> d \<longrightarrow> rt_memcpy d s n m = Some (copied d s n m))"
  using assms memset_filled memmove_copied memcpy_copied by (simp add: forward_ok_def)

text \<open>A memory of 64 bytes in which each byte holds its address.\<close>

definition ramp_memory :: memory where
  "ramp_memory = (\<lambda>a. if a < 64 then Some (word_of_nat a) else None)"

theorem memory_functions_exact_witness:
  "(\<exists>m. rt_memmove 4 0 40 ramp_memory = Some m \<and> m 43 = Some 39) \<and>
   (\<exists>m. rt_memset 4 (- 1) 40 ramp_memory = Some m \<and> m 43 = Some 0xff \<and> m 44 = Some 44) \<and>
   (\<exists>m. rt_memcpy 0 4 40 ramp_memory = Some m \<and> m 39 = Some 43)"
proof -
  have m: "mapped 4 40 ramp_memory" "mapped 0 40 ramp_memory" by (simp_all add: mapped_def ramp_memory_def)
  show ?thesis
    using memory_functions_exact[OF m, of "- 1"] memory_functions_exact[OF m(2,1)]
    by (simp add: copied_def filled_def ramp_memory_def)
qed

text \<open>Comparing: the difference of the first bytes that differ.\<close>

lemma bytes_at_Nil [simp]: "bytes_at a [] m"
  by (simp add: bytes_at_def)

lemma bytes_at_Cons [simp]: "bytes_at a (x # xs) m \<longleftrightarrow> m a = Some x \<and> bytes_at (Suc a) xs m"
  by (auto simp: bytes_at_def nth_Cons split: nat.splits)

lemma memcmp_bytes:
  "bytes_at a xs m \<Longrightarrow> bytes_at b ys m \<Longrightarrow> length xs = n \<Longrightarrow> length ys = n \<Longrightarrow>
   \<exists>r. rt_memcmp a b n m = Some r \<and> (r = 0 \<longleftrightarrow> xs = ys) \<and> (r < 0 \<longleftrightarrow> (xs, ys) \<in> lexord {(x, y). x < y})"
proof (induction n arbitrary: a b xs ys)
  case (Suc n)
  then obtain x xs' y ys' where e: "xs = x # xs'" "ys = y # ys'" by (metis length_Suc_conv)
  show ?case
  proof (cases "x = y")
    case True
    then show ?thesis using Suc.IH[of "Suc a" xs' "Suc b" ys'] Suc.prems e by (auto simp: Let_def)
  next
    case False
    then have "uint x - uint y \<noteq> 0" by (simp add: word_uint_eq_iff)
    then show ?thesis using False Suc.prems e by (auto simp: Let_def word_less_def)
  qed
qed simp

end
