(* ===== verification/Kservice_Str.thy ===== *)
theory Kservice_Str
  imports Kservice_Mem
begin

text \<open>
  The string functions of \<^verbatim>\<open>src/kservice.c\<close>. A string is a sequence of bytes up to the first zero. The
  compilers for this processor make \<^verbatim>\<open>char\<close> unsigned, so a character is a byte. A scan runs until it finds
  its end or leaves the memory.
\<close>

section \<open>Operations\<close>

partial_function (option) strlen_scan :: "nat \<Rightarrow> nat \<Rightarrow> memory \<Rightarrow> nat option" where
  "strlen_scan sc s m = Option.bind (m sc) (\<lambda>c. if c \<noteq> 0 then strlen_scan (sc + 1) s m else Some (sc - s))"

definition rt_strlen :: "nat \<Rightarrow> memory \<Rightarrow> nat option" where
  "rt_strlen s m = strlen_scan s s m"

text \<open>The character is looked at before the length.\<close>

partial_function (option) strnlen_scan :: "nat \<Rightarrow> nat \<Rightarrow> nat \<Rightarrow> memory \<Rightarrow> nat option" where
  "strnlen_scan sc s maxlen m = Option.bind (m sc) (\<lambda>c.
     if c \<noteq> 0 \<and> sc - s < maxlen then strnlen_scan (sc + 1) s maxlen m else Some (sc - s))"

definition rt_strnlen :: "nat \<Rightarrow> nat \<Rightarrow> memory \<Rightarrow> nat option" where
  "rt_strnlen s maxlen m = strnlen_scan s s maxlen m"

partial_function (option) rt_strcmp :: "nat \<Rightarrow> nat \<Rightarrow> memory \<Rightarrow> int option" where
  "rt_strcmp cs ct m = Option.bind (m cs) (\<lambda>x. Option.bind (m ct) (\<lambda>y.
     if x \<noteq> 0 \<and> x = y then rt_strcmp (cs + 1) (ct + 1) m else Some (uint x - uint y)))"

text \<open>The difference is kept in a \<^verbatim>\<open>signed char\<close>.\<close>

fun rt_strncmp :: "nat \<Rightarrow> nat \<Rightarrow> nat \<Rightarrow> memory \<Rightarrow> int option" where
  "rt_strncmp cs ct 0 m = Some 0"
| "rt_strncmp cs ct (Suc count) m = do {
     x \<leftarrow> m cs; y \<leftarrow> m ct;
     let res = sint (x - y);
     if res \<noteq> 0 \<or> x = 0 then Some res else rt_strncmp (cs + 1) (ct + 1) count m }"

definition to_lower :: "int \<Rightarrow> int" where
  "to_lower c = (if 65 \<le> c \<and> c \<le> 90 then c + (97 - 65) else c)"

text \<open>The result is converted to an unsigned word.\<close>

partial_function (option) rt_strcasecmp :: "nat \<Rightarrow> nat \<Rightarrow> memory \<Rightarrow> u32 option" where
  "rt_strcasecmp a b m = Option.bind (m a) (\<lambda>x. Option.bind (m b) (\<lambda>y.
     let ca = to_lower (uint x); cb = to_lower (uint y) in
     if ca = cb \<and> ca \<noteq> 0 then rt_strcasecmp (a + 1) (b + 1) m else Some (word_of_int (ca - cb))))"

fun rt_strncpy :: "nat \<Rightarrow> nat \<Rightarrow> nat \<Rightarrow> memory \<Rightarrow> memory option" where
  "rt_strncpy d s 0 m = Some m"
| "rt_strncpy d s (Suc n) m = do {
     b \<leftarrow> m s; m \<leftarrow> store8 d b m;
     if b = 0 then set_bytes 0 n (d + 1) m else rt_strncpy (d + 1) (s + 1) n m }"

function strstr_loop :: "int \<Rightarrow> nat \<Rightarrow> nat \<Rightarrow> nat \<Rightarrow> memory \<Rightarrow> nat option option" where
  "strstr_loop l1 l2 s1 s2 m =
     (if int l2 \<le> l1 then
        Option.bind (rt_memcmp s1 s2 l2 m) (\<lambda>r. if r = 0 then Some (Some s1) else strstr_loop (l1 - 1) l2 (s1 + 1) s2 m)
      else Some None)"
  by pat_completeness auto
termination by (relation "measure (\<lambda>(l1, _). nat (l1 + 1))") auto

text \<open>The answer \<open>None\<close> in the result is \<^verbatim>\<open>RT_NULL\<close>.\<close>

definition rt_strstr :: "nat \<Rightarrow> nat \<Rightarrow> memory \<Rightarrow> nat option option" where
  "rt_strstr s1 s2 m = do {
     l2 \<leftarrow> rt_strlen s2 m;
     if l2 = 0 then Some (Some s1)
     else do { l1 \<leftarrow> rt_strlen s1 m; strstr_loop (int l1) l2 s1 s2 m } }"

section \<open>Strings in memory\<close>

fun cstr :: "nat \<Rightarrow> u8 list \<Rightarrow> memory \<Rightarrow> bool" where
  "cstr s [] m \<longleftrightarrow> m s = Some 0"
| "cstr s (x # xs) m \<longleftrightarrow> m s = Some x \<and> x \<noteq> 0 \<and> cstr (Suc s) xs m"

declare strstr_loop.simps [simp del]

lemma strlen_scan_cstr: "cstr sc xs m \<Longrightarrow> s \<le> sc \<Longrightarrow> strlen_scan sc s m = Some (sc - s + length xs)"
  by (induction xs arbitrary: sc) (subst strlen_scan.simps, simp add: Suc_diff_le)+

lemma strlen_cstr [simp]: "cstr s xs m \<Longrightarrow> rt_strlen s m = Some (length xs)"
  by (simp add: rt_strlen_def strlen_scan_cstr)

lemma cstr_nth: "cstr s xs m \<Longrightarrow> i \<le> length xs \<Longrightarrow> m (s + i) = Some ((xs @ [0]) ! i)"
proof (induction xs arbitrary: s i)
  case (Cons x xs)
  then show ?case using Cons.IH[of "Suc s" "i - 1"] by (cases i) auto
qed simp

lemma cstr_bytes: "cstr s xs m \<Longrightarrow> i + n \<le> length xs \<Longrightarrow> bytes_at (s + i) (take n (drop i xs)) m"
  unfolding bytes_at_def
proof (intro allI impI)
  fix j assume c: "cstr s xs m" "i + n \<le> length xs" "j < length (take n (drop i xs))"
  then have "m (s + (i + j)) = Some ((xs @ [0]) ! (i + j))" by (intro cstr_nth) auto
  then show "m (s + i + j) = Some (take n (drop i xs) ! j)" using c by (simp add: nth_append add.assoc)
qed

lemma strnlen_scan_bytes:
  "bytes_at sc xs m \<Longrightarrow> 0 \<notin> set xs \<Longrightarrow> s \<le> sc \<Longrightarrow> sc - s + length xs \<le> maxlen \<Longrightarrow>
   strnlen_scan sc s maxlen m = strnlen_scan (sc + length xs) s maxlen m"
proof (induction xs arbitrary: sc)
  case (Cons x xs)
  have "strnlen_scan sc s maxlen m = strnlen_scan (Suc sc) s maxlen m"
    by (subst strnlen_scan.simps) (use Cons.prems in auto)
  also have "\<dots> = strnlen_scan (Suc sc + length xs) s maxlen m" by (rule Cons.IH) (use Cons.prems in auto)
  finally show ?case by simp
qed simp

text \<open>\<open>rt_strnlen\<close> gives the smaller of the length and the bound. Against its description it reads one
  byte too many: with the bound's number of bytes and no more it leaves the memory.\<close>

theorem strnlen_reads_one_more:
  assumes "bytes_at s xs m" "0 \<notin> set xs"
  shows "rt_strnlen s (length xs) m = (case m (s + length xs) of None \<Rightarrow> None | Some _ \<Rightarrow> Some (length xs)) \<and>
    (m (s + length xs) = Some 0 \<longrightarrow> length xs \<le> maxlen \<longrightarrow> rt_strnlen s maxlen m = Some (length xs))"
  unfolding rt_strnlen_def
  using strnlen_scan_bytes[OF assms, of s] strnlen_scan.simps[of "s + length xs" s] by (auto split: option.splits)

theorem strnlen_reads_one_more_witness:
  "rt_strnlen 60 4 ramp_memory = None \<and> rt_strnlen 60 3 ramp_memory = Some 3"
proof -
  have "bytes_at 60 [60, 61, 62, 63] ramp_memory" "bytes_at 60 [60, 61, 62] ramp_memory"
    by (simp_all add: ramp_memory_def)
  moreover have "length [60, 61, 62, 63 :: u8] = 4" "length [60, 61, 62 :: u8] = 3" by simp_all
  ultimately show ?thesis
    using strnlen_reads_one_more[of 60 "[60, 61, 62, 63]" ramp_memory] strnlen_reads_one_more[of 60 "[60, 61, 62]" ramp_memory]
    by (simp del: list.size add: ramp_memory_def)
qed

section \<open>Comparing\<close>

abbreviation byte_less :: "(u8 list \<times> u8 list) set" where
  "byte_less \<equiv> lexord {(x, y). x < y}"

lemma strcmp_cstr:
  "cstr a xs m \<Longrightarrow> cstr b ys m \<Longrightarrow>
   \<exists>r. rt_strcmp a b m = Some r \<and> (r = 0 \<longleftrightarrow> xs = ys) \<and> (r < 0 \<longleftrightarrow> (xs, ys) \<in> byte_less)"
proof (induction xs arbitrary: a b ys)
  case Nil
  then show ?case by (subst rt_strcmp.simps) (cases ys; auto simp: uint_0_iff less_le)
next
  case (Cons x xs)
  show ?case
  proof (cases ys)
    case Nil
    then show ?thesis using Cons.prems by (subst rt_strcmp.simps) (auto simp: uint_0_iff)
  next
    case c: (Cons y ys')
    show ?thesis
    proof (cases "x = y")
      case True
      then show ?thesis using Cons.IH[of "Suc a" "Suc b" ys'] Cons.prems c by (subst rt_strcmp.simps) auto
    next
      case False
      then have "uint x \<noteq> uint y" by (simp add: word_uint_eq_iff)
      then show ?thesis using False Cons.prems c by (subst rt_strcmp.simps) (auto simp: word_less_def)
    qed
  qed
qed

lemma sint_zero_iff: "sint (w :: u8) = 0 \<longleftrightarrow> w = 0"
  by (simp add: signed_eq_0_iff)

lemma sint_diff:
  assumes "x < 128" "y < (128 :: u8)"
  shows "sint (x - y) = uint x - uint y"
proof -
  have b: "uint x < 128" "uint y < 128" "0 \<le> uint x" "0 \<le> uint y"
    using assms by (simp_all add: word_less_def)
  have "x - y = word_of_int (uint x - uint y)" by simp
  then have "sint (x - y) = sint (word_of_int (uint x - uint y) :: u8)" by (rule arg_cong)
  also have "\<dots> = signed_take_bit 7 (uint x - uint y)" by (simp only: signed_of_int) simp
  also have "\<dots> = uint x - uint y"
  proof -
    have "- 128 \<le> uint x - uint y" "uint x - uint y < 128" using b by linarith+
    then show ?thesis by (simp add: signed_take_bit_int_eq_self_iff)
  qed
  finally show ?thesis .
qed

lemma strncmp_cstr:
  "cstr a xs m \<Longrightarrow> cstr b ys m \<Longrightarrow>
   \<exists>r. rt_strncmp a b n m = Some r \<and> (r = 0 \<longleftrightarrow> take n xs = take n ys) \<and>
     ((\<forall>x \<in> set xs \<union> set ys. x < 128) \<longrightarrow> (r < 0 \<longleftrightarrow> (take n xs, take n ys) \<in> byte_less))"
proof (induction n arbitrary: a b xs ys)
  case (Suc n)
  obtain x xs' where x: "m a = Some x" "x = 0 \<and> xs = [] \<or> x \<noteq> 0 \<and> xs = x # xs' \<and> cstr (Suc a) xs' m"
    using Suc.prems(1) by (cases xs) auto
  obtain y ys' where y: "m b = Some y" "y = 0 \<and> ys = [] \<or> y \<noteq> 0 \<and> ys = y # ys' \<and> cstr (Suc b) ys' m"
    using Suc.prems(2) by (cases ys) auto
  show ?case
  proof (cases "x = y")
    case True
    then show ?thesis using Suc.IH[of "Suc a" xs' "Suc b" ys'] x y by (auto simp: Let_def)
  next
    case False
    have s: "sint (x - y) \<noteq> 0" using False by (simp add: sint_zero_iff)
    have "sint (x - y) < 0 \<longleftrightarrow> (take (Suc n) xs, take (Suc n) ys) \<in> byte_less" if "\<forall>x \<in> set xs \<union> set ys. x < 128"
    proof -
      have "x < 128" "y < 128" using that x(2) y(2) by auto
      then have "sint (x - y) < 0 \<longleftrightarrow> x < y" by (simp add: sint_diff word_less_def)
      then show ?thesis using x(2) y(2) False by (auto simp: less_le)
    qed
    then show ?thesis using s False x y by (auto simp: Let_def)
  qed
qed simp

text \<open>\<open>rt_strcmp\<close> orders strings as bytes. \<open>rt_strncmp\<close> answers zero exactly when the strings agree up
  to the bound; its sign is that of the order when all characters are below 128. (The difference is
  kept in eight bits, so beyond that the sign may be wrong.)\<close>

theorem string_comparison:
  assumes "cstr a xs m" "cstr b ys m"
  shows "(\<exists>r. rt_strcmp a b m = Some r \<and> (r = 0 \<longleftrightarrow> xs = ys) \<and> (r < 0 \<longleftrightarrow> (xs, ys) \<in> byte_less)) \<and>
    (\<exists>r. rt_strncmp a b n m = Some r \<and> (r = 0 \<longleftrightarrow> take n xs = take n ys) \<and>
       ((\<forall>x \<in> set xs \<union> set ys. x < 128) \<longrightarrow> (r < 0 \<longleftrightarrow> (take n xs, take n ys) \<in> byte_less)))"
  using strcmp_cstr[OF assms] strncmp_cstr[OF assms] by blast

text \<open>The strings A and, in Latin-1, an A with a tilde.\<close>

definition two_strings :: memory where
  "two_strings = [0 \<mapsto> 0x41, 1 \<mapsto> 0, 2 \<mapsto> 0xC3, 3 \<mapsto> 0]"

theorem string_comparison_witness:
  "(\<exists>r. rt_strcmp 2 0 two_strings = Some r \<and> 0 < r) \<and> rt_strncmp 2 0 1 two_strings = Some (- 126)"
proof -
  have s: "cstr 2 [0xC3] two_strings" "cstr 0 [0x41] two_strings" by (simp_all add: two_strings_def)
  have "(\<exists>r. rt_strcmp 2 0 two_strings = Some r \<and> 0 < r)" using string_comparison[OF s] by fastforce
  moreover have "rt_strncmp 2 0 1 two_strings = Some (- 126)"
    by (simp add: two_strings_def Let_def)
  ultimately show ?thesis by blast
qed

lemma to_lower_0 [simp]: "to_lower (uint c) = 0 \<longleftrightarrow> c = 0"
  by (auto simp: to_lower_def uint_0_iff)

lemma to_lower_bounds: "0 \<le> to_lower (uint (c :: u8)) \<and> to_lower (uint c) < 256"
  using uint_lt2p[of c] by (auto simp: to_lower_def)

lemma sint32: "- (2 ^ 31) \<le> i \<Longrightarrow> i < 2 ^ 31 \<Longrightarrow> sint (word_of_int i :: u32) = i"
  by (simp add: signed_of_int signed_take_bit_int_eq_self_iff)

text \<open>The order ignores the case of the letters; the unsigned result must be read as a signed number.\<close>

lemma strcasecmp_cstr:
  "cstr a xs m \<Longrightarrow> cstr b ys m \<Longrightarrow>
   \<exists>r. rt_strcasecmp a b m = Some r \<and> (r = 0 \<longleftrightarrow> map (\<lambda>c. to_lower (uint c)) xs = map (\<lambda>c. to_lower (uint c)) ys) \<and>
     (sint r < 0 \<longleftrightarrow> (map (\<lambda>c. to_lower (uint c)) xs, map (\<lambda>c. to_lower (uint c)) ys) \<in> lexord {(x, y). x < y})"
proof (induction xs arbitrary: a b ys)
  case Nil
  obtain y ys' where y: "m b = Some y" "y = 0 \<and> ys = [] \<or> y \<noteq> 0 \<and> ys = y # ys'"
    using Nil.prems(2) by (cases ys) auto
  have s: "sint (word_of_int (- to_lower (uint y)) :: u32) = - to_lower (uint y)"
    using to_lower_bounds[of y] by (intro sint32) simp_all
  then have "(word_of_int (- to_lower (uint y)) :: u32) = 0 \<longleftrightarrow> y = 0" by (metis neg_equal_0_iff_equal signed_0 to_lower_0 word_of_int_0)
  moreover have "to_lower 0 = 0" by (simp add: to_lower_def)
  ultimately show ?case
    using Nil.prems(1) y to_lower_bounds[of y] s
    by (subst rt_strcasecmp.simps) (auto simp: Let_def less_le)
next
  case (Cons x xs)
  obtain y ys' where y: "m b = Some y" "y = 0 \<and> ys = [] \<or> y \<noteq> 0 \<and> ys = y # ys' \<and> cstr (Suc b) ys' m"
    using Cons.prems(2) by (cases ys) auto
  let ?x = "to_lower (uint x)" and ?y = "to_lower (uint y)"
  show ?case
  proof (cases "?x = ?y")
    case True
    moreover have "?x \<noteq> 0" using Cons.prems(1) by simp
    ultimately show ?thesis using Cons.IH[of "Suc a" "Suc b" ys'] Cons.prems(1) y by (subst rt_strcasecmp.simps) auto
  next
    case False
    have s: "sint (word_of_int (?x - ?y) :: u32) = ?x - ?y"
      using to_lower_bounds[of x] to_lower_bounds[of y] by (intro sint32) simp_all
    then have "(word_of_int (?x - ?y) :: u32) \<noteq> 0" using False by (metis eq_iff_diff_eq_0 signed_0)
    moreover have "\<not> ?x < 0" using to_lower_bounds[of x] by simp
    moreover have "to_lower 0 = 0" by (simp add: to_lower_def)
    ultimately show ?thesis using False s Cons.prems(1) y by (subst rt_strcasecmp.simps) (auto simp: Let_def)
  qed
qed

section \<open>Copying and searching\<close>

text \<open>\<open>string_copied d n xs m\<close>: the string in \<open>n\<close> bytes at \<open>d\<close>, cut or padded with zeros.\<close>

definition string_copied :: "nat \<Rightarrow> nat \<Rightarrow> u8 list \<Rightarrow> memory \<Rightarrow> memory" where
  "string_copied d n xs m = (\<lambda>a. if d \<le> a \<and> a < d + n then Some (if a - d < length xs then xs ! (a - d) else 0) else m a)"

lemma cstr_upd: "cstr s xs m \<Longrightarrow> a < s \<or> s + length xs < a \<Longrightarrow> cstr s xs (m(a \<mapsto> v))"
  by (induction xs arbitrary: s) auto

lemma strncpy_cstr:
  "cstr s xs m \<Longrightarrow> mapped d n m \<Longrightarrow> d + n \<le> s \<or> s + length xs < d \<Longrightarrow>
   rt_strncpy d s n m = Some (string_copied d n xs m)"
proof (induction n arbitrary: d s xs m)
  case 0
  then show ?case by (auto simp: string_copied_def fun_eq_iff)
next
  case (Suc n)
  have st: "store8 d v m = Some (m(d \<mapsto> v))" for v using Suc.prems(2) by (auto simp: store8_def mapped_def)
  have mp: "mapped (Suc d) n (m(d \<mapsto> v))" for v using Suc.prems(2) by (auto simp: mapped_def)
  show ?case
  proof (cases xs)
    case Nil
    have "filled (Suc d) n 0 (m(d \<mapsto> 0)) = string_copied d (Suc n) [] m"
      by (auto simp: filled_def string_copied_def fun_eq_iff)
    then show ?thesis using Suc.prems(1) Nil st set_bytes_filled[OF mp, of 0 0] by simp
  next
    case (Cons x xs')
    have c: "cstr (Suc s) xs' (m(d \<mapsto> x))" by (rule cstr_upd) (use Suc.prems Cons in auto)
    have "string_copied (Suc d) n xs' (m(d \<mapsto> x)) = string_copied d (Suc n) (x # xs') m"
    proof
      fix a
      show "string_copied (Suc d) n xs' (m(d \<mapsto> x)) a = string_copied d (Suc n) (x # xs') m a"
        by (auto simp: string_copied_def nth_Cons')
    qed
    moreover have "rt_strncpy (Suc d) (Suc s) n (m(d \<mapsto> x)) = Some (string_copied (Suc d) n xs' (m(d \<mapsto> x)))"
      by (rule Suc.IH[OF c mp]) (use Suc.prems(3) Cons in auto)
    ultimately show ?thesis using Suc.prems(1) Cons st by simp
  qed
qed

definition occurs :: "u8 list \<Rightarrow> u8 list \<Rightarrow> nat \<Rightarrow> bool" where
  "occurs xs ys i \<longleftrightarrow> i + length ys \<le> length xs \<and> take (length ys) (drop i xs) = ys"

definition found_from :: "nat \<Rightarrow> u8 list \<Rightarrow> u8 list \<Rightarrow> nat \<Rightarrow> nat option \<Rightarrow> bool" where
  "found_from a xs ys i r \<longleftrightarrow> (case r of
       None \<Rightarrow> \<forall>j. i \<le> j \<longrightarrow> \<not> occurs xs ys j
     | Some p \<Rightarrow> \<exists>j. i \<le> j \<and> p = a + j \<and> occurs xs ys j \<and> (\<forall>j'. i \<le> j' \<and> j' < j \<longrightarrow> \<not> occurs xs ys j'))"

lemma found_from_step: "found_from a xs ys (Suc i) r \<Longrightarrow> \<not> occurs xs ys i \<Longrightarrow> found_from a xs ys i r"
  unfolding found_from_def by (auto split: option.splits dest: Suc_leI elim!: le_neq_implies_less)
    (metis Suc_leI Suc_leD le_neq_implies_less)+

lemma strstr_loop_cstr:
  assumes x: "cstr a xs m" and y: "cstr b ys m"
  shows "i \<le> length xs \<Longrightarrow> \<exists>r. strstr_loop (int (length xs) - int i) (length ys) (a + i) b m = Some r \<and> found_from a xs ys i r"
proof (induction "length xs - i" arbitrary: i rule: less_induct)
  case less
  show ?case
  proof (cases "i + length ys \<le> length xs")
    case True
    have t: "length (take (length ys) (drop i xs)) = length ys" using True by simp
    have bs: "bytes_at b ys m" using cstr_bytes[OF y, of 0 "length ys"] by simp
    obtain c where c: "rt_memcmp (a + i) b (length ys) m = Some c" "c = 0 \<longleftrightarrow> take (length ys) (drop i xs) = ys"
      using memcmp_bytes[OF cstr_bytes[OF x True] bs t refl] by blast
    show ?thesis
    proof (cases "c = 0")
      case T: True
      then have "found_from a xs ys i (Some (a + i))" using c(2) True by (auto simp: found_from_def occurs_def)
      then show ?thesis using True T c(1) by (subst strstr_loop.simps) simp
    next
      case False
      then have no: "\<not> occurs xs ys i" using c(2) by (simp add: occurs_def)
      have "ys \<noteq> []" using False c(2) by auto
      then have i: "length xs - Suc i < length xs - i" "Suc i \<le> length xs" using True by (cases ys; simp)+
      from less.hyps[OF i] obtain r where
        "strstr_loop (int (length xs) - int (Suc i)) (length ys) (a + Suc i) b m = Some r" "found_from a xs ys (Suc i) r"
        by blast
      moreover have "int (length xs) - int (Suc i) = int (length xs) - int i - 1" "a + Suc i = Suc (a + i)" by simp_all
      ultimately have "strstr_loop (int (length xs) - int i - 1) (length ys) (Suc (a + i)) b m = Some r"
        "found_from a xs ys i r" using found_from_step[OF _ no] by metis+
      then show ?thesis using True False c(1) by (subst strstr_loop.simps) simp
    qed
  next
    case False
    then have "found_from a xs ys i None" by (auto simp: found_from_def occurs_def)
    then show ?thesis using False by (subst strstr_loop.simps) simp
  qed
qed

text \<open>\<open>rt_strstr\<close> finds the first occurrence of a string in another, or tells that there is none;
  \<open>rt_strncpy\<close> writes exactly the given number of bytes, the string cut or padded with zeros, so the
  copy has no terminator when the string is not shorter than the bound.\<close>

theorem string_search_and_copy:
  assumes "cstr a xs m" "cstr b ys m" "mapped d n m" "d + n \<le> a \<or> a + length xs < d"
  shows "(\<exists>r. rt_strstr a b m = Some r \<and> found_from a xs ys 0 r) \<and>
    rt_strncpy d a n m = Some (string_copied d n xs m)"
proof
  show "\<exists>r. rt_strstr a b m = Some r \<and> found_from a xs ys 0 r"
  proof (cases "ys = []")
    case True
    then have "rt_strstr a b m = Some (Some a)" "found_from a xs ys 0 (Some a)"
      using strlen_cstr[OF assms(2)] by (simp_all add: rt_strstr_def found_from_def occurs_def)
    then show ?thesis by blast
  next
    case False
    then show ?thesis
      using strstr_loop_cstr[OF assms(1,2), of 0] strlen_cstr[OF assms(1)] strlen_cstr[OF assms(2)] by (simp add: rt_strstr_def)
  qed
qed (rule strncpy_cstr[OF assms(1,3,4)])

text \<open>The strings ABAB at 0 and BA at 8; eight free bytes from 16.\<close>

definition search_memory :: memory where
  "search_memory = (\<lambda>a. if 16 \<le> a \<and> a < 24 then Some 0xff else
     ([0 \<mapsto> 65, 1 \<mapsto> 66, 2 \<mapsto> 65, 3 \<mapsto> 66, 4 \<mapsto> 0, 8 \<mapsto> 66, 9 \<mapsto> 65, 10 \<mapsto> 0]) a)"

theorem string_search_and_copy_witness:
  "rt_strstr 0 8 search_memory = Some (Some 1) \<and>
   (\<exists>m. rt_strncpy 16 0 6 search_memory = Some m \<and> m 19 = Some 66 \<and> m 21 = Some 0 \<and> m 22 = Some 0xff)"
proof -
  have c: "cstr 0 [65, 66, 65, 66] search_memory" "cstr 8 [66, 65] search_memory" "mapped 16 6 search_memory"
    by (simp_all add: search_memory_def mapped_def)
  have o: "occurs [65, 66, 65, 66] [66, 65] j \<longleftrightarrow> j = 1" for j
    by (cases j; cases "j - 1"; cases "j - 2") (auto simp: occurs_def)
  obtain r where r: "rt_strstr 0 8 search_memory = Some r" "found_from 0 [65, 66, 65, 66] [66, 65] 0 r"
    using string_search_and_copy[OF c] by auto
  then have "r = Some 1" unfolding found_from_def o by (auto split: option.splits)
  then show ?thesis
    using r(1) string_search_and_copy[OF c] by (simp add: string_copied_def search_memory_def)
qed

end
