(* ===== verification/Kservice_Print.thy ===== *)
theory Kservice_Print
  imports Kservice_Str
begin

text \<open>
  The formatted output of \<^verbatim>\<open>src/kservice.c\<close>, as it is built: with \<^verbatim>\<open>RT_PRINTF_PRECISION\<close>, without
  \<^verbatim>\<open>RT_PRINTF_SPECIAL\<close> and \<^verbatim>\<open>RT_PRINTF_LONGLONG\<close>. The output state is the pointer \<open>str\<close>, which runs on
  behind the end of the buffer and around the 32-bit address space, and the memory; the format is
  the list of its characters and the variable arguments are the words on the stack. An \<open>int\<close> that
  would leave its 32 bits while a number of the format is read has no result; the widths that are
  counted down afterwards are bounded by the length of the text (see \<open>vsnprintf_exact\<close>).
\<close>

section \<open>Operations\<close>

type_synonym out = "nat \<times> memory"

definition put_byte :: "nat \<Rightarrow> u8 \<Rightarrow> out \<Rightarrow> out option" where
  "put_byte e c st = (case st of (str, m) \<Rightarrow>
     if str < e then do { m \<leftarrow> store8 str c m; Some ((str + 1) mod 2 ^ 32, m) }
     else Some ((str + 1) mod 2 ^ 32, m))"

fun put_times :: "nat \<Rightarrow> u8 \<Rightarrow> nat \<Rightarrow> out \<Rightarrow> out option" where
  "put_times e c 0 st = Some st"
| "put_times e c (Suc n) st = do { st \<leftarrow> put_byte e c st; put_times e c n st }"

fun put_list :: "nat \<Rightarrow> u8 list \<Rightarrow> out \<Rightarrow> out option" where
  "put_list e [] st = Some st"
| "put_list e (c # cs) st = do { st \<leftarrow> put_byte e c st; put_list e cs st }"

text \<open>\<^verbatim>\<open>while (n-- > 0)\<close>, with the value left in \<^verbatim>\<open>n\<close>.\<close>

definition pad_down :: "nat \<Rightarrow> u8 \<Rightarrow> int \<Rightarrow> out \<Rightarrow> (int \<times> out) option" where
  "pad_down e c n st = do {
     st \<leftarrow> put_times e c (nat n) st;
     Some (if n > 0 then - 1 else n - 1, st) }"

definition ZEROPAD :: u8 where "ZEROPAD = 1"
definition SIGN :: u8 where "SIGN = 2"
definition PLUS :: u8 where "PLUS = 4"
definition SPACE :: u8 where "SPACE = 8"
definition LEFT :: u8 where "LEFT = 16"
definition SPECIAL :: u8 where "SPECIAL = 32"
definition LARGE :: u8 where "LARGE = 64"

abbreviation flag :: "u8 \<Rightarrow> u8 \<Rightarrow> bool" where
  "flag f fs \<equiv> fs AND f \<noteq> 0"

definition small_digits :: string where "small_digits = ''0123456789abcdef''"
definition large_digits :: string where "large_digits = ''0123456789ABCDEF''"

text \<open>Any base but ten divides by 16.\<close>

definition divide :: "nat \<Rightarrow> nat \<Rightarrow> nat \<times> nat" where
  "divide n base = (if base = 10 then (n mod 10, n div 10) else (n mod 16, n div 16))"

lemma divide_less [termination_simp]: "0 < n \<Longrightarrow> snd (divide n base) < n"
  by (simp add: divide_def)

text \<open>\<open>tmp\<close> has room for 16 digits.\<close>

fun digit_loop :: "nat \<Rightarrow> string \<Rightarrow> nat \<Rightarrow> string \<Rightarrow> string option" where
  "digit_loop base dg n tmp =
     (if n = 0 then Some tmp
      else if 16 \<le> length tmp then None
      else digit_loop base dg (snd (divide n base)) (tmp @ [dg ! fst (divide n base)]))"

text \<open>The second half: sign, padding and digits (in \<open>tmp\<close>, least significant first).\<close>

definition place_digits :: "nat \<Rightarrow> u8 \<Rightarrow> u8 \<Rightarrow> string \<Rightarrow> int \<Rightarrow> int \<Rightarrow> out \<Rightarrow> out option" where
  "place_digits e sign type tmp s precision st = do {
     let c = (if flag ZEROPAD type then of_char CHR ''0'' else of_char CHR '' '');
     let i = int (length tmp);
     let prec = (if i > precision then i else precision);
     let sz = s - prec;
     (sz, st) \<leftarrow> (if type AND (ZEROPAD OR LEFT) = 0
       then pad_down e (of_char CHR '' '') (if sign \<noteq> 0 \<and> sz > 0 then sz - 1 else sz) st
       else Some (sz, st));
     (sz, st) \<leftarrow> (if sign \<noteq> 0 then do { st \<leftarrow> put_byte e sign st; Some (sz - 1, st) } else Some (sz, st));
     (sz, st) \<leftarrow> (if \<not> flag LEFT type then pad_down e c sz st else Some (sz, st));
     st \<leftarrow> put_times e (of_char CHR ''0'') (nat (prec - i)) st;
     st \<leftarrow> (if precision \<noteq> 0 then put_list e (map of_char (rev tmp)) st else Some st);
     (sz, st) \<leftarrow> pad_down e (of_char CHR '' '') sz st;
     Some st }"

definition print_number :: "nat \<Rightarrow> u32 \<Rightarrow> nat \<Rightarrow> int \<Rightarrow> int \<Rightarrow> u8 \<Rightarrow> out \<Rightarrow> out option" where
  "print_number e num base s precision type st = do {
     let dg = (if flag LARGE type then large_digits else small_digits);
     let type = (if flag LEFT type then type AND NOT ZEROPAD else type);
     let (sign, num) =
       (if flag SIGN type then
          if sint num < 0 then (of_char CHR ''-'', - num)
          else if flag PLUS type then (of_char CHR ''+'', num)
          else if flag SPACE type then (of_char CHR '' '', num)
          else (0, num)
        else (0 :: u8, num));
     tmp \<leftarrow> (if num = 0 then Some ''0'' else digit_loop base dg (unat num) []);
     place_digits e sign type tmp s precision st }"

definition is_digit :: "char \<Rightarrow> bool" where
  "is_digit c \<longleftrightarrow> 48 \<le> (of_char c :: nat) \<and> (of_char c :: nat) < 58"

text \<open>\<^verbatim>\<open>register int i\<close>: the sum with the character, before \<^verbatim>\<open>'0'\<close> is taken off, must fit in 32 bits.\<close>

fun skip_atoi :: "int \<Rightarrow> string \<Rightarrow> (int \<times> string) option" where
  "skip_atoi i [] = Some (i, [])"
| "skip_atoi i (c # s) =
     (if is_digit c then
        if i * 10 + of_char c < 2 ^ 31 then skip_atoi (i * 10 + of_char c - 48) s else None
      else Some (i, c # s))"

section \<open>Formats\<close>

fun parse_flags :: "u8 \<Rightarrow> string \<Rightarrow> u8 \<times> string" where
  "parse_flags fs [] = (fs, [])"
| "parse_flags fs (c # s) =
     (if c = CHR ''-'' then parse_flags (fs OR LEFT) s
      else if c = CHR ''+'' then parse_flags (fs OR PLUS) s
      else if c = CHR '' '' then parse_flags (fs OR SPACE) s
      else if c = CHR ''#'' then parse_flags (fs OR SPECIAL) s
      else if c = CHR ''0'' then parse_flags (fs OR ZEROPAD) s
      else (fs, c # s))"

definition next_arg :: "u32 list \<Rightarrow> (u32 \<times> u32 list) option" where
  "next_arg args = (case args of [] \<Rightarrow> None | a # as \<Rightarrow> Some (a, as))"

definition parse_width :: "u8 \<Rightarrow> string \<Rightarrow> u32 list \<Rightarrow> (int \<times> u8 \<times> string \<times> u32 list) option" where
  "parse_width fs s args = (case s of
       [] \<Rightarrow> Some (- 1, fs, s, args)
     | c # s' \<Rightarrow>
         if is_digit c then do { (w, s) \<leftarrow> skip_atoi 0 s; Some (w, fs, s, args) }
         else if c = CHR ''*'' then do {
           (a, args) \<leftarrow> next_arg args;
           if sint a < 0 then if - sint a < 2 ^ 31 then Some (- sint a, fs OR LEFT, s', args) else None
           else Some (sint a, fs, s', args) }
         else Some (- 1, fs, s, args))"

definition parse_precision :: "string \<Rightarrow> u32 list \<Rightarrow> (int \<times> string \<times> u32 list) option" where
  "parse_precision s args = (case s of
       CHR ''.'' # s \<Rightarrow> do {
         (p, s, args) \<leftarrow> (case s of
             [] \<Rightarrow> Some (- 1, s, args)
           | c # s' \<Rightarrow>
               if is_digit c then do { (p, s) \<leftarrow> skip_atoi 0 s; Some (p, s, args) }
               else if c = CHR ''*'' then do { (a, args) \<leftarrow> next_arg args; Some (sint a, s', args) }
               else Some (- 1, s, args));
         Some (if p < 0 then 0 else p, s, args) }
     | _ \<Rightarrow> Some (- 1, s, args))"

definition parse_qualifier :: "string \<Rightarrow> char option \<times> string" where
  "parse_qualifier s = (case s of
       c # s' \<Rightarrow> if c = CHR ''h'' \<or> c = CHR ''l'' then (Some c, s') else (None, s)
     | [] \<Rightarrow> (None, s))"

record conversion =
  cv_flags :: u8
  cv_width :: int
  cv_precision :: int
  cv_qualifier :: "char option"

text \<open>Everything between the percent sign and the letter.\<close>

definition parse_conversion :: "string \<Rightarrow> u32 list \<Rightarrow> (conversion \<times> string \<times> u32 list) option" where
  "parse_conversion s args = do {
     let (fs, s) = parse_flags 0 s;
     (w, fs, s, args) \<leftarrow> parse_width fs s args;
     (p, s, args) \<leftarrow> parse_precision s args;
     let (q, s) = parse_qualifier s;
     Some (\<lparr>cv_flags = fs, cv_width = w, cv_precision = p, cv_qualifier = q\<rparr>, s, args) }"

text \<open>\<^verbatim>\<open>while (--w > 0)\<close>.\<close>

definition pad_predec :: "nat \<Rightarrow> int \<Rightarrow> out \<Rightarrow> (int \<times> out) option" where
  "pad_predec e w st = do {
     st \<leftarrow> put_times e (of_char CHR '' '') (nat (w - 1)) st;
     Some (if w > 1 then 0 else w - 1, st) }"

definition print_char :: "nat \<Rightarrow> conversion \<Rightarrow> u32 \<Rightarrow> out \<Rightarrow> out option" where
  "print_char e cv a st = do {
     (w, st) \<leftarrow> (if \<not> flag LEFT (cv_flags cv) then pad_predec e (cv_width cv) st else Some (cv_width cv, st));
     st \<leftarrow> put_byte e (ucast a) st;
     (w, st) \<leftarrow> pad_predec e w st;
     Some st }"

text \<open>The bytes of a string, read while the output is written.\<close>

fun put_string :: "nat \<Rightarrow> nat \<Rightarrow> nat \<Rightarrow> out \<Rightarrow> out option" where
  "put_string e s 0 st = Some st"
| "put_string e s (Suc n) st = do {
     c \<leftarrow> snd st s; st \<leftarrow> put_byte e c st; put_string e ((s + 1) mod 2 ^ 32) n st }"

text \<open>\<^verbatim>\<open>while (len < w--)\<close>.\<close>

definition pad_to :: "nat \<Rightarrow> int \<Rightarrow> int \<Rightarrow> out \<Rightarrow> (int \<times> out) option" where
  "pad_to e len w st = do {
     st \<leftarrow> put_times e (of_char CHR '' '') (nat (w - len)) st;
     Some (if len < w then len - 1 else w - 1, st) }"

definition print_string :: "nat \<Rightarrow> conversion \<Rightarrow> u32 \<Rightarrow> out \<Rightarrow> out option" where
  "print_string e cv a st = do {
     len \<leftarrow> (if a = 0 then Some 6 else rt_strlen (unat a) (snd st));
     let len = (if cv_precision cv > 0 \<and> int len > cv_precision cv then nat (cv_precision cv) else len);
     (w, st) \<leftarrow> (if \<not> flag LEFT (cv_flags cv) then pad_to e (int len) (cv_width cv) st else Some (cv_width cv, st));
     st \<leftarrow> (if a = 0 then put_list e (map of_char (take len ''(NULL)'')) st else put_string e (unat a) len st);
     (w, st) \<leftarrow> pad_to e (int len) w st;
     Some st }"

definition number_arg :: "conversion \<Rightarrow> u8 \<Rightarrow> u32 \<Rightarrow> u32" where
  "number_arg cv fs a =
     (if cv_qualifier cv = Some CHR ''h'' then
        if flag SIGN fs then scast (ucast a :: u16) else ucast (ucast a :: u16)
      else a)"

text \<open>One conversion; \<open>s\<close> starts with its letter.\<close>

definition print_conversion :: "nat \<Rightarrow> conversion \<Rightarrow> string \<Rightarrow> u32 list \<Rightarrow> out \<Rightarrow> (u32 list \<times> out) option" where
  "print_conversion e cv s args st = (case s of
       [] \<Rightarrow> do { st \<leftarrow> put_byte e (of_char CHR ''%'') st; Some (args, st) }
     | l # _ \<Rightarrow>
         if l = CHR ''c'' then do { (a, args) \<leftarrow> next_arg args; st \<leftarrow> print_char e cv a st; Some (args, st) }
         else if l = CHR ''s'' then do { (a, args) \<leftarrow> next_arg args; st \<leftarrow> print_string e cv a st; Some (args, st) }
         else if l = CHR ''p'' then do {
           (a, args) \<leftarrow> next_arg args;
           st \<leftarrow> (if cv_width cv = - 1
             then print_number e a 16 8 (cv_precision cv) (cv_flags cv OR ZEROPAD) st
             else print_number e a 16 (cv_width cv) (cv_precision cv) (cv_flags cv) st);
           Some (args, st) }
         else if l = CHR ''%'' then do { st \<leftarrow> put_byte e (of_char CHR ''%'') st; Some (args, st) }
         else if l \<in> set ''oXxdiu'' then do {
           let base = (if l = CHR ''o'' then 8 else if l = CHR ''X'' \<or> l = CHR ''x'' then 16 else 10);
           let fs = (if l = CHR ''X'' then cv_flags cv OR LARGE
                     else if l = CHR ''d'' \<or> l = CHR ''i'' then cv_flags cv OR SIGN else cv_flags cv);
           (a, args) \<leftarrow> next_arg args;
           st \<leftarrow> print_number e (number_arg cv fs a) base (cv_width cv) (cv_precision cv) fs st;
           Some (args, st) }
         else do {
           st \<leftarrow> put_byte e (of_char CHR ''%'') st;
           st \<leftarrow> put_byte e (of_char l) st;
           Some (args, st) })"

text \<open>Every step of the parser leaves a rest of the format that is not longer.\<close>

lemma length_skip_atoi: "skip_atoi i s = Some (v, s') \<Longrightarrow> length s' \<le> length s"
  by (induction i s rule: skip_atoi.induct) (fastforce split: if_splits)+

lemma length_parse_flags: "length (snd (parse_flags fs s)) \<le> length s"
  by (induction fs s rule: parse_flags.induct) auto

lemma length_parse_width: "parse_width fs s args = Some (w, fs', s', args') \<Longrightarrow> length s' \<le> length s"
  by (auto simp: parse_width_def bind_eq_Some_conv split: list.splits if_splits prod.splits dest: length_skip_atoi)

lemma length_parse_precision:
  assumes "parse_precision s args = Some (p, s', args')" shows "length s' \<le> length s"
proof (cases "\<exists>t. s = CHR ''.'' # t")
  case True
  then obtain t where t: "s = CHR ''.'' # t" by blast
  show ?thesis
    using assms unfolding t parse_precision_def
    by (auto simp: bind_eq_Some_conv split: list.splits if_splits prod.splits dest: length_skip_atoi)
next
  case False
  then have "parse_precision s args = Some (- 1, s, args)"
    unfolding parse_precision_def by (auto split: list.splits char.splits bool.splits)
  then show ?thesis using assms by simp
qed

lemma length_parse_qualifier: "parse_qualifier s = (q, s') \<Longrightarrow> length s' \<le> length s"
  by (auto simp: parse_qualifier_def split: list.splits if_splits)

lemma length_parse_conversion:
  assumes "parse_conversion s args = Some (cv, s', args')" shows "length s' \<le> length s"
proof -
  obtain fs s1 where f: "parse_flags 0 s = (fs, s1)" by force
  obtain w fs2 s2 args2 where w: "parse_width fs s1 args = Some (w, fs2, s2, args2)"
    using assms f by (auto simp: parse_conversion_def bind_eq_Some_conv)
  obtain p s3 args3 where p: "parse_precision s2 args2 = Some (p, s3, args3)"
    using assms f w by (auto simp: parse_conversion_def bind_eq_Some_conv)
  obtain q s4 where q: "parse_qualifier s3 = (q, s4)" by force
  have "s4 = s'" using assms f w p q by (simp add: parse_conversion_def)
  then show ?thesis
    using length_parse_flags[of 0 s] length_parse_width[OF w] length_parse_precision[OF p] length_parse_qualifier[OF q] f
    by simp
qed

lemma length_tl_less: "length s \<le> n \<Longrightarrow> length (tl s) < Suc n"
  by (cases s) auto

function vsnprintf_loop :: "nat \<Rightarrow> string \<Rightarrow> u32 list \<Rightarrow> out \<Rightarrow> out option" where
  "vsnprintf_loop e [] args st = Some st"
| "vsnprintf_loop e (c # fmt) args st =
     (if c \<noteq> CHR ''%'' then Option.bind (put_byte e (of_char c) st) (\<lambda>st. vsnprintf_loop e fmt args st)
      else Option.bind (parse_conversion fmt args) (\<lambda>x. case x of (cv, s, args) \<Rightarrow>
        Option.bind (print_conversion e cv s args st) (\<lambda>y. case y of (args, st) \<Rightarrow>
          vsnprintf_loop e (tl s) args st)))"
  by pat_completeness auto
termination
proof (relation "measure (\<lambda>(e, fmt, args, st). length fmt)")
qed (auto dest!: length_parse_conversion intro: length_tl_less)

text \<open>An area that wraps around the address space is cut off at its top. The result is an
  \<^verbatim>\<open>rt_int32_t\<close>.\<close>

definition rt_vsnprintf :: "nat \<Rightarrow> nat \<Rightarrow> string \<Rightarrow> u32 list \<Rightarrow> memory \<Rightarrow> (int \<times> memory) option" where
  "rt_vsnprintf buf sz fmt args m = do {
     let e = (buf + sz) mod 2 ^ 32;
     let (e, sz) = (if e < buf then (0xffffffff, 0xffffffff - buf) else (e, sz));
     (str, m) \<leftarrow> vsnprintf_loop e fmt args (buf, m);
     m \<leftarrow> (if sz > 0 then if str < e then store8 str 0 m else store8 (e - 1) 0 m else Some m);
     Some (sint (word_of_nat str - word_of_nat buf :: u32), m) }"

definition rt_snprintf :: "nat \<Rightarrow> nat \<Rightarrow> string \<Rightarrow> u32 list \<Rightarrow> memory \<Rightarrow> (int \<times> memory) option" where
  "rt_snprintf buf sz fmt args m = rt_vsnprintf buf sz fmt args m"

definition rt_vsprintf :: "nat \<Rightarrow> string \<Rightarrow> u32 list \<Rightarrow> memory \<Rightarrow> (int \<times> memory) option" where
  "rt_vsprintf buf fmt args m = rt_vsnprintf buf 0xffffffff fmt args m"

definition rt_sprintf :: "nat \<Rightarrow> string \<Rightarrow> u32 list \<Rightarrow> memory \<Rightarrow> (int \<times> memory) option" where
  "rt_sprintf buf fmt args m = rt_vsprintf buf fmt args m"

section \<open>Reference: what the text should be\<close>

type_synonym text8 = "u8 list"

definition blanks :: "int \<Rightarrow> text8" where
  "blanks n = replicate (nat n) (of_char CHR '' '')"

definition zeros :: "int \<Rightarrow> text8" where
  "zeros n = replicate (nat n) (of_char CHR ''0'')"

text \<open>A text in a field of a width, at its right end or its left end.\<close>

definition field :: "bool \<Rightarrow> int \<Rightarrow> text8 \<Rightarrow> text8" where
  "field left w t = (if left then t @ blanks (w - int (length t)) else blanks (w - int (length t)) @ t)"

text \<open>The numeral of a number in a base.\<close>

fun numeral_text :: "nat \<Rightarrow> string \<Rightarrow> nat \<Rightarrow> string" where
  "numeral_text b dg n = (if n < b \<or> b < 2 then [dg ! n] else numeral_text b dg (n div b) @ [dg ! (n mod b)])"

text \<open>The sign of a number.\<close>

definition sign_text :: "u32 \<Rightarrow> u8 \<Rightarrow> text8" where
  "sign_text num fs =
     (if \<not> flag SIGN fs then []
      else if sint num < 0 then [of_char CHR ''-'']
      else if flag PLUS fs then [of_char CHR ''+'']
      else if flag SPACE fs then [of_char CHR '' ''] else [])"

definition number_text :: "u32 \<Rightarrow> nat \<Rightarrow> int \<Rightarrow> int \<Rightarrow> u8 \<Rightarrow> text8" where
  "number_text num b w p fs =
     (let sg = sign_text num fs;
          mag = (if flag SIGN fs then nat \<bar>sint num\<bar> else unat num);
          dg = numeral_text b (if flag LARGE fs then large_digits else small_digits) mag;
          body = zeros (p - int (length dg)) @ (if p = 0 then [] else map of_char dg);
          room = w - max (int (length dg)) p - int (length sg)
      in if flag LEFT fs then sg @ body @ blanks room
         else if flag ZEROPAD fs then sg @ zeros room @ body
         else blanks room @ sg @ body)"

text \<open>The value of an argument with a qualifier: \<^verbatim>\<open>h\<close> keeps 16 bits, read with or without sign.\<close>

definition arg_number :: "char option \<Rightarrow> bool \<Rightarrow> u32 \<Rightarrow> u32" where
  "arg_number q sg a =
     (if q = Some CHR ''h'' then
        word_of_int (if sg then (uint a + 2 ^ 15) mod 2 ^ 16 - 2 ^ 15 else uint a mod 2 ^ 16)
      else a)"

text \<open>The text of one conversion with the letter \<open>l\<close>; \<open>strs\<close> tells the string at an address. A letter
  that is no conversion is printed after the percent sign. Octal is printed in hexadecimal.\<close>

definition conversion_text ::
  "(u32 \<Rightarrow> u8 list option) \<Rightarrow> u8 \<Rightarrow> int \<Rightarrow> int \<Rightarrow> char option \<Rightarrow> char \<Rightarrow> u32 list \<Rightarrow> (u32 list \<times> text8) option" where
  "conversion_text strs fs w p q l args =
     (if l = CHR ''%'' then Some (args, [of_char l])
      else if l \<notin> set ''cspdiuxXo'' then Some (args, [of_char CHR ''%'', of_char l])
      else case args of [] \<Rightarrow> None | a # args \<Rightarrow>
        map_option (Pair args)
          (if l = CHR ''c'' then Some (field (flag LEFT fs) w [ucast a])
           else if l = CHR ''s'' then
             map_option (\<lambda>cs. field (flag LEFT fs) w (if p > 0 then take (nat p) cs else cs))
               (if a = 0 then Some (map of_char ''(NULL)'') else strs a)
           else Some
             (if l = CHR ''p'' then
                if w = - 1 then number_text a 16 8 p (fs OR ZEROPAD) else number_text a 16 w p fs
              else if l = CHR ''d'' \<or> l = CHR ''i'' then number_text (arg_number q True a) 10 w p (fs OR SIGN)
              else if l = CHR ''u'' then number_text (arg_number q False a) 10 w p fs
              else number_text (arg_number q False a) 16 w p (if l = CHR ''X'' then fs OR LARGE else fs))))"

text \<open>A format as what its author meant: characters and conversions. A width or precision is absent,
  a number or taken from the arguments; a precision may also be a lone point.\<close>

datatype width_spec = No_Width | Width nat | Width_Arg
datatype prec_spec = No_Precision | Precision nat | Precision_Arg | Precision_Dot
datatype piece = Plain char | Conv string width_spec prec_spec "char option" char

abbreviation decimal :: "nat \<Rightarrow> string" where
  "decimal n \<equiv> numeral_text 10 small_digits n"

fun width_chars :: "width_spec \<Rightarrow> string" where
  "width_chars No_Width = []"
| "width_chars (Width n) = decimal n"
| "width_chars Width_Arg = ''*''"

fun prec_chars :: "prec_spec \<Rightarrow> string" where
  "prec_chars No_Precision = []"
| "prec_chars (Precision n) = CHR ''.'' # decimal n"
| "prec_chars Precision_Arg = ''.*''"
| "prec_chars Precision_Dot = ''.''"

fun piece_chars :: "piece \<Rightarrow> string" where
  "piece_chars (Plain c) = [c]"
| "piece_chars (Conv fl w p q l) =
     CHR ''%'' # fl @ width_chars w @ prec_chars p @ (case q of None \<Rightarrow> [] | Some c \<Rightarrow> [c]) @ [l]"

text \<open>The largest number \<open>skip_atoi\<close> reads is \<open>2 ^ 31 - 49\<close>.\<close>

definition atoi_limit :: nat where "atoi_limit = 2147483600"

fun piece_ok :: "piece \<Rightarrow> bool" where
  "piece_ok (Plain c) \<longleftrightarrow> c \<noteq> CHR ''%''"
| "piece_ok (Conv fl w p q l) \<longleftrightarrow>
     set fl \<subseteq> set ''-+ #0'' \<and>
     (case w of Width n \<Rightarrow> 0 < n \<and> n < atoi_limit | _ \<Rightarrow> True) \<and>
     (case p of Precision n \<Rightarrow> n < atoi_limit | _ \<Rightarrow> True) \<and>
     (case q of None \<Rightarrow> l \<notin> set ''hl'' | Some c \<Rightarrow> c \<in> set ''hl'') \<and>
     l \<notin> set ''-+ #*.0123456789''"

definition flags_of :: "string \<Rightarrow> u8" where
  "flags_of fl = (if CHR ''-'' \<in> set fl then LEFT else 0) OR (if CHR ''+'' \<in> set fl then PLUS else 0) OR
     (if CHR '' '' \<in> set fl then SPACE else 0) OR (if CHR ''#'' \<in> set fl then SPECIAL else 0) OR
     (if CHR ''0'' \<in> set fl then ZEROPAD else 0)"

text \<open>A negative width from the arguments means left justified; a negative precision means zero.\<close>

fun width_value :: "width_spec \<Rightarrow> u8 \<Rightarrow> u32 list \<Rightarrow> (int \<times> u8 \<times> u32 list) option" where
  "width_value No_Width fs args = Some (- 1, fs, args)"
| "width_value (Width n) fs args = Some (int n, fs, args)"
| "width_value Width_Arg fs args =
     (case args of [] \<Rightarrow> None | a # args \<Rightarrow>
        if sint a = - (2 ^ 31) then None
        else Some (\<bar>sint a\<bar>, if sint a < 0 then fs OR LEFT else fs, args))"

fun prec_value :: "prec_spec \<Rightarrow> u32 list \<Rightarrow> (int \<times> u32 list) option" where
  "prec_value No_Precision args = Some (- 1, args)"
| "prec_value (Precision n) args = Some (int n, args)"
| "prec_value Precision_Arg args = (case args of [] \<Rightarrow> None | a # args \<Rightarrow> Some (max 0 (sint a), args))"
| "prec_value Precision_Dot args = Some (0, args)"

text \<open>The text of a format.\<close>

fun format_text :: "(u32 \<Rightarrow> u8 list option) \<Rightarrow> piece list \<Rightarrow> u32 list \<Rightarrow> text8 option" where
  "format_text strs [] args = Some []"
| "format_text strs (Plain c # ps) args = map_option ((#) (of_char c)) (format_text strs ps args)"
| "format_text strs (Conv fl w p q l # ps) args =
     Option.bind (width_value w (flags_of fl) args) (\<lambda>(w, fs, args).
       Option.bind (prec_value p args) (\<lambda>(p, args).
         Option.bind (conversion_text strs fs w p q l args) (\<lambda>(args, t).
           map_option ((@) t) (format_text strs ps args))))"

declare vsnprintf_loop.simps [simp del] numeral_text.simps [simp del] digit_loop.simps [simp del]

section \<open>The parser reads what was meant\<close>

definition flag_of :: "char \<Rightarrow> u8" where
  "flag_of c = (if c = CHR ''-'' then LEFT else if c = CHR ''+'' then PLUS else if c = CHR '' '' then SPACE
     else if c = CHR ''#'' then SPECIAL else if c = CHR ''0'' then ZEROPAD else 0)"

lemma flags_of_Cons: "flags_of (c # fl) = flag_of c OR flags_of fl"
proof -
  have m: "(if a \<in> set (c # fl) then A else 0) = (if c = a then A else 0) OR (if a \<in> set fl then A else 0)" for a and A :: u8
    by auto
  have f: "flag_of c = (if c = CHR ''-'' then LEFT else 0) OR (if c = CHR ''+'' then PLUS else 0) OR
     (if c = CHR '' '' then SPACE else 0) OR (if c = CHR ''#'' then SPECIAL else 0) OR (if c = CHR ''0'' then ZEROPAD else 0)"
    by (auto simp: flag_of_def)
  show ?thesis unfolding flags_of_def m f by (simp only: or.assoc or.left_commute or.commute)
qed

lemma parse_flags_of:
  "set fl \<subseteq> set ''-+ #0'' \<Longrightarrow> c \<notin> set ''-+ #0'' \<Longrightarrow> parse_flags fs (fl @ c # r) = (fs OR flags_of fl, c # r)"
proof (induction fl arbitrary: fs)
  case Nil
  then show ?case by (simp add: flags_of_def)
next
  case (Cons x fl)
  then have "x \<in> set ''-+ #0''" "parse_flags (fs OR flag_of x) (fl @ c # r) = ((fs OR flag_of x) OR flags_of fl, c # r)"
    by auto
  then show ?case by (auto simp: flags_of_Cons flag_of_def or.assoc)
qed

lemma decimal_digit:
  assumes "n < 10" shows "is_digit (small_digits ! n)" "(of_char (small_digits ! n) :: int) = 48 + int n"
proof -
  have "n = 0 \<or> n = 1 \<or> n = 2 \<or> n = 3 \<or> n = 4 \<or> n = 5 \<or> n = 6 \<or> n = 7 \<or> n = 8 \<or> n = 9" using assms by presburger
  then show "is_digit (small_digits ! n)" "(of_char (small_digits ! n) :: int) = 48 + int n"
    by (elim disjE; simp add: small_digits_def is_digit_def)+
qed

lemma decimal_step: "10 \<le> n \<Longrightarrow> decimal n = decimal (n div 10) @ [small_digits ! (n mod 10)]"
  by (subst numeral_text.simps) simp

lemma decimal_small: "n < 10 \<Longrightarrow> decimal n = [small_digits ! n]"
  by (subst numeral_text.simps) simp

lemma skip_atoi_decimal: "n < atoi_limit \<Longrightarrow> skip_atoi 0 (decimal n @ r) = skip_atoi (int n) r"
proof (induction n arbitrary: r rule: less_induct)
  case (less n)
  show ?case
  proof (cases "n < 10")
    case True
    then show ?thesis using decimal_digit[OF True] by (simp add: decimal_small)
  next
    case False
    let ?d = "n mod 10"
    have d: "?d < 10" by simp
    have "skip_atoi 0 (decimal n @ r) = skip_atoi (int (n div 10)) (small_digits ! ?d # r)"
      using less False by (simp add: decimal_step atoi_limit_def)
    moreover have "int (n div 10) * 10 + int ?d = int n" by (simp add: zdiv_int zmod_int)
    moreover have "int n < 2147483600" using less.prems by (simp add: atoi_limit_def)
    ultimately show ?thesis using decimal_digit[OF d] by simp
  qed
qed

text \<open>The numeral of a positive number starts with a digit other than zero.\<close>

lemma decimal_Cons:
  "\<exists>c s. decimal n = c # s \<and> is_digit c \<and> (0 < n \<longrightarrow> c \<noteq> CHR ''0'')"
proof (induction n rule: less_induct)
  case (less n)
  show ?case
  proof (cases "n < 10")
    case True
    have "small_digits ! n \<noteq> CHR ''0''" if "0 < n"
      using decimal_digit(2)[OF True] that by auto
    then show ?thesis using decimal_digit(1)[OF True] by (simp add: decimal_small True)
  next
    case False
    then have "n div 10 < n" "0 < n div 10" "10 \<le> n" by simp_all
    then show ?thesis using less[of "n div 10"] unfolding decimal_step[OF \<open>10 \<le> n\<close>] by auto
  qed
qed

text \<open>What may follow a flag, a width or a precision.\<close>

lemma parse_width_of:
  assumes "case w of Width n \<Rightarrow> 0 < n \<and> n < atoi_limit | _ \<Rightarrow> True"
    and c: "\<not> is_digit c" "w = No_Width \<Longrightarrow> c \<noteq> CHR ''*''"
  shows "parse_width fs (width_chars w @ c # r) args =
    map_option (\<lambda>(w, fs, args). (w, fs, c # r, args)) (width_value w fs args)"
proof (cases w)
  case No_Width
  then show ?thesis using c by (simp add: parse_width_def)
next
  case (Width n)
  obtain d s where d: "decimal n = d # s" "is_digit d" using decimal_Cons[of n] by blast
  have "skip_atoi 0 (decimal n @ c # r) = Some (int n, c # r)"
    using assms(1) c(1) Width by (simp add: skip_atoi_decimal)
  then show ?thesis using d Width by (simp add: parse_width_def)
next
  case Width_Arg
  have "\<not> is_digit CHR ''*''" by (simp add: is_digit_def)
  moreover have "- sint a < 2 ^ 31 \<longleftrightarrow> sint a \<noteq> - (2 ^ 31)" for a :: u32 using sint_ge[of a] by auto
  ultimately show ?thesis
    using Width_Arg by (auto simp: parse_width_def next_arg_def split: list.split)
qed

lemma parse_precision_of:
  assumes "case p of Precision n \<Rightarrow> n < atoi_limit | _ \<Rightarrow> True"
    and c: "\<not> is_digit c" "c \<noteq> CHR ''.''" "c \<noteq> CHR ''*''"
  shows "parse_precision (prec_chars p @ c # r) args =
    map_option (\<lambda>(p, args). (p, c # r, args)) (prec_value p args)"
proof (cases p)
  case No_Precision
  have "(case c # r of CHR ''.'' # s \<Rightarrow> X s | _ \<Rightarrow> Y) = Y" for X and Y :: "'z"
    using c(2) by (simp split: char.split bool.split)
  then show ?thesis using No_Precision by (simp add: parse_precision_def)
next
  case (Precision n)
  obtain d s where d: "decimal n = d # s" "is_digit d" using decimal_Cons[of n] by blast
  have "skip_atoi 0 (decimal n @ c # r) = Some (int n, c # r)"
    using assms(1) c(1) Precision by (simp add: skip_atoi_decimal)
  then show ?thesis using d Precision by (simp add: parse_precision_def)
next
  case Precision_Arg
  have "\<not> is_digit CHR ''*''" by (simp add: is_digit_def)
  then show ?thesis
    using Precision_Arg by (auto simp: parse_precision_def next_arg_def split: list.split)
next
  case Precision_Dot
  then show ?thesis using c by (simp add: parse_precision_def)
qed

lemma not_digit: "c \<notin> set ''0123456789'' \<Longrightarrow> \<not> is_digit c"
proof
  assume c: "c \<notin> set ''0123456789''" and "is_digit c"
  then obtain n :: nat where n: "n = of_char c" "48 \<le> n" "n < 58" by (simp add: is_digit_def)
  from n(2,3) have "n = 48 \<or> n = 49 \<or> n = 50 \<or> n = 51 \<or> n = 52 \<or> n = 53 \<or> n = 54 \<or> n = 55 \<or> n = 56 \<or> n = 57"
    by presburger
  moreover have "c = d" if "of_char c = (of_char d :: nat)" for d using that by simp
  note this[of "CHR ''0''"] this[of "CHR ''1''"] this[of "CHR ''2''"] this[of "CHR ''3''"] this[of "CHR ''4''"]
    this[of "CHR ''5''"] this[of "CHR ''6''"] this[of "CHR ''7''"] this[of "CHR ''8''"] this[of "CHR ''9''"]
  ultimately show False using c n(1) by auto
qed

text \<open>The head of what follows the flags, the width and the precision of a conversion.\<close>

lemma parse_conversion_of:
  assumes ok: "piece_ok (Conv fl w p q l)"
  shows "parse_conversion (tl (piece_chars (Conv fl w p q l)) @ r) args =
    Option.bind (width_value w (flags_of fl) args) (\<lambda>(wv, fs, args).
      Option.bind (prec_value p args) (\<lambda>(pv, args).
        Some (\<lparr>cv_flags = fs, cv_width = wv, cv_precision = pv, cv_qualifier = q\<rparr>, l # r, args)))"
proof -
  note ok' = ok[unfolded piece_ok.simps]
  obtain c s where c: "(case q of None \<Rightarrow> [] | Some c \<Rightarrow> [c]) @ l # r = c # s"
    "c \<notin> set ''-+ #*.0123456789''" "parse_qualifier (c # s) = (q, l # r)"
    using ok' by (cases q) (auto simp: parse_qualifier_def)
  have cd: "\<not> is_digit c" "c \<noteq> CHR ''.''" "c \<noteq> CHR ''*''" "c \<notin> set ''-+ #0''" using c(2) not_digit[of c] by auto
  obtain c1 s1 where c1: "prec_chars p @ c # s = c1 # s1" "\<not> is_digit c1" "c1 \<noteq> CHR ''*''" "c1 \<notin> set ''-+ #0''"
    using cd by (cases p) (auto simp: is_digit_def)
  obtain c2 s2 where c2: "width_chars w @ c1 # s1 = c2 # s2" "c2 \<notin> set ''-+ #0''"
  proof (cases w)
    case (Width n)
    obtain d t where d: "decimal n = d # t" "is_digit d" "d \<noteq> CHR ''0''"
      using decimal_Cons[of n] ok' Width by auto
    then have "d \<notin> set ''-+ #0''" by (auto simp: is_digit_def)
    then show ?thesis using that[of d "t @ c1 # s1"] d Width by simp
  qed (use that c1 in auto)
  have "tl (piece_chars (Conv fl w p q l)) @ r = fl @ c2 # s2" using c(1) c1(1) c2(1) by (cases q) auto
  moreover have "parse_flags 0 (fl @ c2 # s2) = (flags_of fl, c2 # s2)" using parse_flags_of[OF _ c2(2), of fl 0] ok' by simp
  moreover have "parse_width fs (c2 # s2) args =
      map_option (\<lambda>(w, fs, args). (w, fs, c1 # s1, args)) (width_value w fs args)" for fs args
    using parse_width_of[of w c1 fs s1 args] ok' c1 by (simp add: c2(1)[symmetric])
  moreover have "parse_precision (c1 # s1) args =
      map_option (\<lambda>(p, args). (p, c # s, args)) (prec_value p args)" for args
    using parse_precision_of[of p c s args] ok' cd by (simp add: c1(1)[symmetric])
  ultimately show ?thesis
    by (auto simp: parse_conversion_def c(3) split: option.split prod.split bind_splits)
qed

section \<open>Output\<close>

text \<open>Every part of the output is the writing of a list of bytes.\<close>

lemma put_list_append: "put_list e (xs @ ys) st = Option.bind (put_list e xs st) (put_list e ys)"
  by (induction xs arbitrary: st) (simp_all split: bind_split add: split_paired_all)

lemma put_times_list: "put_times e c n = put_list e (replicate n c)"
proof (induction n)
  case (Suc n)
  show ?case by (rule ext) (simp add: Suc)
qed (simp add: fun_eq_iff)

lemma put_list_Nil: "put_list e [] = Some"
  by (rule ext) simp

lemma put_byte_list: "put_byte e c = put_list e [c]"
  by (rule ext) (simp add: put_list_Nil)

declare put_list.simps(2) [simp del]

lemma bind_put_list:
  "Option.bind (put_list e xs st) (put_list e ys) = put_list e (xs @ ys) st"
  "Option.bind (put_list e xs st) (\<lambda>st. Option.bind (put_list e ys st) f) = Option.bind (put_list e (xs @ ys) st) f"
  by (simp_all add: put_list_append)

lemmas out_simps = put_times_list put_byte_list pad_down_def bind_put_list

text \<open>As long as the pointer does not wrap, it runs on by the length of the text, and only the buffer
  changes.\<close>

lemma put_list_frame:
  "put_list e cs st = Some st' \<Longrightarrow> fst st + length cs < 2 ^ 32 \<Longrightarrow>
   fst st' = fst st + length cs \<and> (\<forall>a. a < fst st \<or> e \<le> a \<longrightarrow> snd st' a = snd st a)"
proof (induction cs arbitrary: st)
  case Nil
  then show ?case by simp
next
  case (Cons c cs)
  then obtain st1 where st1: "put_byte e c st = Some st1" "put_list e cs st1 = Some st'"
    by (auto simp: put_list.simps(2) bind_eq_Some_conv)
  have a: "fst st1 = fst st + 1" "\<forall>a. a < fst st \<or> e \<le> a \<longrightarrow> snd st1 a = snd st a"
    using st1(1) Cons.prems(2) by (auto simp: put_byte_def store8_def bind_eq_Some_conv split: prod.splits if_splits)
  then show ?case using Cons.IH[OF st1(2)] Cons.prems(2) by auto
qed

text \<open>What writing a text leaves behind.\<close>

definition room :: "nat \<Rightarrow> out \<Rightarrow> bool" where
  "room e st \<longleftrightarrow> (\<forall>a. fst st \<le> a \<and> a < e \<longrightarrow> snd st a \<noteq> None)"

definition emitted :: "nat \<Rightarrow> text8 \<Rightarrow> out \<Rightarrow> out" where
  "emitted e cs st = (fst st + length cs,
     \<lambda>a. if fst st \<le> a \<and> a < fst st + length cs \<and> a < e then Some (cs ! (a - fst st)) else snd st a)"

lemma emitted_Nil [simp]: "emitted e [] st = st"
  by (cases st) (auto simp: emitted_def fun_eq_iff)

lemma emitted_append: "emitted e ys (emitted e xs st) = emitted e (xs @ ys) st"
  by (auto simp: emitted_def nth_append fun_eq_iff)

lemma room_emitted: "room e st \<Longrightarrow> room e (emitted e cs st)"
  by (auto simp: room_def emitted_def)

lemma put_byte_emitted: "room e st \<Longrightarrow> fst st + 1 < 2 ^ 32 \<Longrightarrow> put_byte e c st = Some (emitted e [c] st)"
  by (cases st) (auto simp: put_byte_def room_def emitted_def store8_def fun_eq_iff)

lemma put_list_emitted: "room e st \<Longrightarrow> fst st + length cs < 2 ^ 32 \<Longrightarrow> put_list e cs st = Some (emitted e cs st)"
proof (induction cs arbitrary: st)
  case (Cons c cs)
  have "put_list e cs (emitted e [c] st) = Some (emitted e cs (emitted e [c] st))"
    by (rule Cons.IH[OF room_emitted[OF Cons.prems(1)]]) (use Cons.prems(2) in \<open>simp add: emitted_def\<close>)
  then show ?case using Cons.prems emitted_append[of e cs "[c]" st] by (simp add: put_byte_emitted put_list.simps(2))
qed simp

section \<open>Numbers\<close>

lemma flag_bits: "flag ZEROPAD fs \<longleftrightarrow> bit fs 0" "flag LEFT fs \<longleftrightarrow> bit fs 4" "flag SIGN fs \<longleftrightarrow> bit fs 1"
  "flag PLUS fs \<longleftrightarrow> bit fs 2" "flag SPACE fs \<longleftrightarrow> bit fs 3" "flag LARGE fs \<longleftrightarrow> bit fs 6"
  using and_exp_eq_0_iff_not_bit[of fs 0] and_exp_eq_0_iff_not_bit[of fs 4] and_exp_eq_0_iff_not_bit[of fs 1]
    and_exp_eq_0_iff_not_bit[of fs 2] and_exp_eq_0_iff_not_bit[of fs 3] and_exp_eq_0_iff_not_bit[of fs 6]
  by (simp_all add: ZEROPAD_def LEFT_def SIGN_def PLUS_def SPACE_def LARGE_def)

lemma no_padding_flags: "fs AND (ZEROPAD OR LEFT) = 0 \<longleftrightarrow> \<not> bit fs 0 \<and> \<not> bit fs 4"
proof -
  have "fs AND (ZEROPAD OR LEFT) = (fs AND ZEROPAD) OR (fs AND LEFT)" by (simp add: bit.conj_disj_distrib)
  then show ?thesis using flag_bits(1,2)[of fs] by (metis (no_types) or_eq_0_iff)
qed

lemma bit_zeropad_off: "bit (fs AND NOT ZEROPAD) i \<longleftrightarrow> bit fs i \<and> i \<noteq> 0"
  by (auto simp: ZEROPAD_def bit_simps dest: bit_imp_le_length)

lemma digit_loop_numeral:
  assumes b: "b = (if base = 10 then 10 else 16)"
  shows "0 < n \<Longrightarrow> n < b ^ k \<Longrightarrow> length tmp + k \<le> 16 \<Longrightarrow>
    digit_loop base dg n tmp = Some (tmp @ rev (numeral_text b dg n)) \<and> length (numeral_text b dg n) \<le> k"
proof (induction k arbitrary: n tmp)
  case (Suc k)
  have d: "divide n base = (n mod b, n div b)" by (simp add: b divide_def)
  have b2: "2 \<le> b" by (simp add: b)
  have st: "digit_loop base dg n tmp = digit_loop base dg (n div b) (tmp @ [dg ! (n mod b)])"
    by (subst digit_loop.simps) (use Suc.prems d in simp)
  show ?case
  proof (cases "n < b")
    case True
    then show ?thesis using st b2 by (simp add: digit_loop.simps numeral_text.simps)
  next
    case False
    have "n div b < b ^ k" using Suc.prems(2) b2 by (simp add: less_mult_imp_div_less mult.commute)
    moreover have "0 < n div b" using False b2 by (simp add: div_greater_zero_iff)
    ultimately have "digit_loop base dg (n div b) (tmp @ [dg ! (n mod b)]) =
        Some ((tmp @ [dg ! (n mod b)]) @ rev (numeral_text b dg (n div b))) \<and> length (numeral_text b dg (n div b)) \<le> k"
      using Suc.prems(3) by (intro Suc.IH) simp_all
    then show ?thesis using False b2 st by (subst (1 2) numeral_text.simps) simp
  qed
qed simp

lemma unat_magnitude: "sint (num :: u32) < 0 \<Longrightarrow> unat (- num) = nat \<bar>sint num\<bar>"
proof -
  assume n: "sint num < 0"
  have l: "- (2 ^ 31) \<le> sint num" using sint_ge[of num] by simp
  have "- num = word_of_int (- sint num)" by simp
  then have "uint (- num) = uint (word_of_int (- sint num) :: u32)" by (rule arg_cong)
  also have "\<dots> = - sint num" using n l by (simp only: unsigned_of_int) (simp add: take_bit_eq_mod)
  finally show ?thesis using n by (simp add: unat_eq_nat_uint)
qed

lemma place_digits_list:
  assumes sg: "sg = (if sign = 0 then [] else [sign])" and w: "pad = w - max (int (length tmp)) p - int (length sg)"
    and body: "body = zeros (p - int (length tmp)) @ (if p = 0 then [] else map of_char (rev tmp))"
  shows "place_digits e sign type tmp w p st = put_list e
    (if bit type 4 then sg @ body @ blanks pad
     else if bit type 0 then sg @ zeros pad @ body else blanks pad @ sg @ body) st"
proof (cases "bit type 4")
  case True
  then show ?thesis
    unfolding place_digits_def w sg body flag_bits no_padding_flags
    by (simp add: out_simps Let_def blanks_def zeros_def)
next
  case left: False
  show ?thesis
  proof (cases "bit type 0")
    case True
    then show ?thesis
      using left unfolding place_digits_def w sg body flag_bits no_padding_flags
      by (simp add: out_simps Let_def blanks_def zeros_def)
  next
    case False
    then show ?thesis
      using left unfolding place_digits_def w sg body flag_bits no_padding_flags
      by (cases tmp) (simp_all add: out_simps Let_def blanks_def zeros_def)
  qed
qed

lemma numeral_text_0: "2 \<le> b \<Longrightarrow> numeral_text b dg 0 = [dg ! 0]"
  by (simp add: numeral_text.simps)

lemma digits_of_word:
  assumes b: "b = (if base = 10 then 10 else 16)" and dg: "dg ! 0 = CHR ''0''"
  shows "(if num = 0 then Some ''0'' else digit_loop base dg (unat (num :: u32)) []) =
    Some (rev (numeral_text b dg (unat num)))"
proof (cases "num = 0")
  case True
  then show ?thesis using b dg by (simp add: numeral_text_0)
next
  case False
  have "unat num < 2 ^ 32" using unsigned_less[of num] by simp
  then have "unat num < b ^ 10" by (simp add: b)
  moreover have "0 < unat num" using False by (simp add: unat_gt_0)
  ultimately show ?thesis using False digit_loop_numeral[OF b, of "unat num" 10 "[]" dg] by simp
qed

lemma digits_0: "small_digits ! 0 = CHR ''0''" "large_digits ! 0 = CHR ''0''"
  by (simp_all add: small_digits_def large_digits_def)

lemma of_char_nonzero: "(of_char CHR ''-'' :: u8) \<noteq> 0" "(of_char CHR ''+'' :: u8) \<noteq> 0" "(of_char CHR '' '' :: u8) \<noteq> 0"
  by simp_all

lemma unat_nonneg: "0 \<le> sint (num :: u32) \<Longrightarrow> unat num = nat \<bar>sint num\<bar>"
proof -
  assume n: "0 \<le> sint num"
  have "sint num < 2 ^ 31" using sint_lt[of num] by simp
  then have "uint num = sint num" using n by (simp only: uint_sint) (simp add: take_bit_eq_mod)
  then show ?thesis using n by (simp add: unat_eq_nat_uint)
qed

lemma print_number_list:
  "print_number e num base w p fs st = put_list e (number_text num (if base = 10 then 10 else 16) w p fs) st"
proof -
  let ?dg = "if bit fs 6 then large_digits else small_digits"
  obtain b where b: "b = (if base = 10 then 10 else 16 :: nat)" by blast
  obtain sign mag where s: "(if bit fs 1 then
      if sint num < 0 then (of_char CHR ''-'', - num) else if bit fs 2 then (of_char CHR ''+'', num)
      else if bit fs 3 then (of_char CHR '' '', num) else (0, num) else (0 :: u8, num)) = (sign, mag)"
    by (rule prod.exhaust)
  have sg: "sign_text num fs = (if sign = 0 then [] else [sign])"
    using s of_char_nonzero by (auto simp: sign_text_def flag_bits split: if_splits)
  have mag: "unat mag = (if bit fs 1 then nat \<bar>sint num\<bar> else unat num)"
    using s unat_magnitude[of num] unat_nonneg[of num] by (auto split: if_splits)
  obtain type where type: "type = (if bit fs 4 then fs AND NOT ZEROPAD else fs)" by blast
  have ty: "bit type 4 = bit fs 4" "bit type 1 = bit fs 1" "bit type 2 = bit fs 2" "bit type 3 = bit fs 3" "bit type 0 \<longleftrightarrow> bit fs 0 \<and> \<not> bit fs 4"
    by (simp_all add: type bit_zeropad_off)
  obtain ds where ds: "ds = numeral_text b ?dg (unat mag)" by blast
  have tmp: "(if mag = 0 then Some ''0'' else digit_loop base ?dg (unat mag) []) = Some (rev ds)"
    unfolding ds by (rule digits_of_word[OF b]) (simp add: digits_0)
  have "print_number e num base w p fs st = place_digits e sign type (rev ds) w p st"
    unfolding print_number_def flag_bits Let_def type[symmetric] ty s prod.case tmp bind.bind_lunit ..
  also have "\<dots> = put_list e (number_text num b w p fs) st"
    unfolding place_digits_list[OF sg refl refl] number_text_def flag_bits Let_def ty
    by (simp add: ds mag)
  finally show ?thesis unfolding b .
qed

section \<open>Conversions\<close>

lemma print_char_list:
  "print_char e cv a st = put_list e (field (flag LEFT (cv_flags cv)) (cv_width cv) [ucast a]) st"
  by (auto simp: print_char_def pad_predec_def out_simps field_def blanks_def)

text \<open>A string outside the buffer is the same whatever was written.\<close>

definition string_outside :: "nat \<Rightarrow> nat \<Rightarrow> memory \<Rightarrow> nat \<Rightarrow> u8 list \<Rightarrow> bool" where
  "string_outside b e m s xs \<longleftrightarrow> cstr s xs m \<and> s + length xs < 2 ^ 32 \<and> (s + length xs < b \<or> e \<le> s)"

lemma cstr_cong: "(\<And>a. s \<le> a \<Longrightarrow> a \<le> s + length xs \<Longrightarrow> m' a = m a) \<Longrightarrow> cstr s xs m' = cstr s xs m"
  by (induction xs arbitrary: s) auto

lemma string_outside_put:
  assumes o: "string_outside b e (snd st) s xs" and b: "b \<le> fst st"
    and r: "put_list e cs st = Some st'" "fst st + length cs < 2 ^ 32"
  shows "string_outside b e (snd st') s xs" "b \<le> fst st'"
proof -
  note f = put_list_frame[OF r]
  show "b \<le> fst st'" using f b by simp
  have "cstr s xs (snd st') = cstr s xs (snd st)"
    by (rule cstr_cong) (use f o b in \<open>auto simp: string_outside_def\<close>)
  then show "string_outside b e (snd st') s xs" using o by (simp add: string_outside_def)
qed

lemma put_string_list:
  "b \<le> fst st \<Longrightarrow> string_outside b e (snd st) s xs \<Longrightarrow> n \<le> length xs \<Longrightarrow> fst st + n < 2 ^ 32 \<Longrightarrow>
   put_string e s n st = put_list e (take n xs) st"
proof (induction n arbitrary: s xs st)
  case (Suc n)
  then obtain x xs' where x: "xs = x # xs'" by (cases xs) auto
  have s: "snd st s = Some x" "(s + 1) mod 2 ^ 32 = Suc s" using Suc.prems(2) x by (auto simp: string_outside_def)
  have "put_string e (Suc s) n st1 = put_list e (take n xs') st1" if p: "put_byte e x st = Some st1" for st1
  proof -
    have l: "put_list e [x] st = Some st1" "fst st + length [x] < 2 ^ 32" using p Suc.prems(4) by (simp_all add: put_byte_list)
    note o = string_outside_put[OF Suc.prems(2,1) l]
    have "string_outside b e (snd st1) (Suc s) xs'" using o(1) x by (auto simp: string_outside_def)
    then show ?thesis using o(2) put_list_frame[OF l] Suc.prems(3,4) x by (intro Suc.IH) simp_all
  qed
  then show ?case using s x by (cases "put_byte e x st") (simp_all add: put_list.simps(2))
qed simp

lemma print_string_list:
  assumes b: "b \<le> fst st"
    and cs: "if a = 0 then cs = map of_char ''(NULL)'' else string_outside b e (snd st) (unat a) cs"
    and t: "t = field (flag LEFT (cv_flags cv)) (cv_width cv) (if cv_precision cv > 0 then take (nat (cv_precision cv)) cs else cs)"
    and fits: "fst st + length t < 2 ^ 32"
  shows "print_string e cv a st = put_list e t st"
proof -
  obtain n where n: "n = (if cv_precision cv > 0 \<and> int (length cs) > cv_precision cv then nat (cv_precision cv) else length cs)"
    by blast
  have le: "n \<le> length cs" by (auto simp: n)
  have t': "t = field (flag LEFT (cv_flags cv)) (cv_width cv) (take n cs)" by (auto simp: n t)
  have len: "(if a = 0 then Some 6 else rt_strlen (unat a) (snd st)) = Some (length cs)"
    using cs strlen_cstr by (auto simp: string_outside_def split: if_splits)
  obtain P where P: "P = (\<lambda>st'. if a = 0 then put_list e (map of_char (take n ''(NULL)'')) st' else put_string e (unat a) n st')"
    by blast
  have body: "P st' = put_list e (take n cs) st'" if "put_list e pre st = Some st'" "fst st + length pre + n < 2 ^ 32" for st' pre
  proof (cases "a = 0")
    case True
    then have "map of_char (take n ''(NULL)'') = take n cs" using cs by (simp only: take_map if_True)
    then show ?thesis using True by (simp add: P)
  next
    case False
    have "fst st + length pre < 2 ^ 32" using that(2) by simp
    from string_outside_put[OF _ b that(1) this, of "unat a" cs] put_list_frame[OF that(1) this]
    show ?thesis using False cs that(2) le put_string_list[of b st' e "unat a" cs n] by (simp add: P)
  qed
  have PQ: "Option.bind (put_list e pre st) (\<lambda>st. Option.bind (P st) Q) = Option.bind (put_list e (pre @ take n cs) st) Q"
    if "fst st + length pre + n < 2 ^ 32" for pre and Q :: "out \<Rightarrow> out option"
    using body[OF _ that] by (cases "put_list e pre st") (simp_all add: put_list_append)
  have P0: "P st = put_list e (take n cs) st" using body[of "[]" st] fits t' le by (auto simp: field_def split: if_splits)
  have "print_string e cv a st = do {
      (w, st) \<leftarrow> (if \<not> flag LEFT (cv_flags cv) then pad_to e (int n) (cv_width cv) st else Some (cv_width cv, st));
      st \<leftarrow> P st; (w, st) \<leftarrow> pad_to e (int n) w st; Some st }"
    unfolding print_string_def len bind.bind_lunit Let_def n[symmetric] P ..
  then show ?thesis
    using fits unfolding t' by (auto simp: out_simps pad_to_def field_def blanks_def PQ P0 le min_absorb2)
qed

lemma number_arg_value: "number_arg cv fs a = arg_number (cv_qualifier cv) (flag SIGN fs) a"
proof -
  have "(scast (ucast a :: u16) :: u32) = word_of_int ((uint a + 2 ^ 15) mod 2 ^ 16 - 2 ^ 15)"
  proof -
    have "sint (ucast a :: u16) = signed_take_bit 15 (uint a)" by (simp add: signed_ucast_eq)
    also have "\<dots> = (uint a + 2 ^ 15) mod 2 ^ 16 - 2 ^ 15"
      by (simp add: signed_take_bit_eq_take_bit_shift take_bit_eq_mod)
    finally show ?thesis by (metis of_int_sint)
  qed
  moreover have "(ucast (ucast a :: u16) :: u32) = word_of_int (uint a mod 2 ^ 16)"
  proof -
    have "uint (ucast a :: u16) = uint a mod 2 ^ 16" by (simp add: unsigned_ucast_eq take_bit_eq_mod)
    then show ?thesis by (metis of_int_uint)
  qed
  ultimately show ?thesis by (simp add: number_arg_def arg_number_def)
qed

lemma bind_pair: "Option.bind x (\<lambda>st. Some (args, st)) = map_option (Pair args) x"
  by (cases x) simp_all

lemma bind_put_map:
  "Option.bind (put_list e xs st) (\<lambda>st. map_option f (put_list e ys st)) = map_option f (put_list e (xs @ ys) st)"
  by (cases "put_list e xs st") (simp_all add: put_list_append)

lemma print_conversion_list:
  assumes c: "conversion_text strs (cv_flags cv) (cv_width cv) (cv_precision cv) (cv_qualifier cv) l args = Some (args', t)"
    and b: "b \<le> fst st" and fits: "fst st + length t < 2 ^ 32" and fs: "\<not> bit (cv_flags cv) 1"
    and strs: "\<forall>a xs. strs a = Some xs \<longrightarrow> string_outside b e (snd st) (unat a) xs"
  shows "print_conversion e cv (l # r) args st = map_option (Pair args') (put_list e t st)"
proof -
  consider "l = CHR ''%''" | "l \<noteq> CHR ''%''" "l \<notin> set ''cspdiuxXo''" | "l \<in> set ''cspdiuxXo''" by blast
  then show ?thesis
  proof cases
    case 1
    then show ?thesis using c by (simp add: conversion_text_def print_conversion_def put_byte_list bind_pair)
  next
    case 2
    then have "l \<noteq> CHR ''c''" "l \<noteq> CHR ''s''" "l \<noteq> CHR ''p''" "l \<notin> set ''oXxdiu''" by auto
    then show ?thesis
      using c 2 by (auto simp add: conversion_text_def print_conversion_def put_byte_list bind_pair bind_put_map simp del: list.set)
  next
    case 3
    then have np: "l \<noteq> CHR ''%''" by auto
    obtain a as where a: "args = a # as"
      using c 3 np by (cases args) (simp_all add: conversion_text_def del: list.set)
    have b1: "\<not> bit (cv_flags cv OR LARGE) 1" "bit (cv_flags cv OR SIGN) 1"
      using fs by (simp_all add: LARGE_def SIGN_def bit_or_iff)
    show ?thesis
    proof (cases "l = CHR ''s''")
      case True
      then obtain cs where cs: "if a = 0 then cs = map of_char ''(NULL)'' else strs a = Some cs"
        "t = field (flag LEFT (cv_flags cv)) (cv_width cv) (if cv_precision cv > 0 then take (nat (cv_precision cv)) cs else cs)"
        "args' = as"
        using c a by (auto simp: conversion_text_def split: if_splits)
      have "if a = 0 then cs = map of_char ''(NULL)'' else string_outside b e (snd st) (unat a) cs"
        using cs(1) strs by (auto split: if_splits)
      from print_string_list[OF b this cs(2) fits] show ?thesis
        using a True cs(3) by (simp add: print_conversion_def next_arg_def bind_pair)
    next
      case False
      then have "l = CHR ''c'' \<or> l = CHR ''p'' \<or> l = CHR ''d'' \<or> l = CHR ''i'' \<or> l = CHR ''u'' \<or> l = CHR ''x'' \<or>
          l = CHR ''X'' \<or> l = CHR ''o''" using 3 by auto
      then show ?thesis
        using c unfolding a
        by (elim disjE; cases "cv_width cv = - 1")
          (auto simp: conversion_text_def print_conversion_def next_arg_def Let_def bind_pair
            print_char_list print_number_list number_arg_value flag_bits b1 fs simp del: One_nat_def)
    qed
  qed
qed

lemma width_value_unsigned: "width_value w (flags_of fl) args = Some (wv, fs, args') \<Longrightarrow> \<not> bit fs 1"
  by (cases w) (auto simp: flags_of_def bit_or_iff LEFT_def PLUS_def SPACE_def SPECIAL_def ZEROPAD_def split: list.splits if_splits)

lemma vsnprintf_loop_list:
  "list_all piece_ok ps \<Longrightarrow> format_text strs ps args = Some cs \<Longrightarrow> b \<le> fst st \<Longrightarrow> fst st + length cs < 2 ^ 32 \<Longrightarrow>
   \<forall>a xs. strs a = Some xs \<longrightarrow> string_outside b e (snd st) (unat a) xs \<Longrightarrow>
   vsnprintf_loop e (concat (map piece_chars ps)) args st = put_list e cs st"
proof (induction ps arbitrary: args cs st)
  case Nil
  then show ?case by (simp add: vsnprintf_loop.simps)
next
  case (Cons pc ps)
  have rest: "vsnprintf_loop e (concat (map piece_chars ps)) args2 st' = put_list e ds st'"
    if "format_text strs ps args2 = Some ds" "put_list e t st = Some st'" "fst st + length t + length ds < 2 ^ 32" for args2 ds t st'
  proof -
    have t: "fst st + length t < 2 ^ 32" using that(3) by simp
    show ?thesis
      using string_outside_put[OF _ Cons.prems(3) that(2) t] put_list_frame[OF that(2) t] that(1,3) Cons.prems(1,3,5)
      by (intro Cons.IH) auto
  qed
  show ?case
  proof (cases pc)
    case (Plain c)
    then obtain ds where ds: "format_text strs ps args = Some ds" "cs = [of_char c] @ ds" "c \<noteq> CHR ''%''"
      using Cons.prems(1,2) by auto
    have "vsnprintf_loop e (concat (map piece_chars (pc # ps))) args st =
        Option.bind (put_list e [of_char c] st) (vsnprintf_loop e (concat (map piece_chars ps)) args)"
      using Plain ds(3) by (simp add: vsnprintf_loop.simps put_byte_list)
    then show ?thesis
      using rest[OF ds(1), of "[of_char c]"] Cons.prems(4) unfolding ds(2) put_list_append
      by (cases "put_list e [of_char c] st") simp_all
  next
    case (Conv fl w p q l)
    obtain wv fs args1 where w: "width_value w (flags_of fl) args = Some (wv, fs, args1)"
      using Cons.prems(2) Conv by (auto simp: bind_eq_Some_conv)
    obtain pv args2 where p: "prec_value p args1 = Some (pv, args2)"
      using Cons.prems(2) Conv w by (auto simp: bind_eq_Some_conv)
    obtain args3 t ds where t: "conversion_text strs fs wv pv q l args2 = Some (args3, t)"
      "format_text strs ps args3 = Some ds" "cs = t @ ds"
      using Cons.prems(2) Conv w p by (auto simp: bind_eq_Some_conv)
    let ?cv = "\<lparr>cv_flags = fs, cv_width = wv, cv_precision = pv, cv_qualifier = q\<rparr>"
      and ?r = "concat (map piece_chars ps)"
    have ok: "piece_ok (Conv fl w p q l)" using Cons.prems(1) Conv by simp
    have c: "parse_conversion (tl (piece_chars pc) @ ?r) args = Some (?cv, l # ?r, args2)"
      unfolding Conv parse_conversion_of[OF ok] by (simp add: w p)
    have pr: "print_conversion e ?cv (l # ?r) args2 st = map_option (Pair args3) (put_list e t st)"
      by (rule print_conversion_list[OF _ Cons.prems(3)])
        (use t Cons.prems(4,5) width_value_unsigned[OF w] in simp_all)
    have "concat (map piece_chars (pc # ps)) = CHR ''%'' # tl (piece_chars pc) @ ?r" by (simp add: Conv)
    then have "vsnprintf_loop e (concat (map piece_chars (pc # ps))) args st =
        Option.bind (put_list e t st) (vsnprintf_loop e ?r args3)"
      using c pr by (cases "put_list e t st") (simp_all only: vsnprintf_loop.simps, simp_all)
    then show ?thesis
      using rest[OF t(2), of t] t(3) Cons.prems(4) by (cases "put_list e t st") (simp_all add: put_list_append)
  qed
qed

text \<open>The buffer afterwards: the text, cut to leave room for the terminator.\<close>

definition text_stored :: "nat \<Rightarrow> nat \<Rightarrow> text8 \<Rightarrow> memory \<Rightarrow> memory" where
  "text_stored buf sz cs m = (let k = min (length cs) (sz - 1) in
     (\<lambda>a. if buf \<le> a \<and> a < buf + k then Some (cs ! (a - buf)) else if a = buf + k then Some 0 else m a))"

lemma sint_difference: "n < 2 ^ 31 \<Longrightarrow> sint (word_of_nat (b + n) - word_of_nat b :: u32) = int n"
proof -
  assume n: "n < 2 ^ 31"
  have "word_of_nat (b + n) - word_of_nat b = (word_of_int (int n) :: u32)" by simp
  then have "sint (word_of_nat (b + n) - word_of_nat b :: u32) = sint (word_of_int (int n) :: u32)" by (rule arg_cong)
  also have "\<dots> = int n" using n by (simp only: signed_of_int) (simp add: signed_take_bit_int_eq_self_iff)
  finally show ?thesis .
qed

lemma vsnprintf_effect:
  assumes m: "mapped buf sz m" and sz: "0 < sz" "buf + sz < 2 ^ 32"
    and ps: "list_all piece_ok ps" and f: "format_text strs ps args = Some cs"
    and fits: "buf + length cs < 2 ^ 32" "length cs < atoi_limit"
    and strs: "\<forall>a xs. strs a = Some xs \<longrightarrow> string_outside buf (buf + sz) m (unat a) xs"
  shows "rt_vsnprintf buf sz (concat (map piece_chars ps)) args m = Some (int (length cs), text_stored buf sz cs m)"
proof -
  have r: "room (buf + sz) (buf, m)" using m by (auto simp: room_def mapped_def)
  obtain m' where m': "m' = snd (emitted (buf + sz) cs (buf, m))" by blast
  have "vsnprintf_loop (buf + sz) (concat (map piece_chars ps)) args (buf, m) = put_list (buf + sz) cs (buf, m)"
    by (rule vsnprintf_loop_list[OF ps f, of buf]) (use fits strs in simp_all)
  also have "\<dots> = Some (buf + length cs, m')"
    using put_list_emitted[OF r, of cs] fits m' by (simp add: emitted_def)
  finally have l: "vsnprintf_loop (buf + sz) (concat (map piece_chars ps)) args (buf, m) = Some (buf + length cs, m')" .
  have e: "m' = (\<lambda>a. if buf \<le> a \<and> a < buf + length cs \<and> a < buf + sz then Some (cs ! (a - buf)) else m a)"
    by (simp only: m' emitted_def fst_conv snd_conv)
  have st: "store8 a 0 m' = Some (m'(a \<mapsto> 0))" if "buf \<le> a" "a < buf + sz" for a
    using that m by (auto simp: store8_def e mapped_def)
  have "(if buf + length cs < buf + sz then store8 (buf + length cs) 0 m' else store8 (buf + sz - 1) 0 m') =
      Some (text_stored buf sz cs m)"
    using st[of "buf + length cs"] st[of "buf + sz - 1"] sz(1)
    by (auto simp: text_stored_def Let_def e fun_eq_iff)
  moreover have "sint (word_of_nat (buf + length cs) - word_of_nat buf :: u32) = int (length cs)"
    by (rule sint_difference) (use fits(2) in \<open>simp add: atoi_limit_def\<close>)
  ultimately show ?thesis using l sz by (simp add: rt_vsnprintf_def Let_def del: of_nat_add)
qed

section \<open>Properties\<close>

text \<open>C33. \<open>rt_vsnprintf\<close> prints what the format means. A format is a sequence of characters and
  conversions (flags, a width, a precision, a qualifier and a letter in their written form), given
  without the code's parser; its text follows from the arguments. When the text does not reach the
  end of the address space and its length is one an \<^verbatim>\<open>int\<close> can count, the call stores exactly that
  text, cut to the buffer and always terminated, touches nothing outside the buffer, and returns
  the length the whole text has.\<close>

theorem vsnprintf_exact:
  assumes m: "mapped buf sz m" and sz: "0 < sz" "buf + sz < 2 ^ 32"
    and ps: "list_all piece_ok ps" and f: "format_text strs ps args = Some cs"
    and fits: "buf + length cs < 2 ^ 32" "length cs < atoi_limit"
    and strs: "\<forall>a xs. strs a = Some xs \<longrightarrow> string_outside buf (buf + sz) m (unat a) xs"
  shows "rt_vsnprintf buf sz (concat (map piece_chars ps)) args m = Some (int (length cs), text_stored buf sz cs m)"
  using assms by (rule vsnprintf_effect)

text \<open>A buffer of 8 bytes at 16; the string OK at 4; the format \<^verbatim>\<open>"%s%-4d%x"\<close>.\<close>

definition print_memory :: memory where
  "print_memory = (\<lambda>a. if 16 \<le> a \<and> a < 24 then Some 0xff else ([4 \<mapsto> 79, 5 \<mapsto> 75, 6 \<mapsto> 0]) a)"

definition print_strings :: "u32 \<Rightarrow> u8 list option" where
  "print_strings = [4 \<mapsto> [79, 75]]"

definition print_format :: "piece list" where
  "print_format = [Conv [] No_Width No_Precision None CHR ''s'', Conv ''-'' (Width 4) No_Precision None CHR ''d'',
     Conv [] No_Width No_Precision None CHR ''x'']"

lemma sample_numerals:
  "numeral_text 10 small_digits 42 = ''42''" "numeral_text 16 small_digits 48879 = ''beef''"
  "numeral_text 10 small_digits 4 = ''4''"
  by (simp_all add: numeral_text.simps small_digits_def)

lemma sample_format: "concat (map piece_chars print_format) = ''%s%-4d%x''" "list_all piece_ok print_format"
  by (simp_all add: print_format_def sample_numerals atoi_limit_def)

lemma sample_text:
  "format_text print_strings print_format [4, 0xFFFFFFD6, 0xbeef] = Some (map of_char ''OK-42 beef'')"
  by (simp add: print_format_def sample_numerals conversion_text_def print_strings_def field_def blanks_def flags_of_def
      zeros_def arg_number_def number_text_def sign_text_def LEFT_def SIGN_def ZEROPAD_def LARGE_def PLUS_def SPACE_def Let_def)

theorem vsnprintf_exact_witness:
  "\<exists>m. rt_vsnprintf 16 8 ''%s%-4d%x'' [4, 0xFFFFFFD6, 0xbeef] print_memory = Some (10, m) \<and>
     m 22 = Some (of_char CHR ''b'') \<and> m 23 = Some 0 \<and> m 24 = None"
proof -
  have "mapped 16 8 print_memory" by (simp add: mapped_def print_memory_def)
  moreover have "\<forall>a xs. print_strings a = Some xs \<longrightarrow> string_outside 16 (16 + 8) print_memory (unat a) xs"
    by (auto simp: print_strings_def string_outside_def print_memory_def split: if_splits)
  ultimately have "rt_vsnprintf 16 8 (concat (map piece_chars print_format)) [4, 0xFFFFFFD6, 0xbeef] print_memory =
      Some (int (length (map of_char ''OK-42 beef'' :: text8)), text_stored 16 8 (map of_char ''OK-42 beef'') print_memory)"
    by (intro vsnprintf_exact[OF _ _ _ sample_format(2) sample_text]) (simp_all add: atoi_limit_def)
  moreover have "length (map of_char ''OK-42 beef'' :: text8) = 10" by simp
  moreover have "text_stored 16 8 (map of_char ''OK-42 beef'') print_memory 22 = Some (of_char CHR ''b'')"
    "text_stored 16 8 (map of_char ''OK-42 beef'') print_memory 23 = Some 0"
    "text_stored 16 8 (map of_char ''OK-42 beef'') print_memory 24 = None"
    by (simp_all add: text_stored_def print_memory_def Let_def)
  ultimately show ?thesis unfolding sample_format(1) by (metis of_nat_numeral)
qed

lemma length_decimal: "n < 10 ^ 10 \<Longrightarrow> length (decimal n) \<le> 10"
  using digit_loop_numeral[of 10 10 n 10 "[]" small_digits] by (cases "n = 0") (simp_all add: numeral_text_0)

lemma format_decimal:
  "format_text strs [Conv [] No_Width No_Precision None CHR ''u''] [num] = Some (map of_char (decimal (unat num)))"
  by (simp add: conversion_text_def flags_of_def arg_number_def number_text_def sign_text_def zeros_def blanks_def Let_def
      LEFT_def SIGN_def ZEROPAD_def LARGE_def)

text \<open>C36. Printing a number with \<^verbatim>\<open>%u\<close> and reading the text back with the parser's own \<^verbatim>\<open>skip_atoi\<close> gives
  the number, for every number below \<open>2 ^ 31 - 48\<close>, the largest ones its \<^verbatim>\<open>int\<close> can take; a buffer of
  eleven bytes is enough.\<close>

theorem decimal_roundtrip:
  assumes "mapped buf 11 m" "buf + 11 < 2 ^ 32" "unat num < atoi_limit"
  shows "\<exists>s. rt_vsnprintf buf 11 ''%u'' [num] m = Some (int (length s), text_stored buf 11 (map of_char s) m) \<and>
    length s \<le> 10 \<and> skip_atoi 0 s = Some (uint num, [])"
proof -
  let ?s = "decimal (unat num)" and ?p = "[Conv [] No_Width No_Precision None CHR ''u'']"
  have l: "length ?s \<le> 10" by (rule length_decimal) (use assms(3) in \<open>simp add: atoi_limit_def\<close>)
  have "rt_vsnprintf buf 11 (concat (map piece_chars ?p)) [num] m =
      Some (int (length (map of_char ?s :: text8)), text_stored buf 11 (map of_char ?s) m)"
    by (rule vsnprintf_effect[OF assms(1) _ assms(2) _ format_decimal[of "\<lambda>_. None"]])
      (use l assms(2) in \<open>simp_all add: atoi_limit_def\<close>)
  moreover have "skip_atoi 0 (?s @ []) = Some (int (unat num), [])" using assms(3) by (subst skip_atoi_decimal) simp_all
  ultimately show ?thesis using l by (intro exI[of _ ?s]) simp
qed

theorem decimal_roundtrip_witness:
  "\<exists>s m. rt_vsnprintf 16 11 ''%u'' [2147483599] (\<lambda>_. Some 0) = Some (int (length s), m) \<and> skip_atoi 0 s = Some (2147483599, [])"
proof -
  have "mapped 16 11 (\<lambda>_. Some 0)" by (simp add: mapped_def)
  from decimal_roundtrip[OF this, of 2147483599] show ?thesis by (auto simp: atoi_limit_def)
qed

text \<open>The next number is beyond it: the sum with the character \<^verbatim>\<open>'0'\<close> leaves the \<^verbatim>\<open>int\<close>.\<close>

lemma skip_atoi_limit: "skip_atoi 0 ''2147483600'' = None"
  by (simp add: is_digit_def)

text \<open>Octal numbers are printed in hexadecimal; an explicit precision of zero prints no digits.\<close>

lemma octal_is_hexadecimal: "print_number e num 8 w p fs st = print_number e num 16 w p fs st"
  by (simp add: print_number_list)

lemma zero_precision_empty: "print_number e num 10 (- 1) 0 0 st = Some st"
  unfolding print_number_list number_text_def sign_text_def flag_bits Let_def by (simp add: blanks_def zeros_def)

end
