(* ===== verification/Heap_Services.thy ===== *)
theory Heap_Services
  imports Heap_Calls Kservice_Str
begin

text \<open>
  The allocating functions of \<^verbatim>\<open>src/kservice.c\<close> over the heap of \<^verbatim>\<open>src/mem.c\<close>: aligned areas, which keep
  the address of the real area in the word in front of them, and copies of strings.
\<close>

section \<open>Operations\<close>

definition heap_memory :: "heap \<Rightarrow> memory" where
  "heap_memory h = (\<lambda>a. Some (h_byte h a))"

definition with_memory :: "heap \<Rightarrow> memory \<Rightarrow> heap" where
  "with_memory h m = h\<lparr>h_byte := (\<lambda>a. the (m a))\<rparr>"

text \<open>From the answer of \<^verbatim>\<open>rt_malloc\<close> on.\<close>

definition malloc_align_done :: "nat \<Rightarrow> kernel \<times> heap \<times> mem_result \<Rightarrow> (kernel \<times> heap \<times> mem_result) option" where
  "malloc_align_done align x = (case x of (k, h, r) \<Rightarrow> (case r of
       Wait_Heap w \<Rightarrow> Some (k, h, Wait_Heap w)
     | Ret p \<Rightarrow>
         if p = 0 then Some (k, h, Ret 0)
         else
           let al = word_of_nat align :: u32; pw = word_of_nat p :: u32;
               ap = unat (if pw AND (al - 1) = 0 then pw + al else (pw + (al - 1)) AND NOT (al - 1)) in do {
             m \<leftarrow> store32 (ap - 4) pw (heap_memory h);
             Some (k, with_memory h m, Ret ap) }))"

definition rt_malloc_align :: "nat \<Rightarrow> nat \<Rightarrow> kernel \<Rightarrow> heap \<Rightarrow> (kernel \<times> heap \<times> mem_result) option" where
  "rt_malloc_align sz align k h = do {
     let align = align32 align;
     x \<leftarrow> rt_malloc ((align32 sz + align) mod 2 ^ 32) k h;
     malloc_align_done align x }"

definition rt_malloc_align_resume :: "nat \<Rightarrow> mem_wait \<Rightarrow> kernel \<Rightarrow> heap \<Rightarrow> (kernel \<times> heap \<times> mem_result) option" where
  "rt_malloc_align_resume align w k h = do { x \<leftarrow> mem_resume w k h; malloc_align_done (align32 align) x }"

definition rt_free_align :: "nat \<Rightarrow> kernel \<Rightarrow> heap \<Rightarrow> (kernel \<times> heap \<times> mem_result) option" where
  "rt_free_align ptr k h = do { w \<leftarrow> load32 (ptr - 4) (heap_memory h); rt_free (unat w) k h }"

definition strdup_done :: "nat \<Rightarrow> nat \<Rightarrow> kernel \<times> heap \<times> mem_result \<Rightarrow> (kernel \<times> heap \<times> mem_result) option" where
  "strdup_done s len x = (case x of (k, h, r) \<Rightarrow> (case r of
       Wait_Heap w \<Rightarrow> Some (k, h, Wait_Heap w)
     | Ret p \<Rightarrow>
         if p = 0 then Some (k, h, Ret 0)
         else do { m \<leftarrow> rt_memcpy p s len (heap_memory h); Some (k, with_memory h m, Ret p) }))"

definition rt_strdup :: "nat \<Rightarrow> kernel \<Rightarrow> heap \<Rightarrow> (kernel \<times> heap \<times> mem_result) option" where
  "rt_strdup s k h = do {
     l \<leftarrow> rt_strlen s (heap_memory h);
     let len = (l + 1) mod 2 ^ 32;
     x \<leftarrow> rt_malloc len k h;
     strdup_done s len x }"

definition rt_strdup_resume :: "nat \<Rightarrow> nat \<Rightarrow> mem_wait \<Rightarrow> kernel \<Rightarrow> heap \<Rightarrow> (kernel \<times> heap \<times> mem_result) option" where
  "rt_strdup_resume s len w k h = do { x \<leftarrow> mem_resume w k h; strdup_done s len x }"

section \<open>Memory\<close>

lemma with_memory_sel [simp]:
  "h_ptr (with_memory h m) = h_ptr h" "h_end (with_memory h m) = h_end h" "h_size (with_memory h m) = h_size h"
  "h_lfree (with_memory h m) = h_lfree h" "h_used (with_memory h m) = h_used h" "h_max (with_memory h m) = h_max h"
  "h_mem (with_memory h m) = h_mem h" "h_sem (with_memory h m) = h_sem h"
  by (simp_all add: with_memory_def)

lemma with_memory_inv [simp]:
  "heap_inv (with_memory h m) bs = heap_inv h bs" "regions (with_memory h m) bs = regions h bs"
  "heap_sem_free k (with_memory h m) = heap_sem_free k h"
  by (simp_all add: heap_inv_def heap_chain_def lfree_ok_def coalesced_def regions_def heap_sem_free_def)

lemma heap_memory_with [simp]: "(\<And>a. m a \<noteq> None) \<Longrightarrow> heap_memory (with_memory h m) = m"
  by (auto simp: heap_memory_def with_memory_def fun_eq_iff)

lemma mapped_heap [simp]: "mapped a n (heap_memory h)"
  by (simp add: mapped_def heap_memory_def)

lemma word_from_bytes:
  fixes w :: u32
  shows "ucast (ucast w :: u8) OR push_bit 8 (ucast (ucast (drop_bit 8 w) :: u8)) OR
    push_bit 16 (ucast (ucast (drop_bit 16 w) :: u8)) OR push_bit 24 (ucast (ucast (drop_bit 24 w) :: u8)) = w"
proof (rule bit_word_eqI)
  fix n assume "n < LENGTH(32)"
  then have "n < 8 \<or> 8 \<le> n \<and> n < 16 \<or> 16 \<le> n \<and> n < 24 \<or> 24 \<le> n \<and> n < 32" by simp linarith
  then show "bit (ucast (ucast w :: u8) OR push_bit 8 (ucast (ucast (drop_bit 8 w) :: u8)) OR
    push_bit 16 (ucast (ucast (drop_bit 16 w) :: u8)) OR push_bit 24 (ucast (ucast (drop_bit 24 w) :: u8)) :: u32) n = bit w n"
    by (elim disjE) (auto simp: bit_simps)
qed

lemma load_store32:
  assumes "store32 a w m = Some m'" "mapped a 4 m" shows "load32 a m' = Some w"
  using assms store32_eq[OF assms(2), of w] by (auto simp: load32_def word_from_bytes)

section \<open>Aligned areas\<close>

lemma and_not_mask_word: "(x :: u32) AND NOT (mask j) = push_bit j (drop_bit j x)"
  by (rule bit_word_eqI) (auto simp: bit_simps)

lemma unat_align_down: "unat ((x :: u32) AND NOT (mask j)) = unat x div 2 ^ j * 2 ^ j"
proof -
  have "unat x div 2 ^ j * 2 ^ j \<le> unat x" by simp
  also have lt: "unat x < 2 ^ 32" using unsigned_less[of x] by simp
  finally have "unat x div 2 ^ j * 2 ^ j < 2 ^ 32" .
  moreover have "unat x mod 2 ^ 32 = unat x" using lt by simp
  ultimately show ?thesis
    unfolding and_not_mask_word unsigned_push_bit_eq unsigned_drop_bit_eq
    by (simp add: push_bit_eq_mult drop_bit_eq_div take_bit_nat_eq_self_iff take_bit_eq_mod)
qed

lemma unat_low_bits: "p < 2 ^ 32 \<Longrightarrow> j < 32 \<Longrightarrow> unat ((word_of_nat p :: u32) AND mask j) = p mod 2 ^ j"
  unfolding take_bit_eq_mask[symmetric] unsigned_take_bit_eq
  by (simp add: unsigned_of_nat take_bit_nat_eq_self_iff) (simp add: take_bit_eq_mod min_def)

lemma align_pointer:
  fixes p j :: nat
  assumes j: "2 \<le> j" "j < 32" and p: "p + 2 ^ j < 2 ^ 32" "4 dvd p"
  defines "al \<equiv> word_of_nat (2 ^ j) :: u32" and "pw \<equiv> word_of_nat p :: u32"
  defines "ap \<equiv> unat (if pw AND (al - 1) = 0 then pw + al else (pw + (al - 1)) AND NOT (al - 1))"
  shows "2 ^ j dvd ap" "p + 4 \<le> ap" "ap \<le> p + 2 ^ j"
proof -
  have al: "al - 1 = mask j" by (simp add: al_def mask_eq_exp_minus_1)
  have pj: "4 \<le> (2 :: nat) ^ j" using power_increasing[OF j(1), of "2 :: nat"] by simp
  have low: "pw AND (al - 1) = 0 \<longleftrightarrow> p mod 2 ^ j = 0"
    unfolding al pw_def using unat_low_bits[of p j] p j(2) by (metis add_lessD1 unat_eq_0)
  have sum: "unat (pw + (al - 1)) = p + (2 ^ j - 1)" "unat (pw + al) = p + 2 ^ j"
  proof -
    have "pw + (al - 1) = word_of_nat (p + (2 ^ j - 1))" "pw + al = word_of_nat (p + 2 ^ j)"
      using pj by (simp_all add: pw_def al_def of_nat_diff)
    then show "unat (pw + (al - 1)) = p + (2 ^ j - 1)" "unat (pw + al) = p + 2 ^ j"
      using p(1) by (simp_all only: unsigned_of_nat) (simp_all add: take_bit_nat_eq_self_iff)
  qed
  have "2 ^ j dvd ap \<and> p + 4 \<le> ap \<and> ap \<le> p + 2 ^ j"
  proof (cases "p mod 2 ^ j = 0")
    case True
    then have "ap = p + 2 ^ j" using low sum(2) by (simp add: ap_def)
    then show ?thesis using True pj by auto
  next
    case False
    then have ap: "ap = (p + (2 ^ j - 1)) div 2 ^ j * 2 ^ j"
      using low sum(1) unat_align_down[of "pw + (al - 1)" j] al by (simp add: ap_def)
    have m: "(4 :: nat) dvd 2 ^ j" using le_imp_power_dvd[OF j(1), of "2 :: nat"] by simp
    then have d: "4 dvd ap" unfolding ap by (rule dvd_mult)
    have "(p + (2 ^ j - 1)) div 2 ^ j * 2 ^ j + (p + (2 ^ j - 1)) mod 2 ^ j = p + (2 ^ j - 1)" by (rule div_mult_mod_eq)
    moreover have "(p + (2 ^ j - 1)) mod 2 ^ j < 2 ^ j" by simp
    ultimately have "p \<le> ap" "ap \<le> p + 2 ^ j" unfolding ap using pj by linarith+
    moreover have "p \<noteq> ap" using False unfolding ap by (metis mod_mult_self2_is_0)
    ultimately show ?thesis using d p(2) unfolding ap[symmetric] by (auto simp: ap elim!: dvdE)
  qed
  then show "2 ^ j dvd ap" "p + 4 \<le> ap" "ap \<le> p + 2 ^ j" by blast+
qed

lemma malloc_align_effect:
  assumes inv: "heap_inv h bs" "heap_sem_free k h" "12 \<le> h_size h" and j: "2 \<le> j" "j < 32"
    and sz: "0 < sz" "sz \<le> 2 ^ 32 - 4" "align32 sz + 2 ^ j < 2 ^ 32" and top: "h_ptr h + h_end h < 2 ^ 32"
  shows "\<exists>h' bs' q. rt_malloc_align sz (2 ^ j) k h = Some (k, h', Ret q) \<and> heap_inv h' bs' \<and> heap_sem_free k h' \<and>
    (if q = 0 then h' = h \<and> bs' = bs
     else 2 ^ j dvd q \<and> (\<exists>p n. regions h' bs' = insert (p, n) (regions h bs) \<and> 0 < n \<and> p + 4 \<le> q \<and> q + sz \<le> p + n \<and>
       (\<forall>r \<in> regions h bs. apart (p, n) r) \<and> keeps_contents h h' (regions h bs) \<and>
       rt_free_align q k h' = rt_free p k h'))"
proof -
  have al: "align32 (2 ^ j) = 2 ^ j"
  proof -
    have "4 dvd (2 :: nat) ^ j" using le_imp_power_dvd[OF j(1), of "2 :: nat"] by simp
    then obtain c where "(2 :: nat) ^ j = 4 * c" by (elim dvdE)
    moreover have "(2 :: nat) ^ j < 2 ^ 32" using j(2) by (intro power_strict_increasing) simp_all
    ultimately show ?thesis by (simp add: align32_def RT_ALIGN_def RT_ALIGN_SIZE_def)
  qed
  let ?s = "align32 sz + 2 ^ j"
  have sw: "(align32 sz + 2 ^ j) mod 2 ^ 32 = ?s" using sz(3) by simp
  obtain h1 bs1 p where m: "rt_malloc ?s k h = Some (k, h1, Ret p)" "heap_inv h1 bs1"
    "if ?s = 0 \<or> h_size h < align32 ?s then p = 0 \<and> h1 = h \<and> bs1 = bs else alloc_result (request ?s) h bs h1 bs1 p"
    "h_sem h1 = h_sem h"
    by (rule malloc_effect[OF inv, of ?s]) blast
  have sem: "heap_sem_free k h1" using inv(2) m(4) by (simp add: heap_sem_free_def)
  show ?thesis
  proof (cases "p = 0")
    case True
    then have "h1 = h" "bs1 = bs" using m(3) by (auto simp: alloc_result_def split: if_splits)
    then show ?thesis
      using m(1,2) True sem sz(3)
      by (intro exI[of _ h] exI[of _ bs] exI[of _ 0]) (simp add: rt_malloc_align_def al sw malloc_align_done_def Let_def)
  next
    case False
    have dvs: "4 dvd ?s"
      using align32_dvd[of sz] le_imp_power_dvd[OF j(1), of "2 :: nat"] by (simp add: RT_ALIGN_SIZE_def)
    have rs: "?s \<le> request ?s"
    proof -
      have "align32 ?s = ?s"
        using dvs sz(3) by (auto simp: align32_def RT_ALIGN_def RT_ALIGN_SIZE_def elim!: dvdE)
      then show ?thesis by (simp add: request_def)
    qed
    obtain n where n: "request ?s \<le> n" "RT_ALIGN_SIZE dvd p" "p + n \<le> h_ptr h + h_end h" "p \<notin> fst ` regions h bs"
      "regions h1 bs1 = insert (p, n) (regions h bs)" "h_byte h1 = h_byte h"
      using m(3) False by (auto simp: alloc_result_def split: if_splits)
    have p: "p + 2 ^ j < 2 ^ 32" "4 dvd p" using n(1-3) rs top by (simp_all add: RT_ALIGN_SIZE_def)
    obtain q where q: "q = unat (if (word_of_nat p :: u32) AND (word_of_nat (2 ^ j) - 1) = 0
        then word_of_nat p + word_of_nat (2 ^ j) :: u32 else (word_of_nat p + (word_of_nat (2 ^ j) - 1)) AND NOT (word_of_nat (2 ^ j) - 1))"
      by blast
    have qs: "2 ^ j dvd q" "p + 4 \<le> q" "q \<le> p + 2 ^ j" unfolding q by (rule align_pointer[OF j p])+
    obtain m' where m': "store32 (q - 4) (word_of_nat p) (heap_memory h1) = Some m'"
      using store32_eq[of "q - 4" "heap_memory h1"] by simp
    let ?h = "with_memory h1 m'"
    have me: "m' = (heap_memory h1)(q - 4 \<mapsto> ucast (word_of_nat p :: u32), q - 4 + 1 \<mapsto> ucast (drop_bit 8 (word_of_nat p :: u32)),
        q - 4 + 2 \<mapsto> ucast (drop_bit 16 (word_of_nat p :: u32)), q - 4 + 3 \<mapsto> ucast (drop_bit 24 (word_of_nat p :: u32)))"
      using m' store32_eq[OF mapped_heap, of "q - 4" "word_of_nat p" h1] by simp
    have tot: "m' a \<noteq> None" for a unfolding me by (simp add: heap_memory_def)
    have r: "rt_malloc_align sz (2 ^ j) k h = Some (k, ?h, Ret q)"
    proof -
      have "malloc_align_done (2 ^ j) (k, h1, Ret p) = Some (k, ?h, Ret q)"
        unfolding malloc_align_done_def Let_def prod.case mem_result.case q[symmetric] using False m' by simp
      then show ?thesis by (simp only: rt_malloc_align_def al Let_def sw m(1) bind.bind_lunit)
    qed
    have "(p, n) \<in> regions h1 bs1" using n(5) by simp
    then have ap: "\<forall>r \<in> regions h bs. apart (p, n) r"
      using regions_apart[OF heap_invD(1)[OF m(2)], of "(p, n)"] n(4,5) by force
    have sl: "sz \<le> align32 sz" using align32_no_wrap[OF sz(2)] by simp
    have inside: "p \<le> q - 4" "q + sz \<le> p + n" using qs n(1) rs sl by linarith+
    have keep: "h_byte ?h a = h_byte h a" if "a < q - 4 \<or> q \<le> a" for a
      using that n(6) qs(2) by (auto simp: with_memory_def heap_memory_def me)
    have "keeps_contents h ?h (regions h bs)"
      unfolding keeps_contents_def
    proof clarify
      fix x l i assume x: "(x, l) \<in> regions h bs" "i < l"
      then have "apart (p, n) (x, l)" using ap by blast
      then have "x + i < q - 4 \<or> q \<le> x + i" using x(2) inside sz(1) qs(2) by (auto simp: apart_def)
      then show "h_byte ?h (x + i) = h_byte h (x + i)" by (rule keep)
    qed
    moreover have "rt_free_align q k ?h = rt_free p k ?h"
    proof -
      have "load32 (q - 4) (heap_memory ?h) = Some (word_of_nat p)"
        using load_store32[OF m'] tot by simp
      moreover have "unat (word_of_nat p :: u32) = p" using p(1) by (simp add: unsigned_of_nat take_bit_nat_eq_self_iff)
      ultimately show ?thesis by (simp add: rt_free_align_def)
    qed
    moreover have "0 < n" "q \<noteq> 0" using n(1) rs qs by linarith+
    ultimately have "regions ?h bs1 = insert (p, n) (regions h bs) \<and> 0 < n \<and> p + 4 \<le> q \<and> q + sz \<le> p + n \<and>
       (\<forall>r \<in> regions h bs. apart (p, n) r) \<and> keeps_contents h ?h (regions h bs) \<and> rt_free_align q k ?h = rt_free p k ?h" "q \<noteq> 0"
      using qs(2) n(5) ap inside(2) by simp_all
    then have ex: "\<exists>p n. regions ?h bs1 = insert (p, n) (regions h bs) \<and> 0 < n \<and> p + 4 \<le> q \<and> q + sz \<le> p + n \<and>
       (\<forall>r \<in> regions h bs. apart (p, n) r) \<and> keeps_contents h ?h (regions h bs) \<and> rt_free_align q k ?h = rt_free p k ?h" "q \<noteq> 0"
      by blast+
    then show ?thesis
      using r m(2) sem qs(1) by (intro exI[of _ ?h] exI[of _ bs1] exI[of _ q]) simp
  qed
qed

section \<open>Copies of strings\<close>

lemma cstr_shift: "cstr s xs m \<Longrightarrow> (\<And>i. i \<le> length xs \<Longrightarrow> m' (p + i) = m (s + i)) \<Longrightarrow> cstr p xs m'"
proof (induction xs arbitrary: s p)
  case Nil
  then show ?case using Nil.prems(2)[of 0] by simp
next
  case (Cons x xs)
  have "cstr (Suc p) xs m'"
  proof (rule Cons.IH)
    show "cstr (Suc s) xs m" using Cons.prems(1) by simp
    show "m' (Suc p + i) = m (Suc s + i)" if "i \<le> length xs" for i using Cons.prems(2)[of "Suc i"] that by simp
  qed
  then show ?case using Cons.prems(1) Cons.prems(2)[of 0] by simp
qed

lemma strdup_effect:
  assumes inv: "heap_inv h bs" "heap_sem_free k h" "12 \<le> h_size h"
    and st: "cstr s xs (heap_memory h)" "length xs + 1 \<le> 2 ^ 32 - 4"
    and place: "(\<exists>r l. (r, l) \<in> regions h bs \<and> r \<le> s \<and> s + length xs < r + l) \<or> s + length xs < h_ptr h \<or> h_ptr h + h_end h \<le> s"
  shows "\<exists>h' bs' p. rt_strdup s k h = Some (k, h', Ret p) \<and> heap_inv h' bs' \<and> heap_sem_free k h' \<and>
    (if p = 0 then h' = h \<and> bs' = bs
     else (\<exists>n. regions h' bs' = insert (p, n) (regions h bs) \<and> length xs < n \<and> (\<forall>r \<in> regions h bs. apart (p, n) r)) \<and>
       cstr p xs (heap_memory h') \<and> cstr s xs (heap_memory h') \<and> keeps_contents h h' (regions h bs))"
proof -
  let ?n = "length xs + 1"
  obtain h1 bs1 p where m: "rt_malloc ?n k h = Some (k, h1, Ret p)" "heap_inv h1 bs1"
    "if ?n = 0 \<or> h_size h < align32 ?n then p = 0 \<and> h1 = h \<and> bs1 = bs else alloc_result (request ?n) h bs h1 bs1 p"
    "h_sem h1 = h_sem h"
    by (rule malloc_effect[OF inv, of ?n]) blast
  have sem: "heap_sem_free k h1" using inv(2) m(4) by (simp add: heap_sem_free_def)
  have w: "?n mod 2 ^ 32 = ?n" using st(2) by simp
  have e: "rt_strdup s k h = strdup_done s ?n (k, h1, Ret p)"
    using m(1) w strlen_cstr[OF st(1)] by (simp add: rt_strdup_def Let_def)
  show ?thesis
  proof (cases "p = 0")
    case True
    then have "h1 = h" "bs1 = bs" using m(3) by (auto simp: alloc_result_def split: if_splits)
    then show ?thesis using m(2) True sem unfolding e
      by (intro exI[of _ h] exI[of _ bs] exI[of _ 0]) (simp add: strdup_done_def)
  next
    case False
    have rs: "?n \<le> request ?n" using align32_no_wrap[OF st(2)] by (auto simp: request_def)
    obtain n where n: "request ?n \<le> n" "p + n \<le> h_ptr h + h_end h" "p \<notin> fst ` regions h bs"
      "regions h1 bs1 = insert (p, n) (regions h bs)" "h_byte h1 = h_byte h" "h_ptr h1 = h_ptr h"
      using m(3) False by (auto simp: alloc_result_def split: if_splits)
    have pn: "(p, n) \<in> regions h1 bs1" using n(4) by simp
    have ap: "\<forall>r \<in> regions h bs. apart (p, n) r"
      using regions_apart[OF heap_invD(1)[OF m(2)] pn] n(3,4) by force
    have lo: "h_ptr h \<le> p" using regions_bounds(1)[OF heap_invD(1)[OF m(2)] pn] n(6) by simp
    have sep: "s + ?n \<le> p \<or> p + n \<le> s"
      using place ap n(2) lo rs n(1) by (fastforce simp: apart_def)
    have "forward_ok p s ?n" using sep n(1) rs by (auto simp: forward_ok_def)
    then have c: "rt_memcpy p s ?n (heap_memory h1) = Some (copied p s ?n (heap_memory h1))"
      by (intro memcpy_copied) simp_all
    let ?m = "copied p s ?n (heap_memory h1)"
    have mem: "heap_memory h1 = heap_memory h" using n(5) by (simp add: heap_memory_def)
    have tot: "?m a \<noteq> None" for a by (simp add: copied_def heap_memory_def)
    let ?h = "with_memory h1 ?m"
    have hm: "heap_memory ?h = ?m" using tot by simp
    have "rt_strdup s k h = Some (k, ?h, Ret p)" unfolding e using False c by (simp add: strdup_done_def)
    moreover have "cstr p xs (heap_memory ?h)"
      unfolding hm by (rule cstr_shift[OF st(1)]) (simp add: copied_def mem)
    moreover have "cstr s xs (heap_memory ?h)"
      unfolding hm by (rule cstr_shift[OF st(1)]) (use sep n(1) rs in \<open>auto simp: copied_def mem\<close>)
    moreover have "keeps_contents h ?h (regions h bs)"
      unfolding keeps_contents_def
    proof clarify
      fix x l i assume x: "(x, l) \<in> regions h bs" "i < l"
      then have "apart (p, n) (x, l)" using ap by blast
      then have "\<not> (p \<le> x + i \<and> x + i < p + ?n)" using x(2) n(1) rs by (auto simp: apart_def)
      then show "h_byte ?h (x + i) = h_byte h (x + i)" by (auto simp: with_memory_def copied_def heap_memory_def n(5))
    qed
    moreover have "length xs < n" using n(1) rs by linarith
    ultimately show ?thesis
      using False m(2) sem n(4) ap by (intro exI[of _ ?h] exI[of _ bs1] exI[of _ p]) auto
  qed
qed

section \<open>Properties\<close>

text \<open>C35. \<open>rt_malloc_align\<close> with an alignment that is a power of two answers null and leaves the heap alone, or
  an aligned address in a new area that has the whole request behind it and the link word before it,
  apart from all areas in use, whose contents it keeps; \<open>rt_free_align\<close> finds the area again.\<close>

theorem aligned_areas:
  assumes inv: "heap_inv h bs" "heap_sem_free k h" "12 \<le> h_size h" and j: "2 \<le> j" "j < 32"
    and sz: "0 < sz" "sz \<le> 2 ^ 32 - 4" "align32 sz + 2 ^ j < 2 ^ 32" and top: "h_ptr h + h_end h < 2 ^ 32"
  shows "\<exists>h' bs' q. rt_malloc_align sz (2 ^ j) k h = Some (k, h', Ret q) \<and> heap_inv h' bs' \<and> heap_sem_free k h' \<and>
    (if q = 0 then h' = h \<and> bs' = bs
     else 2 ^ j dvd q \<and> (\<exists>p n. regions h' bs' = insert (p, n) (regions h bs) \<and> 0 < n \<and> p + 4 \<le> q \<and> q + sz \<le> p + n \<and>
       (\<forall>r \<in> regions h bs. apart (p, n) r) \<and> keeps_contents h h' (regions h bs) \<and>
       rt_free_align q k h' = rt_free p k h'))"
  using assms by (rule malloc_align_effect)

lemma sample_heap_end: "h_end sample_heap = 1012"
  using heap_invD(1)[OF sample_heap_facts(1)] sample_heap_facts(4) by (simp add: heap_chain_def mem_consts)

theorem aligned_areas_witness:
  "\<exists>h' q. rt_malloc_align 100 (2 ^ 5) heap_kernel sample_heap = Some (heap_kernel, h', Ret q) \<and> 32 dvd q"
proof -
  note f = sample_heap_facts
  have a: "align32 100 = 100" by (simp add: align32_def RT_ALIGN_def RT_ALIGN_SIZE_def)
  have "\<exists>h' bs' q. rt_malloc_align 100 (2 ^ 5) heap_kernel sample_heap = Some (heap_kernel, h', Ret q) \<and> heap_inv h' bs' \<and>
    heap_sem_free heap_kernel h' \<and> (if q = 0 then h' = sample_heap \<and> bs' = [0] else 2 ^ 5 dvd q \<and>
     (\<exists>p n. regions h' bs' = insert (p, n) (regions sample_heap [0]) \<and> 0 < n \<and> p + 4 \<le> q \<and> q + 100 \<le> p + n \<and>
       (\<forall>r \<in> regions sample_heap [0]. apart (p, n) r) \<and> keeps_contents sample_heap h' (regions sample_heap [0]) \<and>
       rt_free_align q heap_kernel h' = rt_free p heap_kernel h'))"
    by (rule aligned_areas[OF f(1,8)]) (simp_all add: f a sample_heap_end)
  then show ?thesis by (auto split: if_splits)
qed

text \<open>\<open>rt_strdup\<close> answers null and leaves the heap alone, or a copy of the string in a new area of at
  least its length and terminator, apart from all areas in use, whose contents it keeps.\<close>

theorem strdup_copies:
  assumes inv: "heap_inv h bs" "heap_sem_free k h" "12 \<le> h_size h"
    and st: "cstr s xs (heap_memory h)" "length xs + 1 \<le> 2 ^ 32 - 4"
    and place: "(\<exists>r l. (r, l) \<in> regions h bs \<and> r \<le> s \<and> s + length xs < r + l) \<or> s + length xs < h_ptr h \<or> h_ptr h + h_end h \<le> s"
  shows "\<exists>h' bs' p. rt_strdup s k h = Some (k, h', Ret p) \<and> heap_inv h' bs' \<and> heap_sem_free k h' \<and>
    (if p = 0 then h' = h \<and> bs' = bs
     else (\<exists>n. regions h' bs' = insert (p, n) (regions h bs) \<and> length xs < n \<and> (\<forall>r \<in> regions h bs. apart (p, n) r)) \<and>
       cstr p xs (heap_memory h') \<and> cstr s xs (heap_memory h') \<and> keeps_contents h h' (regions h bs))"
  using assms by (rule strdup_effect)

text \<open>The string AB below the heap.\<close>

definition string_heap :: heap where
  "string_heap = sample_heap\<lparr>h_byte := (\<lambda>_. 0)(4 := 65, 5 := 66)\<rparr>"

theorem strdup_copies_witness:
  "\<exists>h' p. rt_strdup 4 heap_kernel string_heap = Some (heap_kernel, h', Ret p) \<and> (p \<noteq> 0 \<longrightarrow> cstr p [65, 66] (heap_memory h'))"
proof -
  note f = sample_heap_facts
  have e: "string_heap = with_memory sample_heap (\<lambda>a. Some (((\<lambda>_. 0)(4 := 65, 5 := 66)) a))"
    by (simp add: string_heap_def with_memory_def fun_upd_def)
  have i: "heap_inv string_heap [0]" "heap_sem_free heap_kernel string_heap" "12 \<le> h_size string_heap" "h_ptr string_heap = 0x20000000"
    using f by (simp_all add: e)
  have "cstr 4 [65, 66] (heap_memory string_heap)" by (simp add: heap_memory_def string_heap_def)
  from strdup_copies[OF i(1-3) this] i(4) show ?thesis by (fastforce split: if_splits)
qed

end
