(* ===== verification/Memheap.thy ===== *)
theory Memheap
  imports Rt_List Small_Mem
begin

text \<open>
  The memory heaps of \<^verbatim>\<open>src/memheap.c\<close>: the sections that run with the lock of a heap held. The items in
  front of the memory blocks form a ring in the order of their addresses, closed by an empty item that
  is always in use; the free ones form a second ring through a header in the heap's structure. Theory
  \<^verbatim>\<open>Memheap_Calls\<close> composes the sections with the locks.

  Items are found by their address, in one memory for all heaps. Numbers are below \<open>2 ^ 32\<close>; the
  subtractions of the code are \<open>sub32\<close>, the additions \<open>add32\<close>.
\<close>

section \<open>Operations\<close>

record rt_memheap_item =
  mi_magic :: u32
  mi_pool :: nat
  mi_next :: nat
  mi_prev :: nat
  mi_next_free :: nat
  mi_prev_free :: nat

record rt_memheap =
  mh_start :: nat
  mh_pool_size :: nat
  mh_available :: nat
  mh_max_used :: nat
  mh_block_list :: nat
  mh_free_list :: nat
  mh_lock :: nat

record memheaps =
  mh_tab :: "nat \<Rightarrow> rt_memheap"
  mh_item :: "nat \<Rightarrow> rt_memheap_item"
  mh_byte :: "nat \<Rightarrow> u8"

definition RT_MEMHEAP_MAGIC :: u32 where "RT_MEMHEAP_MAGIC = 0x1ea01ea0"
definition RT_MEMHEAP_MASK :: u32 where "RT_MEMHEAP_MASK = 0xfffffffe"
definition RT_MEMHEAP_USED :: u32 where "RT_MEMHEAP_USED = 1"
definition RT_MEMHEAP_MINIALLOC :: nat where "RT_MEMHEAP_MINIALLOC = 12"
definition RT_MEMHEAP_SIZE :: nat where "RT_MEMHEAP_SIZE = 24"

lemmas memheap_consts = RT_MEMHEAP_MINIALLOC_def RT_MEMHEAP_SIZE_def

abbreviation item :: "memheaps \<Rightarrow> nat \<Rightarrow> rt_memheap_item" where
  "item s a \<equiv> mh_item s a"

abbreviation mheap :: "memheaps \<Rightarrow> nat \<Rightarrow> rt_memheap" where
  "mheap s p \<equiv> mh_tab s p"

definition upd_mi :: "nat \<Rightarrow> (rt_memheap_item \<Rightarrow> rt_memheap_item) \<Rightarrow> memheaps \<Rightarrow> memheaps" where
  "upd_mi a f s = s\<lparr>mh_item := (mh_item s)(a := f (item s a))\<rparr>"

definition upd_mh :: "nat \<Rightarrow> (rt_memheap \<Rightarrow> rt_memheap) \<Rightarrow> memheaps \<Rightarrow> memheaps" where
  "upd_mh p f s = s\<lparr>mh_tab := (mh_tab s)(p := f (mheap s p))\<rparr>"

text \<open>Additions that wrap.\<close>

definition add32 :: "nat \<Rightarrow> nat \<Rightarrow> nat" where
  "add32 x y = (x + y) mod 2 ^ 32"

lemma add32_small: "x + y < 2 ^ 32 \<Longrightarrow> add32 x y = x + y"
  by (simp add: add32_def)

definition RT_MEMHEAP_IS_USED :: "memheaps \<Rightarrow> nat \<Rightarrow> bool" where
  "RT_MEMHEAP_IS_USED s a \<longleftrightarrow> mi_magic (item s a) AND RT_MEMHEAP_USED \<noteq> 0"

definition MEMITEM_SIZE :: "memheaps \<Rightarrow> nat \<Rightarrow> nat" where
  "MEMITEM_SIZE s a = sub32 (sub32 (mi_next (item s a)) a) RT_MEMHEAP_SIZE"

text \<open>The assignments on items that the code repeats: a new item after \<open>h\<close> in the ring of blocks, taking
  the successor of \<open>h\<close> out of it, taking an item out of the free ring, putting one at its front.\<close>

definition new_item :: "nat \<Rightarrow> nat \<Rightarrow> nat \<Rightarrow> memheaps \<Rightarrow> memheaps" where
  "new_item p h n s =
     (let s = upd_mi n (\<lambda>i. i\<lparr>mi_magic := RT_MEMHEAP_MAGIC, mi_pool := p\<rparr>) s;
          s = upd_mi n (\<lambda>i. i\<lparr>mi_prev := h, mi_next := mi_next (item s h)\<rparr>) s;
          s = upd_mi (mi_next (item s h)) (mi_prev_update (\<lambda>_. n)) s in
      upd_mi h (mi_next_update (\<lambda>_. n)) s)"

definition absorb_next :: "nat \<Rightarrow> memheaps \<Rightarrow> memheaps" where
  "absorb_next h s =
     (let new = mi_next (item s h);
          s = upd_mi (mi_next (item s new)) (mi_prev_update (\<lambda>_. h)) s in
      upd_mi h (mi_next_update (\<lambda>_. mi_next (item s new))) s)"

definition drop_item :: "nat \<Rightarrow> memheaps \<Rightarrow> memheaps" where
  "drop_item h s =
     (let s = upd_mi (mi_prev (item s h)) (mi_next_update (\<lambda>_. mi_next (item s h))) s in
      upd_mi (mi_next (item s h)) (mi_prev_update (\<lambda>_. mi_prev (item s h))) s)"

definition drop_item_back :: "nat \<Rightarrow> memheaps \<Rightarrow> memheaps" where
  "drop_item_back h s =
     (let s = upd_mi (mi_next (item s h)) (mi_prev_update (\<lambda>_. mi_prev (item s h))) s in
      upd_mi (mi_prev (item s h)) (mi_next_update (\<lambda>_. mi_next (item s h))) s)"

definition free_unlink :: "nat \<Rightarrow> memheaps \<Rightarrow> memheaps" where
  "free_unlink a s =
     (let s = upd_mi (mi_next_free (item s a)) (mi_prev_free_update (\<lambda>_. mi_prev_free (item s a))) s in
      upd_mi (mi_prev_free (item s a)) (mi_next_free_update (\<lambda>_. mi_next_free (item s a))) s)"

definition free_clear :: "nat \<Rightarrow> memheaps \<Rightarrow> memheaps" where
  "free_clear a s = upd_mi a (\<lambda>i. i\<lparr>mi_next_free := 0, mi_prev_free := 0\<rparr>) s"

definition free_push :: "nat \<Rightarrow> nat \<Rightarrow> memheaps \<Rightarrow> memheaps" where
  "free_push p a s =
     (let hdr = mh_free_list (mheap s p);
          s = upd_mi a (\<lambda>i. i\<lparr>mi_next_free := mi_next_free (item s hdr), mi_prev_free := hdr\<rparr>) s;
          s = upd_mi (mi_next_free (item s hdr)) (mi_prev_free_update (\<lambda>_. a)) s in
      upd_mi hdr (mi_next_free_update (\<lambda>_. a)) s)"

definition mh_account :: "nat \<Rightarrow> nat \<Rightarrow> memheaps \<Rightarrow> memheaps" where
  "mh_account p n s =
     upd_mh p (\<lambda>m. let m = m\<lparr>mh_available := sub32 (mh_available m) n\<rparr> in
       if sub32 (mh_pool_size m) (mh_available m) > mh_max_used m
       then m\<lparr>mh_max_used := sub32 (mh_pool_size m) (mh_available m)\<rparr> else m) s"

definition mh_give :: "nat \<Rightarrow> nat \<Rightarrow> memheaps \<Rightarrow> memheaps" where
  "mh_give p n s = upd_mh p (\<lambda>m. m\<lparr>mh_available := add32 (mh_available m) n\<rparr>) s"

text \<open>The memory part of \<^verbatim>\<open>rt_memheap_init\<close>: \<open>hdr\<close> is the address of the heap's \<^verbatim>\<open>free_header\<close>, \<open>lk\<close>
  its lock.\<close>

definition memheap_setup :: "nat \<Rightarrow> nat \<Rightarrow> nat \<Rightarrow> nat \<Rightarrow> nat \<Rightarrow> memheaps \<Rightarrow> memheaps" where
  "memheap_setup p hdr lk start_addr sz s =
     (let pool = RT_ALIGN_DOWN sz RT_ALIGN_SIZE;
          avail = sub32 pool (2 * RT_MEMHEAP_SIZE);
          s = s\<lparr>mh_tab := (mh_tab s)(p := \<lparr>mh_start = start_addr, mh_pool_size = pool, mh_available = avail,
                 mh_max_used = sub32 pool avail, mh_block_list = start_addr, mh_free_list = hdr, mh_lock = lk\<rparr>)\<rparr>;
          s = upd_mi hdr (\<lambda>_. \<lparr>mi_magic = RT_MEMHEAP_MAGIC, mi_pool = p, mi_next = 0, mi_prev = 0,
                 mi_next_free = hdr, mi_prev_free = hdr\<rparr>) s;
          fin = add32 (add32 start_addr avail) RT_MEMHEAP_SIZE;
          s = upd_mi start_addr (\<lambda>_. \<lparr>mi_magic = RT_MEMHEAP_MAGIC, mi_pool = p, mi_next = fin, mi_prev = fin,
                 mi_next_free = start_addr, mi_prev_free = start_addr\<rparr>) s;
          s = free_push p start_addr s in
      upd_mi fin (\<lambda>_. \<lparr>mi_magic = RT_MEMHEAP_MAGIC OR RT_MEMHEAP_USED, mi_pool = p, mi_next = start_addr,
         mi_prev = start_addr, mi_next_free = 0, mi_prev_free = 0\<rparr>) s)"

text \<open>The search for the first free block that is large enough, with the size of the last one looked at.\<close>

partial_function (option) free_search :: "memheaps \<Rightarrow> nat \<Rightarrow> nat \<Rightarrow> nat \<Rightarrow> nat \<Rightarrow> (nat \<times> nat) option" where
  "free_search s hdr sz h free_size =
     (if h \<noteq> hdr \<and> free_size < sz then
        let free_size = MEMITEM_SIZE s h in
        free_search s hdr sz (if free_size < sz then mi_next_free (item s h) else h) free_size
      else Some (h, free_size))"

definition mark_item_used :: "nat \<Rightarrow> memheaps \<Rightarrow> memheaps" where
  "mark_item_used h s = upd_mi h (\<lambda>i. i\<lparr>mi_magic := mi_magic i OR RT_MEMHEAP_USED\<rparr>) s"

definition alloc_split :: "nat \<Rightarrow> nat \<Rightarrow> nat \<Rightarrow> memheaps \<Rightarrow> memheaps" where
  "alloc_split p sz h s =
     (let n = add32 (add32 h sz) RT_MEMHEAP_SIZE;
          s = free_clear h (free_unlink h (new_item p h n s)) in
      mh_account p (add32 sz RT_MEMHEAP_SIZE) (free_push p n s))"

definition alloc_whole :: "nat \<Rightarrow> nat \<Rightarrow> nat \<Rightarrow> memheaps \<Rightarrow> memheaps" where
  "alloc_whole p free_size h s = free_clear h (free_unlink h (mh_account p free_size s))"

definition alloc_locked :: "nat \<Rightarrow> nat \<Rightarrow> memheaps \<Rightarrow> (memheaps \<times> nat) option" where
  "alloc_locked p sz s = do {
     let hdr = mh_free_list (mheap s p);
     (h, free_size) \<leftarrow> free_search s hdr sz (mi_next_free (item s hdr)) 0;
     if free_size \<ge> sz then
       let s = (if free_size \<ge> add32 (add32 sz RT_MEMHEAP_SIZE) RT_MEMHEAP_MINIALLOC
                then alloc_split p sz h s else alloc_whole p free_size h s) in
       Some (mark_item_used h s, h + RT_MEMHEAP_SIZE)
     else Some (s, 0) }"

text \<open>\<^verbatim>\<open>rt_memheap_free\<close> with the lock held: merge with the free block before, with the one after, and link
  the result unless the block before is linked already.\<close>

definition merge_left :: "nat \<Rightarrow> nat \<Rightarrow> memheaps \<Rightarrow> memheaps \<times> nat \<times> bool" where
  "merge_left p h s =
     (if \<not> RT_MEMHEAP_IS_USED s (mi_prev (item s h))
      then let prv = mi_prev (item s h) in (drop_item h (mh_give p RT_MEMHEAP_SIZE s), prv, False)
      else (s, h, True))"

definition merge_right :: "nat \<Rightarrow> nat \<Rightarrow> memheaps \<Rightarrow> memheaps" where
  "merge_right p h s =
     (if \<not> RT_MEMHEAP_IS_USED s (mi_next (item s h))
      then let new = mi_next (item s h) in free_unlink new (absorb_next h (mh_give p RT_MEMHEAP_SIZE s))
      else s)"

definition free_mh_locked :: "nat \<Rightarrow> nat \<Rightarrow> memheaps \<Rightarrow> memheaps" where
  "free_mh_locked p h s =
     (let s = upd_mi h (\<lambda>i. i\<lparr>mi_magic := mi_magic i AND NOT RT_MEMHEAP_USED\<rparr>) s;
          s = mh_give p (MEMITEM_SIZE s h) s;
          (s, h, ins) = merge_left p h s;
          s = merge_right p h s in
      if ins then free_push p h s else s)"

text \<open>\<^verbatim>\<open>rt_memheap_realloc\<close>: growing into the free block behind; whether it did.\<close>

definition expand_locked :: "nat \<Rightarrow> nat \<Rightarrow> nat \<Rightarrow> nat \<Rightarrow> memheaps \<Rightarrow> (memheaps \<times> bool) option" where
  "expand_locked p h newsize oldsize s = do {
     let nxt = mi_next (item s h);
     rt_assert (nxt > h);
     if \<not> RT_MEMHEAP_IS_USED s nxt \<and> add32 (MEMITEM_SIZE s nxt) oldsize > add32 newsize RT_MEMHEAP_MINIALLOC then
       let s = mh_account p (sub32 newsize oldsize) s;
           s = drop_item_back nxt (free_unlink nxt s);
           n = add32 (h + RT_MEMHEAP_SIZE) newsize in
       Some (free_push p n (new_item p h n s), True)
     else Some (s, False) }"

text \<open>Giving back the end of a block, merged with the free block behind it.\<close>

definition shrink_locked :: "nat \<Rightarrow> nat \<Rightarrow> nat \<Rightarrow> memheaps \<Rightarrow> memheaps" where
  "shrink_locked p h newsize s =
     (let n = add32 (add32 h newsize) RT_MEMHEAP_SIZE;
          s = new_item p h n s;
          s = (if \<not> RT_MEMHEAP_IS_USED s (mi_next (item s n)) then
                 let f = mi_next (item s n);
                     s = upd_mh p (\<lambda>m. m\<lparr>mh_available := sub32 (mh_available m) (MEMITEM_SIZE s f)\<rparr>) s in
                 free_unlink f (absorb_next n s)
               else s);
          s = free_push p n s in
      mh_give p (MEMITEM_SIZE s n) s)"

section \<open>Rings\<close>

text \<open>The two families of links, seen as memories of \<open>Rt_List\<close>.\<close>

definition block_links :: "memheaps \<Rightarrow> nat links" where
  "block_links s = \<lparr>ln_next = (\<lambda>a. mi_next (item s a)), ln_prev = (\<lambda>a. mi_prev (item s a))\<rparr>"

definition free_links :: "memheaps \<Rightarrow> nat links" where
  "free_links s = \<lparr>ln_next = (\<lambda>a. mi_next_free (item s a)), ln_prev = (\<lambda>a. mi_prev_free (item s a))\<rparr>"

lemma links_of [simp]:
  "ln_next (block_links s) a = mi_next (item s a)" "ln_prev (block_links s) a = mi_prev (item s a)"
  "ln_next (free_links s) a = mi_next_free (item s a)" "ln_prev (free_links s) a = mi_prev_free (item s a)"
  by (simp_all add: block_links_def free_links_def)

text \<open>A node is linked between two neighbours, or taken out from between them.\<close>

lemma ring_add:
  assumes r: "is_ring h l (xs @ ys)" and n: "n \<notin> set (l # xs @ ys)" and p: "p = hd (ys @ [l])" and q: "q = last (l # xs)"
    and nx: "\<And>x. ln_next h' x = (if x = q then n else if x = n then p else ln_next h x)"
    and pv: "\<And>x. ln_prev h' x = (if x = p then n else if x = n then q else ln_prev h x)"
  shows "is_ring h' l (xs @ n # ys)"
proof (rule ring_frame[OF ring_insert_before[OF r n]])
  have s: "ln_prev h p = q" "q \<in> set (l # xs)" "p \<in> set (ys @ [l])"
    by (rule ring_split[OF r], simp add: p q)+
  have "n \<noteq> p" "n \<noteq> q" using n s(2,3) by auto
  then show "ln_next h' x = ln_next (rt_list_insert_before (hd (ys @ [l])) n h) x \<and>
      ln_prev h' x = ln_prev (rt_list_insert_before (hd (ys @ [l])) n h) x" for x
    unfolding p[symmetric] insert_before_next insert_before_prev[OF \<open>n \<noteq> p\<close>] s(1) nx pv by auto
qed

lemma ring_drop:
  assumes r: "is_ring h l (xs @ n # ys)"
    and nx: "\<And>x. x \<noteq> n \<Longrightarrow> ln_next h' x = (if x = ln_prev h n then ln_next h n else ln_next h x)"
    and pv: "\<And>x. x \<noteq> n \<Longrightarrow> ln_prev h' x = (if x = ln_next h n then ln_prev h n else ln_prev h x)"
  shows "is_ring h' l (xs @ ys)"
proof (rule ring_frame[OF ring_remove(1)[OF r]])
  fix x assume x: "x \<in> set (l # xs @ ys)"
  have d: "distinct (l # xs @ n # ys)" using r by (simp add: is_ring_def)
  have n: "n \<in> set (l # xs @ n # ys)" by simp
  have "x \<noteq> n" using d x by auto
  moreover have "ln_prev h n \<noteq> n" "ln_next h n \<noteq> n"
  proof -
    obtain q where "ln_prev h n = q" "q \<in> set (l # xs)" by (rule ring_split[OF r]) auto
    then show "ln_prev h n \<noteq> n" using d by auto
    have "is_ring h l ((xs @ [n]) @ ys)" using r by simp
    then obtain p where "ln_next h n = p" "p \<in> set (ys @ [l])" by (rule ring_split) auto
    then show "ln_next h n \<noteq> n" using d by auto
  qed
  ultimately show "ln_next h' x = ln_next (rt_list_remove n h) x \<and> ln_prev h' x = ln_prev (rt_list_remove n h) x"
    using nx pv by (simp add: remove_next remove_prev)
qed

text \<open>A ring as the sequence of all its nodes.\<close>

definition cycle :: "nat links \<Rightarrow> nat list \<Rightarrow> bool" where
  "cycle h C \<longleftrightarrow> C \<noteq> [] \<and> is_ring h (hd C) (tl C)"

lemma cycle_cong: "cycle h C \<Longrightarrow> (\<And>x. x \<in> set C \<Longrightarrow> ln_next h' x = ln_next h x \<and> ln_prev h' x = ln_prev h x) \<Longrightarrow> cycle h' C"
  unfolding cycle_def by (cases C) (auto intro: ring_frame)

lemma cycle_next: "cycle h (us @ b # c # vs) \<Longrightarrow> ln_next h b = c \<and> ln_prev h c = b"
  by (cases us) (auto simp: cycle_def is_ring_def chain_append)

lemma cycle_ends: "cycle h C \<Longrightarrow> ln_prev h (hd C) = last C \<and> ln_next h (last C) = hd C"
  using chain_last[of h "hd C" "tl C" "hd C"] by (cases C) (auto simp: cycle_def is_ring_def)

lemma cycle_add:
  assumes C: "cycle h (us @ b # c # vs)" and n: "n \<notin> set (us @ b # c # vs)"
    and nx: "\<And>x. ln_next h' x = (if x = b then n else if x = n then c else ln_next h x)"
    and pv: "\<And>x. ln_prev h' x = (if x = c then n else if x = n then b else ln_prev h x)"
  shows "cycle h' (us @ b # n # c # vs)"
proof (cases us)
  case Nil
  have "is_ring h' b ([] @ n # c # vs)"
    by (rule ring_add[of h b "[]" "c # vs"]) (use C n nx pv Nil in \<open>auto simp: cycle_def\<close>)
  then show ?thesis using Nil by (simp add: cycle_def)
next
  case (Cons u us')
  have "is_ring h' u ((us' @ [b]) @ n # c # vs)"
    by (rule ring_add[of h u "us' @ [b]" "c # vs"]) (use C n nx pv Cons in \<open>auto simp: cycle_def\<close>)
  then show ?thesis using Cons by (simp add: cycle_def)
qed

lemma cycle_drop:
  assumes C: "cycle h (us @ b # n # c # vs)"
    and nx: "\<And>x. x \<noteq> n \<Longrightarrow> ln_next h' x = (if x = b then c else ln_next h x)"
    and pv: "\<And>x. x \<noteq> n \<Longrightarrow> ln_prev h' x = (if x = c then b else ln_prev h x)"
  shows "cycle h' (us @ b # c # vs)"
proof -
  have e: "ln_prev h n = b" "ln_next h n = c"
    using cycle_next[OF C] cycle_next[of h "us @ [b]" n c vs] C by simp_all
  show ?thesis
  proof (cases us)
    case Nil
    have "is_ring h' b ([] @ c # vs)"
      by (rule ring_drop[of h b "[]" n "c # vs"]) (use C nx pv Nil e in \<open>auto simp: cycle_def\<close>)
    then show ?thesis using Nil by (simp add: cycle_def)
  next
    case (Cons u us')
    have "is_ring h' u ((us' @ [b]) @ c # vs)"
      by (rule ring_drop[of h u "us' @ [b]" n "c # vs"]) (use C nx pv Cons e in \<open>auto simp: cycle_def\<close>)
    then show ?thesis using Cons by (simp add: cycle_def)
  qed
qed

section \<open>Blocks\<close>

text \<open>Sums and areas over the consecutive items of a sequence; \<open>F\<close> says which are free.\<close>

fun free_bytes :: "(nat \<Rightarrow> bool) \<Rightarrow> nat list \<Rightarrow> nat" where
  "free_bytes F (a # b # r) = (if F a then b - a - RT_MEMHEAP_SIZE else 0) + free_bytes F (b # r)"
| "free_bytes F _ = 0"

fun used_areas :: "(nat \<Rightarrow> bool) \<Rightarrow> nat list \<Rightarrow> (nat \<times> nat) set" where
  "used_areas F (a # b # r) =
     (if F a then {} else {(a + RT_MEMHEAP_SIZE, b - a - RT_MEMHEAP_SIZE)}) \<union> used_areas F (b # r)"
| "used_areas F _ = {}"

lemma free_bytes_append: "free_bytes F (us @ b # vs) = free_bytes F (us @ [b]) + free_bytes F (b # vs)"
proof (induction us)
  case (Cons u us)
  then show ?case by (cases us) auto
qed (cases vs; simp)

lemma used_areas_append: "used_areas F (us @ b # vs) = used_areas F (us @ [b]) \<union> used_areas F (b # vs)"
proof (induction us)
  case (Cons u us)
  then show ?case by (cases us) auto
qed (cases vs; simp)

lemma free_bytes_cong: "(\<And>a. a \<in> set (butlast L) \<Longrightarrow> F a = G a) \<Longrightarrow> free_bytes F L = free_bytes G L"
  by (induction F L rule: free_bytes.induct) auto

lemma used_areas_cong: "(\<And>a. a \<in> set (butlast L) \<Longrightarrow> F a = G a) \<Longrightarrow> used_areas F L = used_areas G L"
  by (induction F L rule: used_areas.induct) auto

text \<open>Items lie apart.\<close>

abbreviation spaced :: "nat list \<Rightarrow> bool" where
  "spaced L \<equiv> sorted_wrt (\<lambda>x y. x + RT_MEMHEAP_SIZE \<le> y) L"

lemma spaced_distinct: "spaced L \<Longrightarrow> distinct L"
proof -
  assume "spaced L"
  then have "sorted_wrt (<) L" by (rule sorted_wrt_mono_rel[rotated]) (auto simp: memheap_consts)
  then show ?thesis by (simp add: strict_sorted_iff)
qed

lemma free_bytes_le: "spaced (a # L) \<Longrightarrow> L \<noteq> [] \<Longrightarrow> free_bytes F (a # L) + RT_MEMHEAP_SIZE * length L \<le> last L - a"
proof (induction L arbitrary: a)
  case (Cons b L)
  show ?case
  proof (cases L)
    case Nil
    then show ?thesis using Cons.prems by (auto simp: memheap_consts)
  next
    case (Cons c L')
    then have "free_bytes F (b # L) + RT_MEMHEAP_SIZE * length L \<le> last L - b" using Cons.IH[of b] Cons.prems by auto
    moreover have "b + RT_MEMHEAP_SIZE \<le> last L" using Cons Cons.prems last_in_set[of L] by (metis list.simps(3) sorted_wrt.simps(2))
    moreover have "a + RT_MEMHEAP_SIZE \<le> b" using Cons.prems by simp
    ultimately show ?thesis using Cons by auto
  qed
qed simp

section \<open>What the assignments do to the rings\<close>

lemma upd_mi_sel [simp]:
  "mh_tab (upd_mi a f s) = mh_tab s" "mh_byte (upd_mi a f s) = mh_byte s"
  "mh_item (upd_mi a f s) = (mh_item s)(a := f (item s a))"
  "mh_item (upd_mh p g s) = mh_item s" "mh_byte (upd_mh p g s) = mh_byte s"
  "mh_tab (upd_mh p g s) = (mh_tab s)(p := g (mheap s p))"
  by (simp_all add: upd_mi_def upd_mh_def)

lemma item_ops_tab [simp]:
  "mh_tab (new_item p h n s) = mh_tab s" "mh_tab (absorb_next h s) = mh_tab s" "mh_tab (drop_item h s) = mh_tab s"
  "mh_tab (drop_item_back h s) = mh_tab s" "mh_tab (free_unlink a s) = mh_tab s" "mh_tab (free_clear a s) = mh_tab s"
  "mh_tab (free_push p a s) = mh_tab s" "mh_tab (mark_item_used h s) = mh_tab s"
  by (simp_all add: new_item_def absorb_next_def drop_item_def drop_item_back_def free_unlink_def free_clear_def
      free_push_def mark_item_used_def Let_def)

lemma item_ops_byte [simp]:
  "mh_byte (new_item p h n s) = mh_byte s" "mh_byte (absorb_next h s) = mh_byte s" "mh_byte (drop_item h s) = mh_byte s"
  "mh_byte (drop_item_back h s) = mh_byte s" "mh_byte (free_unlink a s) = mh_byte s" "mh_byte (free_clear a s) = mh_byte s"
  "mh_byte (free_push p a s) = mh_byte s" "mh_byte (mark_item_used h s) = mh_byte s"
  "mh_byte (mh_account p n s) = mh_byte s" "mh_byte (mh_give p n s) = mh_byte s"
  by (simp_all add: new_item_def absorb_next_def drop_item_def drop_item_back_def free_unlink_def free_clear_def
      free_push_def mark_item_used_def mh_account_def mh_give_def Let_def)

lemma account_item [simp]: "mh_item (mh_account p n s) = mh_item s" "mh_item (mh_give p n s) = mh_item s"
  by (simp_all add: mh_account_def mh_give_def)

lemma item_ops_magic [simp]:
  "mi_magic (item (new_item p h n s) a) = (if a = n then RT_MEMHEAP_MAGIC else mi_magic (item s a))"
  "mi_magic (item (absorb_next h s) a) = mi_magic (item s a)" "mi_magic (item (drop_item h s) a) = mi_magic (item s a)"
  "mi_magic (item (drop_item_back h s) a) = mi_magic (item s a)" "mi_magic (item (free_unlink x s) a) = mi_magic (item s a)"
  "mi_magic (item (free_clear x s) a) = mi_magic (item s a)" "mi_magic (item (free_push p x s) a) = mi_magic (item s a)"
  "mi_magic (item (mark_item_used x s) a) = (if a = x then mi_magic (item s a) OR RT_MEMHEAP_USED else mi_magic (item s a))"
  by (simp_all add: new_item_def absorb_next_def drop_item_def drop_item_back_def free_unlink_def free_clear_def
      free_push_def mark_item_used_def Let_def)

lemma item_ops_pool [simp]:
  "mi_pool (item (new_item p h n s) a) = (if a = n then p else mi_pool (item s a))"
  "mi_pool (item (absorb_next h s) a) = mi_pool (item s a)" "mi_pool (item (drop_item h s) a) = mi_pool (item s a)"
  "mi_pool (item (drop_item_back h s) a) = mi_pool (item s a)" "mi_pool (item (free_unlink x s) a) = mi_pool (item s a)"
  "mi_pool (item (free_clear x s) a) = mi_pool (item s a)" "mi_pool (item (free_push p x s) a) = mi_pool (item s a)"
  "mi_pool (item (mark_item_used x s) a) = mi_pool (item s a)"
  by (simp_all add: new_item_def absorb_next_def drop_item_def drop_item_back_def free_unlink_def free_clear_def
      free_push_def mark_item_used_def Let_def)

text \<open>The block operations leave the free ring, the free operations the ring of blocks.\<close>

lemma item_ops_frees [simp]:
  "mi_next_free (item (absorb_next h s) a) = mi_next_free (item s a)"
  "mi_prev_free (item (absorb_next h s) a) = mi_prev_free (item s a)"
  "mi_next_free (item (drop_item h s) a) = mi_next_free (item s a)"
  "mi_prev_free (item (drop_item h s) a) = mi_prev_free (item s a)"
  "mi_next_free (item (drop_item_back h s) a) = mi_next_free (item s a)"
  "mi_prev_free (item (drop_item_back h s) a) = mi_prev_free (item s a)"
  "mi_next_free (item (new_item p h n s) a) = mi_next_free (item s a)"
  "mi_prev_free (item (new_item p h n s) a) = mi_prev_free (item s a)"
  "mi_next_free (item (mark_item_used h s) a) = mi_next_free (item s a)"
  "mi_prev_free (item (mark_item_used h s) a) = mi_prev_free (item s a)"
  by (simp_all add: new_item_def absorb_next_def drop_item_def drop_item_back_def free_unlink_def free_clear_def
      free_push_def mark_item_used_def Let_def)

lemma item_ops_blocks [simp]:
  "mi_next (item (free_unlink x s) a) = mi_next (item s a)"
  "mi_prev (item (free_unlink x s) a) = mi_prev (item s a)"
  "mi_next (item (free_clear x s) a) = mi_next (item s a)"
  "mi_prev (item (free_clear x s) a) = mi_prev (item s a)"
  "mi_next (item (free_push p x s) a) = mi_next (item s a)"
  "mi_prev (item (free_push p x s) a) = mi_prev (item s a)"
  "mi_next (item (mark_item_used h s) a) = mi_next (item s a)"
  "mi_prev (item (mark_item_used h s) a) = mi_prev (item s a)"
  by (simp_all add: new_item_def absorb_next_def drop_item_def drop_item_back_def free_unlink_def free_clear_def
      free_push_def mark_item_used_def Let_def)

lemma links_frame [simp]:
  "free_links (absorb_next h s) = free_links s" "free_links (drop_item h s) = free_links s"
  "free_links (drop_item_back h s) = free_links s" "free_links (new_item p h n s) = free_links s"
  "free_links (mark_item_used h s) = free_links s" "block_links (mark_item_used h s) = block_links s"
  "block_links (free_unlink a s) = block_links s" "block_links (free_clear a s) = block_links s"
  "block_links (free_push p a s) = block_links s"
  "free_links (upd_mh p f s) = free_links s" "block_links (upd_mh p f s) = block_links s"
  "free_links (mh_account p n s) = free_links s" "block_links (mh_account p n s) = block_links s"
  "free_links (mh_give p n s) = free_links s" "block_links (mh_give p n s) = block_links s"
  by (simp_all add: free_links_def block_links_def)

lemma free_unlink_ring:
  assumes r: "is_ring (free_links s) l (xs @ a # ys)"
  shows "is_ring (free_links (free_unlink a s)) l (xs @ ys)"
proof (rule ring_drop[OF r])
  have c: "a \<in> set (l # xs @ a # ys)" by simp
  have d: "mi_prev_free (item s a) \<noteq> a" "mi_next_free (item s a) \<noteq> a"
  proof -
    have "distinct (l # xs @ a # ys)" using r by (simp add: is_ring_def)
    moreover obtain q where "ln_prev (free_links s) a = q" "q \<in> set (l # xs)" by (rule ring_split[OF r]) auto
    moreover have "is_ring (free_links s) l ((xs @ [a]) @ ys)" using r by simp
    then obtain p where "ln_next (free_links s) a = p" "p \<in> set (ys @ [l])" by (rule ring_split) auto
    ultimately show "mi_prev_free (item s a) \<noteq> a" "mi_next_free (item s a) \<noteq> a" by auto
  qed
  show "ln_next (free_links (free_unlink a s)) x =
      (if x = ln_prev (free_links s) a then ln_next (free_links s) a else ln_next (free_links s) x)"
    "ln_prev (free_links (free_unlink a s)) x =
      (if x = ln_next (free_links s) a then ln_prev (free_links s) a else ln_prev (free_links s) x)" if "x \<noteq> a" for x
    using d that by (simp_all add: free_unlink_def Let_def)
qed

lemma free_clear_ring: "is_ring (free_links s) l xs \<Longrightarrow> a \<notin> set (l # xs) \<Longrightarrow> is_ring (free_links (free_clear a s)) l xs"
  by (erule ring_frame) (auto simp: free_clear_def)

lemma free_push_ring:
  assumes r: "is_ring (free_links s) (mh_free_list (mheap s p)) fs" and a: "a \<notin> set (mh_free_list (mheap s p) # fs)"
  shows "is_ring (free_links (free_push p a s)) (mh_free_list (mheap s p)) (a # fs)"
proof -
  let ?l = "mh_free_list (mheap s p)"
  have n: "mi_next_free (item s ?l) = hd (fs @ [?l])" using r by (cases fs) (auto simp: is_ring_def)
  have r': "is_ring (free_links s) ?l ([] @ fs)" using r by simp
  have ne: "hd (fs @ [?l]) \<noteq> a" using a by (cases fs) auto
  have "is_ring (free_links (free_push p a s)) ?l ([] @ a # fs)"
    by (rule ring_add[OF r', where p = "hd (fs @ [?l])" and q = ?l]) (use a n ne in \<open>auto simp: free_push_def Let_def\<close>)
  then show ?thesis by simp
qed

lemma new_item_cycle:
  assumes c: "cycle (block_links s) (us @ h # c # vs)" and n: "n \<notin> set (us @ h # c # vs)"
  shows "cycle (block_links (new_item p h n s)) (us @ h # n # c # vs)"
proof (rule cycle_add[OF c n])
  have "mi_next (item s h) = c" "h \<noteq> n" "c \<noteq> n" using cycle_next[OF c] n by auto
  then show "ln_next (block_links (new_item p h n s)) x = (if x = h then n else if x = n then c else ln_next (block_links s) x)"
    "ln_prev (block_links (new_item p h n s)) x = (if x = c then n else if x = n then h else ln_prev (block_links s) x)" for x
    by (simp_all add: new_item_def Let_def)
qed

lemma cycle_three:
  assumes c: "cycle (block_links s) (us @ h # n # c # vs)"
  shows "mi_next (item s h) = n" "mi_next (item s n) = c" "mi_prev (item s n) = h" "mi_prev (item s c) = n" "h \<noteq> n" "c \<noteq> n"
proof -
  have "cycle (block_links s) ((us @ [h]) @ n # c # vs)" using c by simp
  from cycle_next[OF this] cycle_next[OF c] show "mi_next (item s h) = n" "mi_next (item s n) = c" "mi_prev (item s n) = h"
    "mi_prev (item s c) = n" by simp_all
  show "h \<noteq> n" "c \<noteq> n" using c by (cases us; auto simp: cycle_def is_ring_def)+
qed

lemma absorb_next_cycle:
  assumes c: "cycle (block_links s) (us @ h # n # c # vs)"
  shows "cycle (block_links (absorb_next h s)) (us @ h # c # vs)"
  by (rule cycle_drop[OF c]) (use cycle_three[OF c] in \<open>auto simp: absorb_next_def Let_def\<close>)

lemma drop_item_cycle:
  assumes c: "cycle (block_links s) (us @ h # n # c # vs)"
  shows "cycle (block_links (drop_item n s)) (us @ h # c # vs)" "cycle (block_links (drop_item_back n s)) (us @ h # c # vs)"
  by (rule cycle_drop[OF c]; use cycle_three[OF c] in \<open>auto simp: drop_item_def drop_item_back_def Let_def\<close>)+

section \<open>Invariant\<close>

definition item_ok :: "nat \<Rightarrow> memheaps \<Rightarrow> nat \<Rightarrow> bool" where
  "item_ok p s a \<longleftrightarrow> mi_pool (item s a) = p \<and> RT_ALIGN_SIZE dvd a \<and>
     mi_magic (item s a) \<in> {RT_MEMHEAP_MAGIC, RT_MEMHEAP_MAGIC OR RT_MEMHEAP_USED}"

text \<open>\<open>L\<close> are all items of heap \<open>p\<close>, the closing one last; \<open>fs\<close> the free ones in the order of the search.\<close>

definition mh_rep :: "nat \<Rightarrow> memheaps \<Rightarrow> nat list \<Rightarrow> nat list \<Rightarrow> bool" where
  "mh_rep p s L fs \<longleftrightarrow> cycle (block_links s) L \<and> 2 \<le> length L \<and> spaced L \<and> (\<forall>a \<in> set L. item_ok p s a) \<and>
     RT_MEMHEAP_IS_USED s (last L) \<and> successively (\<lambda>a b. RT_MEMHEAP_IS_USED s a \<or> RT_MEMHEAP_IS_USED s b) L \<and>
     is_ring (free_links s) (mh_free_list (mheap s p)) fs \<and> set fs = {a \<in> set L. \<not> RT_MEMHEAP_IS_USED s a} \<and>
     hd L = mh_start (mheap s p) \<and> 0 < mh_start (mheap s p) \<and>
     last L + RT_MEMHEAP_SIZE = mh_start (mheap s p) + mh_pool_size (mheap s p) \<and> last L + RT_MEMHEAP_SIZE \<le> 2 ^ 32 \<and>
     (mh_free_list (mheap s p) + RT_MEMHEAP_SIZE \<le> hd L \<or> last L + RT_MEMHEAP_SIZE \<le> mh_free_list (mheap s p)) \<and>
     mh_available (mheap s p) = free_bytes (\<lambda>a. \<not> RT_MEMHEAP_IS_USED s a) L \<and>
     mh_pool_size (mheap s p) - mh_available (mheap s p) \<le> mh_max_used (mheap s p)"

definition areas :: "memheaps \<Rightarrow> nat list \<Rightarrow> (nat \<times> nat) set" where
  "areas s L = used_areas (\<lambda>a. \<not> RT_MEMHEAP_IS_USED s a) L"

text \<open>The memory a heap's operations may change.\<close>

definition mh_span :: "nat \<Rightarrow> memheaps \<Rightarrow> nat set" where
  "mh_span p s = insert (mh_free_list (mheap s p)) {mh_start (mheap s p) ..< mh_start (mheap s p) + mh_pool_size (mheap s p)}"

definition mh_frame :: "nat \<Rightarrow> memheaps \<Rightarrow> memheaps \<Rightarrow> bool" where
  "mh_frame p s s' \<longleftrightarrow> mh_byte s' = mh_byte s \<and> (\<forall>q. q \<noteq> p \<longrightarrow> mheap s' q = mheap s q) \<and>
     mh_start (mheap s' p) = mh_start (mheap s p) \<and> mh_pool_size (mheap s' p) = mh_pool_size (mheap s p) \<and>
     mh_free_list (mheap s' p) = mh_free_list (mheap s p) \<and> mh_lock (mheap s' p) = mh_lock (mheap s p) \<and>
     (\<forall>a. a \<notin> mh_span p s \<longrightarrow> item s' a = item s a)"

lemma magic_bits [simp]:
  "RT_MEMHEAP_MAGIC AND RT_MEMHEAP_USED = 0" "(RT_MEMHEAP_MAGIC OR RT_MEMHEAP_USED) AND RT_MEMHEAP_USED \<noteq> 0"
  "(RT_MEMHEAP_MAGIC OR RT_MEMHEAP_USED) OR RT_MEMHEAP_USED = RT_MEMHEAP_MAGIC OR RT_MEMHEAP_USED"
  "(RT_MEMHEAP_MAGIC OR RT_MEMHEAP_USED) AND NOT RT_MEMHEAP_USED = RT_MEMHEAP_MAGIC"
  "RT_MEMHEAP_MAGIC AND RT_MEMHEAP_MASK = RT_MEMHEAP_MAGIC"
  "(RT_MEMHEAP_MAGIC OR RT_MEMHEAP_USED) AND RT_MEMHEAP_MASK = RT_MEMHEAP_MAGIC"
  "RT_MEMHEAP_MAGIC OR RT_MEMHEAP_USED \<noteq> RT_MEMHEAP_MAGIC" "RT_MEMHEAP_USED \<noteq> 0"
  by (simp_all add: RT_MEMHEAP_MAGIC_def RT_MEMHEAP_USED_def RT_MEMHEAP_MASK_def)

lemma item_used_iff: "item_ok p s a \<Longrightarrow> RT_MEMHEAP_IS_USED s a \<longleftrightarrow> mi_magic (item s a) = RT_MEMHEAP_MAGIC OR RT_MEMHEAP_USED"
  using magic_bits(7) by (auto simp: item_ok_def RT_MEMHEAP_IS_USED_def)

lemma mh_repD:
  assumes "mh_rep p s L fs"
  shows "cycle (block_links s) L" "2 \<le> length L" "spaced L" "\<And>a. a \<in> set L \<Longrightarrow> item_ok p s a"
    "RT_MEMHEAP_IS_USED s (last L)" "successively (\<lambda>a b. RT_MEMHEAP_IS_USED s a \<or> RT_MEMHEAP_IS_USED s b) L"
    "is_ring (free_links s) (mh_free_list (mheap s p)) fs" "set fs = {a \<in> set L. \<not> RT_MEMHEAP_IS_USED s a}"
    "hd L = mh_start (mheap s p)" "0 < mh_start (mheap s p)"
    "last L + RT_MEMHEAP_SIZE = mh_start (mheap s p) + mh_pool_size (mheap s p)" "last L + RT_MEMHEAP_SIZE \<le> 2 ^ 32"
    "mh_free_list (mheap s p) + RT_MEMHEAP_SIZE \<le> hd L \<or> last L + RT_MEMHEAP_SIZE \<le> mh_free_list (mheap s p)"
    "mh_available (mheap s p) = free_bytes (\<lambda>a. \<not> RT_MEMHEAP_IS_USED s a) L"
    "mh_pool_size (mheap s p) - mh_available (mheap s p) \<le> mh_max_used (mheap s p)"
  using assms unfolding mh_rep_def by blast+

text \<open>Every item but the last has a successor in the sequence.\<close>

lemma split_successor: "h \<in> set L \<Longrightarrow> h \<noteq> last L \<Longrightarrow> \<exists>us c vs. L = us @ h # c # vs"
proof -
  assume h: "h \<in> set L" "h \<noteq> last L"
  then obtain us r where "L = us @ h # r" by (auto simp: in_set_conv_decomp)
  then show ?thesis using h by (cases r) auto
qed

lemma mh_free_split:
  assumes "mh_rep p s L fs" "h \<in> set fs"
  obtains us c vs xs ys where "L = us @ h # c # vs" "fs = xs @ h # ys" "h + RT_MEMHEAP_SIZE \<le> c"
    "MEMITEM_SIZE s h = c - h - RT_MEMHEAP_SIZE" "\<not> RT_MEMHEAP_IS_USED s h" "RT_MEMHEAP_IS_USED s c"
proof -
  note d = mh_repD[OF assms(1)]
  have h: "h \<in> set L" "\<not> RT_MEMHEAP_IS_USED s h" using assms(2) d(8) by auto
  then obtain us c vs where L: "L = us @ h # c # vs" using d(5) split_successor[of h L] by blast
  obtain xs ys where "fs = xs @ h # ys" using assms(2) by (auto simp: in_set_conv_decomp)
  moreover have g: "h + RT_MEMHEAP_SIZE \<le> c" using d(3) by (simp add: L sorted_wrt_append)
  moreover have "MEMITEM_SIZE s h = c - h - RT_MEMHEAP_SIZE"
    using cycle_next[OF d(1)[unfolded L]] g by (simp add: MEMITEM_SIZE_def)
  moreover have "RT_MEMHEAP_IS_USED s c" using d(6) h(2) by (simp add: L successively_append_iff)
  ultimately show thesis using that[OF L] h(2) by blast
qed

text \<open>Nothing but the listed items is touched.\<close>

lemma free_unlink_item:
  assumes "is_ring (free_links s) l (xs @ a # ys)" "x \<notin> set (l # xs @ a # ys)"
  shows "item (free_unlink a s) x = item s x"
proof -
  have a: "a \<in> set (l # xs @ a # ys)" by simp
  have "mi_next_free (item s a) \<in> set (l # xs @ a # ys)" "mi_prev_free (item s a) \<in> set (l # xs @ a # ys)"
    using ring_closed(1,2)[OF assms(1) a] by simp_all
  then have "x \<noteq> mi_next_free (item s a)" "x \<noteq> mi_prev_free (item s a)" using assms(2) by metis+
  moreover have "mi_next_free (item s a) = a \<Longrightarrow> mi_prev_free (item s a) = a"
    using ring_closed(3)[OF assms(1) a] by (simp only: links_of)
  ultimately show ?thesis by (cases "mi_next_free (item s a) = a") (simp_all add: free_unlink_def Let_def)
qed

lemma free_push_item:
  assumes r: "is_ring (free_links s) (mh_free_list (mheap s p)) fs" and x: "x \<notin> set (mh_free_list (mheap s p) # a # fs)"
  shows "item (free_push p a s) x = item s x"
proof -
  have "mi_next_free (item s (mh_free_list (mheap s p))) \<in> set (mh_free_list (mheap s p) # fs)"
    using ring_closed(2)[OF r] by simp
  then show ?thesis using x by (auto simp: free_push_def Let_def)
qed

lemma new_item_item:
  assumes "cycle (block_links s) (us @ h # c # vs)" "x \<notin> {n, h, c}" "h \<noteq> n"
  shows "item (new_item p h n s) x = item s x"
  using assms(2,3) cycle_next[OF assms(1)] by (auto simp: new_item_def Let_def)

lemma drop_item_item:
  assumes c: "cycle (block_links s) (us @ h # n # c # vs)" and x: "x \<notin> {h, n, c}"
  shows "item (absorb_next h s) x = item s x" "item (drop_item n s) x = item s x" "item (drop_item_back n s) x = item s x"
  using x cycle_three[OF c] by (auto simp: absorb_next_def drop_item_def drop_item_back_def Let_def)

text \<open>Items lie in the span of their heap.\<close>

lemma spaced_bounds: "spaced L \<Longrightarrow> a \<in> set L \<Longrightarrow> hd L \<le> a \<and> a \<le> last L"
proof (induction L)
  case (Cons x L)
  show ?case
  proof (cases "L = []")
    case False
    have "x + RT_MEMHEAP_SIZE \<le> y" if "y \<in> set L" for y using Cons.prems(1) that by simp
    from this[of "last L"] this[of "hd L"] have "x \<le> last L" "x \<le> hd L" using False by simp_all
    then show ?thesis using Cons False by (cases "a = x") auto
  qed (use Cons.prems in simp)
qed simp

lemma mh_rep_span:
  assumes "mh_rep p s L fs"
  shows "set (mh_free_list (mheap s p) # L) \<subseteq> mh_span p s" "mh_free_list (mheap s p) \<notin> set L"
proof -
  note d = mh_repD[OF assms]
  have b: "hd L \<le> a \<and> a \<le> last L" if "a \<in> set L" for a using spaced_bounds[OF d(3) that] .
  show "set (mh_free_list (mheap s p) # L) \<subseteq> mh_span p s"
    using b d(9,11) by (fastforce simp: mh_span_def memheap_consts)
  show "mh_free_list (mheap s p) \<notin> set L" using b d(13) by (fastforce simp: memheap_consts)
qed

text \<open>One block more or less between two neighbours.\<close>

lemma free_bytes_split:
  "free_bytes F (us @ h # c # vs) = free_bytes F (us @ [h]) + (if F h then c - h - RT_MEMHEAP_SIZE else 0) + free_bytes F (c # vs)"
  by (subst free_bytes_append) simp

lemma used_areas_split:
  "used_areas F (us @ h # c # vs) =
     used_areas F (us @ [h]) \<union> (if F h then {} else {(h + RT_MEMHEAP_SIZE, c - h - RT_MEMHEAP_SIZE)}) \<union> used_areas F (c # vs)"
  by (subst used_areas_append) auto

lemma spaced_insert:
  "spaced (us @ h # c # vs) \<Longrightarrow> h + RT_MEMHEAP_SIZE \<le> n \<Longrightarrow> n + RT_MEMHEAP_SIZE \<le> c \<Longrightarrow> spaced (us @ h # n # c # vs)"
  by (fastforce simp: sorted_wrt_append)

lemma spaced_delete: "spaced (us @ h # n # vs) \<Longrightarrow> spaced (us @ h # vs)"
  by (auto simp: sorted_wrt_append)

lemma used_areas_starts: "(a, n) \<in> used_areas F L \<Longrightarrow> a - RT_MEMHEAP_SIZE \<in> set (butlast L) \<and> \<not> F (a - RT_MEMHEAP_SIZE) \<and> RT_MEMHEAP_SIZE \<le> a"
  by (induction F L rule: used_areas.induct) (auto split: if_splits)

lemma used_mark: "item_ok p s h \<Longrightarrow> RT_MEMHEAP_IS_USED (mark_item_used h s) a = (a = h \<or> RT_MEMHEAP_IS_USED s a)"
  by (auto simp: RT_MEMHEAP_IS_USED_def item_ok_def)

lemma mh_account_sel:
  assumes "n \<le> mh_available (mheap s p)" "mh_available (mheap s p) \<le> mh_pool_size (mheap s p)"
  shows "mh_available (mheap (mh_account p n s) p) = mh_available (mheap s p) - n"
    "mh_pool_size (mheap (mh_account p n s) p) - mh_available (mheap (mh_account p n s) p) \<le> mh_max_used (mheap (mh_account p n s) p)"
    "mh_start (mheap (mh_account p n s) q) = mh_start (mheap s q)" "mh_free_list (mheap (mh_account p n s) q) = mh_free_list (mheap s q)"
    "mh_pool_size (mheap (mh_account p n s) q) = mh_pool_size (mheap s q)" "mh_lock (mheap (mh_account p n s) q) = mh_lock (mheap s q)"
    "q \<noteq> p \<Longrightarrow> mheap (mh_account p n s) q = mheap s q"
  using assms by (simp_all add: mh_account_def Let_def)

lemma mh_available_le:
  assumes "mh_rep p s L fs" shows "mh_available (mheap s p) + 2 * RT_MEMHEAP_SIZE \<le> mh_pool_size (mheap s p)"
proof -
  note d = mh_repD[OF assms]
  obtain a L' where L: "L = a # L'" "L' \<noteq> []" using d(2) by (cases L; cases "tl L") auto
  then have "free_bytes (\<lambda>a. \<not> RT_MEMHEAP_IS_USED s a) L + RT_MEMHEAP_SIZE * length L' \<le> last L' - a"
    using free_bytes_le[of a L'] d(3) by simp
  moreover have "1 \<le> length L'" using L(2) by (cases L') auto
  ultimately have "free_bytes (\<lambda>a. \<not> RT_MEMHEAP_IS_USED s a) L + RT_MEMHEAP_SIZE \<le> last L' - a" by (simp add: memheap_consts)
  then show ?thesis using d(9,11,14) L by (simp add: memheap_consts)
qed

lemma outer_cong:
  assumes "\<And>a. a \<in> set (us @ c # vs) \<Longrightarrow> F' a = F a"
  shows "free_bytes F' (us @ [h]) = free_bytes F (us @ [h])" "free_bytes F' (c # vs) = free_bytes F (c # vs)"
    "used_areas F' (us @ [h]) = used_areas F (us @ [h])" "used_areas F' (c # vs) = used_areas F (c # vs)"
  by (rule free_bytes_cong used_areas_cong; use assms in_set_butlastD[of _ "c # vs"] in force)+

lemma adjacent_mono:
  "successively (\<lambda>a b. U a \<or> U b) L \<Longrightarrow> (\<And>a. a \<in> set L \<Longrightarrow> U a \<Longrightarrow> U' a) \<Longrightarrow> successively (\<lambda>a b. U' a \<or> U' b) L"
  by (erule successively_mono) auto

text \<open>An item between two neighbours of a heap is new, inside the heap and not its header.\<close>

lemma mh_between:
  assumes rep: "mh_rep p s L fs" and L: "L = us @ h # c # vs" and n: "h + RT_MEMHEAP_SIZE \<le> n" "n + RT_MEMHEAP_SIZE \<le> c"
  shows "n \<notin> set L" "spaced (us @ h # n # c # vs)" "hd (us @ h # n # c # vs) = hd L" "last (us @ h # n # c # vs) = last L"
    "n \<noteq> mh_free_list (mheap s p)" "n \<in> mh_span p s" "n \<notin> set fs"
proof -
  note d = mh_repD[OF rep]
  have sp: "spaced (us @ h # c # vs)" using d(3) L by simp
  have "u + RT_MEMHEAP_SIZE \<le> h" if "u \<in> set us" for u using sp that by (auto simp: sorted_wrt_append)
  moreover have "c \<le> v" if "v \<in> set (c # vs)" for v using sp that by (auto simp: sorted_wrt_append)
  ultimately show nL: "n \<notin> set L" using n by (fastforce simp: L memheap_consts)
  show sp': "spaced (us @ h # n # c # vs)" by (rule spaced_insert[OF sp n])
  show e: "hd (us @ h # n # c # vs) = hd L" "last (us @ h # n # c # vs) = last L" by (simp_all add: L hd_append)
  have b: "hd L \<le> n \<and> n \<le> last L" using spaced_bounds[OF sp', of n] e by simp
  then show "n \<noteq> mh_free_list (mheap s p)" using d(13) by (auto simp: memheap_consts)
  show "n \<in> mh_span p s" using b d(9,11) by (simp add: mh_span_def memheap_consts)
  show "n \<notin> set fs" using nL d(8) by auto
qed

text \<open>Moving a block out of the free ring, and a new one to its front.\<close>

definition replace_free :: "nat \<Rightarrow> nat \<Rightarrow> nat \<Rightarrow> memheaps \<Rightarrow> memheaps" where
  "replace_free p h n s = free_push p n (free_clear h (free_unlink h s))"

lemma replace_free_ring:
  assumes r: "is_ring (free_links s) (mh_free_list (mheap s p)) (xs @ h # ys)"
    and n: "n \<notin> set (mh_free_list (mheap s p) # xs @ ys)"
  shows "is_ring (free_links (replace_free p h n s)) (mh_free_list (mheap s p)) (n # xs @ ys)"
    "x \<notin> set (mh_free_list (mheap s p) # n # xs @ h # ys) \<Longrightarrow> item (replace_free p h n s) x = item s x"
proof -
  let ?l = "mh_free_list (mheap s p)" and ?s = "free_clear h (free_unlink h s)"
  have "h \<notin> set (?l # xs @ ys)" using r by (auto simp: is_ring_def)
  then have r': "is_ring (free_links ?s) (mh_free_list (mheap ?s p)) (xs @ ys)"
    using free_clear_ring[OF free_unlink_ring[OF r]] by simp
  then show "is_ring (free_links (replace_free p h n s)) ?l (n # xs @ ys)"
    using free_push_ring[of ?s p "xs @ ys" n] n by (simp add: replace_free_def)
  show "item (replace_free p h n s) x = item s x" if x: "x \<notin> set (?l # n # xs @ h # ys)"
  proof -
    have "item (replace_free p h n s) x = item ?s x"
      unfolding replace_free_def by (rule free_push_item[OF r']) (use x in auto)
    then show ?thesis using free_unlink_item[OF r, of x] x by (simp add: free_clear_def)
  qed
qed

lemma replace_free_sel [simp]:
  "mh_tab (replace_free p h n s) = mh_tab s" "mh_byte (replace_free p h n s) = mh_byte s"
  "mi_magic (item (replace_free p h n s) a) = mi_magic (item s a)" "mi_pool (item (replace_free p h n s) a) = mi_pool (item s a)"
  "block_links (replace_free p h n s) = block_links s"
  by (simp_all add: replace_free_def)

lemma alloc_split_effect:
  assumes rep: "mh_rep p s L fs" and L: "L = us @ h # c # vs" and fs: "fs = xs @ h # ys"
    and n: "n = h + sz + RT_MEMHEAP_SIZE" "n + RT_MEMHEAP_SIZE \<le> c" and sz: "RT_ALIGN_SIZE dvd sz"
    and s': "s' = mark_item_used h (alloc_split p sz h s)"
  shows "mh_rep p s' (us @ h # n # c # vs) (n # xs @ ys)"
    "areas s' (us @ h # n # c # vs) = insert (h + RT_MEMHEAP_SIZE, sz) (areas s L)" "mh_frame p s s'"
proof -
  note d = mh_repD[OF rep]
  let ?hdr = "mh_free_list (mheap s p)" and ?L = "us @ h # n # c # vs" and ?F = "\<lambda>a. \<not> RT_MEMHEAP_IS_USED s a"
    and ?F' = "\<lambda>a. \<not> RT_MEMHEAP_IS_USED s' a"
  have C: "cycle (block_links s) (us @ h # c # vs)" and R: "is_ring (free_links s) ?hdr (xs @ h # ys)" using d(1,7) L fs by simp_all
  have hn: "h + RT_MEMHEAP_SIZE \<le> n" using n(1) by simp
  note b = mh_between[OF rep L hn n(2)]
  have hf: "?F h" and hL: "h \<in> set L" using d(8) fs by auto
  have dist: "distinct (?hdr # xs @ h # ys)" "distinct L" using R spaced_distinct[OF d(3)] by (simp_all add: is_ring_def)
  have cu: "RT_MEMHEAP_IS_USED s c" using d(6) hf by (simp add: L successively_append_iff)
  have "c < 2 ^ 32" using spaced_bounds[OF d(3), of c] d(12) L by (simp add: memheap_consts)
  then have n32: "add32 (add32 h sz) RT_MEMHEAP_SIZE = n" "add32 sz RT_MEMHEAP_SIZE = sz + RT_MEMHEAP_SIZE"
    using n by (simp_all add: add32_small)
  have e: "s' = mark_item_used h (mh_account p (sz + RT_MEMHEAP_SIZE) (replace_free p h n (new_item p h n s)))"
    unfolding s' alloc_split_def Let_def n32 replace_free_def by simp
  have u': "RT_MEMHEAP_IS_USED s' a \<longleftrightarrow> a = h \<or> a \<noteq> n \<and> RT_MEMHEAP_IS_USED s a" for a
    using hn d(4)[OF hL] by (auto simp: RT_MEMHEAP_IS_USED_def e item_ok_def memheap_consts)
  have nh: "n \<noteq> h" "?F' n" "RT_MEMHEAP_IS_USED s' h" using hn by (simp_all add: u' memheap_consts)
  note F = outer_cong[of us c vs ?F' ?F]
  have Fc: "?F' a = ?F a" if "a \<in> set (us @ c # vs)" for a using that dist(2) b(1) by (auto simp: u' L)
  have a1: "sz + RT_MEMHEAP_SIZE \<le> mh_available (mheap s p)" using d(14) hf n by (simp add: L free_bytes_split)
  note ac = mh_account_sel[of "sz + RT_MEMHEAP_SIZE" "replace_free p h n (new_item p h n s)" p]
  have av: "mh_available (mheap s' p) = free_bytes ?F' ?L"
    using ac(1) a1 mh_available_le[OF rep] d(14) hf n nh F[OF Fc] by (simp add: e L free_bytes_split)
  have rep_parts: "cycle (block_links s') ?L" "is_ring (free_links s') ?hdr (n # xs @ ys)"
    using new_item_cycle[OF C b(1)[unfolded L]] replace_free_ring(1)[of "new_item p h n s" p xs h ys n] R b(5,7) fs
    by (simp_all add: e)
  have ok: "item_ok p s' a" if "a \<in> set ?L" for a
  proof (cases "a = n")
    case True
    then show ?thesis using hn n(1) sz d(4)[OF hL] by (simp add: item_ok_def e memheap_consts RT_ALIGN_SIZE_def)
  qed (use that d(4)[of a] in \<open>auto simp: item_ok_def e L\<close>)
  have adj: "successively (\<lambda>a b. RT_MEMHEAP_IS_USED s' a \<or> RT_MEMHEAP_IS_USED s' b) (us @ h # n # c # vs)"
  proof -
    have "successively (\<lambda>a b. RT_MEMHEAP_IS_USED s' a \<or> RT_MEMHEAP_IS_USED s' b) L"
      by (rule adjacent_mono[OF d(6)]) (use b(1) in \<open>auto simp: u'\<close>)
    then show ?thesis using nh(3) cu Fc[of c] by (simp add: L successively_append_iff)
  qed
  have set: "set (n # xs @ ys) = {a \<in> set ?L. ?F' a}" using d(8) dist(1) b(1) nh(1) by (auto simp: u' L fs)
  have "RT_MEMHEAP_IS_USED s' (last ?L)" using d(5) b(1,4) L by (auto simp: u')
  then show "mh_rep p s' ?L (n # xs @ ys)"
    unfolding mh_rep_def
    using rep_parts ok av adj set b(2-4) d(9-13) ac(2-5) a1 mh_available_le[OF rep] by (simp add: e)
  show "areas s' ?L = insert (h + RT_MEMHEAP_SIZE, sz) (areas s L)"
    using F[OF Fc] nh hf n(1) by (simp add: areas_def L used_areas_split)
  have "item s' a = item s a" if a: "a \<notin> mh_span p s" for a
  proof -
    have x: "a \<notin> set (?hdr # n # L)" using a b(6) mh_rep_span(1)[OF rep] by auto
    then have "item (replace_free p h n (new_item p h n s)) a = item (new_item p h n s) a"
      using replace_free_ring(2)[of "new_item p h n s" p xs h ys n a] R b(5,7) fs d(8) by auto
    then show ?thesis using new_item_item[OF C, of a n] x hL nh(1) L by (auto simp: e mark_item_used_def)
  qed
  then show "mh_frame p s s'" using ac(3-7) a1 mh_available_le[OF rep] by (simp add: mh_frame_def e)
qed

lemma alloc_whole_effect:
  assumes rep: "mh_rep p s L fs" and L: "L = us @ h # c # vs" and fs: "fs = xs @ h # ys"
    and s': "s' = mark_item_used h (alloc_whole p (c - h - RT_MEMHEAP_SIZE) h s)"
  shows "mh_rep p s' L (xs @ ys)" "areas s' L = insert (h + RT_MEMHEAP_SIZE, c - h - RT_MEMHEAP_SIZE) (areas s L)" "mh_frame p s s'"
proof -
  note d = mh_repD[OF rep]
  let ?hdr = "mh_free_list (mheap s p)" and ?F = "\<lambda>a. \<not> RT_MEMHEAP_IS_USED s a" and ?F' = "\<lambda>a. \<not> RT_MEMHEAP_IS_USED s' a"
    and ?n = "c - h - RT_MEMHEAP_SIZE"
  have R: "is_ring (free_links s) ?hdr (xs @ h # ys)" using d(7) fs by simp
  have hf: "?F h" and hL: "h \<in> set L" using d(8) fs by auto
  have dist: "distinct (?hdr # xs @ h # ys)" "distinct L" using R spaced_distinct[OF d(3)] by (simp_all add: is_ring_def)
  have e: "s' = mark_item_used h (free_clear h (free_unlink h (mh_account p ?n s)))" by (simp add: s' alloc_whole_def)
  have u': "RT_MEMHEAP_IS_USED s' a \<longleftrightarrow> a = h \<or> RT_MEMHEAP_IS_USED s a" for a
    using d(4)[OF hL] by (auto simp: RT_MEMHEAP_IS_USED_def e item_ok_def)
  note F = outer_cong[of us c vs ?F' ?F]
  have Fc: "?F' a = ?F a" if "a \<in> set (us @ c # vs)" for a using that dist(2) by (auto simp: u' L)
  have a1: "?n \<le> mh_available (mheap s p)" using d(14) hf by (simp add: L free_bytes_split)
  have a2: "mh_available (mheap s p) \<le> mh_pool_size (mheap s p)" using mh_available_le[OF rep] by simp
  note ac = mh_account_sel[OF a1 a2]
  have av: "mh_available (mheap s' p) = free_bytes ?F' L"
    using ac(1) d(14) hf F[OF Fc] u'[of h] by (simp add: e L free_bytes_split)
  have ring: "is_ring (free_links s') ?hdr (xs @ ys)"
    using free_clear_ring[OF free_unlink_ring[of "mh_account p ?n s" ?hdr xs h ys]] R dist(1) by (simp add: e)
  have ok: "item_ok p s' a" if "a \<in> set L" for a
    using d(4)[OF that] by (auto simp: item_ok_def e)
  have adj: "successively (\<lambda>a b. RT_MEMHEAP_IS_USED s' a \<or> RT_MEMHEAP_IS_USED s' b) L"
    by (rule adjacent_mono[OF d(6)]) (simp add: u')
  have set: "set (xs @ ys) = {a \<in> set L. ?F' a}" using d(8) dist(1) by (auto simp: u' fs)
  have "RT_MEMHEAP_IS_USED s' (last L)" using d(5) u' by simp
  then show "mh_rep p s' L (xs @ ys)"
    unfolding mh_rep_def
    using d(1-3,9-13) ring ok av adj set ac(2-5) by (simp add: e)
  show "areas s' L = insert (h + RT_MEMHEAP_SIZE, ?n) (areas s L)"
    using F[OF Fc] u'[of h] hf by (simp add: areas_def L used_areas_split)
  have "item s' a = item s a" if a: "a \<notin> mh_span p s" for a
    using free_unlink_item[of "mh_account p ?n s" ?hdr xs h ys a] R a mh_rep_span(1)[OF rep] hL d(8) fs
    by (auto simp: e mark_item_used_def free_clear_def)
  then show "mh_frame p s s'" using ac(3-7) by (simp add: mh_frame_def e)
qed

text \<open>The search stops at the first free block that is large enough.\<close>

lemma free_search_ring:
  assumes "is_ring (free_links s) hdr fs" "fs = xs @ ys" "\<forall>a \<in> set xs. MEMITEM_SIZE s a < sz" "n < sz"
  shows "free_search s hdr sz (hd (ys @ [hdr])) n =
     (case filter (\<lambda>a. sz \<le> MEMITEM_SIZE s a) ys of
        [] \<Rightarrow> Some (hdr, if ys = [] then n else MEMITEM_SIZE s (last ys))
      | a # _ \<Rightarrow> Some (a, MEMITEM_SIZE s a))"
  using assms(2-4)
proof (induction ys arbitrary: xs n)
  case Nil
  then show ?case by (subst free_search.simps) simp
next
  case (Cons y ys)
  have y: "y \<noteq> hdr" "mi_next_free (item s y) = hd (ys @ [hdr])"
  proof -
    have "is_ring (free_links s) hdr ((xs @ [y]) @ ys)" using assms(1) Cons.prems(1) by simp
    then obtain p where "ln_next (free_links s) y = p" "p = hd (ys @ [hdr])" by (rule ring_split) auto
    then show "mi_next_free (item s y) = hd (ys @ [hdr])" by simp
    show "y \<noteq> hdr" using assms(1) Cons.prems(1) by (auto simp: is_ring_def)
  qed
  show ?case
  proof (cases "MEMITEM_SIZE s y < sz")
    case True
    have "free_search s hdr sz y n = free_search s hdr sz (hd (ys @ [hdr])) (MEMITEM_SIZE s y)"
      using y True Cons.prems(3) by (subst free_search.simps) (simp add: Let_def)
    then show ?thesis
      using Cons.IH[of "xs @ [y]" "MEMITEM_SIZE s y"] Cons.prems True by (simp split: list.splits)
  next
    case False
    then have "free_search s hdr sz y n = free_search s hdr sz y (MEMITEM_SIZE s y)"
      using y Cons.prems(3) by (subst free_search.simps) (simp add: Let_def)
    also have "\<dots> = Some (y, MEMITEM_SIZE s y)" using False by (subst free_search.simps) simp
    finally show ?thesis using False by simp
  qed
qed

definition mh_alloc_result :: "nat \<Rightarrow> nat \<Rightarrow> memheaps \<Rightarrow> nat list \<Rightarrow> nat list \<Rightarrow> memheaps \<Rightarrow> nat \<Rightarrow> bool" where
  "mh_alloc_result p sz s L fs s' r \<longleftrightarrow>
     (if r = 0 then s' = s \<and> (\<forall>a \<in> set fs. MEMITEM_SIZE s a < sz)
      else \<exists>L' fs' m. mh_rep p s' L' fs' \<and> sz \<le> m \<and> m < sz + RT_MEMHEAP_SIZE + RT_MEMHEAP_MINIALLOC \<and>
        RT_ALIGN_SIZE dvd r \<and> (r, m) \<notin> areas s L \<and> areas s' L' = insert (r, m) (areas s L) \<and> mh_frame p s s')"

lemma alloc_locked_effect:
  assumes rep: "mh_rep p s L fs" and sz: "0 < sz" "RT_ALIGN_SIZE dvd sz"
  shows "\<exists>s' r. alloc_locked p sz s = Some (s', r) \<and> mh_alloc_result p sz s L fs s' r"
proof -
  note d = mh_repD[OF rep]
  let ?hdr = "mh_free_list (mheap s p)"
  have nx: "mi_next_free (item s ?hdr) = hd (fs @ [?hdr])" using d(7) by (cases fs) (auto simp: is_ring_def)
  have srch: "free_search s ?hdr sz (mi_next_free (item s ?hdr)) 0 =
     (case filter (\<lambda>a. sz \<le> MEMITEM_SIZE s a) fs of
        [] \<Rightarrow> Some (?hdr, if fs = [] then 0 else MEMITEM_SIZE s (last fs))
      | a # _ \<Rightarrow> Some (a, MEMITEM_SIZE s a))"
    using free_search_ring[OF d(7), of "[]" fs sz 0] sz(1) nx by simp
  show ?thesis
  proof (cases "filter (\<lambda>a. sz \<le> MEMITEM_SIZE s a) fs")
    case Nil
    then have small: "\<forall>a \<in> set fs. MEMITEM_SIZE s a < sz" by (auto simp: filter_empty_conv not_le)
    then have "(if fs = [] then 0 else MEMITEM_SIZE s (last fs)) < sz" using sz(1) by simp
    then have "alloc_locked p sz s = Some (s, 0)" using srch Nil by (simp add: alloc_locked_def Let_def)
    then show ?thesis using small by (simp add: mh_alloc_result_def)
  next
    case (Cons h r)
    have h: "h \<in> set fs" "sz \<le> MEMITEM_SIZE s h"
    proof -
      have "h \<in> set (filter (\<lambda>a. sz \<le> MEMITEM_SIZE s a) fs)" using Cons by simp
      then show "h \<in> set fs" "sz \<le> MEMITEM_SIZE s h" by simp_all
    qed
    obtain us c vs xs ys where L: "L = us @ h # c # vs" and fs: "fs = xs @ h # ys" and g: "h + RT_MEMHEAP_SIZE \<le> c"
      "MEMITEM_SIZE s h = c - h - RT_MEMHEAP_SIZE" "\<not> RT_MEMHEAP_IS_USED s h" by (rule mh_free_split[OF rep h(1)])
    have al: "RT_ALIGN_SIZE dvd h + RT_MEMHEAP_SIZE" using d(4)[of h] L by (simp add: item_ok_def memheap_consts RT_ALIGN_SIZE_def)
    have fresh: "(h + RT_MEMHEAP_SIZE, m) \<notin> areas s L" for m
      using used_areas_starts[of "h + RT_MEMHEAP_SIZE" m "\<lambda>a. \<not> RT_MEMHEAP_IS_USED s a" L] g(3) by (auto simp: areas_def)
    have r0: "h + RT_MEMHEAP_SIZE \<noteq> 0" by (simp add: memheap_consts)
    have "c + RT_MEMHEAP_SIZE \<le> 2 ^ 32" "0 < h" using spaced_bounds[OF d(3), of c] spaced_bounds[OF d(3), of h] d(9,10,12) L by simp_all
    then have a32: "add32 (add32 sz RT_MEMHEAP_SIZE) RT_MEMHEAP_MINIALLOC = sz + RT_MEMHEAP_SIZE + RT_MEMHEAP_MINIALLOC"
      using h(2) g(1,2) by (simp add: add32_small memheap_consts)
    show ?thesis
    proof (cases "MEMITEM_SIZE s h \<ge> sz + RT_MEMHEAP_SIZE + RT_MEMHEAP_MINIALLOC")
      case True
      obtain s' where s': "s' = mark_item_used h (alloc_split p sz h s)" by blast
      have "h + sz + RT_MEMHEAP_SIZE + RT_MEMHEAP_SIZE \<le> c" using True g by (simp add: memheap_consts)
      note e = alloc_split_effect[OF rep L fs refl this sz(2) s']
      have "alloc_locked p sz s = Some (s', h + RT_MEMHEAP_SIZE)"
        using srch Cons True by (simp add: alloc_locked_def Let_def s' a32)
      moreover have "mh_alloc_result p sz s L fs s' (h + RT_MEMHEAP_SIZE)"
        unfolding mh_alloc_result_def if_not_P[OF r0]
        by (intro exI[of _ "us @ h # (h + sz + RT_MEMHEAP_SIZE) # c # vs"] exI[of _ "(h + sz + RT_MEMHEAP_SIZE) # xs @ ys"]
            exI[of _ sz] conjI e al fresh) (simp_all add: memheap_consts)
      ultimately show ?thesis by blast
    next
      case False
      obtain s' where s': "s' = mark_item_used h (alloc_whole p (c - h - RT_MEMHEAP_SIZE) h s)" by blast
      note e = alloc_whole_effect[OF rep L fs s']
      have "alloc_locked p sz s = Some (s', h + RT_MEMHEAP_SIZE)"
        using srch Cons False h(2) g(2) by (simp add: alloc_locked_def Let_def s' a32)
      moreover have "mh_alloc_result p sz s L fs s' (h + RT_MEMHEAP_SIZE)"
        unfolding mh_alloc_result_def if_not_P[OF r0]
        by (intro exI[of _ L] exI[of _ "xs @ ys"] exI[of _ "c - h - RT_MEMHEAP_SIZE"] conjI e al fresh)
          (use False h(2) g(2) in simp_all)
      ultimately show ?thesis by blast
    qed
  qed
qed

end
