(* ===== verification/Memheap_Free.thy ===== *)
theory Memheap_Free
  imports Memheap
begin

text \<open>
  Giving memory back to a heap of \<^verbatim>\<open>src/memheap.c\<close>, and resizing a block in place: the merges with free
  neighbours keep the invariant of theory \<^verbatim>\<open>Memheap\<close>.
\<close>

section \<open>Freeing\<close>

text \<open>The heap while a block \<open>x\<close> is given back: \<open>x\<close> is marked free, may still have a free successor, and is
  in the free ring unless \<open>ins\<close> says that it is to be inserted.\<close>

definition mh_loose :: "nat \<Rightarrow> memheaps \<Rightarrow> nat list \<Rightarrow> nat list \<Rightarrow> nat \<Rightarrow> bool \<Rightarrow> bool" where
  "mh_loose p s L fs x ins \<longleftrightarrow> cycle (block_links s) L \<and> 2 \<le> length L \<and> spaced L \<and> (\<forall>a \<in> set L. item_ok p s a) \<and>
     RT_MEMHEAP_IS_USED s (last L) \<and>
     successively (\<lambda>a b. RT_MEMHEAP_IS_USED s a \<or> RT_MEMHEAP_IS_USED s b \<or> a = x) L \<and>
     is_ring (free_links s) (mh_free_list (mheap s p)) fs \<and>
     set fs = {a \<in> set L. \<not> RT_MEMHEAP_IS_USED s a} - (if ins then {x} else {}) \<and>
     x \<in> set L \<and> \<not> RT_MEMHEAP_IS_USED s x \<and>
     hd L = mh_start (mheap s p) \<and> 0 < mh_start (mheap s p) \<and>
     last L + RT_MEMHEAP_SIZE = mh_start (mheap s p) + mh_pool_size (mheap s p) \<and> last L + RT_MEMHEAP_SIZE \<le> 2 ^ 32 \<and>
     (mh_free_list (mheap s p) + RT_MEMHEAP_SIZE \<le> hd L \<or> last L + RT_MEMHEAP_SIZE \<le> mh_free_list (mheap s p)) \<and>
     mh_available (mheap s p) = free_bytes (\<lambda>a. \<not> RT_MEMHEAP_IS_USED s a) L \<and>
     mh_pool_size (mheap s p) - mh_available (mheap s p) \<le> mh_max_used (mheap s p)"

lemma mh_looseD:
  assumes "mh_loose p s L fs x ins"
  shows "cycle (block_links s) L" "2 \<le> length L" "spaced L" "\<And>a. a \<in> set L \<Longrightarrow> item_ok p s a"
    "RT_MEMHEAP_IS_USED s (last L)" "successively (\<lambda>a b. RT_MEMHEAP_IS_USED s a \<or> RT_MEMHEAP_IS_USED s b \<or> a = x) L"
    "is_ring (free_links s) (mh_free_list (mheap s p)) fs"
    "set fs = {a \<in> set L. \<not> RT_MEMHEAP_IS_USED s a} - (if ins then {x} else {})" "x \<in> set L" "\<not> RT_MEMHEAP_IS_USED s x"
    "hd L = mh_start (mheap s p)" "0 < mh_start (mheap s p)"
    "last L + RT_MEMHEAP_SIZE = mh_start (mheap s p) + mh_pool_size (mheap s p)" "last L + RT_MEMHEAP_SIZE \<le> 2 ^ 32"
    "mh_free_list (mheap s p) + RT_MEMHEAP_SIZE \<le> hd L \<or> last L + RT_MEMHEAP_SIZE \<le> mh_free_list (mheap s p)"
    "mh_available (mheap s p) = free_bytes (\<lambda>a. \<not> RT_MEMHEAP_IS_USED s a) L"
    "mh_pool_size (mheap s p) - mh_available (mheap s p) \<le> mh_max_used (mheap s p)"
  using assms unfolding mh_loose_def by blast+

lemma mh_give_sel [simp]:
  "mh_start (mheap (mh_give p n s) q) = mh_start (mheap s q)" "mh_free_list (mheap (mh_give p n s) q) = mh_free_list (mheap s q)"
  "mh_pool_size (mheap (mh_give p n s) q) = mh_pool_size (mheap s q)" "mh_lock (mheap (mh_give p n s) q) = mh_lock (mheap s q)"
  "mh_max_used (mheap (mh_give p n s) q) = mh_max_used (mheap s q)"
  "mh_available (mheap (mh_give p n s) p) = (mh_available (mheap s p) + n) mod 2 ^ 32"
  "q \<noteq> p \<Longrightarrow> mheap (mh_give p n s) q = mheap s q"
  by (simp_all add: mh_give_def add32_def)

lemma mh_loose_span:
  assumes "mh_loose p s L fs x ins"
  shows "set (mh_free_list (mheap s p) # L) \<subseteq> mh_span p s" "mh_free_list (mheap s p) \<notin> set L" "x \<noteq> last L" "set fs \<subseteq> set L"
proof -
  note d = mh_looseD[OF assms]
  have b: "hd L \<le> a \<and> a \<le> last L" if "a \<in> set L" for a using spaced_bounds[OF d(3) that] .
  show "set (mh_free_list (mheap s p) # L) \<subseteq> mh_span p s"
    using b d(11,13) by (fastforce simp: mh_span_def memheap_consts)
  show "mh_free_list (mheap s p) \<notin> set L" using b d(15) by (fastforce simp: memheap_consts)
  show "x \<noteq> last L" using d(5,10) by auto
  show "set fs \<subseteq> set L" using d(8) by auto
qed

text \<open>When the successor is in use, nothing is loose but the block itself.\<close>

lemma loose_adjacent:
  assumes "mh_loose p s L fs x ins" "L = us @ x # c # vs" "RT_MEMHEAP_IS_USED s c"
  shows "successively (\<lambda>a b. RT_MEMHEAP_IS_USED s a \<or> RT_MEMHEAP_IS_USED s b) L"
proof -
  note d = mh_looseD[OF assms(1)]
  have x: "x \<notin> set us" "x \<notin> set (c # vs)" using spaced_distinct[OF d(3)] assms(2) by auto
  let ?P = "\<lambda>a b. RT_MEMHEAP_IS_USED s a \<or> RT_MEMHEAP_IS_USED s b \<or> a = x"
  have "successively ?P us" "successively ?P (c # vs)" "us \<noteq> [] \<longrightarrow> ?P (last us) x"
    using d(6) by (auto simp: assms(2) successively_append_iff)
  moreover have "successively (\<lambda>a b. RT_MEMHEAP_IS_USED s a \<or> RT_MEMHEAP_IS_USED s b) M"
    if "successively ?P M" "x \<notin> set M" for M
    by (rule successively_mono[OF that(1)]) (use that(2) in auto)
  ultimately show ?thesis using x assms(3) by (auto simp: assms(2) successively_append_iff)
qed

lemma loose_done:
  assumes "mh_loose p s L fs x False" "L = us @ x # c # vs" "RT_MEMHEAP_IS_USED s c"
  shows "mh_rep p s L fs"
  unfolding mh_rep_def using mh_looseD[OF assms(1)] loose_adjacent[OF assms] by simp

lemma loose_push:
  assumes l: "mh_loose p s L fs x True" and L: "L = us @ x # c # vs" "RT_MEMHEAP_IS_USED s c"
  shows "mh_rep p (free_push p x s) L (x # fs)" "areas (free_push p x s) L = areas s L" "mh_frame p s (free_push p x s)"
proof -
  note d = mh_looseD[OF l] and sp = mh_loose_span[OF l]
  have u: "RT_MEMHEAP_IS_USED (free_push p x s) = RT_MEMHEAP_IS_USED s" by (simp add: RT_MEMHEAP_IS_USED_def fun_eq_iff)
  have ok: "item_ok p (free_push p x s) a" if "a \<in> set L" for a using d(4)[OF that] by (simp add: item_ok_def)
  have r: "is_ring (free_links (free_push p x s)) (mh_free_list (mheap s p)) (x # fs)"
    by (rule free_push_ring[OF d(7)]) (use sp(2,4) d(8,9) in auto)
  have "set (x # fs) = {a \<in> set L. \<not> RT_MEMHEAP_IS_USED s a}" using d(8-10) by auto
  then show "mh_rep p (free_push p x s) L (x # fs)"
    unfolding mh_rep_def using d(1-3,5,11-17) ok r loose_adjacent[OF l L] by (simp add: u)
  show "areas (free_push p x s) L = areas s L" by (simp add: areas_def u)
  have "item (free_push p x s) a = item s a" if "a \<notin> mh_span p s" for a
    by (rule free_push_item[OF d(7)]) (use that sp(1,4) d(9) in auto)
  then show "mh_frame p s (free_push p x s)" by (simp add: mh_frame_def)
qed

text \<open>Merging with a free successor.\<close>

lemma merge_right_effect:
  assumes l: "mh_loose p s L fs x ins" and L: "L = us @ x # c # vs"
  shows "\<exists>L' fs' c' vs'. mh_loose p (merge_right p x s) L' fs' x ins \<and> L' = us @ x # c' # vs' \<and>
    RT_MEMHEAP_IS_USED (merge_right p x s) c' \<and> areas (merge_right p x s) L' = areas s L \<and> mh_frame p s (merge_right p x s)"
proof -
  note d = mh_looseD[OF l] and sp = mh_loose_span[OF l]
  have C: "cycle (block_links s) (us @ x # c # vs)" using d(1) L by simp
  have nx: "mi_next (item s x) = c" using cycle_next[OF C] by simp
  show ?thesis
  proof (cases "RT_MEMHEAP_IS_USED s c")
    case True
    then have "merge_right p x s = s" by (simp add: merge_right_def nx)
    then show ?thesis using l L True by (intro exI[of _ L] exI[of _ fs] exI[of _ c] exI[of _ vs]) (simp add: mh_frame_def)
  next
    case False
    let ?hdr = "mh_free_list (mheap s p)" and ?F = "\<lambda>a. \<not> RT_MEMHEAP_IS_USED s a"
    obtain c' vs' where v: "vs = c' # vs'" using False d(5) L by (cases vs) auto
    have dist: "distinct L" using spaced_distinct[OF d(3)] .
    have cx: "c \<noteq> x" "c \<in> set L" using dist L by auto
    then have "c \<in> set fs" using d(8) False by auto
    then obtain xs ys where fs: "fs = xs @ c # ys" by (auto simp: in_set_conv_decomp)
    have df: "distinct (?hdr # xs @ c # ys)" using d(7) fs by (simp add: is_ring_def)
    obtain s' where s': "s' = merge_right p x s" by blast
    have e: "s' = free_unlink c (absorb_next x (mh_give p RT_MEMHEAP_SIZE s))"
      using False by (simp add: s' merge_right_def nx Let_def)
    let ?L = "us @ x # c' # vs'"
    have C3: "cycle (block_links s) (us @ x # c # c' # vs')" using C v by simp
    have u: "RT_MEMHEAP_IS_USED s' = RT_MEMHEAP_IS_USED s" by (simp add: RT_MEMHEAP_IS_USED_def fun_eq_iff e)
    have cyc: "cycle (block_links s') ?L"
      using absorb_next_cycle[of "mh_give p RT_MEMHEAP_SIZE s" us x c c' vs'] C3 by (simp add: e)
    have ring: "is_ring (free_links s') ?hdr (xs @ ys)"
      using free_unlink_ring[of "absorb_next x (mh_give p RT_MEMHEAP_SIZE s)" ?hdr xs c ys] d(7) fs by (simp add: e)
    have spd: "spaced ?L" using d(3) spaced_delete[of us x c "c' # vs'"] by (simp add: L v)
    have ends: "hd ?L = hd L" "last ?L = last L" by (simp_all add: L v hd_append)
    have g: "x + RT_MEMHEAP_SIZE \<le> c" "c + RT_MEMHEAP_SIZE \<le> c'" using d(3) by (simp_all add: L v sorted_wrt_append)
    have fb: "free_bytes ?F ?L = free_bytes ?F L + RT_MEMHEAP_SIZE"
      using False d(10) g by (simp add: L v free_bytes_split)
    have "us @ x # c' # vs' = hd ?L # tl ?L" "tl ?L \<noteq> []" by (cases us; simp)+
    then have "free_bytes ?F ?L \<le> last ?L - hd ?L" using free_bytes_le[of "hd ?L" "tl ?L" ?F] spd by (cases us) auto
    then have fb32: "free_bytes ?F ?L < 2 ^ 32" using d(14) ends(2) by (simp add: memheap_consts)
    have cu: "RT_MEMHEAP_IS_USED s c'"
      using d(6) False cx(1) by (simp add: L v successively_append_iff)
    have adj: "successively (\<lambda>a b. RT_MEMHEAP_IS_USED s a \<or> RT_MEMHEAP_IS_USED s b \<or> a = x) ?L"
      using d(6) by (auto simp: L v successively_append_iff)
    have ok: "item_ok p s' a" if "a \<in> set ?L" for a using that d(4)[of a] by (auto simp: item_ok_def e L v)
    have set: "set (xs @ ys) = {a \<in> set ?L. \<not> RT_MEMHEAP_IS_USED s a} - (if ins then {x} else {})"
    proof -
      have "set (xs @ ys) = set fs - {c}" using df by (auto simp: fs)
      moreover have "set ?L = set L - {c}" using dist by (auto simp: L v)
      ultimately show ?thesis unfolding d(8) by blast
    qed
    have "mh_loose p s' ?L (xs @ ys) x ins"
      unfolding mh_loose_def u
      using cyc ring spd ends adj ok set d(5,10-17) fb fb32 by (simp add: e)
    moreover have "areas s' ?L = areas s L" using False d(10) by (simp add: areas_def u L v used_areas_split)
    moreover have "mh_frame p s s'"
    proof -
      have "item s' a = item s a" if a: "a \<notin> mh_span p s" for a
      proof -
        have x: "a \<notin> set (?hdr # L)" using a sp(1) by auto
        have "item s' a = item (absorb_next x (mh_give p RT_MEMHEAP_SIZE s)) a"
          unfolding e by (rule free_unlink_item[of _ ?hdr xs c ys]) (use d(7) fs sp(4) x in auto)
        then show ?thesis
          using drop_item_item(1)[of "mh_give p RT_MEMHEAP_SIZE s" us x c c' vs' a] C3 x L v by simp
      qed
      then show ?thesis by (simp add: mh_frame_def e)
    qed
    ultimately show ?thesis
      using cu unfolding s'[symmetric] by (intro exI[of _ ?L] exI[of _ "xs @ ys"] exI[of _ c'] exI[of _ vs']) (simp add: u)
  qed
qed

text \<open>Marking a block free and merging it with a free predecessor.\<close>

lemma free_mark:
  assumes rep: "mh_rep p s L fs" and L: "L = us @ h # c # vs" and hu: "RT_MEMHEAP_IS_USED s h"
    and s1: "s1 = mh_give p (c - h - RT_MEMHEAP_SIZE) (upd_mi h (\<lambda>i. i\<lparr>mi_magic := mi_magic i AND NOT RT_MEMHEAP_USED\<rparr>) s)"
  shows "block_links s1 = block_links s" "free_links s1 = free_links s"
    "\<And>a. RT_MEMHEAP_IS_USED s1 a \<longleftrightarrow> a \<noteq> h \<and> RT_MEMHEAP_IS_USED s a" "\<And>a. a \<in> set L \<Longrightarrow> item_ok p s1 a"
    "mh_available (mheap s1 p) = free_bytes (\<lambda>a. \<not> RT_MEMHEAP_IS_USED s1 a) L"
    "mh_available (mheap s p) \<le> mh_available (mheap s1 p)"
    "areas s1 L = areas s L - {(h + RT_MEMHEAP_SIZE, c - h - RT_MEMHEAP_SIZE)}" "mh_frame p s s1"
proof -
  note d = mh_repD[OF rep]
  let ?F = "\<lambda>a. \<not> RT_MEMHEAP_IS_USED s a" and ?F' = "\<lambda>a. \<not> RT_MEMHEAP_IS_USED s1 a"
  have hL: "h \<in> set L" and dist: "distinct L" using L spaced_distinct[OF d(3)] by simp_all
  have hm: "mi_magic (item s h) = RT_MEMHEAP_MAGIC OR RT_MEMHEAP_USED" using item_used_iff[OF d(4)[OF hL]] hu by simp
  show "block_links s1 = block_links s" "free_links s1 = free_links s"
    by (simp_all add: s1 block_links_def free_links_def fun_eq_iff)
  show u: "RT_MEMHEAP_IS_USED s1 a \<longleftrightarrow> a \<noteq> h \<and> RT_MEMHEAP_IS_USED s a" for a
    using hm by (simp add: RT_MEMHEAP_IS_USED_def s1)
  show "item_ok p s1 a" if "a \<in> set L" for a using d(4)[OF that] hm by (auto simp: item_ok_def s1)
  note F = outer_cong[of us c vs ?F' ?F]
  have Fc: "?F' a = ?F a" if "a \<in> set (us @ c # vs)" for a using that dist u by (auto simp: L)
  have fb: "free_bytes ?F' L = free_bytes ?F L + (c - h - RT_MEMHEAP_SIZE)"
    using F[OF Fc] hu u[of h] by (simp add: L free_bytes_split)
  have "free_bytes ?F' L < 2 ^ 32"
  proof -
    have "L = hd L # tl L" "tl L \<noteq> []" using d(2) by (cases L; cases "tl L"; simp)+
    then have "free_bytes ?F' L \<le> last L - hd L" using free_bytes_le[of "hd L" "tl L" ?F'] d(3) by (metis last_ConsR le_add1 le_trans)
    then show ?thesis using d(12) by (simp add: memheap_consts)
  qed
  then show "mh_available (mheap s1 p) = free_bytes ?F' L" "mh_available (mheap s p) \<le> mh_available (mheap s1 p)"
    using fb d(14) by (simp_all add: s1)
  have "(h + RT_MEMHEAP_SIZE, m) \<notin> used_areas ?F (us @ [h])" "(h + RT_MEMHEAP_SIZE, m) \<notin> used_areas ?F (c # vs)" for m
    using used_areas_starts[of "h + RT_MEMHEAP_SIZE" m ?F "us @ [h]"] used_areas_starts[of "h + RT_MEMHEAP_SIZE" m ?F "c # vs"]
      dist in_set_butlastD[of h "c # vs"] by (auto simp: L)
  then show "areas s1 L = areas s L - {(h + RT_MEMHEAP_SIZE, c - h - RT_MEMHEAP_SIZE)}"
    using F[OF Fc] hu u[of h] by (auto simp: areas_def L used_areas_split)
  show "mh_frame p s s1" using mh_rep_span(1)[OF rep] hL by (auto simp: mh_frame_def s1)
qed

lemma mh_frame_trans: "mh_frame p s s' \<Longrightarrow> mh_frame p s' s'' \<Longrightarrow> mh_frame p s s''"
  by (simp add: mh_frame_def mh_span_def)

lemma merge_left_effect:
  assumes rep: "mh_rep p s L fs" and L: "L = us @ h # c # vs" and hu: "RT_MEMHEAP_IS_USED s h"
    and s1: "s1 = mh_give p (c - h - RT_MEMHEAP_SIZE) (upd_mi h (\<lambda>i. i\<lparr>mi_magic := mi_magic i AND NOT RT_MEMHEAP_USED\<rparr>) s)"
  shows "\<exists>s2 x ins L' us'. merge_left p h s1 = (s2, x, ins) \<and> mh_loose p s2 L' fs x ins \<and> L' = us' @ x # c # vs \<and>
    areas s2 L' = areas s1 L \<and> mh_frame p s1 s2"
proof -
  note d = mh_repD[OF rep] and m = free_mark[OF rep L hu s1]
  have hL: "h \<in> set L" "h \<notin> set us" "h \<notin> set (c # vs)" and dist: "distinct L" using L spaced_distinct[OF d(3)] by auto
  have su: "mh_start (mheap s1 p) = mh_start (mheap s p)" "mh_free_list (mheap s1 p) = mh_free_list (mheap s p)"
    "mh_pool_size (mheap s1 p) = mh_pool_size (mheap s p)" "mh_max_used (mheap s1 p) = mh_max_used (mheap s p)" by (simp_all add: s1)
  have C: "cycle (block_links s1) (us @ h # c # vs)" using d(1) L m(1) by simp
  have last: "last L \<noteq> h" using hL(3) L by (auto dest: last_in_set)
  have fs: "set fs = {a \<in> set L. \<not> RT_MEMHEAP_IS_USED s1 a} - {h}" using d(8) hL(1) hu by (auto simp: m(3))
  have mx: "mh_pool_size (mheap s p) - mh_available (mheap s1 p) \<le> mh_max_used (mheap s p)" using d(15) m(6) by linarith
  have stay: "?thesis" if q: "RT_MEMHEAP_IS_USED s1 (mi_prev (item s1 h))" "us \<noteq> [] \<longrightarrow> RT_MEMHEAP_IS_USED s (last us)"
  proof -
    have "successively (\<lambda>a b. RT_MEMHEAP_IS_USED s1 a \<or> RT_MEMHEAP_IS_USED s1 b \<or> a = h) L"
    proof -
      have "successively (\<lambda>a b. RT_MEMHEAP_IS_USED s1 a \<or> RT_MEMHEAP_IS_USED s1 b \<or> a = h) M"
        if "successively (\<lambda>a b. RT_MEMHEAP_IS_USED s a \<or> RT_MEMHEAP_IS_USED s b) M" "h \<notin> set M" for M
        by (rule successively_mono[OF that(1)]) (use that(2) m(3) in auto)
      then show ?thesis using d(6) hL(2,3) q(2) m(3) by (auto simp: L successively_append_iff)
    qed
    then have "mh_loose p s1 L fs h True"
      unfolding mh_loose_def using d(1-3,5,7,9-13) m(1,2,4,5) hL(1) last fs su mx by (simp add: m(3))
    moreover have "merge_left p h s1 = (s1, h, True)" using q(1) by (simp add: merge_left_def)
    ultimately show ?thesis
      using L by (intro exI[of _ s1] exI[of _ h] exI[of _ True] exI[of _ L] exI[of _ us]) (simp add: mh_frame_def)
  qed
  show ?thesis
  proof (cases us rule: rev_cases)
    case Nil
    then have "mi_prev (item s1 h) = last L" using cycle_ends[OF C] L by simp
    then show ?thesis using stay Nil d(5) last m(3) by simp
  next
    case (snoc us' q)
    have C3: "cycle (block_links s1) (us' @ q # h # c # vs)" using C snoc by simp
    have pv: "mi_prev (item s1 h) = q" "q \<noteq> h" using cycle_three[OF C3] by simp_all
    show ?thesis
    proof (cases "RT_MEMHEAP_IS_USED s1 q")
      case True
      then show ?thesis using stay pv snoc m(3) by simp
    next
      case False
      let ?L = "us' @ q # c # vs" and ?F = "\<lambda>a. \<not> RT_MEMHEAP_IS_USED s1 a"
      obtain s2 where s2: "s2 = drop_item h (mh_give p RT_MEMHEAP_SIZE s1)" by blast
      have u: "RT_MEMHEAP_IS_USED s2 = RT_MEMHEAP_IS_USED s1" by (simp add: RT_MEMHEAP_IS_USED_def fun_eq_iff s2)
      have cyc: "cycle (block_links s2) ?L"
        using drop_item_cycle(1)[of "mh_give p RT_MEMHEAP_SIZE s1" us' q h c vs] C3 by (simp add: s2)
      have spd: "spaced ?L" using d(3) spaced_delete[of us' q h "c # vs"] by (simp add: L snoc)
      have ends: "hd ?L = hd L" "last ?L = last L" by (simp_all add: L snoc hd_append)
      have g: "q + RT_MEMHEAP_SIZE \<le> h" "h + RT_MEMHEAP_SIZE \<le> c" using d(3) by (simp_all add: L snoc sorted_wrt_append)
      have hf: "?F h" using m(3) by simp
      have fb: "free_bytes ?F ?L = free_bytes ?F L + RT_MEMHEAP_SIZE" using False hf g by (simp add: L snoc free_bytes_split)
      have "free_bytes ?F ?L \<le> last ?L - hd ?L" using free_bytes_le[of "hd ?L" "tl ?L" ?F] spd by (cases us') auto
      then have fb32: "free_bytes ?F ?L < 2 ^ 32" using d(12) ends(2) by (simp add: memheap_consts)
      have qu: "us' \<noteq> [] \<longrightarrow> RT_MEMHEAP_IS_USED s1 (last us')"
        using d(6) False m(3) pv(2) dist by (auto simp: L snoc successively_append_iff)
      have adj: "successively (\<lambda>a b. RT_MEMHEAP_IS_USED s1 a \<or> RT_MEMHEAP_IS_USED s1 b \<or> a = q) ?L"
      proof -
        have "successively (\<lambda>a b. RT_MEMHEAP_IS_USED s1 a \<or> RT_MEMHEAP_IS_USED s1 b \<or> a = q) M"
          if "successively (\<lambda>a b. RT_MEMHEAP_IS_USED s a \<or> RT_MEMHEAP_IS_USED s b) M" "h \<notin> set M" for M
          by (rule successively_mono[OF that(1)]) (use that(2) m(3) in auto)
        then show ?thesis using d(6) hL(2,3) qu by (auto simp: L snoc successively_append_iff)
      qed
      have ok: "item_ok p s2 a" if "a \<in> set ?L" for a using that m(4)[of a] by (auto simp: item_ok_def s2 L snoc)
      have "set ?L = set L - {h}" using dist by (auto simp: L snoc)
      then have set: "set fs = {a \<in> set ?L. \<not> RT_MEMHEAP_IS_USED s1 a}" using fs by blast
      have "mh_loose p s2 ?L fs q False"
        unfolding mh_loose_def u
        using cyc spd ends adj ok set d(5,7,9-13) last m(2,3,5) fb fb32 su mx False by (simp add: s2)
      moreover have "areas s2 ?L = areas s1 L" using False hf by (simp add: areas_def u L snoc used_areas_split)
      moreover have "mh_frame p s1 s2"
      proof -
        have "item s2 a = item s1 a" if a: "a \<notin> mh_span p s1" for a
        proof -
          have "a \<notin> mh_span p s" using a su by (simp add: mh_span_def)
          then have "a \<notin> set L" using mh_rep_span(1)[OF rep] by auto
          then show ?thesis using drop_item_item(2)[of "mh_give p RT_MEMHEAP_SIZE s1" us' q h c vs a] C3 L snoc by (simp add: s2)
        qed
        then show ?thesis by (simp add: mh_frame_def s2)
      qed
      moreover have "merge_left p h s1 = (s2, q, False)" using False pv(1) by (simp add: merge_left_def s2)
      ultimately show ?thesis by blast
    qed
  qed
qed

lemma free_mh_locked_effect:
  assumes rep: "mh_rep p s L fs" and h: "h \<in> set L" "RT_MEMHEAP_IS_USED s h" "h \<noteq> last L"
  shows "\<exists>L' fs'. mh_rep p (free_mh_locked p h s) L' fs' \<and> mh_frame p s (free_mh_locked p h s) \<and>
    areas (free_mh_locked p h s) L' = areas s L - {(h + RT_MEMHEAP_SIZE, MEMITEM_SIZE s h)}"
proof -
  note d = mh_repD[OF rep]
  obtain us c vs where L: "L = us @ h # c # vs" using split_successor[OF h(1,3)] by blast
  have g: "h + RT_MEMHEAP_SIZE \<le> c" using d(3) by (simp add: L sorted_wrt_append)
  have C: "cycle (block_links s) (us @ h # c # vs)" using d(1) L by simp
  obtain s0 where s0: "s0 = upd_mi h (\<lambda>i. i\<lparr>mi_magic := mi_magic i AND NOT RT_MEMHEAP_USED\<rparr>) s" by blast
  have sz: "MEMITEM_SIZE s0 h = c - h - RT_MEMHEAP_SIZE" "MEMITEM_SIZE s h = c - h - RT_MEMHEAP_SIZE"
    using cycle_next[OF C] g by (simp_all add: MEMITEM_SIZE_def s0)
  obtain s1 where s1: "s1 = mh_give p (c - h - RT_MEMHEAP_SIZE) s0" by blast
  note m = free_mark[OF rep L h(2) s1[unfolded s0]]
  obtain s2 x ins L2 us' where l: "merge_left p h s1 = (s2, x, ins)" "mh_loose p s2 L2 fs x ins" "L2 = us' @ x # c # vs"
    "areas s2 L2 = areas s1 L" "mh_frame p s1 s2" using merge_left_effect[OF rep L h(2) s1[unfolded s0]] by blast
  obtain L3 fs3 c' vs' where r: "mh_loose p (merge_right p x s2) L3 fs3 x ins" "L3 = us' @ x # c' # vs'"
    "RT_MEMHEAP_IS_USED (merge_right p x s2) c'" "areas (merge_right p x s2) L3 = areas s2 L2" "mh_frame p s2 (merge_right p x s2)"
    using merge_right_effect[OF l(2,3)] by blast
  obtain s3 where s3: "s3 = merge_right p x s2" by blast
  have e: "free_mh_locked p h s = (if ins then free_push p x s3 else s3)"
    unfolding free_mh_locked_def Let_def s0[symmetric] sz(1) s1[symmetric] l(1) by (simp add: s3)
  have f3: "mh_frame p s s3" using mh_frame_trans[OF m(8) mh_frame_trans[OF l(5) r(5)]] by (simp add: s3)
  have a3: "areas s3 L3 = areas s L - {(h + RT_MEMHEAP_SIZE, MEMITEM_SIZE s h)}" using r(4) l(4) m(7) sz(2) by (simp add: s3)
  show ?thesis
  proof (cases ins)
    case True
    have lo: "mh_loose p s3 L3 fs3 x True" using r(1) True by (simp add: s3)
    note ps = loose_push[OF lo r(2) r(3)[folded s3]]
    then show ?thesis using True e a3 mh_frame_trans[OF f3 ps(3)] by auto
  next
    case False
    then have lo: "mh_loose p s3 L3 fs3 x False" using r(1) by (simp add: s3)
    show ?thesis using loose_done[OF lo r(2) r(3)[folded s3]] e a3 f3 False by auto
  qed
qed

section \<open>Resizing in place\<close>

text \<open>Cutting a free block off the end of a block in use.\<close>

lemma cut_loose:
  assumes rep: "mh_rep p s L fs" and L: "L = us @ h # c # vs" and hu: "RT_MEMHEAP_IS_USED s h"
    and n: "h + RT_MEMHEAP_SIZE \<le> n" "n + RT_MEMHEAP_SIZE \<le> c" "RT_ALIGN_SIZE dvd n"
    and s1: "s1 = mh_give p (c - n - RT_MEMHEAP_SIZE) (new_item p h n s)"
  shows "mh_loose p s1 (us @ h # n # c # vs) fs n True" "mh_frame p s s1"
    "areas s1 (us @ h # n # c # vs) =
       insert (h + RT_MEMHEAP_SIZE, n - h - RT_MEMHEAP_SIZE) (areas s L - {(h + RT_MEMHEAP_SIZE, c - h - RT_MEMHEAP_SIZE)})"
proof -
  note d = mh_repD[OF rep] and b = mh_between[OF rep L n(1,2)]
  let ?hdr = "mh_free_list (mheap s p)" and ?L = "us @ h # n # c # vs" and ?F = "\<lambda>a. \<not> RT_MEMHEAP_IS_USED s a"
    and ?F' = "\<lambda>a. \<not> RT_MEMHEAP_IS_USED s1 a"
  have C: "cycle (block_links s) (us @ h # c # vs)" using d(1) L by simp
  have hL: "h \<in> set L" and dist: "distinct L" using L spaced_distinct[OF d(3)] by simp_all
  have nh: "n \<noteq> h" using n(1) by (simp add: memheap_consts)
  have u: "RT_MEMHEAP_IS_USED s1 a \<longleftrightarrow> a \<noteq> n \<and> RT_MEMHEAP_IS_USED s a" for a by (simp add: RT_MEMHEAP_IS_USED_def s1)
  have F: "free_bytes ?F' (us @ [h]) = free_bytes ?F (us @ [h])" "free_bytes ?F' (c # vs) = free_bytes ?F (c # vs)"
    "used_areas ?F' (us @ [h]) = used_areas ?F (us @ [h])" "used_areas ?F' (c # vs) = used_areas ?F (c # vs)"
    by (rule outer_cong[of us c vs]; use b(1) u in \<open>auto simp: L\<close>)+
  have fb: "free_bytes ?F' ?L = free_bytes ?F L + (c - n - RT_MEMHEAP_SIZE)"
    using F hu u[of h] u[of n] nh by (simp add: L free_bytes_split)
  have "free_bytes ?F' ?L \<le> last ?L - hd ?L" using free_bytes_le[of "hd ?L" "tl ?L" ?F'] b(2) by (cases us) auto
  then have fb32: "free_bytes ?F' ?L < 2 ^ 32" using d(12) b(4) by (simp add: memheap_consts)
  have cyc: "cycle (block_links s1) ?L" using new_item_cycle[OF C b(1)[unfolded L]] by (simp add: s1)
  have ok: "item_ok p s1 a" if "a \<in> set ?L" for a
    using that d(4)[of a] n(3) by (auto simp: item_ok_def s1 L)
  have adj: "successively (\<lambda>a b. RT_MEMHEAP_IS_USED s1 a \<or> RT_MEMHEAP_IS_USED s1 b \<or> a = n) ?L"
  proof -
    have "successively (\<lambda>a b. RT_MEMHEAP_IS_USED s1 a \<or> RT_MEMHEAP_IS_USED s1 b \<or> a = n) L"
      by (rule successively_mono[OF d(6)]) (use b(1) u in auto)
    then show ?thesis using hu u[of h] nh by (simp add: L successively_append_iff)
  qed
  have set: "set fs = {a \<in> set ?L. \<not> RT_MEMHEAP_IS_USED s1 a} - {n}" using d(8) b(1) by (auto simp: u L)
  have ul: "RT_MEMHEAP_IS_USED s1 (last ?L)" using d(5) b(1,4) L by (auto simp: u)
  have mx: "mh_pool_size (mheap s p) - (free_bytes ?F L + (c - n - RT_MEMHEAP_SIZE)) \<le> mh_max_used (mheap s p)"
    using d(14,15) by linarith
  show "mh_loose p s1 ?L fs n True"
    unfolding mh_loose_def
    using cyc b(2-4) ok ul adj d(7,9-13) set fb fb32 mx u[of n] d(14) by (simp add: s1)
  have "item s1 a = item s a" if "a \<notin> mh_span p s" for a
    using new_item_item[OF C, of a n] that b(6) mh_rep_span(1)[OF rep] hL nh L by (auto simp: s1)
  then show "mh_frame p s s1" by (simp add: mh_frame_def s1)
  have "(h + RT_MEMHEAP_SIZE, m) \<notin> used_areas ?F (us @ [h])" "(h + RT_MEMHEAP_SIZE, m) \<notin> used_areas ?F (c # vs)" for m
    using used_areas_starts[of "h + RT_MEMHEAP_SIZE" m ?F "us @ [h]"] used_areas_starts[of "h + RT_MEMHEAP_SIZE" m ?F "c # vs"]
      dist in_set_butlastD[of h "c # vs"] by (auto simp: L)
  then show "areas s1 ?L =
       insert (h + RT_MEMHEAP_SIZE, n - h - RT_MEMHEAP_SIZE) (areas s L - {(h + RT_MEMHEAP_SIZE, c - h - RT_MEMHEAP_SIZE)})"
    using F hu u[of h] u[of n] nh by (auto simp: areas_def L used_areas_split)
qed

text \<open>The code keeps its accounts in another order than \<open>merge_right\<close>, with the same outcome.\<close>

lemma item_op_cong:
  "mh_item s = mh_item t \<Longrightarrow> mh_item (absorb_next x s) = mh_item (absorb_next x t)"
  "mh_item s = mh_item t \<Longrightarrow> mh_item (free_unlink x s) = mh_item (free_unlink x t)"
  "mh_item s = mh_item t \<Longrightarrow> mh_free_list (mheap s p) = mh_free_list (mheap t p) \<Longrightarrow>
     mh_item (free_push p x s) = mh_item (free_push p x t)"
  by (simp_all add: absorb_next_def free_unlink_def free_push_def Let_def)

lemma memheaps_eqI:
  "mh_tab s = mh_tab t \<Longrightarrow> mh_item s = mh_item t \<Longrightarrow> mh_byte s = mh_byte t \<Longrightarrow> s = (t :: memheaps)"
  by simp

lemma give_push: "free_push p x (mh_give p k s) = mh_give p k (free_push p x s)"
proof (rule memheaps_eqI)
  show "mh_item (free_push p x (mh_give p k s)) = mh_item (mh_give p k (free_push p x s))"
    unfolding account_item by (rule item_op_cong(3)) (simp_all add: mh_give_def)
qed (simp_all add: mh_give_def)

lemma shrink_is_merge:
  assumes rep: "mh_rep p s L fs" and L: "L = us @ h # c # vs" and hu: "RT_MEMHEAP_IS_USED s h"
    and n: "n = h + newsize + RT_MEMHEAP_SIZE" "n + RT_MEMHEAP_SIZE \<le> c"
    and s1: "s1 = mh_give p (c - n - RT_MEMHEAP_SIZE) (new_item p h n s)"
  shows "shrink_locked p h newsize s = free_push p n (merge_right p n s1)"
proof -
  note d = mh_repD[OF rep]
  have nh: "h + RT_MEMHEAP_SIZE \<le> n" using n(1) by simp
  note b = mh_between[OF rep L nh n(2)]
  have C: "cycle (block_links s) (us @ h # c # vs)" using d(1) L by simp
  have "c < 2 ^ 32" using spaced_bounds[OF d(3), of c] d(12) L by (simp add: memheap_consts)
  then have n32: "add32 (add32 h newsize) RT_MEMHEAP_SIZE = n" using n by (simp add: add32_small)
  let ?s0 = "new_item p h n s"
  have C0: "cycle (block_links ?s0) (us @ h # n # c # vs)" using new_item_cycle[OF C b(1)[unfolded L]] .
  note t = cycle_three[OF C0]
  have cn: "c \<noteq> n" using n(2) by (simp add: memheap_consts)
  have u0: "RT_MEMHEAP_IS_USED ?s0 c = RT_MEMHEAP_IS_USED s c" "RT_MEMHEAP_IS_USED s1 c = RT_MEMHEAP_IS_USED s c"
    using cn by (simp_all add: RT_MEMHEAP_IS_USED_def s1)
  show ?thesis
  proof (cases "RT_MEMHEAP_IS_USED s c")
    case True
    have "MEMITEM_SIZE (free_push p n ?s0) n = c - n - RT_MEMHEAP_SIZE"
      using t(2) n(2) by (simp add: MEMITEM_SIZE_def)
    then have "shrink_locked p h newsize s = mh_give p (c - n - RT_MEMHEAP_SIZE) (free_push p n ?s0)"
      using True u0 t(2) by (simp add: shrink_locked_def Let_def n32)
    also have "\<dots> = free_push p n s1" by (simp add: s1 give_push)
    finally show ?thesis using True u0 t(2) by (simp add: merge_right_def s1)
  next
    case False
    then obtain c' vs' where v: "vs = c' # vs'" using d(5) L by (cases vs) auto
    have C1: "cycle (block_links ?s0) ((us @ [h]) @ n # c # c' # vs')" using C0 v by simp
    have g: "c + RT_MEMHEAP_SIZE \<le> c'" using d(3) by (simp add: L v sorted_wrt_append)
    have c': "mi_next (item ?s0 c) = c'" using cycle_three(2)[OF C1] .
    let ?s2 = "upd_mh p (\<lambda>m. m\<lparr>mh_available := sub32 (mh_available m) (MEMITEM_SIZE ?s0 c)\<rparr>) ?s0"
    let ?s3 = "free_push p n (free_unlink c (absorb_next n ?s2))"
    have szc: "MEMITEM_SIZE ?s0 c = c' - c - RT_MEMHEAP_SIZE" using c' g by (simp add: MEMITEM_SIZE_def)
    have cc: "c \<noteq> c'" using g by (simp add: memheap_consts)
    have "mi_next (item (absorb_next n ?s2) n) = c'" using t cn c' cc by (simp add: absorb_next_def Let_def)
    then have szn: "MEMITEM_SIZE ?s3 n = c' - n - RT_MEMHEAP_SIZE" using g n(2) by (simp add: MEMITEM_SIZE_def)
    have av: "c' - c - RT_MEMHEAP_SIZE \<le> mh_available (mheap s p)"
    proof -
      have "L = (us @ [h]) @ c # c' # vs'" using L v by simp
      then show ?thesis using d(14) False by (simp add: free_bytes_split)
    qed
    have "shrink_locked p h newsize s = mh_give p (MEMITEM_SIZE ?s3 n) ?s3"
      using False u0 t(2) by (simp add: shrink_locked_def Let_def n32)
    also have "\<dots> = free_push p n (free_unlink c (absorb_next n (mh_give p RT_MEMHEAP_SIZE s1)))"
    proof (rule memheaps_eqI)
      have "mh_available (mheap s p) - (c' - c - RT_MEMHEAP_SIZE) + (c' - n - RT_MEMHEAP_SIZE) =
          mh_available (mheap s p) + (c - n - RT_MEMHEAP_SIZE) + RT_MEMHEAP_SIZE" using av g n(2) by linarith
      then show "mh_tab (mh_give p (MEMITEM_SIZE ?s3 n) ?s3) = mh_tab (free_push p n (free_unlink c (absorb_next n (mh_give p RT_MEMHEAP_SIZE s1))))"
        using av unfolding szn by (simp add: s1 mh_give_def szc add32_def mod_simps)
      show "mh_item (mh_give p (MEMITEM_SIZE ?s3 n) ?s3) = mh_item (free_push p n (free_unlink c (absorb_next n (mh_give p RT_MEMHEAP_SIZE s1))))"
        unfolding account_item by (intro item_op_cong) (simp_all add: s1)
    qed (simp add: s1)
    also have "\<dots> = free_push p n (merge_right p n s1)"
      using False u0(2) t(2) by (simp add: merge_right_def s1)
    finally show ?thesis .
  qed
qed

lemma shrink_effect:
  assumes rep: "mh_rep p s L fs" and L: "L = us @ h # c # vs" and hu: "RT_MEMHEAP_IS_USED s h"
    and room: "newsize + RT_MEMHEAP_SIZE \<le> c - h - RT_MEMHEAP_SIZE" and al: "RT_ALIGN_SIZE dvd newsize"
  shows "\<exists>L' fs'. mh_rep p (shrink_locked p h newsize s) L' fs' \<and> mh_frame p s (shrink_locked p h newsize s) \<and>
    areas (shrink_locked p h newsize s) L' =
      insert (h + RT_MEMHEAP_SIZE, newsize) (areas s L - {(h + RT_MEMHEAP_SIZE, c - h - RT_MEMHEAP_SIZE)})"
proof -
  note d = mh_repD[OF rep]
  obtain n where n: "n = h + newsize + RT_MEMHEAP_SIZE" by blast
  have g: "h + RT_MEMHEAP_SIZE \<le> n" "n + RT_MEMHEAP_SIZE \<le> c" using n room by (simp_all add: memheap_consts)
  have ad: "RT_ALIGN_SIZE dvd n" using d(4)[of h] al L by (simp add: n item_ok_def memheap_consts RT_ALIGN_SIZE_def)
  obtain s1 where s1: "s1 = mh_give p (c - n - RT_MEMHEAP_SIZE) (new_item p h n s)" by blast
  note c = cut_loose[OF rep L hu g ad s1]
  have "us @ h # n # c # vs = (us @ [h]) @ n # c # vs" by simp
  from merge_right_effect[OF c(1) this] obtain L' fs' c' vs' where
    r: "mh_loose p (merge_right p n s1) L' fs' n True" "L' = (us @ [h]) @ n # c' # vs'"
      "RT_MEMHEAP_IS_USED (merge_right p n s1) c'" "areas (merge_right p n s1) L' = areas s1 (us @ h # n # c # vs)"
      "mh_frame p s1 (merge_right p n s1)" by blast
  note ps = loose_push[OF r(1-3)]
  have "mh_frame p s (free_push p n (merge_right p n s1))"
    by (rule mh_frame_trans[OF c(2) mh_frame_trans[OF r(5) ps(3)]])
  then show ?thesis
    using ps(1,2) r(4) c(3) n unfolding shrink_is_merge[OF rep L hu n g(2) s1] by auto
qed

text \<open>Growing into the free block behind: it is replaced by a shorter one further on.\<close>

lemma expand_effect:
  assumes rep: "mh_rep p s L fs" and L: "L = us @ h # c # c' # vs" and hu: "RT_MEMHEAP_IS_USED s h"
    and cf: "\<not> RT_MEMHEAP_IS_USED s c" and old: "oldsize = c - h - RT_MEMHEAP_SIZE" "oldsize < newsize"
    and room: "newsize + RT_MEMHEAP_MINIALLOC < (c' - c - RT_MEMHEAP_SIZE) + oldsize" and al: "RT_ALIGN_SIZE dvd newsize"
  shows "\<exists>s' L' fs'. expand_locked p h newsize oldsize s = Some (s', True) \<and> mh_rep p s' L' fs' \<and> mh_frame p s s' \<and>
    areas s' L' = insert (h + RT_MEMHEAP_SIZE, newsize) (areas s L - {(h + RT_MEMHEAP_SIZE, oldsize)})"
proof -
  note d = mh_repD[OF rep]
  obtain n where n: "n = h + RT_MEMHEAP_SIZE + newsize" by blast
  let ?hdr = "mh_free_list (mheap s p)" and ?L2 = "us @ h # c' # vs" and ?L = "us @ h # n # c' # vs"
    and ?F = "\<lambda>a. \<not> RT_MEMHEAP_IS_USED s a"
  have dist: "distinct L" using spaced_distinct[OF d(3)] .
  have g: "h + RT_MEMHEAP_SIZE \<le> c" "c + RT_MEMHEAP_SIZE \<le> c'" using d(3) by (simp_all add: L sorted_wrt_append)
  have gn: "c < n" "h + RT_MEMHEAP_SIZE \<le> n" "n + RT_MEMHEAP_SIZE \<le> c'" using g n old room by (simp_all add: memheap_consts)
  have c32: "c' + RT_MEMHEAP_SIZE \<le> 2 ^ 32" using spaced_bounds[OF d(3), of c'] d(12) L by simp
  have C: "cycle (block_links s) (us @ h # c # c' # vs)" using d(1) L by simp
  note t = cycle_three[OF C]
  have "c \<in> set fs" using d(8) cf L by simp
  then obtain xs ys where fs: "fs = xs @ c # ys" by (auto simp: in_set_conv_decomp)
  have R: "is_ring (free_links s) ?hdr (xs @ c # ys)" using d(7) fs by simp
  have df: "distinct (?hdr # xs @ c # ys)" using R by (simp add: is_ring_def)
  have sp2: "spaced ?L2" using d(3) spaced_delete[of us h c "c' # vs"] by (simp add: L)
  have sp: "spaced ?L" by (rule spaced_insert[OF sp2 gn(2,3)])
  have nL: "n \<notin> set ?L2" "n \<noteq> h" "n \<notin> set L" using spaced_distinct[OF sp] gn(1) by (auto simp: L)
  have ends: "hd ?L = hd L" "last ?L = last L" by (simp_all add: L hd_append)
  have nb: "hd L \<le> n \<and> n \<le> last L" using spaced_bounds[OF sp, of n] ends by simp
  have nh: "n \<noteq> ?hdr" "n \<in> mh_span p s" "n \<notin> set fs"
    using nb d(8,9,11,13) nL(3) by (auto simp: mh_span_def memheap_consts)
  let ?k = "newsize - oldsize"
  let ?s2 = "drop_item_back c (free_unlink c (mh_account p ?k s))"
  obtain s' where s': "s' = free_push p n (new_item p h n ?s2)" by blast
  have lt: "?k < c' - c - RT_MEMHEAP_SIZE" using room old by simp
  have a1: "?k \<le> mh_available (mheap s p)"
  proof -
    have "L = (us @ [h]) @ c # c' # vs" using L by simp
    then have "c' - c - RT_MEMHEAP_SIZE \<le> mh_available (mheap s p)" using d(14) cf by (simp add: free_bytes_split)
    then show ?thesis using lt by linarith
  qed
  have a2: "mh_available (mheap s p) \<le> mh_pool_size (mheap s p)" using mh_available_le[OF rep] by simp
  note ac = mh_account_sel[OF a1 a2]
  have ex: "expand_locked p h newsize oldsize s = Some (s', True)"
  proof -
    have "MEMITEM_SIZE s c = c' - c - RT_MEMHEAP_SIZE" using t g by (simp add: MEMITEM_SIZE_def)
    moreover have "add32 newsize RT_MEMHEAP_MINIALLOC = newsize + RT_MEMHEAP_MINIALLOC"
      "add32 (c' - c - RT_MEMHEAP_SIZE) oldsize = c' - c - RT_MEMHEAP_SIZE + oldsize" "add32 (h + RT_MEMHEAP_SIZE) newsize = n"
      using room g old c32 gn n by (simp_all add: add32_small memheap_consts)
    moreover have "h < c" "sub32 newsize oldsize = ?k" using g old by (simp_all add: memheap_consts sub32_def)
    ultimately show ?thesis using t(1) cf room by (simp add: expand_locked_def s' Let_def rt_assert_def)
  qed
  have C2: "cycle (block_links ?s2) ?L2"
    using drop_item_cycle(2)[of "free_unlink c (mh_account p ?k s)" us h c c' vs] C by simp
  have cyc: "cycle (block_links s') ?L" using new_item_cycle[OF C2 nL(1)] by (simp add: s')
  have R2: "is_ring (free_links (new_item p h n ?s2)) ?hdr (xs @ ys)"
    using free_unlink_ring[of "mh_account p ?k s" ?hdr xs c ys] R by simp
  have fl: "mh_free_list (mheap (new_item p h n ?s2) p) = ?hdr" using ac(4) by simp
  have ring: "is_ring (free_links s') ?hdr (n # xs @ ys)"
    unfolding s' fl[symmetric] by (rule free_push_ring) (use R2 fl nh fs in auto)
  have u: "RT_MEMHEAP_IS_USED s' a \<longleftrightarrow> a \<noteq> n \<and> RT_MEMHEAP_IS_USED s a" for a by (simp add: RT_MEMHEAP_IS_USED_def s')
  let ?F' = "\<lambda>a. \<not> RT_MEMHEAP_IS_USED s' a"
  note F = outer_cong[of us c' vs ?F' ?F]
  have Fc: "?F' a = ?F a" if "a \<in> set (us @ c' # vs)" for a using that nL(1) by (auto simp: u)
  have cu: "RT_MEMHEAP_IS_USED s c'" using d(6) cf by (simp add: L successively_append_iff)
  have kn: "?k = n - c" using n old g by simp
  have fbL: "free_bytes ?F L = free_bytes ?F (us @ [h]) + (c' - c - RT_MEMHEAP_SIZE) + free_bytes ?F (c' # vs)"
    using free_bytes_split[of ?F us h c "c' # vs"] hu cf by (simp add: L)
  have fb': "free_bytes ?F' ?L = free_bytes ?F (us @ [h]) + (c' - n - RT_MEMHEAP_SIZE) + free_bytes ?F (c' # vs)"
    using free_bytes_split[of ?F' us h n "c' # vs"] F[OF Fc] hu u[of h] u[of n] nL(2) by simp
  have tab: "mh_tab s' = mh_tab (mh_account p ?k s)" by (simp add: s')
  have av: "mh_available (mheap s' p) = free_bytes ?F' ?L"
    using ac(1) kn fbL fb' d(14) gn g lt unfolding tab by linarith
  have ok: "item_ok p s' a" if "a \<in> set ?L" for a
  proof (cases "a = n")
    case True
    then show ?thesis using n al d(4)[of h] by (simp add: L item_ok_def s' memheap_consts RT_ALIGN_SIZE_def)
  qed (use that d(4)[of a] in \<open>auto simp: item_ok_def s' L\<close>)
  have adj: "successively (\<lambda>a b. RT_MEMHEAP_IS_USED s' a \<or> RT_MEMHEAP_IS_USED s' b) ?L"
  proof -
    have "successively (\<lambda>a b. RT_MEMHEAP_IS_USED s' a \<or> RT_MEMHEAP_IS_USED s' b) L"
      by (rule adjacent_mono[OF d(6)]) (use nL(3) in \<open>auto simp: u\<close>)
    then show ?thesis using hu u[of h] nL(2) cu Fc[of c'] by (simp add: L successively_append_iff)
  qed
  have set: "set (n # xs @ ys) = {a \<in> set ?L. ?F' a}"
  proof -
    have "set (xs @ ys) = set fs - {c}" using df by (auto simp: fs)
    moreover have "set ?L2 = set L - {c}" using dist by (auto simp: L)
    ultimately have "set (xs @ ys) = {a \<in> set ?L2. ?F a}" using d(8) by blast
    then show ?thesis using nL by (auto simp: u)
  qed
  have "RT_MEMHEAP_IS_USED s' (last ?L)"
  proof -
    have "last L \<in> set L" by (simp add: L)
    then show ?thesis using d(5) ends(2) nL(3) by (auto simp: u)
  qed
  then have "mh_rep p s' ?L (n # xs @ ys)"
    unfolding mh_rep_def
    using cyc ring ok av adj set sp ends d(9-13) ac(2-5) by (simp add: tab)
  moreover have "areas s' ?L = insert (h + RT_MEMHEAP_SIZE, newsize) (areas s L - {(h + RT_MEMHEAP_SIZE, oldsize)})"
  proof -
    have "(h + RT_MEMHEAP_SIZE, m) \<notin> used_areas ?F (us @ [h])" "(h + RT_MEMHEAP_SIZE, m) \<notin> used_areas ?F (c' # vs)" for m
      using used_areas_starts[of "h + RT_MEMHEAP_SIZE" m ?F "us @ [h]"] used_areas_starts[of "h + RT_MEMHEAP_SIZE" m ?F "c' # vs"]
        dist in_set_butlastD[of h "c' # vs"] by (auto simp: L)
    moreover have "areas s L = used_areas ?F (us @ [h]) \<union> {(h + RT_MEMHEAP_SIZE, oldsize)} \<union> used_areas ?F (c' # vs)"
      using used_areas_split[of ?F us h c "c' # vs"] hu cf old by (simp add: areas_def L)
    moreover have nn: "n - (h + RT_MEMHEAP_SIZE) = newsize" using n by simp
    moreover have "areas s' ?L = used_areas ?F (us @ [h]) \<union> {(h + RT_MEMHEAP_SIZE, newsize)} \<union> used_areas ?F (c' # vs)"
      using used_areas_split[of ?F' us h n "c' # vs"] F[OF Fc] hu u[of h] u[of n] nL(2) by (simp add: areas_def nn)
    ultimately show ?thesis by auto
  qed
  moreover have "mh_frame p s s'"
  proof -
    have "item s' a = item s a" if a: "a \<notin> mh_span p s" for a
    proof -
      have x: "a \<notin> set (?hdr # n # L)" using a nh(2) mh_rep_span(1)[OF rep] by auto
      have "item s' a = item (new_item p h n ?s2) a"
        unfolding s' by (rule free_push_item[of _ p "xs @ ys"]) (use R2 fl x d(8) fs in auto)
      also have "\<dots> = item ?s2 a" using new_item_item[OF C2, of a n] x nL(2) by (auto simp: L)
      also have "\<dots> = item (free_unlink c (mh_account p ?k s)) a"
        using drop_item_item(3)[of "free_unlink c (mh_account p ?k s)" us h c c' vs a] C x by (simp add: L)
      also have "\<dots> = item s a"
        using free_unlink_item[of "mh_account p ?k s" ?hdr xs c ys a] R x d(8) fs by auto
      finally show ?thesis .
    qed
    then show ?thesis using ac(3-7) by (simp add: mh_frame_def tab) (simp add: s')
  qed
  ultimately show ?thesis using ex by blast
qed

section \<open>A new heap\<close>

lemma memheap_setup_effect:
  assumes al: "RT_ALIGN_SIZE dvd start_addr" "0 < start_addr" and pool: "pool = RT_ALIGN_DOWN sz RT_ALIGN_SIZE"
    and room: "2 * RT_MEMHEAP_SIZE \<le> pool" "start_addr + pool \<le> 2 ^ 32"
    and out: "hdr + RT_MEMHEAP_SIZE \<le> start_addr \<or> start_addr + pool \<le> hdr"
    and s': "s' = memheap_setup p hdr lk start_addr sz s" and fin: "fin = start_addr + (pool - RT_MEMHEAP_SIZE)"
  shows "mh_rep p s' [start_addr, fin] [start_addr]" "areas s' [start_addr, fin] = {}"
    "mheap s' p = \<lparr>mh_start = start_addr, mh_pool_size = pool, mh_available = pool - 2 * RT_MEMHEAP_SIZE,
       mh_max_used = 2 * RT_MEMHEAP_SIZE, mh_block_list = start_addr, mh_free_list = hdr, mh_lock = lk\<rparr>"
    "\<And>q. q \<noteq> p \<Longrightarrow> mheap s' q = mheap s q" "mh_byte s' = mh_byte s"
    "\<And>a. a \<noteq> hdr \<Longrightarrow> a < start_addr \<or> start_addr + pool \<le> a \<Longrightarrow> item s' a = item s a"
proof -
  let ?a = start_addr
  let ?t = "\<lparr>mh_start = ?a, mh_pool_size = pool, mh_available = pool - 2 * RT_MEMHEAP_SIZE,
     mh_max_used = 2 * RT_MEMHEAP_SIZE, mh_block_list = ?a, mh_free_list = hdr, mh_lock = lk\<rparr>"
  have n: "sub32 pool (2 * RT_MEMHEAP_SIZE) = pool - 2 * RT_MEMHEAP_SIZE" "sub32 pool (pool - 2 * RT_MEMHEAP_SIZE) = 2 * RT_MEMHEAP_SIZE"
    using room by (simp_all add: sub32_def)
  have f: "add32 (add32 ?a (pool - 2 * RT_MEMHEAP_SIZE)) RT_MEMHEAP_SIZE = fin"
    using room by (simp add: add32_small fin memheap_consts)
  have ne: "hdr \<noteq> ?a" "fin \<noteq> ?a" "fin \<noteq> hdr" using out room by (auto simp: fin memheap_consts)
  have tab: "mh_tab s' = (mh_tab s)(p := ?t)" using n by (simp add: s' memheap_setup_def Let_def pool[symmetric])
  have it: "item s' = (item s)(
      hdr := \<lparr>mi_magic = RT_MEMHEAP_MAGIC, mi_pool = p, mi_next = 0, mi_prev = 0, mi_next_free = ?a, mi_prev_free = ?a\<rparr>,
      ?a := \<lparr>mi_magic = RT_MEMHEAP_MAGIC, mi_pool = p, mi_next = fin, mi_prev = fin, mi_next_free = hdr, mi_prev_free = hdr\<rparr>,
      fin := \<lparr>mi_magic = RT_MEMHEAP_MAGIC OR RT_MEMHEAP_USED, mi_pool = p, mi_next = ?a, mi_prev = ?a, mi_next_free = 0,
        mi_prev_free = 0\<rparr>)"
    using ne n f by (auto simp: s' memheap_setup_def Let_def pool[symmetric] free_push_def fun_eq_iff)
  show "mheap s' p = ?t" "\<And>q. q \<noteq> p \<Longrightarrow> mheap s' q = mheap s q" by (simp_all add: tab)
  show "mh_byte s' = mh_byte s" by (simp add: s' memheap_setup_def Let_def)
  show "item s' x = item s x" if "x \<noteq> hdr" "x < ?a \<or> ?a + pool \<le> x" for x
    using that room by (auto simp: it fin memheap_consts)
  have u: "RT_MEMHEAP_IS_USED s' fin" "\<not> RT_MEMHEAP_IS_USED s' ?a" using ne by (simp_all add: RT_MEMHEAP_IS_USED_def it)
  have d: "RT_ALIGN_SIZE dvd pool" by (simp add: pool RT_ALIGN_DOWN_dvd)
  then have "RT_ALIGN_SIZE dvd fin" using al(1) by (simp add: fin memheap_consts RT_ALIGN_SIZE_def)
  then have ok: "\<forall>a \<in> set [?a, fin]. item_ok p s' a" using al ne by (auto simp: item_ok_def it)
  have cyc: "cycle (block_links s') [?a, fin]" using ne by (auto simp: cycle_def is_ring_def it)
  have ring: "is_ring (free_links s') hdr [?a]" using ne by (auto simp: is_ring_def it)
  have "last [?a, fin] + RT_MEMHEAP_SIZE = ?a + pool" using room by (simp add: fin memheap_consts)
  moreover have "spaced [?a, fin]" using room by (simp add: fin memheap_consts)
  moreover have "free_bytes (\<lambda>a. \<not> RT_MEMHEAP_IS_USED s' a) [?a, fin] = pool - 2 * RT_MEMHEAP_SIZE"
    using u room by (simp add: fin memheap_consts)
  ultimately show "mh_rep p s' [?a, fin] [?a]"
    unfolding mh_rep_def using u ok cyc ring al(2) room(2) out by (auto simp: tab)
  show "areas s' [?a, fin] = {}" using u by (simp add: areas_def)
qed

end
