(* ===== verification/Memheap_Calls.thy ===== *)
theory Memheap_Calls
  imports Memheap_Free Heap_Calls MemPool
begin

text \<open>
  The calls of \<^verbatim>\<open>src/memheap.c\<close>: \<^verbatim>\<open>rt_memheap_init\<close>, \<^verbatim>\<open>rt_memheap_detach\<close>, \<^verbatim>\<open>rt_memheap_alloc\<close>,
  \<^verbatim>\<open>rt_memheap_realloc\<close>, \<^verbatim>\<open>rt_memheap_free\<close>, and the memory calls of the system on top of them
  (\<^verbatim>\<open>RT_USING_MEMHEAP_AS_HEAP\<close>), whose names end in \<open>_mh\<close> here. Each runs its sections of theories
  \<^verbatim>\<open>Memheap\<close> and \<^verbatim>\<open>Memheap_Free\<close> with the semaphore of the heap held.

  A call that has to wait for a semaphore answers \<open>MWait f\<close>; \<open>f\<close> is the rest of the call, run on the
  state in which the thread is scheduled again.
\<close>

section \<open>Calls that may wait\<close>

datatype mh_result =
  MRet nat | MWait "kernel \<times> memheaps \<Rightarrow> (kernel \<times> memheaps \<times> mh_result) option"

type_synonym mh_call = "kernel \<times> memheaps \<Rightarrow> (kernel \<times> memheaps \<times> mh_result) option"

definition mh_return :: "nat \<Rightarrow> mh_call" where
  "mh_return r = (\<lambda>(k, s). Some (k, s, MRet r))"

primrec mh_after :: "(nat \<Rightarrow> mh_call) \<Rightarrow> mh_result \<Rightarrow> mh_call" where
  "mh_after f (MRet r) = f r"
| "mh_after f (MWait g) = (\<lambda>(k, s). Some (k, s, MWait (\<lambda>st.
     Option.bind (map_option (map_prod id (map_prod id (mh_after f))) (g st)) (\<lambda>(k, s, m). m (k, s)))))"

definition mh_then :: "mh_call \<Rightarrow> (nat \<Rightarrow> mh_call) \<Rightarrow> mh_call" where
  "mh_then m f = (\<lambda>st. do { (k, s, r) \<leftarrow> m st; mh_after f r (k, s) })"

text \<open>\<^verbatim>\<open>rt_sem_take(&(heap->lock), RT_WAITING_FOREVER)\<close> and what follows: an error of the wait becomes the
  thread's error number, and the call answers NULL.\<close>

definition mh_locked :: "nat \<Rightarrow> mh_call \<Rightarrow> mh_call" where
  "mh_locked p rest = (\<lambda>(k, s).
     let go = (\<lambda>e (k, s). if e \<noteq> RT_EOK then Some (rt_set_errno e k, s, MRet 0) else rest (k, s)) in
     do {
       (k', r) \<leftarrow> rt_sem_take (mh_lock (mheap s p)) RT_WAITING_FOREVER k;
       (case r of
          Done e \<Rightarrow> go e (k', s)
        | Blocked \<Rightarrow> do {
            t \<leftarrow> rt_thread_self k;
            Some (k', s, MWait (\<lambda>(k, s). go (rt_sem_take_resume t k) (k, s))) }) })"

definition mh_unlock :: "nat \<Rightarrow> kernel \<Rightarrow> memheaps \<Rightarrow> kernel option" where
  "mh_unlock p k s = rt_sem_release (mh_lock (mheap s p)) k"

section \<open>Operations\<close>

definition mh_copy :: "nat \<Rightarrow> nat \<Rightarrow> nat \<Rightarrow> memheaps \<Rightarrow> memheaps" where
  "mh_copy dst src n s =
     s\<lparr>mh_byte := (\<lambda>a. if dst \<le> a \<and> a < dst + n then mh_byte s (src + (a - dst)) else mh_byte s a)\<rparr>"

definition mh_fill :: "nat \<Rightarrow> u8 \<Rightarrow> nat \<Rightarrow> memheaps \<Rightarrow> memheaps" where
  "mh_fill p c n s = s\<lparr>mh_byte := (\<lambda>a. if p \<le> a \<and> a < p + n then c else mh_byte s a)\<rparr>"

text \<open>The number \<open>p\<close> of a heap stands for the address of its structure; \<open>hdr\<close> and \<open>lk\<close> are the free header
  and the semaphore in it.\<close>

definition rt_memheap_init ::
  "nat \<Rightarrow> nat \<Rightarrow> nat \<Rightarrow> string \<Rightarrow> nat \<Rightarrow> nat \<Rightarrow> kernel \<times> memheaps \<Rightarrow> (kernel \<times> memheaps \<times> int) option" where
  "rt_memheap_init p hdr lk name start_addr sz = (\<lambda>(k, s). do {
     rt_assert (p \<noteq> 0);
     k \<leftarrow> rt_object_init (OMemHeap p) RT_Object_Class_MemHeap name k;
     let s = memheap_setup p hdr lk start_addr sz s;
     k \<leftarrow> rt_sem_init lk name 1 RT_IPC_FLAG_FIFO k;
     Some (k, s, RT_EOK) })"

definition rt_memheap_detach :: "nat \<Rightarrow> kernel \<times> memheaps \<Rightarrow> (kernel \<times> int) option" where
  "rt_memheap_detach p = (\<lambda>(k, s). do {
     rt_assert (p \<noteq> 0);
     rt_assert (rt_object_get_type k (OMemHeap p) = RT_Object_Class_MemHeap);
     rt_assert (rt_object_is_systemobject k (OMemHeap p));
     let k = rt_object_detach (OSem (mh_lock (mheap s p))) k;
     Some (rt_object_detach (OMemHeap p) k, RT_EOK) })"

definition mh_request :: "nat \<Rightarrow> nat" where
  "mh_request sz = (let sz = align32 sz in if sz < RT_MEMHEAP_MINIALLOC then RT_MEMHEAP_MINIALLOC else sz)"

definition rt_memheap_alloc :: "nat \<Rightarrow> nat \<Rightarrow> mh_call" where
  "rt_memheap_alloc p sz = (\<lambda>(k, s). do {
     rt_assert (p \<noteq> 0);
     rt_assert (rt_object_get_type k (OMemHeap p) = RT_Object_Class_MemHeap);
     let sz = mh_request sz;
     if sz < mh_available (mheap s p) then
       mh_locked p (\<lambda>(k, s). do {
         (s, r) \<leftarrow> alloc_locked p sz s;
         k \<leftarrow> mh_unlock p k s;
         Some (k, s, MRet r) }) (k, s)
     else Some (k, s, MRet 0) })"

definition rt_memheap_free :: "nat \<Rightarrow> mh_call" where
  "rt_memheap_free ptr = (\<lambda>(k, s).
     if ptr = 0 then Some (k, s, MRet 0)
     else do {
       let h = sub32 ptr RT_MEMHEAP_SIZE;
       rt_assert (mi_magic (item s h) AND RT_MEMHEAP_MASK = RT_MEMHEAP_MAGIC);
       rt_assert (mi_magic (item s h) AND RT_MEMHEAP_USED \<noteq> 0);
       rt_assert (mi_magic (item s (mi_next (item s h))) AND RT_MEMHEAP_MASK = RT_MEMHEAP_MAGIC);
       let p = mi_pool (item s h);
       rt_assert (p \<noteq> 0);
       rt_assert (rt_object_get_type k (OMemHeap p) = RT_Object_Class_MemHeap);
       mh_locked p (\<lambda>(k, s). do {
         let s = free_mh_locked p h s;
         k \<leftarrow> mh_unlock p k s;
         Some (k, s, MRet 0) }) (k, s) })"

text \<open>The growing half of \<^verbatim>\<open>rt_memheap_realloc\<close>: in place, or by moving the block.\<close>

definition realloc_grow :: "nat \<Rightarrow> nat \<Rightarrow> nat \<Rightarrow> nat \<Rightarrow> mh_call" where
  "realloc_grow p ptr newsize oldsize =
     mh_locked p (\<lambda>(k, s). do {
       (s, ok) \<leftarrow> expand_locked p (sub32 ptr RT_MEMHEAP_SIZE) newsize oldsize s;
       k \<leftarrow> mh_unlock p k s;
       if ok then Some (k, s, MRet ptr)
       else mh_then (rt_memheap_alloc p newsize) (\<lambda>new (k, s).
         if new \<noteq> 0
         then mh_then (rt_memheap_free ptr) (\<lambda>_. mh_return new)
           (k, mh_copy new ptr (if oldsize < newsize then oldsize else newsize) s)
         else Some (k, s, MRet 0)) (k, s) })"

definition rt_memheap_realloc :: "nat \<Rightarrow> nat \<Rightarrow> nat \<Rightarrow> mh_call" where
  "rt_memheap_realloc p ptr newsize = (\<lambda>(k, s). do {
     rt_assert (p \<noteq> 0);
     rt_assert (rt_object_get_type k (OMemHeap p) = RT_Object_Class_MemHeap);
     if newsize = 0 then mh_then (rt_memheap_free ptr) (\<lambda>_. mh_return 0) (k, s)
     else do {
       let newsize = mh_request newsize;
       if ptr = 0 then rt_memheap_alloc p newsize (k, s)
       else do {
         let h = sub32 ptr RT_MEMHEAP_SIZE;
         let oldsize = MEMITEM_SIZE s h;
         if newsize > oldsize then realloc_grow p ptr newsize oldsize (k, s)
         else if add32 (add32 newsize RT_MEMHEAP_SIZE) RT_MEMHEAP_MINIALLOC \<ge> oldsize then Some (k, s, MRet ptr)
         else mh_locked p (\<lambda>(k, s). do {
           let s = shrink_locked p h newsize s;
           k \<leftarrow> mh_unlock p k s;
           Some (k, s, MRet ptr) }) (k, s) } } })"

section \<open>The memory calls of the system\<close>

text \<open>\<^verbatim>\<open>static struct rt_memheap _heap\<close>, with its header and its lock.\<close>

definition sys_heap :: nat where "sys_heap = 1"

definition rt_system_heap_init_mh ::
  "nat \<Rightarrow> nat \<Rightarrow> nat \<Rightarrow> nat \<Rightarrow> kernel \<times> memheaps \<Rightarrow> (kernel \<times> memheaps \<times> int) option" where
  "rt_system_heap_init_mh hdr lk begin_addr end_addr =
     rt_memheap_init sys_heap hdr lk ''heap'' begin_addr (sub32 end_addr begin_addr)"

text \<open>The other heaps, in the order of their container. A container that changed while a call waited for
  a lock would have the loop go on from a node that has moved: \<open>None\<close>.\<close>

fun malloc_others :: "nat \<Rightarrow> object_id list \<Rightarrow> mh_call" where
  "malloc_others sz [] = mh_return 0"
| "malloc_others sz (OMemHeap p # obs) =
     (\<lambda>(k, s). do {
       rt_assert (p \<noteq> 0);
       rt_assert (rt_object_get_type k (OMemHeap p) = RT_Object_Class_MemHeap);
       if p = sys_heap then malloc_others sz obs (k, s)
       else mh_then (rt_memheap_alloc p sz) (\<lambda>r (k, s).
         if r \<noteq> 0 then Some (k, s, MRet r)
         else do {
           rt_assert (tl (dropWhile (\<lambda>ob. ob \<noteq> OMemHeap p) (k_containers k RT_Object_Class_MemHeap)) = obs);
           malloc_others sz obs (k, s) }) (k, s) })"
| "malloc_others sz (_ # obs) = (\<lambda>_. None)"

definition rt_malloc_mh :: "nat \<Rightarrow> mh_call" where
  "rt_malloc_mh sz = mh_then (rt_memheap_alloc sys_heap sz) (\<lambda>r (k, s).
     if r = 0 then do {
       info \<leftarrow> rt_object_get_information RT_Object_Class_MemHeap;
       malloc_others sz (k_containers k info) (k, s) }
     else Some (k, s, MRet r))"

definition rt_free_mh :: "nat \<Rightarrow> mh_call" where
  "rt_free_mh rmem = rt_memheap_free rmem"

definition rt_realloc_mh :: "nat \<Rightarrow> nat \<Rightarrow> mh_call" where
  "rt_realloc_mh rmem newsize = (\<lambda>(k, s).
     if rmem = 0 then rt_malloc_mh newsize (k, s)
     else if newsize = 0 then mh_then (rt_free_mh rmem) (\<lambda>_. mh_return 0) (k, s)
     else
       let h = sub32 rmem RT_MEMHEAP_SIZE in
       mh_then (rt_memheap_realloc (mi_pool (item s h)) rmem newsize) (\<lambda>new.
         if new = 0 then
           mh_then (rt_malloc_mh newsize) (\<lambda>new (k, s).
             if new \<noteq> 0 then
               let oldsize = MEMITEM_SIZE s h in
               mh_then (rt_free_mh rmem) (\<lambda>_. mh_return new)
                 (k, mh_copy new rmem (if newsize > oldsize then oldsize else newsize) s)
             else Some (k, s, MRet 0))
         else mh_return new) (k, s))"

definition rt_calloc_mh :: "nat \<Rightarrow> nat \<Rightarrow> mh_call" where
  "rt_calloc_mh count sz =
     (let total_size = count * sz mod 2 ^ 32 in
      mh_then (rt_malloc_mh total_size) (\<lambda>r (k, s).
        Some (k, if r \<noteq> 0 then mh_fill r 0 total_size s else s, MRet r)))"

section \<open>Calls that find the lock free\<close>

definition mh_lock_free :: "nat \<Rightarrow> kernel \<Rightarrow> memheaps \<Rightarrow> bool" where
  "mh_lock_free p k s \<longleftrightarrow> p \<noteq> 0 \<and> o_type (k_objects k (OMemHeap p)) = RT_Object_Class_MemHeap \<and>
     o_type (k_objects k (OSem (mh_lock (mheap s p)))) = RT_Object_Class_Semaphore \<and>
     sem_value (k_sems k (mh_lock (mheap s p))) = 1 \<and> k_lists k (SemWait (mh_lock (mheap s p))) = []"

lemma mh_lock_free_frame: "mh_frame p s s' \<Longrightarrow> mh_lock_free p k s' = mh_lock_free p k s"
  by (simp add: mh_lock_free_def mh_frame_def)

text \<open>A section that keeps the lock's number and ends with the release runs as if there was no lock.\<close>

lemma mh_locked_free:
  assumes "mh_lock_free p k s"
  obtains k1 where "mh_locked p rest (k, s) = rest (k1, s)"
    "\<And>s'. mh_lock (mheap s' p) = mh_lock (mheap s p) \<Longrightarrow> mh_unlock p k1 s' = Some k"
proof -
  let ?l = "mh_lock (mheap s p)"
  let ?k1 = "upd_sem ?l (\<lambda>x. x\<lparr>sem_value := sem_value x - 1\<rparr>) k"
  have "mh_locked p rest (k, s) = rest (?k1, s)"
    using assms by (simp add: mh_locked_def rt_sem_take_def mh_lock_free_def rt_object_get_type_def)
  moreover have "(k_sems k)(?l := (k_sems k ?l)\<lparr>sem_value := 1\<rparr>) = k_sems k"
    by (rule fun_upd_idem) (use assms in \<open>cases "k_sems k ?l", simp add: mh_lock_free_def\<close>)
  then have "mh_unlock p ?k1 s' = Some k" if "mh_lock (mheap s' p) = ?l" for s'
    using assms that by (simp add: mh_unlock_def rt_sem_release_def mh_lock_free_def rt_object_get_type_def upd_sem_def)
  ultimately show thesis by (rule that)
qed

lemma mh_then_ret [simp]: "m st = Some (k, s, MRet r) \<Longrightarrow> mh_then m f st = f r (k, s)"
  by (simp add: mh_then_def)

section \<open>Areas\<close>

lemma used_areas_in:
  "(a, m) \<in> used_areas F L \<Longrightarrow> \<exists>us h c vs. L = us @ h # c # vs \<and> \<not> F h \<and> a = h + RT_MEMHEAP_SIZE \<and> m = c - h - RT_MEMHEAP_SIZE"
proof (induction F L rule: used_areas.induct)
  case (1 F x y r)
  show ?case
  proof (cases "(a, m) \<in> used_areas F (y # r)")
    case True
    then obtain us h c vs where "y # r = us @ h # c # vs" "\<not> F h" "a = h + RT_MEMHEAP_SIZE" "m = c - h - RT_MEMHEAP_SIZE"
      using 1 by blast
    then show ?thesis by (intro exI[of _ "x # us"] exI[of _ h] exI[of _ c] exI[of _ vs]) simp
  next
    case False
    then have "\<not> F x" "a = x + RT_MEMHEAP_SIZE" "m = y - x - RT_MEMHEAP_SIZE" using 1(2) by (auto split: if_splits)
    then show ?thesis by (intro exI[of _ "[]"] exI[of _ x] exI[of _ y] exI[of _ r]) simp
  qed
qed simp_all

lemma mh_area:
  assumes rep: "mh_rep p s L fs" and a: "(ptr, m) \<in> areas s L"
  obtains us h c vs where "L = us @ h # c # vs" "ptr = h + RT_MEMHEAP_SIZE" "m = c - h - RT_MEMHEAP_SIZE" "h + RT_MEMHEAP_SIZE \<le> c"
    "RT_MEMHEAP_IS_USED s h" "MEMITEM_SIZE s h = m" "h \<noteq> last L" "sub32 ptr RT_MEMHEAP_SIZE = h" "mi_next (item s h) = c"
    "c + RT_MEMHEAP_SIZE \<le> 2 ^ 32" "0 < h"
proof -
  note d = mh_repD[OF rep]
  obtain us h c vs where L: "L = us @ h # c # vs" and h: "RT_MEMHEAP_IS_USED s h" "ptr = h + RT_MEMHEAP_SIZE" "m = c - h - RT_MEMHEAP_SIZE"
    using used_areas_in[OF a[unfolded areas_def]] by blast
  have g: "h + RT_MEMHEAP_SIZE \<le> c" using d(3) by (simp add: L sorted_wrt_append)
  have nx: "mi_next (item s h) = c" using cycle_next[of "block_links s" us h c vs] d(1) L by simp
  have "h \<noteq> last L" using spaced_distinct[OF d(3)] L by (auto dest: last_in_set)
  moreover have "c + RT_MEMHEAP_SIZE \<le> 2 ^ 32" "0 < h" using spaced_bounds[OF d(3), of c] spaced_bounds[OF d(3), of h] d(9,10,12) L by simp_all
  moreover have "MEMITEM_SIZE s h = m" using nx g h(3) by (simp add: MEMITEM_SIZE_def sub32_def)
  moreover have "sub32 ptr RT_MEMHEAP_SIZE = h" using h(2) by (simp add: sub32_def)
  ultimately show thesis using that[OF L h(2,3) g h(1)] nx by blast
qed

lemma areas_apart:
  assumes rep: "mh_rep p s L fs" and a: "x \<in> areas s L" "y \<in> areas s L" "x \<noteq> y"
  shows "apart x y"
proof -
  have key: "apart (h + RT_MEMHEAP_SIZE, c - h - RT_MEMHEAP_SIZE) (h' + RT_MEMHEAP_SIZE, m')"
    if L: "L = us @ h # c # vs" and h': "h' \<in> set (c # vs)" for us h c vs h' m'
  proof -
    have "spaced L" by (rule mh_repD(3)[OF rep])
    then have "h + RT_MEMHEAP_SIZE \<le> c" "c \<le> h'" using L h' by (auto simp: sorted_wrt_append)
    then show ?thesis by (simp add: apart_def)
  qed
  obtain q n where x: "x = (q, n)" by (cases x)
  obtain q' n' where y: "y = (q', n')" by (cases y)
  obtain us h c vs where h: "L = us @ h # c # vs" "q = h + RT_MEMHEAP_SIZE" "n = c - h - RT_MEMHEAP_SIZE" "mi_next (item s h) = c"
    by (rule mh_area[OF rep a(1)[unfolded x]])
  obtain us' h' c' vs' where h': "L = us' @ h' # c' # vs'" "q' = h' + RT_MEMHEAP_SIZE" "n' = c' - h' - RT_MEMHEAP_SIZE" "mi_next (item s h') = c'"
    by (rule mh_area[OF rep a(2)[unfolded y]])
  have "h \<noteq> h'" using a(3) h h' x y by auto
  moreover have "h' \<in> set us \<or> h' = h \<or> h' \<in> set (c # vs)" using h(1) h'(1) by (metis Un_iff in_set_conv_decomp list.set_intros set_ConsD set_append)
  moreover have "h \<in> set (c' # vs')" if u: "h' \<in> set us"
  proof -
    have "h' < h" using mh_repD(3)[OF rep] u h(1) by (auto simp: sorted_wrt_append memheap_consts)
    moreover have "b < h'" if "b \<in> set us'" for b using mh_repD(3)[OF rep] that h'(1) by (fastforce simp: sorted_wrt_append memheap_consts)
    then have "\<not> h < h' \<Longrightarrow> h \<notin> set us'" by blast
    moreover have "h \<in> set (us' @ h' # c' # vs')" using h(1) h'(1) by (metis in_set_conv_decomp)
    ultimately show ?thesis by auto
  qed
  ultimately consider "h' \<in> set (c # vs)" | "h \<in> set (c' # vs')" by blast
  then show ?thesis
  proof cases
    case 1
    then show ?thesis using key[OF h(1)] h h' x y by simp
  next
    case 2
    then show ?thesis using key[OF h'(1), of h n] h h' x y by (auto simp: apart_def)
  qed
qed

section \<open>What a call on one heap does\<close>

lemma mh_request_dvd: "RT_ALIGN_SIZE dvd mh_request sz"
  using align32_dvd[of sz] by (simp add: mh_request_def Let_def memheap_consts RT_ALIGN_SIZE_def)

lemma mh_request_ge: "sz \<le> 2 ^ 32 - 4 \<Longrightarrow> sz \<le> mh_request sz" "12 \<le> mh_request sz"
  using align32_no_wrap[of sz] by (auto simp: mh_request_def Let_def memheap_consts)

lemma mh_request_less: "mh_request sz < 2 ^ 32"
  by (simp add: mh_request_def Let_def memheap_consts align32_def)

lemma mh_request_idem: "mh_request (mh_request sz) = mh_request sz"
proof -
  have "RT_ALIGN (mh_request sz) 4 = mh_request sz"
    using mh_request_dvd[of sz] RT_ALIGN_less[of 4 "mh_request sz"] RT_ALIGN_ge[of 4 "mh_request sz"] RT_ALIGN_dvd[of 4 "mh_request sz"]
    by (simp add: RT_ALIGN_SIZE_def) presburger
  then have "align32 (mh_request sz) = mh_request sz" using mh_request_less[of sz] by (simp add: align32_def RT_ALIGN_SIZE_def)
  then show ?thesis using mh_request_ge(2)[of sz] unfolding mh_request_def[of "mh_request sz"] Let_def by (simp add: memheap_consts)
qed

text \<open>The answer to a request of \<open>want\<close> bytes: null when no free block is larger than all that is needed.\<close>

definition mh_alloc_answer :: "nat \<Rightarrow> nat \<Rightarrow> memheaps \<Rightarrow> nat list \<Rightarrow> nat list \<Rightarrow> memheaps \<Rightarrow> nat \<Rightarrow> bool" where
  "mh_alloc_answer p want s L fs s' r \<longleftrightarrow>
     (if r = 0 then s' = s \<and> (\<forall>a \<in> set fs. MEMITEM_SIZE s a < want \<or> mh_available (mheap s p) = want)
      else \<exists>L' fs' m. mh_rep p s' L' fs' \<and> want \<le> m \<and> m < want + RT_MEMHEAP_SIZE + RT_MEMHEAP_MINIALLOC \<and>
        RT_ALIGN_SIZE dvd r \<and> (r, m) \<notin> areas s L \<and> areas s' L' = insert (r, m) (areas s L) \<and> mh_frame p s s')"

lemma free_block_le:
  assumes rep: "mh_rep p s L fs" and a: "a \<in> set fs"
  shows "MEMITEM_SIZE s a \<le> mh_available (mheap s p)"
proof -
  obtain us c vs where "L = us @ a # c # vs" "MEMITEM_SIZE s a = c - a - RT_MEMHEAP_SIZE" "\<not> RT_MEMHEAP_IS_USED s a"
    by (rule mh_free_split[OF rep a])
  then show ?thesis using mh_repD(14)[OF rep] by (simp add: free_bytes_split)
qed

lemma mh_alloc_effect:
  assumes rep: "mh_rep p s L fs" and lk: "mh_lock_free p k s"
  obtains s' r where "rt_memheap_alloc p sz (k, s) = Some (k, s', MRet r)" "mh_alloc_answer p (mh_request sz) s L fs s' r"
proof -
  let ?w = "mh_request sz"
  have ty: "p \<noteq> 0" "rt_object_get_type k (OMemHeap p) = RT_Object_Class_MemHeap"
    using lk by (simp_all add: mh_lock_free_def rt_object_get_type_def)
  show thesis
  proof (cases "?w < mh_available (mheap s p)")
    case False
    have "MEMITEM_SIZE s a < ?w \<or> mh_available (mheap s p) = ?w" if "a \<in> set fs" for a
      using free_block_le[OF rep that] False by linarith
    moreover have "rt_memheap_alloc p sz (k, s) = Some (k, s, MRet 0)"
      using ty False by (simp add: rt_memheap_alloc_def Let_def)
    ultimately show thesis by (intro that[of s 0]) (simp_all add: mh_alloc_answer_def)
  next
    case True
    have "0 < ?w" using mh_request_ge(2)[of sz] by linarith
    then obtain s' r where a: "alloc_locked p ?w s = Some (s', r)" "mh_alloc_result p ?w s L fs s' r"
      using alloc_locked_effect[OF rep _ mh_request_dvd] by blast
    have l: "mh_lock (mheap s' p) = mh_lock (mheap s p)"
      using a(2) by (cases "r = 0") (auto simp: mh_alloc_result_def mh_frame_def)
    let ?rest = "\<lambda>(k, s). do { (s, r) \<leftarrow> alloc_locked p ?w s; k \<leftarrow> mh_unlock p k s; Some (k, s, MRet r) }"
    obtain k1 where k1: "mh_locked p ?rest (k, s) = ?rest (k1, s)" "mh_unlock p k1 s' = Some k"
      by (rule mh_locked_free[OF lk, of ?rest]) (use l in blast)
    have "rt_memheap_alloc p sz (k, s) = Some (k, s', MRet r)"
      using ty True k1 a(1) by (simp add: rt_memheap_alloc_def Let_def)
    moreover have "mh_alloc_answer p ?w s L fs s' r"
      using a(2) by (cases "r = 0") (simp_all add: mh_alloc_answer_def mh_alloc_result_def)
    ultimately show thesis by (rule that)
  qed
qed

lemma mh_free_effect:
  assumes rep: "mh_rep p s L fs" and lk: "mh_lock_free p k s" and a: "(ptr, m) \<in> areas s L"
  obtains s' L' fs' where "rt_memheap_free ptr (k, s) = Some (k, s', MRet 0)" "mh_rep p s' L' fs'" "mh_frame p s s'"
    "areas s' L' = areas s L - {(ptr, m)}"
proof -
  obtain us h c vs where h: "L = us @ h # c # vs" "ptr = h + RT_MEMHEAP_SIZE" "RT_MEMHEAP_IS_USED s h" "MEMITEM_SIZE s h = m"
    "h \<noteq> last L" "sub32 ptr RT_MEMHEAP_SIZE = h" "mi_next (item s h) = c" by (rule mh_area[OF rep a])
  have hc: "h \<in> set L" "c \<in> set L" using h(1) by simp_all
  obtain L' fs' where f: "mh_rep p (free_mh_locked p h s) L' fs'" "mh_frame p s (free_mh_locked p h s)"
    "areas (free_mh_locked p h s) L' = areas s L - {(ptr, m)}"
    using free_mh_locked_effect[OF rep hc(1) h(3,5)] h(2,4) by blast
  let ?rest = "\<lambda>(k, s). do { let s = free_mh_locked p h s; k \<leftarrow> mh_unlock p k s; Some (k, s, MRet 0) }"
  have l: "mh_lock (mheap (free_mh_locked p h s) p) = mh_lock (mheap s p)" using f(2) by (simp add: mh_frame_def)
  obtain k1 where k1: "mh_locked p ?rest (k, s) = ?rest (k1, s)" "mh_unlock p k1 (free_mh_locked p h s) = Some k"
    by (rule mh_locked_free[OF lk, of ?rest]) (use l in blast)
  have i: "item_ok p s h" "item_ok p s c" using mh_repD(4)[OF rep] hc by blast+
  then have "mi_pool (item s h) = p" "mi_magic (item s h) AND RT_MEMHEAP_MASK = RT_MEMHEAP_MAGIC"
    "mi_magic (item s c) AND RT_MEMHEAP_MASK = RT_MEMHEAP_MAGIC" by (auto simp: item_ok_def)
  moreover have "mi_magic (item s h) AND RT_MEMHEAP_USED \<noteq> 0" using h(3) by (simp add: RT_MEMHEAP_IS_USED_def)
  moreover have "p \<noteq> 0" "rt_object_get_type k (OMemHeap p) = RT_Object_Class_MemHeap"
    using lk by (simp_all add: mh_lock_free_def rt_object_get_type_def)
  moreover have "ptr \<noteq> 0" using h(2) by (simp add: memheap_consts)
  ultimately have "rt_memheap_free ptr (k, s) = Some (k, free_mh_locked p h s, MRet 0)"
    using h(6,7) k1 by (simp add: rt_memheap_free_def Let_def)
  then show thesis using f by (rule that)
qed

section \<open>Resizing\<close>

lemma mh_rep_bytes:
  "mh_tab s' = mh_tab s \<Longrightarrow> mh_item s' = mh_item s \<Longrightarrow> mh_rep p s' L fs = mh_rep p s L fs"
  "mh_tab s' = mh_tab s \<Longrightarrow> mh_item s' = mh_item s \<Longrightarrow> areas s' L = areas s L"
proof -
  assume e: "mh_tab s' = mh_tab s" "mh_item s' = mh_item s"
  have "block_links s' = block_links s" "free_links s' = free_links s" "RT_MEMHEAP_IS_USED s' = RT_MEMHEAP_IS_USED s"
    "item_ok p s' = item_ok p s"
    using e by (simp_all add: block_links_def free_links_def RT_MEMHEAP_IS_USED_def item_ok_def fun_eq_iff)
  then show "mh_rep p s' L fs = mh_rep p s L fs" "areas s' L = areas s L" using e by (simp_all add: mh_rep_def areas_def)
qed

lemma mh_copy_sel [simp]:
  "mh_tab (mh_copy d a n s) = mh_tab s" "mh_item (mh_copy d a n s) = mh_item s"
  "mh_tab (mh_fill d c n s) = mh_tab s" "mh_item (mh_fill d c n s) = mh_item s"
  by (simp_all add: mh_copy_def mh_fill_def)

lemma expand_cases:
  assumes rep: "mh_rep p s L fs" and L: "L = us @ h # c # vs" and hu: "RT_MEMHEAP_IS_USED s h"
    and old: "oldsize = c - h - RT_MEMHEAP_SIZE" "oldsize < want" and al: "RT_ALIGN_SIZE dvd want"
    and w: "want + RT_MEMHEAP_MINIALLOC < 2 ^ 32"
  obtains (grown) s' L' fs' where "expand_locked p h want oldsize s = Some (s', True)" "mh_rep p s' L' fs'" "mh_frame p s s'"
      "areas s' L' = insert (h + RT_MEMHEAP_SIZE, want) (areas s L - {(h + RT_MEMHEAP_SIZE, oldsize)})"
  | (kept) "expand_locked p h want oldsize s = Some (s, False)"
proof -
  note d = mh_repD[OF rep]
  have nx: "mi_next (item s h) = c" using cycle_next[of "block_links s" us h c vs] d(1) L by simp
  have g: "h + RT_MEMHEAP_SIZE \<le> c" using d(3) by (simp add: L sorted_wrt_append)
  then have hc: "h < c" by (simp add: memheap_consts)
  show thesis
  proof (cases "RT_MEMHEAP_IS_USED s c")
    case True
    then show thesis using nx hc by (intro kept) (simp add: expand_locked_def Let_def rt_assert_def)
  next
    case False
    then obtain c' vs' where v: "vs = c' # vs'" using d(5) L by (cases vs) auto
    have g': "c + RT_MEMHEAP_SIZE \<le> c'" using d(3) by (simp add: L v sorted_wrt_append)
    have "mi_next (item s c) = c'" using cycle_next[of "block_links s" "us @ [h]" c c' vs'] d(1) L v by simp
    then have sz: "MEMITEM_SIZE s c = c' - c - RT_MEMHEAP_SIZE" using g' by (simp add: MEMITEM_SIZE_def sub32_def)
    have "c' + RT_MEMHEAP_SIZE \<le> 2 ^ 32" using spaced_bounds[OF d(3), of c'] d(12) L v by simp
    then have a: "add32 (MEMITEM_SIZE s c) oldsize = c' - c - RT_MEMHEAP_SIZE + oldsize"
      "add32 want RT_MEMHEAP_MINIALLOC = want + RT_MEMHEAP_MINIALLOC"
      using sz g g' w old by (simp_all add: add32_small memheap_consts)
    show thesis
    proof (cases "want + RT_MEMHEAP_MINIALLOC < (c' - c - RT_MEMHEAP_SIZE) + oldsize")
      case True
      from expand_effect[OF rep L[unfolded v] hu False old True al] show thesis using grown by blast
    next
      case no: False
      then show thesis using nx hc False a by (intro kept) (simp add: expand_locked_def Let_def rt_assert_def)
    qed
  qed
qed

text \<open>The answer of a resizing call: null and nothing changed, or an area that takes the place of the old
  one, with its contents up to the smaller size; no byte outside it is written.\<close>

definition mh_resized :: "nat \<Rightarrow> nat \<Rightarrow> nat \<Rightarrow> nat \<Rightarrow> memheaps \<Rightarrow> nat list \<Rightarrow> memheaps \<Rightarrow> nat \<Rightarrow> bool" where
  "mh_resized p ptr m want s L s' r \<longleftrightarrow>
     (if r = 0 then s' = s
      else \<exists>L' fs' n. mh_rep p s' L' fs' \<and> want \<le> n \<and> RT_ALIGN_SIZE dvd r \<and>
        areas s' L' = insert (r, n) (areas s L - {(ptr, m)}) \<and> (r, n) \<notin> areas s L - {(ptr, m)} \<and>
        (\<forall>i < min m want. mh_byte s' (r + i) = mh_byte s (ptr + i)) \<and>
        (\<forall>x. x < r \<or> r + n \<le> x \<longrightarrow> mh_byte s' x = mh_byte s x) \<and>
        mh_frame p s (s'\<lparr>mh_byte := mh_byte s\<rparr>))"

lemma mh_frame_bytes: "mh_frame p s s' \<Longrightarrow> mh_frame p s (s'\<lparr>mh_byte := mh_byte s\<rparr>)"
  by (simp add: mh_frame_def)

lemma mh_move_effect:
  assumes rep: "mh_rep p s L fs" and lk: "mh_lock_free p k s" and a: "(ptr, m) \<in> areas s L" and w: "mh_request want = want" "m < want"
  obtains s' r where "mh_then (rt_memheap_alloc p want) (\<lambda>new (k, s).
      if new \<noteq> 0 then mh_then (rt_memheap_free ptr) (\<lambda>_. mh_return new) (k, mh_copy new ptr (if m < want then m else want) s)
      else Some (k, s, MRet 0)) (k, s) = Some (k, s', MRet r)" "mh_resized p ptr m want s L s' r"
proof -
  obtain s1 r where al: "rt_memheap_alloc p want (k, s) = Some (k, s1, MRet r)" "mh_alloc_answer p want s L fs s1 r"
    by (rule mh_alloc_effect[OF rep lk, of want]) (simp add: w(1))
  show thesis
  proof (cases "r = 0")
    case True
    then show thesis using al by (intro that[of s 0]) (simp_all add: mh_alloc_answer_def mh_resized_def)
  next
    case False
    then obtain L1 fs1 n where n: "mh_rep p s1 L1 fs1" "want \<le> n" "RT_ALIGN_SIZE dvd r" "(r, n) \<notin> areas s L"
      "areas s1 L1 = insert (r, n) (areas s L)" "mh_frame p s s1"
      using al(2) by (auto simp: mh_alloc_answer_def)
    let ?s2 = "mh_copy r ptr m s1"
    have rep2: "mh_rep p ?s2 L1 fs1" "areas ?s2 L1 = insert (r, n) (areas s L)" using n(1,5) by (simp_all add: mh_rep_bytes[of ?s2 s1])
    have "mh_lock_free p k s1" using mh_lock_free_frame[OF n(6)] lk by blast
    then have lk2: "mh_lock_free p k ?s2" by (simp add: mh_lock_free_def)
    have "(ptr, m) \<in> areas ?s2 L1" using a rep2(2) by simp
    from mh_free_effect[OF rep2(1) lk2 this] obtain s3 L3 fs3 where
      f: "rt_memheap_free ptr (k, ?s2) = Some (k, s3, MRet 0)" "mh_rep p s3 L3 fs3" "mh_frame p ?s2 s3"
        "areas s3 L3 = areas ?s2 L1 - {(ptr, m)}" by blast
    have ar: "areas s3 L3 = insert (r, n) (areas s L - {(ptr, m)})" using f(4) rep2(2) a n(4) by auto
    have b: "mh_byte s3 = mh_byte ?s2" "mh_byte s1 = mh_byte s" using f(3) n(6) by (simp_all add: mh_frame_def)
    have "mh_byte s3 (r + i) = mh_byte s (ptr + i)" if "i < min m want" for i using that b by (simp add: mh_copy_def)
    moreover have "mh_byte s3 x = mh_byte s x" if "x < r \<or> r + n \<le> x" for x
      using that b n(2) w(2) by (auto simp: mh_copy_def)
    moreover have "mh_frame p s (s3\<lparr>mh_byte := mh_byte s\<rparr>)"
      using n(6) f(3) by (simp add: mh_frame_def mh_span_def)
    ultimately have "mh_resized p ptr m want s L s3 r"
      unfolding mh_resized_def if_not_P[OF False] using f(2) n(2-4) ar by (intro exI[of _ L3] exI[of _ fs3] exI[of _ n]) auto
    moreover have "mh_then (rt_memheap_free ptr) (\<lambda>_. mh_return r) (k, ?s2) = Some (k, s3, MRet r)"
      using f(1) by (simp add: mh_return_def)
    ultimately show thesis using al(1) False w(2) by (intro that[of s3 r]) simp_all
  qed
qed

lemma area_size: "mh_rep p s L fs \<Longrightarrow> (ptr, m) \<in> areas s L \<Longrightarrow> m = MEMITEM_SIZE s (sub32 ptr RT_MEMHEAP_SIZE)"
  by (erule (1) mh_area) simp

lemma mh_resized_in_place:
  assumes "mh_rep p s L fs" "(ptr, m) \<in> areas s L" "mh_rep p s' L' fs'" "mh_frame p s s'"
    "areas s' L' = insert (ptr, n) (areas s L - {(ptr, m)})" "want \<le> n" "RT_ALIGN_SIZE dvd ptr" "ptr \<noteq> 0"
  shows "mh_resized p ptr m want s L s' ptr"
proof -
  have "mh_byte s' = mh_byte s" using assms(4) by (simp add: mh_frame_def)
  moreover have "(ptr, n) \<notin> areas s L - {(ptr, m)}" using area_size[OF assms(1)] assms(2) by blast
  ultimately show ?thesis
    unfolding mh_resized_def if_not_P[OF assms(8)] using assms(3,5-7) mh_frame_bytes[OF assms(4)]
    by (intro exI[of _ L'] exI[of _ fs'] exI[of _ n]) simp
qed

lemma mh_realloc_effect:
  assumes rep: "mh_rep p s L fs" and lk: "mh_lock_free p k s" and a: "(ptr, m) \<in> areas s L"
    and sz: "0 < sz" "mh_request sz + RT_MEMHEAP_MINIALLOC < 2 ^ 32"
  obtains s' r where "rt_memheap_realloc p ptr sz (k, s) = Some (k, s', MRet r)" "mh_resized p ptr m (mh_request sz) s L s' r"
proof -
  let ?w = "mh_request sz"
  obtain us h c vs where h: "L = us @ h # c # vs" "ptr = h + RT_MEMHEAP_SIZE" "m = c - h - RT_MEMHEAP_SIZE" "h + RT_MEMHEAP_SIZE \<le> c"
    "RT_MEMHEAP_IS_USED s h" "MEMITEM_SIZE s h = m" "h \<noteq> last L" "sub32 ptr RT_MEMHEAP_SIZE = h" "mi_next (item s h) = c"
    "c + RT_MEMHEAP_SIZE \<le> 2 ^ 32" by (rule mh_area[OF rep a])
  have p0: "ptr \<noteq> 0" using h(2) by (simp add: memheap_consts)
  have "item_ok p s h" using mh_repD(4)[OF rep] h(1) by simp
  then have al: "RT_ALIGN_SIZE dvd ptr" by (simp add: h(2) item_ok_def memheap_consts RT_ALIGN_SIZE_def)
  have ty: "p \<noteq> 0" "rt_object_get_type k (OMemHeap p) = RT_Object_Class_MemHeap"
    using lk by (simp_all add: mh_lock_free_def rt_object_get_type_def)
  have e: "rt_memheap_realloc p ptr sz (k, s) =
     (if m < ?w then realloc_grow p ptr ?w m (k, s)
      else if add32 (add32 ?w RT_MEMHEAP_SIZE) RT_MEMHEAP_MINIALLOC \<ge> m then Some (k, s, MRet ptr)
      else mh_locked p (\<lambda>(k, s). do {
           let s = shrink_locked p h ?w s; k \<leftarrow> mh_unlock p k s; Some (k, s, MRet ptr) }) (k, s))"
    using ty sz(1) p0 h(6,8) by (simp add: rt_memheap_realloc_def Let_def)
  consider (grow) "m < ?w" | (keep) "\<not> m < ?w" "add32 (add32 ?w RT_MEMHEAP_SIZE) RT_MEMHEAP_MINIALLOC \<ge> m"
    | (shrink) "\<not> m < ?w" "\<not> add32 (add32 ?w RT_MEMHEAP_SIZE) RT_MEMHEAP_MINIALLOC \<ge> m" by blast
  then show thesis
  proof cases
    case keep
    have "insert (ptr, m) (areas s L - {(ptr, m)}) = areas s L" using a by blast
    then have "mh_resized p ptr m ?w s L s ptr"
      using keep by (intro mh_resized_in_place[OF rep a rep _ _ _ al p0, of m]) (simp_all add: mh_frame_def)
    then show thesis using e keep by (intro that[of s ptr]) simp_all
  next
    case shrink
    have "?w + RT_MEMHEAP_SIZE \<le> c - h - RT_MEMHEAP_SIZE"
      using shrink h(3,4,10) by (simp add: add32_small memheap_consts)
    from shrink_effect[OF rep h(1,5) this mh_request_dvd] obtain L' fs' where
      r: "mh_rep p (shrink_locked p h ?w s) L' fs'" "mh_frame p s (shrink_locked p h ?w s)"
        "areas (shrink_locked p h ?w s) L' = insert (ptr, ?w) (areas s L - {(ptr, m)})"
      unfolding h(2,3)[symmetric] by blast
    let ?rest = "\<lambda>(k, s). do { let s = shrink_locked p h ?w s; k \<leftarrow> mh_unlock p k s; Some (k, s, MRet ptr) }"
    have l: "mh_lock (mheap (shrink_locked p h ?w s) p) = mh_lock (mheap s p)" using r(2) by (simp add: mh_frame_def)
    obtain k1 where k1: "mh_locked p ?rest (k, s) = ?rest (k1, s)" "mh_unlock p k1 (shrink_locked p h ?w s) = Some k"
      by (rule mh_locked_free[OF lk, of ?rest]) (use l in blast)
    have "rt_memheap_realloc p ptr sz (k, s) = Some (k, shrink_locked p h ?w s, MRet ptr)"
      using e shrink k1 by simp
    then show thesis using mh_resized_in_place[OF rep a r _ al p0, of ?w] by (rule that) simp
  next
    case grow
    let ?move = "mh_then (rt_memheap_alloc p ?w) (\<lambda>new (k, s).
      if new \<noteq> 0 then mh_then (rt_memheap_free ptr) (\<lambda>_. mh_return new) (k, mh_copy new ptr (if m < ?w then m else ?w) s)
      else Some (k, s, MRet 0))"
    let ?rest = "\<lambda>(k, s). do {
       (s, ok) \<leftarrow> expand_locked p h ?w m s; k \<leftarrow> mh_unlock p k s; if ok then Some (k, s, MRet ptr) else ?move (k, s) }"
    have g: "realloc_grow p ptr ?w m (k, s) = mh_locked p ?rest (k, s)" unfolding realloc_grow_def h(8) ..
    show thesis
    proof (cases rule: expand_cases[OF rep h(1,5,3) grow mh_request_dvd sz(2)])
      case (1 s' L' fs')
      have l: "mh_lock (mheap s' p) = mh_lock (mheap s p)" using 1(3) by (simp add: mh_frame_def)
      obtain k1 where k1: "mh_locked p ?rest (k, s) = ?rest (k1, s)" "mh_unlock p k1 s' = Some k"
        by (rule mh_locked_free[OF lk, of ?rest]) (use l in blast)
      have "rt_memheap_realloc p ptr sz (k, s) = Some (k, s', MRet ptr)" using e grow g k1 1(1) by simp
      then show thesis using mh_resized_in_place[OF rep a 1(2,3) 1(4)[folded h(2)] _ al p0, of ?w] by (rule that) simp
    next
      case 2
      obtain k1 where k1: "mh_locked p ?rest (k, s) = ?rest (k1, s)" "mh_unlock p k1 s = Some k"
        by (rule mh_locked_free[OF lk, of ?rest]) blast
      have "rt_memheap_realloc p ptr sz (k, s) = ?move (k, s)" using e grow g k1 2 by simp
      moreover obtain s' r where "?move (k, s) = Some (k, s', MRet r)" "mh_resized p ptr m ?w s L s' r"
        by (rule mh_move_effect[OF rep lk a mh_request_idem grow]) blast
      ultimately show thesis by (intro that[of s' r]) simp_all
    qed
  qed
qed

end
