(* ===== verification/Memheap_System.thy ===== *)
theory Memheap_System
  imports Memheap_Calls
begin

text \<open>
  The memory calls of the system over all registered heaps of \<^verbatim>\<open>src/memheap.c\<close>: the heaps lie apart, each
  keeps its invariant, and together they are one allocator of disjoint areas.
\<close>

section \<open>Heaps that lie apart\<close>

lemma mh_rep_outside:
  assumes rep: "mh_rep q s L fs" and t: "mheap s' q = mheap s q" and i: "\<And>a. a \<in> mh_span q s \<Longrightarrow> item s' a = item s a"
  shows "mh_rep q s' L fs" "areas s' L = areas s L"
proof -
  note d = mh_repD[OF rep]
  have i: "item s' a = item s a" if "a \<in> set (mh_free_list (mheap s q) # L)" for a
    using i mh_rep_span(1)[OF rep] that by blast
  have fs: "set fs \<subseteq> set L" using d(8) by auto
  have u: "RT_MEMHEAP_IS_USED s' a = RT_MEMHEAP_IS_USED s a" if "a \<in> set L" for a using i that by (simp add: RT_MEMHEAP_IS_USED_def)
  have ok: "\<forall>a \<in> set L. item_ok q s' a" using d(4) i by (simp add: item_ok_def)
  have cyc: "cycle (block_links s') L" by (rule cycle_cong[OF d(1)]) (use i in simp)
  have ring: "is_ring (free_links s') (mh_free_list (mheap s q)) fs" by (rule ring_frame[OF d(7)]) (use i fs in auto)
  have b: "a \<in> set L" if "a \<in> set (butlast L)" for a using that by (rule in_set_butlastD)
  have fb: "free_bytes (\<lambda>a. \<not> RT_MEMHEAP_IS_USED s' a) L = free_bytes (\<lambda>a. \<not> RT_MEMHEAP_IS_USED s a) L"
    by (rule free_bytes_cong) (use u b in blast)
  have adj: "successively (\<lambda>a b. RT_MEMHEAP_IS_USED s' a \<or> RT_MEMHEAP_IS_USED s' b) L"
    by (rule adjacent_mono[OF d(6)]) (use u in blast)
  have last: "last L \<in> set L" using d(2) by (cases L) auto
  show "mh_rep q s' L fs"
    unfolding mh_rep_def t fb using d(2,3,5,8-15) ok cyc ring adj u last by auto
  show "areas s' L = areas s L" unfolding areas_def by (rule used_areas_cong) (use u b in blast)
qed

lemma mh_rep_other:
  assumes "mh_rep q s L fs" "mh_frame p s s'" "q \<noteq> p" "mh_span p s \<inter> mh_span q s = {}"
  shows "mh_rep q s' L fs" "areas s' L = areas s L"
  using mh_rep_outside[OF assms(1), of s'] assms(2-4) by (auto simp: mh_frame_def)

lemma mh_frame_span: "mh_frame p s s' \<Longrightarrow> mh_span q s' = mh_span q s"
  by (cases "q = p") (simp_all add: mh_frame_def mh_span_def)

section \<open>The registered heaps\<close>

definition heaps_of :: "kernel \<Rightarrow> nat set" where
  "heaps_of k = {p. OMemHeap p \<in> set (k_containers k RT_Object_Class_MemHeap)}"

type_synonym mh_layout = "nat \<Rightarrow> nat list \<times> nat list"

definition mh_all :: "kernel \<Rightarrow> memheaps \<Rightarrow> mh_layout \<Rightarrow> bool" where
  "mh_all k s R \<longleftrightarrow> distinct (k_containers k RT_Object_Class_MemHeap) \<and>
     (\<forall>ob \<in> set (k_containers k RT_Object_Class_MemHeap). \<exists>p. ob = OMemHeap p) \<and>
     (\<forall>p \<in> heaps_of k. mh_rep p s (fst (R p)) (snd (R p)) \<and> mh_lock_free p k s) \<and>
     (\<forall>p \<in> heaps_of k. \<forall>q \<in> heaps_of k. p \<noteq> q \<longrightarrow> mh_span p s \<inter> mh_span q s = {})"

definition all_areas :: "kernel \<Rightarrow> memheaps \<Rightarrow> mh_layout \<Rightarrow> (nat \<times> nat) set" where
  "all_areas k s R = (\<Union>p \<in> heaps_of k. areas s (fst (R p)))"

lemma mh_allD:
  assumes "mh_all k s R"
  shows "distinct (k_containers k RT_Object_Class_MemHeap)"
    "ob \<in> set (k_containers k RT_Object_Class_MemHeap) \<Longrightarrow> \<exists>p. ob = OMemHeap p"
    "p \<in> heaps_of k \<Longrightarrow> mh_rep p s (fst (R p)) (snd (R p))" "p \<in> heaps_of k \<Longrightarrow> mh_lock_free p k s"
    "p \<in> heaps_of k \<Longrightarrow> q \<in> heaps_of k \<Longrightarrow> p \<noteq> q \<Longrightarrow> mh_span p s \<inter> mh_span q s = {}"
  using assms unfolding mh_all_def by blast+

lemma all_areas_split:
  "p \<in> heaps_of k \<Longrightarrow> all_areas k s R = areas s (fst (R p)) \<union> (\<Union>q \<in> heaps_of k - {p}. areas s (fst (R q)))"
  by (auto simp: all_areas_def)

text \<open>An operation on one heap leaves the others.\<close>

lemma mh_all_step:
  assumes all: "mh_all k s R" and p: "p \<in> heaps_of k" and rep: "mh_rep p s' L' fs'" and fr: "mh_frame p s s'"
  shows "mh_all k s' (R(p := (L', fs')))"
    "all_areas k s' (R(p := (L', fs'))) = areas s' L' \<union> (\<Union>q \<in> heaps_of k - {p}. areas s (fst (R q)))"
proof -
  note d = mh_allD[OF all]
  have o: "mh_rep q s' (fst (R q)) (snd (R q)) \<and> areas s' (fst (R q)) = areas s (fst (R q))" if "q \<in> heaps_of k" "q \<noteq> p" for q
    using mh_rep_other[OF d(3)[OF that(1)] fr that(2)] d(5)[OF p that(1)] that(2) by blast
  have lk: "mh_lock_free q k s'" if "q \<in> heaps_of k" for q
    using d(4)[OF that] fr by (cases "q = p") (simp_all add: mh_lock_free_def mh_frame_def)
  show "mh_all k s' (R(p := (L', fs')))"
    unfolding mh_all_def mh_frame_span[OF fr] using d(1,2,5) o lk rep by auto
  have "(\<Union>q \<in> heaps_of k - {p}. areas s' (fst ((R(p := (L', fs'))) q))) = (\<Union>q \<in> heaps_of k - {p}. areas s (fst (R q)))"
    by (rule SUP_cong) (use o in auto)
  then show "all_areas k s' (R(p := (L', fs'))) = areas s' L' \<union> (\<Union>q \<in> heaps_of k - {p}. areas s (fst (R q)))"
    unfolding all_areas_split[OF p] by simp
qed

text \<open>Areas of different heaps lie apart as well.\<close>

lemma area_in_span:
  assumes rep: "mh_rep p s L fs" and a: "(ptr, m) \<in> areas s L"
  shows "mh_start (mheap s p) < ptr" "ptr + m + RT_MEMHEAP_SIZE \<le> mh_start (mheap s p) + mh_pool_size (mheap s p)"
proof -
  obtain us h c vs where h: "L = us @ h # c # vs" "ptr = h + RT_MEMHEAP_SIZE" "m = c - h - RT_MEMHEAP_SIZE" "h + RT_MEMHEAP_SIZE \<le> c"
    by (rule mh_area[OF rep a])
  note d = mh_repD[OF rep]
  have "hd L \<le> h" "c \<le> last L" using spaced_bounds[OF d(3), of h] spaced_bounds[OF d(3), of c] h(1) by simp_all
  then show "mh_start (mheap s p) < ptr" "ptr + m + RT_MEMHEAP_SIZE \<le> mh_start (mheap s p) + mh_pool_size (mheap s p)"
    using h(2-4) d(9,11) by (simp_all add: memheap_consts)
qed

lemma spans_apart:
  assumes "mh_span p s \<inter> mh_span q s = {}" "0 < mh_pool_size (mheap s p)" "0 < mh_pool_size (mheap s q)"
  shows "mh_start (mheap s p) + mh_pool_size (mheap s p) \<le> mh_start (mheap s q) \<or>
    mh_start (mheap s q) + mh_pool_size (mheap s q) \<le> mh_start (mheap s p)"
proof (rule ccontr)
  assume n: "\<not> ?thesis"
  let ?m = "max (mh_start (mheap s p)) (mh_start (mheap s q))"
  have "?m \<in> mh_span p s" "?m \<in> mh_span q s" using n assms(2,3) by (auto simp: mh_span_def)
  then show False using assms(1) by blast
qed

lemma other_area_apart:
  assumes all: "mh_all k s R" and p: "p \<in> heaps_of k" "q \<in> heaps_of k" "p \<noteq> q"
    and a: "x \<in> areas s (fst (R p))" "y \<in> areas s (fst (R q))"
  shows "apart x y"
proof -
  note d = mh_allD[OF all]
  obtain xa xn ya yn where e: "x = (xa, xn)" "y = (ya, yn)" by (cases x; cases y)
  have "0 < mh_pool_size (mheap s h)" if "h \<in> heaps_of k" for h
    using mh_available_le[OF d(3)[OF that]] by (simp add: memheap_consts)
  from spans_apart[OF d(5)[OF p] this[OF p(1)] this[OF p(2)]] show ?thesis
    using area_in_span[OF d(3)[OF p(1)] a(1)[unfolded e]] area_in_span[OF d(3)[OF p(2)] a(2)[unfolded e]]
    by (auto simp: apart_def e)
qed

lemma all_areas_apart:
  assumes all: "mh_all k s R" and a: "x \<in> all_areas k s R" "y \<in> all_areas k s R" "x \<noteq> y"
  shows "apart x y"
proof -
  obtain p q where pq: "p \<in> heaps_of k" "q \<in> heaps_of k" "x \<in> areas s (fst (R p))" "y \<in> areas s (fst (R q))"
    using a(1,2) by (auto simp: all_areas_def)
  then show ?thesis using areas_apart[OF mh_allD(3)[OF all]] other_area_apart[OF all] a(3) by (cases "p = q") blast+
qed

section \<open>Allocation\<close>

text \<open>Null from every heap asked, or an answer from one of them.\<close>

definition mh_malloc_answer :: "kernel \<Rightarrow> nat set \<Rightarrow> nat \<Rightarrow> memheaps \<Rightarrow> mh_layout \<Rightarrow> memheaps \<Rightarrow> nat \<Rightarrow> bool" where
  "mh_malloc_answer k H want s R s' r \<longleftrightarrow>
     (if r = 0 then s' = s \<and> (\<forall>p \<in> H. mh_alloc_answer p want s (fst (R p)) (snd (R p)) s 0)
      else \<exists>p \<in> heaps_of k. mh_alloc_answer p want s (fst (R p)) (snd (R p)) s' r)"

lemma malloc_others_effect:
  assumes all: "mh_all k s R" and "k_containers k RT_Object_Class_MemHeap = pre @ obs"
  shows "\<exists>s' r. malloc_others sz obs (k, s) = Some (k, s', MRet r) \<and>
    mh_malloc_answer k {p. OMemHeap p \<in> set obs \<and> p \<noteq> sys_heap} (mh_request sz) s R s' r"
  using assms(2)
proof (induction obs arbitrary: pre)
  case Nil
  then show ?case by (simp add: mh_return_def mh_malloc_answer_def)
next
  case (Cons ob obs)
  note d = mh_allD[OF all]
  obtain p where p: "ob = OMemHeap p" using d(2)[of ob] Cons.prems by auto
  have h: "p \<in> heaps_of k" using Cons.prems p by (simp add: heaps_of_def)
  have ty: "p \<noteq> 0" "rt_object_get_type k (OMemHeap p) = RT_Object_Class_MemHeap"
    using d(4)[OF h] by (simp_all add: mh_lock_free_def rt_object_get_type_def)
  obtain s1 r1 where rest: "malloc_others sz obs (k, s) = Some (k, s1, MRet r1)"
    "mh_malloc_answer k {p. OMemHeap p \<in> set obs \<and> p \<noteq> sys_heap} (mh_request sz) s R s1 r1"
    using Cons.IH[of "pre @ [ob]"] Cons.prems by auto
  show ?case
  proof (cases "p = sys_heap")
    case True
    then have "malloc_others sz (ob # obs) (k, s) = Some (k, s1, MRet r1)" using rest(1) ty p by simp
    moreover have "{q. OMemHeap q \<in> set (ob # obs) \<and> q \<noteq> sys_heap} = {q. OMemHeap q \<in> set obs \<and> q \<noteq> sys_heap}"
      using True p by auto
    ultimately show ?thesis using rest(2) by metis
  next
    case False
    obtain s' r where a: "rt_memheap_alloc p sz (k, s) = Some (k, s', MRet r)"
      "mh_alloc_answer p (mh_request sz) s (fst (R p)) (snd (R p)) s' r" by (rule mh_alloc_effect[OF d(3,4)[OF h]])
    show ?thesis
    proof (cases "r = 0")
      case nz: False
      then show ?thesis using a h ty False p by (intro exI[of _ s'] exI[of _ r]) (auto simp: mh_malloc_answer_def)
    next
      case True
      then have s': "s' = s" using a(2) by (simp add: mh_alloc_answer_def)
      have "OMemHeap p \<notin> set pre" using d(1) Cons.prems p by auto
      then have "tl (dropWhile (\<lambda>ob. ob \<noteq> OMemHeap p) (k_containers k RT_Object_Class_MemHeap)) = obs"
        using Cons.prems p by (subst Cons.prems, subst dropWhile_append2) auto
      then have "malloc_others sz (ob # obs) (k, s) = Some (k, s1, MRet r1)"
        using a(1) True s' rest(1) ty False p by simp
      moreover have "mh_malloc_answer k {q. OMemHeap q \<in> set (ob # obs) \<and> q \<noteq> sys_heap} (mh_request sz) s R s1 r1"
        using rest(2) a(2) True s' p by (auto simp: mh_malloc_answer_def)
      ultimately show ?thesis by blast
    qed
  qed
qed

lemma mh_malloc_effect:
  assumes all: "mh_all k s R" and sys: "sys_heap \<in> heaps_of k"
  obtains s' r where "rt_malloc_mh sz (k, s) = Some (k, s', MRet r)"
    "mh_malloc_answer k (heaps_of k) (mh_request sz) s R s' r"
proof -
  note d = mh_allD[OF all]
  obtain s1 r1 where a: "rt_memheap_alloc sys_heap sz (k, s) = Some (k, s1, MRet r1)"
    "mh_alloc_answer sys_heap (mh_request sz) s (fst (R sys_heap)) (snd (R sys_heap)) s1 r1"
    by (rule mh_alloc_effect[OF d(3,4)[OF sys]])
  show thesis
  proof (cases "r1 = 0")
    case False
    then show thesis using a sys by (intro that[of s1 r1]) (auto simp: rt_malloc_mh_def mh_malloc_answer_def)
  next
    case True
    then have s1: "s1 = s" using a(2) by (simp add: mh_alloc_answer_def)
    obtain s' r where o: "malloc_others sz (k_containers k RT_Object_Class_MemHeap) (k, s) = Some (k, s', MRet r)"
      "mh_malloc_answer k {p. OMemHeap p \<in> set (k_containers k RT_Object_Class_MemHeap) \<and> p \<noteq> sys_heap} (mh_request sz) s R s' r"
      using malloc_others_effect[OF all append_Nil[symmetric]] by blast
    have "rt_object_get_information RT_Object_Class_MemHeap = Some RT_Object_Class_MemHeap"
      by (simp add: get_information_iff container_classes_def)
    then have "rt_malloc_mh sz (k, s) = Some (k, s', MRet r)" using a(1) True s1 o(1) by (simp add: rt_malloc_mh_def)
    moreover have "mh_malloc_answer k (heaps_of k) (mh_request sz) s R s' r"
      using o(2) a(2) True s1 by (cases "r = 0") (auto simp: mh_malloc_answer_def heaps_of_def)
    ultimately show thesis by (rule that)
  qed
qed

section \<open>One allocator of disjoint areas\<close>

lemma area_owner:
  assumes all: "mh_all k s R" and p: "p \<in> heaps_of k" "q \<in> heaps_of k"
    and a: "(ptr, m) \<in> areas s (fst (R p))" "(ptr, n) \<in> areas s (fst (R q))"
  shows "p = q"
proof (rule ccontr)
  assume ne: "p \<noteq> q"
  note d = mh_allD[OF all]
  have "ptr \<in> mh_span h s" if "h \<in> heaps_of k" "(ptr, l) \<in> areas s (fst (R h))" for h l
    using area_in_span[OF d(3)[OF that(1)] that(2)] by (simp add: mh_span_def memheap_consts)
  then show False using d(5)[OF p ne] p a by blast
qed

lemma mh_sys_malloc:
  assumes all: "mh_all k s R" and sys: "sys_heap \<in> heaps_of k" and sz: "sz \<le> 2 ^ 32 - 4"
  obtains s' where "rt_malloc_mh sz (k, s) = Some (k, s', MRet 0)" "s' = s"
      "\<forall>p \<in> heaps_of k. \<forall>a \<in> set (snd (R p)). MEMITEM_SIZE s a < mh_request sz \<or> mh_available (mheap s p) = mh_request sz"
  | s' r m R' where "rt_malloc_mh sz (k, s) = Some (k, s', MRet r)" "r \<noteq> 0" "mh_all k s' R'" "sz \<le> m" "0 < m" "RT_ALIGN_SIZE dvd r"
      "all_areas k s' R' = insert (r, m) (all_areas k s R)" "\<forall>a \<in> all_areas k s R. apart (r, m) a" "mh_byte s' = mh_byte s"
proof -
  obtain s' r where a: "rt_malloc_mh sz (k, s) = Some (k, s', MRet r)" "mh_malloc_answer k (heaps_of k) (mh_request sz) s R s' r"
    by (rule mh_malloc_effect[OF all sys])
  show thesis
  proof (cases "r = 0")
    case True
    then show thesis using a by (intro that(1)[of s']) (auto simp: mh_malloc_answer_def mh_alloc_answer_def)
  next
    case False
    then obtain p where p: "p \<in> heaps_of k" "mh_alloc_answer p (mh_request sz) s (fst (R p)) (snd (R p)) s' r"
      using a(2) by (auto simp: mh_malloc_answer_def)
    then obtain L' fs' m where n: "mh_rep p s' L' fs'" "mh_request sz \<le> m" "RT_ALIGN_SIZE dvd r" "(r, m) \<notin> areas s (fst (R p))"
      "areas s' L' = insert (r, m) (areas s (fst (R p)))" "mh_frame p s s'"
      using False by (auto simp: mh_alloc_answer_def)
    let ?R = "R(p := (L', fs'))"
    note st = mh_all_step[OF all p(1) n(1,6)]
    have ar: "all_areas k s' ?R = insert (r, m) (all_areas k s R)"
      unfolding st(2) all_areas_split[OF p(1), of s R] n(5) by simp
    have new: "(r, m) \<in> areas s' (fst (?R p))" using n(5) by simp
    have "(r, m) \<notin> all_areas k s R"
    proof
      assume "(r, m) \<in> all_areas k s R"
      then obtain q where q: "q \<in> heaps_of k" "(r, m) \<in> areas s (fst (R q))" by (auto simp: all_areas_def)
      then have qp: "q \<noteq> p" using n(4) by auto
      have "areas s' (fst (R q)) = areas s (fst (R q))"
        using mh_rep_other(2)[OF mh_allD(3)[OF all q(1)] n(6) qp] mh_allD(5)[OF all p(1) q(1)] qp by blast
      then have "(r, m) \<in> areas s' (fst (?R q))" using q(2) qp by simp
      then show False using area_owner[OF st(1) p(1) q(1) new] qp by blast
    qed
    then have "\<forall>a \<in> all_areas k s R. apart (r, m) a"
      using all_areas_apart[OF st(1), of "(r, m)"] ar by auto
    moreover have "sz \<le> m" "0 < m" using n(2) mh_request_ge(1)[OF sz] mh_request_ge(2)[of sz] by linarith+
    moreover have "mh_byte s' = mh_byte s" using n(6) by (simp add: mh_frame_def)
    ultimately show thesis using that(2)[of s' r ?R m] a(1) False st(1) n(3) ar by blast
  qed
qed

lemma mh_sys_free:
  assumes all: "mh_all k s R" and a: "(ptr, m) \<in> all_areas k s R"
  obtains s' R' where "rt_free_mh ptr (k, s) = Some (k, s', MRet 0)" "mh_all k s' R'"
    "all_areas k s' R' = all_areas k s R - {(ptr, m)}" "mh_byte s' = mh_byte s"
proof -
  note d = mh_allD[OF all]
  obtain p where p: "p \<in> heaps_of k" "(ptr, m) \<in> areas s (fst (R p))" using a by (auto simp: all_areas_def)
  obtain s' L' fs' where f: "rt_memheap_free ptr (k, s) = Some (k, s', MRet 0)" "mh_rep p s' L' fs'" "mh_frame p s s'"
    "areas s' L' = areas s (fst (R p)) - {(ptr, m)}" by (rule mh_free_effect[OF d(3,4)[OF p(1)] p(2)])
  note st = mh_all_step[OF all p(1) f(2,3)]
  have "(ptr, m) \<notin> areas s (fst (R q))" if "q \<in> heaps_of k - {p}" for q
    using area_owner[OF all p(1), of q ptr m m] p(2) that by blast
  then have "all_areas k s' (R(p := (L', fs'))) = all_areas k s R - {(ptr, m)}"
    unfolding st(2) all_areas_split[OF p(1), of s R] f(4) by blast
  moreover have "mh_byte s' = mh_byte s" using f(3) by (simp add: mh_frame_def)
  ultimately show thesis using that f(1) st(1) by (simp add: rt_free_mh_def)
qed

lemma mh_all_bytes:
  assumes "mh_tab s' = mh_tab s" "mh_item s' = mh_item s"
  shows "mh_all k s' R = mh_all k s R" "all_areas k s' R = all_areas k s R"
proof -
  have "mh_lock_free p k s' = mh_lock_free p k s" "mh_span p s' = mh_span p s" for p
    using assms by (simp_all add: mh_lock_free_def mh_span_def)
  then show "mh_all k s' R = mh_all k s R" "all_areas k s' R = all_areas k s R"
    using mh_rep_bytes[OF assms] by (simp_all add: mh_all_def all_areas_def)
qed

definition mh_keeps :: "memheaps \<Rightarrow> memheaps \<Rightarrow> (nat \<times> nat) set \<Rightarrow> bool" where
  "mh_keeps s s' A \<longleftrightarrow> (\<forall>(q, l) \<in> A. \<forall>i < l. mh_byte s' (q + i) = mh_byte s (q + i))"

lemma mh_keeps_outside:
  "(\<forall>x. x < r \<or> r + n \<le> x \<longrightarrow> mh_byte s' x = mh_byte s x) \<Longrightarrow> \<forall>a \<in> A. apart (r, n) a \<Longrightarrow> mh_keeps s s' A"
  by (fastforce simp: mh_keeps_def apart_def)

text \<open>An area of size \<open>n\<close> at \<open>r\<close> has taken the place of \<open>(ptr, m)\<close>.\<close>

definition mh_replaced :: "kernel \<Rightarrow> memheaps \<Rightarrow> mh_layout \<Rightarrow> nat \<Rightarrow> nat \<Rightarrow> nat \<Rightarrow> memheaps \<Rightarrow> mh_layout \<Rightarrow> nat \<Rightarrow> bool" where
  "mh_replaced k s R ptr m sz s' R' r \<longleftrightarrow>
     (\<exists>n \<ge> sz. all_areas k s' R' = insert (r, n) (all_areas k s R - {(ptr, m)}) \<and>
        (\<forall>a \<in> all_areas k s R - {(ptr, m)}. apart (r, n) a)) \<and>
     (\<forall>i < min m sz. mh_byte s' (r + i) = mh_byte s (ptr + i)) \<and> mh_keeps s s' (all_areas k s R - {(ptr, m)})"

lemma mh_request_small: "sz \<le> 2 ^ 32 - 16 \<Longrightarrow> mh_request sz + RT_MEMHEAP_MINIALLOC < 2 ^ 32"
proof -
  assume sz: "sz \<le> 2 ^ 32 - 16"
  then have "align32 sz = RT_ALIGN sz 4" using align32_no_wrap[of sz] by simp
  moreover have "RT_ALIGN sz 4 < sz + 4" "4 dvd RT_ALIGN sz 4" by (simp_all add: RT_ALIGN_less RT_ALIGN_dvd)
  then have "RT_ALIGN sz 4 \<le> 2 ^ 32 - 16" using sz by simp presburger
  ultimately show ?thesis by (simp add: mh_request_def Let_def memheap_consts)
qed

lemma mh_sys_realloc:
  assumes all: "mh_all k s R" and sys: "sys_heap \<in> heaps_of k" and a: "(ptr, m) \<in> all_areas k s R" and sz: "0 < sz" "sz \<le> 2 ^ 32 - 16"
  obtains s' where "rt_realloc_mh ptr sz (k, s) = Some (k, s', MRet 0)" "s' = s"
  | s' r R' where "rt_realloc_mh ptr sz (k, s) = Some (k, s', MRet r)" "r \<noteq> 0" "mh_all k s' R'" "mh_replaced k s R ptr m sz s' R' r"
proof -
  note d = mh_allD[OF all]
  obtain p where p: "p \<in> heaps_of k" "(ptr, m) \<in> areas s (fst (R p))" using a by (auto simp: all_areas_def)
  let ?h = "sub32 ptr RT_MEMHEAP_SIZE"
  obtain us h c vs where h: "fst (R p) = us @ h # c # vs" "ptr = h + RT_MEMHEAP_SIZE" "?h = h" by (rule mh_area[OF d(3)[OF p(1)] p(2)])
  have pool: "mi_pool (item s ?h) = p" using mh_repD(4)[OF d(3)[OF p(1)], of h] h by (simp add: item_ok_def)
  have p0: "ptr \<noteq> 0" using h(2) by (simp add: memheap_consts)
  obtain s1 r1 where r1: "rt_memheap_realloc p ptr sz (k, s) = Some (k, s1, MRet r1)"
    "mh_resized p ptr m (mh_request sz) s (fst (R p)) s1 r1"
    by (rule mh_realloc_effect[OF d(3,4)[OF p(1)] p(2) sz(1) mh_request_small[OF sz(2)]])
  show thesis
  proof (cases "r1 = 0")
    case False
    then obtain L' fs' n where n: "mh_rep p s1 L' fs'" "mh_request sz \<le> n"
      "areas s1 L' = insert (r1, n) (areas s (fst (R p)) - {(ptr, m)})" "(r1, n) \<notin> areas s (fst (R p)) - {(ptr, m)}"
      "\<forall>i < min m (mh_request sz). mh_byte s1 (r1 + i) = mh_byte s (ptr + i)"
      "\<forall>x. x < r1 \<or> r1 + n \<le> x \<longrightarrow> mh_byte s1 x = mh_byte s x" "mh_frame p s (s1\<lparr>mh_byte := mh_byte s\<rparr>)"
      using r1(2) by (auto simp: mh_resized_def)
    let ?s = "s1\<lparr>mh_byte := mh_byte s\<rparr>" and ?R = "R(p := (L', fs'))"
    have "mh_rep p ?s L' fs'" using n(1) mh_rep_bytes(1)[of ?s s1] by simp
    note st = mh_all_step[OF all p(1) this n(7)]
    have all1: "mh_all k s1 ?R" using st(1) mh_all_bytes(1)[of ?s s1] by simp
    have o: "(ptr, m) \<notin> areas s (fst (R q))" if "q \<in> heaps_of k - {p}" for q
      using area_owner[OF all p(1), of q ptr m m] p(2) that by blast
    have ar: "all_areas k s1 ?R = insert (r1, n) (all_areas k s R - {(ptr, m)})"
    proof -
      have "all_areas k s1 ?R = areas s1 L' \<union> (\<Union>q \<in> heaps_of k - {p}. areas s (fst (R q)))"
        using st(2) mh_all_bytes(2)[of ?s s1] mh_rep_bytes(2)[of ?s s1] by simp
      then show ?thesis unfolding n(3) all_areas_split[OF p(1), of s R] using o by blast
    qed
    have "(r1, n) \<notin> all_areas k s R - {(ptr, m)}"
    proof
      assume "(r1, n) \<in> all_areas k s R - {(ptr, m)}"
      then obtain q where q: "q \<in> heaps_of k" "(r1, n) \<in> areas s (fst (R q))" "q \<noteq> p" using n(4) by (auto simp: all_areas_def)
      have "areas ?s (fst (R q)) = areas s (fst (R q))"
        using mh_rep_other(2)[OF d(3)[OF q(1)] n(7) q(3)] d(5)[OF p(1) q(1)] q(3) by blast
      then have "(r1, n) \<in> areas s1 (fst (?R q))" using q(2,3) mh_rep_bytes(2)[of ?s s1] by simp
      moreover have "(r1, n) \<in> areas s1 (fst (?R p))" using n(3) by simp
      ultimately show False using area_owner[OF all1 p(1) q(1)] q(3) by blast
    qed
    then have ap: "\<forall>a \<in> all_areas k s R - {(ptr, m)}. apart (r1, n) a"
      using all_areas_apart[OF all1, of "(r1, n)"] ar by auto
    have le: "sz \<le> mh_request sz" using mh_request_ge(1)[of sz] sz(2) by simp
    have "mh_replaced k s R ptr m sz s1 ?R r1"
      unfolding mh_replaced_def using ar ap n(2,5) le mh_keeps_outside[OF n(6) ap] by (intro conjI exI[of _ n]) simp_all
    moreover have "rt_realloc_mh ptr sz (k, s) = Some (k, s1, MRet r1)"
      using p0 sz(1) r1(1) False by (simp add: rt_realloc_mh_def Let_def pool mh_return_def)
    ultimately show thesis using that(2) False all1 by blast
  next
    case True
    then have s1: "s1 = s" using r1(2) by (simp add: mh_resized_def)
    let ?rest = "\<lambda>new (k, s). if new \<noteq> 0 then
        let oldsize = MEMITEM_SIZE s ?h in
        mh_then (rt_free_mh ptr) (\<lambda>_. mh_return new) (k, mh_copy new ptr (if sz > oldsize then oldsize else sz) s)
      else Some (k, s, MRet 0)"
    have e: "rt_realloc_mh ptr sz (k, s) = mh_then (rt_malloc_mh sz) ?rest (k, s)"
      using p0 sz(1) r1(1) True s1 by (simp add: rt_realloc_mh_def Let_def pool)
    have s32: "sz \<le> 2 ^ 32 - 4" using sz(2) by simp
    show thesis
    proof (cases rule: mh_sys_malloc[OF all sys s32])
      case (1 s2)
      then show thesis using e by (intro that(1)[of s]) simp_all
    next
      case (2 s2 r n R2)
      have a2: "(ptr, m) \<in> all_areas k s2 R2" using a 2(7) by simp
      then have sz2: "MEMITEM_SIZE s2 ?h = m" using area_size mh_allD(3)[OF 2(3)] by (fastforce simp: all_areas_def)
      let ?c = "if sz > m then m else sz"
      let ?s3 = "mh_copy r ptr ?c s2"
      have all3: "mh_all k ?s3 R2" "all_areas k ?s3 R2 = insert (r, n) (all_areas k s R)"
        using 2(3,7) mh_all_bytes[of ?s3 s2] by simp_all
      obtain s4 R4 where f: "rt_free_mh ptr (k, ?s3) = Some (k, s4, MRet 0)" "mh_all k s4 R4"
        "all_areas k s4 R4 = insert (r, n) (all_areas k s R) - {(ptr, m)}" "mh_byte s4 = mh_byte ?s3"
        by (rule mh_sys_free[OF all3(1), of ptr m]) (use all3(2) a in auto)
      have "(r, n) \<noteq> (ptr, m)" using 2(5,8) a by (auto simp: apart_def)
      then have "all_areas k s4 R4 = insert (r, n) (all_areas k s R - {(ptr, m)})" using f(3) by auto
      moreover have "\<forall>i < min m sz. mh_byte s4 (r + i) = mh_byte s (ptr + i)" using f(4) 2(9) by (simp add: mh_copy_def)
      moreover have "mh_keeps s s4 (all_areas k s R - {(ptr, m)})"
      proof (rule mh_keeps_outside)
        show "\<forall>a \<in> all_areas k s R - {(ptr, m)}. apart (r, n) a" using 2(8) by blast
        show "\<forall>x. x < r \<or> r + n \<le> x \<longrightarrow> mh_byte s4 x = mh_byte s x" using f(4) 2(4,9) by (auto simp: mh_copy_def)
      qed
      ultimately have "mh_replaced k s R ptr m sz s4 R4 r" unfolding mh_replaced_def using 2(4,8) by blast
      moreover have "rt_realloc_mh ptr sz (k, s) = Some (k, s4, MRet r)"
        using e 2(1,2) f(1) by (simp add: sz2 mh_return_def)
      ultimately show thesis using that(2) 2(2) f(2) by blast
    qed
  qed
qed

lemma mh_sys_calloc:
  assumes all: "mh_all k s R" and sys: "sys_heap \<in> heaps_of k" and sz: "count * sz \<le> 2 ^ 32 - 4"
  obtains "rt_calloc_mh count sz (k, s) = Some (k, s, MRet 0)"
  | s' r m R' where "rt_calloc_mh count sz (k, s) = Some (k, s', MRet r)" "r \<noteq> 0" "mh_all k s' R'" "count * sz \<le> m"
      "all_areas k s' R' = insert (r, m) (all_areas k s R)" "\<forall>a \<in> all_areas k s R. apart (r, m) a"
      "\<forall>i < count * sz. mh_byte s' (r + i) = 0" "mh_keeps s s' (all_areas k s R)"
proof -
  have n: "count * sz mod 2 ^ 32 = count * sz" using sz by simp
  show thesis
  proof (cases rule: mh_sys_malloc[OF all sys sz])
    case (1 s')
    then show thesis by (intro that(1)) (unfold rt_calloc_mh_def Let_def n, simp)
  next
    case (2 s' r m R')
    let ?s = "mh_fill r 0 (count * sz) s'"
    have "rt_calloc_mh count sz (k, s) = Some (k, ?s, MRet r)" 
      using 2(1,2) unfolding rt_calloc_mh_def Let_def n by simp
    moreover have "mh_all k ?s R'" "all_areas k ?s R' = insert (r, m) (all_areas k s R)"
      using 2(3,7) mh_all_bytes[of ?s s'] by simp_all
    moreover have "mh_keeps s ?s (all_areas k s R)"
      by (rule mh_keeps_outside[OF _ 2(8)]) (use 2(4,9) in \<open>auto simp: mh_fill_def\<close>)
    ultimately show thesis using that(2) 2(2,4,8) by (simp add: mh_fill_def)
  qed
qed

section \<open>Setting a heap up\<close>

lemma object_init_registers:
  assumes inv: "kernel_inv k" "stacks_ok k" and cur: "k_current k = Some c"
    and new: "ob \<notin> set (k_containers k (class_of ob))" "class_of ob \<in> set container_classes" "plain_object ob"
  obtains k' where "rt_object_init ob (class_of ob) name k = Some k'" "kernel_inv k'" "stacks_ok k'" "k_current k' \<noteq> None"
    "k_containers k' = (k_containers k)(class_of ob := ob # k_containers k (class_of ob))"
    "k_objects k' = (k_objects k)(ob := \<lparr>o_name = take RT_NAME_MAX name, o_type = class_of ob, o_static = True\<rparr>)"
    "k_sems k' = k_sems k" "\<And>h. stat_of_list h \<noteq> RT_THREAD_READY \<Longrightarrow> k_lists k' h = k_lists k h"
proof -
  obtain k' where k': "rt_object_init ob (class_of ob) name k = Some k'" "kernel_inv k'" "stacks_ok k'" "k_current k' \<noteq> None"
    "\<forall>h. stat_of_list h \<noteq> RT_THREAD_READY \<longrightarrow> k_lists k' h = k_lists k h" using object_init_effect[OF assms] by blast
  obtain k1 where k1: "rt_exit_critical (rt_enter_critical k) = Some k1"
    "k' = object_attach ob \<lparr>o_name = take RT_NAME_MAX name, o_type = class_of ob, o_static = True\<rparr> k1"
    by (rule object_init_result[OF k'(1)])
  have "k_containers k1 = k_containers k" "k_objects k1 = k_objects k" "k_sems k1 = k_sems k"
    using k1(1) by (cases rule: exit_critical_result; auto dest!: rt_schedule_frame simp: same_objects_def rt_enter_critical_def)+
  then show thesis using that k' k1(2) by (simp add: object_attach_def)
qed

lemma memheap_init_effect:
  assumes inv: "kernel_inv k" "stacks_ok k" and cur: "k_current k = Some c" and all: "mh_all k s R" and p: "p \<noteq> 0"
    and new: "OMemHeap p \<notin> set (k_containers k RT_Object_Class_MemHeap)" "OSem lk \<notin> set (k_containers k RT_Object_Class_Semaphore)"
      "k_lists k (SemWait lk) = []"
    and al: "RT_ALIGN_SIZE dvd start_addr" "0 < start_addr" and pool: "pool = RT_ALIGN_DOWN sz RT_ALIGN_SIZE"
    and room: "2 * RT_MEMHEAP_SIZE \<le> pool" "start_addr + pool \<le> 2 ^ 32"
    and out: "hdr + RT_MEMHEAP_SIZE \<le> start_addr \<or> start_addr + pool \<le> hdr"
    and others: "\<forall>q \<in> heaps_of k. mh_span q s \<inter> insert hdr {start_addr ..< start_addr + pool} = {}"
  obtains k' s' where "rt_memheap_init p hdr lk name start_addr sz (k, s) = Some (k', s', RT_EOK)"
    "kernel_inv k'" "stacks_ok k'" "k_current k' \<noteq> None" "heaps_of k' = insert p (heaps_of k)"
    "k_containers k' RT_Object_Class_Semaphore = OSem lk # k_containers k RT_Object_Class_Semaphore"
    "mh_all k' s' (R(p := ([start_addr, start_addr + (pool - RT_MEMHEAP_SIZE)], [start_addr])))"
    "all_areas k' s' (R(p := ([start_addr, start_addr + (pool - RT_MEMHEAP_SIZE)], [start_addr]))) = all_areas k s R"
    "mheap s' p = \<lparr>mh_start = start_addr, mh_pool_size = pool, mh_available = pool - 2 * RT_MEMHEAP_SIZE,
       mh_max_used = 2 * RT_MEMHEAP_SIZE, mh_block_list = start_addr, mh_free_list = hdr, mh_lock = lk\<rparr>" 
    "\<And>q. q \<noteq> p \<Longrightarrow> mheap s' q = mheap s q" "mh_byte s' = mh_byte s"
    "\<And>h. stat_of_list h \<noteq> RT_THREAD_READY \<Longrightarrow> k_lists k' h = k_lists k h"
proof -
  note d = mh_allD[OF all]
  have cc: "class_of (OMemHeap p) \<in> set container_classes" "class_of (OSem lk) \<in> set container_classes"
    "plain_object (OMemHeap p)" "plain_object (OSem lk)" by (simp_all add: container_classes_def plain_object_def)
  obtain k1 where k1: "rt_object_init (OMemHeap p) RT_Object_Class_MemHeap name k = Some k1" "kernel_inv k1" "stacks_ok k1"
    "k_current k1 \<noteq> None" "k_containers k1 = (k_containers k)(RT_Object_Class_MemHeap := OMemHeap p # k_containers k RT_Object_Class_MemHeap)"
    "k_objects k1 = (k_objects k)(OMemHeap p := \<lparr>o_name = take RT_NAME_MAX name, o_type = RT_Object_Class_MemHeap, o_static = True\<rparr>)"
    "k_sems k1 = k_sems k" "\<And>h. stat_of_list h \<noteq> RT_THREAD_READY \<Longrightarrow> k_lists k1 h = k_lists k h"
    by (rule object_init_registers[OF inv cur _ cc(1,3), of name]) (use new in auto)
  obtain c1 where c1: "k_current k1 = Some c1" using k1(4) by blast
  obtain k2 where k2: "rt_object_init (OSem lk) RT_Object_Class_Semaphore name k1 = Some k2" "kernel_inv k2" "stacks_ok k2"
    "k_current k2 \<noteq> None" "k_containers k2 = (k_containers k1)(RT_Object_Class_Semaphore := OSem lk # k_containers k1 RT_Object_Class_Semaphore)"
    "k_objects k2 = (k_objects k1)(OSem lk := \<lparr>o_name = take RT_NAME_MAX name, o_type = RT_Object_Class_Semaphore, o_static = True\<rparr>)"
    "k_sems k2 = k_sems k1" "\<And>h. stat_of_list h \<noteq> RT_THREAD_READY \<Longrightarrow> k_lists k2 h = k_lists k1 h"
    by (rule object_init_registers[OF k1(2,3) c1 _ cc(2,4), of name]) (use new k1(5) in auto)
  let ?sem = "\<lparr>sem_flag = RT_IPC_FLAG_FIFO, sem_value = 1\<rparr>"
  obtain k3 where k3: "k3 = upd_sem lk (\<lambda>_. ?sem) k2" by blast
  have w: "k_lists k2 (SemWait lk) = []" using k1(8) k2(8) new(3) by simp
  then have si: "rt_sem_init lk name 1 RT_IPC_FLAG_FIFO k1 = Some k3"
    using k2(1) by (simp add: rt_sem_init_def Let_def rt_ipc_object_init_def tlist_init_def fun_upd_idem k3)
  obtain s' where s': "s' = memheap_setup p hdr lk start_addr sz s" by blast
  let ?fin = "start_addr + (pool - RT_MEMHEAP_SIZE)"
  let ?R = "R(p := ([start_addr, ?fin], [start_addr]))"
  note st = memheap_setup_effect[OF al pool room out s' refl]
  have r: "rt_memheap_init p hdr lk name start_addr sz (k, s) = Some (k3, s', RT_EOK)"
    using p k1(1) si by (simp add: rt_memheap_init_def Let_def s')
  have H: "heaps_of k3 = insert p (heaps_of k)" using k1(5) k2(5) by (auto simp: heaps_of_def k3 upd_sem_def)
  have np: "q \<noteq> p" if "q \<in> heaps_of k" for q using that new(1) by (auto simp: heaps_of_def)
  have old: "mh_rep q s' (fst (R q)) (snd (R q)) \<and> areas s' (fst (R q)) = areas s (fst (R q)) \<and> mh_span q s' = mh_span q s"
    if q: "q \<in> heaps_of k" for q
  proof -
    have t: "mheap s' q = mheap s q" using st(4) np[OF q] by simp
    have "item s' a = item s a" if "a \<in> mh_span q s" for a
      using st(6)[of a] others q that by fastforce
    from mh_rep_outside[OF d(3)[OF q] t this] show ?thesis using t by (simp add: mh_span_def)
  qed
  have sem: "mh_lock (mheap s q) \<noteq> lk" if "q \<in> heaps_of k" for q
  proof
    assume l: "mh_lock (mheap s q) = lk"
    have "o_type (k_objects k (OSem lk)) = RT_Object_Class_Semaphore" using d(4)[OF that] l by (simp add: mh_lock_free_def)
    then show False using kernel_invD(3)[OF inv(1)] new(2) unfolding registry_inv_def by auto
  qed
  have lock: "mh_lock_free q k3 s'" if q: "q \<in> heaps_of k3" for q
  proof (cases "q = p")
    case True
    then show ?thesis using p st(3) k1(6) k2(6) w by (simp add: mh_lock_free_def k3 upd_sem_def)
  next
    case False
    then have "q \<in> heaps_of k" using q H by simp
    moreover have "mheap s' q = mheap s q" using st(4) False by simp
    ultimately show ?thesis
      using d(4)[of q] sem[of q] False k1(6-8) k2(6-8) by (simp add: mh_lock_free_def k3 upd_sem_def)
  qed
  have spp: "mh_span p s' = insert hdr {start_addr ..< start_addr + pool}" using st(3) by (simp add: mh_span_def)
  have "mh_span p s' \<inter> mh_span q s' = {}" "mh_span q s' \<inter> mh_span p s' = {}" if "q \<in> heaps_of k" for q
    using others old[OF that] that unfolding spp by (simp_all add: Int_commute)
  then have "mh_span a s' \<inter> mh_span b s' = {}" if "a \<in> heaps_of k3" "b \<in> heaps_of k3" "a \<noteq> b" for a b
    using that d(5) old unfolding H by (metis insertE)
  moreover have "mh_rep q s' (fst (?R q)) (snd (?R q))" if "q \<in> heaps_of k3" for q
    using that st(1) old[of q] H by (cases "q = p") simp_all
  moreover have "k_containers k3 RT_Object_Class_MemHeap = OMemHeap p # k_containers k RT_Object_Class_MemHeap"
    using k1(5) k2(5) by (simp add: k3 upd_sem_def)
  ultimately have all3: "mh_all k3 s' ?R"
    unfolding mh_all_def using d(1,2) new(1) lock by auto
  have "areas s' (fst (?R q)) = areas s (fst (R q))" if "q \<in> heaps_of k" for q
    using old[OF that] np[OF that] by simp
  then have ar: "all_areas k3 s' ?R = all_areas k s R"
    using st(2) unfolding all_areas_def H by simp
  have ki: "kernel_inv k3" "stacks_ok k3" "k_current k3 \<noteq> None"
    using k2(2-4) by (simp_all add: k3 stacks_ok_def upd_sem_def)
  have "k_containers k3 RT_Object_Class_Semaphore = OSem lk # k_containers k RT_Object_Class_Semaphore"
    using k1(5) k2(5) by (simp add: k3 upd_sem_def)
  moreover have "k_lists k3 h = k_lists k h" if "stat_of_list h \<noteq> RT_THREAD_READY" for h
    using k1(8) k2(8) that by (simp add: k3)
  ultimately show thesis using that r ki H all3 ar st(3-5) by blast
qed

section \<open>Sizes near the end of the address space\<close>

lemma realloc_wrap_effect:
  assumes rep: "mh_rep p s L fs" and lk: "mh_lock_free p k s" and a: "(ptr, m) \<in> areas s L" "8 < m"
    and nf: "\<not> RT_MEMHEAP_IS_USED s (ptr + m)" and sz: "2 ^ 32 - 16 < sz" "sz \<le> 2 ^ 32 - 4"
  obtains s' where "rt_memheap_realloc p ptr sz (k, s) = Some (k, s', MRet ptr)"
    "ptr - RT_MEMHEAP_SIZE < mi_next (item s' (ptr - RT_MEMHEAP_SIZE))" "mi_next (item s' (ptr - RT_MEMHEAP_SIZE)) < ptr"
    "\<forall>L' fs'. mh_rep p s' L' fs' \<longrightarrow> ptr - RT_MEMHEAP_SIZE \<notin> set L'"
proof -
  note d = mh_repD[OF rep]
  let ?w = "mh_request sz"
  have "align32 sz = RT_ALIGN sz 4" "sz \<le> align32 sz" using align32_no_wrap[OF sz(2)] by simp_all
  moreover have "RT_ALIGN sz 4 < sz + 4" "4 dvd RT_ALIGN sz 4" by (simp_all add: RT_ALIGN_less RT_ALIGN_dvd)
  ultimately have w: "?w = align32 sz" "2 ^ 32 - 12 \<le> ?w" "?w \<le> 2 ^ 32 - 4"
    using sz by (simp_all add: mh_request_def Let_def memheap_consts) presburger+
  obtain us h c vs where h: "L = us @ h # c # vs" "ptr = h + RT_MEMHEAP_SIZE" "m = c - h - RT_MEMHEAP_SIZE" "h + RT_MEMHEAP_SIZE \<le> c"
    "MEMITEM_SIZE s h = m" "sub32 ptr RT_MEMHEAP_SIZE = h" "mi_next (item s h) = c" "c + RT_MEMHEAP_SIZE \<le> 2 ^ 32" "0 < h"
    by (rule mh_area[OF rep a(1)])
  have cf: "\<not> RT_MEMHEAP_IS_USED s c" using nf h(2-4) by simp
  then obtain c' vs' where v: "vs = c' # vs'" using d(5) h(1) by (cases vs) auto
  have g': "c + RT_MEMHEAP_SIZE \<le> c'" using d(3) by (simp add: h(1) v sorted_wrt_append)
  have c': "c' + RT_MEMHEAP_SIZE \<le> 2 ^ 32" using spaced_bounds[OF d(3), of c'] d(12) h(1) v by simp
  have "mi_next (item s c) = c'" using cycle_next[of "block_links s" "us @ [h]" c c' vs'] d(1) h(1) v by simp
  then have "MEMITEM_SIZE s c = c' - c - RT_MEMHEAP_SIZE" using g' by (simp add: MEMITEM_SIZE_def sub32_def)
  then have big: "add32 ?w RT_MEMHEAP_MINIALLOC < add32 (MEMITEM_SIZE s c) m"
    using w(2,3) a(2) g' c' h(3,4) by (simp add: add32_def memheap_consts le_mod_geq)
  obtain n where n: "n = add32 (h + RT_MEMHEAP_SIZE) ?w" by blast
  have nb: "h < n" "n < ptr"
    using n w(2,3) h(2,4,8) by (simp_all add: add32_def memheap_consts le_mod_geq)
  obtain s' where s': "s' = free_push p n (new_item p h n (drop_item_back c (free_unlink c (mh_account p (sub32 ?w m) s))))" by blast
  have ex: "expand_locked p h ?w m s = Some (s', True)"
    using big cf h(4,7) by (simp add: expand_locked_def Let_def rt_assert_def s' n memheap_consts)
  have mw: "m < ?w" using h(3,8) w(2) h(9) by (simp add: memheap_consts)
  have l: "mh_lock (mheap s' p) = mh_lock (mheap s p)" by (simp add: s' mh_account_def Let_def)
  let ?rest = "\<lambda>(k, s). do {
     (s, ok) \<leftarrow> expand_locked p h ?w m s; k \<leftarrow> mh_unlock p k s; if ok then Some (k, s, MRet ptr)
     else mh_then (rt_memheap_alloc p ?w) (\<lambda>new (k, s).
      if new \<noteq> 0 then mh_then (rt_memheap_free ptr) (\<lambda>_. mh_return new) (k, mh_copy new ptr (if m < ?w then m else ?w) s)
      else Some (k, s, MRet 0)) (k, s) }"
  obtain k1 where k1: "mh_locked p ?rest (k, s) = ?rest (k1, s)" "mh_unlock p k1 s' = Some k"
    by (rule mh_locked_free[OF lk, of ?rest]) (use l in blast)
  have "rt_memheap_realloc p ptr sz (k, s) = realloc_grow p ptr ?w m (k, s)"
    using lk h(2,5,6) mw sz(1) by (simp add: rt_memheap_realloc_def Let_def mh_lock_free_def rt_object_get_type_def memheap_consts)
  also have "\<dots> = ?rest (k1, s)" unfolding realloc_grow_def h(6) k1(1)[symmetric] ..
  also have "\<dots> = Some (k, s', MRet ptr)" using ex k1(2) by simp
  finally have r: "rt_memheap_realloc p ptr sz (k, s) = Some (k, s', MRet ptr)" .
  have hp: "ptr - RT_MEMHEAP_SIZE = h" using h(2) by simp
  have nx: "mi_next (item s' h) = n" by (simp add: s') (simp add: new_item_def Let_def)
  have "h \<notin> set L'" if r': "mh_rep p s' L' fs'" for L' fs'
  proof
    assume hL: "h \<in> set L'"
    note e = mh_repD[OF r']
    show False
    proof (cases "h = last L'")
      case True
      then have "hd L' = n" using cycle_ends[OF e(1)] nx by simp
      then show False using spaced_bounds[OF e(3) hL] True nb(1) by simp
    next
      case False
      then obtain us x vs where L: "L' = us @ h # x # vs" using split_successor[OF hL] by blast
      have "x = n" using cycle_next[of "block_links s'" us h x vs] e(1) L nx by simp
      moreover have "h + RT_MEMHEAP_SIZE \<le> x" using e(3) by (simp add: L sorted_wrt_append)
      ultimately show False using nb(2) h(2) by simp
    qed
  qed
  then show thesis using that[OF r] nb nx unfolding hp by blast
qed

text \<open>A request for all that a heap has left is refused, although one block would fit it exactly; a request
  for nothing takes twelve bytes; and a heap set up on no memory believes it has nearly all addresses.\<close>

lemma exact_fit_refused:
  assumes "mh_lock_free p k s" "mh_available (mheap s p) = mh_request sz"
  shows "rt_memheap_alloc p sz (k, s) = Some (k, s, MRet 0)"
  using assms by (simp add: rt_memheap_alloc_def Let_def mh_lock_free_def rt_object_get_type_def)

lemma alloc_nothing: "rt_memheap_alloc p 0 = rt_memheap_alloc p 1"
  by (simp add: rt_memheap_alloc_def mh_request_def align32_def RT_ALIGN_def RT_ALIGN_SIZE_def memheap_consts)

lemma heap_without_memory: "mh_available (mheap (memheap_setup p hdr lk a 0 s) p) = 2 ^ 32 - 48"
  by (simp add: memheap_setup_def Let_def RT_ALIGN_DOWN_def sub32_def memheap_consts)

section \<open>A system with two heaps\<close>

definition blank_memheaps :: memheaps where
  "blank_memheaps = \<lparr>mh_tab = (\<lambda>_. \<lparr>mh_start = 0, mh_pool_size = 0, mh_available = 0, mh_max_used = 0, mh_block_list = 0,
     mh_free_list = 0, mh_lock = 0\<rparr>),
     mh_item = (\<lambda>_. \<lparr>mi_magic = 0, mi_pool = 0, mi_next = 0, mi_prev = 0, mi_next_free = 0, mi_prev_free = 0\<rparr>), mh_byte = (\<lambda>_. 0)\<rparr>"

text \<open>The system heap, and a second one registered after it.\<close>

definition two_heaps :: "(kernel \<times> memheaps) option" where
  "two_heaps = do {
     (k, s, _) \<leftarrow> rt_system_heap_init_mh 0x10000000 1 0x20000000 0x20001000 (sample, blank_memheaps);
     (k, s, _) \<leftarrow> rt_memheap_init 2 0x10000100 2 ''sram'' 0x30000000 0x800 (k, s);
     Some (k, s) }"

lemma two_heaps_ok:
  obtains k s R where "two_heaps = Some (k, s)" "mh_all k s R" "heaps_of k = {1, 2}" "all_areas k s R = {}"
    "fst (R 1) = [0x20000000, 0x20000FE8]" "snd (R 1) = [0x20000000]" "kernel_inv k"
    "mh_available (mheap s 1) = 4048" "mh_available (mheap s 2) = 2000"
proof -
  have n0: "OMemHeap p \<notin> set (k_containers sample RT_Object_Class_MemHeap)"
    "OSem (Suc l) \<notin> set (k_containers sample RT_Object_Class_Semaphore)" "k_lists sample (SemWait (Suc l)) = []" for p l
    by (simp_all add: sample_containers_def sample_registered_def sample_lists_def)
  have all0: "mh_all sample blank_memheaps (\<lambda>_. ([], []))" "heaps_of sample = {}"
    using n0(1) by (simp_all add: mh_all_def heaps_of_def sample_containers_def sample_registered_def)
  have d: "RT_ALIGN_DOWN 0x1000 RT_ALIGN_SIZE = 0x1000" "RT_ALIGN_DOWN 0x800 RT_ALIGN_SIZE = 0x800"
    by (simp_all add: RT_ALIGN_DOWN_def RT_ALIGN_SIZE_def)
  obtain k1 s1 where i: "rt_memheap_init 1 0x10000000 1 ''heap'' 0x20000000 0x1000 (sample, blank_memheaps) = Some (k1, s1, RT_EOK)"
    "kernel_inv k1" "stacks_ok k1" "k_current k1 \<noteq> None" "heaps_of k1 = insert 1 (heaps_of sample)"
    "k_containers k1 RT_Object_Class_Semaphore = OSem 1 # k_containers sample RT_Object_Class_Semaphore"
    "mh_all k1 s1 ((\<lambda>_. ([], []))(1 := ([0x20000000, 0x20000000 + (0x1000 - RT_MEMHEAP_SIZE)], [0x20000000])))"
    "all_areas k1 s1 ((\<lambda>_. ([], []))(1 := ([0x20000000, 0x20000000 + (0x1000 - RT_MEMHEAP_SIZE)], [0x20000000]))) =
       all_areas sample blank_memheaps (\<lambda>_. ([], []))"
    "mheap s1 1 = \<lparr>mh_start = 0x20000000, mh_pool_size = 0x1000, mh_available = 0x1000 - 2 * RT_MEMHEAP_SIZE,
       mh_max_used = 2 * RT_MEMHEAP_SIZE, mh_block_list = 0x20000000, mh_free_list = 0x10000000, mh_lock = 1\<rparr>"
    "k_lists k1 (SemWait 2) = k_lists sample (SemWait 2)"
    by (rule memheap_init_effect[OF sample_inv sample_stacks_ok _ all0(1) _ n0(1) _ _ _ _ d(1)[symmetric], of 1 1 1 "0x20000000" "0x10000000" "''heap''"])
      (use n0(2,3)[of 0] all0(2) in \<open>simp_all add: RT_ALIGN_SIZE_def memheap_consts\<close>)
  obtain c1 where c1: "k_current k1 = Some c1" using i(4) by blast
  have h1: "heaps_of k1 = {1}" using i(5) all0(2) by simp
  then have "2 \<notin> heaps_of k1" by simp
  then have fresh: "OMemHeap 2 \<notin> set (k_containers k1 RT_Object_Class_MemHeap)" by (simp add: heaps_of_def)
  have fresh2: "OSem 2 \<notin> set (k_containers k1 RT_Object_Class_Semaphore)" "k_lists k1 (SemWait 2) = []"
    using n0(2)[of 1] i(6,10) n0(3)[of 1] by (simp_all add: numeral_2_eq_2)
  have sp: "mh_span 1 s1 = insert 0x10000000 {0x20000000 ..< 0x20001000}" using i(9) by (simp add: mh_span_def)
  let ?R = "(\<lambda>_. ([], []))(1 := ([0x20000000, 0x20000000 + (0x1000 - RT_MEMHEAP_SIZE)], [0x20000000])) :: mh_layout"
  obtain k2 s2 where j: "rt_memheap_init 2 0x10000100 2 ''sram'' 0x30000000 0x800 (k1, s1) = Some (k2, s2, RT_EOK)"
    "kernel_inv k2" "heaps_of k2 = insert 2 (heaps_of k1)"
    "mh_all k2 s2 (?R(2 := ([0x30000000, 0x30000000 + (0x800 - RT_MEMHEAP_SIZE)], [0x30000000])))"
    "all_areas k2 s2 (?R(2 := ([0x30000000, 0x30000000 + (0x800 - RT_MEMHEAP_SIZE)], [0x30000000]))) = all_areas k1 s1 ?R"
    "mheap s2 2 = \<lparr>mh_start = 0x30000000, mh_pool_size = 0x800, mh_available = 0x800 - 2 * RT_MEMHEAP_SIZE,
       mh_max_used = 2 * RT_MEMHEAP_SIZE, mh_block_list = 0x30000000, mh_free_list = 0x10000100, mh_lock = 2\<rparr>"
    "mheap s2 1 = mheap s1 1"
    by (rule memheap_init_effect[OF i(2,3) c1 i(7) _ fresh fresh2 _ _ d(2)[symmetric], of "0x30000000" "0x10000100" "''sram''"])
      (use sp h1 in \<open>simp_all add: RT_ALIGN_SIZE_def memheap_consts\<close>)
  have "two_heaps = Some (k2, s2)"
    using i(1) j(1) by (simp add: two_heaps_def rt_system_heap_init_mh_def sys_heap_def sub32_def)
  then show thesis
    by (rule that[OF _ j(4)]) (use j(2,3,5-7) i(8,9) h1 all0(2) in \<open>auto simp: all_areas_def memheap_consts\<close>)
qed

section \<open>The contract of an allocator\<close>

text \<open>With nothing in use a heap is again the one block it was set up with.\<close>

lemma mh_rep_empty:
  assumes rep: "mh_rep p s L fs" and e: "areas s L = {}"
  shows "L = [mh_start (mheap s p), mh_start (mheap s p) + mh_pool_size (mheap s p) - RT_MEMHEAP_SIZE]"
    "mh_available (mheap s p) = mh_pool_size (mheap s p) - 2 * RT_MEMHEAP_SIZE"
proof -
  note d = mh_repD[OF rep]
  obtain a b r where L: "L = a # b # r" using d(2) by (cases L; cases "tl L") auto
  have a: "\<not> RT_MEMHEAP_IS_USED s a" using e by (auto simp: areas_def L split: if_splits)
  have r: "r = []"
  proof (cases r)
    case (Cons c r')
    then have "\<not> RT_MEMHEAP_IS_USED s b" using e by (auto simp: areas_def L split: if_splits)
    then show ?thesis using a d(6) by (simp add: L)
  qed
  then show "L = [mh_start (mheap s p), mh_start (mheap s p) + mh_pool_size (mheap s p) - RT_MEMHEAP_SIZE]"
    using d(9,11) L by simp
  show "mh_available (mheap s p) = mh_pool_size (mheap s p) - 2 * RT_MEMHEAP_SIZE"
    using d(9,11,14) L r a by simp
qed

definition mh_ask :: "kernel \<Rightarrow> nat \<Rightarrow> memheaps \<Rightarrow> (memheaps \<times> nat) option" where
  "mh_ask k sz s = (case rt_malloc_mh sz (k, s) of Some (_, s', MRet p) \<Rightarrow> Some (s', p) | _ \<Rightarrow> None)"

definition mh_give_back :: "kernel \<Rightarrow> nat \<Rightarrow> memheaps \<Rightarrow> memheaps option" where
  "mh_give_back k p s = (case rt_free_mh p (k, s) of Some (_, s', MRet _) \<Rightarrow> Some s' | _ \<Rightarrow> None)"

definition mh_holds :: "kernel \<Rightarrow> memheaps \<Rightarrow> (nat \<times> nat) set \<Rightarrow> bool" where
  "mh_holds k s A \<longleftrightarrow> sys_heap \<in> heaps_of k \<and> (\<exists>R. mh_all k s R \<and> A = all_areas k s R)"

interpretation heaps: area_allocator "mh_holds k" "mh_ask k" "mh_give_back k" "2 ^ 32 - 4" for k
proof
  fix s A sz assume a: "mh_holds k s A" "sz \<le> (2 ^ 32 - 4 :: nat)"
  then obtain R where h: "sys_heap \<in> heaps_of k" "mh_all k s R" "A = all_areas k s R" by (auto simp: mh_holds_def)
  show "\<exists>s' p. mh_ask k sz s = Some (s', p) \<and> (if p = 0 then s' = s
      else \<exists>n. sz \<le> n \<and> 0 < n \<and> mh_holds k s' (insert (p, n) A) \<and> (\<forall>a \<in> A. apart (p, n) a))"
  proof (cases rule: mh_sys_malloc[OF h(2,1) a(2)])
    case (1 s')
    then show ?thesis by (intro exI[of _ s] exI[of _ 0]) (simp add: mh_ask_def)
  next
    case (2 s' r m R')
    then have "mh_holds k s' (insert (r, m) A)" using h(1,3) by (auto simp: mh_holds_def)
    then show ?thesis using 2 h(3) by (intro exI[of _ s'] exI[of _ r]) (auto simp: mh_ask_def)
  qed
next
  fix s A p n assume a: "mh_holds k s A" "(p, n) \<in> A" "0 < (n :: nat)"
  then obtain R where h: "sys_heap \<in> heaps_of k" "mh_all k s R" "A = all_areas k s R" by (auto simp: mh_holds_def)
  obtain s' R' where "rt_free_mh p (k, s) = Some (k, s', MRet 0)" "mh_all k s' R'" "all_areas k s' R' = A - {(p, n)}"
    by (rule mh_sys_free[OF h(2) a(2)[unfolded h(3)]]) (simp add: h(3))
  then show "\<exists>s'. mh_give_back k p s = Some s' \<and> mh_holds k s' (A - {(p, n)})"
    using h(1) by (intro exI[of _ s']) (auto simp: mh_give_back_def mh_holds_def)
qed

text \<open>Room for 100 bytes in the system with two heaps, and one area in use after the first request.\<close>

lemma mh_request_100: "mh_request 100 = 100"
  by (simp add: mh_request_def align32_def RT_ALIGN_def RT_ALIGN_SIZE_def memheap_consts)

lemma two_heaps_room:
  obtains k s R where "two_heaps = Some (k, s)" "mh_all k s R" "heaps_of k = {1, 2}" "all_areas k s R = {}" "snd (R 1) = [0x20000000]"
    "mh_available (mheap s 1) = 4048" "MEMITEM_SIZE s 0x20000000 = 4048"
proof -
  obtain k s R where t: "two_heaps = Some (k, s)" "mh_all k s R" "heaps_of k = {1, 2}" "all_areas k s R = {}"
    "fst (R 1) = [0x20000000, 0x20000FE8]" "snd (R 1) = [0x20000000]" "mh_available (mheap s 1) = 4048" by (rule two_heaps_ok)
  have "mh_rep 1 s [0x20000000, 0x20000FE8] [0x20000000]" using mh_allD(3)[OF t(2), of 1] t(3,5,6) by simp
  then have "mi_next (item s 0x20000000) = 0x20000FE8"
    using cycle_next[of "block_links s" "[]" "0x20000000" "0x20000FE8" "[]"] mh_repD(1) by simp
  then have "MEMITEM_SIZE s 0x20000000 = 4048" by (simp add: MEMITEM_SIZE_def sub32_def memheap_consts)
  then show thesis using that t by blast
qed

lemma two_heaps_malloc:
  obtains k s s1 p R n where "two_heaps = Some (k, s)" "rt_malloc_mh 100 (k, s) = Some (k, s1, MRet p)" "mh_all k s1 R"
    "heaps_of k = {1, 2}" "all_areas k s1 R = {(p, n)}" "100 \<le> n"
proof -
  obtain k s R where t: "two_heaps = Some (k, s)" "mh_all k s R" "heaps_of k = {1, 2}" "all_areas k s R = {}" "snd (R 1) = [0x20000000]"
    "mh_available (mheap s 1) = 4048" "MEMITEM_SIZE s 0x20000000 = 4048" by (rule two_heaps_room)
  have sys: "sys_heap \<in> heaps_of k" "(100 :: nat) \<le> 2 ^ 32 - 4" using t(3) by (simp_all add: sys_heap_def)
  show thesis
  proof (cases rule: mh_sys_malloc[OF t(2) sys])
    case (1 s')
    then show thesis using t(3,5-7) mh_request_100 by fastforce
  next
    case (2 s' r m R')
    then show thesis using that t(1,3,4) by auto
  qed
qed

section \<open>Properties\<close>



text \<open>C6. With several memory heaps registered, \<open>rt_realloc\<close> answers null and leaves everything as it was, or
  an area of at least the new size, in place, elsewhere in the heap or in another heap, that replaces the
  old one, apart from all others, with the contents of the old area up to the smaller size; the other
  areas keep their contents.\<close>

theorem heaps_realloc_refines:
  assumes "mh_all k s R" "sys_heap \<in> heaps_of k" "(ptr, m) \<in> all_areas k s R" "0 < sz" "sz \<le> 2 ^ 32 - 16"
  shows "\<exists>s' r R'. rt_realloc_mh ptr sz (k, s) = Some (k, s', MRet r) \<and> mh_all k s' R' \<and>
    (if r = 0 then s' = s
     else (\<exists>n \<ge> sz. all_areas k s' R' = insert (r, n) (all_areas k s R - {(ptr, m)}) \<and>
            (\<forall>a \<in> all_areas k s R - {(ptr, m)}. apart (r, n) a)) \<and>
          (\<forall>i < min m sz. mh_byte s' (r + i) = mh_byte s (ptr + i)) \<and> mh_keeps s s' (all_areas k s R - {(ptr, m)}))"
proof (cases rule: mh_sys_realloc[OF assms])
  case (1 s')
  then show ?thesis using assms(1) by (intro exI[of _ s] exI[of _ 0] exI[of _ R]) simp
next
  case (2 s' r R')
  then show ?thesis
    by (intro exI[of _ s'] exI[of _ r] exI[of _ R'] conjI) (simp_all add: mh_replaced_def)
qed

theorem heaps_realloc_refines_witness:
  "\<exists>k s s1 p s2 r. two_heaps = Some (k, s) \<and> rt_malloc_mh 100 (k, s) = Some (k, s1, MRet p) \<and>
     rt_realloc_mh p 500 (k, s1) = Some (k, s2, MRet r) \<and> (r \<noteq> 0 \<longrightarrow> (\<forall>i < 100. mh_byte s2 (r + i) = mh_byte s1 (p + i)))"
proof -
  obtain k s s1 p R n where t: "two_heaps = Some (k, s)" "rt_malloc_mh 100 (k, s) = Some (k, s1, MRet p)" "mh_all k s1 R"
    "heaps_of k = {1, 2}" "all_areas k s1 R = {(p, n)}" "100 \<le> n" by (rule two_heaps_malloc)
  obtain s2 r R2 where r: "rt_realloc_mh p 500 (k, s1) = Some (k, s2, MRet r)"
    "if r = 0 then s2 = s1 else (\<exists>m \<ge> 500. all_areas k s2 R2 = insert (r, m) (all_areas k s1 R - {(p, n)}) \<and>
        (\<forall>a \<in> all_areas k s1 R - {(p, n)}. apart (r, m) a)) \<and>
      (\<forall>i < min n 500. mh_byte s2 (r + i) = mh_byte s1 (p + i)) \<and> mh_keeps s1 s2 (all_areas k s1 R - {(p, n)})"
    using heaps_realloc_refines[OF t(3), of p n 500] t(4,5) by (auto simp: sys_heap_def)
  then have "r \<noteq> 0 \<longrightarrow> (\<forall>i < 100. mh_byte s2 (r + i) = mh_byte s1 (p + i))" using t(6) by auto
  then show ?thesis using t(1,2) r(1) by blast
qed

text \<open>C7. Whatever sequence of requests and returns a program makes of the memory heaps, no assertion fails,
  the areas it holds never overlap, and when it has given all of them back every heap is again the one
  free block it was set up with: fragmentation is undone and no byte is lost.\<close>

theorem heap_scripts_safe:
  assumes "mh_all k s R" "sys_heap \<in> heaps_of k" "all_areas k s R = {}" "\<forall>n. Ask n \<in> set ops \<longrightarrow> n \<le> 2 ^ 32 - 4"
  shows "\<exists>s' held R'. area_run (mh_ask k) (mh_give_back k) ops s [] = Some (s', held) \<and> mh_all k s' R' \<and>
    fst ` all_areas k s' R' = fst ` set held \<and>
    (\<forall>i < length held. \<forall>j < length held. i \<noteq> j \<longrightarrow> apart (held ! i) (held ! j)) \<and>
    (held = [] \<longrightarrow> (\<forall>p \<in> heaps_of k.
       fst (R' p) = [mh_start (mheap s' p), mh_start (mheap s' p) + mh_pool_size (mheap s' p) - RT_MEMHEAP_SIZE] \<and>
       mh_available (mheap s' p) = mh_pool_size (mheap s' p) - 2 * RT_MEMHEAP_SIZE))"
proof -
  have "mh_holds k s {}" using assms(1-3) by (auto simp: mh_holds_def)
  from heaps.run_safe[OF this assms(4)] obtain s' held A where
    r: "area_run (mh_ask k) (mh_give_back k) ops s [] = Some (s', held)" "mh_holds k s' A" "fst ` A = fst ` set held"
      "\<forall>i < length held. \<forall>j < length held. i \<noteq> j \<longrightarrow> apart (held ! i) (held ! j)" "held = [] \<longrightarrow> A = {}" by blast
  obtain R' where R': "mh_all k s' R'" "A = all_areas k s' R'" using r(2) by (auto simp: mh_holds_def)
  have "fst (R' p) = [mh_start (mheap s' p), mh_start (mheap s' p) + mh_pool_size (mheap s' p) - RT_MEMHEAP_SIZE] \<and>
       mh_available (mheap s' p) = mh_pool_size (mheap s' p) - 2 * RT_MEMHEAP_SIZE" if "held = []" "p \<in> heaps_of k" for p
  proof -
    have "areas s' (fst (R' p)) = {}" using r(5) R'(2) that by (auto simp: all_areas_def)
    then show ?thesis using mh_rep_empty[OF mh_allD(3)[OF R'(1) that(2)]] by blast
  qed
  then show ?thesis using r(1,3,4) R' by blast
qed

theorem heap_scripts_safe_witness:
  "\<exists>k s s' held. two_heaps = Some (k, s) \<and>
     area_run (mh_ask k) (mh_give_back k) [Ask 100, Ask 5000, Ask 1500, Give_back 0, Ask 64, Give_back 1] s [] = Some (s', held) \<and>
     (\<forall>i < length held. \<forall>j < length held. i \<noteq> j \<longrightarrow> apart (held ! i) (held ! j))"
proof -
  obtain k s R where t: "two_heaps = Some (k, s)" "mh_all k s R" "heaps_of k = {1, 2}" "all_areas k s R = {}" by (rule two_heaps_room)
  show ?thesis
    using heap_scripts_safe[OF t(2) _ t(4), of "[Ask 100, Ask 5000, Ask 1500, Give_back 0, Ask 64, Give_back 1]"] t(1,3)
    by (auto simp: sys_heap_def)
qed

text \<open>C8. The limits of the sizes: aligning the three largest 32-bit sizes wraps, and \<open>rt_memheap_alloc\<close> gives
  them twelve bytes; and for the twelve sizes below, \<open>rt_memheap_realloc\<close> of an area with a free block
  behind it reports that the area has grown in place, and links a free item that overlaps the header of
  the area, so that the heap is destroyed.\<close>

theorem memheap_sizes_wrap:
  assumes "mh_rep p s L fs" "mh_lock_free p k s" "(ptr, m) \<in> areas s L" "8 < m" "\<not> RT_MEMHEAP_IS_USED s (ptr + m)"
    "2 ^ 32 - 16 < sz" "sz \<le> 2 ^ 32 - 4" "2 ^ 32 - 4 < sz'" "sz' < 2 ^ 32"
  shows "rt_memheap_alloc p sz' = rt_memheap_alloc p 1 \<and>
    (\<exists>s'. rt_memheap_realloc p ptr sz (k, s) = Some (k, s', MRet ptr) \<and>
      ptr - RT_MEMHEAP_SIZE < mi_next (item s' (ptr - RT_MEMHEAP_SIZE)) \<and> mi_next (item s' (ptr - RT_MEMHEAP_SIZE)) < ptr \<and>
      (\<forall>L' fs'. mh_rep p s' L' fs' \<longrightarrow> ptr - RT_MEMHEAP_SIZE \<notin> set L'))"
proof
  have "sz' = 2 ^ 32 - 3 \<or> sz' = 2 ^ 32 - 2 \<or> sz' = 2 ^ 32 - 1" using assms(8,9) by auto
  then have "mh_request sz' = mh_request 1"
    by (auto simp: mh_request_def align32_def RT_ALIGN_def RT_ALIGN_SIZE_def memheap_consts)
  then show "rt_memheap_alloc p sz' = rt_memheap_alloc p 1" by (simp add: rt_memheap_alloc_def)
  show "\<exists>s'. rt_memheap_realloc p ptr sz (k, s) = Some (k, s', MRet ptr) \<and>
      ptr - RT_MEMHEAP_SIZE < mi_next (item s' (ptr - RT_MEMHEAP_SIZE)) \<and> mi_next (item s' (ptr - RT_MEMHEAP_SIZE)) < ptr \<and>
      (\<forall>L' fs'. mh_rep p s' L' fs' \<longrightarrow> ptr - RT_MEMHEAP_SIZE \<notin> set L')"
    by (rule realloc_wrap_effect[OF assms(1-7)]) blast
qed

theorem memheap_sizes_wrap_witness:
  "\<exists>k s s'. rt_memheap_realloc 1 0x20000018 0xFFFFFFF1 (k, s) = Some (k, s', MRet 0x20000018) \<and>
     areas s [0x20000000, 0x2000007C, 0x20000FE8] = {(0x20000018, 100)} \<and> mi_next (item s' 0x20000000) < 0x20000018"
proof -
  obtain k s R where t: "two_heaps = Some (k, s)" "mh_all k s R" "heaps_of k = {1, 2}" "all_areas k s R = {}"
    "fst (R 1) = [0x20000000, 0x20000FE8]" "snd (R 1) = [0x20000000]" by (rule two_heaps_ok)
  have rep: "mh_rep 1 s ([] @ 0x20000000 # 0x20000FE8 # []) ([] @ 0x20000000 # [])" using mh_allD(3)[OF t(2), of 1] t(3,5,6) by simp
  have e: "areas s ([] @ 0x20000000 # 0x20000FE8 # []) = {}" using t(3-5) by (auto simp: all_areas_def)
  obtain s1 where s1: "s1 = mark_item_used 0x20000000 (alloc_split 1 100 0x20000000 s)" by blast
  note al = alloc_split_effect[OF rep refl refl _ _ _ s1, of "0x2000007C"]
  have r: "mh_rep 1 s1 [0x20000000, 0x2000007C, 0x20000FE8] [0x2000007C]"
    "areas s1 [0x20000000, 0x2000007C, 0x20000FE8] = {(0x20000018, 100)}" "mh_frame 1 s s1"
    using al e by (simp_all add: memheap_consts RT_ALIGN_SIZE_def)
  have "mh_lock_free 1 k s1" using mh_allD(4)[OF t(2), of 1] t(3) mh_lock_free_frame[OF r(3)] by simp
  moreover have "\<not> RT_MEMHEAP_IS_USED s1 (0x20000018 + 100)"
  proof -
    have "0x2000007C \<in> set [0x2000007C :: nat]" by simp
    then have "\<not> RT_MEMHEAP_IS_USED s1 0x2000007C" unfolding mh_repD(8)[OF r(1)] by blast
    then show ?thesis by simp
  qed
  ultimately show ?thesis
    using memheap_sizes_wrap[OF r(1), of k "0x20000018" 100 "0xFFFFFFF1" "0xFFFFFFFF"] r(2) by (auto simp: memheap_consts)
qed

end
