(* ===== verification/Spec2Isabelle.thy ===== *)
theory Spec2Isabelle
  imports RingBuffer RingBlock Timer_Properties System Rt_List MemPool Completion DataQueue WaitQueue
    Kservice_Print Heap_Services Memheap_System
begin

text \<open>
  A verification library for the kernel of RT-Thread 4.0.1 as this repository builds it for the
  STM32L4 projects (\<^verbatim>\<open>rt-thread-4.0.1/src\<close>, \<^verbatim>\<open>rt-thread-4.0.1/include\<close> and the buffers, queues and completions of
  \<^verbatim>\<open>rt-thread-4.0.1/components/drivers\<close>; below, paths are relative to \<^verbatim>\<open>src/rt-thread-4.0.1\<close>).

  The program. A kernel of preemptive threads with 32 priorities on one processor. Threads, timers
  and IPC objects are C structures linked into intrusive lists: the ready table with its bitmap, one
  waiting list per IPC object, the list of active timers, the containers of the object registry. A
  thread that must wait puts itself on the list of an object, arms its timer and calls the
  scheduler; another thread, an interrupt or the timeout moves it back to the ready table. The tick
  interrupt advances the clock, ends time slices and runs expired timers.

  The model. One record \<open>kernel\<close> (theory \<^verbatim>\<open>Kernel_State\<close>) holds the globals of \<^verbatim>\<open>scheduler.c\<close>,
  \<^verbatim>\<open>timer.c\<close>, \<^verbatim>\<open>clock.c\<close>, \<^verbatim>\<open>irq.c\<close> and \<^verbatim>\<open>object.c\<close> and the tables of the structures. An operation
  is a function on it under the name the code has. The code disables interrupts around each critical
  section, so an operation is a sequence of atomic sections; a blocking call is cut at its
  \<^verbatim>\<open>rt_schedule()\<close>, and what the thread does when it runs again is a function of its own (suffix
  \<open>_resume\<close>). A failed \<^verbatim>\<open>RT_ASSERT\<close>, a null dereference and \<^verbatim>\<open>rt_list_entry\<close> on an empty list have no
  result: \<open>None\<close>.

  The theories, each importing those it calls:
  \<^item> \<^verbatim>\<open>Kernel_Prelude\<close>: machine types, error codes, alignment, block copies, circular indices.
  \<^item> \<^verbatim>\<open>Kernel_State\<close>: \<^verbatim>\<open>include/rtdef.h\<close>, the state, assertions, the view of the thread lists.
  \<^item> \<^verbatim>\<open>Rt_List\<close>: the pointer operations of \<^verbatim>\<open>include/rtservice.h\<close>. The locale \<open>intrusive_list\<close> is the
    contract of a doubly linked list; its interpretation on the code's assignments justifies that
    the other theories work with sequences of threads.
  \<^item> \<^verbatim>\<open>Bitmap\<close>, \<^verbatim>\<open>Scheduler\<close>: \<^verbatim>\<open>__rt_ffs\<close> of \<^verbatim>\<open>src/kservice.c\<close> and \<^verbatim>\<open>src/scheduler.c\<close>, with the
    invariant that ties bitmap, ready lists and thread states together.
  \<^item> \<^verbatim>\<open>Kernel_Object\<close>: \<^verbatim>\<open>src/object.c\<close>. \<^verbatim>\<open>Timer\<close>: \<^verbatim>\<open>src/timer.c\<close> without its check loop. \<^verbatim>\<open>Thread\<close>:
    \<^verbatim>\<open>src/thread.c\<close> and the initial stack frame of \<^verbatim>\<open>libcpu/arm/cortex-m4/cpuport.c\<close>. \<^verbatim>\<open>Clock\<close>: the
    check loop of the timers and \<^verbatim>\<open>src/clock.c\<close>. \<^verbatim>\<open>Idle\<close>: \<^verbatim>\<open>src/idle.c\<close>.
  \<^item> \<^verbatim>\<open>Kernel_Inv\<close>: \<open>kernel_inv\<close>, the invariant of the scheduler, the registry, the thread timers and
    the list of ended threads, and that the primitives of threads and timers keep it.
  \<^item> \<^verbatim>\<open>Ipc_Core\<close>, \<^verbatim>\<open>Semaphore\<close>, \<^verbatim>\<open>Mutex\<close>, \<^verbatim>\<open>Event\<close>, \<^verbatim>\<open>Mailbox\<close>, \<^verbatim>\<open>MessageQueue\<close>: \<^verbatim>\<open>src/ipc.c\<close>, every
    operation, each with an abstract object it implements.
  \<^item> \<^verbatim>\<open>Bounded_Fifo\<close>: the locale of a bounded queue, interpreted on the ring of the mailbox and on
    the ring buffer. \<^verbatim>\<open>RingBuffer\<close>: \<^verbatim>\<open>components/drivers/src/ringbuffer.c\<close>. \<^verbatim>\<open>RingBlock\<close>:
    \<^verbatim>\<open>components/drivers/src/ringblk_buf.c\<close>, blocks of any size cut out of a ring.
  \<^item> \<^verbatim>\<open>Frames\<close>, \<^verbatim>\<open>System\<close>: the composition. Threads' calls and interrupts in any order are a step
    relation; the invariants of all components hold in every reachable state and no call fails.
  \<^item> \<^verbatim>\<open>Area_Allocator\<close>: the locale of a memory allocator as its clients see it, interpreted on both
    allocators below. \<^verbatim>\<open>Small_Mem\<close>, \<^verbatim>\<open>Heap_Calls\<close>: the allocator of \<^verbatim>\<open>src/mem.c\<close>, its block structure
    and its calls under the heap semaphore.
  \<^item> \<^verbatim>\<open>Memheap\<close>, \<^verbatim>\<open>Memheap_Free\<close>, \<^verbatim>\<open>Memheap_Calls\<close>, \<^verbatim>\<open>Memheap_System\<close>: the memory heaps of
    \<^verbatim>\<open>src/memheap.c\<close>, the allocator of six of the projects. The sections under a heap's lock keep the
    invariant \<open>mh_rep\<close> of the ring of blocks and the ring of free blocks; the calls add the locks, and
    the last theory composes all registered heaps into one allocator. A call that has to wait is a
    resumption: its answer holds the rest of the call.
  \<^item> \<^verbatim>\<open>Direct_Wait\<close>: waiting as the objects outside \<^verbatim>\<open>ipc.c\<close> do it. \<^verbatim>\<open>MemPool\<close>: \<^verbatim>\<open>src/mempool.c\<close>.
    \<^verbatim>\<open>Completion\<close>, \<^verbatim>\<open>DataQueue\<close>, \<^verbatim>\<open>WaitQueue\<close>: the files \<^verbatim>\<open>completion.c\<close>, \<^verbatim>\<open>dataqueue.c\<close> and
    \<^verbatim>\<open>waitqueue.c\<close> of \<^verbatim>\<open>components/drivers/src\<close>, each a table of objects beside the kernel state.
  \<^item> \<^verbatim>\<open>Kservice_Mem\<close>, \<^verbatim>\<open>Kservice_Str\<close>, \<^verbatim>\<open>Kservice_Print\<close>: the memory, string and formatting functions of
    \<^verbatim>\<open>src/kservice.c\<close> over a byte memory in which an access outside the mapped addresses has no
    result. \<^verbatim>\<open>Heap_Services\<close>: its aligned allocation and \<^verbatim>\<open>rt_strdup\<close>, over the heap.
  \<^item> \<^verbatim>\<open>Thread_Properties\<close>, \<^verbatim>\<open>Timer_Properties\<close>: what threads and timers promise. \<^verbatim>\<open>Sample_State\<close>: a
    concrete running system on which the hypotheses of the theorems are met.

  The lemmas. Each component has lemmas \<open><operation>_effect\<close> that give, from the invariant, that the
  call returns, keeps the invariant and has its functional effect on every branch; the properties
  are these, and refinements of abstract objects, stated over the code's definitions. The lemmas on
  frames are collected in \<open>frame_rules\<close>, the preservation lemmas in \<open>rt_inv\<close>.

  Bounds. Integers keep their width where it matters: ticks, bit masks, the counters of semaphores,
  mutexes and interrupts are words, and the theorems say where they wrap; 16-bit fields of mailboxes
  and queues are truncated when stored; the sizes of the allocator are numbers whose 32-bit
  arithmetic wraps explicitly. Addresses and counts that an invariant keeps small are numbers. Loops
  whose end depends on the state (the timer check, waking all waiters, the idle thread, the searches
  of the allocator, walking a pointer list) are \<open>partial_function\<close>s, so that not ending is \<open>None\<close>,
  and their theorems say that they end. No fuel is used.

  Parameters. Timer functions, clean-up functions and idle hooks are arguments, with the assumptions
  \<open>callback_ok\<close>, \<open>callbacks_ok\<close> and \<open>cleanup_ok\<close> on what they leave alone. \<^verbatim>\<open>rt_object_allocate\<close> and
  the creating calls take the allocator's answer as an argument.

  Not modelled. The SMP branches, signals, loadable modules, hooks and the soft timer thread, which
  the projects' \<^verbatim>\<open>rtconfig.h\<close> does not build or leaves unset; the processor context switch
  (assembly), of which the model keeps the change of the current thread; console output; the slab
  allocator, which no project selects; device registration and driver classes; the file systems,
  network stacks, shell and C library under \<^verbatim>\<open>components\<close>; the STM32 HAL, CMSIS and the drivers on it;
  the sample applications. Most of that is third-party or generated code, or calls the kernel only
  through the functions modelled here.
\<close>

end
